(* ===== verification/Nacl_Prelude.thy ===== *)
theory Nacl_Prelude
  imports Main "HOL-Library.Word" "HOL-Library.Multiset"
begin

text \<open>
  Shared vocabulary of the development.

  \<^item> The machine integers of the code: \<open>size_t\<close>, \<open>uintptr_t\<close> and the 64-bit file
    offsets are 64-bit words, \<open>uint32_t\<close> and \<open>int\<close> flag sets are 32-bit words (the
    code is modelled as its x86-64 build).
  \<^item> The outcome of C code that may stop the process: a value of the sum
    \<open>fatal + 'a\<close>, with one constructor of \<open>fatal\<close> for each way of stopping, and the
    sequencing operator \<open>andThen\<close>.
  \<^item> The two library routines \<open>qsort\<close> and \<open>bsearch\<close> on a comparison function, with
    the facts their callers use.
\<close>

unbundle bit_operations_syntax

named_theorems run_simps \<open>rewrite rules for the outcome type\<close>
named_theorems nat_of_word \<open>rules that move a comparison of words to natural numbers\<close>

subsection \<open>Machine integers\<close>

type_synonym u8 = "8 word"
type_synonym u16 = "16 word"
type_synonym u32 = "32 word"
type_synonym u64 = "64 word"

declare word_less_nat_alt [nat_of_word] word_le_nat_alt [nat_of_word]

lemma unat_add_small [nat_of_word]:
  fixes a b :: "'n::len word"
  shows "unat a + unat b < 2 ^ LENGTH('n) \<Longrightarrow> unat (a + b) = unat a + unat b"
  by (simp add: unat_word_ariths)

lemma unat_sub_small [nat_of_word]:
  fixes a b :: "'n::len word"
  shows "unat b \<le> unat a \<Longrightarrow> unat (a - b) = unat a - unat b"
  by (simp add: unat_sub word_le_nat_alt)

lemma word_eq_unatI: "unat a = unat b \<Longrightarrow> a = (b :: 'n::len word)"
  by (rule word_unat_eq_iff [THEN iffD2])

lemma word_less_plus_one: "m < l \<Longrightarrow> f < m \<Longrightarrow> f < m + (1 :: 'n::len word)"
  by unat_arith

lemma of_nat_word_eq_0:
  "k < 2 ^ LENGTH('n) \<Longrightarrow> (of_nat k :: 'n::len word) = 0 \<longleftrightarrow> k = 0"
  by (auto simp: word_of_nat_eq_0_iff dest: dvd_imp_le)

lemma unat_lt64: "unat (x :: u64) < 2 ^ 64"
  using unsigned_less [of x] by simp

lemma unat_lt32: "unat (x :: u32) < 2 ^ 32"
  by (rule less_le_trans [OF unsigned_less]) simp

lemma unat_ucast_up: "unat (ucast (x :: u32) :: u64) = unat x"
proof -
  have "unat x < 2 ^ 32" by (rule unat_lt32)
  then have "unat x < 2 ^ 64" by (rule less_trans) simp
  then show ?thesis by (simp add: unsigned_ucast_eq take_bit_nat_eq_self)
qed

lemma ucast_down_up: "ucast (ucast (x :: u32) :: u64) = x"
  by (rule bit_word_eqI) (auto simp: bit_ucast_iff)

text \<open>A C \<open>int\<close> that is not negative.\<close>

lemma sint_small:
  assumes "unat (d :: u32) < 2 ^ 31"
  shows "sint d = int (unat d)"
proof -
  have "uint d < 2 ^ 31" using assms by (metis of_nat_less_iff of_nat_numeral of_nat_power uint_nat)
  moreover have "- (2 ^ 31) \<le> uint d" by (rule order_trans [of _ 0]) simp_all
  ultimately have "signed_take_bit 31 (uint d) = uint d" by (intro signed_take_bit_int_eq_self)
  then have "sint d = uint d" by (simp add: sint_uint)
  then show ?thesis by (simp only: uint_nat)
qed

text \<open>Signed 64-bit values, and differences that may wrap around.\<close>

lemma sint_cases:
  "sint (w :: u64) = (if unat w < 2 ^ 63 then int (unat w) else int (unat w) - 2 ^ 64)"
proof -
  define n where "n = unat w"
  have n: "uint w = int n" "n < 2 ^ 64"
    unfolding n_def by (rule uint_nat) (rule less_le_trans [OF unsigned_less], simp)
  have "sint w = (int n + 2 ^ 63) mod 2 ^ 64 - 2 ^ 63"
    unfolding n(1) [symmetric] by (simp add: sint_uint signed_take_bit_eq_take_bit_shift take_bit_eq_mod)
  moreover have "(int n + 2 ^ 63) mod 2 ^ 64 = (if n < 2 ^ 63 then int n + 2 ^ 63 else int n - 2 ^ 63)"
  proof (cases "n < 2 ^ 63")
    case True
    then show ?thesis by (simp add: mod_pos_pos_trivial)
  next
    case False
    have "(int n + 2 ^ 63) mod 2 ^ 64 = (int n - 2 ^ 63 + 2 ^ 64) mod 2 ^ 64" by (simp add: add.commute)
    also have "\<dots> = (int n - 2 ^ 63) mod 2 ^ 64" by (rule mod_add_self2)
    also have "\<dots> = int n - 2 ^ 63" using False n(2) by (intro mod_pos_pos_trivial) simp_all
    finally show ?thesis using False by simp
  qed
  ultimately show ?thesis unfolding n_def [symmetric] by simp
qed

lemma diff_of_nat:
  fixes o' :: u64
  assumes "k < 2 ^ 63"
  shows "k \<le> unat o' \<Longrightarrow> unat (o' - of_nat k) = unat o' - k"
    and "unat o' < k \<Longrightarrow> unat (o' - of_nat k) = 2 ^ 64 + unat o' - k"
proof -
  have k: "unat (of_nat k :: u64) = k" using assms by (simp add: unat_of_nat take_bit_nat_eq_self)
  show "unat (o' - of_nat k) = unat o' - k" if "k \<le> unat o'"
    using that k by (simp add: unat_sub word_le_nat_alt)
  show "unat (o' - of_nat k) = 2 ^ 64 + unat o' - k" if "unat o' < k"
    using that k by (simp add: unat_sub_if')
qed

subsection \<open>Outcomes\<close>

text \<open>
  \<open>NaClLog(LOG_FATAL, ...)\<close> and a failing \<open>CHECK\<close> abort the process; the other
  constructors are undefined behaviour of C that the code could run into, and a loop that does
  not end, kept apart so that a theorem can say that it never does.
\<close>

datatype fatal =
    LogFatal
  | CheckFailed
  | AssertFailed
  | NullDeref
  | OutOfBounds
  | Diverges

type_synonym 'a run = "fatal + 'a"

fun andThen :: "'a run \<Rightarrow> ('a \<Rightarrow> 'b run) \<Rightarrow> 'b run" where
  "andThen (Inl e) f = Inl e"
| "andThen (Inr x) f = f x"

lemma andThen_eq_Inr [run_simps]:
  "andThen r f = Inr y \<longleftrightarrow> (\<exists>x. r = Inr x \<and> f x = Inr y)"
  by (cases r) auto

lemma andThen_Inr_right [simp]: "andThen r Inr = r"
  by (cases r) auto

lemma andThen_assoc: "andThen (andThen r f) g = andThen r (\<lambda>x. andThen (f x) g)"
  by (cases r) auto

text \<open>\<open>check c\<close> is the macro \<open>CHECK(c)\<close>.\<close>

definition check :: "bool \<Rightarrow> unit run" where
  "check c = (if c then Inr () else Inl CheckFailed)"

lemma check_simps [simp]: "check True = Inr ()" "check False = Inl CheckFailed"
  by (simp_all add: check_def)

text \<open>\<open>cassert c\<close> is the standard \<open>assert(c)\<close> of a debug build.\<close>

definition cassert :: "bool \<Rightarrow> unit run" where
  "cassert c = (if c then Inr () else Inl AssertFailed)"

lemma cassert_simps [simp]: "cassert True = Inr ()" "cassert False = Inl AssertFailed"
  by (simp_all add: cassert_def)

text \<open>\<open>run_ok r Q\<close>: the run ends in a state with \<open>Q\<close>, or the code aborts by its own decision
  (\<open>LOG_FATAL\<close>); no check fails and nothing undefined happens.\<close>

definition run_ok :: "'a run \<Rightarrow> ('a \<Rightarrow> bool) \<Rightarrow> bool" where
  "run_ok r Q \<longleftrightarrow> (case r of Inl e \<Rightarrow> e = LogFatal | Inr x \<Rightarrow> Q x)"

lemma run_ok_simps [simp]: "run_ok (Inr x) Q \<longleftrightarrow> Q x" "run_ok (Inl e) Q \<longleftrightarrow> e = LogFatal"
  by (simp_all add: run_ok_def)

lemma run_ok_bind:
  "run_ok r Q \<Longrightarrow> (\<And>x. r = Inr x \<Longrightarrow> Q x \<Longrightarrow> run_ok (f x) R) \<Longrightarrow> run_ok (andThen r f) R"
  by (cases r) auto

lemma run_ok_weaken: "run_ok r Q \<Longrightarrow> (\<And>x. Q x \<Longrightarrow> R x) \<Longrightarrow> run_ok r R"
  by (cases r) auto

lemma run_okD: "run_ok r Q \<Longrightarrow> r = Inr x \<Longrightarrow> Q x"
  by simp

text \<open>\<open>run_unless A r Q\<close>: as \<open>run_ok\<close>, and the code aborts only in circumstances \<open>A\<close>.\<close>

definition run_unless :: "bool \<Rightarrow> 'a run \<Rightarrow> ('a \<Rightarrow> bool) \<Rightarrow> bool" where
  "run_unless A r Q \<longleftrightarrow> (case r of Inl e \<Rightarrow> e = LogFatal \<and> A | Inr x \<Rightarrow> Q x)"

lemma run_unless_simps [simp]:
  "run_unless A (Inr x) Q \<longleftrightarrow> Q x" "run_unless A (Inl e) Q \<longleftrightarrow> e = LogFatal \<and> A"
  by (simp_all add: run_unless_def)

lemma run_unless_bind:
  "run_unless A r Q \<Longrightarrow> (\<And>x. r = Inr x \<Longrightarrow> Q x \<Longrightarrow> run_unless A (f x) R) \<Longrightarrow> run_unless A (andThen r f) R"
  by (cases r) auto

lemma run_unless_weaken:
  "run_unless A r Q \<Longrightarrow> (A \<Longrightarrow> B) \<Longrightarrow> (\<And>x. Q x \<Longrightarrow> R x) \<Longrightarrow> run_unless B r R"
  by (cases r) auto

lemma run_unlessE: "run_unless A r Q \<Longrightarrow> \<not> A \<Longrightarrow> \<exists>x. r = Inr x \<and> Q x"
  by (cases r) auto

lemma run_unless_ok: "run_unless A r Q \<Longrightarrow> run_ok r Q"
  by (cases r) auto

lemma run_ok_unless: "run_ok r Q = run_unless True r Q"
  by (cases r) auto

text \<open>C's conversion of a comparison to \<open>int\<close>.\<close>

definition b2i :: "bool \<Rightarrow> int" where
  "b2i b = (if b then 1 else 0)"

lemma b2i_eq_0 [simp]: "b2i b = 0 \<longleftrightarrow> \<not> b"
  by (simp add: b2i_def)

end
