(* ===== verification/Nacl_Config.thy ===== *)
theory Nacl_Config
  imports Nacl_Prelude
begin

text \<open>
  The constants of \<open>nacl_config.h\<close>, \<open>include/bits/mman.h\<close>, \<open>include/sys/fcntl.h\<close> and
  \<open>include/sys/errno.h\<close> that the modelled code uses, and the page arithmetic of
  \<open>sel_util-inl.h\<close>, with what each rounding computes on natural numbers.
\<close>

subsection \<open>Constants\<close>

abbreviation (input) NACL_PAGESHIFT :: nat where "NACL_PAGESHIFT \<equiv> 12"
abbreviation (input) NACL_MAP_PAGESHIFT :: nat where "NACL_MAP_PAGESHIFT \<equiv> 16"
abbreviation (input) NACL_PAGESIZE :: "'n::len word" where "NACL_PAGESIZE \<equiv> 0x1000"
abbreviation (input) NACL_MAP_PAGESIZE :: "'n::len word" where "NACL_MAP_PAGESIZE \<equiv> 0x10000"
abbreviation (input) NACL_PAGES_PER_MAP :: "'n::len word" where "NACL_PAGES_PER_MAP \<equiv> 16"

abbreviation (input) PROT_NONE :: u32 where "PROT_NONE \<equiv> 0"
abbreviation (input) PROT_READ :: u32 where "PROT_READ \<equiv> 1"
abbreviation (input) PROT_WRITE :: u32 where "PROT_WRITE \<equiv> 2"
abbreviation (input) PROT_EXEC :: u32 where "PROT_EXEC \<equiv> 4"

abbreviation (input) MAP_SHARED :: u32 where "MAP_SHARED \<equiv> 1"
abbreviation (input) MAP_PRIVATE :: u32 where "MAP_PRIVATE \<equiv> 2"
abbreviation (input) MAP_FIXED :: u32 where "MAP_FIXED \<equiv> 0x10"
abbreviation (input) MAP_ANONYMOUS :: u32 where "MAP_ANONYMOUS \<equiv> 0x20"

abbreviation (input) O_ACCMODE :: u32 where "O_ACCMODE \<equiv> 3"
abbreviation (input) O_RDONLY :: u32 where "O_RDONLY \<equiv> 0"
abbreviation (input) O_WRONLY :: u32 where "O_WRONLY \<equiv> 1"
abbreviation (input) O_RDWR :: u32 where "O_RDWR \<equiv> 2"

abbreviation (input) EPERM :: int where "EPERM \<equiv> 1"
abbreviation (input) ENOENT :: int where "ENOENT \<equiv> 2"
abbreviation (input) EIO :: int where "EIO \<equiv> 5"
abbreviation (input) EBADF :: int where "EBADF \<equiv> 9"
abbreviation (input) EAGAIN :: int where "EAGAIN \<equiv> 11"
abbreviation (input) ENOMEM :: int where "ENOMEM \<equiv> 12"
abbreviation (input) EACCES :: int where "EACCES \<equiv> 13"
abbreviation (input) EFAULT :: int where "EFAULT \<equiv> 14"
abbreviation (input) EBUSY :: int where "EBUSY \<equiv> 16"
abbreviation (input) ENODEV :: int where "ENODEV \<equiv> 19"
abbreviation (input) EINVAL :: int where "EINVAL \<equiv> 22"
abbreviation (input) EMFILE :: int where "EMFILE \<equiv> 24"
abbreviation (input) ENOSYS :: int where "ENOSYS \<equiv> 38"
abbreviation (input) ETIMEDOUT :: int where "ETIMEDOUT \<equiv> 110"

subsection \<open>Page arithmetic (sel_util-inl.h)\<close>

definition NaClRoundPage :: "u64 \<Rightarrow> u64" where
  "NaClRoundPage nbytes = (nbytes + NACL_PAGESIZE - 1) AND NOT (NACL_PAGESIZE - 1)"

definition NaClRoundAllocPage :: "u64 \<Rightarrow> u64" where
  "NaClRoundAllocPage nbytes = (nbytes + NACL_MAP_PAGESIZE - 1) AND NOT (NACL_MAP_PAGESIZE - 1)"

definition NaClTruncPage :: "u64 \<Rightarrow> u64" where
  "NaClTruncPage nbytes = nbytes AND NOT (NACL_PAGESIZE - 1)"

definition NaClTruncAllocPage :: "u64 \<Rightarrow> u64" where
  "NaClTruncAllocPage nbytes = nbytes AND NOT (NACL_MAP_PAGESIZE - 1)"

definition NaClBytesToPages :: "u64 \<Rightarrow> u64" where
  "NaClBytesToPages nbytes = drop_bit NACL_PAGESHIFT (nbytes + NACL_PAGESIZE - 1)"

definition NaClIsPageMultiple :: "u64 \<Rightarrow> bool" where
  "NaClIsPageMultiple addr_or_size \<longleftrightarrow> (NACL_PAGESIZE - 1) AND addr_or_size = 0"

definition NaClIsAllocPageMultiple :: "u64 \<Rightarrow> bool" where
  "NaClIsAllocPageMultiple addr_or_size \<longleftrightarrow> (NACL_MAP_PAGESIZE - 1) AND addr_or_size = 0"

text \<open>The host allocation unit is the page on every system but Windows.\<close>

definition NaClRoundHostAllocPage :: "u64 \<Rightarrow> u64" where
  "NaClRoundHostAllocPage nbytes = NaClRoundPage nbytes"

definition NaClRoundPageNumUpToMapMultiple :: "u64 \<Rightarrow> u64" where
  "NaClRoundPageNumUpToMapMultiple npages =
     (npages + NACL_PAGES_PER_MAP - 1) AND NOT (NACL_PAGES_PER_MAP - 1)"

definition NaClTruncPageNumDownToMapMultiple :: "u64 \<Rightarrow> u64" where
  "NaClTruncPageNumDownToMapMultiple npages = npages AND NOT (NACL_PAGES_PER_MAP - 1)"

subsection \<open>What the roundings compute\<close>

lemma unat_and_not_mask:
  fixes x :: "'n::len word"
  shows "unat (x AND NOT (mask k)) = unat x div 2 ^ k * 2 ^ k"
proof -
  have "x AND NOT (mask k) = push_bit k (drop_bit k x)"
    by (rule bit_word_eqI) (auto simp: bit_simps)
  moreover have "unat (push_bit k (drop_bit k x)) = unat x div 2 ^ k * 2 ^ k"
  proof -
    have "unat x div 2 ^ k * 2 ^ k \<le> unat x" by simp
    also have "\<dots> < 2 ^ LENGTH('n)" by simp
    finally have "unat x div 2 ^ k * 2 ^ k < 2 ^ LENGTH('n)" .
    moreover have "unat (push_bit k (drop_bit k x)) =
        take_bit LENGTH('n) (push_bit k (drop_bit k (unat x)))"
      by (simp only: unsigned_push_bit_eq unsigned_drop_bit_eq take_bit_nat_eq_self
          [OF unsigned_less])
    ultimately show ?thesis
      by (simp add: push_bit_eq_mult drop_bit_eq_div take_bit_nat_eq_self)
  qed
  ultimately show ?thesis by simp
qed

lemma mask_numerals:
  "(15 :: 'n::len word) = mask 4" "(0xfff :: 'n::len word) = mask 12"
  "(0xffff :: 'n::len word) = mask 16"
  by (simp_all add: mask_eq_exp_minus_1)

lemma mask_and_eq_0: "mask k AND (x :: 'n::len word) = 0 \<longleftrightarrow> 2 ^ k dvd unat x"
proof -
  have "mask k AND x = 0 \<longleftrightarrow> unat (take_bit k x) = unat (0 :: 'n word)"
    by (simp only: word_unat_eq_iff [symmetric] take_bit_eq_mask and.commute)
  also have "unat (take_bit k x) = take_bit k (unat x)"
    by (rule unsigned_take_bit_eq)
  finally show ?thesis
    by (simp add: take_bit_eq_mod dvd_eq_mod_eq_0)
qed

lemma unat_add_mask:
  "unat x + k < 2 ^ 64 \<Longrightarrow> unat (x + of_nat k) = unat x + k" for x :: u64
  by (subst unat_add_small) (simp_all add: unat_of_nat take_bit_nat_eq_self)

lemma trunc_nat:
  "unat (NaClTruncPage n) = unat n div 4096 * 4096"
  "unat (NaClTruncAllocPage n) = unat n div 65536 * 65536"
  "unat (NaClTruncPageNumDownToMapMultiple n) = unat n div 16 * 16"
  by (simp_all add: NaClTruncPage_def NaClTruncAllocPage_def
      NaClTruncPageNumDownToMapMultiple_def mask_numerals unat_and_not_mask)

lemma round_nat:
  "unat n + 4095 < 2 ^ 64 \<Longrightarrow> unat (NaClRoundPage n) = (unat n + 4095) div 4096 * 4096"
  "unat n + 65535 < 2 ^ 64 \<Longrightarrow> unat (NaClRoundAllocPage n) = (unat n + 65535) div 65536 * 65536"
  "unat n + 15 < 2 ^ 64 \<Longrightarrow> unat (NaClRoundPageNumUpToMapMultiple n) = (unat n + 15) div 16 * 16"
  using unat_add_mask [of n 4095] unat_add_mask [of n 65535] unat_add_mask [of n 15]
  by (simp_all add: NaClRoundPage_def NaClRoundAllocPage_def NaClRoundPageNumUpToMapMultiple_def
      mask_numerals unat_and_not_mask add_diff_eq [symmetric])

lemma is_multiple_nat:
  "NaClIsPageMultiple n \<longleftrightarrow> 4096 dvd unat n"
  "NaClIsAllocPageMultiple n \<longleftrightarrow> 65536 dvd unat n"
  by (simp_all add: NaClIsPageMultiple_def NaClIsAllocPageMultiple_def mask_numerals mask_and_eq_0)

text \<open>Rounding up is the identity on multiples, and wraps to 0 at the top of the range.\<close>

lemma round_alloc_multiple:
  "NaClIsAllocPageMultiple n \<Longrightarrow> NaClRoundAllocPage n = n"
proof -
  assume "NaClIsAllocPageMultiple n"
  then obtain k where k: "unat n = 65536 * k" by (auto simp: is_multiple_nat elim: dvdE)
  have "unat n < 2 ^ 64" using unsigned_less [of n] by simp
  with k have "unat n + 65535 < 2 ^ 64" by simp
  then show ?thesis
    by (intro word_eq_unatI) (simp add: round_nat k)
qed

lemma round_page_multiple: "NaClIsPageMultiple n \<Longrightarrow> NaClRoundPage n = n"
proof -
  assume "NaClIsPageMultiple n"
  then obtain k where k: "unat n = 4096 * k" by (auto simp: is_multiple_nat elim: dvdE)
  have "unat n < 2 ^ 64" using unsigned_less [of n] by simp
  with k have "unat n + 4095 < 2 ^ 64" by simp
  then show ?thesis
    by (intro word_eq_unatI) (simp add: round_nat k)
qed

end
