(* ===== verification/C_Stdlib.thy ===== *)
theory C_Stdlib
  imports Nacl_Prelude
begin

text \<open>
  The two C library routines that the memory map calls with a comparison function.
  \<open>qsort\<close> is an insertion sort here: where no two elements compare equal, every sorting
  routine returns the same array (\<open>qsort_by_unique\<close>).  \<open>bsearch\<close> is the bisection of the
  C library.
\<close>

subsection \<open>qsort\<close>

fun insort_by :: "('a \<Rightarrow> 'a \<Rightarrow> int) \<Rightarrow> 'a \<Rightarrow> 'a list \<Rightarrow> 'a list" where
  "insort_by cmp x [] = [x]"
| "insort_by cmp x (y # ys) = (if cmp x y \<le> 0 then x # y # ys else y # insort_by cmp x ys)"

fun qsort_by :: "('a \<Rightarrow> 'a \<Rightarrow> int) \<Rightarrow> 'a list \<Rightarrow> 'a list" where
  "qsort_by cmp [] = []"
| "qsort_by cmp (x # xs) = insort_by cmp x (qsort_by cmp xs)"

lemma mset_insort_by [simp]: "mset (insort_by cmp x ys) = add_mset x (mset ys)"
  by (induction ys) auto

lemma mset_qsort_by [simp]: "mset (qsort_by cmp xs) = mset xs"
  by (induction xs) auto

lemma set_insort_by [simp]: "set (insort_by cmp x ys) = insert x (set ys)"
  by (induction ys) auto

lemma set_qsort_by [simp]: "set (qsort_by cmp xs) = set xs"
  by (induction xs) auto

lemma length_qsort_by [simp]: "length (qsort_by cmp xs) = length xs"
  by (metis mset_qsort_by size_mset)

text \<open>The comparison function agrees with a numeric key on the elements at hand.\<close>

definition compares :: "('a \<Rightarrow> 'a \<Rightarrow> int) \<Rightarrow> ('a \<Rightarrow> nat) \<Rightarrow> 'a set \<Rightarrow> bool" where
  "compares cmp key A \<longleftrightarrow> (\<forall>x \<in> A. \<forall>y \<in> A. cmp x y \<le> 0 \<longleftrightarrow> key x \<le> key y)"

lemma compares_mono: "compares cmp key A \<Longrightarrow> B \<subseteq> A \<Longrightarrow> compares cmp key B"
  unfolding compares_def by blast

lemma sorted_insort_by:
  "compares cmp key (insert x (set ys)) \<Longrightarrow> sorted (map key ys) \<Longrightarrow>
   sorted (map key (insort_by cmp x ys))"
proof (induction ys)
  case (Cons y ys)
  then have "compares cmp key (insert x (set ys))" by (auto intro: compares_mono)
  with Cons show ?case by (auto simp: compares_def)
qed simp

lemma sorted_qsort_by:
  "compares cmp key (set xs) \<Longrightarrow> sorted (map key (qsort_by cmp xs))"
proof (induction xs)
  case (Cons x xs)
  then have "compares cmp key (set xs)" by (auto intro: compares_mono)
  with Cons show ?case by (auto intro!: sorted_insort_by)
qed simp

lemma qsort_by_unique:
  assumes "compares cmp key (set xs)" and "inj_on key (set xs)"
    and "mset ys = mset xs" and "sorted_wrt (\<lambda>a b. cmp a b \<le> 0) ys"
  shows "ys = qsort_by cmp xs"
proof -
  have set: "set ys = set xs" using assms(3) by (rule mset_eq_setD)
  have "sorted_wrt (\<lambda>a b. key a \<le> key b) ys"
    using assms(4) by (rule sorted_wrt_mono_rel [rotated]) (use assms(1) set in \<open>simp add: compares_def\<close>)
  then have "sorted (map key ys)" by (simp add: sorted_wrt_map)
  moreover have "sorted (map key (qsort_by cmp xs))" using assms(1) by (rule sorted_qsort_by)
  moreover have "mset (map key ys) = mset (map key (qsort_by cmp xs))"
    using assms(3) by simp
  ultimately have "map key ys = map key (qsort_by cmp xs)"
    by (metis properties_for_sort)
  moreover have "inj_on key (set ys \<union> set (qsort_by cmp xs))"
    using assms(2) set by simp
  ultimately show ?thesis by (rule map_inj_on)
qed

subsection \<open>bsearch\<close>

function bsearch_from :: "('k \<Rightarrow> 'a \<Rightarrow> int) \<Rightarrow> 'k \<Rightarrow> 'a list \<Rightarrow> nat \<Rightarrow> nat \<Rightarrow> nat option" where
  "bsearch_from cmp key xs l u =
     (if l < u then
        let idx = (l + u) div 2; c = cmp key (xs ! idx) in
        if c < 0 then bsearch_from cmp key xs l idx
        else if c > 0 then bsearch_from cmp key xs (idx + 1) u
        else Some idx
      else None)"
  by pat_completeness auto
termination
  by (relation "measure (\<lambda>(cmp, key, xs, l, u). u - l)") auto

declare bsearch_from.simps [simp del]

definition bsearch_by :: "('k \<Rightarrow> 'a \<Rightarrow> int) \<Rightarrow> 'k \<Rightarrow> 'a list \<Rightarrow> nat option" where
  "bsearch_by cmp key xs = bsearch_from cmp key xs 0 (length xs)"

text \<open>The array is partitioned by the key: first the smaller elements, last the larger.\<close>

definition partitioned :: "('k \<Rightarrow> 'a \<Rightarrow> int) \<Rightarrow> 'k \<Rightarrow> 'a list \<Rightarrow> bool" where
  "partitioned cmp key xs \<longleftrightarrow> sorted_wrt (\<lambda>a b. cmp key a < 0 \<longrightarrow> cmp key b < 0) xs \<and>
     sorted_wrt (\<lambda>a b. cmp key b > 0 \<longrightarrow> cmp key a > 0) xs"

text \<open>One turn of the loop.\<close>

lemma bsearch_from_step:
  assumes "l < u"
  shows "cmp key (xs ! ((l + u) div 2)) < 0 \<Longrightarrow>
      bsearch_from cmp key xs l u = bsearch_from cmp key xs l ((l + u) div 2)"
    and "cmp key (xs ! ((l + u) div 2)) > 0 \<Longrightarrow>
      bsearch_from cmp key xs l u = bsearch_from cmp key xs ((l + u) div 2 + 1) u"
    and "cmp key (xs ! ((l + u) div 2)) = 0 \<Longrightarrow>
      bsearch_from cmp key xs l u = Some ((l + u) div 2)"
  using assms by (subst bsearch_from.simps, simp add: Let_def)+

lemma bsearch_from_Some:
  "bsearch_from cmp key xs l u = Some i \<Longrightarrow> l \<le> i \<and> i < u \<and> cmp key (xs ! i) = 0"
proof (induction cmp key xs l u rule: bsearch_from.induct)
  case (1 cmp key xs l u)
  let ?idx = "(l + u) div 2"
  show ?case
  proof (cases "l < u")
    case True
    then have idx: "l \<le> ?idx" "?idx < u" by auto
    consider (neg) "cmp key (xs ! ?idx) < 0" | (pos) "cmp key (xs ! ?idx) > 0"
      | (zero) "cmp key (xs ! ?idx) = 0" by linarith
    then show ?thesis
    proof cases
      case neg
      with "1.IH"(1) [OF True refl refl] "1.prems" idx show ?thesis
        by (simp add: bsearch_from_step [OF True])
    next
      case pos
      with "1.IH"(2) [OF True refl refl] "1.prems" idx show ?thesis
        by (simp add: bsearch_from_step [OF True])
    next
      case zero
      with "1.prems" idx show ?thesis by (simp add: bsearch_from_step [OF True])
    qed
  next
    case False
    with "1.prems" show ?thesis by (simp add: bsearch_from.simps)
  qed
qed

lemma bsearch_from_None:
  "bsearch_from cmp key xs l u = None \<Longrightarrow> partitioned cmp key xs \<Longrightarrow> u \<le> length xs \<Longrightarrow>
   l \<le> i \<Longrightarrow> i < u \<Longrightarrow> cmp key (xs ! i) \<noteq> 0"
proof (induction cmp key xs l u rule: bsearch_from.induct)
  case (1 cmp key xs l u)
  let ?idx = "(l + u) div 2"
  have idx: "l \<le> ?idx" "?idx < u" using "1.prems"(4,5) by auto
  consider (neg) "cmp key (xs ! ?idx) < 0" | (pos) "cmp key (xs ! ?idx) > 0"
    | (zero) "cmp key (xs ! ?idx) = 0" by linarith
  then show ?case
  proof cases
    case neg
    show ?thesis
    proof (cases "i < ?idx")
      case True
      have "bsearch_from cmp key xs l ?idx = None"
        using "1.prems"(1) neg idx by (simp add: bsearch_from_step)
      then show ?thesis
        using "1.IH"(1) [OF _ refl refl] neg idx True "1.prems" by simp
    next
      case False
      have "cmp key (xs ! i) < 0"
      proof (cases "i = ?idx")
        case False
        with \<open>\<not> i < ?idx\<close> have "?idx < i" by simp
        then show ?thesis
          using "1.prems"(2,3,5) neg unfolding partitioned_def sorted_wrt_iff_nth_less by auto
      qed (use neg in simp)
      then show ?thesis by simp
    qed
  next
    case pos
    show ?thesis
    proof (cases "?idx < i")
      case True
      have "bsearch_from cmp key xs (?idx + 1) u = None"
        using "1.prems"(1) pos idx by (simp add: bsearch_from_step)
      then show ?thesis
        using "1.IH"(2) [OF _ refl refl] pos idx True "1.prems" by simp
    next
      case False
      have "cmp key (xs ! i) > 0"
      proof (cases "i = ?idx")
        case False
        with \<open>\<not> ?idx < i\<close> have "i < ?idx" by simp
        then show ?thesis
          using "1.prems"(2,3) idx(2) pos unfolding partitioned_def sorted_wrt_iff_nth_less by auto
      qed (use pos in simp)
      then show ?thesis by simp
    qed
  next
    case zero
    with "1.prems"(1) idx show ?thesis by (simp add: bsearch_from_step)
  qed
qed

lemma bsearch_by_Some:
  "bsearch_by cmp key xs = Some i \<Longrightarrow> i < length xs \<and> cmp key (xs ! i) = 0"
  using bsearch_from_Some unfolding bsearch_by_def by fastforce

lemma bsearch_by_None:
  "bsearch_by cmp key xs = None \<Longrightarrow> partitioned cmp key xs \<Longrightarrow> x \<in> set xs \<Longrightarrow> cmp key x \<noteq> 0"
  using bsearch_from_None [of cmp key xs 0 "length xs"] unfolding bsearch_by_def
  by (auto simp: in_set_conv_nth)

end
