(* ===== verification/Vmmap.thy ===== *)
theory Vmmap
  imports Nacl_Config C_Stdlib
begin

text \<open>
  The memory map of a sandbox, \<open>service_runtime/sel_mem.c\<close>: an array of regions, each a
  first page, a number of pages, a protection and the file that backs it, with the operations
  that add, overwrite, remove, re-protect, look up and find room for regions.

  The array \<open>vmentry[0 .. nvalid)\<close> is the list \<open>vmentry\<close>; \<open>nvalid\<close> is its length and
  \<open>vm_size\<close> the allocated number of slots.  The entries are heap objects that only this
  array points to, so they are values here.  A backing descriptor is a number, and
  \<open>desc_refs\<close> holds the reference counts of the descriptor objects, which
  \<open>NaClVmmapEntryMake\<close> and \<open>NaClVmmapEntryFree\<close> update.
\<close>

subsection \<open>Data\<close>

record NaClVmmapEntry =
  page_num :: u64
  npages :: u64
  prot :: u32
  flags :: u32
  removed :: bool
  desc :: "nat option"
  offset :: u64
  file_size :: u64

record NaClVmmap =
  vmentry :: "NaClVmmapEntry list"
  vm_size :: nat
  is_sorted :: bool
  desc_refs :: "nat \<Rightarrow> int"

abbreviation nvalid :: "NaClVmmap \<Rightarrow> nat" where
  "nvalid self \<equiv> length (vmentry self)"

abbreviation end_page :: "NaClVmmapEntry \<Rightarrow> u64" where
  "end_page ent \<equiv> page_num ent + npages ent"

definition desc_ref :: "nat option \<Rightarrow> (nat \<Rightarrow> int) \<Rightarrow> nat \<Rightarrow> int" where
  "desc_ref d refs = (case d of None \<Rightarrow> refs | Some k \<Rightarrow> refs(k := refs k + 1))"

definition desc_unref :: "nat option \<Rightarrow> (nat \<Rightarrow> int) \<Rightarrow> nat \<Rightarrow> int" where
  "desc_unref d refs = (case d of None \<Rightarrow> refs | Some k \<Rightarrow> refs(k := refs k - 1))"

definition NaClVmmapEntryMake ::
  "u64 \<Rightarrow> u64 \<Rightarrow> u32 \<Rightarrow> u32 \<Rightarrow> nat option \<Rightarrow> u64 \<Rightarrow> u64 \<Rightarrow> (nat \<Rightarrow> int) \<Rightarrow>
   NaClVmmapEntry \<times> (nat \<Rightarrow> int)" where
  "NaClVmmapEntryMake pn n pr fl d off fsz refs =
     (\<lparr> page_num = pn, npages = n, prot = pr, flags = fl, removed = False, desc = d,
        offset = off, file_size = fsz \<rparr>, desc_ref d refs)"

definition NaClVmmapEntryFree :: "NaClVmmapEntry \<Rightarrow> (nat \<Rightarrow> int) \<Rightarrow> nat \<Rightarrow> int" where
  "NaClVmmapEntryFree entry refs = desc_unref (desc entry) refs"

definition NaClVmmapCtor :: "(nat \<Rightarrow> int) \<Rightarrow> NaClVmmap" where
  "NaClVmmapCtor refs = \<lparr> vmentry = [], vm_size = 5, is_sorted = True, desc_refs = refs \<rparr>"

definition NaClVmmapDtor :: "NaClVmmap \<Rightarrow> NaClVmmap" where
  "NaClVmmapDtor self = self\<lparr> vmentry := [], desc_refs := fold NaClVmmapEntryFree (vmentry self) (desc_refs self) \<rparr>"

subsection \<open>Marked entries and sorting\<close>

text \<open>The comparison truncates the difference of the page numbers to a C \<open>int\<close>.\<close>

definition NaClVmmapCmpEntries :: "NaClVmmapEntry \<Rightarrow> NaClVmmapEntry \<Rightarrow> int" where
  "NaClVmmapCmpEntries left right = sint (ucast (page_num left - page_num right) :: u32)"

text \<open>
  \<open>NaClVmmapRemoveMarked\<close>: slots above \<open>last\<close> are NULL, so the list holds the slots
  \<open>[0 .. last]\<close> and \<open>last\<close> is its length minus one.
\<close>

function RemoveMarked_trim ::
  "nat \<Rightarrow> NaClVmmapEntry list \<Rightarrow> (nat \<Rightarrow> int) \<Rightarrow> NaClVmmapEntry list \<times> (nat \<Rightarrow> int)" where
  "RemoveMarked_trim keep es refs =
     (if keep < length es \<and> removed (last es)
      then RemoveMarked_trim keep (butlast es) (NaClVmmapEntryFree (last es) refs)
      else (es, refs))"
  by pat_completeness auto
termination
  by (relation "measure (\<lambda>(keep, es, refs). length es)") auto

declare RemoveMarked_trim.simps [simp del]

function RemoveMarked_scan ::
  "nat \<Rightarrow> NaClVmmapEntry list \<Rightarrow> (nat \<Rightarrow> int) \<Rightarrow> NaClVmmapEntry list \<times> (nat \<Rightarrow> int)" where
  "RemoveMarked_scan i es refs =
     (if i < length es - 1 then
        if \<not> removed (es ! i) then RemoveMarked_scan (i + 1) es refs
        else
          case RemoveMarked_trim (i + 1) ((butlast es)[i := last es])
                 (NaClVmmapEntryFree (es ! i) refs) of
            (es', refs') \<Rightarrow> RemoveMarked_scan (i + 1) es' refs'
      else (es, refs))"
  by pat_completeness auto

lemma length_trim: "length (fst (RemoveMarked_trim keep es refs)) \<le> length es"
proof (induction keep es refs rule: RemoveMarked_trim.induct)
  case (1 keep es refs)
  then show ?case
    by (subst RemoveMarked_trim.simps) (simp, meson diff_le_self le_trans)
qed

termination RemoveMarked_scan
proof (relation "measure (\<lambda>(i, es, refs). length es - i)", goal_cases)
  case (3 i es refs es' refs')
  then have "length es' \<le> length ((butlast es)[i := last es])"
    by (metis fst_conv length_trim)
  with 3(1,2) show ?case by (simp add: 3(3) [symmetric])
qed simp_all

definition NaClVmmapRemoveMarked :: "NaClVmmap \<Rightarrow> NaClVmmap run" where
  "NaClVmmapRemoveMarked self =
     (if nvalid self = 0 then Inr self
      else
        case RemoveMarked_trim 0 (vmentry self) (desc_refs self) of
          ([], refs) \<Rightarrow> Inl NullDeref
        | (es, refs) \<Rightarrow>
            case RemoveMarked_scan 0 es refs of
              (es', refs') \<Rightarrow>
                Inr (self\<lparr> vmentry := es', desc_refs := refs', is_sorted := False \<rparr>))"

definition NaClVmmapMakeSorted :: "NaClVmmap \<Rightarrow> NaClVmmap run" where
  "NaClVmmapMakeSorted self =
     (if is_sorted self then Inr self
      else andThen (NaClVmmapRemoveMarked self) (\<lambda>self.
        Inr (self\<lparr> vmentry := qsort_by NaClVmmapCmpEntries (vmentry self), is_sorted := True \<rparr>)))"

subsection \<open>Adding, overwriting, removing\<close>

definition NaClVmmapAdd ::
  "NaClVmmap \<Rightarrow> u64 \<Rightarrow> u64 \<Rightarrow> u32 \<Rightarrow> u32 \<Rightarrow> nat option \<Rightarrow> u64 \<Rightarrow> u64 \<Rightarrow> NaClVmmap" where
  "NaClVmmapAdd self pn n pr fl d off fsz =
     (let sz = (if nvalid self = vm_size self then 2 * vm_size self else vm_size self) in
      case NaClVmmapEntryMake pn n pr fl d off fsz (desc_refs self) of
        (entry, refs) \<Rightarrow>
          self\<lparr> vmentry := vmentry self @ [entry], vm_size := sz, desc_refs := refs,
                is_sorted := False \<rparr>)"

definition set_entry :: "NaClVmmap \<Rightarrow> nat \<Rightarrow> NaClVmmapEntry \<Rightarrow> NaClVmmap" where
  "set_entry self i ent = self\<lparr> vmentry := (vmentry self)[i := ent] \<rparr>"

lemma nvalid_set_entry [simp]: "nvalid (set_entry self i ent) = nvalid self"
  by (simp add: set_entry_def)

text \<open>The loop of \<open>NaClVmmapUpdate\<close>; \<open>stop\<close> is \<open>new_region_end_page\<close>.\<close>

function NaClVmmapUpdate_loop :: "NaClVmmap \<Rightarrow> u64 \<Rightarrow> u64 \<Rightarrow> nat \<Rightarrow> NaClVmmap run" where
  "NaClVmmapUpdate_loop self pn stop i =
     (if i < nvalid self then
        let ent = vmentry self ! i;
            additional_offset = push_bit NACL_PAGESHIFT (stop - page_num ent) in
        if page_num ent < pn \<and> stop < end_page ent then
          Inr (set_entry
                 (NaClVmmapAdd self stop (end_page ent - stop) (prot ent) (flags ent) (desc ent)
                    (offset ent + additional_offset) (file_size ent))
                 i (ent\<lparr> npages := pn - page_num ent \<rparr>))
        else if page_num ent < pn \<and> pn < end_page ent then
          NaClVmmapUpdate_loop (set_entry self i (ent\<lparr> npages := pn - page_num ent \<rparr>)) pn stop (i + 1)
        else if page_num ent < stop \<and> stop < end_page ent then
          Inr (set_entry self i
                 (ent\<lparr> page_num := stop, npages := end_page ent - stop,
                       offset := offset ent + additional_offset \<rparr>))
        else if pn \<le> page_num ent \<and> end_page ent \<le> stop then
          NaClVmmapUpdate_loop (set_entry self i (ent\<lparr> removed := True \<rparr>)) pn stop (i + 1)
        else
          andThen (cassert (stop \<le> page_num ent \<or> end_page ent \<le> pn)) (\<lambda>_.
            NaClVmmapUpdate_loop self pn stop (i + 1))
      else Inr self)"
  by pat_completeness auto
termination
  by (relation "measure (\<lambda>(self, pn, stop, i). nvalid self - i)") (auto simp: set_entry_def)

definition NaClVmmapUpdate ::
  "NaClVmmap \<Rightarrow> u64 \<Rightarrow> u64 \<Rightarrow> u32 \<Rightarrow> u32 \<Rightarrow> bool \<Rightarrow> nat option \<Rightarrow> u64 \<Rightarrow> u64 \<Rightarrow> NaClVmmap run" where
  "NaClVmmapUpdate self pn n pr fl remove d off fsz =
     andThen (NaClVmmapMakeSorted self) (\<lambda>self.
     andThen (check (n > 0)) (\<lambda>_.
     andThen (NaClVmmapUpdate_loop self pn (pn + n) 0) (\<lambda>self.
     NaClVmmapRemoveMarked
       (if \<not> remove then NaClVmmapAdd self pn n pr fl d off fsz else self))))"

definition NaClVmmapAddWithOverwrite ::
  "NaClVmmap \<Rightarrow> u64 \<Rightarrow> u64 \<Rightarrow> u32 \<Rightarrow> u32 \<Rightarrow> nat option \<Rightarrow> u64 \<Rightarrow> u64 \<Rightarrow> NaClVmmap run" where
  "NaClVmmapAddWithOverwrite self pn n pr fl d off fsz =
     NaClVmmapUpdate self pn n pr fl False d off fsz"

definition NaClVmmapRemove :: "NaClVmmap \<Rightarrow> u64 \<Rightarrow> u64 \<Rightarrow> NaClVmmap run" where
  "NaClVmmapRemove self pn n = NaClVmmapUpdate self pn n 0 0 True None 0 0"

subsection \<open>Protection\<close>

text \<open>
  \<open>GetFlags\<close> is the virtual method of the backing descriptor.
\<close>

definition NaClVmmapEntryMaxProt :: "(nat \<Rightarrow> u32) \<Rightarrow> NaClVmmapEntry \<Rightarrow> u32 run" where
  "NaClVmmapEntryMaxProt GetFlags entry =
     (case desc entry of
        Some d \<Rightarrow>
          if flags entry AND MAP_PRIVATE = 0 then
            let acc = GetFlags d AND O_ACCMODE in
            if acc = O_RDONLY then Inr PROT_READ
            else if acc = O_WRONLY then Inr PROT_WRITE
            else if acc = O_RDWR then Inr (PROT_READ OR PROT_WRITE)
            else Inl LogFatal
          else Inr (PROT_READ OR PROT_WRITE)
      | None \<Rightarrow> Inr (PROT_READ OR PROT_WRITE))"

fun CheckExisting_loop ::
  "(nat \<Rightarrow> u32) \<Rightarrow> NaClVmmapEntry list \<Rightarrow> u64 \<Rightarrow> u64 \<Rightarrow> u32 \<Rightarrow> bool run" where
  "CheckExisting_loop GetFlags [] pn stop pr = Inr False"
| "CheckExisting_loop GetFlags (ent # es) pn stop pr =
     andThen (NaClVmmapEntryMaxProt GetFlags ent) (\<lambda>fl.
       if page_num ent \<le> pn \<and> stop \<le> end_page ent then Inr (pr AND NOT fl = 0)
       else if page_num ent \<le> pn \<and> pn < end_page ent then
         if pr AND NOT fl \<noteq> 0 then Inr False
         else CheckExisting_loop GetFlags es (end_page ent) stop pr
       else if pn < page_num ent then Inr False
       else CheckExisting_loop GetFlags es pn stop pr)"

definition NaClVmmapCheckExistingMapping ::
  "(nat \<Rightarrow> u32) \<Rightarrow> NaClVmmap \<Rightarrow> u64 \<Rightarrow> u64 \<Rightarrow> u32 \<Rightarrow> (NaClVmmap \<times> bool) run" where
  "NaClVmmapCheckExistingMapping GetFlags self pn n pr =
     (if nvalid self = 0 then Inr (self, False)
      else
        andThen (NaClVmmapMakeSorted self) (\<lambda>self.
        andThen (CheckExisting_loop GetFlags (vmentry self) pn (pn + n) pr) (\<lambda>b. Inr (self, b))))"

text \<open>The loop of \<open>NaClVmmapChangeProt\<close>; \<open>nv\<close> is the number of entries at its start.\<close>

function ChangeProt_loop ::
  "NaClVmmap \<Rightarrow> u64 \<Rightarrow> u64 \<Rightarrow> u32 \<Rightarrow> u64 \<Rightarrow> nat \<Rightarrow> nat \<Rightarrow> NaClVmmap run" where
  "ChangeProt_loop self pn n pr stop nv i =
     (if i < nv \<and> n > 0 then
        let ent = vmentry self ! i;
            additional_offset = push_bit NACL_PAGESHIFT (stop - page_num ent);
            add = (\<lambda>self a k p o'. NaClVmmapAdd self a k p (flags ent) (desc ent) o' (file_size ent)) in
        if page_num ent < pn \<and> stop < end_page ent then
          Inr (add (set_entry (add self stop (end_page ent - stop) (prot ent)
                                 (offset ent + additional_offset))
                      i (ent\<lparr> npages := pn - page_num ent \<rparr>))
                 pn n pr (offset ent + (pn - page_num ent)))
        else if page_num ent < pn \<and> pn < end_page ent then
          ChangeProt_loop
            (add (set_entry self i (ent\<lparr> npages := pn - page_num ent \<rparr>))
               pn (end_page ent - pn) pr (offset ent + (pn - page_num ent)))
            (end_page ent) (stop - end_page ent) pr stop nv (i + 1)
        else if page_num ent < stop \<and> stop < end_page ent then
          Inr (set_entry (add self pn n pr (offset ent)) i
                 (ent\<lparr> page_num := stop, npages := end_page ent - stop,
                       offset := offset ent + additional_offset \<rparr>))
        else if pn \<le> page_num ent \<and> end_page ent \<le> stop then
          ChangeProt_loop (set_entry self i (ent\<lparr> prot := pr \<rparr>))
            (end_page ent) (stop - end_page ent) pr stop nv (i + 1)
        else
          andThen (cassert (stop \<le> page_num ent \<or> end_page ent \<le> pn)) (\<lambda>_.
            ChangeProt_loop self pn n pr stop nv (i + 1))
      else Inr self)"
  by pat_completeness auto
termination
  by (relation "measure (\<lambda>(self, pn, n, pr, stop, nv, i). nv - i)") auto

definition NaClVmmapChangeProt ::
  "(nat \<Rightarrow> u32) \<Rightarrow> NaClVmmap \<Rightarrow> u64 \<Rightarrow> u64 \<Rightarrow> u32 \<Rightarrow> (NaClVmmap \<times> bool) run" where
  "NaClVmmapChangeProt GetFlags self pn n pr =
     andThen (NaClVmmapCheckExistingMapping GetFlags self pn n pr) (\<lambda>(self, ok).
       if \<not> ok then Inr (self, False)
       else
         andThen (NaClVmmapMakeSorted self) (\<lambda>self.
         andThen (ChangeProt_loop self pn n pr (pn + n) (nvalid self) 0) (\<lambda>self.
         Inr (self, True))))"

subsection \<open>Lookup and iteration\<close>

definition NaClVmmapContainCmpEntries :: "u64 \<Rightarrow> NaClVmmapEntry \<Rightarrow> int" where
  "NaClVmmapContainCmpEntries key ent =
     (if key < page_num ent then -1 else if key < end_page ent then 0 else 1)"

definition NaClVmmapFindPage :: "NaClVmmap \<Rightarrow> u64 \<Rightarrow> (NaClVmmap \<times> NaClVmmapEntry option) run" where
  "NaClVmmapFindPage self pnum =
     andThen (NaClVmmapMakeSorted self) (\<lambda>self.
       Inr (self, map_option (nth (vmentry self))
                    (bsearch_by NaClVmmapContainCmpEntries pnum (vmentry self))))"

text \<open>An iterator is an index into the map it walks over.\<close>

definition NaClVmmapFindPageIter :: "NaClVmmap \<Rightarrow> u64 \<Rightarrow> (NaClVmmap \<times> nat) run" where
  "NaClVmmapFindPageIter self pnum =
     andThen (NaClVmmapMakeSorted self) (\<lambda>self.
       Inr (self, case bsearch_by NaClVmmapContainCmpEntries pnum (vmentry self) of
                    None \<Rightarrow> nvalid self
                  | Some ix \<Rightarrow> ix))"

definition NaClVmmapIterAtEnd :: "NaClVmmap \<Rightarrow> nat \<Rightarrow> bool" where
  "NaClVmmapIterAtEnd self entry_ix \<longleftrightarrow> entry_ix \<ge> nvalid self"

definition NaClVmmapIterStar :: "NaClVmmap \<Rightarrow> nat \<Rightarrow> NaClVmmapEntry run" where
  "NaClVmmapIterStar self entry_ix =
     (if entry_ix < nvalid self then Inr (vmentry self ! entry_ix) else Inl OutOfBounds)"

definition NaClVmmapIterIncr :: "nat \<Rightarrow> nat" where
  "NaClVmmapIterIncr entry_ix = entry_ix + 1"

definition NaClVmmapIterErase :: "NaClVmmap \<Rightarrow> nat \<Rightarrow> NaClVmmap run" where
  "NaClVmmapIterErase self entry_ix =
     (if entry_ix < nvalid self then
        Inr (self\<lparr> vmentry := butlast ((vmentry self)[entry_ix := last (vmentry self)]),
                   is_sorted := False \<rparr>)
      else Inl OutOfBounds)"

definition NaClVmmapVisit ::
  "NaClVmmap \<Rightarrow> ('s \<Rightarrow> NaClVmmapEntry \<Rightarrow> 's) \<Rightarrow> 's \<Rightarrow> (NaClVmmap \<times> 's) run" where
  "NaClVmmapVisit self fn state =
     andThen (NaClVmmapMakeSorted self) (\<lambda>self.
       Inr (self, fold (\<lambda>ent st. fn st ent) (vmentry self) state))"

subsection \<open>Finding room\<close>

text \<open>The three loops look at the gap between entry \<open>i - 1\<close> and entry \<open>i\<close>.\<close>

fun FindSpace_loop :: "NaClVmmapEntry list \<Rightarrow> u64 \<Rightarrow> nat \<Rightarrow> u64" where
  "FindSpace_loop es num_pages 0 = 0"
| "FindSpace_loop es num_pages (Suc i) =
     (let ending = end_page (es ! i); start = page_num (es ! Suc i) in
      if start - ending \<ge> num_pages then start - num_pages
      else FindSpace_loop es num_pages i)"

definition NaClVmmapFindSpace :: "NaClVmmap \<Rightarrow> u64 \<Rightarrow> (NaClVmmap \<times> u64) run" where
  "NaClVmmapFindSpace self num_pages =
     (if nvalid self = 0 then Inr (self, 0)
      else andThen (NaClVmmapMakeSorted self) (\<lambda>self.
        Inr (self, FindSpace_loop (vmentry self) num_pages (nvalid self - 1))))"

fun FindMapSpace_loop :: "NaClVmmapEntry list \<Rightarrow> u64 \<Rightarrow> nat \<Rightarrow> u64" where
  "FindMapSpace_loop es num_pages 0 = 0"
| "FindMapSpace_loop es num_pages (Suc i) =
     (let ending = NaClRoundPageNumUpToMapMultiple (end_page (es ! i));
          start = NaClTruncPageNumDownToMapMultiple (page_num (es ! Suc i)) in
      if start \<le> ending then FindMapSpace_loop es num_pages i
      else if start - ending \<ge> num_pages then start - num_pages
      else FindMapSpace_loop es num_pages i)"

definition NaClVmmapFindMapSpace :: "NaClVmmap \<Rightarrow> u64 \<Rightarrow> (NaClVmmap \<times> u64) run" where
  "NaClVmmapFindMapSpace self num_pages =
     (if nvalid self = 0 then Inr (self, 0)
      else andThen (NaClVmmapMakeSorted self) (\<lambda>self.
        Inr (self, FindMapSpace_loop (vmentry self)
                     (NaClRoundPageNumUpToMapMultiple num_pages) (nvalid self - 1))))"

function AboveHint_loop :: "NaClVmmapEntry list \<Rightarrow> u64 \<Rightarrow> u64 \<Rightarrow> nat \<Rightarrow> u64" where
  "AboveHint_loop es usr_page num_pages i =
     (if i < length es then
        let ending = NaClRoundPageNumUpToMapMultiple (end_page (es ! (i - 1)));
            start = NaClTruncPageNumDownToMapMultiple (page_num (es ! i)) in
        if start \<le> ending then AboveHint_loop es usr_page num_pages (i + 1)
        else
          let ending = (if ending \<le> usr_page \<and> usr_page < start then usr_page else ending) in
          if usr_page \<le> ending \<and> start - ending \<ge> num_pages then ending
          else AboveHint_loop es usr_page num_pages (i + 1)
      else 0)"
  by pat_completeness auto
termination
  by (relation "measure (\<lambda>(es, usr_page, num_pages, i). length es - i)") auto

definition NaClVmmapFindMapSpaceAboveHint :: "NaClVmmap \<Rightarrow> u64 \<Rightarrow> u64 \<Rightarrow> (NaClVmmap \<times> u64) run" where
  "NaClVmmapFindMapSpaceAboveHint self uaddr num_pages =
     andThen (NaClVmmapMakeSorted self) (\<lambda>self.
       Inr (self, AboveHint_loop (vmentry self) (drop_bit NACL_PAGESHIFT uaddr)
                    (NaClRoundPageNumUpToMapMultiple num_pages) 1))"

declare NaClVmmapUpdate_loop.simps [simp del] ChangeProt_loop.simps [simp del]
  AboveHint_loop.simps [simp del] RemoveMarked_scan.simps [simp del]

end
