(* ===== verification/Vmmap_Proofs.thy ===== *)
theory Vmmap_Proofs
  imports Vmmap
begin

text \<open>
  Correctness of the memory map.  The abstract value of a map is the partial function
  \<open>page_at\<close> from page numbers to what is mapped there; \<open>vm_ok\<close> is the representation
  invariant.  The proofs count the views of a page (\<open>views\<close>, a multiset of at most one
  element), which are additive over the entries and do not depend on their order.
\<close>

subsection \<open>The abstract map\<close>

record page_view =
  pv_prot :: u32
  pv_flags :: u32
  pv_desc :: "nat option"
  pv_offset :: u64
  pv_file_size :: u64

definition covers :: "NaClVmmapEntry \<Rightarrow> nat \<Rightarrow> bool" where
  "covers e p \<longleftrightarrow> unat (page_num e) \<le> p \<and> p < unat (page_num e) + unat (npages e)"

definition view :: "NaClVmmapEntry \<Rightarrow> nat \<Rightarrow> page_view" where
  "view e p = \<lparr> pv_prot = prot e, pv_flags = flags e, pv_desc = desc e,
     pv_offset = offset e + push_bit NACL_PAGESHIFT (of_nat p - page_num e),
     pv_file_size = file_size e \<rparr>"

definition page_at :: "NaClVmmap \<Rightarrow> nat \<Rightarrow> page_view option" where
  "page_at self p = map_option (\<lambda>e. view e p) (find (\<lambda>e. covers e p) (vmentry self))"

definition views :: "NaClVmmapEntry multiset \<Rightarrow> nat \<Rightarrow> page_view multiset" where
  "views M p = image_mset (\<lambda>e. view e p) (filter_mset (\<lambda>e. covers e p) M)"

text \<open>Pages stay below \<open>2 ^ 31\<close>, so that \<open>NaClVmmapCmpEntries\<close> orders them.\<close>

definition max_pages :: nat where
  "max_pages = 2 ^ 31"

definition ent_ok :: "NaClVmmapEntry \<Rightarrow> bool" where
  "ent_ok e \<longleftrightarrow> npages e \<noteq> 0 \<and> unat (page_num e) + unat (npages e) \<le> max_pages"

definition vm_ok :: "NaClVmmap \<Rightarrow> bool" where
  "vm_ok self \<longleftrightarrow>
     (\<forall>e \<in> set (vmentry self). ent_ok e \<and> \<not> removed e) \<and>
     (\<forall>p. size (views (mset (vmentry self)) p) \<le> 1) \<and>
     (is_sorted self \<longrightarrow> sorted (map page_num (vmentry self))) \<and>
     nvalid self \<le> vm_size self \<and> 0 < vm_size self"

definition held :: "NaClVmmapEntry multiset \<Rightarrow> nat \<Rightarrow> int" where
  "held M d = int (size {#e \<in># M. desc e = Some d#})"

text \<open>The references to a descriptor that do not come from this map.\<close>

definition other_refs :: "NaClVmmap \<Rightarrow> nat \<Rightarrow> int" where
  "other_refs self d = desc_refs self d - held (mset (vmentry self)) d"

lemma views_simps [simp]:
  "views {#} p = {#}"
  "views (A + B) p = views A p + views B p"
  "views (add_mset e A) p = (if covers e p then {#view e p#} else {#}) + views A p"
  by (simp_all add: views_def)

lemma held_simps [simp]:
  "held {#} d = 0"
  "held (A + B) d = held A d + held B d"
  "held (add_mset e A) d = (if desc e = Some d then 1 else 0) + held A d"
  by (simp_all add: held_def)

lemma views_Diff: "B \<subseteq># A \<Longrightarrow> views (A - B) p = views A p - views B p"
  by (metis add_diff_cancel_right' subset_mset.diff_add views_simps(2))

lemma views_eq_empty: "views (mset es) p = {#} \<longleftrightarrow> (\<forall>e \<in> set es. \<not> covers e p)"
  by (induction es) auto

lemma page_at_None: "page_at self p = None \<longleftrightarrow> views (mset (vmentry self)) p = {#}"
  by (auto simp: page_at_def views_eq_empty find_None_iff)

lemma page_at_Some:
  assumes "size (views (mset (vmentry self)) p) \<le> 1"
  shows "page_at self p = Some v \<longleftrightarrow> views (mset (vmentry self)) p = {#v#}"
proof -
  have "\<exists>w. views (mset es) p = {#w#} \<and> map_option (\<lambda>e. view e p) (find (\<lambda>e. covers e p) es) = Some w"
    if "size (views (mset es) p) \<le> 1" "views (mset es) p \<noteq> {#}" for es
    using that by (induction es) (auto split: if_splits)
  from this [of "vmentry self"] assms page_at_None [of self p] show ?thesis
    by (cases "views (mset (vmentry self)) p = {#}") (auto simp: page_at_def)
qed

lemma page_at_views:
  assumes "vm_ok self" and "vm_ok self'"
    and "views (mset (vmentry self')) p = views (mset (vmentry self)) q"
  shows "page_at self' p = page_at self q"
proof -
  have sz: "size (views (mset (vmentry self')) p) \<le> 1" "size (views (mset (vmentry self)) q) \<le> 1"
    using assms(1,2) by (auto simp: vm_ok_def)
  have "page_at self' p = Some v \<longleftrightarrow> page_at self q = Some v" for v
    by (simp only: page_at_Some [OF sz(1)] page_at_Some [OF sz(2)] assms(3))
  then show ?thesis by (metis option.exhaust)
qed

subsection \<open>Removing the marked entries\<close>

definition live :: "NaClVmmapEntry list \<Rightarrow> NaClVmmapEntry multiset" where
  "live es = filter_mset (\<lambda>e. \<not> removed e) (mset es)"

lemma live_simps [simp]:
  "live [] = {#}" "live (e # es) = (if removed e then {#} else {#e#}) + live es"
  "live (es @ es') = live es + live es'"
  by (simp_all add: live_def)

lemma live_all: "\<forall>e \<in> set es. \<not> removed e \<Longrightarrow> live es = mset es"
  by (auto simp: live_def filter_mset_eq_conv)

lemma held_free: "NaClVmmapEntryFree e refs d = refs d - (if desc e = Some d then 1 else 0)"
  by (auto simp: NaClVmmapEntryFree_def desc_unref_def split: option.split)

lemma trim_result:
  "RemoveMarked_trim keep es refs = (es', refs') \<Longrightarrow>
   live es' = live es \<and> take keep es' = take keep es \<and>
   (keep \<le> length es \<longrightarrow> keep \<le> length es') \<and>
   (keep < length es' \<longrightarrow> \<not> removed (last es')) \<and>
   refs' d - held (mset es') d = refs d - held (mset es) d"
proof (induction keep es refs arbitrary: es' refs' rule: RemoveMarked_trim.induct)
  case (1 keep es refs)
  show ?case
  proof (cases "keep < length es \<and> removed (last es)")
    case True
    then have "es \<noteq> []" by auto
    then obtain xs x where es: "es = xs @ [x]" by (metis append_butlast_last_id)
    from True "1.prems" have "RemoveMarked_trim keep xs (NaClVmmapEntryFree x refs) = (es', refs')"
      by (subst (asm) RemoveMarked_trim.simps) (simp add: es)
    then have "RemoveMarked_trim keep (butlast es) (NaClVmmapEntryFree (last es) refs) = (es', refs')"
      by (simp add: es)
    from "1.IH" [OF True this] True show ?thesis
      by (simp add: es held_free split: if_splits)
  next
    case False
    with "1.prems" show ?thesis by (subst (asm) RemoveMarked_trim.simps) auto
  qed
qed

lemma scan_result:
  "RemoveMarked_scan i es refs = (es', refs') \<Longrightarrow> i < length es \<Longrightarrow> \<not> removed (last es) \<Longrightarrow>
   \<forall>j < i. \<not> removed (es ! j) \<Longrightarrow>
   mset es' = live es \<and> refs' d - held (mset es') d = refs d - held (mset es) d"
proof (induction i es refs arbitrary: es' refs' rule: RemoveMarked_scan.induct)
  case (1 i es refs)
  show ?case
  proof (cases "i < length es - 1")
    case False
    with "1.prems"(2) have i: "i = length es - 1" "es \<noteq> []" by auto
    have "\<not> removed (es ! j)" if "j < length es" for j
      using that i "1.prems"(3,4) by (cases "j = i") (auto simp: last_conv_nth)
    then have "live es = mset es" by (intro live_all) (auto simp: in_set_conv_nth)
    with "1.prems"(1) False show ?thesis by (subst (asm) RemoveMarked_scan.simps) auto
  next
    case i: True
    show ?thesis
    proof (cases "removed (es ! i)")
      case False
      then have "RemoveMarked_scan (i + 1) es refs = (es', refs')"
        using "1.prems"(1) i by (subst (asm) RemoveMarked_scan.simps) simp
      moreover have "\<forall>j < i + 1. \<not> removed (es ! j)"
        using "1.prems"(4) False by (auto simp: less_Suc_eq)
      moreover have "i + 1 < length es" using i by simp
      ultimately show ?thesis
        using "1.IH"(1) [OF i False] "1.prems"(3) by blast
    next
      case True
      obtain xs x where es: "es = xs @ [x]"
        using i by (cases es rule: rev_cases) auto
      have x: "\<not> removed x" and ix: "i < length xs" using "1.prems"(3) es i by auto
      obtain es1 refs1 where t: "RemoveMarked_trim (i + 1) (xs[i := x]) (NaClVmmapEntryFree (es ! i) refs) = (es1, refs1)"
        by fastforce
      have scan: "RemoveMarked_scan (i + 1) es1 refs1 = (es', refs')"
        using "1.prems"(1) i True t by (subst (asm) RemoveMarked_scan.simps) (simp add: es)
      have xsi: "xs = take i xs @ xs ! i # drop (Suc i) xs"
        using ix by (simp add: Cons_nth_drop_Suc)
      have esi: "es ! i = xs ! i" using ix es by (simp add: nth_append)
      have r: "live es1 = live es" "take (i + 1) es1 = take (i + 1) (xs[i := x])"
        "i + 1 \<le> length es1" "i + 1 < length es1 \<longrightarrow> \<not> removed (last es1)"
        "refs1 d - held (mset es1) d = refs d - held (mset es) d"
      proof -
        note T = trim_result [OF t, of d]
        have upd: "xs[i := x] = take i xs @ x # drop (Suc i) xs" using ix by (simp add: upd_conv_take_nth_drop)
        have "live (xs[i := x]) = live es"
          unfolding upd es by (subst (2) xsi) (use True esi x in simp)
        then show "live es1 = live es" using T by simp
        show "take (i + 1) es1 = take (i + 1) (xs[i := x])" using T by simp
        show "i + 1 \<le> length es1" using T ix by simp
        show "i + 1 < length es1 \<longrightarrow> \<not> removed (last es1)" using T by simp
        have "held (mset (xs[i := x])) d + (if desc (xs ! i) = Some d then 1 else 0) = held (mset es) d"
          unfolding upd es by (subst (4) xsi) simp
        then show "refs1 d - held (mset es1) d = refs d - held (mset es) d"
          using T by (simp add: held_free esi split: if_splits)
      qed
      have nth: "es1 ! j = xs[i := x] ! j" if "j \<le> i" for j
        using arg_cong [OF r(2), of "\<lambda>l. l ! j"] that by simp
      have front: "\<not> removed (es1 ! j)" if "j \<le> i" for j
        using nth [OF that] that ix x "1.prems"(4) es by (cases "j = i") (auto simp: nth_append)
      show ?thesis
      proof (cases "i + 1 < length es1")
        case True2: True
        have "(es1, refs1) = RemoveMarked_trim (i + 1) ((butlast es)[i := last es])
            (NaClVmmapEntryFree (es ! i) refs)"
          using t by (simp add: es)
        moreover have "\<forall>j < i + 1. \<not> removed (es1 ! j)" using front by simp
        ultimately have "mset es' = live es1 \<and> refs' d - held (mset es') d = refs1 d - held (mset es1) d"
          using "1.IH"(2) [OF i] True scan True2 r(4) by blast
        then show ?thesis using r by metis
      next
        case False
        with r(3) have len: "length es1 = i + 1" by simp
        then have "es' = es1" "refs' = refs1"
          using scan by (subst (asm) RemoveMarked_scan.simps, simp)+
        moreover have "live es1 = mset es1"
          using front len by (intro live_all) (auto simp: in_set_conv_nth less_Suc_eq_le)
        ultimately show ?thesis using r by simp
      qed
    qed
  qed
qed

lemma RemoveMarked_empty: "nvalid self = 0 \<Longrightarrow> NaClVmmapRemoveMarked self = Inr self"
  by (simp add: NaClVmmapRemoveMarked_def)

lemma RemoveMarked_all:
  assumes "nvalid self \<noteq> 0" and "live (vmentry self) = {#}"
  shows "NaClVmmapRemoveMarked self = Inl NullDeref"
proof -
  obtain es refs where t: "RemoveMarked_trim 0 (vmentry self) (desc_refs self) = (es, refs)"
    by fastforce
  have "live es = {#}" "es \<noteq> [] \<longrightarrow> \<not> removed (last es)"
    using trim_result [OF t] assms by auto
  then have "es = []" by (cases es rule: rev_cases) auto
  with t assms show ?thesis by (simp add: NaClVmmapRemoveMarked_def)
qed

lemma RemoveMarked_some:
  assumes "live (vmentry self) \<noteq> {#}"
  obtains self' where "NaClVmmapRemoveMarked self = Inr self'"
    and "mset (vmentry self') = live (vmentry self)" and "other_refs self' = other_refs self"
    and "vm_size self' = vm_size self" and "\<not> is_sorted self'"
proof -
  have ne: "nvalid self \<noteq> 0" using assms by auto
  obtain es refs where t: "RemoveMarked_trim 0 (vmentry self) (desc_refs self) = (es, refs)"
    by fastforce
  obtain es' refs' where s: "RemoveMarked_scan 0 es refs = (es', refs')" by fastforce
  note T = trim_result [OF t]
  have es: "es \<noteq> []" using T assms by auto
  then obtain e0 es0 where cons: "es = e0 # es0" by (cases es) auto
  have S: "mset es' = live es \<and> refs' d - held (mset es') d = refs d - held (mset es) d" for d
    using scan_result [OF s, of d] T [of d] es by blast
  let ?m = "self\<lparr> vmentry := es', desc_refs := refs', is_sorted := False \<rparr>"
  have "NaClVmmapRemoveMarked self = Inr ?m"
    using ne t s by (simp add: NaClVmmapRemoveMarked_def cons)
  moreover have "other_refs ?m = other_refs self"
  proof
    fix d
    have "refs' d - held (mset es') d = desc_refs self d - held (mset (vmentry self)) d"
      using S [of d] T [of d] by metis
    then show "other_refs ?m d = other_refs self d" by (simp add: other_refs_def)
  qed
  moreover have "mset es' = live (vmentry self)" using S T by simp
  ultimately show ?thesis using that [of ?m] by simp
qed

subsection \<open>Sorting\<close>

definition stop_of :: "NaClVmmapEntry \<Rightarrow> nat" where
  "stop_of e = unat (page_num e) + unat (npages e)"

definition chained :: "NaClVmmapEntry list \<Rightarrow> bool" where
  "chained es \<longleftrightarrow> sorted_wrt (\<lambda>a b. stop_of a \<le> unat (page_num b)) es"

lemma ent_ok_bounds:
  assumes "ent_ok e"
  shows "unat (end_page e) = stop_of e" and "unat (page_num e) < stop_of e"
    and "stop_of e \<le> max_pages"
  using assms
  by (auto simp: ent_ok_def stop_of_def max_pages_def unat_gt_0 intro!: unat_add_small)

lemma covers_iff: "covers e p \<longleftrightarrow> unat (page_num e) \<le> p \<and> p < stop_of e"
  by (simp add: covers_def stop_of_def)

lemma sint_ucast_diff:
  fixes a b :: u64
  assumes "unat a < 2 ^ 31" and "unat b < 2 ^ 31"
  shows "sint (ucast (a - b) :: u32) = int (unat a) - int (unat b)"
proof -
  have "(ucast (word_of_int (uint a - uint b) :: u64) :: u32) = word_of_int (uint a - uint b)"
    by transfer (simp add: take_bit_int_def mod_mod_cancel)
  then have ucast: "(ucast (a - b) :: u32) = word_of_int (uint a - uint b)" by simp
  have "sint (word_of_int k :: u32) = signed_take_bit 31 k" for k
    by (simp add: signed_of_int)
  then have "sint (ucast (a - b) :: u32) = signed_take_bit 31 (uint a - uint b)"
    by (simp only: ucast)
  moreover have b: "uint a < 2 ^ 31" "uint b < 2 ^ 31"
  proof -
    have "int (unat a) < int (2 ^ 31)" "int (unat b) < int (2 ^ 31)"
      using assms by (simp_all only: of_nat_less_iff)
    then show "uint a < 2 ^ 31" "uint b < 2 ^ 31" by simp_all
  qed
  moreover have "0 \<le> uint a" "0 \<le> uint b" by simp_all
  then have "- (2 ^ 31) \<le> uint a - uint b" "uint a - uint b < 2 ^ 31" using b by linarith+
  then have "signed_take_bit 31 (uint a - uint b) = uint a - uint b"
    by (intro signed_take_bit_int_eq_self)
  ultimately show ?thesis by simp
qed

lemma compares_entries:
  assumes "\<forall>e \<in> A. ent_ok e"
  shows "compares NaClVmmapCmpEntries (\<lambda>e. unat (page_num e)) A"
proof -
  have "unat (page_num e) < 2 ^ 31" if "e \<in> A" for e
    using ent_ok_bounds(2,3) [of e] assms that by (auto simp: max_pages_def)
  then show ?thesis
    by (simp add: compares_def NaClVmmapCmpEntries_def sint_ucast_diff word_le_nat_alt
        flip: word_le_def)
qed

lemma sorted_chained:
  assumes "\<forall>e \<in> set es. ent_ok e" and "\<And>p. size (views (mset es) p) \<le> 1"
    and "sorted (map (\<lambda>e. unat (page_num e)) es)"
  shows "chained es"
  using assms
proof (induction es)
  case (Cons a es)
  have "size (views (mset es) p) \<le> 1" for p
    using Cons.prems(2) [of p] by (auto split: if_splits)
  with Cons have tail: "chained es" by auto
  have "stop_of a \<le> unat (page_num b)" if b: "b \<in> set es" for b
  proof (rule ccontr)
    let ?p = "unat (page_num b)"
    assume "\<not> stop_of a \<le> ?p"
    then have "covers a ?p" using Cons.prems(3) b by (auto simp: covers_iff)
    moreover have "covers b ?p"
      using ent_ok_bounds(2) [of b] Cons.prems(1) b by (auto simp: covers_iff)
    then have "views (mset es) ?p \<noteq> {#}" using b by (auto simp: views_eq_empty)
    ultimately show False using Cons.prems(2) [of ?p] by simp
  qed
  with tail show ?case by (simp add: chained_def)
qed (simp add: chained_def)

lemma MakeSorted_result:
  assumes "vm_ok self"
  obtains self' where "NaClVmmapMakeSorted self = Inr self'" and "vm_ok self'"
    and "chained (vmentry self')" and "mset (vmentry self') = mset (vmentry self)"
    and "other_refs self' = other_refs self" and "is_sorted self'" and "vm_size self' = vm_size self"
proof (cases "is_sorted self")
  case True
  with assms have "sorted (map (\<lambda>e. unat (page_num e)) (vmentry self))"
    by (simp add: vm_ok_def sorted_map word_le_nat_alt)
  with assms have "chained (vmentry self)" by (intro sorted_chained) (auto simp: vm_ok_def)
  with True assms show ?thesis by (intro that [of self]) (auto simp: NaClVmmapMakeSorted_def)
next
  case False
  have live: "live (vmentry self) = mset (vmentry self)"
    using assms by (intro live_all) (simp add: vm_ok_def)
  obtain m where m: "NaClVmmapRemoveMarked self = Inr m" "mset (vmentry m) = mset (vmentry self)"
    "other_refs m = other_refs self" "vm_size m = vm_size self"
  proof (cases "nvalid self = 0")
    case True
    then show ?thesis by (intro that [of self]) (auto simp: RemoveMarked_empty)
  next
    case False
    then have "live (vmentry self) \<noteq> {#}" by (auto simp: live)
    then show ?thesis by (rule RemoveMarked_some) (auto simp: live intro!: that)
  qed
  let ?es = "qsort_by NaClVmmapCmpEntries (vmentry m)"
  let ?m = "m\<lparr> vmentry := ?es, is_sorted := True \<rparr>"
  have set: "set (vmentry m) = set (vmentry self)" using m(2) by (rule mset_eq_setD)
  have sorted: "sorted (map (\<lambda>e. unat (page_num e)) ?es)"
    using assms set by (intro sorted_qsort_by compares_entries) (auto simp: vm_ok_def)
  then have ok: "vm_ok ?m"
    using assms set m mset_eq_length [OF m(2)]
    by (auto simp: vm_ok_def sorted_map word_le_nat_alt)
  then have "chained ?es"
    using sorted by (intro sorted_chained) (auto simp: vm_ok_def)
  moreover have "other_refs ?m = other_refs self"
    using m by (intro ext) (simp add: other_refs_def fun_eq_iff)
  ultimately show ?thesis using False m ok by (intro that [of ?m]) (simp_all add: NaClVmmapMakeSorted_def)
qed

subsection \<open>Cutting a region out of the entries\<close>

definition cut1 :: "u64 \<Rightarrow> u64 \<Rightarrow> NaClVmmapEntry \<Rightarrow> NaClVmmapEntry list" where
  "cut1 pn stop e =
     (let front = e\<lparr> npages := pn - page_num e \<rparr>;
          rear = e\<lparr> page_num := stop, npages := end_page e - stop,
                    offset := offset e + push_bit NACL_PAGESHIFT (stop - page_num e) \<rparr> in
      if page_num e < pn \<and> stop < end_page e then [front, rear]
      else if page_num e < pn \<and> pn < end_page e then [front]
      else if page_num e < stop \<and> stop < end_page e then [rear]
      else if pn \<le> page_num e \<and> end_page e \<le> stop then []
      else [e])"

lemma cut1_beyond:
  "stop \<le> page_num e \<Longrightarrow> pn < stop \<Longrightarrow> ent_ok e \<Longrightarrow> cut1 pn stop e = [e]"
  using ent_ok_bounds(1,2) [of e] by (auto simp: cut1_def word_less_nat_alt word_le_nat_alt)

lemma unat_sub_le: "unat b \<le> unat a \<Longrightarrow> unat (a - b) = unat a - unat (b :: u64)"
  by (rule unat_sub_small)

text \<open>The four ways an entry can lie, in natural numbers.\<close>

lemma cut1_cases:
  assumes "ent_ok e" and "pn < stop"
  obtains
    (middle) "unat (page_num e) < unat pn" "unat stop < stop_of e"
      "cut1 pn stop e = [e\<lparr> npages := pn - page_num e \<rparr>,
         e\<lparr> page_num := stop, npages := end_page e - stop,
            offset := offset e + push_bit NACL_PAGESHIFT (stop - page_num e) \<rparr>]"
  | (ending) "unat (page_num e) < unat pn" "unat pn < stop_of e" "stop_of e \<le> unat stop"
      "cut1 pn stop e = [e\<lparr> npages := pn - page_num e \<rparr>]"
  | (start) "unat pn \<le> unat (page_num e)" "unat (page_num e) < unat stop" "unat stop < stop_of e"
      "cut1 pn stop e = [e\<lparr> page_num := stop, npages := end_page e - stop,
            offset := offset e + push_bit NACL_PAGESHIFT (stop - page_num e) \<rparr>]"
  | (covered) "unat pn \<le> unat (page_num e)" "stop_of e \<le> unat stop" "cut1 pn stop e = []"
  | (apart) "unat stop \<le> unat (page_num e) \<or> stop_of e \<le> unat pn" "cut1 pn stop e = [e]"
proof -
  note b = ent_ok_bounds [OF assms(1)]
  note s = word_less_nat_alt word_le_nat_alt b(1) cut1_def Let_def
  have "unat pn < unat stop" using assms(2) by (simp add: word_less_nat_alt)
  moreover have "page_num e \<noteq> stop" if "unat stop < unat (page_num e)" using that by auto
  ultimately consider "unat (page_num e) < unat pn \<and> unat stop < stop_of e"
    | "unat (page_num e) < unat pn \<and> unat pn < stop_of e \<and> stop_of e \<le> unat stop"
    | "unat pn \<le> unat (page_num e) \<and> unat (page_num e) < unat stop \<and> unat stop < stop_of e"
    | "unat pn \<le> unat (page_num e) \<and> stop_of e \<le> unat stop"
    | "unat stop \<le> unat (page_num e) \<or> stop_of e \<le> unat pn"
    by linarith
  then show ?thesis
  proof cases
    case 1 then show ?thesis by (intro middle) (simp_all add: s)
  next
    case 2 then show ?thesis by (intro ending) (simp_all add: s)
  next
    case 3 then show ?thesis by (intro start) (simp_all add: s)
  next
    case 4 then show ?thesis using b(2) by (intro covered) (simp_all add: s)
  next
    case 5
    then show ?thesis using b(2) \<open>unat pn < unat stop\<close> by (intro apart) (auto simp add: s)
  qed
qed

lemma cut1_views:
  assumes "ent_ok e" and "pn < stop"
  shows "views (mset (cut1 pn stop e)) p =
      (if unat pn \<le> p \<and> p < unat stop then {#} else views {#e#} p)"
proof -
  note b = ent_ok_bounds [OF assms(1)]
  have off: "offset e + push_bit 12 (stop - page_num e) + push_bit 12 (of_nat p - stop) =
      offset e + push_bit 12 (of_nat p - page_num e)"
    by (simp add: push_bit_eq_mult algebra_simps)
  have ps: "unat pn < unat stop" using assms(2) by (simp add: word_less_nat_alt)
  from assms show ?thesis
  proof (cases rule: cut1_cases)
    case middle
    with ps b off show ?thesis by (auto simp add: covers_iff view_def stop_of_def unat_sub_le)
  next
    case ending
    with ps b show ?thesis by (auto simp add: covers_iff view_def stop_of_def unat_sub_le)
  next
    case start
    with ps b off show ?thesis by (simp add: covers_iff view_def stop_of_def unat_sub_le)
  next
    case covered
    with ps b show ?thesis by (simp add: covers_iff)
  next
    case apart
    with ps show ?thesis by (auto simp add: covers_iff)
  qed
qed

lemma cut1_ok:
  assumes "ent_ok e" and "pn < stop" and "e' \<in> set (cut1 pn stop e)"
  shows "ent_ok e' \<and> removed e' = removed e"
proof -
  note b = ent_ok_bounds [OF assms(1)]
  have ps: "unat pn < unat stop" using assms(2) by (simp add: word_less_nat_alt)
  have nz: "npages x \<noteq> 0 \<longleftrightarrow> unat (npages x) \<noteq> 0" for x by (simp add: unat_eq_0)
  from assms(1,2) show ?thesis
  proof (cases rule: cut1_cases)
    case middle
    with assms(3) b ps show ?thesis
      by (auto simp: ent_ok_def nz unat_sub_le simp del: word_neq_0_conv)
  next
    case ending
    with assms(3) b show ?thesis by (auto simp: ent_ok_def nz unat_sub_le)
  next
    case start
    with assms(3) b show ?thesis by (auto simp: ent_ok_def nz unat_sub_le)
  next
    case covered
    with assms(3) show ?thesis by simp
  next
    case apart
    with assms show ?thesis by simp
  qed
qed

lemma cut_views:
  assumes "\<forall>e \<in> set es. ent_ok e" and "pn < stop"
  shows "views (mset (concat (map (cut1 pn stop) es))) p =
      (if unat pn \<le> p \<and> p < unat stop then {#} else views (mset es) p)"
  using assms(1) by (induction es) (auto simp: cut1_views assms(2))

subsection \<open>NaClVmmapUpdate\<close>

definition roomy :: "NaClVmmap \<Rightarrow> bool" where
  "roomy self \<longleftrightarrow> nvalid self \<le> vm_size self \<and> 0 < vm_size self"

lemma set_entry_simps [simp]:
  "vmentry (set_entry self i e) = (vmentry self)[i := e]"
  "vm_size (set_entry self i e) = vm_size self"
  "desc_refs (set_entry self i e) = desc_refs self"
  "roomy (set_entry self i e) = roomy self"
  by (simp_all add: set_entry_def roomy_def)

lemma split_nth: "i < length es \<Longrightarrow> es = take i es @ es ! i # drop (Suc i) es"
  by (simp add: Cons_nth_drop_Suc)

lemma mset_update_same:
  assumes "i < length es"
  shows "mset (es[i := e]) + {#es ! i#} = mset es + {#e#}"
  by (subst (3) split_nth [OF assms], subst upd_conv_take_nth_drop [OF assms]) simp

lemma other_refs_set_entry [simp]:
  assumes "i < nvalid self" and "desc e = desc (vmentry self ! i)"
  shows "other_refs (set_entry self i e) = other_refs self"
proof
  fix d
  have "held (mset ((vmentry self)[i := e]) + {#vmentry self ! i#}) d = held (mset (vmentry self) + {#e#}) d"
    by (simp only: mset_update_same [OF assms(1)])
  with assms(2) show "other_refs (set_entry self i e) d = other_refs self d"
    by (simp add: other_refs_def split: if_splits)
qed

lemma Add_simps [simp]:
  "vmentry (NaClVmmapAdd self pn n pr fl d off fsz) = vmentry self @
     [\<lparr> page_num = pn, npages = n, prot = pr, flags = fl, removed = False, desc = d,
        offset = off, file_size = fsz \<rparr>]"
  "other_refs (NaClVmmapAdd self pn n pr fl d off fsz) = other_refs self"
  "roomy self \<Longrightarrow> roomy (NaClVmmapAdd self pn n pr fl d off fsz)"
  "\<not> is_sorted (NaClVmmapAdd self pn n pr fl d off fsz)"
  by (auto simp: NaClVmmapAdd_def NaClVmmapEntryMake_def Let_def other_refs_def desc_ref_def
      roomy_def split: option.splits)

definition cut_ok :: "NaClVmmap \<Rightarrow> u64 \<Rightarrow> u64 \<Rightarrow> nat \<Rightarrow> NaClVmmap \<Rightarrow> bool" where
  "cut_ok self pn stop i self' \<longleftrightarrow>
     live (vmentry self') = live (take i (vmentry self)) +
       mset (concat (map (cut1 pn stop) (drop i (vmentry self)))) \<and>
     other_refs self' = other_refs self \<and> roomy self' \<and> nvalid self \<le> nvalid self'"

lemma live_update:
  "i < length es \<Longrightarrow> live (es[i := e]) = live (take i es) + live [e] + live (drop (Suc i) es)"
  by (simp add: upd_conv_take_nth_drop)

lemma entry_eta:
  "\<not> removed e \<Longrightarrow>
   \<lparr> page_num = a, npages = b, prot = prot e, flags = flags e, removed = False, desc = desc e,
     offset = c, file_size = file_size e \<rparr> = e\<lparr> page_num := a, npages := b, offset := c \<rparr>"
  by simp

lemma concat_cut_beyond:
  assumes "\<forall>e \<in> set es. ent_ok e \<and> unat stop \<le> unat (page_num e)" and "pn < stop"
  shows "concat (map (cut1 pn stop) es) = es"
  using assms(1) by (induction es) (auto simp: cut1_beyond word_le_nat_alt assms(2))

definition cut_pre :: "NaClVmmap \<Rightarrow> u64 \<Rightarrow> u64 \<Rightarrow> nat \<Rightarrow> bool" where
  "cut_pre self pn stop i \<longleftrightarrow> pn < stop \<and> roomy self \<and> chained (drop i (vmentry self)) \<and>
     (\<forall>e \<in> set (drop i (vmentry self)). ent_ok e \<and> \<not> removed e)"

text \<open>What a turn of the loop does to the entry it looks at, \<open>e\<close> being the updated entry.\<close>

lemma cut_turn:
  assumes "i < nvalid self" and "cut_pre self pn stop i"
    and "live [e] = mset (cut1 pn stop (vmentry self ! i))" "desc e = desc (vmentry self ! i)"
  shows "cut_pre (set_entry self i e) pn stop (i + 1)"
    and "cut_ok (set_entry self i e) pn stop (i + 1) self' \<Longrightarrow> cut_ok self pn stop i self'"
proof -
  have drop: "drop i (vmentry self) = vmentry self ! i # drop (Suc i) (vmentry self)"
    using assms(1) by (simp add: Cons_nth_drop_Suc)
  show "cut_pre (set_entry self i e) pn stop (i + 1)"
    using assms(2) by (auto simp: cut_pre_def drop chained_def)
  have "take (Suc i) ((vmentry self)[i := e]) = take i (vmentry self) @ [e]"
    using assms(1) by (simp add: take_Suc_conv_app_nth)
  then show "cut_ok self pn stop i self'" if "cut_ok (set_entry self i e) pn stop (i + 1) self'"
    using that assms by (simp add: cut_ok_def drop del: live_simps(2))
qed

lemma Update_loop_result:
  "cut_pre self pn stop i \<Longrightarrow>
   \<exists>self'. NaClVmmapUpdate_loop self pn stop i = Inr self' \<and> cut_ok self pn stop i self'"
proof (induction self pn stop i rule: NaClVmmapUpdate_loop.induct)
  case (1 self pn stop i)
  let ?es = "vmentry self" and ?ent = "vmentry self ! i"
  have pre: "pn < stop" "roomy self" "chained (drop i ?es)"
    "\<forall>e \<in> set (drop i ?es). ent_ok e \<and> \<not> removed e"
    using "1.prems" by (auto simp: cut_pre_def)
  show ?case
  proof (cases "i < nvalid self")
    case False
    then have "NaClVmmapUpdate_loop self pn stop i = Inr self"
      by (subst NaClVmmapUpdate_loop.simps) simp
    with False pre show ?thesis by (simp add: cut_ok_def)
  next
    case i: True
    have drop: "drop i ?es = ?ent # drop (Suc i) ?es"
      using i by (simp add: Cons_nth_drop_Suc)
    have ent: "ent_ok ?ent" "\<not> removed ?ent" using pre(4) by (auto simp: drop)
    note b = ent_ok_bounds [OF ent(1)]
    have rest: "\<forall>e \<in> set (drop (Suc i) ?es). ent_ok e \<and> \<not> removed e"
      "\<forall>e \<in> set (drop (Suc i) ?es). stop_of ?ent \<le> unat (page_num e)"
      using pre(3,4) by (auto simp: drop chained_def)
    have live_rest: "live (drop (Suc i) ?es) = mset (drop (Suc i) ?es)"
      using rest(1) by (intro live_all) auto
    have beyond: "concat (map (cut1 pn stop) (drop (Suc i) ?es)) = drop (Suc i) ?es"
      if "unat stop < stop_of ?ent"
      using rest that by (intro concat_cut_beyond pre(1)) auto
    note turn = cut_turn [OF i "1.prems"]
    from ent(1) pre(1) show ?thesis
    proof (cases rule: cut1_cases)
      case middle
      then have c: "page_num ?ent < pn" "stop < end_page ?ent"
        by (simp_all add: word_less_nat_alt b)
      show ?thesis
        using i middle beyond [OF middle(2)] live_rest ent pre(2)
        by (subst NaClVmmapUpdate_loop.simps)
          (simp add: c cut_ok_def drop live_update list_update_append entry_eta nth_append Let_def)
    next
      case ending
      then have c: "page_num ?ent < pn" "pn < end_page ?ent" "\<not> stop < end_page ?ent"
        by (simp_all add: word_less_nat_alt b)
      let ?e = "?ent\<lparr> npages := pn - page_num ?ent \<rparr>"
      have "live [?e] = mset (cut1 pn stop ?ent)" using ent by (simp add: ending)
      from turn [OF this] "1.IH"(1) [OF i refl refl] c
      have "\<exists>self'. NaClVmmapUpdate_loop (set_entry self i ?e) pn stop (i + 1) = Inr self' \<and>
          cut_ok self pn stop i self'" by fastforce
      with i c show ?thesis by (subst NaClVmmapUpdate_loop.simps) (simp add: Let_def)
    next
      case start
      then have c: "\<not> page_num ?ent < pn" "page_num ?ent < stop" "stop < end_page ?ent"
        by (simp_all add: word_less_nat_alt b)
      show ?thesis
        using i start beyond [OF start(3)] live_rest ent pre(2)
        by (subst NaClVmmapUpdate_loop.simps) (simp add: c cut_ok_def drop live_update Let_def)
    next
      case covered
      then have c: "\<not> page_num ?ent < pn" "\<not> stop < end_page ?ent" "pn \<le> page_num ?ent"
        "end_page ?ent \<le> stop"
        by (simp_all add: word_less_nat_alt word_le_nat_alt b)
      let ?e = "?ent\<lparr> removed := True \<rparr>"
      have "live [?e] = mset (cut1 pn stop ?ent)" by (simp add: covered)
      from turn [OF this] "1.IH"(2) [OF i refl refl] c
      have "\<exists>self'. NaClVmmapUpdate_loop (set_entry self i ?e) pn stop (i + 1) = Inr self' \<and>
          cut_ok self pn stop i self'" by fastforce
      with i c show ?thesis by (subst NaClVmmapUpdate_loop.simps) (simp add: Let_def)
    next
      case apart
      have "unat pn < unat stop" using pre(1) by (simp add: word_less_nat_alt)
      with apart b have c: "\<not> (page_num ?ent < pn \<and> stop < end_page ?ent)"
        "\<not> (page_num ?ent < pn \<and> pn < end_page ?ent)"
        "\<not> (page_num ?ent < stop \<and> stop < end_page ?ent)"
        "\<not> (pn \<le> page_num ?ent \<and> end_page ?ent \<le> stop)"
        "stop \<le> page_num ?ent \<or> end_page ?ent \<le> pn"
        by (auto simp: word_less_nat_alt word_le_nat_alt)
      have "live [?ent] = mset (cut1 pn stop ?ent)" using ent by (simp add: apart)
      from turn [OF this] have "cut_pre self pn stop (i + 1)"
        and "cut_ok self pn stop (i + 1) self' \<Longrightarrow> cut_ok self pn stop i self'" for self'
        by (simp_all add: set_entry_def)
      with "1.IH"(3) [OF i refl refl] c
      have "\<exists>self'. NaClVmmapUpdate_loop self pn stop (i + 1) = Inr self' \<and>
          cut_ok self pn stop i self'" by fastforce
      then show ?thesis
        by (subst NaClVmmapUpdate_loop.simps)
          (simp only: i c Let_def if_True if_False cassert_simps andThen.simps)
    qed
  qed
qed

text \<open>The page range of an operation.\<close>

definition region_ok :: "u64 \<Rightarrow> u64 \<Rightarrow> bool" where
  "region_ok pn n \<longleftrightarrow> n \<noteq> 0 \<and> unat pn + unat n \<le> max_pages"

definition in_region :: "u64 \<Rightarrow> u64 \<Rightarrow> nat \<Rightarrow> bool" where
  "in_region pn n p \<longleftrightarrow> unat pn \<le> p \<and> p < unat pn + unat n"

lemma region_stop:
  assumes "region_ok pn n"
  shows "unat (pn + n) = unat pn + unat n" and "pn < pn + n"
  using ent_ok_bounds(1,2) [of "\<lparr> page_num = pn, npages = n, prot = 0, flags = 0, removed = False,
      desc = None, offset = 0, file_size = 0 \<rparr>"] assms
  by (simp_all add: region_ok_def ent_ok_def stop_of_def word_less_nat_alt)

definition new_page :: "u64 \<Rightarrow> u32 \<Rightarrow> u32 \<Rightarrow> nat option \<Rightarrow> u64 \<Rightarrow> u64 \<Rightarrow> nat \<Rightarrow> page_view" where
  "new_page pn pr fl d off fsz p = \<lparr> pv_prot = pr, pv_flags = fl, pv_desc = d,
     pv_offset = off + push_bit NACL_PAGESHIFT (of_nat p - pn), pv_file_size = fsz \<rparr>"

text \<open>What \<open>NaClVmmapUpdate\<close> leaves of the entries before it adds the new one.\<close>

lemma vm_ok_live:
  assumes "\<forall>e \<in># M. ent_ok e \<and> \<not> removed e" and "\<And>p. size (views M p) \<le> 1"
    and "mset (vmentry m) = M" and "roomy m" and "\<not> is_sorted m"
  shows "vm_ok m"
  using assms by (auto simp: vm_ok_def roomy_def)

lemma live_not_removed: "e \<in># live es \<Longrightarrow> \<not> removed e \<and> e \<in> set es"
  by (simp add: live_def)

lemma Update_cut:
  assumes "vm_ok self" and "region_ok pn n"
  obtains s m where "NaClVmmapMakeSorted self = Inr s"
    and "NaClVmmapUpdate_loop s pn (pn + n) 0 = Inr m"
    and "\<And>p. views (live (vmentry m)) p =
           (if in_region pn n p then {#} else views (mset (vmentry self)) p)"
    and "\<forall>e \<in># live (vmentry m). ent_ok e \<and> \<not> removed e"
    and "other_refs m = other_refs self" and "roomy m" and "nvalid self \<le> nvalid m"
proof -
  from assms(1) obtain s where s: "NaClVmmapMakeSorted self = Inr s" "vm_ok s" "chained (vmentry s)"
    "mset (vmentry s) = mset (vmentry self)" "other_refs s = other_refs self"
    by (rule MakeSorted_result)
  have ok: "\<forall>e \<in> set (vmentry s). ent_ok e \<and> \<not> removed e" "roomy s"
    using s(2) by (auto simp: vm_ok_def roomy_def)
  with s region_stop [OF assms(2)] have "cut_pre s pn (pn + n) 0" by (simp add: cut_pre_def)
  then obtain m where m: "NaClVmmapUpdate_loop s pn (pn + n) 0 = Inr m" "cut_ok s pn (pn + n) 0 m"
    using Update_loop_result by blast
  let ?cut = "concat (map (cut1 pn (pn + n)) (vmentry s))"
  have live: "live (vmentry m) = mset ?cut" using m(2) by (simp add: cut_ok_def)
  have "views (mset ?cut) p = (if in_region pn n p then {#} else views (mset (vmentry self)) p)" for p
    using ok(1) s(4) region_stop [OF assms(2)] by (subst cut_views) (auto simp: in_region_def)
  moreover have "\<forall>e \<in># mset ?cut. ent_ok e \<and> \<not> removed e"
    using ok(1) region_stop(2) [OF assms(2)] cut1_ok by fastforce
  ultimately show ?thesis
    using that [OF s(1) m(1)] m(2) s(5) live mset_eq_length [OF s(4)] by (simp add: cut_ok_def)
qed

lemma AddWithOverwrite_result:
  assumes "vm_ok self" and "region_ok pn n"
  obtains self' where "NaClVmmapAddWithOverwrite self pn n pr fl d off fsz = Inr self'"
    and "vm_ok self'" and "other_refs self' = other_refs self"
    and "\<And>p. page_at self' p =
       (if in_region pn n p then Some (new_page pn pr fl d off fsz p) else page_at self p)"
proof -
  from assms obtain s m where m: "NaClVmmapMakeSorted self = Inr s"
    "NaClVmmapUpdate_loop s pn (pn + n) 0 = Inr m"
    "\<And>p. views (live (vmentry m)) p =
       (if in_region pn n p then {#} else views (mset (vmentry self)) p)"
    "\<forall>e \<in># live (vmentry m). ent_ok e \<and> \<not> removed e"
    "other_refs m = other_refs self" "roomy m" "nvalid self \<le> nvalid m"
    by (rule Update_cut) blast
  let ?new = "\<lparr> page_num = pn, npages = n, prot = pr, flags = fl, removed = False, desc = d,
    offset = off, file_size = fsz \<rparr>"
  let ?a = "NaClVmmapAdd m pn n pr fl d off fsz"
  have live: "live (vmentry ?a) = add_mset ?new (live (vmentry m))" by simp
  then have "live (vmentry ?a) \<noteq> {#}" by simp
  then obtain self' where r: "NaClVmmapRemoveMarked ?a = Inr self'"
    "mset (vmentry self') = live (vmentry ?a)" "other_refs self' = other_refs ?a"
    "vm_size self' = vm_size ?a" "\<not> is_sorted self'"
    by (rule RemoveMarked_some)
  have new: "ent_ok ?new" "covers ?new p \<longleftrightarrow> in_region pn n p"
    "view ?new p = new_page pn pr fl d off fsz p" for p
    using assms(2) by (simp_all add: region_ok_def ent_ok_def covers_def in_region_def view_def new_page_def)
  have views: "views (mset (vmentry self')) p =
     (if in_region pn n p then {#new_page pn pr fl d off fsz p#} else views (mset (vmentry self)) p)" for p
    by (simp add: r(2) live new m(3) del: Add_simps)
  have "size (mset (vmentry self')) \<le> nvalid ?a"
    by (simp only: r(2) live_def) (metis size_filter_mset_lesseq size_mset)
  then have "roomy self'"
    using Add_simps(3) [OF m(6), of pn n pr fl d off fsz] r(4) by (simp add: roomy_def)
  have "vm_ok self'"
  proof (rule vm_ok_live [OF _ _ refl])
    show "\<forall>e \<in># mset (vmentry self'). ent_ok e \<and> \<not> removed e"
      using m(4) new(1) by (auto simp: r(2) live)
    show "size (views (mset (vmentry self')) p) \<le> 1" for p
      using assms(1) by (simp add: views vm_ok_def)
  qed fact+
  moreover have "page_at self' p =
      (if in_region pn n p then Some (new_page pn pr fl d off fsz p) else page_at self p)" for p
    using page_at_views [OF assms(1) \<open>vm_ok self'\<close>, of p p] page_at_Some [of self' p]
    by (simp add: views)
  moreover have "n > 0" using assms(2) by (simp add: region_ok_def word_gt_0)
  ultimately show ?thesis
    using that r m by (simp add: NaClVmmapAddWithOverwrite_def NaClVmmapUpdate_def)
qed

text \<open>
  Removal.  Where nothing would be left of a map that has entries,
  \<open>NaClVmmapRemoveMarked\<close> reads the slot it has just cleared.
\<close>

lemma Remove_result:
  assumes "vm_ok self" and "region_ok pn n"
    and "\<exists>p. page_at self p \<noteq> None \<and> \<not> in_region pn n p"
  obtains self' where "NaClVmmapRemove self pn n = Inr self'"
    and "vm_ok self'" and "other_refs self' = other_refs self"
    and "\<And>p. page_at self' p = (if in_region pn n p then None else page_at self p)"
proof -
  from assms(1,2) obtain s m where m: "NaClVmmapMakeSorted self = Inr s"
    "NaClVmmapUpdate_loop s pn (pn + n) 0 = Inr m"
    "\<And>p. views (live (vmentry m)) p =
       (if in_region pn n p then {#} else views (mset (vmentry self)) p)"
    "\<forall>e \<in># live (vmentry m). ent_ok e \<and> \<not> removed e"
    "other_refs m = other_refs self" "roomy m" "nvalid self \<le> nvalid m"
    by (rule Update_cut) blast
  from assms(3) obtain q where "page_at self q \<noteq> None" "\<not> in_region pn n q" by blast
  then have "views (live (vmentry m)) q \<noteq> {#}" by (simp add: m(3) page_at_None [symmetric])
  then have "live (vmentry m) \<noteq> {#}" by auto
  then obtain self' where r: "NaClVmmapRemoveMarked m = Inr self'"
    "mset (vmentry self') = live (vmentry m)" "other_refs self' = other_refs m"
    "vm_size self' = vm_size m" "\<not> is_sorted self'"
    by (rule RemoveMarked_some)
  have "size (mset (vmentry self')) \<le> nvalid m"
    by (simp only: r(2) live_def) (metis size_filter_mset_lesseq size_mset)
  then have "roomy self'" using m(6) r(4) by (simp add: roomy_def)
  have "vm_ok self'"
  proof (rule vm_ok_live [OF _ _ refl])
    show "\<forall>e \<in># mset (vmentry self'). ent_ok e \<and> \<not> removed e" using m(4) by (auto simp: r(2))
    show "size (views (mset (vmentry self')) p) \<le> 1" for p
      using assms(1) by (simp add: r(2) m(3) vm_ok_def)
  qed fact+
  moreover have "page_at self' p = (if in_region pn n p then None else page_at self p)" for p
    using page_at_views [OF assms(1) \<open>vm_ok self'\<close>, of p p] page_at_None [of self' p]
    by (simp add: r(2) m(3))
  moreover have "n > 0" using assms(2) by (simp add: region_ok_def word_gt_0)
  ultimately show ?thesis
    using that r m by (simp add: NaClVmmapRemove_def NaClVmmapUpdate_def)
qed

lemma Remove_everything:
  assumes "vm_ok self" and "region_ok pn n" and "nvalid self \<noteq> 0"
    and "\<forall>p. page_at self p \<noteq> None \<longrightarrow> in_region pn n p"
  shows "NaClVmmapRemove self pn n = Inl NullDeref"
proof -
  from assms(1,2) obtain s m where m: "NaClVmmapMakeSorted self = Inr s"
    "NaClVmmapUpdate_loop s pn (pn + n) 0 = Inr m"
    "\<And>p. views (live (vmentry m)) p =
       (if in_region pn n p then {#} else views (mset (vmentry self)) p)"
    "\<forall>e \<in># live (vmentry m). ent_ok e \<and> \<not> removed e"
    "other_refs m = other_refs self" "roomy m" "nvalid self \<le> nvalid m"
    by (rule Update_cut) blast
  have none: "views (live (vmentry m)) p = {#}" for p
    using assms(4) [rule_format, of p] by (auto simp: m(3) page_at_None)
  have live: "live (vmentry m) = {#}"
  proof (rule ccontr)
    assume "live (vmentry m) \<noteq> {#}"
    then obtain e M where e: "live (vmentry m) = add_mset e M" by (meson multiset_cases)
    then have "covers e (unat (page_num e))"
      using m(4) ent_ok_bounds(2) [of e] by (simp add: covers_iff)
    with none [of "unat (page_num e)"] show False by (simp add: e)
  qed
  have "nvalid m \<noteq> 0" using m(7) assms(3) by linarith
  then have "NaClVmmapRemoveMarked m = Inl NullDeref" using live by (rule RemoveMarked_all)
  moreover have "n > 0" using assms(2) by (simp add: region_ok_def word_gt_0)
  ultimately show ?thesis using m by (simp add: NaClVmmapRemove_def NaClVmmapUpdate_def)
qed

end
