(* ===== verification/Vmmap_Protect.thy ===== *)
theory Vmmap_Protect
  imports Vmmap_Proofs
begin

text \<open>
  Protection of the memory map: \<open>NaClVmmapCheckExistingMapping\<close> decides whether every page
  of a range is mapped and allows a protection, and \<open>NaClVmmapChangeProt\<close> sets it on
  exactly these pages.
\<close>

subsection \<open>Pages and entries\<close>

lemma page_at_iff:
  assumes "vm_ok self"
  shows "page_at self p = Some v \<longleftrightarrow> (\<exists>e \<in> set (vmentry self). covers e p \<and> v = view e p)"
proof -
  have sz: "size (views (mset (vmentry self)) p) \<le> 1" using assms by (simp add: vm_ok_def)
  have "(\<exists>e \<in> set es. covers e p \<and> v = view e p) \<longleftrightarrow> v \<in># views (mset es) p" for es
    by (auto simp: views_def)
  moreover have "v \<in># M \<longleftrightarrow> M = {#v#}" if "size M \<le> 1" for M :: "page_view multiset"
    using that by (cases M) auto
  ultimately show ?thesis using page_at_Some [OF sz] sz by metis
qed

lemma page_at_mset:
  assumes "vm_ok self" and "vm_ok self'" and "mset (vmentry self') = mset (vmentry self)"
  shows "page_at self' = page_at self"
  using page_at_views [OF assms(1,2)] assms(3) by (intro ext) simp

subsection \<open>The protections an entry allows\<close>

definition access_modes_ok :: "(nat \<Rightarrow> u32) \<Rightarrow> bool" where
  "access_modes_ok GetFlags \<longleftrightarrow> (\<forall>d. GetFlags d AND O_ACCMODE \<in> {O_RDONLY, O_WRONLY, O_RDWR})"

definition view_max_prot :: "(nat \<Rightarrow> u32) \<Rightarrow> page_view \<Rightarrow> u32" where
  "view_max_prot GetFlags v =
     (case pv_desc v of
        Some d \<Rightarrow>
          if pv_flags v AND MAP_PRIVATE = 0 \<and> GetFlags d AND O_ACCMODE = O_RDONLY then PROT_READ
          else if pv_flags v AND MAP_PRIVATE = 0 \<and> GetFlags d AND O_ACCMODE = O_WRONLY then PROT_WRITE
          else PROT_READ OR PROT_WRITE
      | None \<Rightarrow> PROT_READ OR PROT_WRITE)"

lemma EntryMaxProt_view:
  "access_modes_ok GetFlags \<Longrightarrow>
   NaClVmmapEntryMaxProt GetFlags e = Inr (view_max_prot GetFlags (view e p))"
  unfolding NaClVmmapEntryMaxProt_def view_max_prot_def view_def access_modes_ok_def Let_def
  by (auto split: option.split)

definition allows :: "(nat \<Rightarrow> u32) \<Rightarrow> u32 \<Rightarrow> page_view \<Rightarrow> bool" where
  "allows GetFlags pr v \<longleftrightarrow> pr AND NOT (view_max_prot GetFlags v) = 0"

lemma allows_page: "allows GetFlags pr (view e p) \<longleftrightarrow> allows GetFlags pr (view e q)"
proof -
  have eq: "pv_desc (view e p) = pv_desc (view e q)" "pv_flags (view e p) = pv_flags (view e q)"
    by (simp_all add: view_def)
  have "view_max_prot GetFlags (view e p) = view_max_prot GetFlags (view e q)"
    unfolding view_max_prot_def eq by (rule refl)
  then show ?thesis by (simp add: allows_def)
qed

subsection \<open>NaClVmmapCheckExistingMapping\<close>

lemma CheckExisting_loop_result:
  assumes "access_modes_ok GetFlags" and "chained es" and "\<forall>e \<in> set es. ent_ok e" and "pn < stop"
  shows "CheckExisting_loop GetFlags es pn stop pr =
     Inr (\<forall>p. unat pn \<le> p \<and> p < unat stop \<longrightarrow>
           (\<exists>e \<in> set es. covers e p \<and> allows GetFlags pr (view e p)))"
  using assms(2-4)
proof (induction es arbitrary: pn)
  case Nil
  then show ?case by (auto simp: word_less_nat_alt)
next
  case (Cons ent es)
  have ent: "ent_ok ent" using Cons.prems by simp
  note b = ent_ok_bounds [OF ent]
  let ?al = "\<lambda>e p. covers e p \<and> allows GetFlags pr (view e p)"
  let ?ok = "\<lambda>es pn. \<forall>p. unat pn \<le> p \<and> p < unat stop \<longrightarrow> (\<exists>e \<in> set es. ?al e p)"
  have rest: "chained es" "\<forall>e \<in> set es. ent_ok e" using Cons.prems by (auto simp: chained_def)
  have later: "\<not> covers e p" if "e \<in> set es" "p < stop_of ent" for e p
    using Cons.prems(1) that by (fastforce simp: chained_def covers_iff)
  have ps: "unat pn < unat stop" using Cons.prems(3) by (simp add: word_less_nat_alt)
  have max: "NaClVmmapEntryMaxProt GetFlags ent = Inr (view_max_prot GetFlags (view ent 0))"
    by (rule EntryMaxProt_view [OF assms(1)])
  have al: "pr AND NOT (view_max_prot GetFlags (view ent 0)) = 0 \<longleftrightarrow> allows GetFlags pr (view ent p)" for p
    using allows_page [of GetFlags pr ent 0 p] by (simp add: allows_def)
  consider (inside) "unat (page_num ent) \<le> unat pn" "unat stop \<le> stop_of ent"
    | (overlap) "unat (page_num ent) \<le> unat pn" "unat pn < stop_of ent" "stop_of ent < unat stop"
    | (gap) "unat pn < unat (page_num ent)"
    | (before) "stop_of ent \<le> unat pn"
    using b by linarith
  then show ?case
  proof cases
    case inside
    then have "?ok (ent # es) pn \<longleftrightarrow> (\<forall>p. unat pn \<le> p \<and> p < unat stop \<longrightarrow> allows GetFlags pr (view ent p))"
      using later by (auto simp: covers_iff)
    also have "\<dots> \<longleftrightarrow> pr AND NOT (view_max_prot GetFlags (view ent 0)) = 0"
      using ps al by auto
    finally show ?thesis using inside by (simp add: max b word_le_nat_alt)
  next
    case overlap
    have c: "page_num ent \<le> pn" "\<not> stop \<le> end_page ent" "pn < end_page ent" "end_page ent < stop"
      using overlap by (simp_all add: b word_le_nat_alt word_less_nat_alt)
    show ?thesis
    proof (cases "pr AND NOT (view_max_prot GetFlags (view ent 0)) = 0")
      case False
      have "\<not> (\<exists>e \<in> set (ent # es). ?al e (unat pn))" using al False later overlap by auto
      with c ps show ?thesis by (simp add: max False) (meson order_refl)
    next
      case True
      have "?ok (ent # es) pn \<longleftrightarrow> ?ok es (end_page ent)"
      proof
        assume ok: "?ok (ent # es) pn"
        show "?ok es (end_page ent)"
        proof (intro allI impI)
          fix p
          assume p: "unat (end_page ent) \<le> p \<and> p < unat stop"
          then have "unat pn \<le> p \<and> p < unat stop" "\<not> covers ent p"
            using overlap b by (simp_all add: covers_iff)
          then show "\<exists>e \<in> set es. ?al e p" using ok by auto
        qed
      next
        assume ok: "?ok es (end_page ent)"
        show "?ok (ent # es) pn"
        proof (intro allI impI)
          fix p
          assume p: "unat pn \<le> p \<and> p < unat stop"
          show "\<exists>e \<in> set (ent # es). ?al e p"
          proof (cases "p < stop_of ent")
            case True
            with p overlap have "covers ent p" by (simp add: covers_iff)
            then show ?thesis using al [of p] \<open>pr AND _ = 0\<close> by simp
          next
            case False
            with p ok b show ?thesis by simp
          qed
        qed
      qed
      with Cons.IH [OF rest c(4)] c True show ?thesis by (simp add: max)
    qed
  next
    case gap
    have "\<not> (\<exists>e \<in> set (ent # es). ?al e (unat pn))" using gap later b by (auto simp: covers_iff)
    moreover have "\<not> page_num ent \<le> pn" "pn < page_num ent"
      using gap by (simp_all add: word_le_nat_alt word_less_nat_alt)
    ultimately show ?thesis using ps by (simp add: max) (meson order_refl)
  next
    case before
    then have "\<not> stop \<le> end_page ent" "\<not> pn < end_page ent" "\<not> pn < page_num ent"
      using b ps by (simp_all add: word_le_nat_alt word_less_nat_alt)
    moreover have "?ok (ent # es) pn \<longleftrightarrow> ?ok es pn" using before by (auto simp: covers_iff)
    ultimately show ?thesis using Cons.IH [OF rest Cons.prems(3)] by (simp add: max)
  qed
qed

definition mapped_and_allowed :: "(nat \<Rightarrow> u32) \<Rightarrow> NaClVmmap \<Rightarrow> u64 \<Rightarrow> u64 \<Rightarrow> u32 \<Rightarrow> bool" where
  "mapped_and_allowed GetFlags self pn n pr \<longleftrightarrow>
     (\<forall>p. in_region pn n p \<longrightarrow> (\<exists>v. page_at self p = Some v \<and> allows GetFlags pr v))"

lemma CheckExistingMapping_result:
  assumes "access_modes_ok GetFlags" and "vm_ok self" and "region_ok pn n"
  obtains self' where "NaClVmmapCheckExistingMapping GetFlags self pn n pr =
      Inr (self', mapped_and_allowed GetFlags self pn n pr)"
    and "vm_ok self'" and "page_at self' = page_at self" and "other_refs self' = other_refs self"
    and "mapped_and_allowed GetFlags self pn n pr \<Longrightarrow> is_sorted self'"
    and "mset (vmentry self') = mset (vmentry self)"
proof (cases "nvalid self = 0")
  case True
  have "unat n \<noteq> 0" using assms(3) by (simp add: region_ok_def unat_eq_0)
  then have "in_region pn n (unat pn)" by (simp add: in_region_def)
  moreover have "page_at self (unat pn) = None" using True by (simp add: page_at_def)
  ultimately have "\<not> mapped_and_allowed GetFlags self pn n pr"
    by (auto simp: mapped_and_allowed_def)
  with True assms(2) show ?thesis
    by (intro that [of self]) (auto simp: NaClVmmapCheckExistingMapping_def)
next
  case False
  from assms(2) obtain s where s: "NaClVmmapMakeSorted self = Inr s" "vm_ok s" "chained (vmentry s)"
    "mset (vmentry s) = mset (vmentry self)" "other_refs s = other_refs self" "is_sorted s"
    by (rule MakeSorted_result)
  have set: "set (vmentry s) = set (vmentry self)" using s(4) by (rule mset_eq_setD)
  have "(\<forall>p. unat pn \<le> p \<and> p < unat (pn + n) \<longrightarrow>
      (\<exists>e \<in> set (vmentry s). covers e p \<and> allows GetFlags pr (view e p))) \<longleftrightarrow>
      mapped_and_allowed GetFlags self pn n pr"
    using page_at_iff [OF assms(2)] region_stop(1) [OF assms(3)]
    unfolding mapped_and_allowed_def in_region_def set by metis
  moreover have "\<forall>e \<in> set (vmentry s). ent_ok e" using s(2) by (simp add: vm_ok_def)
  ultimately have "CheckExisting_loop GetFlags (vmentry s) pn (pn + n) pr =
      Inr (mapped_and_allowed GetFlags self pn n pr)"
    using CheckExisting_loop_result [OF assms(1) s(3) _ region_stop(2) [OF assms(3)], of pr] by simp
  with False s show ?thesis
    by (intro that [of s] page_at_mset assms(2)) (simp_all add: NaClVmmapCheckExistingMapping_def)
qed

subsection \<open>NaClVmmapChangeProt\<close>

text \<open>
  What the loop makes of one entry.  The pieces that keep their protection get the file
  offset of their first page; the piece that changes does not when the entry starts before
  the region: the code adds the number of skipped pages and not their size
  (\<open>reprotected_view\<close>).  \<open>coarse\<close> is what a page has beside its file offset.
\<close>

definition prot1 :: "u64 \<Rightarrow> u64 \<Rightarrow> u32 \<Rightarrow> NaClVmmapEntry \<Rightarrow> NaClVmmapEntry list" where
  "prot1 pn stop pr e =
     (let front = e\<lparr> npages := pn - page_num e \<rparr>;
          rear = e\<lparr> page_num := stop, npages := end_page e - stop,
                    offset := offset e + push_bit NACL_PAGESHIFT (stop - page_num e) \<rparr>;
          mid = (\<lambda>a b off. e\<lparr> page_num := a, npages := b - a, prot := pr, offset := off \<rparr>) in
      if page_num e < pn \<and> stop < end_page e
      then [front, rear, mid pn stop (offset e + (pn - page_num e))]
      else if page_num e < pn \<and> pn < end_page e
      then [front, mid pn (end_page e) (offset e + (pn - page_num e))]
      else if page_num e < stop \<and> stop < end_page e
      then [rear, mid (page_num e) stop (offset e)]
      else if pn \<le> page_num e \<and> end_page e \<le> stop then [e\<lparr> prot := pr \<rparr>]
      else [e])"

definition coarse :: "page_view \<Rightarrow> page_view" where
  "coarse v = v\<lparr> pv_offset := 0 \<rparr>"

definition reprotected_view :: "u64 \<Rightarrow> u32 \<Rightarrow> NaClVmmapEntry \<Rightarrow> nat \<Rightarrow> page_view" where
  "reprotected_view pn pr e p = (view e p)\<lparr> pv_prot := pr,
     pv_offset := (if page_num e < pn
                   then offset e + (pn - page_num e) + push_bit NACL_PAGESHIFT (of_nat p - pn)
                   else pv_offset (view e p)) \<rparr>"

text \<open>The five ways an entry can lie.\<close>

lemma position_cases:
  assumes "ent_ok e" and "pn < stop"
  obtains
    (middle) "unat (page_num e) < unat pn" "unat stop < stop_of e"
      "page_num e < pn" "stop < end_page e"
  | (ending) "unat (page_num e) < unat pn" "unat pn < stop_of e" "stop_of e \<le> unat stop"
      "page_num e < pn" "pn < end_page e" "\<not> stop < end_page e"
  | (start) "unat pn \<le> unat (page_num e)" "unat (page_num e) < unat stop" "unat stop < stop_of e"
      "\<not> page_num e < pn" "page_num e < stop" "stop < end_page e"
  | (covered) "unat pn \<le> unat (page_num e)" "stop_of e \<le> unat stop"
      "\<not> page_num e < pn" "\<not> stop < end_page e" "pn \<le> page_num e" "end_page e \<le> stop"
  | (apart) "unat stop \<le> unat (page_num e) \<or> stop_of e \<le> unat pn"
      "\<not> (page_num e < pn \<and> stop < end_page e)" "\<not> (page_num e < pn \<and> pn < end_page e)"
      "\<not> (page_num e < stop \<and> stop < end_page e)" "\<not> (pn \<le> page_num e \<and> end_page e \<le> stop)"
      "stop \<le> page_num e \<or> end_page e \<le> pn"
proof -
  note b = ent_ok_bounds [OF assms(1)]
  note s = word_less_nat_alt word_le_nat_alt b(1)
  have ps: "unat pn < unat stop" using assms(2) by (simp add: word_less_nat_alt)
  then consider "unat (page_num e) < unat pn \<and> unat stop < stop_of e"
    | "unat (page_num e) < unat pn \<and> unat pn < stop_of e \<and> stop_of e \<le> unat stop"
    | "unat pn \<le> unat (page_num e) \<and> unat (page_num e) < unat stop \<and> unat stop < stop_of e"
    | "unat pn \<le> unat (page_num e) \<and> stop_of e \<le> unat stop"
    | "unat stop \<le> unat (page_num e) \<or> stop_of e \<le> unat pn"
    by linarith
  then show ?thesis
  proof cases
    case 1 then show ?thesis by (intro middle) (simp_all add: s)
  next
    case 2 then show ?thesis by (intro ending) (simp_all add: s)
  next
    case 3 then show ?thesis by (intro start) (simp_all add: s)
  next
    case 4 then show ?thesis using b(2) by (intro covered) (simp_all add: s)
  next
    case 5
    with b(2) ps show ?thesis by (intro apart) (auto simp add: s)
  qed
qed

lemma prot1_views:
  assumes "ent_ok e" and "pn < stop"
  shows "image_mset coarse (views (mset (prot1 pn stop pr e)) p) =
      (if unat pn \<le> p \<and> p < unat stop
       then image_mset (\<lambda>v. coarse (v\<lparr> pv_prot := pr \<rparr>)) (views {#e#} p)
       else image_mset coarse (views {#e#} p))"
    and "\<not> (unat pn \<le> p \<and> p < unat stop) \<Longrightarrow> views (mset (prot1 pn stop pr e)) p = views {#e#} p"
    and "e' \<in> set (prot1 pn stop pr e) \<Longrightarrow> ent_ok e' \<and> removed e' = removed e"
proof -
  note b = ent_ok_bounds [OF assms(1)]
  have off: "offset e + push_bit 12 (stop - page_num e) + push_bit 12 (of_nat p - stop) =
      offset e + push_bit 12 (of_nat p - page_num e)"
    by (simp add: push_bit_eq_mult algebra_simps)
  have ps: "unat pn < unat stop" using assms(2) by (simp add: word_less_nat_alt)
  have nz: "npages x \<noteq> 0 \<longleftrightarrow> unat (npages x) \<noteq> 0" for x :: NaClVmmapEntry by (simp add: unat_eq_0)
  from assms have "image_mset coarse (views (mset (prot1 pn stop pr e)) p) =
      (if unat pn \<le> p \<and> p < unat stop
       then image_mset (\<lambda>v. coarse (v\<lparr> pv_prot := pr \<rparr>)) (views {#e#} p)
       else image_mset coarse (views {#e#} p)) \<and>
    (\<not> (unat pn \<le> p \<and> p < unat stop) \<longrightarrow> views (mset (prot1 pn stop pr e)) p = views {#e#} p)"
  proof (cases rule: position_cases)
    case middle
    with ps b off show ?thesis by (auto simp: prot1_def covers_iff view_def coarse_def stop_of_def unat_sub_le)
  next
    case ending
    with ps b off show ?thesis by (auto simp: prot1_def covers_iff view_def coarse_def stop_of_def unat_sub_le)
  next
    case start
    with ps b off show ?thesis by (auto simp: prot1_def covers_iff view_def coarse_def stop_of_def unat_sub_le)
  next
    case covered
    with ps b show ?thesis by (auto simp: prot1_def covers_iff view_def coarse_def stop_of_def)
  next
    case apart
    then have "prot1 pn stop pr e = [e]" by (simp only: prot1_def Let_def if_False)
    with apart(1) ps show ?thesis by (auto simp add: covers_iff)
  qed
  then show "image_mset coarse (views (mset (prot1 pn stop pr e)) p) =
      (if unat pn \<le> p \<and> p < unat stop
       then image_mset (\<lambda>v. coarse (v\<lparr> pv_prot := pr \<rparr>)) (views {#e#} p)
       else image_mset coarse (views {#e#} p))"
    and "\<not> (unat pn \<le> p \<and> p < unat stop) \<Longrightarrow> views (mset (prot1 pn stop pr e)) p = views {#e#} p"
    by blast+
  from assms show "ent_ok e' \<and> removed e' = removed e" if e': "e' \<in> set (prot1 pn stop pr e)"
  proof (cases rule: position_cases)
    case middle
    with e' ps b show ?thesis by (auto simp: prot1_def ent_ok_def nz unat_sub_le)
  next
    case ending
    with e' ps b show ?thesis by (auto simp: prot1_def ent_ok_def nz unat_sub_le)
  next
    case start
    with e' ps b show ?thesis by (auto simp: prot1_def ent_ok_def nz unat_sub_le)
  next
    case covered
    with e' assms(1) show ?thesis by (auto simp: prot1_def ent_ok_def)
  next
    case apart
    then have "prot1 pn stop pr e = [e]" by (simp only: prot1_def Let_def if_False)
    with e' assms(1) show ?thesis by simp
  qed
qed

lemma prot1_view:
  assumes "ent_ok e" and "pn < stop" and "unat pn \<le> p" and "p < unat stop"
  shows "views (mset (prot1 pn stop pr e)) p =
    (if covers e p then {#reprotected_view pn pr e p#} else {#})"
proof -
  note b = ent_ok_bounds [OF assms(1)]
  have ps: "unat pn < unat stop" using assms(2) by (simp add: word_less_nat_alt)
  from assms(1,2) show ?thesis
  proof (cases rule: position_cases)
    case middle
    with ps b assms(3,4) show ?thesis
      by (auto simp: prot1_def covers_iff view_def reprotected_view_def stop_of_def unat_sub_le)
  next
    case ending
    with ps b assms(3,4) show ?thesis
      by (auto simp: prot1_def covers_iff view_def reprotected_view_def stop_of_def unat_sub_le)
  next
    case start
    with ps b assms(3,4) show ?thesis
      by (auto simp: prot1_def covers_iff view_def reprotected_view_def stop_of_def unat_sub_le)
  next
    case covered
    with ps b assms(3,4) show ?thesis
      by (auto simp: prot1_def covers_iff view_def reprotected_view_def stop_of_def)
  next
    case apart
    then have "prot1 pn stop pr e = [e]" by (simp only: prot1_def Let_def if_False)
    with apart(1) ps assms(3,4) show ?thesis by (auto simp add: covers_iff)
  qed
qed

text \<open>The pieces end where the region begins and where it ends.\<close>

definition aligned_to :: "nat \<Rightarrow> nat \<Rightarrow> NaClVmmapEntry \<Rightarrow> bool" where
  "aligned_to a b e \<longleftrightarrow>
     (stop_of e \<le> a \<or> a \<le> unat (page_num e)) \<and> (stop_of e \<le> b \<or> b \<le> unat (page_num e))"

lemma prot1_aligned:
  assumes "ent_ok e" and "pn < stop" and "e' \<in> set (prot1 pn stop pr e)"
  shows "aligned_to (unat pn) (unat stop) e'"
proof -
  note b = ent_ok_bounds [OF assms(1)]
  have ps: "unat pn < unat stop" using assms(2) by (simp add: word_less_nat_alt)
  from assms(1,2) show ?thesis
  proof (cases rule: position_cases)
    case middle
    with assms(3) ps b show ?thesis by (auto simp: prot1_def aligned_to_def stop_of_def unat_sub_le)
  next
    case ending
    with assms(3) ps b show ?thesis by (auto simp: prot1_def aligned_to_def stop_of_def unat_sub_le)
  next
    case start
    with assms(3) ps b show ?thesis by (auto simp: prot1_def aligned_to_def stop_of_def unat_sub_le)
  next
    case covered
    with assms(3) ps b show ?thesis by (auto simp: prot1_def aligned_to_def stop_of_def)
  next
    case apart
    then have "prot1 pn stop pr e = [e]" by (simp only: prot1_def Let_def if_False)
    with apart(1) assms(3) ps b show ?thesis by (auto simp: aligned_to_def)
  qed
qed

definition sorted_flag :: "NaClVmmap \<Rightarrow> bool" where
  "sorted_flag self \<longleftrightarrow> (is_sorted self \<longrightarrow> sorted (map page_num (vmentry self)))"

definition chg_pre :: "NaClVmmap \<Rightarrow> u64 \<Rightarrow> u64 \<Rightarrow> u64 \<Rightarrow> nat \<Rightarrow> nat \<Rightarrow> bool" where
  "chg_pre self pn n stop nv i \<longleftrightarrow>
     roomy self \<and> sorted_flag self \<and> i \<le> nv \<and> nv \<le> nvalid self \<and> pn \<le> stop \<and> n = stop - pn \<and>
     chained (drop i (take nv (vmentry self))) \<and>
     (\<forall>e \<in> set (drop i (take nv (vmentry self))). ent_ok e \<and> (pn = stop \<longrightarrow> stop \<le> page_num e)) \<and>
     (\<forall>p. unat pn \<le> p \<and> p < unat stop \<longrightarrow> (\<exists>e \<in> set (drop i (take nv (vmentry self))). covers e p))"

definition chg_ok :: "NaClVmmap \<Rightarrow> u64 \<Rightarrow> u64 \<Rightarrow> u32 \<Rightarrow> nat \<Rightarrow> nat \<Rightarrow> NaClVmmap \<Rightarrow> bool" where
  "chg_ok self pn stop pr nv i self' \<longleftrightarrow>
     mset (vmentry self') = mset (take i (vmentry self)) +
       mset (concat (map (prot1 pn stop pr) (drop i (take nv (vmentry self))))) +
       mset (drop nv (vmentry self)) \<and>
     other_refs self' = other_refs self \<and> roomy self' \<and> sorted_flag self'"

lemma prot1_later:
  assumes "ent_ok e" and "pn < stop" and "unat k \<le> unat (page_num e)" and "pn < k"
  shows "prot1 k stop pr e = prot1 pn stop pr e"
proof -
  have "\<not> page_num e < k" "\<not> page_num e < pn" "k \<le> page_num e" "pn \<le> page_num e"
    using assms(3,4) by (auto simp: word_less_nat_alt word_le_nat_alt)
  then show ?thesis by (simp add: prot1_def)
qed

lemma concat_prot_beyond:
  assumes "\<forall>e \<in> set es. ent_ok e \<and> stop \<le> page_num e" and "pn \<le> stop"
  shows "concat (map (prot1 pn stop pr) es) = es"
proof -
  have "prot1 pn stop pr e = [e]" if "e \<in> set es" for e
  proof -
    from that assms(1) have e: "ent_ok e" "stop \<le> page_num e" by auto
    note b = ent_ok_bounds [OF e(1)]
    have "\<not> page_num e < pn" "\<not> page_num e < stop" using e(2) assms(2) by auto
    moreover have "\<not> end_page e \<le> stop"
      using b e(2) by (simp add: word_le_nat_alt)
    ultimately show ?thesis by (simp add: prot1_def)
  qed
  then show ?thesis by (induction es) auto
qed

lemma chg_exit:
  assumes "chg_pre self pn n stop nv i" and "i \<ge> nv \<or> n = 0"
  shows "chg_ok self pn stop pr nv i self"
proof -
  have "concat (map (prot1 pn stop pr) (drop i (take nv (vmentry self)))) = drop i (take nv (vmentry self))"
  proof (cases "nv \<le> i")
    case False
    with assms have "pn = stop" by (auto simp: chg_pre_def)
    with assms(1) show ?thesis by (intro concat_prot_beyond) (auto simp: chg_pre_def)
  qed simp
  moreover have "mset (vmentry self) = mset (take i (vmentry self)) +
      mset (drop i (take nv (vmentry self))) + mset (drop nv (vmentry self))" if "i \<le> nv"
  proof -
    have "take i (vmentry self) = take i (take nv (vmentry self))" using that by simp
    then have "mset (take i (vmentry self)) + mset (drop i (take nv (vmentry self))) =
        mset (take nv (vmentry self))"
      by (metis append_take_drop_id mset_append)
    then show ?thesis by (metis append_take_drop_id mset_append)
  qed
  ultimately show ?thesis using assms(1) by (simp add: chg_ok_def chg_pre_def)
qed

text \<open>The entry under the cursor does not start after the rest of the region.\<close>

lemma chg_first:
  assumes "chg_pre self pn n stop nv i" and "i < nv" and "pn < stop"
  shows "unat (page_num (vmentry self ! i)) \<le> unat pn" and "ent_ok (vmentry self ! i)"
proof -
  let ?ent = "vmentry self ! i" and ?L = "drop i (take nv (vmentry self))"
  have L: "?L = ?ent # drop (Suc i) (take nv (vmentry self))"
    using assms(1,2) by (simp add: chg_pre_def Cons_nth_drop_Suc [symmetric])
  show ok: "ent_ok ?ent" using assms(1) by (simp add: chg_pre_def L)
  have "\<exists>e \<in> set ?L. covers e (unat pn)"
    using assms(1,3) by (simp add: chg_pre_def word_less_nat_alt)
  then obtain e where e: "e \<in> set ?L" "unat (page_num e) \<le> unat pn" by (auto simp: covers_iff)
  have "chained ?L" using assms(1) by (simp add: chg_pre_def)
  then have "e = ?ent \<or> stop_of ?ent \<le> unat (page_num e)" using e(1) by (auto simp: L chained_def)
  with e(2) ent_ok_bounds(2) [OF ok] show "unat (page_num ?ent) \<le> unat pn" by auto
qed

lemma chg_turn:
  assumes "chg_pre self pn n stop nv i" and "i < nv" and "pn < stop"
    and "vmentry self' = (vmentry self)[i := e] @ xs"
    and "mset (prot1 pn stop pr (vmentry self ! i)) = mset (e # xs)"
    and "other_refs self' = other_refs self" "roomy self'" "sorted_flag self'"
    and "k = pn \<and> stop_of (vmentry self ! i) \<le> unat pn \<or>
      k = end_page (vmentry self ! i) \<and> pn < k \<and> k \<le> stop"
  shows "chg_pre self' k (stop - k) stop nv (i + 1)"
    and "chg_ok self' k stop pr nv (i + 1) m \<Longrightarrow> chg_ok self pn stop pr nv i m"
proof -
  let ?es = "vmentry self" and ?ent = "vmentry self ! i"
  let ?R = "drop (Suc i) (take nv (vmentry self))"
  have len: "nv \<le> length ?es" using assms(1) by (simp add: chg_pre_def)
  have L: "drop i (take nv ?es) = ?ent # ?R"
    using assms(2) len by (simp add: Cons_nth_drop_Suc [symmetric])
  have pre: "chained (?ent # ?R)" "\<forall>e \<in> set (?ent # ?R). ent_ok e"
    "\<And>p. unat pn \<le> p \<Longrightarrow> p < unat stop \<Longrightarrow> \<exists>e \<in> set (?ent # ?R). covers e p"
    using assms(1) by (auto simp: chg_pre_def L)
  note b = ent_ok_bounds [of ?ent]
  have R: "drop (Suc i) (take nv (vmentry self')) = ?R"
    "take (Suc i) (vmentry self') = take i ?es @ [e]"
    "drop nv (vmentry self') = drop nv ?es @ xs"
    using assms(2,4) len by (simp_all add: take_Suc_conv_app_nth drop_take)
  have after: "stop_of ?ent \<le> unat (page_num x) \<and> ent_ok x" if "x \<in> set ?R" for x
    using pre(1,2) that by (simp add: chained_def)
  have k: "stop_of ?ent \<le> unat k" "unat pn \<le> unat k" "k \<le> stop"
    using assms(3,9) b pre(2) by (auto simp: word_less_nat_alt word_le_nat_alt)
  have cover: "\<exists>e \<in> set ?R. covers e p" if "unat k \<le> p" "p < unat stop" for p
    using pre(3) [of p] that k by (auto simp: covers_iff)
  have "stop \<le> page_num x" if "x \<in> set ?R" and "k = stop" for x
    using assms(3,9) after [OF that(1)] that(2) b(1) pre(2) by (auto simp: word_le_nat_alt)
  then have "\<forall>x \<in> set ?R. ent_ok x \<and> (k = stop \<longrightarrow> stop \<le> page_num x)" using after by blast
  moreover have "chained ?R" using pre(1) by (simp add: chained_def)
  moreover have "nv \<le> nvalid self'" using assms(4) len by simp
  ultimately show "chg_pre self' k (stop - k) stop nv (i + 1)"
    unfolding chg_pre_def using assms(2,7,8) k(3) cover by (simp add: R(1))
  show "chg_ok self pn stop pr nv i m" if m: "chg_ok self' k stop pr nv (i + 1) m"
  proof -
    have "prot1 k stop pr x = prot1 pn stop pr x" if "x \<in> set ?R" for x
      using assms(9) after [OF that] prot1_later [of x pn stop k pr] assms(3) b pre(2) by auto
    then have "map (prot1 k stop pr) ?R = map (prot1 pn stop pr) ?R" by (rule map_cong [OF refl])
    then have "mset (concat (map (prot1 k stop pr) ?R)) = mset (concat (map (prot1 pn stop pr) ?R))"
      by (rule arg_cong)
    then show ?thesis using m assms(5,6) by (simp add: chg_ok_def R L ac_simps del: mset_concat)
  qed
qed

lemma sorted_flag_simps [simp]:
  "sorted_flag (NaClVmmapAdd self a k p fl d off fsz)"
  "\<not> is_sorted self \<Longrightarrow> sorted_flag (set_entry self i e)"
  by (simp_all add: sorted_flag_def set_entry_def)

lemma sorted_flag_same_page:
  assumes "sorted_flag self" and "i < nvalid self" and "page_num e = page_num (vmentry self ! i)"
  shows "sorted_flag (set_entry self i e)"
proof -
  have "map page_num ((vmentry self)[i := e]) = map page_num (vmentry self)"
    using assms(2,3) by (metis list_update_id map_update)
  with assms(1) show ?thesis by (simp add: sorted_flag_def set_entry_def)
qed

lemma entry_eta':
  "\<not> removed e \<Longrightarrow>
   \<lparr> page_num = a, npages = b, prot = c, flags = flags e, removed = False, desc = desc e,
     offset = d, file_size = file_size e \<rparr> = e\<lparr> page_num := a, npages := b, prot := c, offset := d \<rparr>"
  by simp

lemma split_at:
  assumes "i < nv" and "nv \<le> length es"
  shows "mset es = mset (take i es) + {#es ! i#} + mset (drop (Suc i) (take nv es)) + mset (drop nv es)"
proof -
  have "mset (take nv es) = mset (take i (take nv es)) + mset (drop i (take nv es))"
    by (metis append_take_drop_id mset_append)
  moreover have "drop i (take nv es) = es ! i # drop (Suc i) (take nv es)"
    using assms by (simp add: Cons_nth_drop_Suc [symmetric])
  moreover have "mset es = mset (take nv es) + mset (drop nv es)"
    by (metis append_take_drop_id mset_append)
  ultimately show ?thesis using assms by simp
qed

lemma mset_list_update:
  "i < nv \<Longrightarrow> nv \<le> length es \<Longrightarrow>
   mset (es[i := e]) = mset (take i es) + {#e#} + mset (drop (Suc i) (take nv es)) + mset (drop nv es)"
  using mset_update_same [of i es e] split_at [of i nv es] by simp

text \<open>The two branches that end the loop.\<close>

lemma chg_last:
  assumes "chg_pre self pn n stop nv i" and "i < nv" and "pn < stop"
    and "unat stop < stop_of (vmentry self ! i)"
    and "mset (vmentry self') = mset ((vmentry self)[i := e]) + mset xs"
    and "mset (prot1 pn stop pr (vmentry self ! i)) = mset (e # xs)"
    and "other_refs self' = other_refs self" "roomy self'" "sorted_flag self'"
  shows "chg_ok self pn stop pr nv i self'"
proof -
  let ?es = "vmentry self" and ?ent = "vmentry self ! i"
  let ?R = "drop (Suc i) (take nv (vmentry self))"
  have len: "nv \<le> length ?es" using assms(1) by (simp add: chg_pre_def)
  have L: "drop i (take nv ?es) = ?ent # ?R"
    using assms(2) len by (simp add: Cons_nth_drop_Suc [symmetric])
  have "\<forall>x \<in> set ?R. ent_ok x \<and> stop_of ?ent \<le> unat (page_num x)"
    using assms(1) by (auto simp: chg_pre_def L chained_def)
  then have "\<forall>x \<in> set ?R. ent_ok x \<and> stop \<le> page_num x"
    using assms(4) by (auto simp: word_le_nat_alt)
  moreover have "pn \<le> stop" using assms(3) by simp
  ultimately have "concat (map (prot1 pn stop pr) ?R) = ?R" by (rule concat_prot_beyond)
  with assms(5-) mset_list_update [OF assms(2) len, of e] show ?thesis
    by (simp add: chg_ok_def L ac_simps)
qed

lemma ChangeProt_loop_result:
  "chg_pre self pn n stop nv i \<Longrightarrow> \<forall>e \<in> set (take nv (vmentry self)). \<not> removed e \<Longrightarrow>
   \<exists>self'. ChangeProt_loop self pn n pr stop nv i = Inr self' \<and> chg_ok self pn stop pr nv i self'"
proof (induction self pn n pr stop nv i rule: ChangeProt_loop.induct)
  case (1 self pn n pr stop nv i)
  let ?es = "vmentry self" and ?ent = "vmentry self ! i"
  note pre = "1.prems"(1)
  show ?case
  proof (cases "i < nv \<and> n > 0")
    case False
    then have "ChangeProt_loop self pn n pr stop nv i = Inr self"
      by (subst ChangeProt_loop.simps) (simp only: if_False)
    moreover have "i \<ge> nv \<or> n = 0" using False by (auto simp: word_gt_0)
    ultimately show ?thesis using chg_exit [OF pre] by blast
  next
    case c0: True
    have len: "nv \<le> nvalid self" and n: "n = stop - pn" and "pn \<le> stop" "roomy self" "sorted_flag self"
      using pre by (auto simp: chg_pre_def)
    have lt: "pn < stop" using c0 n \<open>pn \<le> stop\<close> by (cases "pn = stop") auto
    have i: "i < nv" "i < nvalid self" using c0 len by auto
    note first = chg_first [OF pre i(1) lt]
    note b = ent_ok_bounds [OF first(2)]
    have live: "\<not> removed ?ent" using "1.prems"(2) i len by (metis in_set_conv_nth length_take min.absorb2 nth_take)
    have upd: "\<forall>e \<in> set (take nv ((?es)[i := x] @ xs)). \<not> removed e" if "\<not> removed x" for x xs
    proof -
      have "take nv ((?es)[i := x] @ xs) = (take nv ?es)[i := x]" using len i by (simp add: take_update_swap)
      with that "1.prems"(2) set_update_subset_insert [of "take nv ?es" i x] show ?thesis by auto
    qed
    note turn = chg_turn [OF pre i(1) lt, where pr = pr]
    note last = chg_last [OF pre i(1) lt, where pr = pr]
    note unfold = ChangeProt_loop.simps [of self pn n pr stop nv i]
    from first(2) lt show ?thesis
    proof (cases rule: position_cases)
      case middle
      let ?front = "?ent\<lparr> npages := pn - page_num ?ent \<rparr>"
      let ?rear = "?ent\<lparr> page_num := stop, npages := end_page ?ent - stop,
          offset := offset ?ent + push_bit NACL_PAGESHIFT (stop - page_num ?ent) \<rparr>"
      let ?mid = "?ent\<lparr> page_num := pn, npages := n, prot := pr,
          offset := offset ?ent + (pn - page_num ?ent) \<rparr>"
      let ?m = "NaClVmmapAdd (set_entry (NaClVmmapAdd self stop (end_page ?ent - stop) (prot ?ent)
            (flags ?ent) (desc ?ent) (offset ?ent + push_bit NACL_PAGESHIFT (stop - page_num ?ent))
            (file_size ?ent)) i ?front) pn n pr (flags ?ent) (desc ?ent)
          (offset ?ent + (pn - page_num ?ent)) (file_size ?ent)"
      have run: "ChangeProt_loop self pn n pr stop nv i = Inr ?m"
        by (subst unfold) (simp only: c0 middle Let_def if_True simp_thms)
      have p: "mset (prot1 pn stop pr ?ent) = mset (?front # [?rear, ?mid])"
        using middle by (simp add: prot1_def n)
      have m: "mset (vmentry ?m) = mset ((vmentry self)[i := ?front]) + mset [?rear, ?mid]"
        using i live by (simp add: list_update_append entry_eta')
      have "chg_ok self pn stop pr nv i ?m"
        using i \<open>roomy self\<close> by (intro last [OF middle(2) m p]) (simp_all add: nth_append)
      with run show ?thesis by blast
    next
      case ending
      let ?e = "?ent\<lparr> npages := pn - page_num ?ent \<rparr>"
      let ?mid = "?ent\<lparr> page_num := pn, npages := end_page ?ent - pn, prot := pr,
          offset := offset ?ent + (pn - page_num ?ent) \<rparr>"
      let ?m = "NaClVmmapAdd (set_entry self i ?e) pn (end_page ?ent - pn) pr (flags ?ent)
          (desc ?ent) (offset ?ent + (pn - page_num ?ent)) (file_size ?ent)"
      have run: "ChangeProt_loop self pn n pr stop nv i =
          ChangeProt_loop ?m (end_page ?ent) (stop - end_page ?ent) pr stop nv (i + 1)"
        by (subst unfold) (simp only: c0 ending Let_def if_True if_False simp_thms)
      have ent: "vmentry ?m = ?es[i := ?e] @ [?mid]" using live by (simp add: entry_eta')
      have p: "mset (prot1 pn stop pr ?ent) = mset (?e # [?mid])" using ending by (simp add: prot1_def)
      have k: "end_page ?ent \<le> stop" using ending(6) by simp
      have r: "other_refs ?m = other_refs self" "roomy ?m" "sorted_flag ?m"
        using i \<open>roomy self\<close> by simp_all
      note T = turn [OF ent p r disjI2 [OF conjI [OF refl conjI [OF ending(5) k]]]]
      note T(1)
      moreover have "\<forall>e \<in> set (take nv (vmentry ?m)). \<not> removed e"
        unfolding ent by (rule upd) (simp add: live)
      ultimately show ?thesis
        using "1.IH"(1) [OF c0 refl refl refl] ending(4-6) T(2) unfolding run by blast
    next
      case start
      then have eq: "page_num ?ent = pn"
        using first(1) by (intro word_eq_unatI) simp
      let ?rear = "?ent\<lparr> page_num := stop, npages := end_page ?ent - stop,
          offset := offset ?ent + push_bit NACL_PAGESHIFT (stop - page_num ?ent) \<rparr>"
      let ?mid = "?ent\<lparr> page_num := page_num ?ent, npages := stop - page_num ?ent, prot := pr,
          offset := offset ?ent \<rparr>"
      let ?m = "set_entry (NaClVmmapAdd self pn n pr (flags ?ent) (desc ?ent) (offset ?ent)
          (file_size ?ent)) i ?rear"
      have run: "ChangeProt_loop self pn n pr stop nv i = Inr ?m"
        by (subst unfold) (simp only: c0 start Let_def if_True if_False simp_thms)
      have p: "mset (prot1 pn stop pr ?ent) = mset (?rear # [?mid])"
        using start by (simp add: prot1_def)
      have m: "mset (vmentry ?m) = mset ((vmentry self)[i := ?rear]) + mset [?mid]"
        using i live by (simp add: list_update_append entry_eta' eq n)
      have "chg_ok self pn stop pr nv i ?m"
        using i \<open>roomy self\<close> by (intro last [OF start(3) m p]) (simp_all add: nth_append)
      with run show ?thesis by blast
    next
      case covered
      let ?e = "?ent\<lparr> prot := pr \<rparr>"
      let ?m = "set_entry self i ?e"
      have run: "ChangeProt_loop self pn n pr stop nv i =
          ChangeProt_loop ?m (end_page ?ent) (stop - end_page ?ent) pr stop nv (i + 1)"
        by (subst unfold) (simp only: c0 covered Let_def if_True if_False simp_thms)
      have ent: "vmentry ?m = ?es[i := ?e] @ []" by simp
      have p: "mset (prot1 pn stop pr ?ent) = mset [?e]" using covered by (simp add: prot1_def)
      have k: "pn < end_page ?ent" using covered first(1) b by (simp add: word_less_nat_alt)
      have srt: "sorted_flag ?m" using \<open>sorted_flag self\<close> i by (simp add: sorted_flag_same_page)
      have r: "other_refs ?m = other_refs self" "roomy ?m"
        using i \<open>roomy self\<close> by simp_all
      note T = turn [OF ent p r srt disjI2 [OF conjI [OF refl conjI [OF k covered(6)]]]]
      note T(1)
      moreover have "\<forall>e \<in> set (take nv (vmentry ?m)). \<not> removed e"
        unfolding ent by (rule upd) (simp add: live)
      ultimately show ?thesis
        using "1.IH"(2) [OF c0 refl refl refl] covered(3-6) T(2) unfolding run by blast
    next
      case apart
      have run: "ChangeProt_loop self pn n pr stop nv i = ChangeProt_loop self pn n pr stop nv (i + 1)"
        by (subst unfold)
          (simp only: c0 apart(2-) Let_def if_True if_False simp_thms cassert_simps andThen.simps)
      have ent: "vmentry self = ?es[i := ?ent] @ []" by simp
      have p: "mset (prot1 pn stop pr ?ent) = mset [?ent]"
        using apart by (simp only: prot1_def Let_def if_False)
      have k: "stop_of ?ent \<le> unat pn"
        using apart(1) first(1) lt by (auto simp: word_less_nat_alt)
      note T = turn [OF ent p refl \<open>roomy self\<close> \<open>sorted_flag self\<close> disjI1 [OF conjI [OF refl k]]]
      have "chg_pre self pn n stop nv (i + 1)" using T(1) n by simp
      then show ?thesis
        using "1.IH"(3) [OF c0 refl refl refl] apart(2-5) "1.prems"(2) T(2) unfolding run by blast
    qed
  qed
qed

lemma prot_views:
  assumes "\<forall>e \<in> set es. ent_ok e" and "pn < stop"
  shows "image_mset coarse (views (mset (concat (map (prot1 pn stop pr) es))) p) =
      (if unat pn \<le> p \<and> p < unat stop
       then image_mset (\<lambda>v. coarse (v\<lparr> pv_prot := pr \<rparr>)) (views (mset es) p)
       else image_mset coarse (views (mset es) p))"
    and "\<not> (unat pn \<le> p \<and> p < unat stop) \<Longrightarrow>
      views (mset (concat (map (prot1 pn stop pr) es))) p = views (mset es) p"
proof -
  show "image_mset coarse (views (mset (concat (map (prot1 pn stop pr) es))) p) =
      (if unat pn \<le> p \<and> p < unat stop
       then image_mset (\<lambda>v. coarse (v\<lparr> pv_prot := pr \<rparr>)) (views (mset es) p)
       else image_mset coarse (views (mset es) p))"
    using assms(1)
  proof (induction es)
    case (Cons e es)
    then show ?case
      using prot1_views(1) [of e pn stop pr p] assms(2) by (simp del: mset_concat) 
  qed simp
  show "views (mset (concat (map (prot1 pn stop pr) es))) p = views (mset es) p"
    if "\<not> (unat pn \<le> p \<and> p < unat stop)"
    using assms(1)
  proof (induction es)
    case (Cons e es)
    then show ?case
      using prot1_views(2) [of e pn stop p pr] assms(2) that by (simp del: mset_concat)
  qed simp
qed

lemma prot_view_member:
  assumes "e \<in> set es" and "\<forall>e \<in> set es. ent_ok e" and "pn < stop"
    and "unat pn \<le> p" and "p < unat stop" and "covers e p"
  shows "reprotected_view pn pr e p \<in># views (mset (concat (map (prot1 pn stop pr) es))) p"
proof -
  obtain as bs where es: "es = as @ e # bs" using split_list [OF assms(1)] by blast
  have "ent_ok e" using assms(1,2) by blast
  note prot1_view [OF this assms(3-5), of pr]
  then have "reprotected_view pn pr e p \<in># views (mset (prot1 pn stop pr e)) p" using assms(6) by simp
  then show ?thesis by (simp add: es views_def del: mset_concat)
qed

text \<open>The pages of the region, file offsets included.\<close>

definition reprotected_views :: "NaClVmmap \<Rightarrow> u64 \<Rightarrow> u64 \<Rightarrow> u32 \<Rightarrow> NaClVmmap \<Rightarrow> bool" where
  "reprotected_views self pn n pr self' \<longleftrightarrow>
     (\<forall>e \<in> set (vmentry self). \<forall>p. in_region pn n p \<and> covers e p \<longrightarrow>
        page_at self' p = Some (reprotected_view pn pr e p))"

definition reprotected :: "NaClVmmap \<Rightarrow> u64 \<Rightarrow> u64 \<Rightarrow> u32 \<Rightarrow> NaClVmmap \<Rightarrow> bool" where
  "reprotected self pn n pr self' \<longleftrightarrow>
     (\<forall>p. map_option coarse (page_at self' p) =
        (if in_region pn n p then map_option (\<lambda>v. coarse (v\<lparr> pv_prot := pr \<rparr>)) (page_at self p)
         else map_option coarse (page_at self p))) \<and>
     (\<forall>p. \<not> in_region pn n p \<longrightarrow> page_at self' p = page_at self p)"

lemma page_at_image:
  assumes "vm_ok self" and "vm_ok self'"
    and "image_mset f (views (mset (vmentry self')) p) = image_mset g (views (mset (vmentry self)) p)"
  shows "map_option f (page_at self' p) = map_option g (page_at self p)"
proof -
  have sz: "size (views (mset (vmentry self)) p) \<le> 1" "size (views (mset (vmentry self')) p) \<le> 1"
    using assms(1,2) by (auto simp: vm_ok_def)
  have "views (mset (vmentry m)) p = (case page_at m p of None \<Rightarrow> {#} | Some v \<Rightarrow> {#v#})"
    if "size (views (mset (vmentry m)) p) \<le> 1" for m
    using page_at_Some [OF that] page_at_None [of m p] by (cases "page_at m p") auto
  note this [OF sz(1)] this [OF sz(2)]
  with assms(3) show ?thesis
    by (simp only:) (auto split: option.splits)
qed

lemma ChangeProt_loop_top:
  assumes "vm_ok self" and "chained (vmentry self)" and "region_ok pn n"
    and "\<forall>p. in_region pn n p \<longrightarrow> page_at self p \<noteq> None"
  obtains self' where "ChangeProt_loop self pn n pr (pn + n) (nvalid self) 0 = Inr self'"
    and "vm_ok self'" and "other_refs self' = other_refs self" and "reprotected self pn n pr self'"
    and "\<forall>e \<in> set (vmentry self'). aligned_to (unat pn) (unat pn + unat n) e"
    and "reprotected_views self pn n pr self'"
proof -
  note stop = region_stop [OF assms(3)]
  have ents: "\<forall>e \<in> set (vmentry self). ent_ok e \<and> \<not> removed e" using assms(1) by (simp add: vm_ok_def)
  have "\<exists>e \<in> set (vmentry self). covers e p" if "unat pn \<le> p" "p < unat (pn + n)" for p
    using assms(4) that stop(1) page_at_iff [OF assms(1)] by (auto simp: in_region_def)
  then have "chg_pre self pn n (pn + n) (nvalid self) 0"
    using assms(1,2) ents stop(2) by (auto simp: chg_pre_def vm_ok_def roomy_def sorted_flag_def)
  then obtain m where m: "ChangeProt_loop self pn n pr (pn + n) (nvalid self) 0 = Inr m"
    "chg_ok self pn (pn + n) pr (nvalid self) 0 m"
    using ChangeProt_loop_result ents by fastforce
  let ?new = "concat (map (prot1 pn (pn + n) pr) (vmentry self))"
  have ms: "mset (vmentry m) = mset ?new" using m(2) by (simp add: chg_ok_def)
  note V = prot_views [where es = "vmentry self" and pr = pr, OF _ stop(2)]
  have e: "\<forall>e \<in> set (vmentry self). ent_ok e" using ents by blast
  have reg: "unat pn \<le> p \<and> p < unat (pn + n) \<longleftrightarrow> in_region pn n p" for p
    by (simp add: in_region_def stop(1))
  note V1 = V(1) [OF e, unfolded reg] and V2 = V(2) [OF e, unfolded reg]
  have "vm_ok m"
  proof -
    have "\<forall>e \<in> set ?new. ent_ok e \<and> \<not> removed e"
      using ents prot1_views(3) [OF _ stop(2)] by fastforce
    moreover have "size (views (mset ?new) p) \<le> 1" for p
    proof -
      have "size (image_mset coarse (views (mset ?new) p)) \<le> 1"
        unfolding V1 using assms(1) by (simp add: vm_ok_def)
      then show ?thesis by simp
    qed
    ultimately show ?thesis
      using m(2) mset_eq_setD [OF ms] by (simp add: vm_ok_def ms chg_ok_def roomy_def sorted_flag_def del: mset_concat)
  qed
  moreover have "reprotected self pn n pr m"
    unfolding reprotected_def
  proof (intro conjI allI impI)
    fix p
    show "map_option coarse (page_at m p) =
        (if in_region pn n p then map_option (\<lambda>v. coarse (v\<lparr> pv_prot := pr \<rparr>)) (page_at self p)
         else map_option coarse (page_at self p))"
    proof (cases "in_region pn n p")
      case True
      with V1 [of p] show ?thesis
        by (simp only: if_True) (rule page_at_image [OF assms(1) \<open>vm_ok m\<close>], simp only: ms)
    next
      case False
      with V1 [of p] show ?thesis
        by (simp only: if_False) (rule page_at_image [OF assms(1) \<open>vm_ok m\<close>], simp only: ms)
    qed
    show "page_at m p = page_at self p" if "\<not> in_region pn n p"
      using V2 [OF that] by (intro page_at_views [OF assms(1) \<open>vm_ok m\<close>]) (simp add: ms del: mset_concat)
  qed
  moreover have "other_refs m = other_refs self" using m(2) by (simp add: chg_ok_def)
  moreover have "\<forall>e \<in> set (vmentry m). aligned_to (unat pn) (unat pn + unat n) e"
    using prot1_aligned [OF _ stop(2), unfolded stop(1)] e mset_eq_setD [OF ms] by fastforce
  moreover have "reprotected_views self pn n pr m"
    unfolding reprotected_views_def
  proof (intro ballI allI impI)
    fix x p assume x: "x \<in> set (vmentry self)" "in_region pn n p \<and> covers x p"
    then have "unat pn \<le> p" "p < unat (pn + n)" "covers x p" using reg [of p] by simp_all
    from prot_view_member [OF x(1) e stop(2) this, of pr]
    have "reprotected_view pn pr x p \<in># views (mset (vmentry m)) p" unfolding ms .
    moreover have "size (views (mset (vmentry m)) p) \<le> 1" using \<open>vm_ok m\<close> by (simp add: vm_ok_def)
    ultimately show "page_at m p = Some (reprotected_view pn pr x p)"
      using page_at_Some by (cases "views (mset (vmentry m)) p") auto
  qed
  ultimately show ?thesis using that m(1) by blast
qed

lemma reprotected_from:
  "page_at s = page_at self \<Longrightarrow> reprotected s pn n pr m \<Longrightarrow> reprotected self pn n pr m"
  by (simp add: reprotected_def)

lemma ChangeProt_result:
  assumes "access_modes_ok GetFlags" and "vm_ok self" and "region_ok pn n"
  obtains self' where "NaClVmmapChangeProt GetFlags self pn n pr =
      Inr (self', mapped_and_allowed GetFlags self pn n pr)"
    and "vm_ok self'" and "other_refs self' = other_refs self"
    and "if mapped_and_allowed GetFlags self pn n pr then reprotected self pn n pr self'
         else page_at self' = page_at self"
    and "mapped_and_allowed GetFlags self pn n pr \<longrightarrow>
      (\<forall>e \<in> set (vmentry self'). aligned_to (unat pn) (unat pn + unat n) e)"
    and "mapped_and_allowed GetFlags self pn n pr \<longrightarrow> reprotected_views self pn n pr self'"
proof -
  from assms obtain s where s: "NaClVmmapCheckExistingMapping GetFlags self pn n pr =
      Inr (s, mapped_and_allowed GetFlags self pn n pr)" "vm_ok s" "page_at s = page_at self"
    "other_refs s = other_refs self" "mset (vmentry s) = mset (vmentry self)"
    by (rule CheckExistingMapping_result) blast
  show ?thesis
  proof (cases "mapped_and_allowed GetFlags self pn n pr")
    case False
    with s show ?thesis by (intro that [of s]) (simp_all add: NaClVmmapChangeProt_def)
  next
    case True
    from s(2) obtain t where t: "NaClVmmapMakeSorted s = Inr t" "vm_ok t" "chained (vmentry t)"
      "mset (vmentry t) = mset (vmentry s)" "other_refs t = other_refs s"
      by (rule MakeSorted_result)
    have page: "page_at t = page_at self" using page_at_mset [OF s(2) t(2,4)] s(3) by simp
    with True have "\<forall>p. in_region pn n p \<longrightarrow> page_at t p \<noteq> None" by (auto simp: mapped_and_allowed_def)
    with t(2,3) assms(3) obtain m where
      m: "ChangeProt_loop t pn n pr (pn + n) (nvalid t) 0 = Inr m" "vm_ok m"
        "other_refs m = other_refs t" "reprotected t pn n pr m"
        "\<forall>e \<in> set (vmentry m). aligned_to (unat pn) (unat pn + unat n) e"
        "reprotected_views t pn n pr m"
      by (rule ChangeProt_loop_top)
    have "set (vmentry t) = set (vmentry self)" using t(4) s(5) by (metis set_mset_mset)
    then have "reprotected_views self pn n pr m" using m(6) by (simp add: reprotected_views_def)
    with True s t m page show ?thesis
      by (intro that [of m]) (simp_all add: NaClVmmapChangeProt_def reprotected_from [OF page])
  qed
qed

end
