(* ===== verification/Vmmap_Search.thy ===== *)
theory Vmmap_Search
  imports Vmmap_Proofs
begin

text \<open>
  Lookup and search for room in the memory map: \<open>NaClVmmapFindPage\<close> and its iterator form
  return the entry of a page, and the three searches return a free range between two
  mappings, and 0 only where there is none.
\<close>

subsection \<open>Lookup\<close>

lemma ContainCmp_iff:
  assumes "ent_ok e"
  shows "NaClVmmapContainCmpEntries p e < 0 \<longleftrightarrow> unat p < unat (page_num e)"
    and "NaClVmmapContainCmpEntries p e = 0 \<longleftrightarrow> covers e (unat p)"
    and "NaClVmmapContainCmpEntries p e > 0 \<longleftrightarrow> stop_of e \<le> unat p"
  using ent_ok_bounds(1,2) [OF assms]
  by (auto simp: NaClVmmapContainCmpEntries_def covers_iff word_less_nat_alt)

lemma chained_sorted_by:
  assumes "chained es" and "\<forall>e \<in> set es. ent_ok e"
    and "\<And>a b. ent_ok a \<Longrightarrow> ent_ok b \<Longrightarrow> stop_of a \<le> unat (page_num b) \<Longrightarrow> P a b"
  shows "sorted_wrt P es"
  using assms(1,2) by (induction es) (auto simp: chained_def assms(3))

lemma partitioned_entries:
  assumes "chained es" and "\<forall>e \<in> set es. ent_ok e"
  shows "partitioned NaClVmmapContainCmpEntries p es"
  unfolding partitioned_def
  using assms by (intro conjI chained_sorted_by) (auto simp: ContainCmp_iff dest: ent_ok_bounds(2))

text \<open>The search in a sorted map, for the two lookup functions.\<close>

lemma lookup_result:
  assumes "vm_ok self" and "chained (vmentry self)"
  shows "case bsearch_by NaClVmmapContainCmpEntries pnum (vmentry self) of
      None \<Rightarrow> page_at self (unat pnum) = None
    | Some i \<Rightarrow> i < nvalid self \<and> page_at self (unat pnum) = Some (view (vmentry self ! i) (unat pnum))"
proof -
  have ok: "\<forall>e \<in> set (vmentry self). ent_ok e" using assms(1) by (simp add: vm_ok_def)
  note part = partitioned_entries [OF assms(2) ok, of pnum]
  show ?thesis
  proof (cases "bsearch_by NaClVmmapContainCmpEntries pnum (vmentry self)")
    case None
    then have "\<forall>e \<in> set (vmentry self). \<not> covers e (unat pnum)"
      using bsearch_by_None [OF None part] ok ContainCmp_iff(2) by blast
    with None show ?thesis by (simp add: page_at_None views_eq_empty)
  next
    case (Some i)
    then have i: "i < nvalid self" "NaClVmmapContainCmpEntries pnum (vmentry self ! i) = 0"
      by (auto dest: bsearch_by_Some)
    then have "covers (vmentry self ! i) (unat pnum)" using ok ContainCmp_iff(2) by auto
    moreover have sz: "size (views (mset (vmentry self)) (unat pnum)) \<le> 1"
      using assms(1) by (simp add: vm_ok_def)
    ultimately have "view (vmentry self ! i) (unat pnum) \<in># views (mset (vmentry self)) (unat pnum)"
      using i(1) by (auto simp: views_def)
    with sz have "views (mset (vmentry self)) (unat pnum) = {#view (vmentry self ! i) (unat pnum)#}"
      by (cases "views (mset (vmentry self)) (unat pnum)") auto
    with page_at_Some [OF sz] i(1) Some show ?thesis by simp
  qed
qed

subsection \<open>Gaps\<close>

text \<open>Consecutive entries leave the pages between them unmapped, and every free range that
  has a mapping on both sides lies between two consecutive entries.\<close>

lemma chained_nth:
  "chained es \<Longrightarrow> i < j \<Longrightarrow> j < length es \<Longrightarrow> stop_of (es ! i) \<le> unat (page_num (es ! j))"
  by (simp add: chained_def sorted_wrt_iff_nth_less)

lemma gap_free:
  assumes "chained es" and "\<forall>e \<in> set es. ent_ok e" and "Suc j < length es"
    and "stop_of (es ! j) \<le> p" and "p < unat (page_num (es ! Suc j))" and "e \<in> set es"
  shows "\<not> covers e p"
proof -
  obtain k where k: "k < length es" "e = es ! k" using assms(6) by (auto simp: in_set_conv_nth)
  have ok: "ent_ok (es ! m)" if "m < length es" for m using assms(2) that by auto
  consider "k < j" | "k = j" | "k = Suc j" | "Suc j < k" by linarith
  then show ?thesis
  proof cases
    case 1
    then have "stop_of e \<le> unat (page_num (es ! j))" using chained_nth [OF assms(1)] assms(3) k by auto
    with ent_ok_bounds(2) [OF ok [of j]] assms(3,4) show ?thesis by (simp add: covers_iff)
  next
    case 4
    then have "stop_of (es ! Suc j) \<le> unat (page_num e)" using chained_nth [OF assms(1)] k by auto
    with ent_ok_bounds(2) [OF ok [of "Suc j"]] assms(3,5) show ?thesis by (simp add: covers_iff)
  qed (use assms(4,5) k in \<open>auto simp: covers_iff\<close>)
qed

lemma hole_between:
  assumes "chained es" and "\<forall>e \<in> set es. ent_ok e" and "0 < n"
    and "\<And>p e. q \<le> p \<Longrightarrow> p < q + n \<Longrightarrow> e \<in> set es \<Longrightarrow> \<not> covers e p"
    and "ea \<in> set es" "covers ea a" "a < q" and "eb \<in> set es" "covers eb b" "q + n \<le> b"
  obtains j where "Suc j < length es" and "stop_of (es ! j) \<le> q" and "q + n \<le> unat (page_num (es ! Suc j))"
proof -
  have side: "stop_of e \<le> q \<or> q + n \<le> unat (page_num e)" if "e \<in> set es" for e
  proof (rule ccontr)
    assume "\<not> ?thesis"
    then have "covers e (max q (unat (page_num e)))" "max q (unat (page_num e)) < q + n"
      using assms(3) ent_ok_bounds(2) [of e] assms(2) that by (auto simp: covers_iff)
    with assms(4) that show False by auto
  qed
  obtain ia where ia: "ia < length es" "es ! ia = ea" using assms(5) by (auto simp: in_set_conv_nth)
  obtain ib where ib: "ib < length es" "es ! ib = eb" using assms(8) by (auto simp: in_set_conv_nth)
  have a: "stop_of (es ! ia) \<le> q" using side [OF assms(5)] assms(6,7) ia by (auto simp: covers_iff)
  have b: "\<not> stop_of (es ! ib) \<le> q" using side [OF assms(8)] assms(9,10) ib assms(3) by (auto simp: covers_iff)
  define j where "j = Max {i. i < length es \<and> stop_of (es ! i) \<le> q}"
  have fin: "finite {i. i < length es \<and> stop_of (es ! i) \<le> q}" by simp
  have j: "j < length es" "stop_of (es ! j) \<le> q"
    using Max_in [OF fin] a ia(1) unfolding j_def by blast+
  have "j < ib"
  proof (rule ccontr)
    assume "\<not> j < ib"
    then have "ib < j" using b j(2) by (cases "ib = j") auto
    then have "stop_of (es ! ib) \<le> unat (page_num (es ! j))" using chained_nth [OF assms(1)] j(1) by blast
    also have "\<dots> \<le> q" using j ent_ok_bounds(2) [of "es ! j"] assms(2) by fastforce
    finally show False using b by simp
  qed
  then have Sj: "Suc j < length es" using ib(1) by simp
  have "\<not> stop_of (es ! Suc j) \<le> q"
    using Max_ge [OF fin, of "Suc j"] Sj unfolding j_def [symmetric] by auto
  with side [of "es ! Suc j"] Sj have "q + n \<le> unat (page_num (es ! Suc j))" by auto
  with Sj j(2) show ?thesis by (rule that)
qed

subsection \<open>The three loops\<close>

lemma FindSpace_loop_sound:
  assumes "\<forall>e \<in> set es. ent_ok e" and "chained es" and "i < length es"
    and "FindSpace_loop es n i = r" and "r \<noteq> 0"
  shows "\<exists>j. Suc j < length es \<and> stop_of (es ! j) \<le> unat r \<and>
    unat r + unat n \<le> unat (page_num (es ! Suc j))"
  using assms(3,4)
proof (induction i)
  case (Suc i)
  have b: "unat (end_page (es ! i)) = stop_of (es ! i)"
    using assms(1) Suc.prems(1) by (intro ent_ok_bounds) auto
  have le: "stop_of (es ! i) \<le> unat (page_num (es ! Suc i))"
    using chained_nth [OF assms(2), of i "Suc i"] Suc.prems(1) by simp
  have diff: "unat (page_num (es ! Suc i) - end_page (es ! i)) =
      unat (page_num (es ! Suc i)) - stop_of (es ! i)"
    using le b by (simp add: unat_sub_le)
  show ?case
  proof (cases "n \<le> page_num (es ! Suc i) - end_page (es ! i)")
    case True
    then have n: "unat n \<le> unat (page_num (es ! Suc i)) - stop_of (es ! i)"
      by (simp add: word_le_nat_alt diff)
    then have "unat (page_num (es ! Suc i) - n) = unat (page_num (es ! Suc i)) - unat n"
      by (intro unat_sub_le) simp
    moreover have "r = page_num (es ! Suc i) - n" using Suc.prems(2) True by simp
    ultimately show ?thesis using n le Suc.prems(1) by (intro exI [of _ i]) simp
  next
    case False
    with Suc show ?thesis by simp
  qed
qed (use assms(5) in simp)

lemma FindSpace_loop_complete:
  assumes "\<forall>e \<in> set es. ent_ok e" and "chained es" and "i < length es"
    and "FindSpace_loop es n i = 0" and "j < i"
  shows "unat (page_num (es ! Suc j)) < stop_of (es ! j) + unat n"
  using assms(3,4,5)
proof (induction i)
  case (Suc i)
  have ent: "ent_ok (es ! i)" using assms(1) Suc.prems(1) by auto
  note b = ent_ok_bounds [OF ent]
  have le: "stop_of (es ! i) \<le> unat (page_num (es ! Suc i))"
    using chained_nth [OF assms(2), of i "Suc i"] Suc.prems(1) by simp
  have diff: "unat (page_num (es ! Suc i) - end_page (es ! i)) =
      unat (page_num (es ! Suc i)) - stop_of (es ! i)"
    using le b by (simp add: unat_sub_le)
  have no: "\<not> n \<le> page_num (es ! Suc i) - end_page (es ! i)"
  proof
    assume fit: "n \<le> page_num (es ! Suc i) - end_page (es ! i)"
    then have "unat n \<le> unat (page_num (es ! Suc i)) - stop_of (es ! i)"
      by (simp add: word_le_nat_alt diff)
    moreover have "page_num (es ! Suc i) = n" using Suc.prems(2) fit by simp
    ultimately show False using b(2) le by auto
  qed
  with Suc.prems(2) have "FindSpace_loop es n i = 0" by simp
  moreover have "unat (page_num (es ! Suc i)) < stop_of (es ! i) + unat n"
    using no le by (simp add: word_le_nat_alt diff) 
  ultimately show ?case using Suc by (auto simp: less_Suc_eq)
qed simp

text \<open>The gap between two entries after rounding it inwards to allocation units.\<close>

definition round_up16 :: "nat \<Rightarrow> nat" where
  "round_up16 k = (k + 15) div 16 * 16"

lemma round_up16:
  "k \<le> round_up16 k" "16 dvd round_up16 k" "16 dvd q \<Longrightarrow> k \<le> q \<Longrightarrow> round_up16 k \<le> q"
  "0 < k \<Longrightarrow> 0 < round_up16 k"
  unfolding round_up16_def by (auto elim!: dvdE simp: div_le_mono)

lemma round_down16: "q div 16 * 16 \<le> (q :: nat)" "16 dvd k \<Longrightarrow> k \<le> q \<Longrightarrow> k \<le> q div 16 * 16"
  by (auto elim!: dvdE)

lemma round_words:
  "ent_ok e \<Longrightarrow> unat (NaClRoundPageNumUpToMapMultiple (end_page e)) = round_up16 (stop_of e)"
  "unat (NaClTruncPageNumDownToMapMultiple (page_num e)) = unat (page_num e) div 16 * 16"
  "unat n + 15 < 2 ^ 64 \<Longrightarrow> unat (NaClRoundPageNumUpToMapMultiple n) = round_up16 (unat n)"
  using ent_ok_bounds [of e] by (simp_all add: round_nat trunc_nat round_up16_def max_pages_def)

definition fits :: "NaClVmmapEntry list \<Rightarrow> nat \<Rightarrow> nat \<Rightarrow> nat \<Rightarrow> bool" where
  "fits es j q k \<longleftrightarrow> Suc j < length es \<and> round_up16 (stop_of (es ! j)) \<le> q \<and>
     q + k \<le> unat (page_num (es ! Suc j)) div 16 * 16"

lemma FindMapSpace_loop_sound:
  assumes "\<forall>e \<in> set es. ent_ok e" and "i < length es"
    and "FindMapSpace_loop es n i = r" and "r \<noteq> 0" and "16 dvd unat n"
  shows "16 dvd unat r \<and> (\<exists>j. fits es j (unat r) (unat n))"
  using assms(2,3)
proof (induction i)
  case (Suc i)
  let ?a = "NaClRoundPageNumUpToMapMultiple (end_page (es ! i))"
  let ?b = "NaClTruncPageNumDownToMapMultiple (page_num (es ! Suc i))"
  have a: "unat ?a = round_up16 (stop_of (es ! i))"
    using assms(1) Suc.prems(1) by (intro round_words) auto
  show ?case
  proof (cases "\<not> ?b \<le> ?a \<and> n \<le> ?b - ?a")
    case True
    then have lt: "unat ?a < unat ?b" by (simp add: word_le_nat_alt)
    with True have n: "unat n \<le> unat ?b - unat ?a" by (simp add: word_le_nat_alt unat_sub_le)
    then have u: "unat (?b - n) = unat ?b - unat n" by (intro unat_sub_le) simp
    have r: "r = ?b - n" using Suc.prems(2) True by (simp add: Let_def)
    have "16 dvd unat ?b" by (simp add: round_words)
    then have "16 dvd unat r" using assms(5) r u by (simp add: dvd_diff_nat)
    moreover have "fits es i (unat r) (unat n)"
      using n lt u r a Suc.prems(1) by (simp add: fits_def round_words)
    ultimately show ?thesis by blast
  next
    case False
    with Suc show ?thesis by (auto simp: Let_def split: if_splits)
  qed
qed (use assms(4) in simp)

lemma FindMapSpace_loop_complete:
  assumes "\<forall>e \<in> set es. ent_ok e" and "i < length es"
    and "FindMapSpace_loop es n i = 0" and "j < i" and "0 < unat n"
  shows "\<not> fits es j q (unat n)"
  using assms(2,3,4)
proof (induction i)
  case (Suc i)
  let ?a = "NaClRoundPageNumUpToMapMultiple (end_page (es ! i))"
  let ?b = "NaClTruncPageNumDownToMapMultiple (page_num (es ! Suc i))"
  have ent: "ent_ok (es ! i)" using assms(1) Suc.prems(1) by auto
  have a: "unat ?a = round_up16 (stop_of (es ! i))" by (rule round_words) (rule ent)
  have pos: "0 < unat ?a" using ent_ok_bounds(2) [OF ent] a round_up16(4) by simp
  have no: "?b \<le> ?a \<or> \<not> n \<le> ?b - ?a"
  proof (rule ccontr)
    assume c: "\<not> ?thesis"
    then have "unat ?a < unat ?b" by (simp add: word_le_nat_alt)
    moreover from this c have "unat n \<le> unat ?b - unat ?a"
      by (simp add: word_le_nat_alt unat_sub_le)
    moreover have "?b = n" using Suc.prems(2) c by (simp add: Let_def)
    ultimately show False using pos by auto
  qed
  then have "FindMapSpace_loop es n i = 0" using Suc.prems(2) by (auto simp: Let_def split: if_splits)
  moreover have "\<not> fits es i q (unat n)"
  proof
    assume "fits es i q (unat n)"
    then have f: "unat ?a + unat n \<le> unat ?b" by (simp add: fits_def a round_words)
    then have "unat n \<le> unat (?b - ?a)" by (simp add: unat_sub_le)
    with no f assms(5) show False by (auto simp: word_le_nat_alt)
  qed
  ultimately show ?case using Suc by (auto simp: less_Suc_eq)
qed simp

definition hint_start :: "NaClVmmapEntry list \<Rightarrow> u64 \<Rightarrow> nat \<Rightarrow> u64" where
  "hint_start es u j =
     (let a = NaClRoundPageNumUpToMapMultiple (end_page (es ! j)) in
      if a \<le> u \<and> u < NaClTruncPageNumDownToMapMultiple (page_num (es ! Suc j)) then u else a)"

definition hint_fits :: "NaClVmmapEntry list \<Rightarrow> u64 \<Rightarrow> u64 \<Rightarrow> nat \<Rightarrow> bool" where
  "hint_fits es u n j \<longleftrightarrow>
     round_up16 (stop_of (es ! j)) < unat (page_num (es ! Suc j)) div 16 * 16 \<and>
     unat u \<le> unat (hint_start es u j) \<and>
     unat (hint_start es u j) + unat n \<le> unat (page_num (es ! Suc j)) div 16 * 16"

lemma unat_hint_start:
  "ent_ok (es ! j) \<Longrightarrow>
   unat (hint_start es u j) =
     (if round_up16 (stop_of (es ! j)) \<le> unat u \<and> unat u < unat (page_num (es ! Suc j)) div 16 * 16
      then unat u else round_up16 (stop_of (es ! j)))"
  by (simp add: hint_start_def Let_def word_le_nat_alt word_less_nat_alt round_words)

lemma AboveHint_step:
  assumes "ent_ok (es ! j)" and "Suc j < length es"
  shows "AboveHint_loop es u n (Suc j) =
    (if hint_fits es u n j then hint_start es u j else AboveHint_loop es u n (Suc (Suc j)))"
proof -
  let ?a = "NaClRoundPageNumUpToMapMultiple (end_page (es ! j))"
  let ?b = "NaClTruncPageNumDownToMapMultiple (page_num (es ! Suc j))"
  have a: "unat ?a = round_up16 (stop_of (es ! j))" by (rule round_words) (rule assms(1))
  have b: "unat ?b = unat (page_num (es ! Suc j)) div 16 * 16" by (rule round_words)
  let ?s = "hint_start es u j"
  have s: "unat ?s \<le> unat ?b" if "\<not> ?b \<le> ?a"
    using that by (simp add: unat_hint_start [OF assms(1)] word_le_nat_alt a b)
  have "AboveHint_loop es u n (Suc j) =
      (if ?b \<le> ?a then AboveHint_loop es u n (Suc (Suc j))
       else if u \<le> ?s \<and> n \<le> ?b - ?s then ?s else AboveHint_loop es u n (Suc (Suc j)))"
    using assms(2) by (subst AboveHint_loop.simps) (simp add: Let_def hint_start_def)
  moreover have "hint_fits es u n j \<longleftrightarrow> \<not> ?b \<le> ?a \<and> u \<le> ?s \<and> n \<le> ?b - ?s"
  proof (cases "?b \<le> ?a")
    case True
    then show ?thesis by (simp add: hint_fits_def word_le_nat_alt a b)
  next
    case False
    note s = s [OF this]
    have "unat (?b - ?s) = unat ?b - unat ?s" using s by (rule unat_sub_le)
    with False s show ?thesis by (auto simp: hint_fits_def word_le_nat_alt a b)
  qed
  ultimately show ?thesis by simp
qed

lemma AboveHint_loop_sound:
  assumes "\<forall>e \<in> set es. ent_ok e"
    and "AboveHint_loop es u n (Suc i) = r" and "r \<noteq> 0"
  shows "u \<le> r \<and> (\<exists>j. fits es j (unat r) (unat n)) \<and> (16 dvd unat u \<longrightarrow> 16 dvd unat r)"
  using assms(2)
proof (induction "length es - i" arbitrary: i rule: less_induct)
  case less
  show ?case
  proof (cases "Suc i < length es")
    case True
    then have ent: "ent_ok (es ! i)" using assms(1) by auto
    note step = AboveHint_step [OF ent True, of u n]
    show ?thesis
    proof (cases "hint_fits es u n i")
      case fit: True
      with less.prems step have r: "r = hint_start es u i" by simp
      have "fits es i (unat r) (unat n)"
        using fit True unfolding r fits_def hint_fits_def
        by (auto simp: unat_hint_start [OF ent] split: if_splits)
      moreover have "16 dvd unat u \<longrightarrow> 16 dvd unat r"
        unfolding r unat_hint_start [OF ent] by (simp add: round_up16)
      ultimately show ?thesis using fit by (auto simp: hint_fits_def r word_le_nat_alt)
    next
      case False
      with less.hyps [of "Suc i"] less.prems step True show ?thesis by simp
    qed
  next
    case False
    with less.prems assms(3) show ?thesis by (subst (asm) AboveHint_loop.simps) simp
  qed
qed

lemma AboveHint_loop_complete:
  assumes "\<forall>e \<in> set es. ent_ok e"
    and "AboveHint_loop es u n (Suc i) = 0" and "i \<le> j" and "0 < unat n" and "unat u \<le> q"
  shows "\<not> fits es j q (unat n)"
  using assms(2,3)
proof (induction "length es - i" arbitrary: i rule: less_induct)
  case less
  show ?case
  proof (cases "Suc i < length es")
    case True
    then have ent: "ent_ok (es ! i)" using assms(1) by auto
    note step = AboveHint_step [OF ent True, of u n]
    have "0 < unat (hint_start es u i)"
      using ent_ok_bounds(2) [OF ent] round_up16(4) [of "stop_of (es ! i)"]
      by (auto simp: unat_hint_start [OF ent])
    then have "hint_start es u i \<noteq> 0" by auto
    with less.prems step have no: "\<not> hint_fits es u n i" and nx: "AboveHint_loop es u n (Suc (Suc i)) = 0"
      by (auto split: if_splits)
    have "\<not> fits es i q (unat n)"
      using no assms(4,5) unfolding fits_def hint_fits_def
      by (auto simp: unat_hint_start [OF ent] split: if_splits)
    with less.hyps [of "Suc i"] nx True less.prems(2) show ?thesis
      by (cases "j = i") auto
  next
    case False
    with less.prems show ?thesis by (simp add: fits_def)
  qed
qed

subsection \<open>The searches\<close>

definition free_range :: "NaClVmmap \<Rightarrow> nat \<Rightarrow> nat \<Rightarrow> bool" where
  "free_range self q k \<longleftrightarrow> (\<forall>p. q \<le> p \<and> p < q + k \<longrightarrow> page_at self p = None)"

text \<open>A free range with mappings on both sides: the kind of hole the searches look for.\<close>

definition hole :: "NaClVmmap \<Rightarrow> nat \<Rightarrow> nat \<Rightarrow> bool" where
  "hole self q k \<longleftrightarrow> free_range self q k \<and>
     (\<exists>a < q. page_at self a \<noteq> None) \<and> (\<exists>b \<ge> q + k. page_at self b \<noteq> None)"

lemma gap_hole:
  assumes "vm_ok self" and "chained (vmentry self)" and "Suc j < nvalid self"
    and "stop_of (vmentry self ! j) \<le> q" and "q + k \<le> unat (page_num (vmentry self ! Suc j))"
  shows "hole self q k \<and> q + k \<le> max_pages"
proof -
  let ?es = "vmentry self"
  have ok: "\<forall>e \<in> set ?es. ent_ok e" using assms(1) by (simp add: vm_ok_def)
  have ent: "ent_ok (?es ! j)" "ent_ok (?es ! Suc j)" using ok assms(3) by auto
  have mapped: "page_at self p \<noteq> None" if "e \<in> set ?es" "covers e p" for e p
    using that by (auto simp: page_at_None views_eq_empty)
  have "page_at self p = None" if "q \<le> p" "p < q + k" for p
    using gap_free [OF assms(2) ok assms(3)] assms(4,5) that by (auto simp: page_at_None views_eq_empty)
  then have "free_range self q k" by (simp add: free_range_def)
  moreover have "covers (?es ! j) (unat (page_num (?es ! j)))"
    "covers (?es ! Suc j) (unat (page_num (?es ! Suc j)))"
    using ent_ok_bounds(2) ent by (auto simp: covers_iff)
  then have "page_at self (unat (page_num (?es ! j))) \<noteq> None"
    "page_at self (unat (page_num (?es ! Suc j))) \<noteq> None"
    using mapped [OF nth_mem] assms(3) Suc_lessD [OF assms(3)] by blast+
  moreover have "unat (page_num (?es ! j)) < q" using ent_ok_bounds(2) [OF ent(1)] assms(4) by simp
  moreover have "unat (page_num (?es ! Suc j)) \<le> max_pages"
    using ent_ok_bounds(2,3) [OF ent(2)] by simp
  ultimately show ?thesis using assms(5) unfolding hole_def by (meson le_trans)
qed

lemma hole_gap:
  assumes "vm_ok self" and "chained (vmentry self)" and "hole self q k" and "0 < k"
  obtains j where "Suc j < nvalid self" and "stop_of (vmentry self ! j) \<le> q"
    and "q + k \<le> unat (page_num (vmentry self ! Suc j))"
proof -
  let ?es = "vmentry self"
  have ok: "\<forall>e \<in> set ?es. ent_ok e" using assms(1) by (simp add: vm_ok_def)
  have iff: "page_at self p = None \<longleftrightarrow> (\<forall>e \<in> set ?es. \<not> covers e p)" for p
    by (simp add: page_at_None views_eq_empty)
  from assms(3) obtain a ea b eb where ab: "ea \<in> set ?es" "covers ea a" "a < q"
    "eb \<in> set ?es" "covers eb b" "q + k \<le> b"
    unfolding hole_def by (auto simp: iff)
  have "\<not> covers e p" if "q \<le> p" "p < q + k" "e \<in> set ?es" for p e
    using assms(3) that by (auto simp: hole_def free_range_def iff)
  from hole_between [OF assms(2) ok assms(4) this ab] show ?thesis using that by blast
qed

lemma fits_hole:
  assumes "vm_ok self" and "chained (vmentry self)"
  shows "fits (vmentry self) j q k \<Longrightarrow> hole self q k \<and> q + k \<le> max_pages"
    and "hole self q k \<Longrightarrow> 0 < k \<Longrightarrow> 16 dvd q \<Longrightarrow> 16 dvd k \<Longrightarrow> \<exists>j. fits (vmentry self) j q k"
proof -
  assume "fits (vmentry self) j q k"
  then have "Suc j < nvalid self" "stop_of (vmentry self ! j) \<le> q"
    "q + k \<le> unat (page_num (vmentry self ! Suc j))"
    using round_up16(1) round_down16(1) le_trans unfolding fits_def by blast+
  with assms show "hole self q k \<and> q + k \<le> max_pages" by (rule gap_hole)
next
  assume h: "hole self q k" "0 < k" "16 dvd q" "16 dvd k"
  obtain j where "Suc j < nvalid self" "stop_of (vmentry self ! j) \<le> q"
    "q + k \<le> unat (page_num (vmentry self ! Suc j))"
    using hole_gap [OF assms h(1,2)] by blast
  with h(3,4) have "fits (vmentry self) j q k"
    by (simp add: fits_def round_up16(3) round_down16(2))
  then show "\<exists>j. fits (vmentry self) j q k" ..
qed

lemma hole_same_pages: "page_at s = page_at self \<Longrightarrow> hole s = hole self"
  by (simp add: hole_def free_range_def fun_eq_iff)

text \<open>The common frame: the searches sort the map and change nothing else.\<close>

lemma sorted_map:
  assumes "vm_ok self"
  obtains s where "NaClVmmapMakeSorted self = Inr s" and "vm_ok s" and "chained (vmentry s)"
    and "nvalid s = nvalid self" and "page_at s = page_at self" and "other_refs s = other_refs self"
proof -
  from assms obtain s where s: "NaClVmmapMakeSorted self = Inr s" "vm_ok s" "chained (vmentry s)"
    "mset (vmentry s) = mset (vmentry self)" "other_refs s = other_refs self"
    by (rule MakeSorted_result)
  have "page_at s = page_at self"
    using page_at_views [OF assms s(2)] s(4) by (intro ext) simp
  with s mset_eq_length [OF s(4)] show ?thesis by (intro that [of s]) simp_all
qed

definition found :: "NaClVmmap \<Rightarrow> NaClVmmap \<Rightarrow> bool" where
  "found self s \<longleftrightarrow> vm_ok s \<and> page_at s = page_at self \<and> other_refs s = other_refs self"

lemma no_hole_empty: "nvalid self = 0 \<Longrightarrow> \<not> hole self q k"
  by (simp add: hole_def page_at_def)

lemma FindPage_result:
  assumes "vm_ok self"
  obtains s r where "NaClVmmapFindPage self pnum = Inr (s, r)" and "found self s"
    and "map_option (\<lambda>e. view e (unat pnum)) r = page_at self (unat pnum)"
proof -
  from assms obtain s where s: "NaClVmmapMakeSorted self = Inr s" "vm_ok s" "chained (vmentry s)"
    "nvalid s = nvalid self" "page_at s = page_at self" "other_refs s = other_refs self"
    by (rule sorted_map)
  let ?r = "map_option (nth (vmentry s)) (bsearch_by NaClVmmapContainCmpEntries pnum (vmentry s))"
  show ?thesis
    using s lookup_result [OF s(2,3), of pnum]
    by (intro that [of s ?r]) (auto simp: NaClVmmapFindPage_def found_def split: option.splits)
qed

lemma FindSpace_result:
  assumes "vm_ok self" and "n \<noteq> 0"
  obtains s r where "NaClVmmapFindSpace self n = Inr (s, r)" and "found self s"
    and "if r = 0 then \<not> (\<exists>q. hole self q (unat n)) else hole self (unat r) (unat n) \<and> region_ok r n"
proof (cases "nvalid self = 0")
  case True
  with assms show ?thesis
    by (intro that [of self 0]) (auto simp: NaClVmmapFindSpace_def found_def no_hole_empty)
next
  case False
  from assms(1) obtain s where s: "NaClVmmapMakeSorted self = Inr s" "vm_ok s" "chained (vmentry s)"
    "nvalid s = nvalid self" "page_at s = page_at self" "other_refs s = other_refs self"
    by (rule sorted_map)
  have ok: "\<forall>e \<in> set (vmentry s). ent_ok e" using s(2) by (simp add: vm_ok_def)
  have n: "0 < unat n" using assms(2) by (simp add: unat_gt_0)
  define r where "r = FindSpace_loop (vmentry s) n (nvalid s - 1)"
  have i: "nvalid s - 1 < nvalid s" using False s(4) by simp
  have "if r = 0 then \<not> (\<exists>q. hole s q (unat n)) else hole s (unat r) (unat n) \<and> region_ok r n"
  proof (cases "r = 0")
    case True
    have "\<not> hole s q (unat n)" for q
    proof
      assume "hole s q (unat n)"
      with s(2,3) n obtain j where "Suc j < nvalid s" "stop_of (vmentry s ! j) \<le> q"
        "q + unat n \<le> unat (page_num (vmentry s ! Suc j))" by (meson hole_gap)
      moreover from this have "j < nvalid s - 1" by linarith
      ultimately show False
        using FindSpace_loop_complete [OF ok s(3) i, of n j] True by (simp add: r_def)
    qed
    with True show ?thesis by simp
  next
    case False
    with FindSpace_loop_sound [OF ok s(3) i r_def [symmetric]] gap_hole [OF s(2,3)] assms(2)
    show ?thesis by (auto simp: region_ok_def)
  qed
  note this [unfolded hole_same_pages [OF s(5)]]
  with s False show ?thesis
    by (intro that [of s r]) (simp_all add: NaClVmmapFindSpace_def found_def r_def)
qed

text \<open>The allocation-unit searches: \<open>pages\<close> is the rounded number of pages.\<close>

lemma FindMapSpace_result:
  assumes "vm_ok self" and "n \<noteq> 0" and "unat n + 15 < 2 ^ 64"
  obtains s r where "NaClVmmapFindMapSpace self n = Inr (s, r)" and "found self s"
    and "if r = 0 then \<not> (\<exists>q. 16 dvd q \<and> hole self q (round_up16 (unat n)))
      else 16 dvd unat r \<and> hole self (unat r) (round_up16 (unat n)) \<and>
        unat r + round_up16 (unat n) \<le> max_pages"
proof (cases "nvalid self = 0")
  case True
  with assms show ?thesis
    by (intro that [of self 0]) (auto simp: NaClVmmapFindMapSpace_def found_def no_hole_empty)
next
  case False
  from assms(1) obtain s where s: "NaClVmmapMakeSorted self = Inr s" "vm_ok s" "chained (vmentry s)"
    "nvalid s = nvalid self" "page_at s = page_at self" "other_refs s = other_refs self"
    by (rule sorted_map)
  have ok: "\<forall>e \<in> set (vmentry s). ent_ok e" using s(2) by (simp add: vm_ok_def)
  let ?n = "NaClRoundPageNumUpToMapMultiple n"
  have n: "unat ?n = round_up16 (unat n)" using assms(3) by (rule round_words)
  have pos: "0 < unat ?n" using assms(2) n round_up16(4) by (simp add: unat_gt_0)
  have dvd: "16 dvd unat ?n" using n round_up16(2) by simp
  define r where "r = FindMapSpace_loop (vmentry s) ?n (nvalid s - 1)"
  have i: "nvalid s - 1 < nvalid s" using False s(4) by simp
  have "if r = 0 then \<not> (\<exists>q. 16 dvd q \<and> hole s q (unat ?n))
      else 16 dvd unat r \<and> hole s (unat r) (unat ?n) \<and> unat r + unat ?n \<le> max_pages"
  proof (cases "r = 0")
    case True
    have "\<not> hole s q (unat ?n)" if q: "16 dvd q" for q
    proof
      assume "hole s q (unat ?n)"
      then obtain j where j: "fits (vmentry s) j q (unat ?n)"
        using fits_hole(2) [OF s(2,3) _ pos q dvd] by blast
      then have "j < nvalid s - 1" by (auto simp: fits_def)
      from FindMapSpace_loop_complete [OF ok i _ this pos] True j show False by (simp add: r_def)
    qed
    with True show ?thesis by auto
  next
    case False
    with FindMapSpace_loop_sound [OF ok i r_def [symmetric] _ dvd] fits_hole(1) [OF s(2,3)]
    show ?thesis by auto
  qed
  note this [unfolded hole_same_pages [OF s(5)] n]
  with s False show ?thesis
    by (intro that [of s r]) (simp_all add: NaClVmmapFindMapSpace_def found_def r_def)
qed

lemma FindMapSpaceAboveHint_result:
  assumes "vm_ok self" and "n \<noteq> 0" and "unat n + 15 < 2 ^ 64" and "16 dvd unat uaddr div 4096"
  obtains s r where "NaClVmmapFindMapSpaceAboveHint self uaddr n = Inr (s, r)" and "found self s"
    and "if r = 0
      then \<not> (\<exists>q. 16 dvd q \<and> unat uaddr div 4096 \<le> q \<and> hole self q (round_up16 (unat n)))
      else 16 dvd unat r \<and> unat uaddr div 4096 \<le> unat r \<and> hole self (unat r) (round_up16 (unat n)) \<and>
        unat r + round_up16 (unat n) \<le> max_pages"
proof -
  from assms(1) obtain s where s: "NaClVmmapMakeSorted self = Inr s" "vm_ok s" "chained (vmentry s)"
    "nvalid s = nvalid self" "page_at s = page_at self" "other_refs s = other_refs self"
    by (rule sorted_map)
  have ok: "\<forall>e \<in> set (vmentry s). ent_ok e" using s(2) by (simp add: vm_ok_def)
  let ?n = "NaClRoundPageNumUpToMapMultiple n" and ?u = "drop_bit 12 uaddr"
  have u: "unat ?u = unat uaddr div 4096" by (simp add: drop_bit_eq_div unat_div)
  have n: "unat ?n = round_up16 (unat n)" using assms(3) by (rule round_words)
  have pos: "0 < unat ?n" using assms(2) n round_up16(4) by (simp add: unat_gt_0)
  have dvd: "16 dvd unat ?n" using n round_up16(2) by simp
  define r where "r = AboveHint_loop (vmentry s) ?u ?n (Suc 0)"
  have "if r = 0 then \<not> (\<exists>q. 16 dvd q \<and> unat ?u \<le> q \<and> hole s q (unat ?n))
      else 16 dvd unat r \<and> unat ?u \<le> unat r \<and> hole s (unat r) (unat ?n) \<and> unat r + unat ?n \<le> max_pages"
  proof (cases "r = 0")
    case True
    have "\<not> hole s q (unat ?n)" if q: "16 dvd q" "unat ?u \<le> q" for q
    proof
      assume "hole s q (unat ?n)"
      then obtain j where j: "fits (vmentry s) j q (unat ?n)"
        using fits_hole(2) [OF s(2,3) _ pos q(1) dvd] by blast
      from AboveHint_loop_complete [OF ok _ _ pos q(2)] True j show False by (simp add: r_def)
    qed
    with True show ?thesis by auto
  next
    case False
    with AboveHint_loop_sound [OF ok r_def [symmetric]] fits_hole(1) [OF s(2,3)] assms(4) u
    show ?thesis by (auto simp: word_le_nat_alt)
  qed
  note this [unfolded hole_same_pages [OF s(5)] n u]
  with s show ?thesis
    by (intro that [of s r]) (simp_all add: NaClVmmapFindMapSpaceAboveHint_def found_def r_def)
qed

end
