(* ===== verification/Vmmap_Contract.thy ===== *)
theory Vmmap_Contract
  imports Vmmap_Protect Vmmap_Search
begin

text \<open>
  What the memory map promises to its callers.  The locale \<open>page_map\<close> states the laws of
  overwriting and removing page ranges, \<open>searchable_page_map\<close> adds the search for a free
  range; both are interpreted on the model of \<open>sel_mem.c\<close>.  The properties of the component
  follow, with a trace theorem that runs any sequence of operations against the partial
  function from pages to mappings.
\<close>

subsection \<open>The interface\<close>

locale page_map =
  fixes ok :: "'m \<Rightarrow> bool"
    and pages :: "'m \<Rightarrow> nat \<Rightarrow> 'v option"
    and overwrite :: "'m \<Rightarrow> u64 \<Rightarrow> u64 \<Rightarrow> 'a \<Rightarrow> 'm run"
    and remove :: "'m \<Rightarrow> u64 \<Rightarrow> u64 \<Rightarrow> 'm run"
    and content :: "u64 \<Rightarrow> 'a \<Rightarrow> nat \<Rightarrow> 'v"
  assumes overwrite_law: "ok m \<Longrightarrow> region_ok pn n \<Longrightarrow>
      \<exists>m'. overwrite m pn n a = Inr m' \<and> ok m' \<and>
        pages m' = (\<lambda>p. if in_region pn n p then Some (content pn a p) else pages m p)"
    and remove_law: "ok m \<Longrightarrow> region_ok pn n \<Longrightarrow> \<exists>p. pages m p \<noteq> None \<and> \<not> in_region pn n p \<Longrightarrow>
      \<exists>m'. remove m pn n = Inr m' \<and> ok m' \<and>
        pages m' = (\<lambda>p. if in_region pn n p then None else pages m p)"
begin

lemma overwrite_twice:
  assumes "ok m" and "region_ok pn n"
  shows "\<exists>m1 m2. overwrite m pn n a = Inr m1 \<and> overwrite m1 pn n b = Inr m2 \<and> ok m2 \<and>
    pages m2 = (\<lambda>p. if in_region pn n p then Some (content pn b p) else pages m p)"
proof -
  obtain m1 where m1: "overwrite m pn n a = Inr m1" "ok m1"
    "pages m1 = (\<lambda>p. if in_region pn n p then Some (content pn a p) else pages m p)"
    using overwrite_law [OF assms] by blast
  obtain m2 where "overwrite m1 pn n b = Inr m2" "ok m2"
    "pages m2 = (\<lambda>p. if in_region pn n p then Some (content pn b p) else pages m1 p)"
    using overwrite_law [OF m1(2) assms(2)] by blast
  with m1 show ?thesis by (auto simp: fun_eq_iff)
qed

text \<open>Mapping a free range and unmapping it again restores the pages.\<close>

lemma overwrite_remove:
  assumes "ok m" and "region_ok pn n" and "\<forall>p. in_region pn n p \<longrightarrow> pages m p = None"
    and "\<exists>p. pages m p \<noteq> None"
  shows "\<exists>m1 m2. overwrite m pn n a = Inr m1 \<and> remove m1 pn n = Inr m2 \<and> ok m2 \<and> pages m2 = pages m"
proof -
  obtain m1 where m1: "overwrite m pn n a = Inr m1" "ok m1"
    "pages m1 = (\<lambda>p. if in_region pn n p then Some (content pn a p) else pages m p)"
    using overwrite_law [OF assms(1,2)] by blast
  obtain q where "pages m q \<noteq> None" using assms(4) by blast
  with assms(3) m1(3) have "pages m1 q \<noteq> None \<and> \<not> in_region pn n q" by auto
  then have "\<exists>p. pages m1 p \<noteq> None \<and> \<not> in_region pn n p" ..
  then obtain m2 where "remove m1 pn n = Inr m2" "ok m2"
    "pages m2 = (\<lambda>p. if in_region pn n p then None else pages m1 p)"
    using remove_law [OF m1(2) assms(2)] by blast
  with m1 assms(3) show ?thesis by (auto simp: fun_eq_iff)
qed

end

locale searchable_page_map = page_map +
  fixes find :: "'m \<Rightarrow> u64 \<Rightarrow> ('m \<times> u64) run"
  assumes find_law: "ok m \<Longrightarrow> n \<noteq> 0 \<Longrightarrow> unat n + 15 < 2 ^ 64 \<Longrightarrow>
      \<exists>m' r. find m n = Inr (m', r) \<and> ok m' \<and> pages m' = pages m \<and>
        (r \<noteq> 0 \<longrightarrow> region_ok r n \<and> (\<forall>p. in_region r n p \<longrightarrow> pages m p = None))"
begin

text \<open>Mapping at the address that a successful search returned loses no mapping.\<close>

lemma find_overwrite_fresh:
  assumes "ok m" and "n \<noteq> 0" and "unat n + 15 < 2 ^ 64"
    and "find m n = Inr (m1, r)" and "r \<noteq> 0"
  shows "\<exists>m2. overwrite m1 r n a = Inr m2 \<and> ok m2 \<and> pages m \<subseteq>\<^sub>m pages m2 \<and>
    dom (pages m2) = dom (pages m) \<union> {p. in_region r n p}"
proof -
  obtain m' r' where "find m n = Inr (m', r')" "ok m'" "pages m' = pages m"
    "r' \<noteq> 0 \<longrightarrow> region_ok r' n \<and> (\<forall>p. in_region r' n p \<longrightarrow> pages m p = None)"
    using find_law [OF assms(1-3)] by blast
  with assms(4,5) have m1: "ok m1" "pages m1 = pages m" "region_ok r n"
    "\<forall>p. in_region r n p \<longrightarrow> pages m p = None" by auto
  obtain m2 where "overwrite m1 r n a = Inr m2" "ok m2"
    "pages m2 = (\<lambda>p. if in_region r n p then Some (content r a p) else pages m1 p)"
    using overwrite_law [OF m1(1,3)] by blast
  with m1 show ?thesis by (auto simp: map_le_def dom_def split: if_splits)
qed

end

subsection \<open>The model provides it\<close>

type_synonym mapping_args = "u32 \<times> u32 \<times> nat option \<times> u64 \<times> u64"

definition overwrite_args :: "NaClVmmap \<Rightarrow> u64 \<Rightarrow> u64 \<Rightarrow> mapping_args \<Rightarrow> NaClVmmap run" where
  "overwrite_args self pn n a =
     (case a of (pr, fl, d, off, fsz) \<Rightarrow> NaClVmmapAddWithOverwrite self pn n pr fl d off fsz)"

definition new_page_args :: "u64 \<Rightarrow> mapping_args \<Rightarrow> nat \<Rightarrow> page_view" where
  "new_page_args pn a = (case a of (pr, fl, d, off, fsz) \<Rightarrow> new_page pn pr fl d off fsz)"

lemma round_up16_region:
  assumes "n \<noteq> 0" and "unat r + round_up16 (unat n) \<le> max_pages"
  shows "region_ok r n"
  using assms round_up16(1) [of "unat n"] by (simp add: region_ok_def)

lemma hole_region:
  assumes "hole self (unat r) (round_up16 (unat n))" and "in_region r n p"
  shows "page_at self p = None"
  using assms round_up16(1) [of "unat n"] by (simp add: hole_def free_range_def in_region_def)

interpretation vm: searchable_page_map vm_ok page_at overwrite_args NaClVmmapRemove new_page_args
  NaClVmmapFindMapSpace
proof (unfold_locales, goal_cases)
  case (1 m pn n a)
  obtain pr fl d off fsz where "a = (pr, fl, d, off, fsz)" by (cases a)
  moreover obtain m' where "NaClVmmapAddWithOverwrite m pn n pr fl d off fsz = Inr m'" "vm_ok m'"
    "\<And>p. page_at m' p = (if in_region pn n p then Some (new_page pn pr fl d off fsz p) else page_at m p)"
    using AddWithOverwrite_result [OF 1] by metis
  ultimately show ?case by (auto simp: overwrite_args_def new_page_args_def fun_eq_iff)
next
  case (2 m pn n)
  obtain m' where "NaClVmmapRemove m pn n = Inr m'" "vm_ok m'"
    "\<And>p. page_at m' p = (if in_region pn n p then None else page_at m p)"
    using Remove_result [OF 2] by metis
  then show ?case by (auto simp: fun_eq_iff)
next
  case (3 m n)
  obtain m' r where "NaClVmmapFindMapSpace m n = Inr (m', r)" "found m m'"
    "if r = 0 then \<not> (\<exists>q. 16 dvd q \<and> hole m q (round_up16 (unat n)))
      else 16 dvd unat r \<and> hole m (unat r) (round_up16 (unat n)) \<and>
        unat r + round_up16 (unat n) \<le> max_pages"
    by (rule FindMapSpace_result [OF 3]) blast
  then show ?case
    using 3(2) round_up16_region hole_region by (auto simp: found_def)
qed

subsection \<open>A sample map\<close>

text \<open>Trampoline and text, a file mapping, and the stack.\<close>

definition sample_vm :: NaClVmmap where
  "sample_vm = \<lparr> vmentry =
      [\<lparr> page_num = 0, npages = 32, prot = PROT_READ, flags = MAP_PRIVATE, removed = False,
         desc = None, offset = 0, file_size = 0 \<rparr>,
       \<lparr> page_num = 0x10000, npages = 8, prot = PROT_READ OR PROT_WRITE, flags = MAP_SHARED,
         removed = False, desc = Some 7, offset = 0, file_size = 0x8000 \<rparr>,
       \<lparr> page_num = 0xff000, npages = 0x1000, prot = PROT_READ OR PROT_WRITE, flags = MAP_PRIVATE,
         removed = False, desc = None, offset = 0, file_size = 0 \<rparr>],
     vm_size = 5, is_sorted = True, desc_refs = (\<lambda>_. 0)(7 := 2) \<rparr>"

lemma chained_views:
  assumes "chained es" and "\<forall>e \<in> set es. ent_ok e"
  shows "size (views (mset es) p) \<le> 1"
  using assms
proof (induction es)
  case (Cons a es)
  then have IH: "size (views (mset es) p) \<le> 1" by (simp add: chained_def)
  show ?case
  proof (cases "covers a p")
    case True
    with Cons.prems have "\<forall>e \<in> set es. \<not> covers e p"
      by (fastforce simp: chained_def covers_iff)
    then have "views (mset es) p = {#}" by (simp add: views_eq_empty)
    then show ?thesis by simp
  next
    case False
    with IH show ?thesis by simp
  qed
qed simp

lemma vm_ok_chained:
  "chained (vmentry m) \<Longrightarrow> \<forall>e \<in> set (vmentry m). ent_ok e \<and> \<not> removed e \<Longrightarrow> roomy m \<Longrightarrow>
   sorted (map page_num (vmentry m)) \<Longrightarrow> vm_ok m"
  using chained_views [of "vmentry m"] by (auto simp: vm_ok_def roomy_def)

lemma sample_vm_ok: "vm_ok sample_vm"
  by (rule vm_ok_chained)
    (simp_all add: sample_vm_def chained_def stop_of_def ent_ok_def max_pages_def roomy_def)

lemma sample_region: "region_ok 0x10002 2" "region_ok 0x20000 4" "region_ok 0 0x100000"
  by (simp_all add: region_ok_def max_pages_def)

lemma sample_mapped: "page_at sample_vm 0 \<noteq> None" "\<not> in_region 0x10002 2 0"
  by (simp_all add: sample_vm_def page_at_def covers_def in_region_def)

lemma sample_sorted: "NaClVmmapMakeSorted sample_vm = Inr sample_vm"
    by (simp add: NaClVmmapMakeSorted_def sample_vm_def)

lemma sample_sizes:
  "(5 :: u64) \<noteq> 0" "unat (5 :: u64) + 15 < 2 ^ 64" "16 dvd unat (0x10000000 :: u64) div 4096"
  by simp_all

lemma sample_nvalid: "nvalid sample_vm = 3"
  by (simp add: sample_vm_def)

subsection \<open>Properties\<close>

text \<open> C8. Overwriting a range: \<open>NaClVmmapAddWithOverwrite\<close> never fails on a well-formed
  map, keeps it well formed (entries disjoint, array large enough), keeps every descriptor
  reference accounted for by exactly one entry, maps the pages of the range as asked, each at
  its own file offset, and leaves every other page as it was, whatever entries it had to
  shorten, split or drop.\<close>

theorem vmmap_overwrite:
  assumes "vm_ok self" and "region_ok pn n"
  shows "\<exists>self'. NaClVmmapAddWithOverwrite self pn n pr fl d off fsz = Inr self' \<and>
    vm_ok self' \<and> other_refs self' = other_refs self \<and>
    (\<forall>p. page_at self' p =
       (if in_region pn n p then Some (new_page pn pr fl d off fsz p) else page_at self p))"
  using AddWithOverwrite_result [OF assms] by metis

lemma vmmap_overwrite_witness:
  "\<exists>self'. NaClVmmapAddWithOverwrite sample_vm 0x10002 2 0 1 (Some 9) 0 0 = Inr self' \<and>
    vm_ok self' \<and> other_refs self' = other_refs sample_vm \<and>
    (\<forall>p. page_at self' p =
       (if in_region 0x10002 2 p then Some (new_page 0x10002 0 1 (Some 9) 0 0 p)
        else page_at sample_vm p))"
  by (rule vmmap_overwrite [OF sample_vm_ok sample_region(1)])

text \<open> C17. Removing a range unmaps its pages and no others, as long as a mapped page remains
  outside the range.\<close>

theorem vmmap_remove:
  assumes "vm_ok self" and "region_ok pn n"
    and "\<exists>p. page_at self p \<noteq> None \<and> \<not> in_region pn n p"
  shows "\<exists>self'. NaClVmmapRemove self pn n = Inr self' \<and>
    vm_ok self' \<and> other_refs self' = other_refs self \<and>
    (\<forall>p. page_at self' p = (if in_region pn n p then None else page_at self p))"
  using Remove_result [OF assms] by metis

lemma vmmap_remove_witness:
  "\<exists>self'. NaClVmmapRemove sample_vm 0x10002 2 = Inr self' \<and>
    vm_ok self' \<and> other_refs self' = other_refs sample_vm \<and>
    (\<forall>p. page_at self' p = (if in_region 0x10002 2 p then None else page_at sample_vm p))"
  by (rule vmmap_remove [OF sample_vm_ok sample_region(1)]) (use sample_mapped in blast)

text \<open> C38. Removing the last mapping does not reach the \<open>LOG_FATAL\<close> that the code has for it:
  the slot has been cleared when its \<open>removed\<close> flag is read, so the code dereferences NULL.\<close>

theorem vmmap_remove_everything:
  assumes "vm_ok self" and "region_ok pn n" and "nvalid self \<noteq> 0"
    and "\<forall>p. page_at self p \<noteq> None \<longrightarrow> in_region pn n p"
  shows "NaClVmmapRemove self pn n = Inl NullDeref"
  using assms by (rule Remove_everything)

lemma vmmap_remove_everything_witness:
  "NaClVmmapRemove sample_vm 0 0x100000 = Inl NullDeref"
proof (rule vmmap_remove_everything [OF sample_vm_ok sample_region(3)])
  show "nvalid sample_vm \<noteq> 0" by (simp add: sample_vm_def)
  show "\<forall>p. page_at sample_vm p \<noteq> None \<longrightarrow> in_region 0 0x100000 p"
    by (auto simp: sample_vm_def page_at_def covers_def in_region_def)
qed

text \<open>\<open>NaClVmmapCheckExistingMapping\<close> answers whether every page of the range is mapped
  with a backing that allows the protection; it may sort the map but changes no page.\<close>

theorem vmmap_check_existing:
  assumes "access_modes_ok GetFlags" and "vm_ok self" and "region_ok pn n"
  shows "\<exists>self'. NaClVmmapCheckExistingMapping GetFlags self pn n pr =
      Inr (self', \<forall>p. in_region pn n p \<longrightarrow> (\<exists>v. page_at self p = Some v \<and> allows GetFlags pr v)) \<and>
    vm_ok self' \<and> page_at self' = page_at self \<and> other_refs self' = other_refs self"
  unfolding mapped_and_allowed_def [symmetric]
  by (rule CheckExistingMapping_result [OF assms]) blast

lemma access_modes_ok_rdwr: "access_modes_ok (\<lambda>_. O_RDWR)"
  by (simp add: access_modes_ok_def)

lemma vmmap_check_existing_witness:
  "\<exists>self'. NaClVmmapCheckExistingMapping (\<lambda>_. O_RDWR) sample_vm 0x10002 2 1 =
      Inr (self', \<forall>p. in_region 0x10002 2 p \<longrightarrow>
        (\<exists>v. page_at sample_vm p = Some v \<and> allows (\<lambda>_. O_RDWR) 1 v)) \<and>
    vm_ok self' \<and> page_at self' = page_at sample_vm \<and> other_refs self' = other_refs sample_vm"
  by (rule vmmap_check_existing [OF access_modes_ok_rdwr sample_vm_ok sample_region(1)])

text \<open> C16. \<open>NaClVmmapChangeProt\<close> succeeds exactly when every page of the range is mapped and
  allows the protection; then it sets the protection of these pages, keeps their flags and
  backing file, and leaves all other pages alone; otherwise it changes nothing.  References
  stay balanced although the call may split entries.\<close>

theorem vmmap_change_prot:
  assumes "access_modes_ok GetFlags" and "vm_ok self" and "region_ok pn n"
  shows "\<exists>self'. NaClVmmapChangeProt GetFlags self pn n pr =
      Inr (self', mapped_and_allowed GetFlags self pn n pr) \<and>
    vm_ok self' \<and> other_refs self' = other_refs self \<and>
    (if mapped_and_allowed GetFlags self pn n pr then reprotected self pn n pr self'
     else page_at self' = page_at self)"
  using ChangeProt_result [OF assms] by metis

lemma vmmap_change_prot_witness:
  "\<exists>self'. NaClVmmapChangeProt (\<lambda>_. O_RDWR) sample_vm 0x10002 2 1 =
      Inr (self', mapped_and_allowed (\<lambda>_. O_RDWR) sample_vm 0x10002 2 1) \<and>
    vm_ok self' \<and> other_refs self' = other_refs sample_vm \<and>
    (if mapped_and_allowed (\<lambda>_. O_RDWR) sample_vm 0x10002 2 1
     then reprotected sample_vm 0x10002 2 1 self' else page_at self' = page_at sample_vm)"
  by (rule vmmap_change_prot [OF access_modes_ok_rdwr sample_vm_ok sample_region(1)])

text \<open> C39. The file offset of a re-protected page is wrong exactly when its entry begins before the
  range: for such an entry the code adds the number of skipped pages, \<open>page_num - ent->page_num\<close>,
  instead of their size in bytes, so every page of the new piece is recorded 4095 bytes too low for
  each skipped page.  A page whose entry begins inside the range keeps its offset.  Everything else
  recorded for the page is right.\<close>

theorem vmmap_change_prot_offset:
  assumes "access_modes_ok GetFlags" and "vm_ok self" and "region_ok pn n"
    and "mapped_and_allowed GetFlags self pn n pr"
    and "e \<in> set (vmentry self)" and "covers e p" and "in_region pn n p"
  shows "\<exists>self' v off. NaClVmmapChangeProt GetFlags self pn n pr = Inr (self', True) \<and>
    page_at self p = Some v \<and> page_at self' p = Some (v\<lparr> pv_prot := pr, pv_offset := off \<rparr>) \<and>
    off = pv_offset v - (if page_num e < pn then 4095 * (pn - page_num e) else 0) \<and>
    (off \<noteq> pv_offset v \<longleftrightarrow> page_num e < pn)"
proof -
  obtain m where m: "NaClVmmapChangeProt GetFlags self pn n pr = Inr (m, mapped_and_allowed GetFlags self pn n pr)"
    "mapped_and_allowed GetFlags self pn n pr \<longrightarrow> reprotected_views self pn n pr m"
    by (rule ChangeProt_result [OF assms(1-3), of pr])
  have v: "page_at self p = Some (view e p)" using page_at_iff [OF assms(2)] assms(5,6) by blast
  have w: "page_at m p = Some (reprotected_view pn pr e p)"
    using m(2) assms(4-7) by (auto simp: reprotected_views_def)
  let ?off = "pv_offset (view e p) - (if page_num e < pn then 4095 * (pn - page_num e) else 0)"
  have "pv_offset (reprotected_view pn pr e p) = ?off"
    by (simp add: reprotected_view_def view_def push_bit_eq_mult algebra_simps)
  then have "reprotected_view pn pr e p = (view e p)\<lparr> pv_prot := pr, pv_offset := ?off \<rparr>"
    by (simp add: reprotected_view_def)
  moreover have "4095 * (pn - page_num e) \<noteq> 0" if "page_num e < pn"
  proof -
    have "unat pn < 2 ^ 31" using assms(3) by (simp add: region_ok_def max_pages_def unat_gt_0 [symmetric])
    then have lt: "0 < unat (pn - page_num e)" "unat (pn - page_num e) < 2 ^ 31"
      using that by (simp_all add: unat_sub word_less_nat_alt order_less_imp_le)
    then have "unat (4095 * (pn - page_num e)) = 4095 * unat (pn - page_num e)"
      by (subst unat_word_ariths) simp
    with lt(1) show ?thesis by (metis mult_is_0 neq0_conv unat_0 zero_neq_numeral)
  qed
  ultimately show ?thesis using m(1) assms(4) v w by (intro exI [of _ m] exI [of _ "view e p"] exI [of _ ?off]) simp
qed

lemma sample_protectable: "mapped_and_allowed (\<lambda>_. O_RDWR) sample_vm 0x10002 2 PROT_READ"
  by (auto simp: mapped_and_allowed_def in_region_def sample_vm_def page_at_def covers_def view_def allows_def
      view_max_prot_def)

lemma vmmap_change_prot_offset_witness:
  "\<exists>self' v off. NaClVmmapChangeProt (\<lambda>_. O_RDWR) sample_vm 0x10002 2 PROT_READ = Inr (self', True) \<and>
    page_at sample_vm 0x10002 = Some v \<and> pv_offset v = 0x2000 \<and>
    page_at self' 0x10002 = Some (v\<lparr> pv_prot := PROT_READ, pv_offset := off \<rparr>) \<and> off = 2"
proof -
  let ?e = "vmentry sample_vm ! Suc 0"
  have e: "?e \<in> set (vmentry sample_vm)" "covers ?e 0x10002" "in_region 0x10002 2 0x10002"
    and n: "page_num ?e = 0x10000"
    and v: "page_at sample_vm 0x10002 = Some (view ?e 0x10002)" "pv_offset (view ?e 0x10002) = 0x2000"
    by (simp_all add: sample_vm_def covers_def in_region_def page_at_def view_def)
  from vmmap_change_prot_offset [OF access_modes_ok_rdwr sample_vm_ok sample_region(1) sample_protectable e] v
  show ?thesis by (auto simp: n)
qed

text \<open>Lookup of a page returns the entry that maps it, or nothing for an unmapped page.\<close>

theorem vmmap_find_page:
  assumes "vm_ok self"
  shows "\<exists>self' r. NaClVmmapFindPage self pnum = Inr (self', r) \<and> found self self' \<and>
    map_option (\<lambda>e. view e (unat pnum)) r = page_at self (unat pnum)"
  using FindPage_result [OF assms] by metis

lemma vmmap_find_page_witness:
  "\<exists>self' r. NaClVmmapFindPage sample_vm 0x10002 = Inr (self', r) \<and> found sample_vm self' \<and>
    map_option (\<lambda>e. view e (unat (0x10002 :: u64))) r = page_at sample_vm (unat (0x10002 :: u64))"
  by (rule vmmap_find_page [OF sample_vm_ok])

text \<open> C18. The search for \<open>mmap\<close> returns the first page of a hole of the rounded size, aligned
  to the allocation unit, or 0 when there is no such hole between two mappings.\<close>

theorem vmmap_find_map_space:
  assumes "vm_ok self" and "n \<noteq> 0" and "unat n + 15 < 2 ^ 64"
  shows "\<exists>self' r. NaClVmmapFindMapSpace self n = Inr (self', r) \<and> found self self' \<and>
    (if r = 0 then \<not> (\<exists>q. 16 dvd q \<and> hole self q (round_up16 (unat n)))
     else 16 dvd unat r \<and> hole self (unat r) (round_up16 (unat n)))"
proof -
  obtain s r where "NaClVmmapFindMapSpace self n = Inr (s, r)" "found self s"
    "if r = 0 then \<not> (\<exists>q. 16 dvd q \<and> hole self q (round_up16 (unat n)))
      else 16 dvd unat r \<and> hole self (unat r) (round_up16 (unat n)) \<and>
        unat r + round_up16 (unat n) \<le> max_pages"
    by (rule FindMapSpace_result [OF assms]) blast
  then show ?thesis by (intro exI [of _ s] exI [of _ r]) auto
qed

lemma vmmap_find_map_space_witness:
  "\<exists>self' r. NaClVmmapFindMapSpace sample_vm 5 = Inr (self', r) \<and> found sample_vm self' \<and>
    (if r = 0 then \<not> (\<exists>q. 16 dvd q \<and> hole sample_vm q (round_up16 (unat (5 :: u64))))
     else 16 dvd unat r \<and> hole sample_vm (unat r) (round_up16 (unat (5 :: u64))))"
  by (rule vmmap_find_map_space [OF sample_vm_ok sample_sizes(1,2)])

text \<open> C19. The search from an aligned hint upwards returns an aligned hole at or above the
  hint, or 0 when there is none between two mappings.\<close>

theorem vmmap_find_map_space_above_hint:
  assumes "vm_ok self" and "n \<noteq> 0" and "unat n + 15 < 2 ^ 64" and "16 dvd unat uaddr div 4096"
  shows "\<exists>self' r. NaClVmmapFindMapSpaceAboveHint self uaddr n = Inr (self', r) \<and> found self self' \<and>
    (if r = 0
     then \<not> (\<exists>q. 16 dvd q \<and> unat uaddr div 4096 \<le> q \<and> hole self q (round_up16 (unat n)))
     else 16 dvd unat r \<and> unat uaddr div 4096 \<le> unat r \<and> hole self (unat r) (round_up16 (unat n)))"
proof -
  obtain s r where "NaClVmmapFindMapSpaceAboveHint self uaddr n = Inr (s, r)" "found self s"
    "if r = 0
      then \<not> (\<exists>q. 16 dvd q \<and> unat uaddr div 4096 \<le> q \<and> hole self q (round_up16 (unat n)))
      else 16 dvd unat r \<and> unat uaddr div 4096 \<le> unat r \<and> hole self (unat r) (round_up16 (unat n)) \<and>
        unat r + round_up16 (unat n) \<le> max_pages"
    by (rule FindMapSpaceAboveHint_result [OF assms]) blast
  then show ?thesis by (intro exI [of _ s] exI [of _ r]) auto
qed

lemma vmmap_find_map_space_above_hint_witness:
  "\<exists>self' r. NaClVmmapFindMapSpaceAboveHint sample_vm 0x10000000 5 = Inr (self', r) \<and>
    found sample_vm self' \<and>
    (if r = 0
     then \<not> (\<exists>q. 16 dvd q \<and> unat (0x10000000 :: u64) div 4096 \<le> q \<and>
       hole sample_vm q (round_up16 (unat (5 :: u64))))
     else 16 dvd unat r \<and> unat (0x10000000 :: u64) div 4096 \<le> unat r \<and>
       hole sample_vm (unat r) (round_up16 (unat (5 :: u64))))"
  by (rule vmmap_find_map_space_above_hint [OF sample_vm_ok sample_sizes])

subsection \<open>Sequences of operations\<close>

text \<open>The abstract map has each page at its right file offset; re-protection may spoil the recorded one.\<close>

datatype vm_op =
    VmOverwrite u64 u64 u32 u32 "nat option" u64 u64
  | VmRemove u64 u64
  | VmProtect u64 u64 u32

definition vm_exec :: "(nat \<Rightarrow> u32) \<Rightarrow> vm_op \<Rightarrow> NaClVmmap \<Rightarrow> NaClVmmap run" where
  "vm_exec GetFlags op self =
     (case op of
        VmOverwrite pn n pr fl d off fsz \<Rightarrow> NaClVmmapAddWithOverwrite self pn n pr fl d off fsz
      | VmRemove pn n \<Rightarrow> NaClVmmapRemove self pn n
      | VmProtect pn n pr \<Rightarrow> andThen (NaClVmmapChangeProt GetFlags self pn n pr) (\<lambda>(m, _). Inr m))"

definition spec_exec ::
  "(nat \<Rightarrow> u32) \<Rightarrow> vm_op \<Rightarrow> (nat \<Rightarrow> page_view option) \<Rightarrow> nat \<Rightarrow> page_view option" where
  "spec_exec GetFlags op S =
     (case op of
        VmOverwrite pn n pr fl d off fsz \<Rightarrow>
          (\<lambda>p. if in_region pn n p then Some (new_page pn pr fl d off fsz p) else S p)
      | VmRemove pn n \<Rightarrow> (\<lambda>p. if in_region pn n p then None else S p)
      | VmProtect pn n pr \<Rightarrow>
          if \<forall>p. in_region pn n p \<longrightarrow> (\<exists>v. S p = Some v \<and> allows GetFlags pr v)
          then (\<lambda>p. if in_region pn n p then map_option (pv_prot_update (\<lambda>_. pr)) (S p) else S p)
          else S)"

definition op_allowed :: "vm_op \<Rightarrow> (nat \<Rightarrow> page_view option) \<Rightarrow> bool" where
  "op_allowed op S \<longleftrightarrow>
     (case op of
        VmOverwrite pn n _ _ _ _ _ \<Rightarrow> region_ok pn n
      | VmRemove pn n \<Rightarrow> region_ok pn n \<and> (\<exists>p. S p \<noteq> None \<and> \<not> in_region pn n p)
      | VmProtect pn n _ \<Rightarrow> region_ok pn n)"

fun vm_run :: "(nat \<Rightarrow> u32) \<Rightarrow> vm_op list \<Rightarrow> NaClVmmap \<Rightarrow> NaClVmmap run" where
  "vm_run GetFlags [] self = Inr self"
| "vm_run GetFlags (op # ops) self = andThen (vm_exec GetFlags op self) (vm_run GetFlags ops)"

fun spec_run ::
  "(nat \<Rightarrow> u32) \<Rightarrow> vm_op list \<Rightarrow> (nat \<Rightarrow> page_view option) \<Rightarrow> nat \<Rightarrow> page_view option" where
  "spec_run GetFlags [] S = S"
| "spec_run GetFlags (op # ops) S = spec_run GetFlags ops (spec_exec GetFlags op S)"

fun ops_allowed :: "(nat \<Rightarrow> u32) \<Rightarrow> vm_op list \<Rightarrow> (nat \<Rightarrow> page_view option) \<Rightarrow> bool" where
  "ops_allowed GetFlags [] S \<longleftrightarrow> True"
| "ops_allowed GetFlags (op # ops) S \<longleftrightarrow>
     op_allowed op S \<and> ops_allowed GetFlags ops (spec_exec GetFlags op S)"

text \<open>
  The pages whose file offset may be off after a run: re-protected and not mapped anew since
  (C39 says by how much).
\<close>

fun offset_open :: "vm_op list \<Rightarrow> nat set \<Rightarrow> nat set" where
  "offset_open [] T = T"
| "offset_open (op # ops) T = offset_open ops
     (case op of
        VmOverwrite pn n _ _ _ _ _ \<Rightarrow> T - Collect (in_region pn n)
      | VmRemove pn n \<Rightarrow> T - Collect (in_region pn n)
      | VmProtect pn n _ \<Rightarrow> T \<union> Collect (in_region pn n))"

text \<open>The map has the pages of \<open>S\<close>; outside \<open>T\<close> also their file offsets.\<close>

definition tracks :: "nat set \<Rightarrow> NaClVmmap \<Rightarrow> (nat \<Rightarrow> page_view option) \<Rightarrow> bool" where
  "tracks T self S \<longleftrightarrow>
     (\<forall>p. map_option coarse (page_at self p) = map_option coarse (S p)) \<and>
     (\<forall>p. p \<notin> T \<longrightarrow> page_at self p = S p)"

lemma tracks_refl: "tracks {} self (page_at self)"
  by (simp add: tracks_def)

lemma allows_coarse: "coarse v = coarse w \<Longrightarrow> allows GetFlags pr v = allows GetFlags pr w"
proof -
  assume c: "coarse v = coarse w"
  have eq: "pv_desc v = pv_desc w" "pv_flags v = pv_flags w"
    using arg_cong [OF c, of pv_desc] arg_cong [OF c, of pv_flags] by (simp_all add: coarse_def)
  show "allows GetFlags pr v = allows GetFlags pr w"
    unfolding allows_def view_max_prot_def eq by (rule refl)
qed

lemma coarse_some:
  assumes "map_option coarse x = map_option coarse y"
  shows "x = None \<longleftrightarrow> y = None"
    and "(\<exists>v. x = Some v \<and> allows GetFlags pr v) \<longleftrightarrow> (\<exists>v. y = Some v \<and> allows GetFlags pr v)"
    and "map_option (\<lambda>v. coarse (v\<lparr> pv_prot := pr \<rparr>)) x = map_option coarse (map_option (pv_prot_update (\<lambda>_. pr)) y)"
proof -
  have c: "coarse (v\<lparr> pv_prot := pr \<rparr>) = (coarse v)\<lparr> pv_prot := pr \<rparr>" for v by (simp add: coarse_def)
  consider (none) "x = None" "y = None" | (some) v w where "x = Some v" "y = Some w" "coarse v = coarse w"
    using assms by (cases x; cases y) simp_all
  then have "(x = None \<longleftrightarrow> y = None) \<and>
    ((\<exists>v. x = Some v \<and> allows GetFlags pr v) \<longleftrightarrow> (\<exists>v. y = Some v \<and> allows GetFlags pr v)) \<and>
    map_option (\<lambda>v. coarse (v\<lparr> pv_prot := pr \<rparr>)) x = map_option coarse (map_option (pv_prot_update (\<lambda>_. pr)) y)"
  proof cases
    case some
    with allows_coarse [OF some(3), of GetFlags pr] c [of v] c [of w] show ?thesis by simp
  qed simp
  then show "x = None \<longleftrightarrow> y = None"
    "(\<exists>v. x = Some v \<and> allows GetFlags pr v) \<longleftrightarrow> (\<exists>v. y = Some v \<and> allows GetFlags pr v)"
    "map_option (\<lambda>v. coarse (v\<lparr> pv_prot := pr \<rparr>)) x = map_option coarse (map_option (pv_prot_update (\<lambda>_. pr)) y)"
    by blast+
qed

lemma vm_exec_tracks:
  assumes "access_modes_ok GetFlags" and "vm_ok self" and "op_allowed op S" and "tracks T self S"
  shows "\<exists>self'. vm_exec GetFlags op self = Inr self' \<and> vm_ok self' \<and>
    other_refs self' = other_refs self \<and> tracks (offset_open [op] T) self' (spec_exec GetFlags op S)"
proof (cases op)
  case (VmOverwrite pn n pr fl d off fsz)
  with assms(3) have "region_ok pn n" by (simp add: op_allowed_def)
  with assms(2) obtain m where "NaClVmmapAddWithOverwrite self pn n pr fl d off fsz = Inr m" "vm_ok m"
    "other_refs m = other_refs self"
    "\<And>p. page_at m p = (if in_region pn n p then Some (new_page pn pr fl d off fsz p) else page_at self p)"
    by (rule AddWithOverwrite_result) blast
  with assms(4) show ?thesis by (simp add: VmOverwrite vm_exec_def spec_exec_def tracks_def)
next
  case (VmRemove pn n)
  have "page_at self p = None \<longleftrightarrow> S p = None" for p
    using coarse_some(1) assms(4) unfolding tracks_def by blast
  with assms(3) have "region_ok pn n" "\<exists>p. page_at self p \<noteq> None \<and> \<not> in_region pn n p"
    by (auto simp: VmRemove op_allowed_def)
  with assms(2) obtain m where "NaClVmmapRemove self pn n = Inr m" "vm_ok m"
    "other_refs m = other_refs self"
    "\<And>p. page_at m p = (if in_region pn n p then None else page_at self p)"
    by (rule Remove_result) blast
  with assms(4) show ?thesis by (simp add: VmRemove vm_exec_def spec_exec_def tracks_def)
next
  case (VmProtect pn n pr)
  with assms(3) have "region_ok pn n" by (simp add: op_allowed_def)
  with assms(1,2) obtain m where m: "NaClVmmapChangeProt GetFlags self pn n pr =
      Inr (m, mapped_and_allowed GetFlags self pn n pr)" "vm_ok m" "other_refs m = other_refs self"
    "if mapped_and_allowed GetFlags self pn n pr then reprotected self pn n pr m
     else page_at m = page_at self"
    by (rule ChangeProt_result) blast
  have c: "map_option coarse (page_at self p) = map_option coarse (S p)" for p
    using assms(4) by (simp add: tracks_def)
  have yes: "mapped_and_allowed GetFlags self pn n pr \<longleftrightarrow>
      (\<forall>p. in_region pn n p \<longrightarrow> (\<exists>v. S p = Some v \<and> allows GetFlags pr v))"
    unfolding mapped_and_allowed_def coarse_some(2) [OF c] ..
  have "tracks (T \<union> Collect (in_region pn n)) m (spec_exec GetFlags op S)"
  proof (cases "mapped_and_allowed GetFlags self pn n pr")
    case True
    then have "spec_exec GetFlags op S =
        (\<lambda>p. if in_region pn n p then map_option (pv_prot_update (\<lambda>_. pr)) (S p) else S p)"
      unfolding yes by (simp add: VmProtect spec_exec_def)
    with m(4) True assms(4) show ?thesis
      by (simp add: tracks_def reprotected_def coarse_some(3) [OF c] c)
  next
    case False
    then have "spec_exec GetFlags op S = S"
      unfolding yes by (simp only: VmProtect spec_exec_def vm_op.case if_False)
    with m(4) False assms(4) show ?thesis by (simp add: tracks_def)
  qed
  with m show ?thesis by (simp add: VmProtect vm_exec_def)
qed

lemma vm_run_tracks:
  assumes "access_modes_ok GetFlags" and "vm_ok self" and "ops_allowed GetFlags ops S" and "tracks T self S"
  shows "\<exists>self'. vm_run GetFlags ops self = Inr self' \<and> vm_ok self' \<and>
    other_refs self' = other_refs self \<and> tracks (offset_open ops T) self' (spec_run GetFlags ops S)"
  using assms(2-)
proof (induction ops arbitrary: self S T)
  case (Cons op ops)
  then obtain m where "vm_exec GetFlags op self = Inr m" "vm_ok m" "other_refs m = other_refs self"
    "tracks (offset_open [op] T) m (spec_exec GetFlags op S)"
    using vm_exec_tracks [OF assms(1), of self op S T] by auto
  with Cons.IH [of m "spec_exec GetFlags op S" "offset_open [op] T"] Cons.prems(2) show ?case by simp
qed simp

text \<open> C9. Any sequence of overwrites, removals and re-protections of non-empty ranges, none of
  which removes the last mapped page, runs without a failure and leaves the map with the pages that
  the partial function from pages to mappings has after the same sequence: which pages are mapped,
  their protection, flags, backing file and its size, and their file offset, the latter except for
  pages that were re-protected and not mapped anew since (there C39 says what the code records).
  The entries stay disjoint and the descriptor references balanced throughout.\<close>

theorem vmmap_trace_refines:
  assumes "access_modes_ok GetFlags" and "vm_ok self" and "ops_allowed GetFlags ops (page_at self)"
  shows "\<exists>self'. vm_run GetFlags ops self = Inr self' \<and> vm_ok self' \<and> other_refs self' = other_refs self \<and>
    (\<forall>p. map_option coarse (page_at self' p) = map_option coarse (spec_run GetFlags ops (page_at self) p)) \<and>
    (\<forall>p. p \<notin> offset_open ops {} \<longrightarrow> page_at self' p = spec_run GetFlags ops (page_at self) p)"
  using vm_run_tracks [OF assms tracks_refl] unfolding tracks_def .

definition sample_ops :: "vm_op list" where
  "sample_ops = [VmProtect 0x10002 2 1, VmRemove 0x10002 2, VmOverwrite 0x20000 4 3 2 (Some 7) 0x1000 0]"

lemma sample_ops_allowed: "ops_allowed (\<lambda>_. O_RDWR) sample_ops (page_at sample_vm)"
proof -
  have "spec_exec (\<lambda>_. O_RDWR) (VmProtect 0x10002 2 1) S 0 = S 0" for S
    by (simp add: spec_exec_def in_region_def)
  then have "\<exists>p. spec_exec (\<lambda>_. O_RDWR) (VmProtect 0x10002 2 1) (page_at sample_vm) p \<noteq> None \<and>
      \<not> in_region 0x10002 2 p"
    using sample_mapped by metis
  then show ?thesis using sample_region by (simp add: sample_ops_def op_allowed_def)
qed

lemma vmmap_trace_refines_witness:
  "\<exists>self'. vm_run (\<lambda>_. O_RDWR) sample_ops sample_vm = Inr self' \<and> vm_ok self' \<and>
    other_refs self' = other_refs sample_vm \<and> page_at self' 0x10002 = None \<and>
    map_option pv_offset (page_at self' 0x20001) = Some 0x2000"
proof -
  from vmmap_trace_refines [OF access_modes_ok_rdwr sample_vm_ok sample_ops_allowed]
  obtain m where m: "vm_run (\<lambda>_. O_RDWR) sample_ops sample_vm = Inr m" "vm_ok m" "other_refs m = other_refs sample_vm"
    and exact: "p \<notin> offset_open sample_ops {} \<Longrightarrow> page_at m p = spec_run (\<lambda>_. O_RDWR) sample_ops (page_at sample_vm) p" for p
    by blast
  have "page_at m 0x10002 = None" "map_option pv_offset (page_at m 0x20001) = Some 0x2000"
    by (subst exact; simp add: sample_ops_def in_region_def spec_exec_def new_page_def)+
  with m show ?thesis by blast
qed

subsection \<open>Erasing through an iterator\<close>

text \<open> C40. \<open>NaClVmmapIterErase\<close> unmaps the pages of its entry, but frees the entry without
  dropping the entry's reference to its backing descriptor: a file-backed entry that is erased
  leaks one reference.\<close>

theorem vmmap_iter_erase_leaks:
  assumes "vm_ok self" and "ix < nvalid self" and "desc (vmentry self ! ix) = Some d"
  shows "\<exists>self'. NaClVmmapIterErase self ix = Inr self' \<and>
    (\<forall>p. page_at self' p = (if covers (vmentry self ! ix) p then None else page_at self p)) \<and>
    other_refs self' d = other_refs self d + 1"
proof -
  let ?es = "vmentry self" and ?e = "vmentry self ! ix"
  let ?rest = "butlast (?es[ix := last ?es])"
  let ?m = "self\<lparr> vmentry := ?rest, is_sorted := False \<rparr>"
  have run: "NaClVmmapIterErase self ix = Inr ?m" using assms(2) by (simp add: NaClVmmapIterErase_def)
  obtain xs x where es: "?es = xs @ [x]" using assms(2) by (cases ?es rule: rev_cases) auto
  have ms: "mset ?es = add_mset ?e (mset ?rest)"
  proof (cases "ix = length xs")
    case True
    then show ?thesis by (simp add: es)
  next
    case False
    with assms(2) have ix: "ix < length xs" by (simp add: es)
    then have e: "?e = xs ! ix" by (simp add: es nth_append)
    have "mset (xs[ix := x]) + {#xs ! ix#} = mset xs + {#x#}" by (rule mset_update_same [OF ix])
    then show ?thesis using ix e by (simp add: es list_update_append)
  qed
  have len: "length ?rest \<le> vm_size self" "0 < vm_size self" using assms(1) by (auto simp: vm_ok_def)
  have sub: "set ?rest \<subseteq> set ?es"
    using ms by (metis set_mset_mset set_mset_mono mset_subset_eq_add_right add_mset_add_single union_commute)
  have vi: "views (mset ?es) p = (if covers ?e p then {#view ?e p#} else {#}) + views (mset ?rest) p" for p
    unfolding ms by simp
  have sz: "size (views (mset ?es) p) \<le> 1" for p using assms(1) by (simp add: vm_ok_def)
  have ok: "vm_ok ?m"
  proof -
    have "size (views (mset ?rest) p) \<le> 1" for p using sz [of p] unfolding vi by simp
    with assms(1) sub len show ?thesis by (auto simp: vm_ok_def)
  qed
  have "page_at ?m p = (if covers ?e p then None else page_at self p)" for p
  proof (cases "covers ?e p")
    case True
    with sz [of p] have "views (mset ?rest) p = {#}" unfolding vi by simp
    with True show ?thesis using page_at_None [of ?m p] by simp
  next
    case False
    then show ?thesis using vi [of p] by (simp add: page_at_views [OF assms(1) ok])
  qed
  moreover have "other_refs ?m d = other_refs self d + 1"
    unfolding other_refs_def ms using assms(3) by simp
  ultimately show ?thesis using run by blast
qed

lemma vmmap_iter_erase_leaks_witness:
  "\<exists>self'. NaClVmmapIterErase sample_vm 1 = Inr self' \<and>
    (\<forall>p. page_at self' p = (if covers (vmentry sample_vm ! 1) p then None else page_at sample_vm p)) \<and>
    other_refs self' 7 = other_refs sample_vm 7 + 1"
  by (rule vmmap_iter_erase_leaks [OF sample_vm_ok]) (simp_all add: sample_vm_def)

end
