(* ===== verification/Interval_Multiset.thy ===== *)
theory Interval_Multiset
  imports Nacl_Prelude
begin

text \<open>
  The interval multiset interface of \<open>nacl_interval_multiset.h\<close> and its linked-list
  implementation \<open>nacl_interval_list.c\<close>.

  The interface is a C vtable (constructor, \<open>AddInterval\<close>, \<open>RemoveInterval\<close>,
  \<open>OverlapsWith\<close>) with a contract in its comments.  Here it is the locale
  \<open>interval_multiset\<close> over the four operations and a relation between an implementation
  state and the multiset of closed intervals it stands for.  What every client sees follows
  once, inside the locale; the list is the first interpretation, the range tree of
  \<open>Range_Tree\<close> is the second.
\<close>

type_synonym interval = "u32 \<times> u32"

text \<open>The answer that the contract of \<open>OverlapsWith\<close> promises.\<close>

definition overlaps_spec :: "interval multiset \<Rightarrow> u32 \<Rightarrow> u32 \<Rightarrow> bool" where
  "overlaps_spec M first_val last_val \<longleftrightarrow>
     (\<exists>x \<in># M. fst x \<le> last_val \<and> first_val \<le> snd x)"

text \<open>
  A counter of the tree may wrap when more than \<open>2^31\<close> intervals are stored, so the
  contract is about fewer.
\<close>

definition max_intervals :: nat where
  "max_intervals = 2 ^ 31"

lemma overlaps_spec_empty [simp]: "\<not> overlaps_spec {#} a b"
  by (simp add: overlaps_spec_def)

lemma overlaps_spec_add [simp]:
  "overlaps_spec (add_mset (f, l) M) a b \<longleftrightarrow> (f \<le> b \<and> a \<le> l) \<or> overlaps_spec M a b"
  by (auto simp: overlaps_spec_def)

subsection \<open>Client operations and their run\<close>

datatype im_op =
    OpAdd u32 u32
  | OpRemove u32 u32
  | OpOverlaps u32 u32

text \<open>
  A client may add an interval with ordered ends, remove one that is present, and probe with
  ordered ends: \<open>im_next\<close> is the multiset after an operation, \<open>im_allowed\<close> the
  precondition.
\<close>

fun im_allowed :: "interval multiset \<Rightarrow> im_op \<Rightarrow> bool" where
  "im_allowed M (OpAdd f l) = (f \<le> l \<and> Suc (size M) < max_intervals)"
| "im_allowed M (OpRemove f l) = ((f, l) \<in># M)"
| "im_allowed M (OpOverlaps f l) = (f \<le> l)"

fun im_next :: "interval multiset \<Rightarrow> im_op \<Rightarrow> interval multiset" where
  "im_next M (OpAdd f l) = add_mset (f, l) M"
| "im_next M (OpRemove f l) = M - {#(f, l)#}"
| "im_next M (OpOverlaps f l) = M"

fun im_trace_ok :: "interval multiset \<Rightarrow> im_op list \<Rightarrow> bool" where
  "im_trace_ok M [] = True"
| "im_trace_ok M (p # ps) = (im_allowed M p \<and> im_trace_ok (im_next M p) ps)"

text \<open>The answers of the contract along a trace, one per probe.\<close>

fun im_answers :: "interval multiset \<Rightarrow> im_op list \<Rightarrow> bool list" where
  "im_answers M [] = []"
| "im_answers M (p # ps) =
     (case p of
        OpOverlaps f l \<Rightarrow> overlaps_spec M f l # im_answers M ps
      | _ \<Rightarrow> im_answers (im_next M p) ps)"

text \<open>The same trace on an implementation given by its operations.\<close>

fun im_run ::
  "('s \<Rightarrow> u32 \<Rightarrow> u32 \<Rightarrow> 's run) \<Rightarrow> ('s \<Rightarrow> u32 \<Rightarrow> u32 \<Rightarrow> 's run) \<Rightarrow> ('s \<Rightarrow> u32 \<Rightarrow> u32 \<Rightarrow> bool) \<Rightarrow>
   's \<Rightarrow> im_op list \<Rightarrow> (bool list) run" where
  "im_run add rem ovl s [] = Inr []"
| "im_run add rem ovl s (p # ps) =
     (case p of
        OpAdd f l \<Rightarrow> andThen (add s f l) (\<lambda>s'. im_run add rem ovl s' ps)
      | OpRemove f l \<Rightarrow> andThen (rem s f l) (\<lambda>s'. im_run add rem ovl s' ps)
      | OpOverlaps f l \<Rightarrow>
          andThen (im_run add rem ovl s ps) (\<lambda>rs. Inr (ovl s f l # rs)))"

text \<open>The multiset and the implementation that a trace leaves.\<close>

fun im_left :: "interval multiset \<Rightarrow> im_op list \<Rightarrow> interval multiset" where
  "im_left M [] = M"
| "im_left M (p # ps) = im_left (im_next M p) ps"

fun im_final ::
  "('s \<Rightarrow> u32 \<Rightarrow> u32 \<Rightarrow> 's run) \<Rightarrow> ('s \<Rightarrow> u32 \<Rightarrow> u32 \<Rightarrow> 's run) \<Rightarrow> 's \<Rightarrow> im_op list \<Rightarrow> 's run" where
  "im_final add rem s [] = Inr s"
| "im_final add rem s (p # ps) =
     (case p of
        OpAdd f l \<Rightarrow> andThen (add s f l) (\<lambda>s'. im_final add rem s' ps)
      | OpRemove f l \<Rightarrow> andThen (rem s f l) (\<lambda>s'. im_final add rem s' ps)
      | OpOverlaps f l \<Rightarrow> im_final add rem s ps)"

subsection \<open>The interface\<close>

locale interval_multiset =
  fixes ctor :: "'s"
    and add :: "'s \<Rightarrow> u32 \<Rightarrow> u32 \<Rightarrow> 's run"
    and rem :: "'s \<Rightarrow> u32 \<Rightarrow> u32 \<Rightarrow> 's run"
    and ovl :: "'s \<Rightarrow> u32 \<Rightarrow> u32 \<Rightarrow> bool"
    and stands_for :: "'s \<Rightarrow> interval multiset \<Rightarrow> bool"
  assumes ctor_ok: "stands_for ctor {#}"
    and add_ok: "\<lbrakk>stands_for s M; f \<le> l; Suc (size M) < max_intervals\<rbrakk> \<Longrightarrow>
        \<exists>s'. add s f l = Inr s' \<and> stands_for s' (add_mset (f, l) M)"
    and rem_ok: "\<lbrakk>stands_for s M; (f, l) \<in># M\<rbrakk> \<Longrightarrow>
        \<exists>s'. rem s f l = Inr s' \<and> stands_for s' (M - {#(f, l)#})"
    and ovl_ok: "\<lbrakk>stands_for s M; f \<le> l\<rbrakk> \<Longrightarrow> ovl s f l = overlaps_spec M f l"
begin

lemma run_answers:
  "stands_for s M \<Longrightarrow> im_trace_ok M ps \<Longrightarrow> im_run add rem ovl s ps = Inr (im_answers M ps)"
proof (induction ps arbitrary: s M)
  case Nil
  then show ?case by simp
next
  case (Cons p ps)
  show ?case
  proof (cases p)
    case (OpAdd f l)
    with Cons.prems add_ok obtain s' where "add s f l = Inr s'" "stands_for s' (add_mset (f, l) M)"
      by fastforce
    with OpAdd Cons show ?thesis by simp
  next
    case (OpRemove f l)
    with Cons.prems rem_ok obtain s' where "rem s f l = Inr s'" "stands_for s' (M - {#(f, l)#})"
      by fastforce
    with OpRemove Cons show ?thesis by simp
  next
    case (OpOverlaps f l)
    with Cons show ?thesis by (simp add: ovl_ok)
  qed
qed

corollary fresh_run_answers:
  "im_trace_ok {#} ps \<Longrightarrow> im_run add rem ovl ctor ps = Inr (im_answers {#} ps)"
  using ctor_ok run_answers by blast

lemma run_final:
  "stands_for s M \<Longrightarrow> im_trace_ok M ps \<Longrightarrow> \<exists>s'. im_final add rem s ps = Inr s' \<and> stands_for s' (im_left M ps)"
proof (induction ps arbitrary: s M)
  case (Cons p ps)
  show ?case
  proof (cases p)
    case (OpAdd f l)
    with Cons.prems add_ok obtain s' where "add s f l = Inr s'" "stands_for s' (add_mset (f, l) M)"
      by fastforce
    with OpAdd Cons show ?thesis by simp
  next
    case (OpRemove f l)
    with Cons.prems rem_ok obtain s' where "rem s f l = Inr s'" "stands_for s' (M - {#(f, l)#})"
      by fastforce
    with OpRemove Cons show ?thesis by simp
  next
    case (OpOverlaps f l)
    with Cons show ?thesis by simp
  qed
qed simp

end

subsection \<open>The linked list (nacl_interval_list.c)\<close>

text \<open>
  A list node holds \<open>range_left\<close> and \<open>range_right\<close>; the list is the value of
  \<open>self->intervals\<close>, its head the node the field points to.
\<close>

record NaClIntervalNode =
  node_left :: u32
  node_right :: u32

type_synonym NaClIntervalListMultiset = "NaClIntervalNode list"

definition NaClIntervalListMultisetCtor :: NaClIntervalListMultiset where
  "NaClIntervalListMultisetCtor = []"

definition NaClIntervalListMultisetAddInterval ::
  "NaClIntervalListMultiset \<Rightarrow> u32 \<Rightarrow> u32 \<Rightarrow> NaClIntervalListMultiset run" where
  "NaClIntervalListMultisetAddInterval self first_val last_val =
     Inr (\<lparr>node_left = first_val, node_right = last_val\<rparr> # self)"

text \<open>The loop unlinks the first matching node; falling off the end is fatal.\<close>

fun NaClIntervalListMultisetRemoveInterval ::
  "NaClIntervalListMultiset \<Rightarrow> u32 \<Rightarrow> u32 \<Rightarrow> NaClIntervalListMultiset run" where
  "NaClIntervalListMultisetRemoveInterval [] first_val last_val = Inl LogFatal"
| "NaClIntervalListMultisetRemoveInterval (p # ps) first_val last_val =
     (if node_left p = first_val \<and> last_val = node_right p then Inr ps
      else andThen (NaClIntervalListMultisetRemoveInterval ps first_val last_val)
             (\<lambda>ps'. Inr (p # ps')))"

fun NaClIntervalListMultisetOverlapsWith ::
  "NaClIntervalListMultiset \<Rightarrow> u32 \<Rightarrow> u32 \<Rightarrow> bool" where
  "NaClIntervalListMultisetOverlapsWith [] first_val last_val = False"
| "NaClIntervalListMultisetOverlapsWith (p # ps) first_val last_val =
     (if node_left p \<le> last_val \<and> first_val \<le> node_right p then True
      else NaClIntervalListMultisetOverlapsWith ps first_val last_val)"

definition node_interval :: "NaClIntervalNode \<Rightarrow> interval" where
  "node_interval p = (node_left p, node_right p)"

definition list_stands_for :: "NaClIntervalListMultiset \<Rightarrow> interval multiset \<Rightarrow> bool" where
  "list_stands_for self M \<longleftrightarrow> image_mset node_interval (mset self) = M"

lemma list_overlaps:
  "NaClIntervalListMultisetOverlapsWith self f l =
     overlaps_spec (image_mset node_interval (mset self)) f l"
  by (induction self) (auto simp: node_interval_def)

lemma list_remove:
  "(f, l) \<in># image_mset node_interval (mset self) \<Longrightarrow>
   \<exists>self'. NaClIntervalListMultisetRemoveInterval self f l = Inr self' \<and>
     image_mset node_interval (mset self') = image_mset node_interval (mset self) - {#(f, l)#}"
proof (induction self)
  case Nil
  then show ?case by simp
next
  case (Cons p ps)
  show ?case
  proof (cases "node_interval p = (f, l)")
    case True
    then show ?thesis by (auto simp: node_interval_def)
  next
    case False
    with Cons.prems have "(f, l) \<in># image_mset node_interval (mset ps)" by auto
    from Cons.IH [OF this] obtain ps' where ps':
      "NaClIntervalListMultisetRemoveInterval ps f l = Inr ps'"
      "image_mset node_interval (mset ps') = image_mset node_interval (mset ps) - {#(f, l)#}"
      by blast
    from False have "\<not> (node_left p = f \<and> l = node_right p)"
      by (auto simp: node_interval_def)
    with ps' False show ?thesis by (auto simp: diff_add_mset_swap)
  qed
qed

lemma list_remove_absent:
  "(f, l) \<notin># image_mset node_interval (mset self) \<Longrightarrow>
   NaClIntervalListMultisetRemoveInterval self f l = Inl LogFatal"
  by (induction self) (auto simp: node_interval_def)

interpretation list_im: interval_multiset
  NaClIntervalListMultisetCtor NaClIntervalListMultisetAddInterval
  NaClIntervalListMultisetRemoveInterval NaClIntervalListMultisetOverlapsWith list_stands_for
proof
  show "list_stands_for NaClIntervalListMultisetCtor {#}"
    by (simp add: list_stands_for_def NaClIntervalListMultisetCtor_def)
next
  fix s M and f l :: u32
  assume "list_stands_for s M"
  then show "\<exists>s'. NaClIntervalListMultisetAddInterval s f l = Inr s' \<and>
      list_stands_for s' (add_mset (f, l) M)"
    by (simp add: list_stands_for_def NaClIntervalListMultisetAddInterval_def node_interval_def)
next
  fix s M and f l :: u32
  assume "list_stands_for s M" and "(f, l) \<in># M"
  then show "\<exists>s'. NaClIntervalListMultisetRemoveInterval s f l = Inr s' \<and>
      list_stands_for s' (M - {#(f, l)#})"
    using list_remove by (auto simp: list_stands_for_def)
next
  fix s M and f l :: u32
  assume "list_stands_for s M"
  then show "NaClIntervalListMultisetOverlapsWith s f l = overlaps_spec M f l"
    by (simp add: list_stands_for_def list_overlaps)
qed

end
