(* ===== verification/Range_Tree.thy ===== *)
theory Range_Tree
  imports Interval_Multiset
begin

text \<open>
  The AVL range tree \<open>nacl_interval_range_tree.c\<close>: its node type, insertion with the four
  rotations, extraction with rebalancing, the search for a value and the operations of the
  interval multiset vtable.  \<open>Range_Tree_Proofs\<close> has the invariants and the refinement.

  A \<open>struct NaClIntervalRangeTreeNode *\<close> is a value of \<open>rtree\<close>: \<open>NULL\<close>, or a node with
  its two child pointers and its other fields in the record \<open>rtnode\<close>.  The tree owns its
  nodes and no node is shared, so an update through \<open>*treep\<close> is a new value of the tree.
  A dereference of a child pointer that could be \<open>NULL\<close> is the outcome \<open>NullDeref\<close>.
\<close>

subsection \<open>Nodes\<close>

record rtnode =
  balance :: int
  rt_value :: u32
  value_containment_delta :: u32
  refcount :: u32
  range_left :: u32
  range_right :: u32
  subtree_containment_delta :: u32

datatype rtree = NULL | Node (rt_left: rtree) (rt_node: rtnode) (rt_right: rtree)

definition NaClIntervalRangeTreeNodeInit :: "u32 \<Rightarrow> u32 \<Rightarrow> rtnode" where
  "NaClIntervalRangeTreeNodeInit v lr =
     \<lparr>balance = 0, rt_value = v, value_containment_delta = lr, refcount = 1,
      range_left = v, range_right = v, subtree_containment_delta = lr\<rparr>"

text \<open>
  \<open>NaClRangeStatsUpdate\<close> on a node and its two children; its caller guarantees that the
  node is not \<open>NULL\<close>.
\<close>

definition stats_left :: "rtree \<Rightarrow> u32 \<Rightarrow> u32" where
  "stats_left l v = (case l of NULL \<Rightarrow> v | Node _ n _ \<Rightarrow> range_left n)"

definition stats_right :: "rtree \<Rightarrow> u32 \<Rightarrow> u32" where
  "stats_right r v = (case r of NULL \<Rightarrow> v | Node _ n _ \<Rightarrow> range_right n)"

definition stats_delta :: "rtree \<Rightarrow> u32" where
  "stats_delta t = (case t of NULL \<Rightarrow> 0 | Node _ n _ \<Rightarrow> subtree_containment_delta n)"

definition NaClRangeStatsUpdate :: "rtree \<Rightarrow> rtnode \<Rightarrow> rtree \<Rightarrow> rtree" where
  "NaClRangeStatsUpdate l n r =
     Node l (n\<lparr>range_left := stats_left l (rt_value n),
               range_right := stats_right r (rt_value n),
               subtree_containment_delta :=
                 value_containment_delta n + stats_delta l + stats_delta r\<rparr>) r"

subsection \<open>Insertion\<close>

text \<open>The pivot of an insertion into the left subtree, when the balance became \<open>-2\<close>.\<close>

fun insert_pivot_left :: "rtree \<Rightarrow> rtnode \<Rightarrow> rtree \<Rightarrow> rtree run" where
  "insert_pivot_left NULL n r = Inl NullDeref"
| "insert_pivot_left (Node a b c) d e =
     (if balance b = -1
      then Inr (NaClRangeStatsUpdate a (b\<lparr>balance := 0\<rparr>)
                  (NaClRangeStatsUpdate c (d\<lparr>balance := 0\<rparr>) e))
      else case c of
             NULL \<Rightarrow> Inl NullDeref
           | Node c1 m c2 \<Rightarrow>
               Inr (NaClRangeStatsUpdate
                      (NaClRangeStatsUpdate a
                         (b\<lparr>balance := (if balance m \<le> 0 then 0 else -1)\<rparr>) c1)
                      (m\<lparr>balance := 0\<rparr>)
                      (NaClRangeStatsUpdate c2
                         (d\<lparr>balance := (if balance m \<ge> 0 then 0 else 1)\<rparr>) e)))"

text \<open>The pivot of an insertion into the right subtree, when the balance became \<open>2\<close>.\<close>

fun insert_pivot_right :: "rtree \<Rightarrow> rtnode \<Rightarrow> rtree \<Rightarrow> rtree run" where
  "insert_pivot_right l n NULL = Inl NullDeref"
| "insert_pivot_right a b (Node c d e) =
     (if balance d = 1
      then Inr (NaClRangeStatsUpdate (NaClRangeStatsUpdate a (b\<lparr>balance := 0\<rparr>) c)
                  (d\<lparr>balance := 0\<rparr>) e)
      else case c of
             NULL \<Rightarrow> Inl NullDeref
           | Node c1 m c2 \<Rightarrow>
               Inr (NaClRangeStatsUpdate
                      (NaClRangeStatsUpdate a
                         (b\<lparr>balance := (if balance m \<le> 0 then 0 else -1)\<rparr>) c1)
                      (m\<lparr>balance := 0\<rparr>)
                      (NaClRangeStatsUpdate c2
                         (d\<lparr>balance := (if balance m \<ge> 0 then 0 else 1)\<rparr>) e)))"

text \<open>
  \<open>NaClAvlTreeInsert\<close> returns the new tree and whether its height grew.  A node with the
  value of an existing one is merged into it and freed.
\<close>

fun NaClAvlTreeInsert :: "rtree \<Rightarrow> rtnode \<Rightarrow> (rtree \<times> bool) run" where
  "NaClAvlTreeInsert NULL node = Inr (Node NULL node NULL, True)"
| "NaClAvlTreeInsert (Node l tmp r) node =
     (if rt_value node = rt_value tmp then
        Inr (Node l (tmp\<lparr>value_containment_delta :=
                           value_containment_delta tmp + value_containment_delta node,
                         subtree_containment_delta :=
                           subtree_containment_delta tmp + value_containment_delta node,
                         refcount := refcount tmp + 1\<rparr>) r, False)
      else if rt_value node < rt_value tmp then
        andThen (NaClAvlTreeInsert l node) (\<lambda>(l', higher).
          if \<not> higher then Inr (NaClRangeStatsUpdate l' tmp r, False)
          else let tmp' = tmp\<lparr>balance := balance tmp - 1\<rparr> in
            if balance tmp' = 0 then Inr (NaClRangeStatsUpdate l' tmp' r, False)
            else if balance tmp' = -1 then Inr (NaClRangeStatsUpdate l' tmp' r, True)
            else andThen (insert_pivot_left l' tmp' r) (\<lambda>t. Inr (t, False)))
      else
        andThen (NaClAvlTreeInsert r node) (\<lambda>(r', higher).
          if \<not> higher then Inr (NaClRangeStatsUpdate l tmp r', False)
          else let tmp' = tmp\<lparr>balance := balance tmp + 1\<rparr> in
            if balance tmp' = 0 then Inr (NaClRangeStatsUpdate l tmp' r', False)
            else if balance tmp' = 1 then Inr (NaClRangeStatsUpdate l tmp' r', True)
            else andThen (insert_pivot_right l tmp' r') (\<lambda>t. Inr (t, False))))"

subsection \<open>Extraction\<close>

text \<open>
  \<open>NaClAvlTreeBalanceLeft\<close>: the left subtree of \<open>*treep\<close> (given by its children and
  its node) shrank.  The result is the new \<open>*treep\<close> and the new \<open>*height_changed\<close>, which
  is 1 on entry.
\<close>

fun NaClAvlTreeBalanceLeft :: "rtree \<Rightarrow> (rtree \<times> bool) run" where
  "NaClAvlTreeBalanceLeft NULL = Inl NullDeref"
| "NaClAvlTreeBalanceLeft (Node a b0 t) =
     (let b = b0\<lparr>balance := balance b0 + 1\<rparr> in
      if balance b = 0 then Inr (Node a b t, True)
      else if balance b = 1 then Inr (Node a b t, False)
      else case t of
        NULL \<Rightarrow> Inl NullDeref
      | Node c d e \<Rightarrow>
          (if balance d \<ge> 0 then
             (if balance d = 0
              then Inr (NaClRangeStatsUpdate (NaClRangeStatsUpdate a (b\<lparr>balance := 1\<rparr>) c)
                          (d\<lparr>balance := -1\<rparr>) e, False)
              else Inr (NaClRangeStatsUpdate (NaClRangeStatsUpdate a (b\<lparr>balance := 0\<rparr>) c)
                          (d\<lparr>balance := 0\<rparr>) e, True))
           else case c of
             NULL \<Rightarrow> Inl NullDeref
           | Node c1 m c2 \<Rightarrow>
               Inr (NaClRangeStatsUpdate
                      (NaClRangeStatsUpdate a
                         (b\<lparr>balance := (if balance m > 0 then -1 else 0)\<rparr>) c1)
                      (m\<lparr>balance := 0\<rparr>)
                      (NaClRangeStatsUpdate c2
                         (d\<lparr>balance := (if balance m < 0 then 1 else 0)\<rparr>) e), True)))"

fun NaClAvlTreeBalanceRight :: "rtree \<Rightarrow> (rtree \<times> bool) run" where
  "NaClAvlTreeBalanceRight NULL = Inl NullDeref"
| "NaClAvlTreeBalanceRight (Node t d0 e) =
     (let d = d0\<lparr>balance := balance d0 - 1\<rparr> in
      if balance d = 0 then Inr (Node t d e, True)
      else if balance d = -1 then Inr (Node t d e, False)
      else case t of
        NULL \<Rightarrow> Inl NullDeref
      | Node a b c \<Rightarrow>
          (if balance b \<le> 0 then
             (if balance b = 0
              then Inr (NaClRangeStatsUpdate a (b\<lparr>balance := 1\<rparr>)
                          (NaClRangeStatsUpdate c (d\<lparr>balance := -1\<rparr>) e), False)
              else Inr (NaClRangeStatsUpdate a (b\<lparr>balance := 0\<rparr>)
                          (NaClRangeStatsUpdate c (d\<lparr>balance := 0\<rparr>) e), True))
           else case c of
             NULL \<Rightarrow> Inl NullDeref
           | Node c1 m c2 \<Rightarrow>
               Inr (NaClRangeStatsUpdate
                      (NaClRangeStatsUpdate a
                         (b\<lparr>balance := (if balance m > 0 then -1 else 0)\<rparr>) c1)
                      (m\<lparr>balance := 0\<rparr>)
                      (NaClRangeStatsUpdate c2
                         (d\<lparr>balance := (if balance m < 0 then 1 else 0)\<rparr>) e), True)))"

text \<open>
  \<open>if (*height_changed) NaClAvlTreeBalanceLeft(treep, height_changed)\<close>: the guarded
  call of the four callers.
\<close>

definition balance_left_if :: "bool \<Rightarrow> rtree \<Rightarrow> (rtree \<times> bool) run" where
  "balance_left_if h t = (if h then NaClAvlTreeBalanceLeft t else Inr (t, h))"

definition balance_right_if :: "bool \<Rightarrow> rtree \<Rightarrow> (rtree \<times> bool) run" where
  "balance_right_if h t = (if h then NaClAvlTreeBalanceRight t else Inr (t, h))"

text \<open>
  \<open>NaClAvlFindRightMost\<close> unlinks the rightmost node: the result is the node, the tree
  that is left, and \<open>*height_changed\<close>.
\<close>

fun NaClAvlFindRightMost :: "rtree \<Rightarrow> (rtnode \<times> rtree \<times> bool) run" where
  "NaClAvlFindRightMost NULL = Inl NullDeref"
| "NaClAvlFindRightMost (Node l n NULL) = Inr (n, l, True)"
| "NaClAvlFindRightMost (Node l n (Node rl rn rr)) =
     andThen (NaClAvlFindRightMost (Node rl rn rr)) (\<lambda>(tmp, r', h).
       andThen (balance_right_if h (NaClRangeStatsUpdate l n r')) (\<lambda>(t', h').
         Inr (tmp, t', h')))"

fun NaClAvlFindLeftMost :: "rtree \<Rightarrow> (rtnode \<times> rtree \<times> bool) run" where
  "NaClAvlFindLeftMost NULL = Inl NullDeref"
| "NaClAvlFindLeftMost (Node NULL n r) = Inr (n, r, True)"
| "NaClAvlFindLeftMost (Node (Node ll ln lr) n r) =
     andThen (NaClAvlFindLeftMost (Node ll ln lr)) (\<lambda>(tmp, l', h).
       andThen (balance_left_if h (NaClRangeStatsUpdate l' n r)) (\<lambda>(t', h').
         Inr (tmp, t', h')))"

text \<open>
  \<open>NaClAvlTreeExtract\<close>: one reference less to the node with the key's value; the last
  one unlinks the node, which is then the result.  \<open>h\<close> is \<open>*height_changed\<close> on entry.
\<close>

fun NaClAvlTreeExtract :: "rtree \<Rightarrow> rtnode \<Rightarrow> bool \<Rightarrow> (rtree \<times> rtnode option \<times> bool) run" where
  "NaClAvlTreeExtract NULL key h = Inl LogFatal"
| "NaClAvlTreeExtract (Node l n r) key h =
     (if rt_value key < rt_value n then
        andThen (NaClAvlTreeExtract l key h) (\<lambda>(l', p, h1).
          andThen (balance_left_if h1 (NaClRangeStatsUpdate l' n r)) (\<lambda>(t', h2).
            Inr (t', p, h2)))
      else if rt_value key > rt_value n then
        andThen (NaClAvlTreeExtract r key h) (\<lambda>(r', p, h1).
          andThen (balance_right_if h1 (NaClRangeStatsUpdate l n r')) (\<lambda>(t', h2).
            Inr (t', p, h2)))
      else
        let p = n\<lparr>refcount := refcount n - 1\<rparr> in
        if refcount p \<noteq> 0 then
          Inr (Node l (p\<lparr>value_containment_delta :=
                           value_containment_delta p - value_containment_delta key,
                         subtree_containment_delta :=
                           subtree_containment_delta p - value_containment_delta key\<rparr>) r,
               None, h)
        else if r = NULL then Inr (l, Some p, True)
        else if l = NULL then Inr (r, Some p, True)
        else if balance p \<le> 0 then
          andThen (NaClAvlFindRightMost l) (\<lambda>(tmp, l', h1).
            andThen (balance_left_if h1
                       (NaClRangeStatsUpdate l' (tmp\<lparr>balance := balance p\<rparr>) r)) (\<lambda>(t', h2).
              Inr (t', Some p, h2)))
        else
          andThen (NaClAvlFindLeftMost r) (\<lambda>(tmp, r', h1).
            andThen (balance_right_if h1
                       (NaClRangeStatsUpdate l (tmp\<lparr>balance := balance p\<rparr>) r')) (\<lambda>(t', h2).
              Inr (t', Some p, h2))))"

text \<open>\<open>NaClIntervalRangeTreeExtract\<close> and \<open>NaClIntervalRangeTreeRemoveVal\<close>.\<close>

definition NaClIntervalRangeTreeExtract :: "rtree \<Rightarrow> rtnode \<Rightarrow> (rtree \<times> rtnode option) run" where
  "NaClIntervalRangeTreeExtract root key =
     andThen (NaClAvlTreeExtract root key False) (\<lambda>(root', p, h). Inr (root', p))"

definition NaClIntervalRangeTreeRemoveVal :: "rtree \<Rightarrow> u32 \<Rightarrow> u32 \<Rightarrow> rtree run" where
  "NaClIntervalRangeTreeRemoveVal root v lr =
     andThen (NaClIntervalRangeTreeExtract root (NaClIntervalRangeTreeNodeInit v lr))
       (\<lambda>(root', zero_ref_node). Inr root')"

subsection \<open>Search\<close>

text \<open>
  The result is the lower bound of the containment count and \<open>*gap_left\<close>, \<open>None\<close> where
  the code leaves it unwritten.
\<close>

fun NaClAvlTreeFindValue :: "rtree \<Rightarrow> u32 \<Rightarrow> u32 \<Rightarrow> u32 \<Rightarrow> u32 \<times> u32 option" where
  "NaClAvlTreeFindValue NULL left_delta left_range v = (left_delta, Some left_range)"
| "NaClAvlTreeFindValue (Node l n r) left_delta left_range v =
     (if v < rt_value n then NaClAvlTreeFindValue l left_delta left_range v
      else if v = rt_value n then
        let delta = left_delta + stats_delta l + value_containment_delta n
        in (if delta = 0 then 1 else delta, None)
      else
        NaClAvlTreeFindValue r (left_delta + stats_delta l + value_containment_delta n)
          (rt_value n + 1) v)"

subsection \<open>The operations of the vtable\<close>

definition NaClIntervalRangeTreeCtor :: rtree where
  "NaClIntervalRangeTreeCtor = NULL"

definition NaClIntervalRangeTreeAddInterval :: "rtree \<Rightarrow> u32 \<Rightarrow> u32 \<Rightarrow> rtree run" where
  "NaClIntervalRangeTreeAddInterval root first_val last_val =
     andThen (NaClAvlTreeInsert root (NaClIntervalRangeTreeNodeInit first_val 1))
       (\<lambda>(root1, _).
     andThen (NaClAvlTreeInsert root1 (NaClIntervalRangeTreeNodeInit last_val (-1)))
       (\<lambda>(root2, _). Inr root2))"

definition NaClIntervalRangeTreeRemoveInterval :: "rtree \<Rightarrow> u32 \<Rightarrow> u32 \<Rightarrow> rtree run" where
  "NaClIntervalRangeTreeRemoveInterval root first_val last_val =
     andThen (NaClIntervalRangeTreeRemoveVal root last_val (-1))
       (\<lambda>root1. NaClIntervalRangeTreeRemoveVal root1 first_val 1)"

definition NaClIntervalRangeTreeOverlapsWith :: "rtree \<Rightarrow> u32 \<Rightarrow> u32 \<Rightarrow> bool" where
  "NaClIntervalRangeTreeOverlapsWith root first_val last_val =
     (let (d1, gap_left_first) = NaClAvlTreeFindValue root 0 0 first_val;
          (d2, gap_left_last) = NaClAvlTreeFindValue root 0 0 last_val
      in if d1 \<noteq> 0 then True
         else if d2 \<noteq> 0 then True
         else gap_left_first \<noteq> gap_left_last)"

end
