(* ===== verification/Range_Tree_Proofs.thy ===== *)
theory Range_Tree_Proofs
  imports Range_Tree
begin

text \<open>
  Correctness of the range tree: the AVL invariant, the cached statistics, the effect of each
  operation on the inorder list of end points, and the interpretation of the interface
  \<open>interval_multiset\<close>.
\<close>

subsection \<open>Invariants\<close>

fun height :: "rtree \<Rightarrow> nat" where
  "height NULL = 0"
| "height (Node l n r) = Suc (max (height l) (height r))"

fun avl :: "rtree \<Rightarrow> bool" where
  "avl NULL = True"
| "avl (Node l n r) \<longleftrightarrow>
     balance n = int (height r) - int (height l) \<and> \<bar>balance n\<bar> \<le> 1 \<and> avl l \<and> avl r"

fun stats_ok :: "rtree \<Rightarrow> bool" where
  "stats_ok NULL = True"
| "stats_ok (Node l n r) \<longleftrightarrow>
     range_left n = stats_left l (rt_value n) \<and> range_right n = stats_right r (rt_value n) \<and>
     subtree_containment_delta n =
       value_containment_delta n + stats_delta l + stats_delta r \<and>
     stats_ok l \<and> stats_ok r"

lemma node_inv:
  assumes "avl (Node l n r)" "stats_ok (Node l n r)"
  shows "avl l" "avl r" "stats_ok l" "stats_ok r"
    and "balance n = int (height r) - int (height l)" and "\<bar>balance n\<bar> \<le> 1"
  using assms by auto

type_synonym ent = "u32 \<times> u32 \<times> u32"

definition ent_of :: "rtnode \<Rightarrow> ent" where
  "ent_of n = (rt_value n, refcount n, value_containment_delta n)"

fun inorder :: "rtree \<Rightarrow> ent list" where
  "inorder NULL = []"
| "inorder (Node l n r) = inorder l @ ent_of n # inorder r"

text \<open>Fields that no lemma about the inorder list looks at.\<close>

lemma ent_of_frame [simp]:
  "ent_of (n\<lparr>balance := b\<rparr>) = ent_of n"
  "ent_of (n\<lparr>range_left := u\<rparr>) = ent_of n"
  "ent_of (n\<lparr>range_right := u\<rparr>) = ent_of n"
  "ent_of (n\<lparr>subtree_containment_delta := u\<rparr>) = ent_of n"
  by (simp_all add: ent_of_def)

lemma stats_update_simps [simp]:
  "inorder (NaClRangeStatsUpdate l n r) = inorder l @ ent_of n # inorder r"
  "height (NaClRangeStatsUpdate l n r) = Suc (max (height l) (height r))"
  "avl (NaClRangeStatsUpdate l n r) \<longleftrightarrow>
     balance n = int (height r) - int (height l) \<and> \<bar>balance n\<bar> \<le> 1 \<and> avl l \<and> avl r"
  "stats_ok (NaClRangeStatsUpdate l n r) \<longleftrightarrow> stats_ok l \<and> stats_ok r"
  "NaClRangeStatsUpdate l n r \<noteq> NULL"
  by (simp_all add: NaClRangeStatsUpdate_def)

lemma rt_node_stats_update [simp]: "balance (rt_node (NaClRangeStatsUpdate l n r)) = balance n"
  by (simp add: NaClRangeStatsUpdate_def)

lemma stats_fields_frame [simp]:
  "stats_ok (Node l (n\<lparr>balance := b\<rparr>) r) = stats_ok (Node l n r)"
  by simp

lemma height_0_iff: "height t = 0 \<longleftrightarrow> t = NULL"
  by (cases t) auto

lemma stats_delta_sum: "stats_ok t \<Longrightarrow> stats_delta t = sum_list (map (snd \<circ> snd) (inorder t))"
  by (induction t) (auto simp: stats_delta_def ent_of_def)

subsection \<open>Sorted lists of end points\<close>

abbreviation ents_sorted :: "ent list \<Rightarrow> bool" where
  "ents_sorted xs \<equiv> sorted_wrt (<) (map fst xs)"

fun ins_ent :: "u32 \<Rightarrow> u32 \<Rightarrow> ent list \<Rightarrow> ent list" where
  "ins_ent v d [] = [(v, 1, d)]"
| "ins_ent v d ((x, rc, e) # xs) =
     (if v < x then (v, 1, d) # (x, rc, e) # xs
      else if v = x then (x, rc + 1, e + d) # xs
      else (x, rc, e) # ins_ent v d xs)"

fun del_ent :: "u32 \<Rightarrow> u32 \<Rightarrow> ent list \<Rightarrow> ent list" where
  "del_ent v d [] = []"
| "del_ent v d ((x, rc, e) # xs) =
     (if v = x then (if rc - 1 \<noteq> 0 then (x, rc - 1, e - d) # xs else xs)
      else (x, rc, e) # del_ent v d xs)"

lemma fst_ins_ent: "fst ` set (ins_ent v d xs) = insert v (fst ` set xs)"
  by (induction v d xs rule: ins_ent.induct) auto

lemma fst_del_ent: "fst ` set (del_ent v d xs) \<subseteq> fst ` set xs"
  by (induction v d xs rule: del_ent.induct) auto

lemma sorted_ins_ent: "ents_sorted xs \<Longrightarrow> ents_sorted (ins_ent v d xs)"
proof (induction v d xs rule: ins_ent.induct)
  case (2 v d x rc e xs)
  then have "\<forall>y \<in> fst ` set (ins_ent v d xs). v > x \<longrightarrow> x < y"
    by (auto simp: fst_ins_ent)
  with 2 show ?case by (auto simp: not_less_iff_gr_or_eq)
qed simp

lemma sorted_del_ent: "ents_sorted xs \<Longrightarrow> ents_sorted (del_ent v d xs)"
proof (induction v d xs rule: del_ent.induct)
  case (2 v d x rc e xs)
  then have "\<forall>y \<in> fst ` set xs. x < y" by auto
  then have "\<forall>y \<in> fst ` set (del_ent v d xs). x < y"
    using fst_del_ent [of v d xs] by blast
  with 2 show ?case by auto
qed simp

lemma ins_ent_append:
  "ents_sorted (xs @ (x, rc, e) # ys) \<Longrightarrow>
   ins_ent v d (xs @ (x, rc, e) # ys) =
     (if v < x then ins_ent v d xs @ (x, rc, e) # ys
      else xs @ ins_ent v d ((x, rc, e) # ys))"
  by (induction xs) (auto simp: sorted_wrt_append)

lemma del_ent_notin: "v \<notin> fst ` set xs \<Longrightarrow> del_ent v d xs = xs"
  by (induction v d xs rule: del_ent.induct) auto

lemma del_ent_append_left:
  "ents_sorted (xs @ (x, rc, e) # ys) \<Longrightarrow> v < x \<Longrightarrow>
   del_ent v d (xs @ (x, rc, e) # ys) = del_ent v d xs @ (x, rc, e) # ys"
proof (induction xs)
  case Nil
  then have "v \<notin> fst ` set ys" by (auto dest: order.strict_trans)
  with Nil show ?case by (auto simp: del_ent_notin)
qed auto

lemma del_ent_append_right:
  "ents_sorted (xs @ (x, rc, e) # ys) \<Longrightarrow> x \<le> v \<Longrightarrow>
   del_ent v d (xs @ (x, rc, e) # ys) = xs @ del_ent v d ((x, rc, e) # ys)"
  by (induction xs) (auto simp: sorted_wrt_append)

text \<open>What the two list operations do to the entry of each value.\<close>

lemma map_of_ins_ent:
  "ents_sorted xs \<Longrightarrow>
   map_of (ins_ent v d xs) = (map_of xs)(v \<mapsto>
     (case map_of xs v of None \<Rightarrow> (1, d) | Some (rc, e) \<Rightarrow> (rc + 1, e + d)))"
proof (induction v d xs rule: ins_ent.induct)
  case (2 v d x rc e xs)
  have "v < x \<Longrightarrow> map_of xs v = None"
    using 2 by (auto simp: map_of_eq_None_iff)
  with 2 show ?case by (auto simp: fun_upd_twist split: option.splits)
qed simp

lemma map_of_del_ent:
  "ents_sorted xs \<Longrightarrow>
   map_of (del_ent v d xs) = (map_of xs)(v :=
     (case map_of xs v of None \<Rightarrow> None
      | Some (rc, e) \<Rightarrow> if rc - 1 \<noteq> 0 then Some (rc - 1, e - d) else None))"
proof (induction v d xs rule: del_ent.induct)
  case (2 v d x rc e xs)
  have "map_of xs x = None"
    using 2 by (auto simp: map_of_eq_None_iff)
  with 2 show ?case by (auto simp: fun_upd_twist fun_upd_idem split: option.splits)
qed (simp add: fun_eq_iff)

subsection \<open>Insertion\<close>

lemma insert_pivot_left_inorder:
  "insert_pivot_left l n r = Inr t \<Longrightarrow> inorder t = inorder l @ ent_of n # inorder r"
  by (induction l n r rule: insert_pivot_left.induct) (auto split: if_splits rtree.splits)

lemma insert_pivot_right_inorder:
  "insert_pivot_right l n r = Inr t \<Longrightarrow> inorder t = inorder l @ ent_of n # inorder r"
  by (induction l n r rule: insert_pivot_right.induct) (auto split: if_splits rtree.splits)

text \<open>
  After an insertion that made the left subtree two higher than the right one, the pivot
  restores the balance and the height before the insertion.
\<close>

lemma insert_pivot_left_avl:
  assumes "avl l" "avl r" "stats_ok l" "stats_ok r" "height l = height r + 2"
    and "balance (rt_node l) \<noteq> 0"
  shows "\<exists>t. insert_pivot_left l n r = Inr t \<and> avl t \<and> stats_ok t \<and> t \<noteq> NULL \<and>
    height t = height l"
proof (cases l)
  case NULL
  with assms show ?thesis by simp
next
  case (Node a b c)
  show ?thesis
  proof (cases "balance b = -1")
    case True
    with Node assms show ?thesis by auto
  next
    case False
    with Node assms have b1: "balance b = 1" by auto
    with Node assms obtain c1 m c2 where "c = Node c1 m c2"
      by (cases c) auto
    with Node assms b1 show ?thesis by auto
  qed
qed

lemma insert_pivot_right_avl:
  assumes "avl l" "avl r" "stats_ok l" "stats_ok r" "height r = height l + 2"
    and "balance (rt_node r) \<noteq> 0"
  shows "\<exists>t. insert_pivot_right l n r = Inr t \<and> avl t \<and> stats_ok t \<and> t \<noteq> NULL \<and>
    height t = height r"
proof (cases r)
  case NULL
  with assms show ?thesis by simp
next
  case (Node c d e)
  show ?thesis
  proof (cases "balance d = 1")
    case True
    with Node assms show ?thesis by auto
  next
    case False
    with Node assms have d1: "balance d = -1" by auto
    with Node assms obtain c1 m c2 where "c = Node c1 m c2"
      by (cases c) auto
    with Node assms d1 show ?thesis by auto
  qed
qed

text \<open>The node that a caller of \<open>NaClAvlTreeInsert\<close> hands over.\<close>

definition fresh_node :: "rtnode \<Rightarrow> bool" where
  "fresh_node n \<longleftrightarrow> n = NaClIntervalRangeTreeNodeInit (rt_value n) (value_containment_delta n)"

lemma fresh_node_init [simp]: "fresh_node (NaClIntervalRangeTreeNodeInit v d)"
  by (simp add: fresh_node_def NaClIntervalRangeTreeNodeInit_def)

lemma fresh_node_fields:
  "fresh_node n \<Longrightarrow> balance n = 0 \<and> refcount n = 1 \<and> range_left n = rt_value n \<and>
     range_right n = rt_value n \<and> subtree_containment_delta n = value_containment_delta n"
  unfolding fresh_node_def NaClIntervalRangeTreeNodeInit_def
  by (cases n) simp

text \<open>What insertion does after its recursive call, for each side.\<close>

definition after_left :: "rtnode \<Rightarrow> rtree \<Rightarrow> rtree \<Rightarrow> bool \<Rightarrow> (rtree \<times> bool) run" where
  "after_left tmp r l' higher =
     (if \<not> higher then Inr (NaClRangeStatsUpdate l' tmp r, False)
      else if balance tmp = 1 then Inr (NaClRangeStatsUpdate l' (tmp\<lparr>balance := 0\<rparr>) r, False)
      else if balance tmp = 0 then Inr (NaClRangeStatsUpdate l' (tmp\<lparr>balance := -1\<rparr>) r, True)
      else andThen (insert_pivot_left l' (tmp\<lparr>balance := balance tmp - 1\<rparr>) r)
             (\<lambda>t. Inr (t, False)))"

definition after_right :: "rtree \<Rightarrow> rtnode \<Rightarrow> rtree \<Rightarrow> bool \<Rightarrow> (rtree \<times> bool) run" where
  "after_right l tmp r' higher =
     (if \<not> higher then Inr (NaClRangeStatsUpdate l tmp r', False)
      else if balance tmp = -1 then Inr (NaClRangeStatsUpdate l (tmp\<lparr>balance := 0\<rparr>) r', False)
      else if balance tmp = 0 then Inr (NaClRangeStatsUpdate l (tmp\<lparr>balance := 1\<rparr>) r', True)
      else andThen (insert_pivot_right l (tmp\<lparr>balance := balance tmp + 1\<rparr>) r')
             (\<lambda>t. Inr (t, False)))"

lemma insert_less:
  assumes "rt_value node < rt_value n"
  shows "NaClAvlTreeInsert (Node l n r) node =
    andThen (NaClAvlTreeInsert l node) (\<lambda>(l', higher). after_left n r l' higher)"
proof -
  have *: "balance n - 1 = 0 \<longleftrightarrow> balance n = 1" "balance n - 1 = -1 \<longleftrightarrow> balance n = 0" by auto
  from assms have "rt_value node \<noteq> rt_value n" by simp
  with assms show ?thesis
    by (simp add: after_left_def Let_def * cong: if_cong)
qed

lemma insert_greater:
  assumes "rt_value n < rt_value node"
  shows "NaClAvlTreeInsert (Node l n r) node =
    andThen (NaClAvlTreeInsert r node) (\<lambda>(r', higher). after_right l n r' higher)"
proof -
  have *: "balance n + 1 = 0 \<longleftrightarrow> balance n = -1" "balance n + 1 = 1 \<longleftrightarrow> balance n = 0" by auto
  from assms have "rt_value node \<noteq> rt_value n" "\<not> rt_value node < rt_value n" by auto
  then show ?thesis
    by (simp add: after_right_def Let_def * cong: if_cong)
qed

lemma insert_equal:
  "rt_value node = rt_value n \<Longrightarrow>
   NaClAvlTreeInsert (Node l n r) node =
     Inr (Node l (n\<lparr>value_containment_delta :=
                       value_containment_delta n + value_containment_delta node,
                     subtree_containment_delta :=
                       subtree_containment_delta n + value_containment_delta node,
                     refcount := refcount n + 1\<rparr>) r, False)"
  by simp

declare NaClAvlTreeInsert.simps(2) [simp del]

lemmas insert_eqs = insert_less insert_greater insert_equal

lemma after_left_inorder:
  "after_left n r l' g = Inr (t, g') \<Longrightarrow> inorder t = inorder l' @ ent_of n # inorder r"
  by (auto simp: after_left_def run_simps dest: insert_pivot_left_inorder split: if_splits)

lemma after_right_inorder:
  "after_right l n r' g = Inr (t, g') \<Longrightarrow> inorder t = inorder l @ ent_of n # inorder r'"
  by (auto simp: after_right_def run_simps dest: insert_pivot_right_inorder split: if_splits)

text \<open>
  The result of a step of insertion: a balanced tree that is \<open>k\<close> high, plus one if it
  grew, and whose root leans to a side when it grew.
\<close>

definition grown :: "(rtree \<times> bool) run \<Rightarrow> nat \<Rightarrow> bool" where
  "grown res k = (case res of Inl _ \<Rightarrow> False
     | Inr (t, g) \<Rightarrow> avl t \<and> stats_ok t \<and> t \<noteq> NULL \<and> height t = k + (if g then 1 else 0) \<and>
         (g \<and> 0 < k \<longrightarrow> balance (rt_node t) \<noteq> 0))"

lemma grown_Inr [simp]:
  "grown (Inr (t, g)) k \<longleftrightarrow> avl t \<and> stats_ok t \<and> t \<noteq> NULL \<and>
     height t = k + (if g then 1 else 0) \<and> (g \<and> 0 < k \<longrightarrow> balance (rt_node t) \<noteq> 0)"
  by (simp add: grown_def)

lemma grownE:
  assumes "grown res k"
  obtains t g where "res = Inr (t, g)" "avl t" "stats_ok t" "t \<noteq> NULL"
    "height t = k + (if g then 1 else 0)" "g \<and> 0 < k \<longrightarrow> balance (rt_node t) \<noteq> 0"
  using assms by (auto simp: grown_def split: sum.splits)

lemma after_left_avl:
  assumes "avl (Node l n r)" "stats_ok r" "avl l'" "stats_ok l'" "l' \<noteq> NULL"
    and h: "height l' = height l + (if g then 1 else 0)"
    and b: "g \<and> 0 < height l \<longrightarrow> balance (rt_node l') \<noteq> 0"
  shows "grown (after_left n r l' g) (height (Node l n r))"
proof -
  consider (no) "\<not> g" | (pivot) "g" "balance n = -1" | (zero) "g" "balance n = 0"
    | (one) "g" "balance n = 1"
    using assms(1) by fastforce
  then show ?thesis
  proof cases
    case no
    with assms show ?thesis by (auto simp: after_left_def)
  next
    case pivot
    with assms have hl: "height l' = height r + 2" and "balance (rt_node l') \<noteq> 0" by auto
    with assms obtain t where "insert_pivot_left l' (n\<lparr>balance := balance n - 1\<rparr>) r = Inr t"
      "avl t" "stats_ok t" "t \<noteq> NULL" "height t = height l'"
      using insert_pivot_left_avl [of l' r] by auto
    moreover have "Suc (max (height l) (height r)) = height l'"
      using hl h pivot by simp
    ultimately show ?thesis using pivot by (simp add: after_left_def)
  next
    case zero
    with assms show ?thesis by (simp add: after_left_def)
  next
    case one
    with assms show ?thesis by (simp add: after_left_def)
  qed
qed

lemma after_right_avl:
  assumes "avl (Node l n r)" "stats_ok l" "avl r'" "stats_ok r'" "r' \<noteq> NULL"
    and h: "height r' = height r + (if g then 1 else 0)"
    and b: "g \<and> 0 < height r \<longrightarrow> balance (rt_node r') \<noteq> 0"
  shows "grown (after_right l n r' g) (height (Node l n r))"
proof -
  consider (no) "\<not> g" | (pivot) "g" "balance n = 1" | (zero) "g" "balance n = 0"
    | (mone) "g" "balance n = -1"
    using assms(1) by fastforce
  then show ?thesis
  proof cases
    case no
    with assms show ?thesis by (auto simp: after_right_def)
  next
    case pivot
    with assms have hr: "height r' = height l + 2" and "balance (rt_node r') \<noteq> 0" by auto
    with assms obtain t where "insert_pivot_right l (n\<lparr>balance := balance n + 1\<rparr>) r' = Inr t"
      "avl t" "stats_ok t" "t \<noteq> NULL" "height t = height r'"
      using insert_pivot_right_avl [of l r'] by auto
    moreover have "Suc (max (height l) (height r)) = height r'"
      using hr h pivot by simp
    ultimately show ?thesis using pivot by (simp add: after_right_def)
  next
    case zero
    with assms show ?thesis by (simp add: after_right_def)
  next
    case mone
    with assms show ?thesis by (simp add: after_right_def)
  qed
qed

lemma insert_avl:
  "avl t \<Longrightarrow> stats_ok t \<Longrightarrow> fresh_node node \<Longrightarrow> grown (NaClAvlTreeInsert t node) (height t)"
proof (induction t)
  case NULL
  with fresh_node_fields [of node] show ?case
    by (simp add: stats_left_def stats_right_def stats_delta_def)
next
  case (Node l n r)
  consider (eq) "rt_value node = rt_value n" | (less) "rt_value node < rt_value n"
    | (greater) "rt_value n < rt_value node"
    by fastforce
  then show ?case
  proof cases
    case eq
    with Node.prems show ?thesis by (auto simp: insert_equal)
  next
    case less
    from Node have "grown (NaClAvlTreeInsert l node) (height l)" by simp
    then show ?thesis
      by (rule grownE)
        (use after_left_avl [OF Node.prems(1)] Node.prems(2) in \<open>simp add: insert_less [OF less]\<close>)
  next
    case greater
    from Node have "grown (NaClAvlTreeInsert r node) (height r)" by simp
    then show ?thesis
      by (rule grownE)
        (use after_right_avl [OF Node.prems(1)] Node.prems(2) in
          \<open>simp add: insert_greater [OF greater]\<close>)
  qed
qed

lemma insert_inorder:
  "NaClAvlTreeInsert t node = Inr (t', grew) \<Longrightarrow> fresh_node node \<Longrightarrow> ents_sorted (inorder t) \<Longrightarrow>
   inorder t' = ins_ent (rt_value node) (value_containment_delta node) (inorder t)"
proof (induction t arbitrary: t' grew)
  case NULL
  with fresh_node_fields [of node] show ?case by (auto simp: ent_of_def)
next
  case (Node l n r)
  have sorted: "ents_sorted (inorder l)" "ents_sorted (inorder r)"
    using Node.prems(3) by (auto simp: sorted_wrt_append)
  note append = ins_ent_append [OF Node.prems(3) [unfolded inorder.simps ent_of_def]]
  consider (eq) "rt_value node = rt_value n" | (less) "rt_value node < rt_value n"
    | (greater) "rt_value n < rt_value node"
    by fastforce
  then show ?case
  proof cases
    case eq
    with Node.prems(1) show ?thesis by (auto simp: append ent_of_def insert_equal)
  next
    case less
    with Node.prems(1) obtain l' g where ins: "NaClAvlTreeInsert l node = Inr (l', g)"
      and rest: "after_left n r l' g = Inr (t', grew)"
      by (auto simp: run_simps insert_less)
    from Node.IH(1) [OF ins Node.prems(2) sorted(1)] after_left_inorder [OF rest] less
    show ?thesis by (simp add: append ent_of_def)
  next
    case greater
    with Node.prems(1) obtain r' g where ins: "NaClAvlTreeInsert r node = Inr (r', g)"
      and rest: "after_right l n r' g = Inr (t', grew)"
      by (auto simp: run_simps insert_greater)
    from greater have "\<not> rt_value node < rt_value n" "rt_value node \<noteq> rt_value n" by auto
    with Node.IH(2) [OF ins Node.prems(2) sorted(2)] after_right_inorder [OF rest]
    show ?thesis by (simp add: append ent_of_def)
  qed
qed

subsection \<open>Extraction\<close>

text \<open>
  The result of a step of extraction: a balanced tree with the given inorder list, \<open>k\<close> high
  less one if it shrank.
\<close>

definition shrunk :: "(rtree \<times> bool) run \<Rightarrow> ent list \<Rightarrow> nat \<Rightarrow> bool" where
  "shrunk res xs k = (case res of Inl _ \<Rightarrow> False
     | Inr (t, h) \<Rightarrow> avl t \<and> stats_ok t \<and> inorder t = xs \<and> k = height t + (if h then 1 else 0))"

lemma shrunk_Inr [simp]:
  "shrunk (Inr (t, h)) xs k \<longleftrightarrow>
     avl t \<and> stats_ok t \<and> inorder t = xs \<and> k = height t + (if h then 1 else 0)"
  by (simp add: shrunk_def)

lemma shrunkE:
  assumes "shrunk res xs k"
  obtains t h where "res = Inr (t, h)" "avl t" "stats_ok t" "inorder t = xs"
    "k = height t + (if h then 1 else 0)"
  using assms by (auto simp: shrunk_def split: sum.splits)

text \<open>
  Rebalancing after one subtree lost a level: \<open>hl\<close> (\<open>hr\<close>) is the height that subtree
  had, which the balance of the node still records.
\<close>

lemma balance_left_ok:
  assumes "avl l" "avl r" "stats_ok l" "stats_ok r"
    and bal: "balance n = int (height r) - int hl" "\<bar>balance n\<bar> \<le> 1"
    and hl: "hl = height l + (if h then 1 else 0)"
  shows "shrunk (balance_left_if h (NaClRangeStatsUpdate l n r))
    (inorder l @ ent_of n # inorder r) (Suc (max hl (height r)))"
proof -
  consider (no) "\<not> h" | (m1) "h" "balance n = -1" | (z) "h" "balance n = 0"
    | (one) "h" "balance n = 1"
    using bal(2) by fastforce
  then show ?thesis
  proof cases
    case no
    with assms show ?thesis by (simp add: balance_left_if_def)
  next
    case m1
    with assms show ?thesis by (simp add: balance_left_if_def NaClRangeStatsUpdate_def)
  next
    case z
    with assms show ?thesis by (simp add: balance_left_if_def NaClRangeStatsUpdate_def)
  next
    case one
    with bal hl have hr: "height r = height l + 2" by auto
    then obtain c d e where r: "r = Node c d e" by (cases r) auto
    with assms(2) consider (d0) "balance d = 0" | (d1) "balance d = 1" | (dm) "balance d = -1"
      by fastforce
    then show ?thesis
    proof cases
      case d0
      with r hr assms(2) have "height e = height l + 1" "height c = height l + 1" by auto
      with d0 one r hl assms(1-4) show ?thesis
        by (simp add: balance_left_if_def NaClRangeStatsUpdate_def [of l n "Node c d e"])
    next
      case d1
      with r hr assms(2) have "height e = height l + 1" "height c = height l" by auto
      with d1 one r hl assms(1-4) show ?thesis
        by (simp add: balance_left_if_def NaClRangeStatsUpdate_def [of l n "Node c d e"])
    next
      case dm
      with r hr assms(2) have h: "height e = height l" "height c = height l + 1" by auto
      then obtain c1 m c2 where c: "c = Node c1 m c2" by (cases c) auto
      with r assms(2) consider "balance m = 0" | "balance m = 1" | "balance m = -1" by fastforce
      then show ?thesis using c h dm one r hl assms(1-4)
        by cases (simp_all add: balance_left_if_def
            NaClRangeStatsUpdate_def [of l n "Node (Node c1 m c2) d e"])
    qed
  qed
qed

lemma balance_right_ok:
  assumes "avl l" "avl r" "stats_ok l" "stats_ok r"
    and bal: "balance n = int hr - int (height l)" "\<bar>balance n\<bar> \<le> 1"
    and hr: "hr = height r + (if h then 1 else 0)"
  shows "shrunk (balance_right_if h (NaClRangeStatsUpdate l n r))
    (inorder l @ ent_of n # inorder r) (Suc (max (height l) hr))"
proof -
  consider (no) "\<not> h" | (p1) "h" "balance n = 1" | (z) "h" "balance n = 0"
    | (mone) "h" "balance n = -1"
    using bal(2) by fastforce
  then show ?thesis
  proof cases
    case no
    with assms show ?thesis by (simp add: balance_right_if_def)
  next
    case p1
    with assms show ?thesis by (simp add: balance_right_if_def NaClRangeStatsUpdate_def)
  next
    case z
    with assms show ?thesis by (simp add: balance_right_if_def NaClRangeStatsUpdate_def)
  next
    case mone
    with bal hr have hl: "height l = height r + 2" by auto
    then obtain a b c where l: "l = Node a b c" by (cases l) auto
    with assms(1) consider (b0) "balance b = 0" | (bm) "balance b = -1" | (b1) "balance b = 1"
      by fastforce
    then show ?thesis
    proof cases
      case b0
      with l hl assms(1) have "height a = height r + 1" "height c = height r + 1" by auto
      with b0 mone l hr assms(1-4) show ?thesis
        by (simp add: balance_right_if_def NaClRangeStatsUpdate_def [of "Node a b c" n r])
    next
      case bm
      with l hl assms(1) have "height a = height r + 1" "height c = height r" by auto
      with bm mone l hr assms(1-4) show ?thesis
        by (simp add: balance_right_if_def NaClRangeStatsUpdate_def [of "Node a b c" n r])
    next
      case b1
      with l hl assms(1) have h: "height a = height r" "height c = height r + 1" by auto
      then obtain c1 m c2 where c: "c = Node c1 m c2" by (cases c) auto
      with l assms(1) consider "balance m = 0" | "balance m = 1" | "balance m = -1" by fastforce
      then show ?thesis using c h b1 mone l hr assms(1-4)
        by cases (simp_all add: balance_right_if_def
            NaClRangeStatsUpdate_def [of "Node a b (Node c1 m c2)" n r])
    qed
  qed
qed

text \<open>\<open>NaClAvlFindRightMost\<close> and \<open>NaClAvlFindLeftMost\<close> take the last and the first node.\<close>

lemma find_right_most_ok:
  "avl t \<Longrightarrow> stats_ok t \<Longrightarrow> t \<noteq> NULL \<Longrightarrow>
   \<exists>m t' h. NaClAvlFindRightMost t = Inr (m, t', h) \<and> avl t' \<and> stats_ok t' \<and>
     inorder t = inorder t' @ [ent_of m] \<and> height t = height t' + (if h then 1 else 0)"
proof (induction t rule: NaClAvlFindRightMost.induct)
  case (2 l n)
  then have "height (Node l n NULL) = height l + (if True then 1 else 0)" by simp
  with 2 show ?case by (intro exI [of _ n] exI [of _ l] exI [of _ True]) simp
next
  case (3 l n rl rn rr)
  let ?r = "Node rl rn rr"
  from 3(2,3) have "avl ?r" "stats_ok ?r" "?r \<noteq> NULL" by auto
  from 3(1) [OF this] obtain m r' h where fr: "NaClAvlFindRightMost ?r = Inr (m, r', h)"
    and r': "avl r'" "stats_ok r'" "inorder ?r = inorder r' @ [ent_of m]"
      "height ?r = height r' + (if h then 1 else 0)"
    by blast
  have "shrunk (balance_right_if h (NaClRangeStatsUpdate l n r'))
    (inorder l @ ent_of n # inorder r') (Suc (max (height l) (height ?r)))"
    using node_inv [OF 3(2,3)] by (intro balance_right_ok r'(1,2,4))
  then obtain t g where "balance_right_if h (NaClRangeStatsUpdate l n r') = Inr (t, g)"
    "avl t" "stats_ok t" "inorder t = inorder l @ ent_of n # inorder r'"
    "Suc (max (height l) (height ?r)) = height t + (if g then 1 else 0)"
    by (rule shrunkE)
  with r'(3) show ?case
    by (intro exI [of _ m] exI [of _ t] exI [of _ g]) (simp add: fr)
qed simp

lemma find_left_most_ok:
  "avl t \<Longrightarrow> stats_ok t \<Longrightarrow> t \<noteq> NULL \<Longrightarrow>
   \<exists>m t' h. NaClAvlFindLeftMost t = Inr (m, t', h) \<and> avl t' \<and> stats_ok t' \<and>
     inorder t = ent_of m # inorder t' \<and> height t = height t' + (if h then 1 else 0)"
proof (induction t rule: NaClAvlFindLeftMost.induct)
  case (2 n r)
  then have "height (Node NULL n r) = height r + (if True then 1 else 0)" by simp
  with 2 show ?case by (intro exI [of _ n] exI [of _ r] exI [of _ True]) simp
next
  case (3 ll ln lr n r)
  let ?l = "Node ll ln lr"
  from 3(2,3) have "avl ?l" "stats_ok ?l" "?l \<noteq> NULL" by auto
  from 3(1) [OF this] obtain m l' h where fl: "NaClAvlFindLeftMost ?l = Inr (m, l', h)"
    and l': "avl l'" "stats_ok l'" "inorder ?l = ent_of m # inorder l'"
      "height ?l = height l' + (if h then 1 else 0)"
    by blast
  have "shrunk (balance_left_if h (NaClRangeStatsUpdate l' n r))
    (inorder l' @ ent_of n # inorder r) (Suc (max (height ?l) (height r)))"
    using node_inv [OF 3(2,3)] by (intro balance_left_ok l'(1,2,4))
  then obtain t g where "balance_left_if h (NaClRangeStatsUpdate l' n r) = Inr (t, g)"
    "avl t" "stats_ok t" "inorder t = inorder l' @ ent_of n # inorder r"
    "Suc (max (height ?l) (height r)) = height t + (if g then 1 else 0)"
    by (rule shrunkE)
  with l'(3) show ?case
    by (intro exI [of _ m] exI [of _ t] exI [of _ g]) (simp add: fl)
qed simp

text \<open>Extraction of a value that is in the tree, and of one that is not.\<close>

definition extracted :: "(rtree \<times> rtnode option \<times> bool) run \<Rightarrow> ent list \<Rightarrow> nat \<Rightarrow> bool" where
  "extracted res xs k = (case res of Inl _ \<Rightarrow> False | Inr (t, p, h) \<Rightarrow> shrunk (Inr (t, h)) xs k)"

lemma extracted_Inr [simp]: "extracted (Inr (t, p, h)) xs k = shrunk (Inr (t, h)) xs k"
  by (simp add: extracted_def)

lemma extractedE:
  assumes "extracted res xs k"
  obtains t p h where "res = Inr (t, p, h)" "avl t" "stats_ok t" "inorder t = xs"
    "k = height t + (if h then 1 else 0)"
  using assms by (auto simp: extracted_def split: sum.splits)

lemma extracted_andThen:
  "shrunk res xs k \<Longrightarrow> extracted (andThen res (\<lambda>(t', h2). Inr (t', p, h2))) xs k"
  by (erule shrunkE) simp

lemma extract_absent:
  "ents_sorted (inorder t) \<Longrightarrow> rt_value key \<notin> fst ` set (inorder t) \<Longrightarrow>
   NaClAvlTreeExtract t key h = Inl LogFatal"
  by (induction t) (auto simp: sorted_wrt_append ent_of_def image_Un)

lemma extract_ok:
  assumes "avl t" "stats_ok t" "ents_sorted (inorder t)" "rt_value key \<in> fst ` set (inorder t)"
  shows "extracted (NaClAvlTreeExtract t key False)
    (del_ent (rt_value key) (value_containment_delta key) (inorder t)) (height t)"
  using assms
proof (induction t)
  case NULL
  then show ?case by simp
next
  case (Node l n r)
  let ?v = "rt_value key" and ?d = "value_containment_delta key"
  have sorted: "ents_sorted (inorder l)" "ents_sorted (inorder r)"
    and left_less: "\<forall>x \<in> fst ` set (inorder l). x < rt_value n"
    and right_greater: "\<forall>x \<in> fst ` set (inorder r). rt_value n < x"
    using Node.prems(3) by (auto simp: sorted_wrt_append ent_of_def)
  note inv = node_inv [OF Node.prems(1,2)]
  note del_left = del_ent_append_left [OF Node.prems(3) [unfolded inorder.simps ent_of_def]]
  note del_right = del_ent_append_right [OF Node.prems(3) [unfolded inorder.simps ent_of_def]]
  consider (eq) "?v = rt_value n" | (less) "?v < rt_value n" | (greater) "rt_value n < ?v"
    by fastforce
  then show ?case
  proof cases
    case less
    then have "?v \<in> fst ` set (inorder l)"
      using Node.prems(4) right_greater by (auto simp: ent_of_def image_Un)
    with Node.IH(1) inv sorted have
      "extracted (NaClAvlTreeExtract l key False) (del_ent ?v ?d (inorder l)) (height l)" by simp
    then obtain l' p h where ex: "NaClAvlTreeExtract l key False = Inr (l', p, h)"
      and l': "avl l'" "stats_ok l'" "inorder l' = del_ent ?v ?d (inorder l)"
        "height l = height l' + (if h then 1 else 0)"
      by (rule extractedE)
    have "shrunk (balance_left_if h (NaClRangeStatsUpdate l' n r))
      (inorder l' @ ent_of n # inorder r) (Suc (max (height l) (height r)))"
      using inv l' by (intro balance_left_ok) simp_all
    from extracted_andThen [OF this] show ?thesis
      using less l'(3) by (simp add: ex del_left ent_of_def)
  next
    case greater
    then have "?v \<in> fst ` set (inorder r)" and ne: "\<not> ?v < rt_value n" "?v \<noteq> rt_value n"
      using Node.prems(4) left_less by (auto simp: ent_of_def image_Un)
    with Node.IH(2) inv sorted have
      "extracted (NaClAvlTreeExtract r key False) (del_ent ?v ?d (inorder r)) (height r)" by simp
    then obtain r' p h where ex: "NaClAvlTreeExtract r key False = Inr (r', p, h)"
      and r': "avl r'" "stats_ok r'" "inorder r' = del_ent ?v ?d (inorder r)"
        "height r = height r' + (if h then 1 else 0)"
      by (rule extractedE)
    have "shrunk (balance_right_if h (NaClRangeStatsUpdate l n r'))
      (inorder l @ ent_of n # inorder r') (Suc (max (height l) (height r)))"
      using inv r' by (intro balance_right_ok) simp_all
    from extracted_andThen [OF this] show ?thesis
      using greater ne r'(3) by (simp add: ex del_right ent_of_def)
  next
    case eq
    let ?p = "n\<lparr>refcount := refcount n - 1\<rparr>"
    have del: "del_ent ?v ?d (inorder (Node l n r)) =
      (if refcount n - 1 \<noteq> 0 then inorder l @ (?v, refcount n - 1, value_containment_delta n - ?d) # inorder r
       else inorder l @ inorder r)"
      using eq by (simp add: del_right ent_of_def)
    consider (many) "refcount n - 1 \<noteq> 0" | (nor) "refcount n - 1 = 0" "r = NULL"
      | (nol) "refcount n - 1 = 0" "r \<noteq> NULL" "l = NULL"
      | (lb) "refcount n - 1 = 0" "r \<noteq> NULL" "l \<noteq> NULL" "balance n \<le> 0"
      | (rb) "refcount n - 1 = 0" "r \<noteq> NULL" "l \<noteq> NULL" "\<not> balance n \<le> 0"
      by blast
    then show ?thesis
    proof cases
      case many
      with eq inv Node.prems(2) show ?thesis
        unfolding del by (simp add: Let_def ent_of_def)
    next
      case nor
      with eq inv show ?thesis unfolding del by (simp add: Let_def)
    next
      case nol
      with eq inv show ?thesis unfolding del by (simp add: Let_def)
    next
      case lb
      with inv find_right_most_ok obtain m l' h where fr: "NaClAvlFindRightMost l = Inr (m, l', h)"
        and l': "avl l'" "stats_ok l'" "inorder l = inorder l' @ [ent_of m]"
          "height l = height l' + (if h then 1 else 0)"
        by blast
      have "shrunk (balance_left_if h (NaClRangeStatsUpdate l' (m\<lparr>balance := balance n\<rparr>) r))
        (inorder l' @ ent_of (m\<lparr>balance := balance n\<rparr>) # inorder r) (Suc (max (height l) (height r)))"
        using inv l' by (intro balance_left_ok) simp_all
      from extracted_andThen [OF this] show ?thesis
        unfolding del using eq lb l'(3) by (simp add: Let_def fr)
    next
      case rb
      with inv find_left_most_ok obtain m r' h where fl: "NaClAvlFindLeftMost r = Inr (m, r', h)"
        and r': "avl r'" "stats_ok r'" "inorder r = ent_of m # inorder r'"
          "height r = height r' + (if h then 1 else 0)"
        by blast
      have "shrunk (balance_right_if h (NaClRangeStatsUpdate l (m\<lparr>balance := balance n\<rparr>) r'))
        (inorder l @ ent_of (m\<lparr>balance := balance n\<rparr>) # inorder r') (Suc (max (height l) (height r)))"
        using inv r' by (intro balance_right_ok) simp_all
      from extracted_andThen [OF this] show ?thesis
        unfolding del using eq rb r'(3) by (simp add: Let_def fl)
    qed
  qed
qed

subsection \<open>The search on the inorder list\<close>

fun find_ents :: "ent list \<Rightarrow> u32 \<Rightarrow> u32 \<Rightarrow> u32 \<Rightarrow> u32 \<times> u32 option" where
  "find_ents [] ld lr v = (ld, Some lr)"
| "find_ents ((x, rc, d) # xs) ld lr v =
     (if v < x then (ld, Some lr)
      else if v = x then (if ld + d = 0 then 1 else ld + d, None)
      else find_ents xs (ld + d) (x + 1) v)"

abbreviation delta_sum :: "ent list \<Rightarrow> u32" where
  "delta_sum xs \<equiv> sum_list (map (snd \<circ> snd) xs)"

lemma find_ents_append:
  "ents_sorted (xs @ (x, rc, d) # ys) \<Longrightarrow>
   find_ents (xs @ (x, rc, d) # ys) ld lr v =
     (if v < x then find_ents xs ld lr v
      else find_ents ((x, rc, d) # ys) (ld + delta_sum xs) lr v)"
proof (induction xs arbitrary: ld lr)
  case (Cons e xs)
  obtain y rc' d' where e: "e = (y, rc', d')" by (cases e)
  with Cons.prems have "y < x" by simp
  show ?case
  proof (cases "v < x")
    case True
    with Cons e show ?thesis by simp
  next
    case False
    with \<open>y < x\<close> have "find_ents ((e # xs) @ (x, rc, d) # ys) ld lr v =
      find_ents (xs @ (x, rc, d) # ys) (ld + d') (y + 1) v"
      by (auto simp: e)
    also have "\<dots> = find_ents ((x, rc, d) # ys) (ld + d' + delta_sum xs) (y + 1) v"
      using Cons False by simp
    also have "\<dots> = find_ents ((x, rc, d) # ys) (ld + delta_sum (e # xs)) lr v"
      using False by (simp add: e add.assoc)
    finally show ?thesis using False by simp
  qed
qed auto

lemma find_value_inorder:
  "ents_sorted (inorder t) \<Longrightarrow> stats_ok t \<Longrightarrow>
   NaClAvlTreeFindValue t ld lr v = find_ents (inorder t) ld lr v"
proof (induction t arbitrary: ld lr)
  case (Node l n r)
  note append = find_ents_append [OF Node.prems(1) [unfolded inorder.simps ent_of_def]]
  have "ents_sorted (inorder l)" "ents_sorted (inorder r)"
    using Node.prems(1) by (auto simp: sorted_wrt_append)
  with Node show ?case
    by (auto simp: append ent_of_def stats_delta_sum Let_def not_less_iff_gr_or_eq)
qed simp

text \<open>The gap that ends below a value that is no end point.\<close>

definition gap_left :: "ent list \<Rightarrow> u32 \<Rightarrow> u32 \<Rightarrow> u32" where
  "gap_left xs lr v =
     (case filter (\<lambda>x. x < v) (map fst xs) of [] \<Rightarrow> lr | ys \<Rightarrow> last ys + 1)"

lemma find_ents_key:
  "ents_sorted xs \<Longrightarrow> v \<in> fst ` set xs \<Longrightarrow> fst (find_ents xs ld lr v) \<noteq> 0"
proof (induction xs ld lr v rule: find_ents.induct)
  case (2 x rc d xs ld lr v)
  show ?case
  proof (cases "v = x")
    case False
    with 2 have v: "v \<in> fst ` set xs" "ents_sorted xs" by auto
    with 2 have "x < v" by auto
    then have "\<not> v < x" by simp
    with False 2(1) v show ?thesis by simp
  qed simp
qed simp

lemma find_ents_gap:
  "ents_sorted xs \<Longrightarrow> v \<notin> fst ` set xs \<Longrightarrow>
   find_ents xs ld lr v =
     (ld + delta_sum (filter (\<lambda>e. fst e < v) xs), Some (gap_left xs lr v))"
proof (induction xs ld lr v rule: find_ents.induct)
  case (2 x rc d xs ld lr v)
  show ?case
  proof (cases "v < x")
    case True
    with 2 have "\<forall>e \<in> set xs. \<not> fst e < v" by (auto dest: order.strict_trans)
    then have "filter (\<lambda>e. fst e < v) xs = []" "filter (\<lambda>x. x < v) (map fst xs) = []"
      by (simp_all add: filter_empty_conv)
    with True show ?thesis by (auto simp: gap_left_def)
  next
    case False
    with 2 have "x < v" by auto
    with 2 False show ?thesis
      by (auto simp: gap_left_def add.assoc split: list.splits)
  qed
qed (simp add: gap_left_def)

lemma sorted_filter_last:
  fixes xs :: "'a::linorder list"
  shows "sorted_wrt (<) xs \<Longrightarrow> k \<in> set xs \<Longrightarrow> P k \<Longrightarrow>
    filter P xs \<noteq> [] \<and> k \<le> last (filter P xs) \<and> P (last (filter P xs))"
proof (induction xs rule: rev_induct)
  case (snoc x xs)
  then show ?case by (auto simp: sorted_wrt_append intro: order.strict_implies_order)
qed simp

text \<open>Two probes lie in the same gap exactly when no end point lies between them.\<close>

lemma same_gap:
  assumes sorted: "ents_sorted xs" and "f \<le> l"
    and no_keys: "f \<notin> fst ` set xs" "l \<notin> fst ` set xs"
  shows "gap_left xs 0 f = gap_left xs 0 l \<longleftrightarrow> \<not> (\<exists>k \<in> fst ` set xs. f < k \<and> k < l)"
proof
  assume none: "\<not> (\<exists>k \<in> fst ` set xs. f < k \<and> k < l)"
  have "k < f \<longleftrightarrow> k < l" if "k \<in> fst ` set xs" for k
  proof
    assume "k < f"
    then show "k < l" using \<open>f \<le> l\<close> by simp
  next
    assume "k < l"
    moreover have "k \<noteq> f" using that no_keys(1) by blast
    ultimately show "k < f" using none that by (meson linorder_neqE)
  qed
  then have "filter (\<lambda>x. x < f) (map fst xs) = filter (\<lambda>x. x < l) (map fst xs)"
    by (intro filter_cong) auto
  then show "gap_left xs 0 f = gap_left xs 0 l" by (simp add: gap_left_def)
next
  assume eq: "gap_left xs 0 f = gap_left xs 0 l"
  show "\<not> (\<exists>k \<in> fst ` set xs. f < k \<and> k < l)"
  proof
    assume "\<exists>k \<in> fst ` set xs. f < k \<and> k < l"
    then obtain k where k: "k \<in> set (map fst xs)" "f < k" "k < l" by auto
    let ?m = "last (filter (\<lambda>x. x < l) (map fst xs))"
    from sorted_filter_last [OF sorted k(1), of "\<lambda>x. x < l"] k(3)
    have m: "filter (\<lambda>x. x < l) (map fst xs) \<noteq> []" "k \<le> ?m" "?m < l" by auto
    then have gl: "gap_left xs 0 l = ?m + 1" by (simp add: gap_left_def split: list.splits)
    from m k have "f < ?m" by simp
    with m(3) have fm: "f < ?m + 1" by (rule word_less_plus_one)
    have "gap_left xs 0 f \<le> f"
    proof (cases "filter (\<lambda>x. x < f) (map fst xs)")
      case Nil
      then show ?thesis by (simp add: gap_left_def)
    next
      case (Cons y ys)
      then have "last (filter (\<lambda>x. x < f) (map fst xs)) \<in> set (filter (\<lambda>x. x < f) (map fst xs))"
        by (intro last_in_set) simp
      then have "last (filter (\<lambda>x. x < f) (map fst xs)) < f" by simp
      then have "last (filter (\<lambda>x. x < f) (map fst xs)) + 1 \<le> f" by (rule inc_le)
      with Cons show ?thesis by (simp add: gap_left_def)
    qed
    with eq gl fm show False by simp
  qed
qed

subsection \<open>The end points that a tree stores\<close>

text \<open>
  \<open>S\<close> is the multiset of the starts, \<open>T\<close> of the ends of the stored intervals: the node of a
  value counts both in its reference count and their difference in its delta.
\<close>

definition endpoint_count :: "u32 multiset \<Rightarrow> u32 multiset \<Rightarrow> u32 \<Rightarrow> nat" where
  "endpoint_count S T v = count S v + count T v"

definition endpoint_delta :: "u32 multiset \<Rightarrow> u32 multiset \<Rightarrow> u32 \<Rightarrow> u32" where
  "endpoint_delta S T v = of_nat (count S v) - of_nat (count T v)"

lemma endpoint_count_0: "endpoint_count S T v = 0 \<longleftrightarrow> v \<notin># S \<and> v \<notin># T"
  by (simp add: endpoint_count_def not_in_iff)

lemma endpoint_delta_0: "endpoint_count S T v = 0 \<Longrightarrow> endpoint_delta S T v = 0"
  by (simp add: endpoint_count_def endpoint_delta_def)

lemma endpoint_add:
  "endpoint_count (add_mset v S) T = (endpoint_count S T)(v := Suc (endpoint_count S T v))"
  "endpoint_count S (add_mset v T) = (endpoint_count S T)(v := Suc (endpoint_count S T v))"
  "endpoint_delta (add_mset v S) T = (endpoint_delta S T)(v := endpoint_delta S T v + 1)"
  "endpoint_delta S (add_mset v T) = (endpoint_delta S T)(v := endpoint_delta S T v - 1)"
  by (auto simp: endpoint_count_def endpoint_delta_def fun_eq_iff)

lemma endpoint_count_bound: "endpoint_count S T v \<le> size S + size T"
  using count_le_size [of S v] count_le_size [of T v] by (simp add: endpoint_count_def)

definition stores :: "rtree \<Rightarrow> u32 multiset \<Rightarrow> u32 multiset \<Rightarrow> bool" where
  "stores t S T \<longleftrightarrow> avl t \<and> stats_ok t \<and> ents_sorted (inorder t) \<and> size S + size T < 2 ^ 32 \<and>
     (\<forall>v. map_of (inorder t) v =
        (if endpoint_count S T v = 0 then None
         else Some (of_nat (endpoint_count S T v), endpoint_delta S T v)))"

lemma stores_keys:
  assumes "stores t S T"
  shows "fst ` set (inorder t) = set_mset S \<union> set_mset T"
proof -
  have "v \<in> fst ` set (inorder t) \<longleftrightarrow> endpoint_count S T v \<noteq> 0" for v
    using assms map_of_eq_None_iff [of "inorder t" v] by (simp add: stores_def split: if_splits)
  then show ?thesis by (auto simp: endpoint_count_0)
qed

lemma stores_empty: "stores NULL {#} {#}"
  by (simp add: stores_def endpoint_count_def)

lemma stores_insert:
  assumes "stores t S T" and "size S + size T + 1 < 2 ^ 32"
    and d: "d = 1 \<and> S' = add_mset v S \<and> T' = T \<or> d = -1 \<and> S' = S \<and> T' = add_mset v T"
  shows "\<exists>t' g. NaClAvlTreeInsert t (NaClIntervalRangeTreeNodeInit v d) = Inr (t', g) \<and> stores t' S' T'"
proof -
  let ?node = "NaClIntervalRangeTreeNodeInit v d"
  have node: "rt_value ?node = v" "value_containment_delta ?node = d"
    by (simp_all add: NaClIntervalRangeTreeNodeInit_def)
  from assms(1) have t: "avl t" "stats_ok t" "ents_sorted (inorder t)"
    and ents: "\<And>v. map_of (inorder t) v = (if endpoint_count S T v = 0 then None
         else Some (of_nat (endpoint_count S T v), endpoint_delta S T v))"
    by (simp_all add: stores_def)
  from insert_avl [OF t(1,2), of ?node] obtain t' g where
    ins: "NaClAvlTreeInsert t ?node = Inr (t', g)" and t': "avl t'" "stats_ok t'"
    by (auto elim: grownE)
  from insert_inorder [OF ins _ t(3)] have ino: "inorder t' = ins_ent v d (inorder t)"
    by (simp add: node)
  have cd: "endpoint_count S' T' = (endpoint_count S T)(v := Suc (endpoint_count S T v))"
    "endpoint_delta S' T' = (endpoint_delta S T)(v := endpoint_delta S T v + d)"
    using d by (auto simp: endpoint_add)
  have "map_of (inorder t') w =
      (if endpoint_count S' T' w = 0 then None
       else Some (of_nat (endpoint_count S' T' w), endpoint_delta S' T' w))" for w
    by (simp add: ino map_of_ins_ent [OF t(3)] ents cd endpoint_delta_0 add.commute)
  moreover have "ents_sorted (inorder t')" using ino sorted_ins_ent [OF t(3)] by simp
  moreover have "size S' + size T' < 2 ^ 32" using assms(2) d by auto
  ultimately show ?thesis using ins t' by (auto simp: stores_def)
qed

lemma stores_remove:
  assumes "stores t S T"
    and d: "d = 1 \<and> S = add_mset v S' \<and> T' = T \<or> d = -1 \<and> S' = S \<and> T = add_mset v T'"
  shows "\<exists>t'. NaClIntervalRangeTreeRemoveVal t v d = Inr t' \<and> stores t' S' T'"
proof -
  let ?node = "NaClIntervalRangeTreeNodeInit v d"
  have node: "rt_value ?node = v" "value_containment_delta ?node = d"
    by (simp_all add: NaClIntervalRangeTreeNodeInit_def)
  from assms(1) have t: "avl t" "stats_ok t" "ents_sorted (inorder t)"
    and small: "size S + size T < 2 ^ 32"
    and ents: "\<And>v. map_of (inorder t) v = (if endpoint_count S T v = 0 then None
         else Some (of_nat (endpoint_count S T v), endpoint_delta S T v))"
    by (simp_all add: stores_def)
  have "v \<in> fst ` set (inorder t)" using d stores_keys [OF assms(1)] by auto
  then have "extracted (NaClAvlTreeExtract t ?node False) (del_ent v d (inorder t)) (height t)"
    using extract_ok [OF t, of ?node] by (simp add: node)
  then obtain t' p h where ex: "NaClAvlTreeExtract t ?node False = Inr (t', p, h)"
    and t': "avl t'" "stats_ok t'" and ino: "inorder t' = del_ent v d (inorder t)"
    by (rule extractedE)
  let ?k = "endpoint_count S' T' v"
  have cd: "endpoint_count S T = (endpoint_count S' T')(v := Suc ?k)"
    "endpoint_delta S T = (endpoint_delta S' T')(v := endpoint_delta S' T' v + d)"
    using d by (auto simp: endpoint_add)
  have "?k < 2 ^ 32"
    using cd(1) small endpoint_count_bound [of S T v] by simp
  then have zero: "(of_nat ?k :: u32) = 0 \<longleftrightarrow> ?k = 0"
    by (intro of_nat_word_eq_0) simp
  have "map_of (inorder t') w =
      (if endpoint_count S' T' w = 0 then None
       else Some (of_nat (endpoint_count S' T' w), endpoint_delta S' T' w))" for w
    by (simp add: ino map_of_del_ent [OF t(3)] ents cd zero)
  moreover have "ents_sorted (inorder t')" using ino sorted_del_ent [OF t(3)] by simp
  moreover have "size S' + size T' < 2 ^ 32" using small d by auto
  ultimately show ?thesis
    using ex t' by (auto simp: stores_def NaClIntervalRangeTreeRemoveVal_def
        NaClIntervalRangeTreeExtract_def)
qed

text \<open>
  The deltas of the end points below a value add up to the number of intervals that started
  there and have not ended.
\<close>

lemma sum_count: "finite A \<Longrightarrow> (\<Sum>x\<in>A. count M x) = size (filter_mset (\<lambda>x. x \<in> A) M)"
proof (induction M)
  case (add x M)
  have "count (add_mset x M) = (\<lambda>y. (if x = y then 1 else 0) + count M y)"
    by (simp add: fun_eq_iff)
  with add show ?case by (simp add: sum.distrib del: count_add_mset)
qed simp

lemma delta_sum_stores:
  assumes "stores t S T"
  shows "delta_sum (filter (\<lambda>e. fst e < v) (inorder t)) =
    of_nat (size (filter_mset (\<lambda>x. x < v) S)) - of_nat (size (filter_mset (\<lambda>x. x < v) T))"
proof -
  let ?xs = "filter (\<lambda>e. fst e < v) (inorder t)"
  from assms have sorted: "ents_sorted (inorder t)"
    and ents: "\<And>v. map_of (inorder t) v = (if endpoint_count S T v = 0 then None
         else Some (of_nat (endpoint_count S T v), endpoint_delta S T v))"
    by (simp_all add: stores_def)
  have dist: "distinct (map fst (inorder t))"
    using sorted by (simp add: strict_sorted_iff)
  then have dist': "distinct (map fst ?xs)" by (simp add: distinct_map_filter)
  have val: "snd (snd e) = endpoint_delta S T (fst e)" if "e \<in> set (inorder t)" for e
  proof -
    from that have "map_of (inorder t) (fst e) = Some (snd e)"
      by (intro map_of_is_SomeI [OF dist]) simp
    with ents [of "fst e"] show ?thesis by (auto split: if_splits dest: sym)
  qed
  have "delta_sum ?xs = sum_list (map (\<lambda>e. endpoint_delta S T (fst e)) ?xs)"
    using val by (intro arg_cong [where f = sum_list] map_cong) auto
  also have "\<dots> = sum_list (map (endpoint_delta S T) (map fst ?xs))"
    by (simp add: comp_def)
  also have "\<dots> = (\<Sum>x \<in> fst ` set ?xs. endpoint_delta S T x)"
    using dist' by (simp add: sum_list_distinct_conv_sum_set del: map_map)
  also have "\<dots> = (\<Sum>x | x < v. endpoint_delta S T x)"
  proof (rule sum.mono_neutral_left)
    have "endpoint_count S T x = 0" if "x \<notin> fst ` set (inorder t)" for x
      using that stores_keys [OF assms] by (simp add: endpoint_count_0)
    then show "\<forall>x \<in> {x. x < v} - fst ` set ?xs. endpoint_delta S T x = 0"
      by (force intro!: endpoint_delta_0)
  qed auto
  also have "\<dots> = of_nat (\<Sum>x | x < v. count S x) - of_nat (\<Sum>x | x < v. count T x)"
    by (simp add: endpoint_delta_def sum_subtractf)
  finally show ?thesis by (simp add: sum_count)
qed

subsection \<open>The tree stands for the multiset of its intervals\<close>

definition tree_stands_for :: "rtree \<Rightarrow> interval multiset \<Rightarrow> bool" where
  "tree_stands_for root M \<longleftrightarrow> stores root (image_mset fst M) (image_mset snd M) \<and>
     size M < max_intervals \<and> (\<forall>x \<in># M. fst x \<le> snd x)"

text \<open>A probe that is no end point: the delta counts the intervals around it.\<close>

lemma delta_around:
  assumes "tree_stands_for root M" and "v \<notin> fst ` set (inorder root)"
  shows "fst (NaClAvlTreeFindValue root 0 0 v) = 0 \<longleftrightarrow> \<not> (\<exists>x \<in># M. fst x < v \<and> v < snd x)"
    and "snd (NaClAvlTreeFindValue root 0 0 v) = Some (gap_left (inorder root) 0 v)"
proof -
  let ?S = "image_mset fst M" and ?T = "image_mset snd M"
  let ?around = "filter_mset (\<lambda>x. fst x < v \<and> v < snd x) M"
  from assms(1) have st: "stores root ?S ?T" and small: "size M < 2 ^ 31"
    and ordered: "\<forall>x \<in># M. fst x \<le> snd x"
    by (simp_all add: tree_stands_for_def max_intervals_def)
  then have sorted: "ents_sorted (inorder root)" "stats_ok root" by (simp_all add: stores_def)
  note find = find_value_inorder [OF sorted, of 0 0 v] find_ents_gap [OF sorted(1) assms(2)]
  from find show "snd (NaClAvlTreeFindValue root 0 0 v) = Some (gap_left (inorder root) 0 v)"
    by simp
  have keys: "v \<noteq> fst x" "v \<noteq> snd x" if "x \<in># M" for x
    using assms(2) stores_keys [OF st] that by auto
  have "filter_mset (\<lambda>x. fst x < v) M = filter_mset (\<lambda>x. snd x < v) M + ?around"
    using ordered keys
    by (intro multiset_eqI)
      (force simp: count_eq_zero_iff not_less_iff_gr_or_eq intro: order.strict_trans1)
  then have "size (filter_mset (\<lambda>x. fst x < v) M) =
      size (filter_mset (\<lambda>x. snd x < v) M) + size ?around" by simp
  then have "fst (NaClAvlTreeFindValue root 0 0 v) = of_nat (size ?around)"
    by (simp add: find delta_sum_stores [OF st] filter_mset_image_mset)
  moreover have "size ?around < 2 ^ 32"
    using order.strict_trans1 [OF size_filter_mset_lesseq small] by (rule order.strict_trans) simp
  then have "(of_nat (size ?around) :: u32) = 0 \<longleftrightarrow> size ?around = 0"
    by (intro of_nat_word_eq_0) simp
  ultimately show "fst (NaClAvlTreeFindValue root 0 0 v) = 0 \<longleftrightarrow> \<not> (\<exists>x \<in># M. fst x < v \<and> v < snd x)"
    by (auto simp: filter_mset_eq_mempty_iff)
qed

lemma find_endpoint:
  assumes "tree_stands_for root M" and "v \<in> fst ` set (inorder root)"
  shows "fst (NaClAvlTreeFindValue root 0 0 v) \<noteq> 0"
  using assms find_value_inorder find_ents_key
  by (simp add: tree_stands_for_def stores_def)

lemma tree_overlaps:
  assumes tree: "tree_stands_for root M" and "f \<le> l"
  shows "NaClIntervalRangeTreeOverlapsWith root f l = overlaps_spec M f l"
proof -
  from tree have st: "stores root (image_mset fst M) (image_mset snd M)"
    and ordered: "\<forall>x \<in># M. fst x \<le> snd x"
    by (simp_all add: tree_stands_for_def)
  have keys: "fst ` set (inorder root) = fst ` set_mset M \<union> snd ` set_mset M"
    using stores_keys [OF st] by simp
  obtain d1 g1 d2 g2 where find: "NaClAvlTreeFindValue root 0 0 f = (d1, g1)"
    "NaClAvlTreeFindValue root 0 0 l = (d2, g2)" by fastforce
  have code: "NaClIntervalRangeTreeOverlapsWith root f l \<longleftrightarrow> d1 \<noteq> 0 \<or> d2 \<noteq> 0 \<or> g1 \<noteq> g2"
    by (simp add: NaClIntervalRangeTreeOverlapsWith_def find)
  consider (fkey) "f \<in> fst ` set (inorder root)" | (lkey) "l \<in> fst ` set (inorder root)"
    | (none) "f \<notin> fst ` set (inorder root)" "l \<notin> fst ` set (inorder root)" by blast
  then show ?thesis
  proof cases
    case fkey
    then have "\<exists>x \<in># M. fst x \<le> f \<and> f \<le> snd x" using keys ordered by auto
    then have "overlaps_spec M f l" using \<open>f \<le> l\<close> by (auto simp: overlaps_spec_def intro: order.trans)
    with fkey show ?thesis using find_endpoint [OF tree fkey] by (simp add: code find)
  next
    case lkey
    then have "\<exists>x \<in># M. fst x \<le> l \<and> l \<le> snd x" using keys ordered by auto
    then have "overlaps_spec M f l" using \<open>f \<le> l\<close> by (auto simp: overlaps_spec_def intro: order.trans)
    with lkey show ?thesis using find_endpoint [OF tree lkey] by (simp add: code find)
  next
    case none
    from delta_around [OF tree none(1)] delta_around [OF tree none(2)]
    have d: "d1 = 0 \<longleftrightarrow> \<not> (\<exists>x \<in># M. fst x < f \<and> f < snd x)"
      "d2 = 0 \<longleftrightarrow> \<not> (\<exists>x \<in># M. fst x < l \<and> l < snd x)"
      and g: "g1 = Some (gap_left (inorder root) 0 f)" "g2 = Some (gap_left (inorder root) 0 l)"
      by (simp_all add: find)
    have "ents_sorted (inorder root)" using st by (simp add: stores_def)
    from same_gap [OF this \<open>f \<le> l\<close> none] g
    have gap: "g1 = g2 \<longleftrightarrow> \<not> (\<exists>k \<in> fst ` set (inorder root). f < k \<and> k < l)" by simp
    have ne: "fst x \<noteq> f" "fst x \<noteq> l" "snd x \<noteq> f" "snd x \<noteq> l" if "x \<in># M" for x
      using none keys that by auto
    have "overlaps_spec M f l \<longleftrightarrow> d1 \<noteq> 0 \<or> d2 \<noteq> 0 \<or> g1 \<noteq> g2"
    proof
      assume "overlaps_spec M f l"
      then obtain x where x: "x \<in># M" "fst x \<le> l" "f \<le> snd x" by (auto simp: overlaps_spec_def)
      with ne [OF x(1)] have "fst x < l" "f < snd x" by auto
      moreover have "fst x \<in> fst ` set (inorder root)" using x(1) keys by blast
      ultimately show "d1 \<noteq> 0 \<or> d2 \<noteq> 0 \<or> g1 \<noteq> g2"
        using d(1) gap x(1) ne(1) [OF x(1)] by (meson linorder_neqE)
    next
      assume "d1 \<noteq> 0 \<or> d2 \<noteq> 0 \<or> g1 \<noteq> g2"
      then consider x where "x \<in># M" "fst x < f" "f < snd x"
        | x where "x \<in># M" "fst x < l" "l < snd x"
        | k where "k \<in> fst ` set (inorder root)" "f < k" "k < l"
        using d gap by blast
      then show "overlaps_spec M f l"
      proof cases
        case 1
        with \<open>f \<le> l\<close> show ?thesis unfolding overlaps_spec_def by force
      next
        case 2
        with \<open>f \<le> l\<close> show ?thesis unfolding overlaps_spec_def by force
      next
        case 3
        with keys obtain x where "x \<in># M" "k = fst x \<or> k = snd x" by auto
        with 3 ordered show ?thesis unfolding overlaps_spec_def by force
      qed
    qed
    with code show ?thesis by simp
  qed
qed

interpretation tree_im: interval_multiset
  NaClIntervalRangeTreeCtor NaClIntervalRangeTreeAddInterval
  NaClIntervalRangeTreeRemoveInterval NaClIntervalRangeTreeOverlapsWith tree_stands_for
proof
  show "tree_stands_for NaClIntervalRangeTreeCtor {#}"
    by (simp add: tree_stands_for_def NaClIntervalRangeTreeCtor_def stores_empty max_intervals_def)
next
  fix s M and f l :: u32
  assume tree: "tree_stands_for s M" and "f \<le> l" and small: "Suc (size M) < max_intervals"
  let ?S = "image_mset fst M" and ?T = "image_mset snd M"
  from tree have "stores s ?S ?T" by (simp add: tree_stands_for_def)
  moreover have "size ?S + size ?T + 1 < 2 ^ 32" using small by (simp add: max_intervals_def)
  ultimately obtain t1 g1 where
    t1: "NaClAvlTreeInsert s (NaClIntervalRangeTreeNodeInit f 1) = Inr (t1, g1)"
      "stores t1 (add_mset f ?S) ?T"
    using stores_insert [of s ?S ?T 1 "add_mset f ?S" f ?T] by auto
  moreover have "size (add_mset f ?S) + size ?T + 1 < 2 ^ 32"
    using small by (simp add: max_intervals_def)
  ultimately obtain t2 g2 where
    t2: "NaClAvlTreeInsert t1 (NaClIntervalRangeTreeNodeInit l (-1)) = Inr (t2, g2)"
      "stores t2 (add_mset f ?S) (add_mset l ?T)"
    using stores_insert [of t1 "add_mset f ?S" ?T "-1" "add_mset f ?S" l "add_mset l ?T"] by auto
  with t1 tree \<open>f \<le> l\<close> small
  show "\<exists>s'. NaClIntervalRangeTreeAddInterval s f l = Inr s' \<and> tree_stands_for s' (add_mset (f, l) M)"
    by (simp add: NaClIntervalRangeTreeAddInterval_def tree_stands_for_def)
next
  fix s M and f l :: u32
  assume tree: "tree_stands_for s M" and "(f, l) \<in># M"
  then obtain M' where M: "M = add_mset (f, l) M'" by (meson multi_member_split)
  let ?S = "image_mset fst M'" and ?T = "image_mset snd M'"
  from tree M have "stores s (add_mset f ?S) (add_mset l ?T)" by (simp add: tree_stands_for_def)
  then obtain t1 where t1: "NaClIntervalRangeTreeRemoveVal s l (-1) = Inr t1"
      "stores t1 (add_mset f ?S) ?T"
    using stores_remove [of s "add_mset f ?S" "add_mset l ?T" "-1" l "add_mset f ?S" ?T] by auto
  then obtain t2 where t2: "NaClIntervalRangeTreeRemoveVal t1 f 1 = Inr t2" "stores t2 ?S ?T"
    using stores_remove [of t1 "add_mset f ?S" ?T 1 f ?S ?T] by auto
  from t1 t2 tree M
  show "\<exists>s'. NaClIntervalRangeTreeRemoveInterval s f l = Inr s' \<and>
      tree_stands_for s' (M - {#(f, l)#})"
    by (simp add: NaClIntervalRangeTreeRemoveInterval_def tree_stands_for_def)
next
  fix s M and f l :: u32
  assume "tree_stands_for s M" and "f \<le> l"
  then show "NaClIntervalRangeTreeOverlapsWith s f l = overlaps_spec M f l"
    by (rule tree_overlaps)
qed

text \<open>The height of the tree is logarithmic: an AVL tree of height \<open>h\<close> has many nodes.\<close>

fun avl_min :: "nat \<Rightarrow> nat" where
  "avl_min 0 = 0"
| "avl_min (Suc 0) = 1"
| "avl_min (Suc (Suc h)) = Suc (avl_min (Suc h) + avl_min h)"

lemma avl_min_mono: "avl_min h \<le> avl_min (Suc h)"
  by (induction h rule: avl_min.induct) auto

lemma avl_size: "avl t \<Longrightarrow> avl_min (height t) \<le> length (inorder t)"
proof (induction t)
  case (Node l n r)
  then have l: "avl_min (height l) \<le> length (inorder l)" and r: "avl_min (height r) \<le> length (inorder r)"
    by auto
  from Node.prems consider "height l = height r" | "height l = Suc (height r)"
    | "height r = Suc (height l)" by fastforce
  then show ?case
  proof cases
    case 1
    show ?thesis
    proof (cases "height r")
      case 0
      then show ?thesis using 1 by simp
    next
      case (Suc k)
      then show ?thesis using 1 l r avl_min_mono [of k] by simp
    qed
  next
    case 2
    then show ?thesis using l r by simp
  next
    case 3
    then show ?thesis using l r by simp
  qed
qed simp

lemma avl_min_exp: "2 ^ (h div 2) \<le> avl_min h + 1"
proof (induction h rule: avl_min.induct)
  case (3 h)
  then show ?case using avl_min_mono [of h] by simp
qed simp_all

lemma tree_nodes:
  assumes "tree_stands_for root M"
  shows "length (inorder root) \<le> 2 * size M"
proof -
  from assms have st: "stores root (image_mset fst M) (image_mset snd M)"
    by (simp add: tree_stands_for_def)
  then have "distinct (map fst (inorder root))" by (simp add: stores_def strict_sorted_iff)
  then have "length (inorder root) = card (fst ` set (inorder root))"
    by (metis distinct_card length_map set_map)
  also have "\<dots> = card (set_mset (image_mset fst M) \<union> set_mset (image_mset snd M))"
    using stores_keys [OF st] by simp
  also have "\<dots> \<le> card (set_mset (image_mset fst M)) + card (set_mset (image_mset snd M))"
    by (rule card_Un_le)
  also have "\<dots> \<le> size (image_mset fst M) + size (image_mset snd M)"
  proof -
    have "card (set_mset N) \<le> size N" for N :: "u32 multiset"
      by (metis card_mono count_empty finite_set_mset mset_set_set_mset_msubset size_mset_mono
          size_mset_set)
    then show ?thesis by (intro add_mono)
  qed
  finally show ?thesis by simp
qed

subsection \<open>Properties\<close>

text \<open>
  C14. On every sequence of additions, removals of present intervals and probes, the range
  tree gives the answers that the contract of the interface promises, and so does the linked
  list: the two implementations of the vtable cannot be told apart.
\<close>

theorem range_tree_equals_list:
  assumes "im_trace_ok {#} ps"
  shows "im_run NaClIntervalRangeTreeAddInterval NaClIntervalRangeTreeRemoveInterval
      NaClIntervalRangeTreeOverlapsWith NaClIntervalRangeTreeCtor ps = Inr (im_answers {#} ps) \<and>
    im_run NaClIntervalListMultisetAddInterval NaClIntervalListMultisetRemoveInterval
      NaClIntervalListMultisetOverlapsWith NaClIntervalListMultisetCtor ps = Inr (im_answers {#} ps)"
  using tree_im.fresh_run_answers [OF assms] list_im.fresh_run_answers [OF assms] by simp_all

theorem range_tree_equals_list_witness:
  "im_run NaClIntervalRangeTreeAddInterval NaClIntervalRangeTreeRemoveInterval
      NaClIntervalRangeTreeOverlapsWith NaClIntervalRangeTreeCtor
      [OpAdd 10 20, OpAdd 5 12, OpOverlaps 13 14, OpRemove 10 20, OpOverlaps 13 14,
       OpOverlaps 12 14] = Inr [True, False, True]"
proof -
  let ?ps = "[OpAdd 10 20, OpAdd 5 12, OpOverlaps 13 14, OpRemove 10 20, OpOverlaps 13 14,
       OpOverlaps 12 14]"
  have "im_trace_ok {#} ?ps" by (simp add: max_intervals_def)
  from range_tree_equals_list [OF this] show ?thesis by simp
qed

text \<open>
  C24. Insertion into a balanced tree with correct cached statistics never dereferences a
  null child, keeps balance and statistics, changes the height as it reports, and merges the
  end point into the sorted sequence of end points.
\<close>

theorem range_tree_insert:
  assumes "avl t" "stats_ok t" "ents_sorted (inorder t)"
  shows "\<exists>t' grew. NaClAvlTreeInsert t (NaClIntervalRangeTreeNodeInit v d) = Inr (t', grew) \<and>
    avl t' \<and> stats_ok t' \<and> ents_sorted (inorder t') \<and>
    height t' = height t + (if grew then 1 else 0) \<and> inorder t' = ins_ent v d (inorder t)"
proof -
  let ?node = "NaClIntervalRangeTreeNodeInit v d"
  have "rt_value ?node = v" "value_containment_delta ?node = d"
    by (simp_all add: NaClIntervalRangeTreeNodeInit_def)
  moreover obtain t' g where "NaClAvlTreeInsert t ?node = Inr (t', g)" "avl t'" "stats_ok t'"
    "height t' = height t + (if g then 1 else 0)"
    using insert_avl [OF assms(1,2), of ?node] by (auto elim: grownE)
  ultimately show ?thesis
    using insert_inorder [of t ?node t' g] sorted_ins_ent [OF assms(3), of v d] assms(3) by auto
qed

text \<open>
  C25. Extraction of a value that is in the tree never dereferences a null child nor aborts,
  keeps balance and statistics, and drops one reference of the value (and the node with the
  last one).
\<close>

theorem range_tree_extract:
  assumes "avl t" "stats_ok t" "ents_sorted (inorder t)" "v \<in> fst ` set (inorder t)"
  shows "\<exists>t'. NaClIntervalRangeTreeRemoveVal t v d = Inr t' \<and> avl t' \<and> stats_ok t' \<and>
    ents_sorted (inorder t') \<and> height t' \<le> height t \<and> height t \<le> height t' + 1 \<and>
    inorder t' = del_ent v d (inorder t)"
proof -
  let ?key = "NaClIntervalRangeTreeNodeInit v d"
  have key: "rt_value ?key = v" "value_containment_delta ?key = d"
    by (simp_all add: NaClIntervalRangeTreeNodeInit_def)
  with assms have "extracted (NaClAvlTreeExtract t ?key False) (del_ent v d (inorder t)) (height t)"
    using extract_ok [of t ?key] by simp
  then obtain t' p h where "NaClAvlTreeExtract t ?key False = Inr (t', p, h)" "avl t'" "stats_ok t'"
    "inorder t' = del_ent v d (inorder t)" "height t = height t' + (if h then 1 else 0)"
    by (rule extractedE)
  then show ?thesis
    using sorted_del_ent [OF assms(3), of v d]
    by (simp add: NaClIntervalRangeTreeRemoveVal_def NaClIntervalRangeTreeExtract_def)
qed

definition sample_tree :: rtree where
  "sample_tree =
     (case NaClIntervalRangeTreeAddInterval NULL 10 20 of Inl _ \<Rightarrow> NULL | Inr t \<Rightarrow> t)"

lemma sample_tree_ok:
  "avl sample_tree" "stats_ok sample_tree" "inorder sample_tree = [(10, 1, 1), (20, 1, -1)]"
  by (simp_all add: sample_tree_def NaClIntervalRangeTreeAddInterval_def insert_eqs after_right_def
      NaClIntervalRangeTreeNodeInit_def NaClRangeStatsUpdate_def stats_left_def stats_right_def
      stats_delta_def ent_of_def)

theorem range_tree_insert_witness:
  "\<exists>t' grew. NaClAvlTreeInsert sample_tree (NaClIntervalRangeTreeNodeInit 30 1) = Inr (t', grew) \<and>
    avl t' \<and> stats_ok t' \<and> inorder t' = [(10, 1, 1), (20, 1, -1), (30, 1, 1)]"
  using range_tree_insert [of sample_tree 30 1] by (auto simp: sample_tree_ok)

theorem range_tree_extract_witness:
  "\<exists>t'. NaClIntervalRangeTreeRemoveVal sample_tree 10 1 = Inr t' \<and> avl t' \<and>
    inorder t' = [(20, 1, -1)]"
  using range_tree_extract [of sample_tree 10 1] by (auto simp: sample_tree_ok)

lemma stored_height:
  assumes "tree_stands_for root M"
  shows "avl root" and "2 ^ (height root div 2) \<le> 2 * size M + 1"
proof -
  show "avl root" using assms by (simp add: tree_stands_for_def stores_def)
  have "2 ^ (height root div 2) \<le> avl_min (height root) + 1" by (rule avl_min_exp)
  also have "\<dots> \<le> length (inorder root) + 1" using avl_size [OF \<open>avl root\<close>] by simp
  also have "\<dots> \<le> 2 * size M + 1" using tree_nodes [OF assms] by simp
  finally show "2 ^ (height root div 2) \<le> 2 * size M + 1" .
qed

text \<open>
  C26. Whatever intervals a client has added and removed, the code ends with a balanced tree that is at
  most logarithmically high: with \<open>n\<close> intervals left, the recursion depth of every
  operation is bounded by \<open>2 * log (2 * n + 1) + 1\<close>, however many have been removed before.
\<close>

theorem range_tree_height:
  assumes "im_trace_ok {#} ps"
  shows "\<exists>root. im_final NaClIntervalRangeTreeAddInterval NaClIntervalRangeTreeRemoveInterval
      NaClIntervalRangeTreeCtor ps = Inr root \<and> avl root \<and>
    2 ^ (height root div 2) \<le> 2 * size (im_left {#} ps) + 1"
  using tree_im.run_final [OF tree_im.ctor_ok assms] stored_height by blast

theorem range_tree_height_witness:
  "\<exists>root. im_final NaClIntervalRangeTreeAddInterval NaClIntervalRangeTreeRemoveInterval NaClIntervalRangeTreeCtor
      [OpAdd 10 20, OpAdd 5 12, OpAdd 1 2, OpOverlaps 13 14, OpRemove 10 20] = Inr root \<and>
    avl root \<and> (2 :: nat) ^ (height root div 2) \<le> 5"
proof -
  let ?ps = "[OpAdd 10 20, OpAdd 5 12, OpAdd 1 2, OpOverlaps 13 14, OpRemove 10 20]"
  have "im_trace_ok {#} ?ps" by (simp add: max_intervals_def)
  from range_tree_height [OF this] show ?thesis by simp
qed

end
