(* ===== verification/Dyn_Array.thy ===== *)
theory Dyn_Array
  imports Nacl_Prelude
begin

text \<open>
  The dynamic array of \<open>service_runtime/dyn_array.c\<close>: a growable array of pointers with a
  bitmap of the occupied slots and a hint where to look for a free one.  It holds the
  descriptor table and the thread table of a sandbox.

  A NULL pointer is \<open>None\<close>.  The allocator is a parameter: \<open>alloc n\<close> says whether a request
  for \<open>n\<close> bytes succeeds; a successful request returns a block of exactly that many bytes, so a
  size that wrapped around shows as an access out of bounds.
\<close>

subsection \<open>Model\<close>

record 'a DynArray =
  num_entries :: u64
  ptr_array :: "'a option list"
  ptr_array_space :: u64
  available :: "u32 list"
  avail_ix :: u64

abbreviation (input) kBitsPerWord :: "'n::len word" where "kBitsPerWord \<equiv> 32"
abbreviation (input) kWordIndexShift :: nat where "kWordIndexShift \<equiv> 5"

definition BitsToAllocWords :: "u64 \<Rightarrow> u64" where
  "BitsToAllocWords nbits = drop_bit kWordIndexShift (nbits + kBitsPerWord - 1)"

definition BitsToIndex :: "u64 \<Rightarrow> u64" where
  "BitsToIndex nbits = drop_bit kWordIndexShift nbits"

definition BitsToOffset :: "u64 \<Rightarrow> u64" where
  "BitsToOffset nbits = nbits AND (kBitsPerWord - 1)"

text \<open>\<open>sizeof\<close> is 8 for a pointer and 4 for a word of the bitmap.\<close>

definition DynArrayCtor :: "(u64 \<Rightarrow> bool) \<Rightarrow> u64 \<Rightarrow> 'a DynArray option" where
  "DynArrayCtor alloc initial =
     (let initial_size = (if initial = 0 then 32 else initial) in
      if - 1 div 8 < initial_size \<or> - 1 div 4 < BitsToAllocWords initial_size then None
      else if \<not> alloc (initial_size * 8) then None
      else if \<not> alloc (BitsToAllocWords initial_size * 4) then None
      else Some \<lparr> num_entries = 0,
                  ptr_array = replicate (unat initial_size) None,
                  ptr_array_space = initial_size,
                  available = replicate (unat (BitsToAllocWords initial_size)) 0,
                  avail_ix = 0 \<rparr>)"

definition DynArrayGet :: "'a DynArray \<Rightarrow> u64 \<Rightarrow> 'a option run" where
  "DynArrayGet dap idx =
     (if idx < num_entries dap then
        if unat idx < length (ptr_array dap) then Inr (ptr_array dap ! unat idx) else Inl OutOfBounds
      else Inr None)"

text \<open>The loop that doubles the space; \<open>Some None\<close> is its early return on overflow.  It would
  not end on an array without space.\<close>

partial_function (option) desired_space :: "u64 \<Rightarrow> u64 \<Rightarrow> u64 option option" where
  "desired_space space idx =
     (if idx \<ge> space then
        let tmp = 2 * space in
        if tmp < space then Some None else desired_space tmp idx
      else Some (Some space))"

text \<open>\<open>grow xs bytes elem hi fill\<close>: \<open>realloc\<close> the array to \<open>bytes\<close> bytes of elements of
  \<open>elem\<close> bytes and \<open>memset\<close> the new elements below \<open>hi\<close>.\<close>

definition grow :: "'x list \<Rightarrow> u64 \<Rightarrow> u64 \<Rightarrow> u64 \<Rightarrow> 'x \<Rightarrow> 'x list run" where
  "grow xs bytes elem hi fill =
     (if unat (bytes div elem) < unat hi then Inl OutOfBounds
      else Inr (xs @ replicate (unat hi - length xs) fill))"

definition DynArrayGrow ::
  "(u64 \<Rightarrow> bool) \<Rightarrow> 'a DynArray \<Rightarrow> u64 \<Rightarrow> ('a DynArray \<times> bool) run" where
  "DynArrayGrow alloc dap desired =
     (if desired = ptr_array_space dap then Inr (dap, True)
      else if \<not> alloc (desired * 8) then Inr (dap, False)
      else
        andThen (grow (ptr_array dap) (desired * 8) 8 desired None) (\<lambda>new_space.
        let dap = dap\<lparr> ptr_array := new_space \<rparr>; new_avail_nwords = BitsToAllocWords desired in
        if \<not> alloc (new_avail_nwords * 4) then Inr (dap, False)
        else
          andThen (grow (available dap) (new_avail_nwords * 4) 4 new_avail_nwords 0) (\<lambda>new_avail.
          Inr (dap\<lparr> available := new_avail, ptr_array_space := desired \<rparr>, True))))"

definition DynArrayStore :: "'a DynArray \<Rightarrow> u64 \<Rightarrow> 'a option \<Rightarrow> 'a DynArray run" where
  "DynArrayStore dap idx ptr =
     (let ix = BitsToIndex idx; mask = push_bit (unat (BitsToOffset idx)) (1 :: u32) in
      if unat idx \<ge> length (ptr_array dap) \<or> unat ix \<ge> length (available dap) then Inl OutOfBounds
      else
        let dap = dap\<lparr> ptr_array := (ptr_array dap)[unat idx := ptr] \<rparr>;
            word = available dap ! unat ix;
            dap = (if ptr \<noteq> None
                   then dap\<lparr> available := (available dap)[unat ix := word OR mask] \<rparr>
                   else dap\<lparr> available := (available dap)[unat ix := word AND NOT mask],
                             avail_ix := (if ix < avail_ix dap then ix else avail_ix dap) \<rparr>) in
        Inr (if num_entries dap \<le> idx then dap\<lparr> num_entries := idx + 1 \<rparr> else dap))"

text \<open>\<open>None\<close> is a call that does not return.\<close>

definition DynArraySet ::
  "(u64 \<Rightarrow> bool) \<Rightarrow> 'a DynArray \<Rightarrow> u64 \<Rightarrow> 'a option \<Rightarrow> ('a DynArray \<times> bool) run option" where
  "DynArraySet alloc dap idx ptr =
     (case desired_space (ptr_array_space dap) idx of
        None \<Rightarrow> None
      | Some None \<Rightarrow> Some (Inr (dap, False))
      | Some (Some desired) \<Rightarrow> Some
          (andThen (DynArrayGrow alloc dap desired) (\<lambda>(dap, ok).
             if \<not> ok then Inr (dap, False)
             else andThen (DynArrayStore dap idx ptr) (\<lambda>dap. Inr (dap, True)))))"

text \<open>\<open>ffs\<close> of the C library: one plus the lowest set bit, 0 for 0.\<close>

definition ffs :: "u32 \<Rightarrow> nat" where
  "ffs w = (case find (bit w) [0..<32] of None \<Rightarrow> 0 | Some i \<Rightarrow> i + 1)"

function FirstAvail_loop :: "u32 list \<Rightarrow> nat \<Rightarrow> nat \<Rightarrow> nat option run" where
  "FirstAvail_loop avail ix last_ix =
     (if ix < last_ix then
        if ix \<ge> length avail then Inl OutOfBounds
        else if NOT (avail ! ix) \<noteq> 0 then Inr (Some ix)
        else FirstAvail_loop avail (ix + 1) last_ix
      else Inr None)"
  by pat_completeness auto
termination
  by (relation "measure (\<lambda>(avail, ix, last_ix). last_ix - ix)") auto

declare FirstAvail_loop.simps [simp del]

definition DynArrayFirstAvail :: "'a DynArray \<Rightarrow> ('a DynArray \<times> u64) run" where
  "DynArrayFirstAvail dap =
     andThen (FirstAvail_loop (available dap) (unat (avail_ix dap))
                (unat (BitsToAllocWords (ptr_array_space dap)))) (\<lambda>r.
       case r of
         Some ix \<Rightarrow> Inr (dap\<lparr> avail_ix := of_nat ix \<rparr>,
                        of_nat (ffs (NOT (available dap ! ix)) - 1) + push_bit kWordIndexShift (of_nat ix))
       | None \<Rightarrow> Inr (dap, ptr_array_space dap))"

subsection \<open>Invariant\<close>

text \<open>The slots as a partial function; the bitmap mirrors it, and below the hint every slot is
  taken.\<close>

definition slot :: "'a DynArray \<Rightarrow> nat \<Rightarrow> 'a option" where
  "slot dap i = (if i < length (ptr_array dap) then ptr_array dap ! i else None)"

definition max_space :: nat where
  "max_space = 2 ^ 40"

definition dyn_ok :: "'a DynArray \<Rightarrow> bool" where
  "dyn_ok dap \<longleftrightarrow>
     0 < unat (ptr_array_space dap) \<and> unat (ptr_array_space dap) \<le> max_space \<and>
     unat (ptr_array_space dap) \<le> length (ptr_array dap) \<and>
     length (available dap) = (unat (ptr_array_space dap) + 31) div 32 \<and>
     unat (num_entries dap) \<le> unat (ptr_array_space dap) \<and>
     (\<forall>i. unat (num_entries dap) \<le> i \<longrightarrow> slot dap i = None) \<and>
     (\<forall>i < 32 * length (available dap).
        bit (available dap ! (i div 32)) (i mod 32) \<longleftrightarrow> slot dap i \<noteq> None) \<and>
     (\<forall>i < 32 * unat (avail_ix dap). slot dap i \<noteq> None)"

lemma words_of_bits:
  "unat n \<le> max_space \<Longrightarrow> unat (BitsToAllocWords n) = (unat n + 31) div 32"
  by (simp add: BitsToAllocWords_def max_space_def drop_bit_eq_div unat_div unat_word_ariths
      add_diff_eq [symmetric])

lemma index_of_bit: "unat (BitsToIndex n) = unat n div 32"
  by (simp add: BitsToIndex_def drop_bit_eq_div unat_div)

lemma offset_of_bit: "unat (BitsToOffset n) = unat n mod 32"
proof -
  have "BitsToOffset n = take_bit 5 n"
    by (simp add: BitsToOffset_def take_bit_eq_mask mask_eq_exp_minus_1)
  then have "BitsToOffset n = n mod 32" by (simp add: take_bit_eq_mod)
  then show ?thesis by (simp add: unat_mod)
qed

lemma dyn_ok_bounds:
  assumes "dyn_ok dap" and "slot dap i \<noteq> None"
  shows "i < unat (ptr_array_space dap)" and "i < 32 * length (available dap)"
proof -
  have "i < unat (num_entries dap)"
    using assms unfolding dyn_ok_def by (meson not_le)
  with assms(1) show space: "i < unat (ptr_array_space dap)" unfolding dyn_ok_def by linarith
  from assms(1) have "length (available dap) = (unat (ptr_array_space dap) + 31) div 32"
    by (simp add: dyn_ok_def)
  with space show "i < 32 * length (available dap)" by linarith
qed

subsection \<open>Construction and reading\<close>

lemma DynArrayCtor_ok:
  assumes "DynArrayCtor alloc n = Some dap" and "unat n \<le> max_space"
  shows "dyn_ok dap \<and> (\<forall>i. slot dap i = None)"
proof -
  define m :: u64 where "m = (if n = 0 then 32 else n)"
  have m: "unat m \<le> max_space" "0 < unat m"
    using assms(2) by (auto simp: m_def max_space_def unat_gt_0)
  from assms(1) have dap: "dap = \<lparr> num_entries = 0, ptr_array = replicate (unat m) None,
      ptr_array_space = m, available = replicate (unat (BitsToAllocWords m)) 0, avail_ix = 0 \<rparr>"
    unfolding DynArrayCtor_def m_def [symmetric] by (simp add: Let_def split: if_splits)
  have "slot dap i = None" for i by (simp add: slot_def dap)
  moreover have "\<not> bit (available dap ! (i div 32)) (i mod 32)" if "i < 32 * length (available dap)" for i
    using that by (simp add: dap)
  ultimately show ?thesis using m words_of_bits [OF m(1)] by (simp add: dyn_ok_def dap)
qed

lemma DynArrayGet_slot:
  assumes "dyn_ok dap"
  shows "DynArrayGet dap idx = Inr (slot dap (unat idx))"
  using assms by (auto simp: DynArrayGet_def dyn_ok_def slot_def word_less_nat_alt)

subsection \<open>Growing and storing\<close>

lemma desired_space_terminates:
  assumes "space \<noteq> 0"
  shows "\<exists>r. desired_space space idx = Some r"
  using assms
proof (induction "2 ^ 64 - unat space" arbitrary: space rule: less_induct)
  case less
  show ?case
  proof (cases "space \<le> idx \<and> \<not> 2 * space < space")
    case True
    have pos: "0 < unat space" using less.prems by (simp add: unat_gt_0)
    have "unat (2 * space) = 2 * unat space mod 2 ^ 64" by (simp add: unat_word_ariths)
    moreover have "unat space < 2 ^ 64" using unsigned_less [of space] by simp
    moreover have "unat space \<le> unat (2 * space)" using True by (simp add: word_le_nat_alt not_less)
    ultimately have dbl: "unat space < unat (2 * space)" "unat (2 * space) < 2 ^ 64"
      using pos by (auto simp: mod_if split: if_splits)
    then have "2 ^ 64 - unat (2 * space) < 2 ^ 64 - unat space" by linarith
    moreover have "2 * space \<noteq> 0" using dbl(1) by (metis not_less_zero unat_0)
    ultimately obtain r where "desired_space (2 * space) idx = Some r" using less.hyps by blast
    with True show ?thesis by (subst desired_space.simps) (simp add: Let_def)
  next
    case False
    then show ?thesis by (subst desired_space.simps) (auto simp: Let_def)
  qed
qed

lemma desired_space_result:
  assumes "space \<noteq> 0" and "unat space \<le> max_space" and "unat idx < max_space div 2"
  shows "\<exists>d. desired_space space idx = Some (Some d) \<and> idx < d \<and> unat space \<le> unat d \<and>
    unat d \<le> max_space \<and> (d = space \<or> idx \<ge> space)"
  using assms(1,2)
proof (induction "max_space - unat space" arbitrary: space rule: less_induct)
  case less
  show ?case
  proof (cases "idx < space")
    case True
    with less.prems show ?thesis by (subst desired_space.simps) (auto simp: not_le)
  next
    case False
    have pos: "0 < unat space" using less.prems by (simp add: unat_gt_0)
    have le: "unat space \<le> unat idx" using False by (simp add: word_le_nat_alt not_less)
    have dbl: "unat (2 * space) = 2 * unat space"
      using le assms(3) by (simp add: unat_word_ariths max_space_def)
    have "2 * space \<noteq> 0" using dbl pos by (metis nat_0_less_mult_iff not_less_zero unat_0 zero_less_numeral)
    moreover have "unat (2 * space) \<le> max_space" using dbl le assms(3) by linarith
    moreover have "max_space - unat (2 * space) < max_space - unat space"
      using dbl pos le assms(3) by linarith
    ultimately obtain d where "desired_space (2 * space) idx = Some (Some d)" "idx < d"
      "unat (2 * space) \<le> unat d" "unat d \<le> max_space" using less.hyps by blast
    moreover have "\<not> 2 * space < space" using dbl by (simp add: word_less_nat_alt)
    ultimately show ?thesis
      using False dbl by (subst desired_space.simps) (auto simp: Let_def not_less)
  qed
qed

lemma grow_ok:
  "unat hi * unat elem < 2 ^ 64 \<Longrightarrow> elem \<noteq> 0 \<Longrightarrow>
   grow xs (hi * elem) elem hi fill = Inr (xs @ replicate (unat hi - length xs) fill)"
proof -
  assume a: "unat hi * unat elem < 2 ^ 64" "elem \<noteq> 0"
  have "unat (hi * elem) = unat hi * unat elem" using a(1) by (simp add: unat_word_ariths)
  then have "unat (hi * elem div elem) = unat hi" using a(2) by (simp add: unat_div unat_eq_0)
  then show ?thesis by (simp add: grow_def)
qed

lemma bit_set_slot:
  fixes w :: u32
  assumes "j < 32"
  shows "bit (w OR push_bit k 1) j \<longleftrightarrow> bit w j \<or> j = k"
    and "bit (w AND NOT (push_bit k 1)) j \<longleftrightarrow> bit w j \<and> j \<noteq> k"
  using assms by (auto simp: bit_simps)

lemma slot_simps:
  "slot (dap\<lparr> available := a \<rparr>) = slot dap" "slot (dap\<lparr> avail_ix := x \<rparr>) = slot dap"
  "slot (dap\<lparr> num_entries := k \<rparr>) = slot dap" "slot (dap\<lparr> ptr_array_space := k \<rparr>) = slot dap"
  by (simp_all add: slot_def fun_eq_iff)

lemma DynArrayGrow_ok:
  assumes "dyn_ok dap" and "unat (ptr_array_space dap) \<le> unat d" and "unat d \<le> max_space"
  obtains dap' ok where "DynArrayGrow alloc dap d = Inr (dap', ok)" and "dyn_ok dap'"
    and "slot dap' = slot dap" and "ok \<longrightarrow> ptr_array_space dap' = d"
    and "(\<forall>n. alloc n) \<longrightarrow> ok"
proof (cases "d = ptr_array_space dap")
  case True
  show ?thesis
    using assms(1) by (intro that [of dap True]) (simp_all add: DynArrayGrow_def True)
next
  case False
  show ?thesis
  proof (cases "alloc (d * 8)")
    case no: False
    show ?thesis
      using assms(1) no False by (intro that [of dap False]) (auto simp: DynArrayGrow_def)
  next
    case yes: True
    let ?xs = "ptr_array dap @ replicate (unat d - length (ptr_array dap)) None"
    let ?dap = "dap\<lparr> ptr_array := ?xs \<rparr>"
    have slot: "slot ?dap = slot dap" by (auto simp: slot_def fun_eq_iff nth_append)
    have ok: "dyn_ok ?dap"
      using assms(1) slot by (simp add: dyn_ok_def)
    have g: "grow (ptr_array dap) (d * 8) 8 d None = Inr ?xs"
      using assms(3) by (intro grow_ok) (simp_all add: max_space_def)
    let ?w = "BitsToAllocWords d"
    have w: "unat ?w = (unat d + 31) div 32" by (rule words_of_bits) (rule assms(3))
    show ?thesis
    proof (cases "alloc (?w * 4)")
      case no: False
      show ?thesis
        using no yes False g ok slot by (intro that [of ?dap False]) (auto simp: DynArrayGrow_def Let_def)
    next
      case yes2: True
      let ?av = "available dap @ replicate (unat ?w - length (available dap)) 0"
      have g2: "grow (available dap) (?w * 4) 4 ?w 0 = Inr ?av"
        using assms(3) w by (intro grow_ok) (simp_all add: max_space_def)
      let ?dap2 = "?dap\<lparr> available := ?av, ptr_array_space := d \<rparr>"
      have slot2: "slot ?dap2 = slot dap" using slot by (simp add: slot_simps)
      have len: "length (available dap) \<le> unat ?w"
        using assms(1,2) w by (simp add: dyn_ok_def div_le_mono)
      have bits: "bit (?av ! (i div 32)) (i mod 32) \<longleftrightarrow> slot dap i \<noteq> None"
        if "i < 32 * unat ?w" for i
      proof (cases "i < 32 * length (available dap)")
        case True
        with assms(1) show ?thesis by (simp add: dyn_ok_def nth_append)
      next
        case False
        then have "slot dap i = None" using dyn_ok_bounds(2) [OF assms(1)] by blast
        with False that show ?thesis by (auto simp: nth_append)
      qed
      have "dyn_ok ?dap2"
        unfolding dyn_ok_def slot2
      proof (intro conjI)
        have old: "0 < unat (ptr_array_space dap)" "unat (num_entries dap) \<le> unat (ptr_array_space dap)"
          "\<forall>i. unat (num_entries dap) \<le> i \<longrightarrow> slot dap i = None"
          "\<forall>i < 32 * unat (avail_ix dap). slot dap i \<noteq> None"
          using assms(1) by (simp_all add: dyn_ok_def)
        show "0 < unat (ptr_array_space ?dap2)" using old(1) assms(2) by simp
        show "unat (num_entries ?dap2) \<le> unat (ptr_array_space ?dap2)" using old(2) assms(2) by simp
        show "\<forall>i. unat (num_entries ?dap2) \<le> i \<longrightarrow> slot dap i = None" using old(3) by simp
        show "\<forall>i < 32 * unat (avail_ix ?dap2). slot dap i \<noteq> None" using old(4) by simp
        show "\<forall>i < 32 * length (available ?dap2).
            bit (available ?dap2 ! (i div 32)) (i mod 32) \<longleftrightarrow> slot dap i \<noteq> None"
          using bits len by (simp del: not_None_eq)
      qed (use assms(3) len w in simp_all)
      then show ?thesis
        using yes yes2 False g g2 slot2 by (intro that [of ?dap2 True]) (auto simp: DynArrayGrow_def Let_def)
    qed
  qed
qed

lemma DynArrayStore_ok:
  assumes "dyn_ok dap" and "idx < ptr_array_space dap"
  obtains dap' where "DynArrayStore dap idx ptr = Inr dap'" and "dyn_ok dap'"
    and "slot dap' = (slot dap)(unat idx := ptr)"
    and "ptr_array_space dap' = ptr_array_space dap"
proof -
  let ?i = "unat idx" and ?ix = "BitsToIndex idx" and ?off = "unat (BitsToOffset idx)"
  have i: "?i < unat (ptr_array_space dap)" using assms(2) by (simp add: word_less_nat_alt)
  have ok: "unat (ptr_array_space dap) \<le> length (ptr_array dap)"
    "length (available dap) = (unat (ptr_array_space dap) + 31) div 32"
    "unat (ptr_array_space dap) \<le> max_space"
    "unat (num_entries dap) \<le> unat (ptr_array_space dap)"
    "\<And>i. unat (num_entries dap) \<le> i \<Longrightarrow> slot dap i = None"
    "\<And>i. i < 32 * length (available dap) \<Longrightarrow>
       bit (available dap ! (i div 32)) (i mod 32) \<longleftrightarrow> slot dap i \<noteq> None"
    "\<And>i. i < 32 * unat (avail_ix dap) \<Longrightarrow> slot dap i \<noteq> None"
    using assms(1) by (simp_all add: dyn_ok_def del: not_None_eq)
  have ix: "unat ?ix = ?i div 32" "?i div 32 < length (available dap)" "?off = ?i mod 32"
    using i ok(2) by (auto simp: index_of_bit offset_of_bit)
  have len: "?i < length (ptr_array dap)" using i ok(1) by linarith
  define w where "w = available dap ! (?i div 32)"
  define w' where "w' = (if ptr \<noteq> None then w OR push_bit (?i mod 32) 1 else w AND NOT (push_bit (?i mod 32) 1))"
  define av where "av = (available dap)[?i div 32 := w']"
  define hint where "hint = (if ptr = None \<and> ?ix < avail_ix dap then ?ix else avail_ix dap)"
  define num where "num = (if num_entries dap \<le> idx then idx + 1 else num_entries dap)"
  define dap' where "dap' = dap\<lparr> ptr_array := (ptr_array dap)[?i := ptr], available := av,
      avail_ix := hint, num_entries := num \<rparr>"
  have run: "DynArrayStore dap idx ptr = Inr dap'"
    using len ix unfolding DynArrayStore_def Let_def dap'_def av_def w'_def w_def hint_def num_def
    by (cases ptr) simp_all
  have slot: "slot dap' = (slot dap)(?i := ptr)"
    using len by (auto simp: slot_def dap'_def fun_eq_iff)
  have num: "unat num = (if unat (num_entries dap) \<le> ?i then ?i + 1 else unat (num_entries dap))"
  proof -
    have "unat (idx + 1) = ?i + 1" using i ok(3) by (simp add: unat_word_ariths max_space_def)
    then show ?thesis by (simp add: num_def word_le_nat_alt)
  qed
  have bits: "bit (av ! (k div 32)) (k mod 32) \<longleftrightarrow> slot dap' k \<noteq> None" if "k < 32 * length av" for k
  proof (cases "k div 32 = ?i div 32")
    case True
    have "bit w' (k mod 32) \<longleftrightarrow> (if k mod 32 = ?i mod 32 then ptr \<noteq> None else bit w (k mod 32))"
    proof -
      have k: "k mod 32 < 32" by simp
      show ?thesis
        unfolding w'_def using bit_set_slot [OF k, of w "?i mod 32"] by (cases "ptr = None") (simp_all only:, auto)
    qed
    moreover have "k mod 32 = ?i mod 32 \<longleftrightarrow> k = ?i" using True by (metis mod_div_mult_eq)
    moreover have "bit w (k mod 32) \<longleftrightarrow> slot dap k \<noteq> None"
      using ok(6) [of k] that True by (simp add: w_def av_def del: not_None_eq)
    moreover have "av ! (k div 32) = w'" using True ix(2) by (simp add: av_def)
    ultimately show ?thesis by (simp add: slot del: not_None_eq)
  next
    case False
    then have "k \<noteq> ?i" by auto
    with False that ok(6) [of k] show ?thesis by (simp add: slot av_def del: not_None_eq)
  qed
  have hints: "slot dap' k \<noteq> None" if "k < 32 * unat hint" for k
  proof (cases "k = ?i")
    case True
    show ?thesis
    proof (cases "ptr = None")
      case None: True
      then have "unat hint \<le> ?i div 32"
        using ix(1) by (simp add: hint_def word_less_nat_alt not_less)
      with that True show ?thesis by linarith
    next
      case False
      with True show ?thesis by (simp add: slot)
    qed
  next
    case False
    have "unat hint \<le> unat (avail_ix dap)" by (simp add: hint_def word_less_nat_alt)
    with that ok(7) [of k] False show ?thesis by (simp add: slot del: not_None_eq)
  qed
  have "dyn_ok dap'"
    unfolding dyn_ok_def
  proof (intro conjI allI impI)
    show "slot dap' k = None" if "unat (num_entries dap') \<le> k" for k
    proof -
      have "unat (num_entries dap') = unat num" by (simp add: dap'_def)
      with that num have "unat (num_entries dap) \<le> k" "k \<noteq> ?i" by (auto split: if_splits)
      with ok(5) show ?thesis by (simp add: slot)
    qed
    show "bit (available dap' ! (k div 32)) (k mod 32) \<longleftrightarrow> slot dap' k \<noteq> None"
      if "k < 32 * length (available dap')" for k
      using bits [of k] that by (simp add: dap'_def del: not_None_eq)
    show "slot dap' k \<noteq> None" if "k < 32 * unat (avail_ix dap')" for k
      using hints [of k] that by (simp add: dap'_def del: not_None_eq)
  qed (use i ok(1-4) num in \<open>auto simp: dap'_def av_def\<close>)
  then show ?thesis by (rule that [OF run _ slot]) (simp add: dap'_def)
qed

lemma DynArraySet_ok:
  assumes "dyn_ok dap" and "unat idx < max_space div 2"
  obtains dap' ok where "DynArraySet alloc dap idx ptr = Some (Inr (dap', ok))" and "dyn_ok dap'"
    and "slot dap' = (if ok then (slot dap)(unat idx := ptr) else slot dap)"
    and "(\<forall>n. alloc n) \<longrightarrow> ok"
proof -
  have "ptr_array_space dap \<noteq> 0" "unat (ptr_array_space dap) \<le> max_space"
    using assms(1) by (auto simp: dyn_ok_def)
  from desired_space_result [OF this assms(2)] obtain d where
    d: "desired_space (ptr_array_space dap) idx = Some (Some d)" "idx < d"
      "unat (ptr_array_space dap) \<le> unat d" "unat d \<le> max_space" by blast
  from assms(1) d(3,4) obtain g ok where
    g: "DynArrayGrow alloc dap d = Inr (g, ok)" "dyn_ok g" "slot g = slot dap"
      "ok \<longrightarrow> ptr_array_space g = d" "(\<forall>n. alloc n) \<longrightarrow> ok"
    by (rule DynArrayGrow_ok)
  show ?thesis
  proof (cases ok)
    case False
    with d g show ?thesis by (intro that [of g False]) (simp_all add: DynArraySet_def)
  next
    case True
    with g(4) d(2) have "idx < ptr_array_space g" by simp
    with g(2) obtain dap' where "DynArrayStore g idx ptr = Inr dap'" "dyn_ok dap'"
      "slot dap' = (slot g)(unat idx := ptr)" by (rule DynArrayStore_ok)
    with True d g show ?thesis by (intro that [of dap' True]) (simp_all add: DynArraySet_def)
  qed
qed

subsection \<open>The first free slot\<close>

lemma ffs_least:
  assumes "w \<noteq> 0"
  shows "ffs w - 1 < 32 \<and> bit w (ffs w - 1) \<and> (\<forall>j < ffs w - 1. \<not> bit w j)"
proof -
  obtain j where j: "bit w j" using assms by (metis bit_eqI bit_0_eq bot_apply bot_bool_def)
  then have "j < 32" using bit_imp_le_length [of w j] by simp
  have "\<exists>i. find (bit w) [0..<32] = Some i"
  proof (rule ccontr)
    assume "\<not> ?thesis"
    then have "find (bit w) [0..<32] = None" by (cases "find (bit w) [0..<32]") auto
    with \<open>j < 32\<close> j show False by (auto simp: find_None_iff)
  qed
  then obtain i where i: "find (bit w) [0..<32] = Some i" ..
  then have "i < 32 \<and> bit w i \<and> (\<forall>j < i. \<not> bit w j)" by (auto simp: find_Some_iff)
  with i show ?thesis by (simp add: ffs_def)
qed

lemma FirstAvail_loop_result:
  assumes "last_ix \<le> length avail"
  shows "\<exists>r. FirstAvail_loop avail ix last_ix = Inr r \<and>
    (case r of
       None \<Rightarrow> \<forall>k. ix \<le> k \<and> k < last_ix \<longrightarrow> NOT (avail ! k) = 0
     | Some i \<Rightarrow> ix \<le> i \<and> i < last_ix \<and> NOT (avail ! i) \<noteq> 0 \<and>
         (\<forall>k. ix \<le> k \<and> k < i \<longrightarrow> NOT (avail ! k) = 0))"
  using assms
proof (induction avail ix last_ix rule: FirstAvail_loop.induct)
  case (1 avail ix last_ix)
  show ?case
  proof (cases "ix < last_ix \<and> NOT (avail ! ix) = 0")
    case True
    with "1.IH" "1.prems" obtain r where r: "FirstAvail_loop avail (ix + 1) last_ix = Inr r"
      "case r of
         None \<Rightarrow> \<forall>k. ix + 1 \<le> k \<and> k < last_ix \<longrightarrow> NOT (avail ! k) = 0
       | Some i \<Rightarrow> ix + 1 \<le> i \<and> i < last_ix \<and> NOT (avail ! i) \<noteq> 0 \<and>
           (\<forall>k. ix + 1 \<le> k \<and> k < i \<longrightarrow> NOT (avail ! k) = 0)" by auto
    have "FirstAvail_loop avail ix last_ix = Inr r"
      using True r(1) "1.prems" by (subst FirstAvail_loop.simps) simp
    moreover have "ix \<le> k \<longleftrightarrow> k = ix \<or> ix + 1 \<le> k" for k by auto
    ultimately show ?thesis using True r(2) by (cases r) auto
  next
    case False
    then show ?thesis using "1.prems" by (subst FirstAvail_loop.simps) auto
  qed
qed

lemma all_ones_bits:
  assumes "NOT (w :: u32) = 0" and "j < 32"
  shows "bit w j"
proof -
  have "NOT (NOT w) = NOT 0" by (simp only: assms(1))
  then have "w = - 1" by simp
  with assms(2) show ?thesis by simp
qed

lemma div_mod_split:
  fixes k i :: nat
  assumes "k < 32 * i + r" and "r \<le> 32"
  obtains "k div 32 < i" | "k div 32 = i" "k mod 32 < r"
proof (cases "k div 32 < i")
  case False
  have k: "k = 32 * (k div 32) + k mod 32" "k mod 32 < 32" by simp_all
  with assms False have "k div 32 = i" by linarith
  moreover from this k(1) assms(1) have "k mod 32 < r" by linarith
  ultimately show ?thesis by (rule that(2))
qed (rule that(1))

lemma FirstAvail_ok:
  assumes "dyn_ok dap"
  shows "\<exists>dap' pos. DynArrayFirstAvail dap = Inr (dap', pos) \<and> dyn_ok dap' \<and> slot dap' = slot dap \<and>
    slot dap (unat pos) = None \<and> (\<forall>i < unat pos. slot dap i \<noteq> None)"
proof -
  let ?n = "unat (ptr_array_space dap)" and ?av = "available dap" and ?h = "unat (avail_ix dap)"
  have ok: "?n \<le> max_space" "length ?av = (?n + 31) div 32"
    "\<And>i. i < 32 * length ?av \<Longrightarrow> bit (?av ! (i div 32)) (i mod 32) \<longleftrightarrow> slot dap i \<noteq> None"
    "\<And>i. i < 32 * ?h \<Longrightarrow> slot dap i \<noteq> None"
    using assms by (simp_all add: dyn_ok_def del: not_None_eq)
  have words: "unat (BitsToAllocWords (ptr_array_space dap)) = length ?av"
    using words_of_bits [OF ok(1)] ok(2) by simp
  obtain r where r: "FirstAvail_loop ?av ?h (length ?av) = Inr r"
    "case r of
       None \<Rightarrow> \<forall>k. ?h \<le> k \<and> k < length ?av \<longrightarrow> NOT (?av ! k) = 0
     | Some i \<Rightarrow> ?h \<le> i \<and> i < length ?av \<and> NOT (?av ! i) \<noteq> 0 \<and>
         (\<forall>k. ?h \<le> k \<and> k < i \<longrightarrow> NOT (?av ! k) = 0)"
    using FirstAvail_loop_result [of "length ?av" ?av ?h] by blast
  have full: "slot dap k \<noteq> None"
    if "\<forall>j. ?h \<le> j \<and> j < m \<longrightarrow> NOT (?av ! j) = 0" "k div 32 < m" "m \<le> length ?av" for k m
  proof (cases "k < 32 * ?h")
    case False
    then have "?h \<le> k div 32" by linarith
    with that all_ones_bits have "bit (?av ! (k div 32)) (k mod 32)" by simp
    with ok(3) [of k] that show ?thesis by (simp add: div_less_iff_less_mult del: not_None_eq)
  qed (use ok(4) in blast)
  show ?thesis
  proof (cases r)
    case None
    have "slot dap i \<noteq> None" if "i < ?n" for i
    proof (rule full [of "length ?av"])
      show "i div 32 < length ?av" using that ok(2) by linarith
    qed (use r(2) None in auto)
    moreover have "slot dap ?n = None"
      using dyn_ok_bounds(1) [OF assms, of ?n] by blast
    ultimately show ?thesis using assms r(1) None by (simp add: DynArrayFirstAvail_def words)
  next
    case (Some i)
    let ?b = "ffs (NOT (?av ! i)) - 1"
    have i: "?h \<le> i" "i < length ?av" "NOT (?av ! i) \<noteq> 0"
      "\<forall>k. ?h \<le> k \<and> k < i \<longrightarrow> NOT (?av ! k) = 0" using r(2) Some by auto
    note least = ffs_least [OF i(3)]
    let ?pos = "of_nat ?b + push_bit 5 (of_nat i) :: u64"
    have small: "i < 2 ^ 36" using i(2) ok(1,2) by (simp add: max_space_def)
    have b: "?b < 32" using least by simp
    have pos: "unat ?pos = 32 * i + ?b"
    proof -
      have "?pos = of_nat (?b + 32 * i)" by (simp add: push_bit_eq_mult)
      moreover have "?b + 32 * i < 2 ^ 64" using small b by simp
      ultimately show ?thesis by (simp add: unat_of_nat take_bit_nat_eq_self del: of_nat_add of_nat_mult)
    qed
    have bits: "bit (?av ! (k div 32)) (k mod 32) \<longleftrightarrow> slot dap k \<noteq> None" if "k < 32 * i + 32" for k
      using ok(3) [of k] that i(2) by simp
    have bn: "bit (?av ! i) j \<longleftrightarrow> \<not> bit (NOT (?av ! i)) j" if "j < 32" for j
      using that by (simp add: bit_not_iff)
    have none: "slot dap (unat ?pos) = None"
      using bits [of "32 * i + ?b"] bn [OF b] least b unfolding pos by simp
    have all: "slot dap k \<noteq> None" if "k < unat ?pos" for k
    proof -
      from that pos b have "k < 32 * i + ?b" "?b \<le> 32" by simp_all
      then show ?thesis
      proof (cases rule: div_mod_split)
        case 1
        then show ?thesis using full [of i k] i(2,4) by simp
      next
        case 2
        then have "bit (?av ! (k div 32)) (k mod 32)" using bn [of "k mod 32"] least by simp
        then show ?thesis using bits [of k] \<open>k < 32 * i + ?b\<close> b by simp
      qed
    qed
    have "unat (of_nat i :: u64) = i" using small by (simp add: unat_of_nat take_bit_nat_eq_self)
    moreover have "slot dap k \<noteq> None" if "k < 32 * i" for k using all pos that by simp
    ultimately have "dyn_ok (dap\<lparr> avail_ix := of_nat i \<rparr>)"
      using assms by (simp add: dyn_ok_def slot_simps del: not_None_eq)
    then show ?thesis
      using r(1) Some none all by (simp add: DynArrayFirstAvail_def words slot_simps)
  qed
qed

text \<open>\<open>DynArrayFirstAvail\<close> returns the smallest index whose slot is empty; it is at most the
  size of the array, and only its hint changes.\<close>

theorem dyn_array_first_avail:
  assumes "dyn_ok dap"
  shows "\<exists>dap' pos. DynArrayFirstAvail dap = Inr (dap', pos) \<and> dyn_ok dap' \<and> slot dap' = slot dap \<and>
    slot dap (unat pos) = None \<and> (\<forall>i < unat pos. slot dap i \<noteq> None)"
  using assms by (rule FirstAvail_ok)

text \<open> C34. \<open>DynArraySet\<close> always returns; it either reports failure of the allocator and keeps
  every slot, or sets exactly the given slot, growing the array as far as needed; with an
  allocator that does not fail it succeeds.\<close>

theorem dyn_array_set:
  assumes "dyn_ok dap" and "unat idx < max_space div 2"
  shows "\<exists>dap' ok. DynArraySet alloc dap idx ptr = Some (Inr (dap', ok)) \<and> dyn_ok dap' \<and>
    slot dap' = (if ok then (slot dap)(unat idx := ptr) else slot dap) \<and>
    ((\<forall>n. alloc n) \<longrightarrow> ok)"
proof -
  obtain dap' ok where "DynArraySet alloc dap idx ptr = Some (Inr (dap', ok))" "dyn_ok dap'"
    "slot dap' = (if ok then (slot dap)(unat idx := ptr) else slot dap)" "(\<forall>n. alloc n) \<longrightarrow> ok"
    by (rule DynArraySet_ok [OF assms])
  then show ?thesis by blast
qed

definition sample_array :: "nat DynArray" where
  "sample_array = \<lparr> num_entries = 0, ptr_array = replicate 32 None, ptr_array_space = 32,
     available = [0], avail_ix = 0 \<rparr>"

lemma sample_array_ctor: "DynArrayCtor (\<lambda>_. True) 32 = Some sample_array"
  by (simp add: DynArrayCtor_def sample_array_def BitsToAllocWords_def drop_bit_eq_div Let_def)

lemma sample_array_ok: "dyn_ok sample_array"
  using DynArrayCtor_ok [OF sample_array_ctor] by (simp add: max_space_def)

lemma dyn_array_first_avail_witness:
  "\<exists>dap' pos. DynArrayFirstAvail sample_array = Inr (dap', pos) \<and> dyn_ok dap' \<and>
    slot dap' = slot sample_array \<and>
    slot sample_array (unat pos) = None \<and> (\<forall>i < unat pos. slot sample_array i \<noteq> None)"
  by (rule dyn_array_first_avail [OF sample_array_ok])

lemma dyn_array_set_witness:
  "\<exists>dap' ok. DynArraySet (\<lambda>_. True) sample_array 40 (Some 5) = Some (Inr (dap', ok)) \<and> dyn_ok dap' \<and>
    slot dap' = (if ok then (slot sample_array)(unat (40 :: u64) := Some 5) else slot sample_array) \<and>
    ((\<forall>n. (\<lambda>_ :: u64. True) n) \<longrightarrow> ok)"
proof -
  have "unat (40 :: u64) < max_space div 2" by (simp add: max_space_def)
  then show ?thesis by (rule dyn_array_set [OF sample_array_ok])
qed

subsection \<open>The interface\<close>

text \<open>A table of slots with a search for a free one, as the descriptor table uses it.\<close>

locale slot_table =
  fixes ok :: "'t \<Rightarrow> bool"
    and slots :: "'t \<Rightarrow> nat \<Rightarrow> 'a option"
    and get :: "'t \<Rightarrow> u64 \<Rightarrow> 'a option run"
    and set_slot :: "'t \<Rightarrow> u64 \<Rightarrow> 'a option \<Rightarrow> ('t \<times> bool) run option"
    and first_free :: "'t \<Rightarrow> ('t \<times> u64) run"
  assumes get_law: "ok t \<Longrightarrow> get t i = Inr (slots t (unat i))"
    and set_law: "ok t \<Longrightarrow> unat i < max_space div 2 \<Longrightarrow>
      \<exists>t' b. set_slot t i x = Some (Inr (t', b)) \<and> ok t' \<and>
        slots t' = (if b then (slots t)(unat i := x) else slots t)"
    and first_free_law: "ok t \<Longrightarrow>
      \<exists>t' i. first_free t = Inr (t', i) \<and> ok t' \<and> slots t' = slots t \<and>
        slots t (unat i) = None \<and> (\<forall>j < unat i. slots t j \<noteq> None)"
begin

text \<open>Allocating: the first free slot is set, and no other slot changes.\<close>

lemma allocate:
  assumes "ok t" and "first_free t = Inr (t1, i)" and "unat i < max_space div 2"
  shows "\<exists>t2 b. set_slot t1 i (Some x) = Some (Inr (t2, b)) \<and> ok t2 \<and>
    (b \<longrightarrow> slots t \<subseteq>\<^sub>m slots t2 \<and> get t2 i = Inr (Some x)) \<and> (\<not> b \<longrightarrow> slots t2 = slots t)"
proof -
  have t1: "ok t1" "slots t1 = slots t" "slots t (unat i) = None"
    using first_free_law [OF assms(1)] assms(2) by auto
  obtain t2 b where "set_slot t1 i (Some x) = Some (Inr (t2, b))" "ok t2"
    "slots t2 = (if b then (slots t1)(unat i := Some x) else slots t1)"
    using set_law [OF t1(1) assms(3)] by blast
  with t1 show ?thesis by (auto simp: get_law map_le_def dom_def)
qed

lemma set_get:
  assumes "ok t" and "unat i < max_space div 2" and "set_slot t i x = Some (Inr (t', True))"
  shows "get t' j = Inr (if j = i then x else slots t (unat j))"
proof -
  have "ok t'" "slots t' = (slots t)(unat i := x)" using set_law [OF assms(1,2), of x] assms(3) by auto
  moreover have "unat j = unat i \<longleftrightarrow> j = i" by (rule word_unat_eq_iff [symmetric])
  ultimately show ?thesis by (simp add: get_law)
qed

end

interpretation dyn: slot_table dyn_ok slot DynArrayGet "DynArraySet alloc" DynArrayFirstAvail for alloc
proof (unfold_locales, goal_cases)
  case 1 then show ?case by (rule DynArrayGet_slot)
next
  case (2 t i x) then show ?case by (metis DynArraySet_ok)
next
  case 3 then show ?case by (rule FirstAvail_ok)
qed

end
