(* ===== verification/Nacl_App.thy ===== *)
theory Nacl_App
  imports Range_Tree Vmmap Dyn_Array
begin

text \<open>
  The part of \<open>struct NaClApp\<close> (\<open>service_runtime/sel_ldr.h\<close>) that describes the address
  space, the address translation of \<open>sel_ldr-inl.h\<close> (as built for x86-64), the descriptor table and the
  bookkeeping of pending I/O of \<open>sel_ldr.c\<close>.

  The reference counts of descriptor objects are the field \<open>desc_refs\<close> of the memory map,
  which shares them with the descriptor table.  Calls to the host kernel are recorded in
  \<open>host_log\<close>; their results come from a parameter \<open>os\<close> of the operations, any function of the
  calls so far.  The mutexes are not modelled: each operation runs alone.
\<close>

datatype host_call =
    HostMprotect u64 u64 u32
  | HostMmapNone u64 u64
  | HostMapAnon u64 u64 u32 u32 u64
  | HostMapDesc nat u64 u64 u32 u32 u64
  | HostMapTrusted nat u64 u32 u32 u64
  | HostUnmapTrusted u64 u64
  | HostMemset u64 u64
  | HostFlushCode u64 u64
  | HostShmCreate u64
  | HostPageFree u64 u64
  | HostMadviseFree u64 u64
  | HostAllocateSpace u64 bool
  | HostPageAlloc u64
  | HostErrno

type_synonym os = "host_call list \<Rightarrow> host_call \<Rightarrow> u64"

record NaClApp =
  addr_bits :: nat
  mem_start :: u64
  static_text_end :: u64
  dynamic_text_start :: u64
  dynamic_text_end :: u64
  rodata_start :: u64
  data_start :: u64
  data_end :: u64
  break_addr :: u64
  bundle_size :: u32
  pnacl_mode :: bool
  enable_dyncode_syscalls :: bool
  mem_map :: NaClVmmap
  desc_tbl :: "nat DynArray"
  mem_io_regions :: rtree
  host_log :: "host_call list"

text \<open>Issue a call to the host and log it.\<close>

definition host :: "os \<Rightarrow> 'a NaClApp_scheme \<Rightarrow> host_call \<Rightarrow> u64 \<times> 'a NaClApp_scheme" where
  "host os nap call = (os (host_log nap) call, nap\<lparr> host_log := host_log nap @ [call] \<rparr>)"

text \<open>\<open>HostErrno\<close> stands for reading \<open>errno\<close> and translating it
  (\<open>NaClXlateErrno\<close>).  A trusted mapping that cannot be removed is fatal
  (\<open>desc/posix/nacl_desc.c\<close>).\<close>

definition NaClDescUnmapUnsafe :: "os \<Rightarrow> 'a NaClApp_scheme \<Rightarrow> u64 \<Rightarrow> u64 \<Rightarrow> 'a NaClApp_scheme run" where
  "NaClDescUnmapUnsafe os nap addr len =
     (let (rv, nap) = host os nap (HostUnmapTrusted addr len) in
      if rv \<noteq> 0 then Inl LogFatal else Inr nap)"

text \<open>The value \<open>-e\<close> that a system call returns for an error, as the 32-bit pattern.\<close>

definition neg_errno :: "int \<Rightarrow> u32" where
  "neg_errno e = word_of_int (- e)"

subsection \<open>Address translation (sel_ldr-inl.h)\<close>

abbreviation (input) kNaClBadAddress :: u64 where "kNaClBadAddress \<equiv> - 1"

definition addr_limit :: "'a NaClApp_scheme \<Rightarrow> u64" where
  "addr_limit nap = push_bit (addr_bits nap) 1"

definition NaClUserToSysAddrNullOkay :: "'a NaClApp_scheme \<Rightarrow> u64 \<Rightarrow> u64" where
  "NaClUserToSysAddrNullOkay nap uaddr =
     (if addr_limit nap \<le> uaddr then kNaClBadAddress else uaddr + mem_start nap)"

definition NaClUserToSysAddr :: "'a NaClApp_scheme \<Rightarrow> u64 \<Rightarrow> u64" where
  "NaClUserToSysAddr nap uaddr =
     (if uaddr = 0 \<or> addr_limit nap \<le> uaddr then kNaClBadAddress else uaddr + mem_start nap)"

definition NaClIsUserAddr :: "'a NaClApp_scheme \<Rightarrow> u64 \<Rightarrow> bool" where
  "NaClIsUserAddr nap sysaddr \<longleftrightarrow>
     mem_start nap \<le> sysaddr \<and> sysaddr < mem_start nap + addr_limit nap"

definition NaClUserToSysAddrRange :: "'a NaClApp_scheme \<Rightarrow> u64 \<Rightarrow> u64 \<Rightarrow> u64" where
  "NaClUserToSysAddrRange nap uaddr nbytes =
     (let end_addr = uaddr + nbytes in
      if uaddr = 0 then kNaClBadAddress
      else if end_addr < uaddr then kNaClBadAddress
      else if addr_limit nap < end_addr then kNaClBadAddress
      else uaddr + mem_start nap)"

definition NaClUserToSys :: "'a NaClApp_scheme \<Rightarrow> u64 \<Rightarrow> u64 run" where
  "NaClUserToSys nap uaddr =
     (if uaddr = 0 \<or> addr_limit nap \<le> uaddr then Inl LogFatal else Inr (uaddr + mem_start nap))"

definition NaClSysToUser :: "'a NaClApp_scheme \<Rightarrow> u64 \<Rightarrow> u64 run" where
  "NaClSysToUser nap sysaddr =
     (if sysaddr < mem_start nap \<or> mem_start nap + addr_limit nap \<le> sysaddr then Inl LogFatal
      else Inr (sysaddr - mem_start nap))"

definition NaClUserToSysStackAddr :: "'a NaClApp_scheme \<Rightarrow> u64 \<Rightarrow> u64" where
  "NaClUserToSysStackAddr nap stackaddr = stackaddr"

definition NaClSysToUserStackAddr :: "'a NaClApp_scheme \<Rightarrow> u64 \<Rightarrow> u64" where
  "NaClSysToUserStackAddr nap stackaddr = stackaddr"

definition NaClRawUserStackAddrNormalize :: "u64 \<Rightarrow> u32" where
  "NaClRawUserStackAddrNormalize stack_addr = ucast stack_addr"

definition NaClEndOfStaticText :: "'a NaClApp_scheme \<Rightarrow> u64" where
  "NaClEndOfStaticText nap = static_text_end nap"

definition NaClSandboxCodeAddr :: "'a NaClApp_scheme \<Rightarrow> u64 \<Rightarrow> u64" where
  "NaClSandboxCodeAddr nap addr =
     (let addr = addr + scast (bundle_size nap) - 1;
          addr = addr AND NOT (scast (bundle_size nap) - 1) in
      mem_start nap + ucast (ucast addr :: u32))"

definition NaClIsValidJumpTarget :: "'a NaClApp_scheme \<Rightarrow> u64 \<Rightarrow> bool" where
  "NaClIsValidJumpTarget nap addr \<longleftrightarrow>
     addr AND (scast (bundle_size nap) - 1) = 0 \<and> addr < dynamic_text_end nap"

subsection \<open>The address space is a window of the host's\<close>

definition space_ok :: "'a NaClApp_scheme \<Rightarrow> bool" where
  "space_ok nap \<longleftrightarrow> 16 < addr_bits nap \<and> addr_bits nap \<le> 32 \<and>
     unat (mem_start nap) + 2 ^ addr_bits nap < 2 ^ 64"

definition user_addr :: "'a NaClApp_scheme \<Rightarrow> nat \<Rightarrow> bool" where
  "user_addr nap a \<longleftrightarrow> a < 2 ^ addr_bits nap"

lemma unat_addr_limit:
  assumes "space_ok nap"
  shows "unat (addr_limit nap) = 2 ^ addr_bits nap" and "(2 :: nat) ^ addr_bits nap \<le> 2 ^ 32"
proof -
  have "addr_bits nap \<le> 32" using assms by (simp add: space_ok_def)
  then show le: "(2 :: nat) ^ addr_bits nap \<le> 2 ^ 32" by (rule power_increasing) simp
  then have "(2 :: nat) ^ addr_bits nap < 2 ^ 64" by (rule le_less_trans) simp
  then show "unat (addr_limit nap) = 2 ^ addr_bits nap"
  proof -
    assume lt: "(2 :: nat) ^ addr_bits nap < 2 ^ 64"
    have "addr_limit nap = of_nat (2 ^ addr_bits nap)" by (simp add: addr_limit_def push_bit_eq_mult)
    with lt show "unat (addr_limit nap) = 2 ^ addr_bits nap"
      by (simp add: unat_of_nat take_bit_nat_eq_self del: of_nat_power)
  qed
qed

lemma unat_limit_end:
  "space_ok nap \<Longrightarrow> unat (mem_start nap + addr_limit nap) = unat (mem_start nap) + 2 ^ addr_bits nap"
  using unat_addr_limit(1) [of nap] by (simp add: space_ok_def unat_add_small)

lemma UserToSys_iff:
  assumes "space_ok nap"
  shows "NaClUserToSys nap u =
    (if 0 < unat u \<and> user_addr nap (unat u) then Inr (mem_start nap + u) else Inl LogFatal)"
  using unat_addr_limit(1) [OF assms]
  by (auto simp: NaClUserToSys_def user_addr_def word_le_nat_alt unat_gt_0 add.commute)

lemma unat_mem_start_add:
  assumes "space_ok nap" and "user_addr nap (unat u)"
  shows "unat (mem_start nap + u) = unat (mem_start nap) + unat u"
  using assms by (intro unat_add_small) (simp add: space_ok_def user_addr_def)

lemma SysToUser_UserToSys:
  assumes "space_ok nap" and "user_addr nap (unat u)"
  shows "NaClSysToUser nap (mem_start nap + u) = Inr u"
  using unat_mem_start_add [OF assms] unat_limit_end [OF assms(1)] assms(2)
  by (simp add: NaClSysToUser_def word_less_nat_alt word_le_nat_alt user_addr_def)

lemma UserToSysAddrRange_iff:
  assumes "space_ok nap"
  shows "NaClUserToSysAddrRange nap u n =
    (if 0 < unat u \<and> unat u + unat n \<le> 2 ^ addr_bits nap then mem_start nap + u else kNaClBadAddress)"
proof -
  note lim = unat_addr_limit [OF assms]
  show ?thesis
  proof (cases "unat u + unat n < 2 ^ 64")
    case True
    then have "unat (u + n) = unat u + unat n" by (simp add: unat_add_small)
    with lim show ?thesis
      by (auto simp: NaClUserToSysAddrRange_def Let_def word_less_nat_alt unat_gt_0 add.commute)
  next
    case False
    then have "\<not> unat u + unat n \<le> 2 ^ addr_bits nap" using lim(2) by (auto simp: not_less)
    moreover have "u + n < u"
    proof -
      have "unat (u + n) = unat u + unat n - 2 ^ 64"
      proof -
        have "a mod m = a - m" if "m \<le> a" "a < 2 * m" for a m :: nat
          using that by (simp add: le_mod_geq)
        moreover have "unat u + unat n < 2 * 2 ^ 64"
          using unat_lt64 [of u] unat_lt64 [of n] by linarith
        ultimately have "(unat u + unat n) mod 2 ^ 64 = unat u + unat n - 2 ^ 64"
          using False by (simp add: not_less)
        then show ?thesis by (simp add: unat_word_ariths)
      qed
      with False unat_lt64 [of n] show ?thesis by (simp add: word_less_nat_alt)
    qed
    ultimately show ?thesis by (auto simp: NaClUserToSysAddrRange_def Let_def)
  qed
qed

text \<open>The range check never hands out the error value for a good range.\<close>

lemma range_not_bad:
  assumes "space_ok nap" and "unat u < 2 ^ addr_bits nap"
  shows "mem_start nap + u \<noteq> kNaClBadAddress"
proof
  assume eq: "mem_start nap + u = - 1"
  have "unat (mem_start nap + u) = unat (mem_start nap) + unat u"
    using assms by (intro unat_mem_start_add) (simp_all add: user_addr_def)
  moreover have "unat (- 1 :: u64) = 2 ^ 64 - 1" by (simp add: unsigned_minus_1_eq_mask mask_eq_exp_minus_1)
  ultimately show False using assms eq by (simp add: space_ok_def)
qed

text \<open> C20. Address translation is exact: a range is accepted iff it does not start at 0 and lies
  in the user address space (no wrap-around gets through), the result is the start of the
  range in the window of the host's address space, every address of the range is then a user
  address of the sandbox, and translating back gives the user address.\<close>

theorem translation_exact:
  assumes "space_ok nap" and "n \<noteq> 0"
  shows "(NaClUserToSysAddrRange nap u n \<noteq> kNaClBadAddress \<longleftrightarrow>
      u \<noteq> 0 \<and> unat u + unat n \<le> 2 ^ addr_bits nap) \<and>
    (NaClUserToSysAddrRange nap u n \<noteq> kNaClBadAddress \<longrightarrow>
      NaClUserToSysAddrRange nap u n = mem_start nap + u \<and>
      (\<forall>k < unat n. NaClIsUserAddr nap (mem_start nap + u + of_nat k) \<and>
        NaClSysToUser nap (mem_start nap + u + of_nat k) = Inr (u + of_nat k)))"
proof -
  have range: "NaClUserToSysAddrRange nap u n \<noteq> kNaClBadAddress"
    if "u \<noteq> 0" "unat n \<noteq> 0" "unat u + unat n \<le> 2 ^ addr_bits nap"
  proof -
    have "unat u < 2 ^ addr_bits nap" using that(2,3) by linarith
    from range_not_bad [OF assms(1) this] that show ?thesis
      by (simp add: UserToSysAddrRange_iff [OF assms(1)] unat_gt_0)
  qed
  have inside: "NaClIsUserAddr nap (mem_start nap + u + of_nat k) \<and>
      NaClSysToUser nap (mem_start nap + u + of_nat k) = Inr (u + of_nat k)"
    if "k < unat n" "unat u + unat n \<le> 2 ^ addr_bits nap" for k
  proof -
    have "k < 2 ^ 64" using that(1) unat_lt64 [of n] by linarith
    then have k: "unat (of_nat k :: u64) = k" by (simp add: unat_of_nat take_bit_nat_eq_self)
    have sum: "unat (u + of_nat k) = unat u + k"
      using that unat_addr_limit(2) [OF assms(1)] k by (subst unat_add_small) simp_all
    then have ua: "user_addr nap (unat (u + of_nat k))" using that by (simp add: user_addr_def)
    note conv = SysToUser_UserToSys [OF assms(1) ua]
    moreover have "NaClIsUserAddr nap (mem_start nap + (u + of_nat k))"
      using unat_mem_start_add [OF assms(1) ua] unat_limit_end [OF assms(1)] ua
      by (simp add: NaClIsUserAddr_def word_less_nat_alt word_le_nat_alt user_addr_def)
    ultimately show ?thesis by (simp add: add.assoc)
  qed
  show ?thesis
    using range inside assms(2) by (auto simp: UserToSysAddrRange_iff [OF assms(1)] unat_gt_0 unat_eq_0)
qed

definition sample_space :: NaClApp where
  "sample_space = \<lparr> addr_bits = 32, mem_start = 0x7f0000000000, static_text_end = 0x20000,
     dynamic_text_start = 0x20000, dynamic_text_end = 0x100000, rodata_start = 0x100000,
     data_start = 0x110000, data_end = 0x120000, break_addr = 0x120000, bundle_size = 32,
     pnacl_mode = False, enable_dyncode_syscalls = True,
     mem_map = NaClVmmapCtor (\<lambda>_. 0), desc_tbl = sample_array, mem_io_regions = NaClIntervalRangeTreeCtor,
     host_log = [] \<rparr>"

lemma sample_space_ok: "space_ok sample_space"
  by (simp add: space_ok_def sample_space_def)

lemma translation_exact_witness:
  "NaClUserToSysAddrRange sample_space 0x1000 8 = mem_start sample_space + 0x1000 \<and>
   NaClSysToUser sample_space (mem_start sample_space + 0x1000 + of_nat 7) = Inr (0x1000 + of_nat 7)"
proof -
  have "(8 :: u64) \<noteq> 0" by simp
  note exact = translation_exact [OF sample_space_ok this, where u = "0x1000"]
  moreover have "NaClUserToSysAddrRange sample_space 0x1000 8 \<noteq> kNaClBadAddress"
    using exact by (simp add: sample_space_def)
  moreover have "7 < unat (8 :: u64)" by simp
  ultimately show ?thesis by blast
qed

subsection \<open>Sandboxed code addresses\<close>

lemma sandbox_round:
  assumes "bundle_size nap = 2 ^ b" and "b \<in> {4, 5}"
  shows "addr + scast (bundle_size nap) - 1 = addr + mask b"
    and "scast (bundle_size nap) - 1 = (mask b :: u64)"
  using assms by (auto simp: mask_eq_exp_minus_1)

lemma unat_low32: "unat (ucast (ucast (y :: u64) :: u32) :: u64) = unat y mod 2 ^ 32"
  by (simp add: unsigned_ucast_eq take_bit_nat_eq_self unsigned_take_bit_eq take_bit_eq_mod unat_mod)

lemma unat_ucast_and_not_mask:
  "b \<le> 32 \<Longrightarrow> 2 ^ b dvd unat (ucast (ucast (x AND NOT (mask b) :: u64) :: u32) :: u64)"
proof -
  assume b: "b \<le> 32"
  have "unat (ucast (ucast (x AND NOT (mask b) :: u64) :: u32) :: u64) =
      unat x div 2 ^ b * 2 ^ b mod 2 ^ 32"
    by (simp only: unat_low32 unat_and_not_mask)
  then show ?thesis
    using b by (simp only:) (intro dvd_mod dvd_triv_right le_imp_power_dvd)
qed

text \<open> C21. Control-flow confinement: whatever 64-bit value untrusted code supplies as a code
  address, \<open>NaClSandboxCodeAddr\<close> turns it into an address inside the sandbox that is aligned
  to an instruction bundle, and it leaves the address of an aligned bundle of the 32-bit user
  address space where it is.\<close>

theorem sandbox_code_addr_confined:
  assumes "space_ok nap" and "addr_bits nap = 32" and "bundle_size nap = 2 ^ b" and "b \<in> {4, 5}"
    and "2 ^ b dvd unat (mem_start nap)"
  shows "NaClIsUserAddr nap (NaClSandboxCodeAddr nap addr) \<and>
    2 ^ b dvd unat (NaClSandboxCodeAddr nap addr) \<and>
    (2 ^ b dvd unat addr \<and> unat addr < 2 ^ 32 \<longrightarrow> NaClSandboxCodeAddr nap addr = mem_start nap + addr)"
proof -
  let ?m = "(addr + mask b) AND NOT (mask b)"
  let ?low = "ucast (ucast ?m :: u32) :: u64"
  have r: "NaClSandboxCodeAddr nap addr = mem_start nap + ?low"
    by (simp only: NaClSandboxCodeAddr_def Let_def sandbox_round [OF assms(3,4)])
  have low: "unat ?low < 2 ^ 32" by (simp only: unat_low32) simp
  then have ua: "user_addr nap (unat ?low)" using assms(2) by (simp add: user_addr_def)
  note sum = unat_mem_start_add [OF assms(1) ua]
  have user: "NaClIsUserAddr nap (mem_start nap + ?low)"
    using sum unat_limit_end [OF assms(1)] ua
    by (simp add: NaClIsUserAddr_def word_less_nat_alt word_le_nat_alt user_addr_def)
  have "b \<le> 32" using assms(4) by auto
  then have "2 ^ b dvd unat ?low" by (rule unat_ucast_and_not_mask)
  with assms(5) sum have aligned: "2 ^ b dvd unat (mem_start nap + ?low)" by simp
  have "?low = addr" if a: "2 ^ b dvd unat addr" "unat addr < 2 ^ 32"
  proof -
    have "unat (mask b :: u64) = 2 ^ b - 1" using assms(4) by (auto simp: mask_eq_exp_minus_1)
    moreover have "(2 :: nat) ^ b \<le> 32" using assms(4) by auto
    ultimately have "unat (addr + mask b) = unat addr + (2 ^ b - 1)"
      using a(2) by (subst unat_add_small) simp_all
    then have "unat ?m = (unat addr + (2 ^ b - 1)) div 2 ^ b * 2 ^ b" by (simp add: unat_and_not_mask)
    also obtain q where "unat addr = 2 ^ b * q" using a(1) by (auto elim: dvdE)
    then have "(unat addr + (2 ^ b - 1)) div 2 ^ b * 2 ^ b = unat addr"
      by (simp only: div_mult_self4 [OF power_not_zero [OF zero_neq_numeral [symmetric]]])
        (simp add: div_less)
    finally have "?m = addr" by (rule word_eq_unatI)
    moreover have "(ucast (ucast addr :: u32) :: u64) = addr"
      using a(2) by (intro word_eq_unatI) (simp only: unat_low32 mod_less)
    ultimately show ?thesis by simp
  qed
  then show ?thesis using user aligned by (simp add: r)
qed

lemma sandbox_code_addr_confined_witness:
  "NaClIsUserAddr sample_space (NaClSandboxCodeAddr sample_space 0xdeadbeef12345678) \<and>
    2 ^ 5 dvd unat (NaClSandboxCodeAddr sample_space 0xdeadbeef12345678)"
  using sandbox_code_addr_confined [OF sample_space_ok, where b = 5 and addr = "0xdeadbeef12345678"] by (simp add: sample_space_def)

end
