(* ===== verification/Desc_Table.thy ===== *)
theory Desc_Table
  imports Range_Tree_Proofs Nacl_App
begin

text \<open>
  The descriptor table of a sandbox (\<open>NaClAppGetDesc\<close>, \<open>NaClAppSetDesc\<close>,
  \<open>NaClAppSetDescAvail\<close> of \<open>service_runtime/sel_ldr.c\<close>) over the dynamic array, and the
  registration of the user memory that a pending I/O operation reads or writes
  (\<open>NaClVmIoWillStart\<close>, \<open>NaClVmIoHasEnded\<close>, \<open>NaClVmIoPendingCheck_mu\<close>) over the interval
  tree.  A descriptor number is a C \<open>int\<close>, which becomes a \<open>size_t\<close> by sign extension.

  \<open>alloc\<close> is the allocator of the dynamic array, and \<open>None\<close> would be a run that does not end.
\<close>

subsection \<open>Descriptors\<close>

definition with_refs :: "((nat \<Rightarrow> int) \<Rightarrow> nat \<Rightarrow> int) \<Rightarrow> 'a NaClApp_scheme \<Rightarrow> 'a NaClApp_scheme" where
  "with_refs f nap = nap\<lparr> mem_map := (mem_map nap)\<lparr> desc_refs := f (desc_refs (mem_map nap)) \<rparr> \<rparr>"

definition NaClAppGetDescMu :: "'a NaClApp_scheme \<Rightarrow> u32 \<Rightarrow> ('a NaClApp_scheme \<times> nat option) run" where
  "NaClAppGetDescMu nap d =
     andThen (DynArrayGet (desc_tbl nap) (scast d)) (\<lambda>result.
       Inr (with_refs (desc_ref result) nap, result))"

definition NaClAppSetDescMu ::
  "(u64 \<Rightarrow> bool) \<Rightarrow> 'a NaClApp_scheme \<Rightarrow> u32 \<Rightarrow> nat option \<Rightarrow> 'a NaClApp_scheme run option" where
  "NaClAppSetDescMu alloc nap d ndp =
     (case DynArrayGet (desc_tbl nap) (scast d) of
        Inl e \<Rightarrow> Some (Inl e)
      | Inr result \<Rightarrow>
          let nap = with_refs (desc_unref result) nap in
          map_option (\<lambda>r. andThen r (\<lambda>(tbl, ok).
              if ok then Inr (nap\<lparr> desc_tbl := tbl \<rparr>) else Inl LogFatal))
            (DynArraySet alloc (desc_tbl nap) (scast d) ndp))"

definition NaClAppSetDescAvailMu ::
  "(u64 \<Rightarrow> bool) \<Rightarrow> 'a NaClApp_scheme \<Rightarrow> nat option \<Rightarrow> ('a NaClApp_scheme \<times> u32) run option" where
  "NaClAppSetDescAvailMu alloc nap ndp =
     (case DynArrayFirstAvail (desc_tbl nap) of
        Inl e \<Rightarrow> Some (Inl e)
      | Inr (tbl, pos) \<Rightarrow>
          if 0x7fffffff < pos then Some (Inl LogFatal)
          else map_option (\<lambda>r. andThen r (\<lambda>nap. Inr (nap, ucast pos)))
                 (NaClAppSetDescMu alloc (nap\<lparr> desc_tbl := tbl \<rparr>) (ucast pos) ndp))"

definition NaClAppGetDesc :: "'a NaClApp_scheme \<Rightarrow> u32 \<Rightarrow> ('a NaClApp_scheme \<times> nat option) run" where
  "NaClAppGetDesc nap d = NaClAppGetDescMu nap d"

definition NaClAppSetDesc ::
  "(u64 \<Rightarrow> bool) \<Rightarrow> 'a NaClApp_scheme \<Rightarrow> u32 \<Rightarrow> nat option \<Rightarrow> 'a NaClApp_scheme run option" where
  "NaClAppSetDesc alloc nap d ndp = NaClAppSetDescMu alloc nap d ndp"

definition NaClAppSetDescAvail ::
  "(u64 \<Rightarrow> bool) \<Rightarrow> 'a NaClApp_scheme \<Rightarrow> nat option \<Rightarrow> ('a NaClApp_scheme \<times> u32) run option" where
  "NaClAppSetDescAvail alloc nap ndp = NaClAppSetDescAvailMu alloc nap ndp"

subsection \<open>Pending I/O\<close>

definition NaClVmIoWillStart :: "'a NaClApp_scheme \<Rightarrow> u32 \<Rightarrow> u32 \<Rightarrow> 'a NaClApp_scheme run" where
  "NaClVmIoWillStart nap addr_first_usr addr_last_usr =
     andThen (NaClIntervalRangeTreeAddInterval (mem_io_regions nap) addr_first_usr addr_last_usr)
       (\<lambda>t. Inr (nap\<lparr> mem_io_regions := t \<rparr>))"

definition NaClVmIoHasEnded :: "'a NaClApp_scheme \<Rightarrow> u32 \<Rightarrow> u32 \<Rightarrow> 'a NaClApp_scheme run" where
  "NaClVmIoHasEnded nap addr_first_usr addr_last_usr =
     andThen (NaClIntervalRangeTreeRemoveInterval (mem_io_regions nap) addr_first_usr addr_last_usr)
       (\<lambda>t. Inr (nap\<lparr> mem_io_regions := t \<rparr>))"

definition NaClVmIoPendingCheck_mu :: "'a NaClApp_scheme \<Rightarrow> u32 \<Rightarrow> u32 \<Rightarrow> unit run" where
  "NaClVmIoPendingCheck_mu nap addr_first_usr addr_last_usr =
     (if NaClIntervalRangeTreeOverlapsWith (mem_io_regions nap) addr_first_usr addr_last_usr
      then Inl LogFatal else Inr ())"

subsection \<open>The table as a partial function from numbers to descriptors\<close>

definition descs :: "'a NaClApp_scheme \<Rightarrow> nat \<Rightarrow> nat option" where
  "descs nap = slot (desc_tbl nap)"

definition table_ok :: "'a NaClApp_scheme \<Rightarrow> bool" where
  "table_ok nap \<longleftrightarrow> dyn_ok (desc_tbl nap)"

text \<open>The references that do not come from the table: those its clients hold.\<close>

definition client_refs :: "'a NaClApp_scheme \<Rightarrow> nat \<Rightarrow> int" where
  "client_refs nap k = desc_refs (mem_map nap) k - int (card {i. descs nap i = Some k})"

lemma unat_scast_nonneg:
  assumes "unat (d :: u32) < 2 ^ 31"
  shows "unat (scast d :: u64) = unat d"
proof -
  have "(scast d :: u64) = word_of_int (int (unat d))" by (simp only: scast_eq sint_small [OF assms])
  then have "(scast d :: u64) = of_nat (unat d)" by (simp only: of_int_of_nat_eq)
  moreover have "unat d < 2 ^ 64" using assms by (rule less_trans) simp
  ultimately show ?thesis by (simp only: unat_of_nat take_bit_nat_eq_self len_of_numeral_defs) simp
qed

lemma finite_descs: "table_ok nap \<Longrightarrow> finite {i. descs nap i = Some k}"
proof (rule finite_subset)
  assume "table_ok nap"
  then show "{i. descs nap i = Some k} \<subseteq> {..< unat (ptr_array_space (desc_tbl nap))}"
    using dyn_ok_bounds(1) by (auto simp: table_ok_def descs_def)
qed simp

lemma card_slots_update:
  fixes f :: "nat \<Rightarrow> nat option"
  assumes "finite {i. f i = Some k}"
  shows "int (card {i. (f(p := x)) i = Some k}) =
    int (card {i. f i = Some k}) - (if f p = Some k then 1 else 0) + (if x = Some k then 1 else 0)"
proof -
  let ?A = "{i. f i = Some k}"
  have "{i. (f(p := x)) i = Some k} = (?A - {p}) \<union> (if x = Some k then {p} else {})" by auto
  then have "card {i. (f(p := x)) i = Some k} = card (?A - {p}) + (if x = Some k then 1 else 0)"
    using assms by (simp only:) (subst card_Un_disjoint, auto)
  moreover have "int (card (?A - {p})) = int (card ?A) - (if f p = Some k then 1 else 0)"
  proof (cases "p \<in> ?A")
    case True
    then have "0 < card ?A" using assms card_gt_0_iff by blast
    with True assms show ?thesis by (simp add: card_Diff_singleton)
  next
    case False
    then have "?A - {p} = ?A" by auto
    with False show ?thesis by simp
  qed
  ultimately show ?thesis by simp
qed

lemma desc_unref_apply: "desc_unref d refs k = refs k - (if d = Some k then 1 else 0)"
  by (auto simp: desc_unref_def split: option.splits)

lemma desc_ref_apply: "desc_ref d refs k = refs k + (if d = Some k then 1 else 0)"
  by (auto simp: desc_ref_def split: option.splits)

lemma with_refs_simps [simp]:
  "desc_tbl (with_refs f nap) = desc_tbl nap" "descs (with_refs f nap) = descs nap"
  "table_ok (with_refs f nap) = table_ok nap"
  "desc_refs (mem_map (with_refs f nap)) = f (desc_refs (mem_map nap))"
  by (simp_all add: with_refs_def descs_def table_ok_def)

lemma GetDesc_result:
  assumes "table_ok nap"
  shows "NaClAppGetDesc nap d = Inr (with_refs (desc_ref (descs nap (unat (scast d :: u64)))) nap,
    descs nap (unat (scast d :: u64)))"
  using assms by (simp add: NaClAppGetDesc_def NaClAppGetDescMu_def table_ok_def descs_def DynArrayGet_slot)

lemma SetDesc_result:
  assumes "table_ok nap" and "unat d < 2 ^ 31" and "\<forall>n. alloc n"
  obtains nap' where "NaClAppSetDesc alloc nap d ndp = Some (Inr nap')" and "table_ok nap'"
    and "descs nap' = (descs nap)(unat d := ndp)"
    and "\<forall>k. client_refs nap' k = client_refs nap k - (if ndp = Some k then 1 else 0)"
proof -
  note d = unat_scast_nonneg [OF assms(2)]
  have tbl: "dyn_ok (desc_tbl nap)" using assms(1) by (simp add: table_ok_def)
  have "unat (scast d :: u64) < max_space div 2" using assms(2) d by (simp add: max_space_def)
  with tbl obtain tbl' ok where set: "DynArraySet alloc (desc_tbl nap) (scast d) ndp = Some (Inr (tbl', ok))"
    "dyn_ok tbl'" "slot tbl' = (if ok then (slot (desc_tbl nap))(unat (scast d :: u64) := ndp) else slot (desc_tbl nap))"
    "(\<forall>n. alloc n) \<longrightarrow> ok" by (rule DynArraySet_ok)
  let ?nap = "(with_refs (desc_unref (descs nap (unat d))) nap)\<lparr> desc_tbl := tbl' \<rparr>"
  have slots: "slot tbl' = (descs nap)(unat d := ndp)" using set d assms(3) by (simp add: descs_def)
  show ?thesis
  proof (rule that [of ?nap])
    show "NaClAppSetDesc alloc nap d ndp = Some (Inr ?nap)"
      using tbl set assms(3) d
      by (simp add: NaClAppSetDesc_def NaClAppSetDescMu_def DynArrayGet_slot Let_def descs_def)
    show "table_ok ?nap" using set by (simp add: table_ok_def)
    show d': "descs ?nap = (descs nap)(unat d := ndp)" using slots by (simp add: descs_def)
    show "\<forall>k. client_refs ?nap k = client_refs nap k - (if ndp = Some k then 1 else 0)"
      unfolding client_refs_def d' card_slots_update [OF finite_descs [OF assms(1)]]
      by (simp add: with_refs_def desc_unref_apply)
  qed
qed

text \<open> C22. Opening a descriptor: with an allocator that does not fail and a free number that
  fits an \<open>int\<close>, \<open>NaClAppSetDescAvail\<close> ends, hands out the smallest number that is not in use,
  maps it to the descriptor and leaves every other number alone; the reference is taken over from
  the caller, and looking the number up afterwards gives the descriptor with a reference of its own.\<close>

theorem set_desc_avail_smallest:
  assumes "table_ok nap" and "descs nap free = None" and "free < 2 ^ 31" and "\<forall>n. alloc n"
  shows "\<exists>nap' pos. NaClAppSetDescAvail alloc nap (Some x) = Some (Inr (nap', pos)) \<and> table_ok nap' \<and>
    unat pos \<le> free \<and> descs nap (unat pos) = None \<and> (\<forall>i < unat pos. descs nap i \<noteq> None) \<and>
    descs nap' = (descs nap)(unat pos \<mapsto> x) \<and>
    (\<forall>k. client_refs nap' k = client_refs nap k - (if k = x then 1 else 0)) \<and>
    (\<exists>nap''. NaClAppGetDesc nap' pos = Inr (nap'', Some x) \<and> descs nap'' = descs nap' \<and>
      (\<forall>k. client_refs nap'' k = client_refs nap k))"
proof -
  have tbl: "dyn_ok (desc_tbl nap)" using assms(1) by (simp add: table_ok_def)
  obtain tbl' p where p: "DynArrayFirstAvail (desc_tbl nap) = Inr (tbl', p)" "dyn_ok tbl'"
    "slot tbl' = descs nap" "descs nap (unat p) = None" "\<forall>i < unat p. descs nap i \<noteq> None"
    using FirstAvail_ok [OF tbl] unfolding descs_def by blast
  have le: "unat p \<le> free" using p(5) assms(2) by (metis not_le)
  let ?nap = "nap\<lparr> desc_tbl := tbl' \<rparr>" and ?pos = "ucast p :: u32"
  have nap: "table_ok ?nap" "descs ?nap = descs nap" using p by (simp_all add: table_ok_def descs_def)
  have pos: "unat ?pos = unat p" using le assms(3) by (simp add: unsigned_ucast_eq take_bit_nat_eq_self)
  have small: "\<not> 0x7fffffff < p" using le assms(3) by (simp add: word_less_nat_alt)
  have "unat ?pos < 2 ^ 31" using pos le assms(3) by simp
  from nap(1) this assms(4) obtain nap' where nap': "NaClAppSetDesc alloc ?nap ?pos (Some x) = Some (Inr nap')"
    "table_ok nap'" "descs nap' = (descs ?nap)(unat ?pos := Some x)"
    "\<forall>k. client_refs nap' k = client_refs ?nap k - (if Some x = Some k then 1 else 0)"
    by (rule SetDesc_result [where ndp = "Some x"])
  have refs: "client_refs ?nap k = client_refs nap k" for k
    by (simp add: client_refs_def nap(2))
  have run: "NaClAppSetDescAvail alloc nap (Some x) = Some (Inr (nap', ?pos))"
    using p(1) small nap'(1) by (simp add: NaClAppSetDescAvail_def NaClAppSetDescAvailMu_def NaClAppSetDesc_def)
  let ?nap2 = "with_refs (desc_ref (Some x)) nap'"
  have at: "descs nap' (unat (scast ?pos :: u64)) = Some x"
    using nap'(3) unat_scast_nonneg [OF \<open>unat ?pos < 2 ^ 31\<close>] by simp
  then have get: "NaClAppGetDesc nap' ?pos = Inr (?nap2, Some x)"
    using GetDesc_result [OF nap'(2), of ?pos] by simp
  have same: "client_refs ?nap2 k = client_refs nap k" for k
    using spec [OF nap'(4), of k] refs [of k] by (auto simp: client_refs_def desc_ref_apply)
  have fin: "\<exists>nap''. NaClAppGetDesc nap' ?pos = Inr (nap'', Some x) \<and> descs nap'' = descs nap' \<and>
      (\<forall>k. client_refs nap'' k = client_refs nap k)"
    using get same by (intro exI [of _ ?nap2]) simp
  have upd: "descs nap' = (descs nap)(unat ?pos \<mapsto> x)" using nap'(3) by (simp add: nap(2))
  have cl: "\<forall>k. client_refs nap' k = client_refs nap k - (if k = x then 1 else 0)"
    using nap'(4) refs by auto
  have "unat ?pos \<le> free" "descs nap (unat ?pos) = None" "\<forall>i < unat ?pos. descs nap i \<noteq> None"
    using le p(4,5) by (simp_all only: pos)
  with run nap'(2) upd cl fin show ?thesis by (intro exI [of _ nap'] exI [of _ ?pos]) blast
qed

definition sample_table :: NaClApp where
  "sample_table = sample_space\<lparr> desc_tbl := sample_array \<rparr>"

lemma sample_table_ok: "table_ok sample_table" "descs sample_table 0 = None"
  using sample_array_ok by (simp_all add: table_ok_def descs_def sample_table_def slot_def sample_array_def)

lemma set_desc_avail_smallest_witness:
  "\<exists>nap'. NaClAppSetDescAvail (\<lambda>_. True) sample_table (Some 3) = Some (Inr (nap', 0)) \<and>
    descs nap' = (descs sample_table)(0 \<mapsto> 3)"
proof -
  obtain nap' pos where "NaClAppSetDescAvail (\<lambda>_. True) sample_table (Some 3) = Some (Inr (nap', pos))"
    "unat pos \<le> 0" "descs nap' = (descs sample_table)(unat pos \<mapsto> 3)"
    using set_desc_avail_smallest [OF sample_table_ok, of "\<lambda>_. True" 3] by auto
  moreover from this have "pos = 0" by (simp add: unat_eq_0)
  ultimately show ?thesis by simp
qed

subsection \<open>Races between I/O and changes of the address space\<close>

text \<open>\<open>pending nap M\<close>: the registered regions are the members of \<open>M\<close>.\<close>

definition pending :: "'a NaClApp_scheme \<Rightarrow> interval multiset \<Rightarrow> bool" where
  "pending nap M \<longleftrightarrow> tree_stands_for (mem_io_regions nap) M"

text \<open> C23. The race check is exact: after any number of I/O operations have started and ended, one
  more region can be registered, and the check that guards \<open>munmap\<close> and \<open>mmap\<close> stops the
  sandbox iff the range meets a region that is still registered; when the operation ends, the
  registrations are those from before it began.\<close>

theorem io_race_check:
  assumes "pending nap M" and "f \<le> l" and "Suc (size M) < max_intervals" and "a \<le> b"
  shows "(NaClVmIoPendingCheck_mu nap a b = Inl LogFatal \<longleftrightarrow> (\<exists>x \<in># M. fst x \<le> b \<and> a \<le> snd x)) \<and>
    (\<exists>nap'. NaClVmIoWillStart nap f l = Inr nap' \<and> pending nap' (add_mset (f, l) M) \<and>
      (f \<le> b \<and> a \<le> l \<longrightarrow> NaClVmIoPendingCheck_mu nap' a b = Inl LogFatal) \<and>
      (\<exists>nap''. NaClVmIoHasEnded nap' f l = Inr nap'' \<and> pending nap'' M \<and>
        NaClVmIoPendingCheck_mu nap'' a b = NaClVmIoPendingCheck_mu nap a b))"
proof -
  have check: "NaClVmIoPendingCheck_mu p a b = (if overlaps_spec N a b then Inl LogFatal else Inr ())"
    if "pending p N" for p :: "'a NaClApp_scheme" and N
    using tree_im.ovl_ok that assms(4) by (auto simp: NaClVmIoPendingCheck_mu_def pending_def)
  obtain t where t: "NaClIntervalRangeTreeAddInterval (mem_io_regions nap) f l = Inr t"
    "tree_stands_for t (add_mset (f, l) M)"
    using tree_im.add_ok [OF assms(1) [unfolded pending_def] assms(2,3)] by blast
  then obtain u where u: "NaClIntervalRangeTreeRemoveInterval t f l = Inr u" "tree_stands_for u M"
    using tree_im.rem_ok [OF t(2), of f l] by auto
  let ?n1 = "nap\<lparr> mem_io_regions := t \<rparr>" and ?n2 = "nap\<lparr> mem_io_regions := u \<rparr>"
  have p: "pending ?n1 (add_mset (f, l) M)" "pending ?n2 M" using t u by (simp_all add: pending_def)
  have "NaClVmIoWillStart nap f l = Inr ?n1" using t by (simp add: NaClVmIoWillStart_def)
  moreover have "NaClVmIoHasEnded ?n1 f l = Inr ?n2" using u by (simp add: NaClVmIoHasEnded_def)
  moreover have "f \<le> b \<and> a \<le> l \<longrightarrow> NaClVmIoPendingCheck_mu ?n1 a b = Inl LogFatal"
    by (simp add: check [OF p(1)] overlaps_spec_def)
  moreover have "NaClVmIoPendingCheck_mu nap a b = Inl LogFatal \<longleftrightarrow> (\<exists>x \<in># M. fst x \<le> b \<and> a \<le> snd x)"
    by (auto simp: check [OF assms(1)] overlaps_spec_def)
  moreover have "NaClVmIoPendingCheck_mu ?n2 a b = NaClVmIoPendingCheck_mu nap a b"
    by (simp only: check [OF p(2)] check [OF assms(1)])
  ultimately show ?thesis using p by blast
qed

lemma io_race_check_witness:
  "\<exists>nap'. NaClVmIoWillStart sample_table 0x11000 0x11fff = Inr nap' \<and>
    NaClVmIoPendingCheck_mu nap' 0x10000 0x1ffff = Inl LogFatal"
proof -
  have "pending sample_table {#}"
    using tree_im.ctor_ok by (simp add: pending_def sample_table_def sample_space_def)
  from io_race_check [OF this, where f = "0x11000" and l = "0x11fff" and a = "0x10000" and b = "0x1ffff"] show ?thesis
    by (auto simp: max_intervals_def)
qed

end
