(* ===== verification/Nacl_Error_Code.thy ===== *)
theory Nacl_Error_Code
  imports Nacl_Prelude
begin

text \<open>
  The load status codes of \<open>service_runtime/nacl_error_code.h\<close>, their numbers and the messages
  of \<open>NaClErrorString\<close> (\<open>nacl_error_code.c\<close>).
\<close>

datatype (plugins only: code size) NaClErrorCode =
    LOAD_OK
  | LOAD_STATUS_UNKNOWN
  | LOAD_UNSUPPORTED_OS_PLATFORM
  | LOAD_DEP_UNSUPPORTED
  | LOAD_INTERNAL
  | LOAD_DUP_LOAD_MODULE
  | LOAD_DUP_START_MODULE
  | LOAD_OPEN_ERROR
  | LOAD_READ_ERROR
  | LOAD_TOO_MANY_PROG_HDRS
  | LOAD_BAD_PHENTSIZE
  | LOAD_BAD_ELF_MAGIC
  | LOAD_NOT_32_BIT
  | LOAD_NOT_64_BIT
  | LOAD_BAD_ABI
  | LOAD_NOT_EXEC
  | LOAD_BAD_MACHINE
  | LOAD_BAD_ELF_VERS
  | LOAD_TOO_MANY_SECT
  | LOAD_BAD_SECT
  | LOAD_NO_MEMORY
  | LOAD_SECT_HDR
  | LOAD_ADDR_SPACE_TOO_SMALL
  | LOAD_ADDR_SPACE_TOO_BIG
  | LOAD_DATA_OVERLAPS_STACK_SECTION
  | LOAD_RODATA_OVERLAPS_DATA
  | LOAD_DATA_NOT_LAST_SEGMENT
  | LOAD_NO_DATA_BUT_RODATA_NOT_LAST_SEGMENT
  | LOAD_TEXT_OVERLAPS_RODATA
  | LOAD_TEXT_OVERLAPS_DATA
  | LOAD_BAD_RODATA_ALIGNMENT
  | LOAD_BAD_DATA_ALIGNMENT
  | LOAD_UNLOADABLE
  | LOAD_BAD_ELF_TEXT
  | LOAD_TEXT_SEG_TOO_BIG
  | LOAD_DATA_SEG_TOO_BIG
  | LOAD_MPROTECT_FAIL
  | LOAD_MADVISE_FAIL
  | LOAD_TOO_MANY_SYMBOL_STR
  | LOAD_SYMTAB_ENTRY_TOO_SMALL
  | LOAD_NO_SYMTAB
  | LOAD_NO_SYMTAB_STRINGS
  | LOAD_SYMTAB_ENTRY
  | LOAD_UNKNOWN_SYMBOL_TYPE
  | LOAD_SYMTAB_DUP
  | LOAD_REL_ERROR
  | LOAD_REL_UNIMPL
  | LOAD_UNDEF_SYMBOL
  | LOAD_BAD_SYMBOL_DATA
  | LOAD_BAD_FILE
  | LOAD_BAD_ENTRY
  | LOAD_SEGMENT_OUTSIDE_ADDRSPACE
  | LOAD_DUP_SEGMENT
  | LOAD_SEGMENT_BAD_LOC
  | LOAD_BAD_SEGMENT
  | LOAD_REQUIRED_SEG_MISSING
  | LOAD_SEGMENT_BAD_PARAM
  | LOAD_VALIDATION_FAILED
  | LOAD_UNIMPLEMENTED
  | SRT_NO_SEG_SEL
  | LOAD_BAD_EHSIZE
  | LOAD_EHDR_OVERFLOW
  | LOAD_PHDR_OVERFLOW
  | LOAD_UNSUPPORTED_CPU
  | LOAD_NO_MEMORY_FOR_DYNAMIC_TEXT
  | LOAD_NO_MEMORY_FOR_ADDRESS_SPACE
  | LOAD_CODE_SEGMENT_TOO_LARGE
  | NACL_ERROR_CODE_MAX

text \<open>The declaration order, which is the order of the numbers 0, 1, 2 and so on.\<close>

definition error_codes :: "NaClErrorCode list" where
  "error_codes =
    [LOAD_OK, LOAD_STATUS_UNKNOWN, LOAD_UNSUPPORTED_OS_PLATFORM, LOAD_DEP_UNSUPPORTED,
     LOAD_INTERNAL, LOAD_DUP_LOAD_MODULE, LOAD_DUP_START_MODULE, LOAD_OPEN_ERROR,
     LOAD_READ_ERROR, LOAD_TOO_MANY_PROG_HDRS, LOAD_BAD_PHENTSIZE, LOAD_BAD_ELF_MAGIC,
     LOAD_NOT_32_BIT, LOAD_NOT_64_BIT, LOAD_BAD_ABI, LOAD_NOT_EXEC, LOAD_BAD_MACHINE,
     LOAD_BAD_ELF_VERS, LOAD_TOO_MANY_SECT, LOAD_BAD_SECT, LOAD_NO_MEMORY, LOAD_SECT_HDR,
     LOAD_ADDR_SPACE_TOO_SMALL, LOAD_ADDR_SPACE_TOO_BIG, LOAD_DATA_OVERLAPS_STACK_SECTION,
     LOAD_RODATA_OVERLAPS_DATA, LOAD_DATA_NOT_LAST_SEGMENT,
     LOAD_NO_DATA_BUT_RODATA_NOT_LAST_SEGMENT, LOAD_TEXT_OVERLAPS_RODATA,
     LOAD_TEXT_OVERLAPS_DATA, LOAD_BAD_RODATA_ALIGNMENT, LOAD_BAD_DATA_ALIGNMENT,
     LOAD_UNLOADABLE, LOAD_BAD_ELF_TEXT, LOAD_TEXT_SEG_TOO_BIG, LOAD_DATA_SEG_TOO_BIG,
     LOAD_MPROTECT_FAIL, LOAD_MADVISE_FAIL, LOAD_TOO_MANY_SYMBOL_STR,
     LOAD_SYMTAB_ENTRY_TOO_SMALL, LOAD_NO_SYMTAB, LOAD_NO_SYMTAB_STRINGS, LOAD_SYMTAB_ENTRY,
     LOAD_UNKNOWN_SYMBOL_TYPE, LOAD_SYMTAB_DUP, LOAD_REL_ERROR, LOAD_REL_UNIMPL,
     LOAD_UNDEF_SYMBOL, LOAD_BAD_SYMBOL_DATA, LOAD_BAD_FILE, LOAD_BAD_ENTRY,
     LOAD_SEGMENT_OUTSIDE_ADDRSPACE, LOAD_DUP_SEGMENT, LOAD_SEGMENT_BAD_LOC, LOAD_BAD_SEGMENT,
     LOAD_REQUIRED_SEG_MISSING, LOAD_SEGMENT_BAD_PARAM, LOAD_VALIDATION_FAILED,
     LOAD_UNIMPLEMENTED, SRT_NO_SEG_SEL, LOAD_BAD_EHSIZE, LOAD_EHDR_OVERFLOW,
     LOAD_PHDR_OVERFLOW, LOAD_UNSUPPORTED_CPU, LOAD_NO_MEMORY_FOR_DYNAMIC_TEXT,
     LOAD_NO_MEMORY_FOR_ADDRESS_SPACE, LOAD_CODE_SEGMENT_TOO_LARGE, NACL_ERROR_CODE_MAX]"

primrec NaClErrorString :: "NaClErrorCode \<Rightarrow> string" where
  "NaClErrorString LOAD_OK =
     ''Ok''"
| "NaClErrorString LOAD_STATUS_UNKNOWN =
     ''Load status unknown (load incomplete)''"
| "NaClErrorString LOAD_UNSUPPORTED_OS_PLATFORM =
     ''Operating system platform is not supported''"
| "NaClErrorString LOAD_DEP_UNSUPPORTED =
     ''Data Execution Prevention is required but is not supported''"
| "NaClErrorString LOAD_INTERNAL =
     ''Internal error''"
| "NaClErrorString LOAD_DUP_LOAD_MODULE =
     ''Multiple LoadModule RPCs''"
| "NaClErrorString LOAD_DUP_START_MODULE =
     ''Multiple StartModule RPCs''"
| "NaClErrorString LOAD_OPEN_ERROR =
     ''Cannot open NaCl module file''"
| "NaClErrorString LOAD_READ_ERROR =
     ''Cannot read file''"
| "NaClErrorString LOAD_TOO_MANY_PROG_HDRS =
     ''Too many program header entries in ELF file''"
| "NaClErrorString LOAD_BAD_PHENTSIZE =
     ''ELF program header size wrong''"
| "NaClErrorString LOAD_BAD_ELF_MAGIC =
     ''Bad ELF header magic number''"
| "NaClErrorString LOAD_NOT_32_BIT =
     ''Not a 32-bit ELF file''"
| "NaClErrorString LOAD_NOT_64_BIT =
     ''Not a 64-bit ELF file''"
| "NaClErrorString LOAD_BAD_ABI =
     ''ELF file has unexpected OS ABI''"
| "NaClErrorString LOAD_NOT_EXEC =
     ''ELF file type not executable''"
| "NaClErrorString LOAD_BAD_MACHINE =
     ''ELF file for wrong architecture''"
| "NaClErrorString LOAD_BAD_ELF_VERS =
     ''ELF version mismatch''"
| "NaClErrorString LOAD_TOO_MANY_SECT =
     ''Too many section headers''"
| "NaClErrorString LOAD_BAD_SECT =
     ''ELF bad sections''"
| "NaClErrorString LOAD_NO_MEMORY =
     ''Insufficient memory to load file''"
| "NaClErrorString LOAD_SECT_HDR =
     ''ELF section header string table load error''"
| "NaClErrorString LOAD_ADDR_SPACE_TOO_SMALL =
     ''Address space too small''"
| "NaClErrorString LOAD_ADDR_SPACE_TOO_BIG =
     ''Address space too big''"
| "NaClErrorString LOAD_DATA_OVERLAPS_STACK_SECTION =
     ''Memory \"hole\" between end of BSS and start of stack is negative in size''"
| "NaClErrorString LOAD_RODATA_OVERLAPS_DATA =
     ''Read-only data segment overlaps data segment''"
| "NaClErrorString LOAD_DATA_NOT_LAST_SEGMENT =
     ''Data segment exists, but is not last segment''"
| "NaClErrorString LOAD_NO_DATA_BUT_RODATA_NOT_LAST_SEGMENT =
     ''No data segment, read-only data segment exists, but is not last segment''"
| "NaClErrorString LOAD_TEXT_OVERLAPS_RODATA =
     ''Text segment overlaps rodata segment''"
| "NaClErrorString LOAD_TEXT_OVERLAPS_DATA =
     ''No rodata segment, and text segment overlaps data segment''"
| "NaClErrorString LOAD_BAD_RODATA_ALIGNMENT =
     ''The rodata segment is not properly aligned''"
| "NaClErrorString LOAD_BAD_DATA_ALIGNMENT =
     ''The data segment is not properly aligned''"
| "NaClErrorString LOAD_UNLOADABLE =
     ''Error during loading''"
| "NaClErrorString LOAD_BAD_ELF_TEXT =
     ''ELF file contains no text segment''"
| "NaClErrorString LOAD_TEXT_SEG_TOO_BIG =
     ''ELF file text segment too large''"
| "NaClErrorString LOAD_DATA_SEG_TOO_BIG =
     ''ELF file data segment(s) too large''"
| "NaClErrorString LOAD_MPROTECT_FAIL =
     ''Cannot protect pages''"
| "NaClErrorString LOAD_MADVISE_FAIL =
     ''Cannot release unused data segment''"
| "NaClErrorString LOAD_TOO_MANY_SYMBOL_STR =
     ''Malformed ELF file: too many string tables''"
| "NaClErrorString LOAD_SYMTAB_ENTRY_TOO_SMALL =
     ''Symbol table entry too small''"
| "NaClErrorString LOAD_NO_SYMTAB =
     ''No symbol table''"
| "NaClErrorString LOAD_NO_SYMTAB_STRINGS =
     ''No string table for symbols''"
| "NaClErrorString LOAD_SYMTAB_ENTRY =
     ''Error entering new symbol into symbol table''"
| "NaClErrorString LOAD_UNKNOWN_SYMBOL_TYPE =
     ''Unknown symbol type''"
| "NaClErrorString LOAD_SYMTAB_DUP =
     ''Duplicate entry in symbol table''"
| "NaClErrorString LOAD_REL_ERROR =
     ''Bad relocation read error''"
| "NaClErrorString LOAD_REL_UNIMPL =
     ''Relocation type unimplemented''"
| "NaClErrorString LOAD_UNDEF_SYMBOL =
     ''Undefined external symbol''"
| "NaClErrorString LOAD_BAD_SYMBOL_DATA =
     ''Bad symbol table data''"
| "NaClErrorString LOAD_BAD_FILE =
     ''ELF file not accessible''"
| "NaClErrorString LOAD_BAD_ENTRY =
     ''Bad program entry point address''"
| "NaClErrorString LOAD_SEGMENT_OUTSIDE_ADDRSPACE =
     ''ELF executable contains a segment which lies outside the assigned address space''"
| "NaClErrorString LOAD_DUP_SEGMENT =
     ''ELF executable contains a duplicate segment (please run objdump to see which)''"
| "NaClErrorString LOAD_SEGMENT_BAD_LOC =
     ''ELF executable text/rodata segment has wrong starting address''"
| "NaClErrorString LOAD_BAD_SEGMENT =
     ''ELF executable contains an unexpected/unallowed segment/flags''"
| "NaClErrorString LOAD_REQUIRED_SEG_MISSING =
     ''ELF executable missing a required segment (text)''"
| "NaClErrorString LOAD_SEGMENT_BAD_PARAM =
     ''ELF executable segment header parameter error''"
| "NaClErrorString LOAD_VALIDATION_FAILED =
     ''Validation failure. File violates Native Client safety rules.''"
| "NaClErrorString LOAD_UNIMPLEMENTED =
     ''Not implemented for this architecture.''"
| "NaClErrorString SRT_NO_SEG_SEL =
     ''Service Runtime: cannot allocate segment selector''"
| "NaClErrorString LOAD_BAD_EHSIZE =
     ''ELFCLASS64 file header has wrong e_ehsize value''"
| "NaClErrorString LOAD_EHDR_OVERFLOW =
     ''ELFCLASS64 file header has fields that overflow 32 bits''"
| "NaClErrorString LOAD_PHDR_OVERFLOW =
     ''ELFCLASS64 program header has fields that overflow 32 bits''"
| "NaClErrorString LOAD_UNSUPPORTED_CPU =
     ''CPU model is not supported''"
| "NaClErrorString LOAD_NO_MEMORY_FOR_DYNAMIC_TEXT =
     ''Insufficient memory to allocate dynamic text region''"
| "NaClErrorString LOAD_NO_MEMORY_FOR_ADDRESS_SPACE =
     ''Insufficient memory to allocate untrusted address space''"
| "NaClErrorString LOAD_CODE_SEGMENT_TOO_LARGE =
     ''ELF executable's code segment is larger than the arbitrary size limit imposed to mitigate spraying attacks''"
| "NaClErrorString NACL_ERROR_CODE_MAX =
     ''BAD ERROR CODE''"

text \<open>The messages tell the codes apart: no two load statuses have the same message, and the
  fall-back message is that of no code but \<open>NACL_ERROR_CODE_MAX\<close>.\<close>

theorem error_strings_distinct: "distinct (map NaClErrorString error_codes) \<and> c \<in> set error_codes"
proof
  show "distinct (map NaClErrorString error_codes)"
    by code_simp
  show "c \<in> set error_codes"
    by (cases c) (simp_all add: error_codes_def)
qed

end
