(* ===== verification/Sel_Validate.thy ===== *)
theory Sel_Validate
  imports Nacl_Error_Code Nacl_App
begin

text \<open>
  Validation of untrusted code, \<open>service_runtime/sel_validate_image.c\<close>: the policy around the
  instruction validator.  The validator itself is the interface
  \<open>struct NaClValidatorInterface\<close> of \<open>validator/ncvalidate.h\<close>, a record of functions, and every
  operation takes it as an argument.

  \<open>Validate\<close> may rewrite the code it looks at (stub-out mode), so it returns the code; \<open>CopyCode\<close>
  returns the new contents of the destination.  Metadata is an opaque type, and of the validation
  cache only its presence is kept.
\<close>

subsection \<open>Model\<close>

datatype NaClValidationStatus =
    NaClValidationSucceeded
  | NaClValidationFailed
  | NaClValidationFailedOutOfMemory
  | NaClValidationFailedNotImplemented
  | NaClValidationFailedCpuNotSupported
  | NaClValidationFailedSegmentationIssue

record 'md NaClValidatorInterface =
  stubout_mode_implemented :: bool
  readonly_text_implemented :: bool
  code_replacement :: bool
  Validate :: "u64 \<Rightarrow> u8 list \<Rightarrow> bool \<Rightarrow> bool \<Rightarrow> 'md option \<Rightarrow> bool \<Rightarrow> NaClValidationStatus \<times> u8 list"
  CopyCode :: "u64 \<Rightarrow> u8 list \<Rightarrow> u8 list \<Rightarrow> NaClValidationStatus \<times> u8 list"
  ValidateCodeReplacement :: "u64 \<Rightarrow> u8 list \<Rightarrow> u8 list \<Rightarrow> NaClValidationStatus"

text \<open>The flags of \<open>struct NaClApp\<close> that choose the validation policy.\<close>

record NaClPolicyApp = NaClApp +
  validation_cache :: bool
  fixed_feature_cpu_mode :: bool
  ignore_validator_result :: bool
  skip_validator :: bool
  validator_stub_out_mode :: bool

definition kMinimumCachedCodeSize :: nat where
  "kMinimumCachedCodeSize = 40000"

fun NaClValidateStatus :: "NaClValidationStatus \<Rightarrow> NaClErrorCode" where
  "NaClValidateStatus NaClValidationSucceeded = LOAD_OK"
| "NaClValidateStatus NaClValidationFailedOutOfMemory = LOAD_BAD_FILE"
| "NaClValidateStatus _ = LOAD_VALIDATION_FAILED"

definition NaClValidateCode ::
  "'md NaClValidatorInterface \<Rightarrow> 'a NaClPolicyApp_scheme \<Rightarrow> u64 \<Rightarrow> u8 list \<Rightarrow> 'md option \<Rightarrow>
   (NaClErrorCode \<times> u8 list) run" where
  "NaClValidateCode validator nap guest_addr data metadata =
     (let small = length data < kMinimumCachedCodeSize;
          metadata = (if small then None else metadata);
          cache = (if small then False else validation_cache nap) in
      if validator_stub_out_mode nap \<and> fixed_feature_cpu_mode nap then Inl LogFatal
      else
        let (metadata, cache) =
              (if validator_stub_out_mode nap then (None, False) else (metadata, cache));
            (status, data) =
              (if validator_stub_out_mode nap
               then Validate validator guest_addr data True False metadata cache
               else (NaClValidationSucceeded, data));
            (status, data) =
              (if status = NaClValidationSucceeded
               then Validate validator guest_addr data False (fixed_feature_cpu_mode nap) metadata cache
               else (status, data)) in
        Inr (NaClValidateStatus status, data))"

definition NaClValidateCodeReplacement ::
  "'md NaClValidatorInterface \<Rightarrow> 'a NaClPolicyApp_scheme \<Rightarrow> u64 \<Rightarrow> u8 list \<Rightarrow> u8 list \<Rightarrow> NaClErrorCode" where
  "NaClValidateCodeReplacement validator nap guest_addr data_old data_new =
     (if validator_stub_out_mode nap then LOAD_BAD_FILE
      else if fixed_feature_cpu_mode nap then LOAD_BAD_FILE
      else if guest_addr mod scast (bundle_size nap) \<noteq> 0 \<or>
              of_nat (length data_new) mod (scast (bundle_size nap) :: u64) \<noteq> 0 then LOAD_BAD_FILE
      else NaClValidateStatus (ValidateCodeReplacement validator guest_addr data_old data_new))"

definition NaClCopyCode ::
  "'md NaClValidatorInterface \<Rightarrow> 'a NaClPolicyApp_scheme \<Rightarrow> u64 \<Rightarrow> u8 list \<Rightarrow> u8 list \<Rightarrow>
   NaClErrorCode \<times> u8 list" where
  "NaClCopyCode validator nap guest_addr data_old data_new =
     (if fixed_feature_cpu_mode nap then (LOAD_BAD_FILE, data_old)
      else
        let (status, data) = CopyCode validator guest_addr data_old data_new in
        (NaClValidateStatus status, data))"

text \<open>\<open>text\<close> is the memory from the end of the trampolines to the end of the static text; the
  image validator returns it as the validator leaves it.\<close>

abbreviation (input) NACL_TRAMPOLINE_END :: u64 where "NACL_TRAMPOLINE_END \<equiv> 0x20000"

definition read_bytes :: "(u64 \<Rightarrow> u8) \<Rightarrow> u64 \<Rightarrow> nat \<Rightarrow> u8 list" where
  "read_bytes mem addr n = map (\<lambda>k. mem (addr + of_nat k)) [0..<n]"

definition write_bytes :: "(u64 \<Rightarrow> u8) \<Rightarrow> u64 \<Rightarrow> u8 list \<Rightarrow> u64 \<Rightarrow> u8" where
  "write_bytes mem addr xs a = (if unat (a - addr) < length xs then xs ! unat (a - addr) else mem a)"

definition NaClValidateImage ::
  "'md NaClValidatorInterface \<Rightarrow> 'a NaClPolicyApp_scheme \<Rightarrow> (u64 \<Rightarrow> u8) \<Rightarrow>
   (NaClErrorCode \<times> (u64 \<Rightarrow> u8)) run" where
  "NaClValidateImage validator nap mem =
     (let memp = mem_start nap + NACL_TRAMPOLINE_END;
          endp = mem_start nap + static_text_end nap;
          regionsize = endp - memp in
      if endp < memp then Inr (LOAD_NO_MEMORY, mem)
      else if skip_validator nap then Inr (LOAD_OK, mem)
      else
        andThen (NaClValidateCode validator nap NACL_TRAMPOLINE_END
                   (read_bytes mem memp (unat regionsize)) None) (\<lambda>(rcode, text).
        let mem = write_bytes mem memp text in
        Inr (if rcode = LOAD_OK then LOAD_OK
             else if ignore_validator_result nap then LOAD_OK
             else LOAD_VALIDATION_FAILED, mem)))"

subsection \<open>Properties\<close>

text \<open>The validator interface: the code keeps its size, and code that is handed over as read-only is not
  changed.  (Instructions that the processor lacks are replaced by halts in the other modes too.)\<close>

definition keeps_code :: "'md NaClValidatorInterface \<Rightarrow> bool" where
  "keeps_code v \<longleftrightarrow> (\<forall>addr data stub ro md cache.
     length (snd (Validate v addr data stub ro md cache)) = length data \<and>
     (ro \<and> \<not> stub \<longrightarrow> snd (Validate v addr data stub ro md cache) = data))"

text \<open>The code is what a successful pass of the validator has left.\<close>

definition accepts :: "'md NaClValidatorInterface \<Rightarrow> u64 \<Rightarrow> u8 list \<Rightarrow> bool \<Rightarrow> 'md option \<Rightarrow> bool \<Rightarrow> bool" where
  "accepts v addr data ro md cache \<longleftrightarrow> (\<exists>code. length code = length data \<and>
     Validate v addr code False ro md cache = (NaClValidationSucceeded, data))"

lemma ValidateStatus_ok [simp]: "NaClValidateStatus s = LOAD_OK \<longleftrightarrow> s = NaClValidationSucceeded"
  by (cases s) simp_all

lemma keeps_codeD:
  assumes "keeps_code v" and "Validate v addr data stub ro md cache = (st, data')"
  shows "length data' = length data" and "ro \<Longrightarrow> \<not> stub \<Longrightarrow> data' = data"
  using assms unfolding keeps_code_def by (metis snd_conv)+

lemma ValidateCode_accepted:
  assumes "keeps_code v" and "NaClValidateCode v nap addr data md = Inr (rc, data')"
  shows "length data' = length data \<and>
    (rc = LOAD_OK \<longrightarrow> (\<exists>md cache. accepts v addr data' (fixed_feature_cpu_mode nap) md cache)) \<and>
    (fixed_feature_cpu_mode nap \<longrightarrow> data' = data)"
proof -
  note keep = keeps_codeD [OF assms(1)]
  have last: "length d' = length d \<and> (s = NaClValidationSucceeded \<longrightarrow> (\<exists>md cache. accepts v addr d' ro md cache)) \<and>
      (ro \<longrightarrow> d' = d)" if "Validate v addr d False ro m c = (s, d')" for d d' ro m c s
    using keep [OF that] that by (auto simp: accepts_def)
  show ?thesis
  proof (cases "validator_stub_out_mode nap")
    case True
    obtain s d where r: "Validate v addr data True False None False = (s, d)" by fastforce
    obtain s' d' where r': "Validate v addr d False False None False = (s', d')" by fastforce
    have "\<not> fixed_feature_cpu_mode nap" "rc = NaClValidateStatus (if s = NaClValidationSucceeded then s' else s)"
      "data' = (if s = NaClValidationSucceeded then d' else d)"
      using assms(2) True by (auto simp: NaClValidateCode_def Let_def r r' split: if_splits)
    with keep(1) [OF r] last [OF r'] show ?thesis by auto
  next
    case False
    then have "\<exists>m c. Inr (NaClValidateStatus (fst (Validate v addr data False (fixed_feature_cpu_mode nap) m c)),
         snd (Validate v addr data False (fixed_feature_cpu_mode nap) m c)) = (Inr (rc, data') :: (NaClErrorCode \<times> u8 list) run)"
      unfolding assms(2) [symmetric] NaClValidateCode_def Let_def by (intro exI) (auto simp: case_prod_beta)
    then obtain m c where "rc = NaClValidateStatus (fst (Validate v addr data False (fixed_feature_cpu_mode nap) m c))"
      "data' = snd (Validate v addr data False (fixed_feature_cpu_mode nap) m c)" by blast
    then obtain s where "Validate v addr data False (fixed_feature_cpu_mode nap) m c = (s, data')" "rc = NaClValidateStatus s"
      by (metis surjective_pairing)
    with last show ?thesis by auto
  qed
qed

lemma length_read_bytes [simp]: "length (read_bytes mem a n) = n"
  by (simp add: read_bytes_def)

lemma read_write_bytes:
  assumes "length xs < 2 ^ 64"
  shows "read_bytes (write_bytes mem a xs) a (length xs) = xs"
proof (rule nth_equalityI)
  fix k assume "k < length (read_bytes (write_bytes mem a xs) a (length xs))"
  then have k: "k < length xs" by simp
  moreover have "unat (of_nat k :: u64) = k"
    using k assms by (simp add: unat_of_nat take_bit_nat_eq_self)
  ultimately show "read_bytes (write_bytes mem a xs) a (length xs) ! k = xs ! k"
    by (simp add: read_bytes_def write_bytes_def)
qed simp

lemma write_read_bytes: "n < 2 ^ 64 \<Longrightarrow> write_bytes mem a (read_bytes mem a n) = mem"
  by (rule ext) (auto simp: write_bytes_def read_bytes_def)

text \<open>What a successful validation means for the memory.\<close>

lemma validate_image_accepted:
  assumes "keeps_code v" and "NaClValidateImage v nap mem = Inr (LOAD_OK, mem')"
    and "\<not> skip_validator nap" and "\<not> ignore_validator_result nap"
    and "space_ok nap" and "unat (static_text_end nap) \<le> 2 ^ addr_bits nap"
  shows "0x20000 \<le> unat (static_text_end nap) \<and>
    (\<exists>md cache. accepts v NACL_TRAMPOLINE_END
       (read_bytes mem' (mem_start nap + NACL_TRAMPOLINE_END) (unat (static_text_end nap) - 0x20000))
       (fixed_feature_cpu_mode nap) md cache) \<and>
    (\<forall>a. mem' a \<noteq> mem a \<longrightarrow> unat (a - (mem_start nap + NACL_TRAMPOLINE_END)) < unat (static_text_end nap) - 0x20000) \<and>
    (fixed_feature_cpu_mode nap \<longrightarrow> mem' = mem)"
proof -
  let ?memp = "mem_start nap + NACL_TRAMPOLINE_END" and ?endp = "mem_start nap + static_text_end nap"
  have sp: "unat (mem_start nap) + 2 ^ addr_bits nap < 2 ^ 64" "16 < addr_bits nap"
    using assms(5) by (simp_all add: space_ok_def)
  have "(2 :: nat) ^ 17 \<le> 2 ^ addr_bits nap" using sp(2) by (intro power_increasing) simp_all
  then have memp: "unat ?memp = unat (mem_start nap) + 0x20000"
    using sp(1) by (subst unat_add_small) simp_all
  have endp: "unat ?endp = unat (mem_start nap) + unat (static_text_end nap)"
    using sp(1) assms(6) by (subst unat_add_small) simp_all
  have le: "\<not> ?endp < ?memp"
    using assms(2) by (auto simp: NaClValidateImage_def Let_def split: if_splits)
  then have low: "0x20000 \<le> unat (static_text_end nap)"
    using memp endp by (simp add: word_less_nat_alt)
  have size: "unat (?endp - ?memp) = unat (static_text_end nap) - 0x20000"
    using le memp endp by (simp add: unat_sub_small word_less_nat_alt)
  let ?img = "read_bytes mem ?memp (unat (?endp - ?memp))"
  obtain rc img where val: "NaClValidateCode v nap NACL_TRAMPOLINE_END ?img None = Inr (rc, img)"
    and rc: "rc = LOAD_OK" and mem': "mem' = write_bytes mem ?memp img"
    using assms(2-4) le by (auto simp: NaClValidateImage_def Let_def run_simps split: if_splits)
  note acc = ValidateCode_accepted [OF assms(1) val]
  then have len: "length img = unat (static_text_end nap) - 0x20000" using size by simp
  moreover have "length img < 2 ^ 64" using acc unat_lt64 by simp
  then have "read_bytes mem' ?memp (length img) = img" unfolding mem' by (rule read_write_bytes)
  moreover have "mem' a \<noteq> mem a \<longrightarrow> unat (a - ?memp) < length img" for a
    by (simp add: mem' write_bytes_def)
  moreover have "fixed_feature_cpu_mode nap \<longrightarrow> mem' = mem"
    using acc unat_lt64 by (simp add: mem' write_read_bytes)
  ultimately show ?thesis using acc rc low by metis
qed

text \<open> C10. \<open>NaClValidateImage\<close> lets no unvalidated code through (the path that maps a prevalidated
  image does not call it): when it reports success and validation is
  neither skipped nor its result ignored, the text that is then in memory, from the end of the
  trampolines to the end of the static text, is what a successful pass of the validator (after any
  stub-out pass) has left; no other memory has changed, and in the fixed-feature mode, where the
  validator may not touch the code, none at all.\<close>

theorem validate_image_sound:
  assumes "keeps_code v" and "NaClValidateImage v nap mem = Inr (LOAD_OK, mem')"
    and "\<not> skip_validator nap" and "\<not> ignore_validator_result nap"
    and "space_ok nap" and "unat (static_text_end nap) \<le> 2 ^ addr_bits nap"
  shows "0x20000 \<le> unat (static_text_end nap) \<and>
    (\<exists>md cache. accepts v NACL_TRAMPOLINE_END
       (read_bytes mem' (mem_start nap + NACL_TRAMPOLINE_END) (unat (static_text_end nap) - 0x20000))
       (fixed_feature_cpu_mode nap) md cache) \<and>
    (\<forall>a. mem' a \<noteq> mem a \<longrightarrow> unat (a - (mem_start nap + NACL_TRAMPOLINE_END)) < unat (static_text_end nap) - 0x20000) \<and>
    (fixed_feature_cpu_mode nap \<longrightarrow> mem' = mem)"
  using assms by (rule validate_image_accepted)

text \<open>A validator for the witness: it wants every byte to be a halt, and stubs out the others.\<close>

definition halt_validator :: "unit NaClValidatorInterface" where
  "halt_validator = \<lparr> stubout_mode_implemented = True, readonly_text_implemented = True,
     code_replacement = True,
     Validate = (\<lambda>addr data stub ro md cache.
       if stub then (NaClValidationSucceeded, map (\<lambda>_. 0xf4) data)
       else (if \<forall>b \<in> set data. b = 0xf4 then NaClValidationSucceeded else NaClValidationFailed, data)),
     CopyCode = (\<lambda>addr old new. (NaClValidationSucceeded, new)),
     ValidateCodeReplacement = (\<lambda>addr old new. NaClValidationSucceeded) \<rparr>"

definition sample_policy :: NaClPolicyApp where
  "sample_policy = NaClApp.extend (sample_space\<lparr> static_text_end := 0x20020 \<rparr>)
     \<lparr> validation_cache = False, fixed_feature_cpu_mode = False, ignore_validator_result = False,
       skip_validator = False, validator_stub_out_mode = True \<rparr>"

lemma validate_image_sound_witness:
  "\<exists>mem'. NaClValidateImage halt_validator sample_policy (\<lambda>_. 0x90) = Inr (LOAD_OK, mem') \<and>
    (\<exists>md cache. accepts halt_validator NACL_TRAMPOLINE_END
       (read_bytes mem' (mem_start sample_policy + NACL_TRAMPOLINE_END) 32) False md cache)"
proof -
  have keep: "keeps_code halt_validator" by (simp add: keeps_code_def halt_validator_def)
  have app: "static_text_end sample_policy = 0x20020" "mem_start sample_policy = 0x7f0000000000"
    "addr_bits sample_policy = 32" "\<not> skip_validator sample_policy"
    "\<not> ignore_validator_result sample_policy" "\<not> fixed_feature_cpu_mode sample_policy"
    "validator_stub_out_mode sample_policy"
    by (simp_all add: sample_policy_def sample_space_def NaClApp.defs NaClPolicyApp.defs)
  have ok: "space_ok sample_policy" by (simp add: space_ok_def app)
  obtain mem' where run: "NaClValidateImage halt_validator sample_policy (\<lambda>_. 0x90) = Inr (LOAD_OK, mem')"
    by (auto simp: NaClValidateImage_def NaClValidateCode_def halt_validator_def app Let_def
        kMinimumCachedCodeSize_def read_bytes_def)
  have "unat (static_text_end sample_policy) \<le> 2 ^ addr_bits sample_policy" by (simp add: app)
  from validate_image_sound [OF keep run app(4,5) ok this] run show ?thesis by (auto simp: app)
qed

end
