(* ===== verification/Dyn_Region.thy ===== *)
theory Dyn_Region
  imports Sel_Validate
begin

text \<open>
  The table of dynamically loaded code regions of a sandbox, from
  \<open>service_runtime/nacl_text.c\<close>: lookup by binary search, insertion that keeps the table sorted
  and refuses overlaps, deletion; and the generation numbers by which threads report that they
  have left deleted code.

  The array \<open>dynamic_regions[0 .. num_dynamic_regions)\<close> is a list, a pointer into it an index.
  \<open>alloc n\<close> says whether \<open>realloc\<close> to \<open>n\<close> regions succeeds.
\<close>

subsection \<open>Data\<close>

record NaClDynamicRegion =
  region_start :: u64
  region_size :: u64
  delete_generation :: int
  is_mmap :: bool

text \<open>
  The fields of \<open>struct NaClApp\<close> for dynamic code.  \<open>text_mem\<close> is the contents of the shared
  memory object \<open>text_shm\<close> by offset, and \<open>thread_generations\<close> the thread table with the field
  \<open>dynamic_delete_generation\<close> of each thread.
\<close>

record NaClTextApp = NaClPolicyApp +
  use_shm_for_dynamic_text :: bool
  text_shm :: "nat option"
  text_mem :: "u64 \<Rightarrow> u8"
  dynamic_page_bitmap :: "u8 list"
  dynamic_regions :: "NaClDynamicRegion list"
  dynamic_regions_allocated :: nat
  dynamic_mapcache_offset :: u32
  dynamic_mapcache_size :: u32
  dynamic_mapcache_ret :: u64
  dynamic_delete_generation :: int
  thread_generations :: "int option list"

subsection \<open>Operations\<close>

text \<open>The two loops of \<open>NaClDynamicRegionFindClosestLEQ\<close>.\<close>

function leq_bsearch :: "NaClDynamicRegion list \<Rightarrow> u64 \<Rightarrow> nat \<Rightarrow> nat \<Rightarrow> nat \<times> nat" where
  "leq_bsearch rs ptr lo hi =
     (if lo + 16 + 1 < hi then
        let mid = lo + (hi - lo) div 2 in
        if region_start (rs ! mid) \<le> ptr then leq_bsearch rs ptr mid hi
        else leq_bsearch rs ptr lo mid
      else (lo, hi))"
  by pat_completeness auto
termination
  by (relation "measure (\<lambda>(rs, ptr, lo, hi). hi - lo)") (auto simp: Let_def)

function leq_scan :: "NaClDynamicRegion list \<Rightarrow> u64 \<Rightarrow> nat \<Rightarrow> nat \<Rightarrow> nat" where
  "leq_scan rs ptr lo hi =
     (if lo + 1 < hi \<and> region_start (rs ! (lo + 1)) \<le> ptr then leq_scan rs ptr (lo + 1) hi else lo)"
  by pat_completeness auto
termination
  by (relation "measure (\<lambda>(rs, ptr, lo, hi). hi - lo)") auto

declare leq_bsearch.simps [simp del] leq_scan.simps [simp del]

definition NaClDynamicRegionFindClosestLEQ :: "'a NaClTextApp_scheme \<Rightarrow> u64 \<Rightarrow> nat option" where
  "NaClDynamicRegionFindClosestLEQ nap ptr =
     (let rs = dynamic_regions nap; num = length rs in
      if num = 0 then None
      else if region_start (rs ! (num - 1)) \<le> ptr then Some (num - 1)
      else if ptr < region_start (rs ! 0) then None
      else case leq_bsearch rs ptr 0 num of (lo, hi) \<Rightarrow> Some (leq_scan rs ptr lo hi))"

definition NaClDynamicRegionFind :: "'a NaClTextApp_scheme \<Rightarrow> u64 \<Rightarrow> u64 \<Rightarrow> nat option" where
  "NaClDynamicRegionFind nap ptr sz =
     (case NaClDynamicRegionFindClosestLEQ nap (ptr + sz - 1) of
        None \<Rightarrow> None
      | Some p \<Rightarrow>
          let r = dynamic_regions nap ! p in
          if ptr < region_start r + region_size r then Some p else None)"

text \<open>The loop that scrolls to the insertion point.\<close>

function insertion_point :: "NaClDynamicRegion list \<Rightarrow> u64 \<Rightarrow> nat \<Rightarrow> nat" where
  "insertion_point rs start i =
     (if i < length rs \<and> region_start (rs ! i) < start then insertion_point rs start (i + 1) else i)"
  by pat_completeness auto
termination
  by (relation "measure (\<lambda>(rs, start, i). length rs - i)") auto

declare insertion_point.simps [simp del]

definition NaClDynamicRegionCreate ::
  "(nat \<Rightarrow> bool) \<Rightarrow> 'a NaClTextApp_scheme \<Rightarrow> u64 \<Rightarrow> u64 \<Rightarrow> bool \<Rightarrow> ('a NaClTextApp_scheme \<times> bool) run" where
  "NaClDynamicRegionCreate alloc nap start sz mmap =
     (let item = \<lparr> region_start = start, region_size = sz, delete_generation = -1, is_mmap = mmap \<rparr>;
          rs = dynamic_regions nap;
          full = (dynamic_regions_allocated nap = length rs);
          space = (if full then max (dynamic_regions_allocated nap * 2) 32
                   else dynamic_regions_allocated nap);
          nap = nap\<lparr> dynamic_regions_allocated := space \<rparr>;
          regionp = NaClDynamicRegionFindClosestLEQ nap (start + sz - 1);
          insert_from = (\<lambda>i.
            let k = insertion_point rs start i in
            Inr (nap\<lparr> dynamic_regions := take k rs @ item # drop k rs \<rparr>, True)) in
      if full \<and> \<not> alloc space then Inl LogFatal
      else
        case regionp of
          None \<Rightarrow> insert_from 0
        | Some p \<Rightarrow>
            if start < region_start (rs ! p) + region_size (rs ! p) then Inr (nap, False)
            else insert_from p)"

definition NaClDynamicRegionDelete ::
  "(nat \<Rightarrow> bool) \<Rightarrow> 'a NaClTextApp_scheme \<Rightarrow> nat \<Rightarrow> 'a NaClTextApp_scheme run" where
  "NaClDynamicRegionDelete alloc nap r =
     (let rs = take r (dynamic_regions nap) @ drop (r + 1) (dynamic_regions nap);
          nap = nap\<lparr> dynamic_regions := rs \<rparr>;
          space = dynamic_regions_allocated nap in
      if 32 < space \<and> length rs < space div 4 then
        if alloc (space div 2) then Inr (nap\<lparr> dynamic_regions_allocated := space div 2 \<rparr>)
        else Inl LogFatal
      else Inr nap)"

definition NaClSetThreadGeneration ::
  "'a NaClTextApp_scheme \<Rightarrow> nat \<Rightarrow> int \<Rightarrow> 'a NaClTextApp_scheme run" where
  "NaClSetThreadGeneration nap natp generation =
     (case thread_generations nap ! natp of
        None \<Rightarrow> Inl NullDeref
      | Some g \<Rightarrow>
          if g \<noteq> generation then
            andThen (check (g \<le> generation)) (\<lambda>_.
            Inr (nap\<lparr> thread_generations := (thread_generations nap)[natp := Some generation] \<rparr>))
          else Inr nap)"

fun min_generation :: "int \<Rightarrow> int option list \<Rightarrow> int" where
  "min_generation rv [] = rv"
| "min_generation rv (None # ts) = min_generation rv ts"
| "min_generation rv (Some g # ts) = min_generation (if rv > g then g else rv) ts"

abbreviation (input) INT32_MAX :: int where "INT32_MAX \<equiv> 0x7fffffff"

definition NaClMinimumThreadGeneration :: "'a NaClTextApp_scheme \<Rightarrow> int" where
  "NaClMinimumThreadGeneration nap = min_generation INT32_MAX (thread_generations nap)"

definition NaClDyncodeVisit :: "'a NaClTextApp_scheme \<Rightarrow> ('s \<Rightarrow> NaClDynamicRegion \<Rightarrow> 's) \<Rightarrow> 's \<Rightarrow> 's" where
  "NaClDyncodeVisit nap fn state = foldl fn state (dynamic_regions nap)"

subsection \<open>The table is a sorted list of disjoint ranges\<close>

definition region_end :: "NaClDynamicRegion \<Rightarrow> nat" where
  "region_end r = unat (region_start r) + unat (region_size r)"

definition region_fits :: "NaClDynamicRegion \<Rightarrow> bool" where
  "region_fits r \<longleftrightarrow> 0 < unat (region_size r) \<and> region_end r < 2 ^ 64"

definition before :: "NaClDynamicRegion \<Rightarrow> NaClDynamicRegion \<Rightarrow> bool" where
  "before r r' \<longleftrightarrow> region_end r \<le> unat (region_start r')"

definition regions_ok :: "NaClDynamicRegion list \<Rightarrow> bool" where
  "regions_ok rs \<longleftrightarrow> sorted_wrt before rs \<and> (\<forall>r \<in> set rs. region_fits r)"

definition meets :: "NaClDynamicRegion \<Rightarrow> nat \<Rightarrow> nat \<Rightarrow> bool" where
  "meets r lo hi \<longleftrightarrow> unat (region_start r) < hi \<and> lo < region_end r"

lemma regions_ok_nth:
  assumes "regions_ok rs"
  shows "i < j \<Longrightarrow> j < length rs \<Longrightarrow> region_end (rs ! i) \<le> unat (region_start (rs ! j))"
    and "i < length rs \<Longrightarrow> 0 < unat (region_size (rs ! i)) \<and> region_end (rs ! i) < 2 ^ 64"
  using assms by (auto simp: regions_ok_def sorted_wrt_iff_nth_less before_def region_fits_def)

lemma region_starts_mono:
  assumes "regions_ok rs" and "i < j" and "j < length rs"
  shows "unat (region_start (rs ! i)) < unat (region_start (rs ! j))"
proof -
  have "0 < unat (region_size (rs ! i))" using regions_ok_nth(2) [OF assms(1), of i] assms(2,3) by simp
  moreover have "region_end (rs ! i) \<le> unat (region_start (rs ! j))"
    by (rule regions_ok_nth(1) [OF assms])
  ultimately show ?thesis unfolding region_end_def by linarith
qed

lemma unat_region_end:
  "region_fits r \<Longrightarrow> unat (region_start r + region_size r) = region_end r"
  unfolding region_fits_def region_end_def by (rule unat_add_small) simp

subsection \<open>Lookup\<close>

text \<open>\<open>closest rs ptr o\<close>: \<open>o\<close> is the last region that starts at or below \<open>ptr\<close>.\<close>

definition closest :: "NaClDynamicRegion list \<Rightarrow> u64 \<Rightarrow> nat option \<Rightarrow> bool" where
  "closest rs ptr res \<longleftrightarrow>
     (case res of
        None \<Rightarrow> \<forall>i < length rs. ptr < region_start (rs ! i)
      | Some p \<Rightarrow> p < length rs \<and> region_start (rs ! p) \<le> ptr \<and>
          (\<forall>i. p < i \<and> i < length rs \<longrightarrow> ptr < region_start (rs ! i)))"

lemma leq_bsearch_result:
  assumes "lo < hi" and "hi \<le> length rs" and "region_start (rs ! lo) \<le> ptr"
    and "\<forall>i. hi \<le> i \<and> i < length rs \<longrightarrow> ptr < region_start (rs ! i)" and "regions_ok rs"
  shows "\<exists>lo' hi'. leq_bsearch rs ptr lo hi = (lo', hi') \<and> lo' < hi' \<and> hi' \<le> length rs \<and>
    region_start (rs ! lo') \<le> ptr \<and> (\<forall>i. hi' \<le> i \<and> i < length rs \<longrightarrow> ptr < region_start (rs ! i))"
  using assms
proof (induction rs ptr lo hi rule: leq_bsearch.induct)
  case (1 rs ptr lo hi)
  let ?mid = "lo + (hi - lo) div 2"
  show ?case
  proof (cases "lo + 16 + 1 < hi")
    case True
    then have mid: "lo < ?mid" "?mid < hi" by linarith+
    show ?thesis
    proof (cases "region_start (rs ! ?mid) \<le> ptr")
      case le: True
      with True mid 1 show ?thesis by (subst leq_bsearch.simps) (simp add: Let_def)
    next
      case gt: False
      have "ptr < region_start (rs ! i)" if "?mid \<le> i" "i < length rs" for i
        using gt that mid(2) "1.prems"(2) region_starts_mono [OF "1.prems"(5), of ?mid i]
        by (cases "i = ?mid") (auto simp: word_less_nat_alt word_le_nat_alt)
      with gt True mid 1 show ?thesis by (subst leq_bsearch.simps) (simp add: Let_def)
    qed
  next
    case False
    with "1.prems" show ?thesis by (subst leq_bsearch.simps) simp
  qed
qed

lemma leq_scan_result:
  assumes "lo < hi" and "hi \<le> length rs" and "region_start (rs ! lo) \<le> ptr"
    and "\<forall>i. hi \<le> i \<and> i < length rs \<longrightarrow> ptr < region_start (rs ! i)" and "regions_ok rs"
  shows "closest rs ptr (Some (leq_scan rs ptr lo hi))"
  using assms
proof (induction rs ptr lo hi rule: leq_scan.induct)
  case (1 rs ptr lo hi)
  show ?case
  proof (cases "lo + 1 < hi \<and> region_start (rs ! (lo + 1)) \<le> ptr")
    case True
    with 1 show ?thesis by (subst leq_scan.simps) simp
  next
    case False
    have "ptr < region_start (rs ! i)" if "lo < i" "i < length rs" for i
    proof (cases "hi \<le> i")
      case True
      then show ?thesis using "1.prems"(4) that by simp
    next
      case below: False
      then have "ptr < region_start (rs ! (lo + 1))" "lo + 1 < length rs"
        using False that "1.prems"(2) by auto
      then show ?thesis
        using that region_starts_mono [OF "1.prems"(5), of "lo + 1" i]
        by (cases "i = lo + 1") (auto simp: word_less_nat_alt)
    qed
    with False "1.prems" show ?thesis by (subst leq_scan.simps) (auto simp: closest_def)
  qed
qed

lemma FindClosestLEQ_closest:
  assumes "regions_ok (dynamic_regions nap)"
  shows "closest (dynamic_regions nap) ptr (NaClDynamicRegionFindClosestLEQ nap ptr)"
proof -
  let ?rs = "dynamic_regions nap"
  let ?n = "length ?rs"
  consider "?n = 0" | "?n \<noteq> 0" "region_start (?rs ! (?n - 1)) \<le> ptr"
    | "?n \<noteq> 0" "\<not> region_start (?rs ! (?n - 1)) \<le> ptr" "ptr < region_start (?rs ! 0)"
    | "?n \<noteq> 0" "\<not> region_start (?rs ! (?n - 1)) \<le> ptr" "\<not> ptr < region_start (?rs ! 0)" by blast
  then show ?thesis
  proof cases
    case 3
    have "ptr < region_start (?rs ! i)" if "i < ?n" for i
      using 3 that region_starts_mono [OF assms, of 0 i] by (cases "i = 0") (auto simp: word_less_nat_alt)
    with 3 show ?thesis by (simp add: NaClDynamicRegionFindClosestLEQ_def closest_def Let_def)
  next
    case 4
    have "0 < ?n" "region_start (?rs ! 0) \<le> ptr" using 4 by (auto simp: not_less)
    then obtain lo hi where s: "leq_bsearch ?rs ptr 0 ?n = (lo, hi)" "lo < hi" "hi \<le> ?n"
      "region_start (?rs ! lo) \<le> ptr" "\<forall>i. hi \<le> i \<and> i < ?n \<longrightarrow> ptr < region_start (?rs ! i)"
      using leq_bsearch_result [of 0 ?n ?rs ptr, OF _ order_refl _ _ assms] by (metis leD)
    from leq_scan_result [OF s(2-5) assms] 4 s(1) show ?thesis
      by (simp add: NaClDynamicRegionFindClosestLEQ_def Let_def)
  qed (auto simp: NaClDynamicRegionFindClosestLEQ_def closest_def Let_def)
qed

lemma unat_last_byte:
  assumes "0 < unat n" and "unat p + unat n < 2 ^ 64"
  shows "unat (p + n - 1 :: u64) = unat p + unat n - 1"
proof -
  have "unat (p + n) = unat p + unat n" using assms(2) by (simp add: unat_add_small)
  with assms(1) show ?thesis by (simp add: unat_sub_small)
qed

lemma Find_result:
  assumes "regions_ok (dynamic_regions nap)" and "0 < unat n" and "unat ptr + unat n < 2 ^ 64"
  shows "case NaClDynamicRegionFind nap ptr n of
      None \<Rightarrow> \<forall>r \<in> set (dynamic_regions nap). \<not> meets r (unat ptr) (unat ptr + unat n)
    | Some p \<Rightarrow> p < length (dynamic_regions nap) \<and>
        meets (dynamic_regions nap ! p) (unat ptr) (unat ptr + unat n) \<and>
        (\<forall>i. p < i \<and> i < length (dynamic_regions nap) \<longrightarrow>
           \<not> meets (dynamic_regions nap ! i) (unat ptr) (unat ptr + unat n))"
proof -
  let ?rs = "dynamic_regions nap" and ?q = "ptr + n - 1"
  have q: "unat ?q = unat ptr + unat n - 1" by (rule unat_last_byte [OF assms(2,3)])
  have starts: "region_start r \<le> ?q \<longleftrightarrow> unat (region_start r) < unat ptr + unat n" for r
    using q assms(2) by (simp add: word_le_nat_alt) linarith
  note c = FindClosestLEQ_closest [OF assms(1), of ?q]
  show ?thesis
  proof (cases "NaClDynamicRegionFindClosestLEQ nap ?q")
    case None
    with c have "\<forall>i < length ?rs. \<not> region_start (?rs ! i) \<le> ?q" by (simp add: closest_def not_le)
    then have "\<forall>r \<in> set ?rs. \<not> meets r (unat ptr) (unat ptr + unat n)"
      by (auto simp: in_set_conv_nth meets_def starts)
    with None show ?thesis by (simp add: NaClDynamicRegionFind_def)
  next
    case (Some p)
    with c have p: "p < length ?rs" "region_start (?rs ! p) \<le> ?q"
      "\<forall>i. p < i \<and> i < length ?rs \<longrightarrow> \<not> region_start (?rs ! i) \<le> ?q"
      by (auto simp: closest_def not_le)
    have fits: "region_fits (?rs ! p)" using assms(1) p(1) by (simp add: regions_ok_def)
    have above: "\<not> meets (?rs ! i) (unat ptr) (unat ptr + unat n)" if "p < i" "i < length ?rs" for i
      using p(3) that by (auto simp: meets_def starts)
    have below: "region_end (?rs ! i) \<le> region_end (?rs ! p)" if "i \<le> p" for i
      using regions_ok_nth(1) [OF assms(1), of i p] that p(1)
      by (cases "i = p") (auto simp: region_end_def)
    have lt: "ptr < region_start (?rs ! p) + region_size (?rs ! p) \<longleftrightarrow> unat ptr < region_end (?rs ! p)"
      using unat_region_end [OF fits] by (simp add: word_less_nat_alt)
    show ?thesis
    proof (cases "unat ptr < region_end (?rs ! p)")
      case True
      then have "NaClDynamicRegionFind nap ptr n = Some p"
        using Some lt by (simp add: NaClDynamicRegionFind_def Let_def)
      with p True above show ?thesis by (simp add: meets_def starts)
    next
      case False
      then have "NaClDynamicRegionFind nap ptr n = None"
        using Some lt by (simp add: NaClDynamicRegionFind_def Let_def)
      moreover have "\<not> meets (?rs ! i) (unat ptr) (unat ptr + unat n)" if "i < length ?rs" for i
        using above [of i] below [of i] that False by (cases "p < i") (auto simp: meets_def)
      ultimately show ?thesis by (auto simp: in_set_conv_nth)
    qed
  qed
qed

subsection \<open>Insertion and deletion\<close>

lemma insertion_point_result:
  "i \<le> length rs \<Longrightarrow> i \<le> insertion_point rs start i \<and> insertion_point rs start i \<le> length rs \<and>
   (\<forall>j. i \<le> j \<and> j < insertion_point rs start i \<longrightarrow> region_start (rs ! j) < start) \<and>
   (insertion_point rs start i < length rs \<longrightarrow> \<not> region_start (rs ! insertion_point rs start i) < start)"
proof (induction rs start i rule: insertion_point.induct)
  case (1 rs start i)
  show ?case
  proof (cases "i < length rs \<and> region_start (rs ! i) < start")
    case True
    with 1 have IH: "i + 1 \<le> insertion_point rs start (i + 1) \<and> insertion_point rs start (i + 1) \<le> length rs \<and>
      (\<forall>j. i + 1 \<le> j \<and> j < insertion_point rs start (i + 1) \<longrightarrow> region_start (rs ! j) < start) \<and>
      (insertion_point rs start (i + 1) < length rs \<longrightarrow> \<not> region_start (rs ! insertion_point rs start (i + 1)) < start)"
      by simp
    have "insertion_point rs start i = insertion_point rs start (i + 1)"
      using True by (subst insertion_point.simps) simp
    moreover have "i \<le> j \<longleftrightarrow> j = i \<or> i + 1 \<le> j" for j by auto
    ultimately show ?thesis using IH True by auto
  next
    case False
    then have "insertion_point rs start i = i" by (subst insertion_point.simps) auto
    with False 1 show ?thesis by auto
  qed
qed

lemma sorted_wrt_insert:
  assumes "sorted_wrt P xs" and "\<forall>x \<in> set (take k xs). P x y" and "\<forall>x \<in> set (drop k xs). P y x"
  shows "sorted_wrt P (take k xs @ y # drop k xs)"
proof -
  have "sorted_wrt P (take k xs @ drop k xs)" using assms(1) by simp
  then show ?thesis using assms(2,3) unfolding sorted_wrt_append by simp
qed

definition new_region :: "u64 \<Rightarrow> u64 \<Rightarrow> bool \<Rightarrow> NaClDynamicRegion" where
  "new_region start n mmap =
     \<lparr> region_start = start, region_size = n, delete_generation = -1, is_mmap = mmap \<rparr>"

lemma Create_result:
  assumes "regions_ok (dynamic_regions nap)" and "0 < unat n" and "unat start + unat n < 2 ^ 64"
    and "NaClDynamicRegionCreate alloc nap start n mmap = Inr (nap', ok)"
  shows "regions_ok (dynamic_regions nap') \<and>
    (ok \<longleftrightarrow> (\<forall>r \<in> set (dynamic_regions nap). \<not> meets r (unat start) (unat start + unat n))) \<and>
    set (dynamic_regions nap') =
      (if ok then insert (new_region start n mmap) (set (dynamic_regions nap)) else set (dynamic_regions nap)) \<and>
    (\<exists>sp rs'. nap' = (if ok then nap\<lparr> dynamic_regions_allocated := sp, dynamic_regions := rs' \<rparr>
       else nap\<lparr> dynamic_regions_allocated := sp \<rparr>))"
proof -
  define rs where "rs = dynamic_regions nap"
  define sp where "sp = (if dynamic_regions_allocated nap = length rs
     then max (dynamic_regions_allocated nap * 2) 32 else dynamic_regions_allocated nap)"
  define item where "item = new_region start n mmap"
  have find: "NaClDynamicRegionFind nap start n = (case NaClDynamicRegionFindClosestLEQ nap (start + n - 1) of
      None \<Rightarrow> None | Some p \<Rightarrow> if start < region_start (rs ! p) + region_size (rs ! p) then Some p else None)"
    unfolding NaClDynamicRegionFind_def Let_def rs_def ..
  have same: "NaClDynamicRegionFindClosestLEQ (nap\<lparr> dynamic_regions_allocated := sp \<rparr>) q =
      NaClDynamicRegionFindClosestLEQ nap q" for q
    by (simp add: NaClDynamicRegionFindClosestLEQ_def)
  define i where "i = (case NaClDynamicRegionFindClosestLEQ nap (start + n - 1) of None \<Rightarrow> 0 | Some p \<Rightarrow> p)"
  define k where "k = insertion_point rs start i"
  define nap1 where "nap1 = nap\<lparr> dynamic_regions_allocated := sp \<rparr>"
  have run: "NaClDynamicRegionCreate alloc nap start n mmap =
      (if dynamic_regions_allocated nap = length rs \<and> \<not> alloc sp then Inl LogFatal
       else if NaClDynamicRegionFind nap start n = None
       then Inr (nap1\<lparr> dynamic_regions := take k rs @ item # drop k rs \<rparr>, True)
       else Inr (nap1, False))"
    unfolding NaClDynamicRegionCreate_def Let_def rs_def [symmetric] sp_def [symmetric]
      nap1_def [symmetric] item_def [symmetric, unfolded new_region_def]
    by (cases "NaClDynamicRegionFindClosestLEQ nap (start + n - 1)")
      (simp_all add: find same [folded nap1_def] i_def k_def item_def new_region_def)
  have res: "nap' = (if NaClDynamicRegionFind nap start n = None
        then nap\<lparr> dynamic_regions_allocated := sp, dynamic_regions := take k rs @ item # drop k rs \<rparr>
        else nap\<lparr> dynamic_regions_allocated := sp \<rparr>) \<and>
      ok = (NaClDynamicRegionFind nap start n = None)"
    using assms(4) unfolding run nap1_def by (auto split: if_splits)
  note fr = Find_result [OF assms(1-3)]
  have free: "ok \<longleftrightarrow> (\<forall>r \<in> set rs. \<not> meets r (unat start) (unat start + unat n))"
    using fr res unfolding rs_def by (cases "NaClDynamicRegionFind nap start n") auto
  show ?thesis
  proof (cases ok)
    case False
    then have "NaClDynamicRegionFind nap start n \<noteq> None" using res by blast
    then have "nap' = nap\<lparr> dynamic_regions_allocated := sp \<rparr>" using conjunct1 [OF res] by (simp only: if_False)
    then have parts: "dynamic_regions nap' = rs"
      "nap' = (if ok then nap\<lparr> dynamic_regions_allocated := sp, dynamic_regions := rs \<rparr>
         else nap\<lparr> dynamic_regions_allocated := sp \<rparr>)" using False by (simp_all add: rs_def)
    show ?thesis
      unfolding parts(1) rs_def [symmetric]
      by (intro conjI free exI [of _ sp] exI [of _ rs] parts(2)) (use False assms(1) in \<open>simp_all add: rs_def\<close>)
  next
    case True
    then have nap': "nap' = nap\<lparr> dynamic_regions_allocated := sp, dynamic_regions := take k rs @ item # drop k rs \<rparr>"
      using res by simp
    note c = FindClosestLEQ_closest [OF assms(1), of "start + n - 1", folded rs_def]
    have il: "i \<le> length rs" using c by (auto simp: i_def closest_def split: option.splits)
    note k = insertion_point_result [OF il, of start, folded k_def]
    have ok: "regions_ok rs" using assms(1) by (simp add: rs_def)
    have free': "\<And>j. j < length rs \<Longrightarrow> \<not> meets (rs ! j) (unat start) (unat start + unat n)"
      using True free by (simp add: all_set_conv_all_nth)
    have it: "unat (region_start item) = unat start" "region_end item = unat start + unat n"
      "region_fits item"
      using assms(2,3) by (simp_all add: item_def new_region_def region_end_def region_fits_def)
    have low: "unat (region_start (rs ! j)) < unat start" if "j < k" for j
    proof (cases "i \<le> j")
      case True
      then show ?thesis using k that by (simp add: word_less_nat_alt)
    next
      case False
      then have ji: "j < i" by simp
      then obtain p where p: "NaClDynamicRegionFindClosestLEQ nap (start + n - 1) = Some p" "i = p"
        by (auto simp: i_def split: option.splits)
      with c have pl: "p < length rs" "region_start (rs ! p) \<le> start + n - 1"
        by (auto simp: closest_def)
      have "unat (region_start (rs ! p)) < unat start + unat n"
        using pl(2) unat_last_byte [OF assms(2,3)] assms(2) by (simp add: word_le_nat_alt)
      with free' [OF pl(1)] have "region_end (rs ! p) \<le> unat start" by (auto simp: meets_def)
      moreover have "unat (region_start (rs ! j)) < unat (region_start (rs ! p))"
        using region_starts_mono [OF ok] ji p(2) pl(1) by simp
      ultimately show ?thesis by (simp add: region_end_def)
    qed
    have left: "before r item" if "r \<in> set (take k rs)" for r
    proof -
      from that obtain j where j: "j < k" "j < length rs" "r = rs ! j" by (auto simp: in_set_conv_nth)
      from low [OF j(1)] free' [OF j(2)] assms(2) j(3) show ?thesis
        by (auto simp: meets_def before_def it)
    qed
    have right: "before item r" if "r \<in> set (drop k rs)" for r
    proof -
      from that obtain j where j: "k \<le> j" "j < length rs" "r = rs ! j"
        by (auto simp: in_set_conv_nth) (metis add.commute le_add2 less_diff_conv)
      then have "unat start \<le> unat (region_start (rs ! k))" using k by (simp add: word_less_nat_alt)
      moreover have "unat (region_start (rs ! k)) \<le> unat (region_start (rs ! j))"
        using region_starts_mono [OF ok, of k j] j by (cases "j = k") auto
      moreover have "0 < unat (region_size (rs ! j))" using regions_ok_nth(2) [OF ok j(2)] by simp
      ultimately have "unat start < region_end (rs ! j)" unfolding region_end_def by linarith
      with free' [OF j(2)] have "unat start + unat n \<le> unat (region_start (rs ! j))"
        by (auto simp: meets_def)
      then show ?thesis by (simp add: before_def it j(3))
    qed
    have "regions_ok (take k rs @ item # drop k rs)"
      unfolding regions_ok_def
    proof
      show "sorted_wrt before (take k rs @ item # drop k rs)"
        using ok left right by (intro sorted_wrt_insert) (simp_all add: regions_ok_def)
      show "\<forall>r \<in> set (take k rs @ item # drop k rs). region_fits r"
        using ok it(3) by (auto simp: regions_ok_def dest: in_set_takeD in_set_dropD)
    qed
    moreover have "set (take k rs @ item # drop k rs) = insert item (set rs)"
      by (metis append_take_drop_id list.simps(15) set_append Un_insert_right)
    ultimately have parts: "regions_ok (dynamic_regions nap')" "set (dynamic_regions nap') = insert item (set rs)"
      by (simp_all add: nap')
    have parts2: "nap' = (if ok then nap\<lparr> dynamic_regions_allocated := sp, dynamic_regions := take k rs @ item # drop k rs \<rparr>
         else nap\<lparr> dynamic_regions_allocated := sp \<rparr>)" using True nap' by simp
    show ?thesis
      unfolding parts(2) rs_def [symmetric] item_def [symmetric]
      by (intro conjI parts(1) free exI [of _ sp] exI [of _ "take k rs @ item # drop k rs"] parts2)
        (use True in simp_all)
  qed
qed

lemma Delete_result:
  assumes "regions_ok (dynamic_regions nap)" and "r < length (dynamic_regions nap)"
    and "NaClDynamicRegionDelete alloc nap r = Inr nap'"
  shows "regions_ok (dynamic_regions nap')"
    and "dynamic_regions nap' = take r (dynamic_regions nap) @ drop (r + 1) (dynamic_regions nap)"
    and "set (dynamic_regions nap') = set (dynamic_regions nap) - {dynamic_regions nap ! r}"
proof -
  let ?rs = "dynamic_regions nap"
  show eq: "dynamic_regions nap' = take r ?rs @ drop (r + 1) ?rs"
    using assms(3) by (auto simp: NaClDynamicRegionDelete_def Let_def split: if_splits)
  have split: "?rs = take r ?rs @ ?rs ! r # drop (r + 1) ?rs"
    using assms(2) by (simp add: id_take_nth_drop)
  have ok: "regions_ok (take r ?rs @ ?rs ! r # drop (r + 1) ?rs)"
    using assms(1) split by simp
  then show "regions_ok (dynamic_regions nap')"
    unfolding eq regions_ok_def sorted_wrt_append by auto
  have "before x (?rs ! r)" if "x \<in> set (take r ?rs)" for x
    using ok that unfolding regions_ok_def sorted_wrt_append by simp
  moreover have "before (?rs ! r) x" if "x \<in> set (drop (r + 1) ?rs)" for x
    using ok that unfolding regions_ok_def sorted_wrt_append by simp
  moreover have "\<not> before (?rs ! r) (?rs ! r)"
    using ok unfolding regions_ok_def by (auto simp: region_fits_def before_def region_end_def)
  ultimately have "?rs ! r \<notin> set (take r ?rs @ drop (r + 1) ?rs)" by auto
  moreover have "set ?rs = insert (?rs ! r) (set (take r ?rs @ drop (r + 1) ?rs))"
    by (subst split) auto
  ultimately show "set (dynamic_regions nap') = set ?rs - {?rs ! r}" unfolding eq by auto
qed

subsection \<open>Generations\<close>

lemma min_generation_le:
  "min_generation rv ts \<le> rv" "Some g \<in> set ts \<Longrightarrow> min_generation rv ts \<le> g"
proof (induction rv ts rule: min_generation.induct)
  case (3 rv h ts)
  {
    case 1
    then show ?case using 3(1) by (auto split: if_splits)
  next
    case 2
    then show ?case using 3 by (auto split: if_splits)
  }
qed auto

lemma min_generation_attained:
  "min_generation rv ts = rv \<or> Some (min_generation rv ts) \<in> set ts"
  by (induction rv ts rule: min_generation.induct) (auto split: if_splits)

lemma MinimumThreadGeneration_le:
  "k \<le> NaClMinimumThreadGeneration nap \<longleftrightarrow>
   k \<le> INT32_MAX \<and> (\<forall>g. Some g \<in> set (thread_generations nap) \<longrightarrow> k \<le> g)"
proof -
  let ?m = "min_generation INT32_MAX (thread_generations nap)"
  have le: "?m \<le> INT32_MAX" "\<And>g. Some g \<in> set (thread_generations nap) \<Longrightarrow> ?m \<le> g"
    using min_generation_le by blast+
  have at: "?m = INT32_MAX \<or> Some ?m \<in> set (thread_generations nap)" by (rule min_generation_attained)
  show ?thesis
  proof
    assume "k \<le> NaClMinimumThreadGeneration nap"
    then have "k \<le> ?m" by (simp only: NaClMinimumThreadGeneration_def)
    with le show "k \<le> INT32_MAX \<and> (\<forall>g. Some g \<in> set (thread_generations nap) \<longrightarrow> k \<le> g)"
      using order_trans by blast
  next
    assume k: "k \<le> INT32_MAX \<and> (\<forall>g. Some g \<in> set (thread_generations nap) \<longrightarrow> k \<le> g)"
    from at have "k \<le> ?m"
    proof
      assume "?m = INT32_MAX" with k show ?thesis by (simp only:)
    next
      assume "Some ?m \<in> set (thread_generations nap)" with k show ?thesis by blast
    qed
    then show "k \<le> NaClMinimumThreadGeneration nap" by (simp only: NaClMinimumThreadGeneration_def)
  qed
qed

lemma Create_returns:
  "(\<And>n. alloc n) \<Longrightarrow> \<exists>nap' ok. NaClDynamicRegionCreate alloc nap start n mmap = Inr (nap', ok)"
  unfolding NaClDynamicRegionCreate_def Let_def by (auto split: option.split)

lemma Delete_returns:
  "(\<And>n. alloc n) \<Longrightarrow> \<exists>nap'. NaClDynamicRegionDelete alloc nap r = Inr nap'"
  unfolding NaClDynamicRegionDelete_def Let_def by simp

subsection \<open>Properties\<close>

text \<open>Looking up a range in the region table answers exactly: no region is returned only if
  none meets the range, and otherwise the last one that does (the binary search, its switch to
  a linear scan and its short cuts included).\<close>

theorem region_find_exact:
  assumes "regions_ok (dynamic_regions nap)" and "0 < unat n" and "unat ptr + unat n < 2 ^ 64"
  shows "case NaClDynamicRegionFind nap ptr n of
      None \<Rightarrow> \<forall>r \<in> set (dynamic_regions nap). \<not> meets r (unat ptr) (unat ptr + unat n)
    | Some p \<Rightarrow> p < length (dynamic_regions nap) \<and>
        meets (dynamic_regions nap ! p) (unat ptr) (unat ptr + unat n) \<and>
        (\<forall>i. p < i \<and> i < length (dynamic_regions nap) \<longrightarrow>
           \<not> meets (dynamic_regions nap ! i) (unat ptr) (unat ptr + unat n))"
  using assms by (rule Find_result)

text \<open> C15. A region can be created iff its range meets no existing region; the table then has
  exactly this region more and stays a sorted list of disjoint ranges, and a refused request
  changes no region.\<close>

theorem region_create_disjoint:
  assumes "regions_ok (dynamic_regions nap)" and "0 < unat n" and "unat start + unat n < 2 ^ 64"
    and "NaClDynamicRegionCreate alloc nap start n mmap = Inr (nap', ok)"
  shows "regions_ok (dynamic_regions nap') \<and>
    (ok \<longleftrightarrow> (\<forall>r \<in> set (dynamic_regions nap). \<not> meets r (unat start) (unat start + unat n))) \<and>
    set (dynamic_regions nap') =
      (if ok then insert (new_region start n mmap) (set (dynamic_regions nap)) else set (dynamic_regions nap))"
  using Create_result [OF assms] by blast

text \<open> C32. Deleting a region of the table removes exactly this region and keeps the table sorted
  and disjoint.\<close>

theorem region_delete_exact:
  assumes "regions_ok (dynamic_regions nap)" and "r < length (dynamic_regions nap)"
    and "NaClDynamicRegionDelete alloc nap r = Inr nap'"
  shows "regions_ok (dynamic_regions nap') \<and>
    set (dynamic_regions nap') = set (dynamic_regions nap) - {dynamic_regions nap ! r}"
  using Delete_result [OF assms] by blast

definition region_at :: "u64 \<Rightarrow> u64 \<Rightarrow> NaClDynamicRegion" where
  "region_at a n = new_region a n False"

definition sample_text :: NaClTextApp where
  "sample_text = NaClPolicyApp.extend sample_policy
     \<lparr> use_shm_for_dynamic_text = True, text_shm = Some 0, text_mem = (\<lambda>_. 0),
       dynamic_page_bitmap = [0, 0],
       dynamic_regions = [region_at 0x7f0000020000 0x20, region_at 0x7f0000020040 0x40],
       dynamic_regions_allocated = 32, dynamic_mapcache_offset = 0, dynamic_mapcache_size = 0,
       dynamic_mapcache_ret = 0, dynamic_delete_generation = 0, thread_generations = [Some 0] \<rparr>"

lemma sample_regions:
  "dynamic_regions sample_text = [region_at 0x7f0000020000 0x20, region_at 0x7f0000020040 0x40]"
  by (simp add: sample_text_def NaClPolicyApp.defs)

lemma sample_regions_ok: "regions_ok (dynamic_regions sample_text)"
  by (simp add: sample_regions regions_ok_def region_at_def new_region_def before_def region_fits_def region_end_def)

lemma region_find_exact_witness:
  "NaClDynamicRegionFind sample_text 0x7f0000020030 0x20 = Some 1"
proof (cases "NaClDynamicRegionFind sample_text 0x7f0000020030 0x20")
  case None
  with region_find_exact [OF sample_regions_ok, where n = "0x20" and ptr = "0x7f0000020030"] show ?thesis
    by (simp add: sample_regions region_at_def new_region_def meets_def region_end_def)
next
  case (Some p)
  with region_find_exact [OF sample_regions_ok, where n = "0x20" and ptr = "0x7f0000020030"] have
    "p < 2" "meets (dynamic_regions sample_text ! p) 0x7f0000020030 0x7f0000020050"
    by (simp_all add: sample_regions)
  then show ?thesis
    using Some by (cases p) (auto simp: sample_regions region_at_def new_region_def meets_def region_end_def less_Suc_eq)
qed

lemma region_create_disjoint_witness:
  "\<exists>nap' ok. NaClDynamicRegionCreate (\<lambda>_. True) sample_text 0x7f0000020020 0x20 False = Inr (nap', ok) \<and>
    ok \<and> regions_ok (dynamic_regions nap')"
proof -
  obtain nap' ok where
    run: "NaClDynamicRegionCreate (\<lambda>_. True) sample_text 0x7f0000020020 0x20 False = Inr (nap', ok)"
    using Create_returns [of "\<lambda>_. True"] by blast
  from region_create_disjoint [OF sample_regions_ok _ _ run] show ?thesis
    using run by (intro exI [of _ nap'] exI [of _ ok])
      (simp add: sample_regions region_at_def new_region_def meets_def region_end_def)
qed

lemma region_delete_exact_witness:
  "\<exists>nap'. NaClDynamicRegionDelete (\<lambda>_. True) sample_text 0 = Inr nap' \<and>
    set (dynamic_regions nap') = {region_at 0x7f0000020040 0x40}"
proof -
  obtain nap' where run: "NaClDynamicRegionDelete (\<lambda>_. True) sample_text 0 = Inr nap'"
    using Delete_returns [of "\<lambda>_. True"] by blast
  from region_delete_exact [OF sample_regions_ok _ run] run show ?thesis
    by (auto simp: sample_regions region_at_def new_region_def)
qed

end
