(* ===== verification/Code_Copy.thy ===== *)
theory Code_Copy
  imports Sel_Validate
begin

text \<open>
  How \<open>service_runtime/nacl_text.c\<close> writes code that other threads may be running into:
  \<open>CopyBundleTails\<close>, \<open>CopyBundleHeads\<close>, \<open>ReplaceBundleHeadsWithHalts\<close> and
  \<open>CopyCodeSafelyInitial\<close>.

  Each routine is modelled by the sequence of its 32-bit stores and memory barriers; the
  destination is an address of the writable mapping and the source a private list of bytes.
  The code assumes that an aligned 32-bit store is atomic; between two barriers other threads
  may see any selection of the stores in any order (\<open>seen\<close>).
\<close>

subsection \<open>Model\<close>

datatype text_write = Store u64 u32 | Barrier

abbreviation (input) NACL_HALT_WORD :: u32 where "NACL_HALT_WORD \<equiv> 0xf4f4f4f4"
abbreviation (input) NACL_HALT_OPCODE :: u8 where "NACL_HALT_OPCODE \<equiv> 0xf4"

text \<open>A little-endian 32-bit load from a buffer, and the bytes of a word.\<close>

definition load32 :: "u8 list \<Rightarrow> nat \<Rightarrow> u32" where
  "load32 src k =
     ucast (src ! k) OR push_bit 8 (ucast (src ! (k + 1))) OR push_bit 16 (ucast (src ! (k + 2))) OR
     push_bit 24 (ucast (src ! (k + 3)))"

definition bytes32 :: "u32 \<Rightarrow> u8 list" where
  "bytes32 w = [ucast w, ucast (drop_bit 8 w), ucast (drop_bit 16 w), ucast (drop_bit 24 w)]"

text \<open>The loop over the words at \<open>k\<close>, \<open>k + 4\<close>, ... below the \<open>int32_t\<close> size.\<close>

function tails_loop :: "u64 \<Rightarrow> u8 list \<Rightarrow> u32 \<Rightarrow> u32 \<Rightarrow> nat \<Rightarrow> text_write list run" where
  "tails_loop dest src sz bs k =
     (if int k < sint sz then
        let dest_ptr = dest + of_nat k in
        if dest_ptr AND scast (bs - 1) \<noteq> 0 then
          if k + 4 \<le> length src then
            andThen (tails_loop dest src sz bs (k + 4)) (\<lambda>ws.
            Inr (Store dest_ptr (load32 src k) # ws))
          else Inl OutOfBounds
        else tails_loop dest src sz bs (k + 4)
      else Inr [])"
  by pat_completeness auto
termination
  by (relation "measure (\<lambda>(dest, src, sz, bs, k). nat (sint sz - int k))") auto

declare tails_loop.simps [simp del]

definition CopyBundleTails :: "u64 \<Rightarrow> u8 list \<Rightarrow> u32 \<Rightarrow> u32 \<Rightarrow> text_write list run" where
  "CopyBundleTails dest src sz bs =
     andThen (check (dest AND 3 = 0)) (\<lambda>_. tails_loop dest src sz bs 0)"

text \<open>A size of 2 GB or more is negative for the loop, which then copies nothing.\<close>

lemma tails_truncated:
  assumes "2 ^ 31 \<le> unat sz" and "dest AND 3 = 0"
  shows "CopyBundleTails dest src sz bs = Inr []"
proof -
  have "unat sz < 2 ^ 32" by (rule unat_lt32)
  then have "unat sz div 2 ^ 31 = 1" using assms(1) by (simp add: div_nat_eqI)
  then have "bit (unat sz) 31" by (simp add: bit_iff_odd)
  then have "bit sz 31" by (simp add: bit_unsigned_iff)
  then have "sint sz < 0" using bit_last_iff [of sz] by simp
  then have "\<not> int 0 < sint sz" by simp
  with assms(2) show ?thesis by (simp add: CopyBundleTails_def tails_loop.simps [of dest src sz bs 0])
qed

text \<open>The two loops over the bundle heads; \<open>what k\<close> is the word stored at offset \<open>k\<close>, if it can
  be read, and \<open>step\<close> the distance in bytes.\<close>

function heads_loop :: "u64 \<Rightarrow> (nat \<Rightarrow> u32 run) \<Rightarrow> nat \<Rightarrow> nat \<Rightarrow> nat \<Rightarrow> text_write list run" where
  "heads_loop dest what sz step k =
     (if k < sz then
        if step = 0 then Inl Diverges
        else
          andThen (what k) (\<lambda>w.
          andThen (heads_loop dest what sz step (k + step)) (\<lambda>ws.
          Inr (Store (dest + of_nat k) w # ws)))
      else Inr [])"
  by pat_completeness auto
termination
  by (relation "measure (\<lambda>(dest, what, sz, step, k). sz - k)") auto

declare heads_loop.simps [simp del]

definition CopyBundleHeads :: "u64 \<Rightarrow> u8 list \<Rightarrow> u32 \<Rightarrow> u32 \<Rightarrow> text_write list run" where
  "CopyBundleHeads dest src sz bs =
     andThen (check (dest AND 3 = 0)) (\<lambda>_.
       heads_loop dest (\<lambda>k. if k + 4 \<le> length src then Inr (load32 src k) else Inl OutOfBounds)
         (unat sz) (unat bs) 0)"

definition ReplaceBundleHeadsWithHalts :: "u64 \<Rightarrow> u32 \<Rightarrow> u32 \<Rightarrow> text_write list run" where
  "ReplaceBundleHeadsWithHalts dest sz bs =
     andThen (heads_loop dest (\<lambda>_. Inr NACL_HALT_WORD) (unat sz) (4 * (unat bs div 4)) 0) (\<lambda>ws.
     Inr (ws @ [Barrier]))"

definition CopyCodeSafelyInitial :: "u64 \<Rightarrow> u8 list \<Rightarrow> u32 \<Rightarrow> u32 \<Rightarrow> text_write list run" where
  "CopyCodeSafelyInitial dest src sz bs =
     andThen (CopyBundleTails dest src sz bs) (\<lambda>tails.
     andThen (CopyBundleHeads dest src sz bs) (\<lambda>heads.
     Inr (tails @ Barrier # heads)))"

text \<open>The effect on memory, and what another thread can see on the way.\<close>

definition store_word :: "u64 \<times> u32 \<Rightarrow> (u64 \<Rightarrow> u8) \<Rightarrow> u64 \<Rightarrow> u8" where
  "store_word s mem = write_bytes mem (fst s) (bytes32 (snd s))"

fun epochs :: "text_write list \<Rightarrow> (u64 \<times> u32) list list" where
  "epochs [] = [[]]"
| "epochs (Barrier # ws) = [] # epochs ws"
| "epochs (Store a w # ws) = ((a, w) # hd (epochs ws)) # tl (epochs ws)"

definition after_writes :: "text_write list \<Rightarrow> (u64 \<Rightarrow> u8) \<Rightarrow> u64 \<Rightarrow> u8" where
  "after_writes ws = fold store_word (concat (epochs ws))"

definition seen :: "(u64 \<Rightarrow> u8) \<Rightarrow> text_write list \<Rightarrow> (u64 \<Rightarrow> u8) \<Rightarrow> bool" where
  "seen mem ws m \<longleftrightarrow> (\<exists>k < length (epochs ws). \<exists>ys. set ys \<subseteq> set (epochs ws ! k) \<and>
     m = fold store_word ys (fold store_word (concat (take k (epochs ws))) mem))"

subsection \<open>Words and bytes\<close>

lemma high_bit: "8 \<le> m \<Longrightarrow> \<not> bit (w :: u8) m"
  using bit_imp_le_length [of w m] by auto

lemma byte_of_word:
  fixes a b c d :: u8
  defines "w \<equiv> (ucast a OR push_bit 8 (ucast b) OR push_bit 16 (ucast c) OR push_bit 24 (ucast d)) :: u32"
  shows "ucast w = a" and "ucast (drop_bit 8 w) = b" and "ucast (drop_bit 16 w) = c"
    and "ucast (drop_bit 24 w) = d"
  unfolding w_def by (rule bit_word_eqI; simp add: bit_simps high_bit)+

lemma less_4_cases: "i < 4 \<Longrightarrow> i = 0 \<or> i = 1 \<or> i = 2 \<or> i = (3 :: nat)"
  by linarith

lemma bytes32_load32:
  assumes "i < 4"
  shows "bytes32 (load32 src k) ! i = src ! (k + i)"
proof -
  have "bytes32 (load32 src k) = [src ! k, src ! (k + 1), src ! (k + 2), src ! (k + 3)]"
    unfolding bytes32_def load32_def byte_of_word ..
  with less_4_cases [OF assms] show ?thesis by auto
qed

lemma length_bytes32 [simp]: "length (bytes32 w) = 4"
  by (simp add: bytes32_def)

lemma bytes32_halt:
  assumes "i < 4"
  shows "bytes32 NACL_HALT_WORD ! i = NACL_HALT_OPCODE"
proof -
  have "bytes32 NACL_HALT_WORD = [0xf4, 0xf4, 0xf4, 0xf4]" by (simp add: bytes32_def)
  with less_4_cases [OF assms] show ?thesis by auto
qed

subsection \<open>The effect of aligned stores\<close>

lemma unat_of_nat64: "k < 2 ^ 64 \<Longrightarrow> unat (of_nat k :: u64) = k"
  by (simp add: unat_of_nat take_bit_nat_eq_self)

lemma unat_diff_less:
  assumes "k + 4 \<le> 2 ^ 64"
  shows "unat (x - of_nat k :: u64) < 4 \<longleftrightarrow> k \<le> unat x \<and> unat x < k + 4"
    and "k \<le> unat x \<Longrightarrow> unat (x - of_nat k :: u64) = unat x - k"
proof -
  have "k < 2 ^ 64" using assms by linarith
  then have k: "unat (of_nat k :: u64) = k" by (rule unat_of_nat64)
  show le: "unat (x - of_nat k :: u64) = unat x - k" if "k \<le> unat x"
    using that k by (simp add: unat_sub_small)
  have gt: "unat (x - of_nat k :: u64) = unat x + 2 ^ 64 - k" if "unat x < k"
    using that k by (simp add: unat_sub_if')
  show "unat (x - of_nat k :: u64) < 4 \<longleftrightarrow> k \<le> unat x \<and> unat x < k + 4"
    using le gt assms by (cases "k \<le> unat x") auto
qed

text \<open>The word that holds offset \<open>i\<close>.\<close>

abbreviation (input) word_at :: "nat \<Rightarrow> nat" where
  "word_at i \<equiv> i div 4 * 4"

lemma store_word_apply:
  assumes "k + 4 \<le> 2 ^ 64" and "4 dvd k"
  shows "store_word (dest + of_nat k, w) mem a =
    (if word_at (unat (a - dest)) = k then bytes32 w ! (unat (a - dest) mod 4) else mem a)"
proof -
  have pos: "a - (dest + of_nat k) = a - dest - of_nat k" by simp
  have word: "k \<le> x \<and> x < k + 4 \<longleftrightarrow> word_at x = k" for x using assms(2) by (auto elim!: dvdE)
  have byte: "word_at x = k \<Longrightarrow> k \<le> x \<and> x - k = x mod 4" for x
    using div_mult_mod_eq [of x 4] by linarith
  show ?thesis
    unfolding store_word_def write_bytes_def fst_conv snd_conv length_bytes32 pos
      unat_diff_less(1) [OF assms(1)] word
    using byte [of "unat (a - dest)"] unat_diff_less(2) [OF assms(1), of "a - dest"] by auto
qed

lemma fold_stores:
  assumes "\<forall>k \<in> set ks. k + 4 \<le> 2 ^ 64 \<and> 4 dvd k"
  shows "fold store_word (map (\<lambda>k. (dest + of_nat k, w k)) ks) mem a =
    (let i = unat (a - dest) in if word_at i \<in> set ks then bytes32 (w (word_at i)) ! (i mod 4) else mem a)"
  using assms
proof (induction ks arbitrary: mem)
  case (Cons k ks)
  then have k: "k + 4 \<le> 2 ^ 64" "4 dvd k" and ks: "\<forall>k \<in> set ks. k + 4 \<le> 2 ^ 64 \<and> 4 dvd k" by simp_all
  have "fold store_word (map (\<lambda>k. (dest + of_nat k, w k)) (k # ks)) mem a =
      fold store_word (map (\<lambda>k. (dest + of_nat k, w k)) ks) (store_word (dest + of_nat k, w k) mem) a"
    by (simp only: list.map fold_simps)
  also note Cons.IH [OF ks]
  also note store_word_apply [OF k]
  finally show ?case by (simp add: Let_def)
qed (simp add: Let_def)

text \<open>A selection of stores is the stores at a selection of offsets.\<close>

lemma subset_map: "set ys \<subseteq> f ` A \<Longrightarrow> \<exists>ks. ys = map f ks \<and> set ks \<subseteq> A"
proof (induction ys)
  case (Cons y ys)
  then obtain k ks where "y = f k" "k \<in> A" "ys = map f ks" "set ks \<subseteq> A" by auto
  then show ?case by (intro exI [of _ "k # ks"]) simp
qed simp

subsection \<open>Which stores the loops make\<close>

definition stores :: "u64 \<Rightarrow> (nat \<Rightarrow> u32) \<Rightarrow> nat list \<Rightarrow> text_write list" where
  "stores dest w ks = map (\<lambda>k. Store (dest + of_nat k) (w k)) ks"

lemma heads_loop_result:
  assumes "0 < step" and "step dvd k" and "\<forall>k' < n. step dvd k' \<longrightarrow> what k' = Inr (w k')"
  shows "\<exists>ks. heads_loop dest what n step k = Inr (stores dest w ks) \<and>
    set ks = {k'. k \<le> k' \<and> k' < n \<and> step dvd k'}"
  using assms
proof (induction "n - k" arbitrary: k rule: less_induct)
  case less
  show ?case
  proof (cases "k < n")
    case True
    with less.prems have what: "what k = Inr (w k)" by simp
    obtain ks where ks: "heads_loop dest what n step (k + step) = Inr (stores dest w ks)"
      "set ks = {k'. k + step \<le> k' \<and> k' < n \<and> step dvd k'}"
    proof -
      have "n - (k + step) < n - k" using True less.prems(1) by linarith
      moreover have "step dvd k + step" using less.prems(2) by simp
      ultimately show ?thesis using less.hyps less.prems that by blast
    qed
    have "k + step \<le> k'" if "k < k'" "step dvd k'" for k'
    proof -
      have "step dvd k' - k" using that(2) less.prems(2) by (rule dvd_diff_nat)
      then have "step \<le> k' - k" using that(1) by (intro dvd_imp_le) simp_all
      with that(1) show ?thesis by linarith
    qed
    then have "{k'. k \<le> k' \<and> k' < n \<and> step dvd k'} = insert k {k'. k + step \<le> k' \<and> k' < n \<and> step dvd k'}"
      using True less.prems(2) by (auto simp: le_less)
    then have "set (k # ks) = {k'. k \<le> k' \<and> k' < n \<and> step dvd k'}"
      using ks(2) by simp
    moreover have "heads_loop dest what n step k = Inr (stores dest w (k # ks))"
      using True less.prems(1) what ks(1) by (subst heads_loop.simps) (simp add: stores_def)
    ultimately show ?thesis by blast
  next
    case False
    then have "heads_loop dest what n step k = Inr (stores dest w [])"
      by (subst heads_loop.simps) (simp add: stores_def)
    moreover have "set [] = {k'. k \<le> k' \<and> k' < n \<and> step dvd k'}" using False by auto
    ultimately show ?thesis by blast
  qed
qed

text \<open>What the callers guarantee: bundle-aligned destination and size, and a source of that size.\<close>

definition copy_ok :: "u64 \<Rightarrow> u32 \<Rightarrow> u32 \<Rightarrow> nat \<Rightarrow> bool" where
  "copy_ok dest sz bs b \<longleftrightarrow> bs = 2 ^ b \<and> b \<in> {4, 5} \<and> 2 ^ b dvd unat dest \<and> 2 ^ b dvd unat sz \<and> unat sz < 2 ^ 31"

lemma copy_ok_bundle:
  assumes "copy_ok dest sz bs b"
  shows "unat bs = 2 ^ b" and "scast (bs - 1) = (mask b :: u64)" and "4 dvd (2 :: nat) ^ b"
    and "dest AND 3 = 0" and "sint sz = int (unat sz)"
proof -
  have b: "bs = 2 ^ b" "b = 4 \<or> b = 5" using assms by (auto simp: copy_ok_def)
  then show "unat bs = 2 ^ b" "scast (bs - 1) = (mask b :: u64)" by (auto simp: mask_eq_exp_minus_1)
  show four: "4 dvd (2 :: nat) ^ b" using b by auto
  have "4 dvd unat dest" using four assms dvd_trans by (auto simp: copy_ok_def)
  then have "mask 2 AND dest = 0" using mask_and_eq_0 [of 2 dest] by simp
  then show "dest AND 3 = 0" by (simp add: mask_eq_exp_minus_1 and.commute)
  show "sint sz = int (unat sz)" using assms by (intro sint_small) (simp add: copy_ok_def)
qed

lemma mask_at_offset:
  assumes "copy_ok dest sz bs b" and "unat dest + unat sz < 2 ^ 64" and "k < unat sz"
  shows "(dest + of_nat k) AND scast (bs - 1) = 0 \<longleftrightarrow> 2 ^ b dvd k"
proof -
  have k: "unat (of_nat k :: u64) = k" using assms(2,3) by (intro unat_of_nat64) linarith
  have "unat (dest + of_nat k) = unat dest + k"
    using assms(2,3) k by (subst unat_add_small) simp_all
  moreover have "2 ^ b dvd unat dest" using assms(1) by (simp add: copy_ok_def)
  ultimately show ?thesis
    by (simp add: copy_ok_bundle(2) [OF assms(1)] and.commute [of _ "mask b"] mask_and_eq_0 dvd_add_right_iff)
qed

lemma tails_loop_result:
  assumes "copy_ok dest sz bs b" and "unat dest + unat sz < 2 ^ 64" and "length src = unat sz" and "4 dvd k"
  shows "\<exists>ks. tails_loop dest src sz bs k = Inr (stores dest (load32 src) ks) \<and>
    set ks = {k'. k \<le> k' \<and> k' < unat sz \<and> 4 dvd k' \<and> \<not> 2 ^ b dvd k'}"
  using assms(4)
proof (induction "unat sz - k" arbitrary: k rule: less_induct)
  case less
  note ok = assms(1-3)
  have sz: "int k < sint sz \<longleftrightarrow> k < unat sz" for k by (simp only: copy_ok_bundle(5) [OF ok(1)] of_nat_less_iff)
  have sz4: "4 dvd unat sz"
    using assms(1) copy_ok_bundle(3) [OF ok(1)] dvd_trans by (auto simp: copy_ok_def)
  show ?case
  proof (cases "k < unat sz")
    case True
    then have room: "k + 4 \<le> length src"
      using less.prems \<open>4 dvd unat sz\<close> ok(3) by (auto elim!: dvdE)
    have "unat sz - (k + 4) < unat sz - k" using True by linarith
    moreover have "4 dvd k + 4" using less.prems by simp
    ultimately obtain ks where ks: "tails_loop dest src sz bs (k + 4) = Inr (stores dest (load32 src) ks)"
      "set ks = {k'. k + 4 \<le> k' \<and> k' < unat sz \<and> 4 dvd k' \<and> \<not> 2 ^ b dvd k'}"
      using less.hyps by blast
    have word_step: "k \<le> k' \<and> 4 dvd k' \<longleftrightarrow> k' = k \<or> k + 4 \<le> k' \<and> 4 dvd k'" for k'
      using less.prems by (auto elim!: dvdE)
    note mask = mask_at_offset [OF ok(1,2) True]
    define ks' where "ks' = (if 2 ^ b dvd k then ks else k # ks)"
    have "set ks' = {k'. k \<le> k' \<and> k' < unat sz \<and> 4 dvd k' \<and> \<not> 2 ^ b dvd k'}"
      using word_step True ks(2) unfolding ks'_def by auto
    moreover have "tails_loop dest src sz bs k = Inr (stores dest (load32 src) ks')"
      using True mask room ks(1) by (subst tails_loop.simps) (simp add: sz Let_def stores_def ks'_def)
    ultimately show ?thesis by blast
  next
    case False
    then have "tails_loop dest src sz bs k = Inr (stores dest (load32 src) [])"
      by (subst tails_loop.simps) (simp add: sz stores_def)
    moreover have "set [] = {k'. k \<le> k' \<and> k' < unat sz \<and> 4 dvd k' \<and> \<not> 2 ^ b dvd k'}" using False by auto
    ultimately show ?thesis by blast
  qed
qed

lemma CopyCodeSafely_result:
  assumes "copy_ok dest sz bs b" and "unat dest + unat sz < 2 ^ 64" and "length src = unat sz"
  obtains ts hs where
    "CopyCodeSafelyInitial dest src sz bs =
       Inr (stores dest (load32 src) ts @ Barrier # stores dest (load32 src) hs)"
    and "set ts = {k. k < unat sz \<and> 4 dvd k \<and> \<not> 2 ^ b dvd k}"
    and "set hs = {k. k < unat sz \<and> 2 ^ b dvd k}"
proof -
  note bnd = copy_ok_bundle [OF assms(1)]
  obtain ts where ts: "tails_loop dest src sz bs 0 = Inr (stores dest (load32 src) ts)"
    "set ts = {k. k < unat sz \<and> 4 dvd k \<and> \<not> 2 ^ b dvd k}"
    using tails_loop_result [OF assms, of 0] by auto
  let ?what = "\<lambda>k. if k + 4 \<le> length src then Inr (load32 src k) else Inl OutOfBounds"
  have "?what k = Inr (load32 src k)" if "k < unat sz" "2 ^ b dvd k" for k
  proof -
    have "2 ^ b dvd unat sz - k" using that assms(1) by (simp add: copy_ok_def)
    then have "2 ^ b \<le> unat sz - k" using that(1) by (intro dvd_imp_le) simp_all
    moreover have "4 \<le> (2 :: nat) ^ b" using bnd(3) by (intro dvd_imp_le) simp_all
    ultimately show ?thesis using assms(3) that(1) by simp
  qed
  then obtain hs where hs: "heads_loop dest ?what (unat sz) (2 ^ b) 0 = Inr (stores dest (load32 src) hs)"
    "set hs = {k. k < unat sz \<and> 2 ^ b dvd k}"
    using heads_loop_result [of "2 ^ b" 0 "unat sz" ?what "load32 src" dest] by auto
  show ?thesis
    by (rule that [OF _ ts(2) hs(2)])
      (simp add: CopyCodeSafelyInitial_def CopyBundleTails_def CopyBundleHeads_def bnd ts(1) hs(1))
qed

lemma epochs_nonempty: "epochs ws \<noteq> []"
  by (induction ws rule: epochs.induct) simp_all

lemma epochs_stores: "epochs (stores dest w ks @ ws) =
    (map (\<lambda>k. (dest + of_nat k, w k)) ks @ hd (epochs ws)) # tl (epochs ws)"
  by (induction ks) (simp_all add: stores_def epochs_nonempty)

lemma epochs_two:
  "epochs (stores dest w ts @ Barrier # stores dest w hs) =
    [map (\<lambda>k. (dest + of_nat k, w k)) ts, map (\<lambda>k. (dest + of_nat k, w k)) hs]"
  using epochs_stores [of dest w hs "[]"] by (simp add: epochs_stores)

text \<open>Memory between and after the stores of a copy: the words at the offsets in \<open>D\<close> are done.\<close>

definition copied :: "u64 \<Rightarrow> u8 list \<Rightarrow> nat set \<Rightarrow> (u64 \<Rightarrow> u8) \<Rightarrow> u64 \<Rightarrow> u8" where
  "copied dest src D mem a =
     (if word_at (unat (a - dest)) \<in> D then src ! unat (a - dest) else mem a)"

lemma fold_copied:
  assumes "\<forall>k \<in> set ks. k + 4 \<le> 2 ^ 64 \<and> 4 dvd k"
  shows "fold store_word (map (\<lambda>k. (dest + of_nat k, load32 src k)) ks) mem = copied dest src (set ks) mem"
proof
  fix a
  have "bytes32 (load32 src (word_at i)) ! (i mod 4) = src ! i" for i
    using bytes32_load32 [of "i mod 4" src "word_at i"] by simp
  then show "fold store_word (map (\<lambda>k. (dest + of_nat k, load32 src k)) ks) mem a = copied dest src (set ks) mem a"
    by (simp add: fold_stores [OF assms] copied_def Let_def)
qed

lemma copied_copied: "copied dest src D (copied dest src E mem) = copied dest src (D \<union> E) mem"
  by (simp add: copied_def fun_eq_iff)

subsection \<open>Properties\<close>

text \<open>Bundle \<open>j\<close> at \<open>dest\<close> cannot be entered when its first word is halts.\<close>

definition halted :: "u64 \<Rightarrow> nat \<Rightarrow> (u64 \<Rightarrow> u8) \<Rightarrow> nat \<Rightarrow> bool" where
  "halted dest bsz mem j \<longleftrightarrow> (\<forall>i < 4. mem (dest + of_nat (j * bsz + i)) = NACL_HALT_OPCODE)"

definition holds_bundle :: "u64 \<Rightarrow> nat \<Rightarrow> u8 list \<Rightarrow> (u64 \<Rightarrow> u8) \<Rightarrow> nat \<Rightarrow> bool" where
  "holds_bundle dest bsz src mem j \<longleftrightarrow> (\<forall>i < bsz. mem (dest + of_nat (j * bsz + i)) = src ! (j * bsz + i))"

lemma copied_at:
  "k < 2 ^ 64 \<Longrightarrow> copied dest src D mem (dest + of_nat k) = (if word_at k \<in> D then src ! k else mem (dest + of_nat k))"
  by (simp add: copied_def unat_of_nat64)

lemma bundle_words:
  assumes "4 dvd (B :: nat)" and "i < B"
  shows "i < 4 \<Longrightarrow> word_at (j * B + i) = j * B" and "B dvd word_at (j * B + i) \<longleftrightarrow> i < 4"
proof -
  obtain c where c: "B = 4 * c" using assms(1) by (auto elim: dvdE)
  have w: "word_at (j * B + i) = j * B + word_at i"
  proof -
    have "(4 * (j * c) + i) div 4 = j * c + i div 4" by simp
    moreover have "j * B + i = 4 * (j * c) + i" by (simp add: c)
    ultimately show ?thesis by (simp add: c algebra_simps)
  qed
  then show "i < 4 \<Longrightarrow> word_at (j * B + i) = j * B" by simp
  have "B dvd j * B + word_at i \<longleftrightarrow> B dvd word_at i" by (simp add: dvd_add_right_iff)
  also have "\<dots> \<longleftrightarrow> word_at i = 0"
    using assms(2) by (auto dest: dvd_imp_le)
  also have "\<dots> \<longleftrightarrow> i < 4" by (simp add: div_eq_0_iff)
  finally show "B dvd word_at (j * B + i) \<longleftrightarrow> i < 4" using w by simp
qed

lemma copy_seen:
  assumes "copy_ok dest sz bs b" and "unat dest + unat sz < 2 ^ 64" and "length src = unat sz"
    and "CopyCodeSafelyInitial dest src sz bs = Inr ws"
  shows "seen mem ws m \<Longrightarrow>
      \<exists>D. m = copied dest src D mem \<and>
        ((\<forall>k \<in> D. k < unat sz \<and> \<not> 2 ^ b dvd k) \<or>
         (\<forall>k < unat sz. 4 dvd k \<and> \<not> 2 ^ b dvd k \<longrightarrow> k \<in> D))"
    and "after_writes ws mem = write_bytes mem dest src"
proof -
  obtain ts hs where run: "CopyCodeSafelyInitial dest src sz bs =
       Inr (stores dest (load32 src) ts @ Barrier # stores dest (load32 src) hs)"
    and ts: "set ts = {k. k < unat sz \<and> 4 dvd k \<and> \<not> 2 ^ b dvd k}"
    and hs: "set hs = {k. k < unat sz \<and> 2 ^ b dvd k}"
    by (rule CopyCodeSafely_result [OF assms(1-3)])
  then have ws: "ws = stores dest (load32 src) ts @ Barrier # stores dest (load32 src) hs"
    using assms(4) by simp
  let ?f = "\<lambda>k. (dest + of_nat k, load32 src k)"
  note ep = epochs_two [of dest "load32 src" ts hs, folded ws]
  have four: "4 dvd (2 :: nat) ^ b" by (rule copy_ok_bundle(3) [OF assms(1)])
  have room: "\<forall>k \<in> set ts \<union> set hs. k + 4 \<le> 2 ^ 64 \<and> 4 dvd k"
  proof
    fix k assume "k \<in> set ts \<union> set hs"
    then have "k < unat sz" "4 dvd k" using ts hs dvd_trans [OF four] by auto
    moreover have "unat sz < 2 ^ 31" using assms(1) by (simp add: copy_ok_def)
    ultimately have "k < 2 ^ 31" "4 dvd k" by linarith+
    then show "k + 4 \<le> 2 ^ 64 \<and> 4 dvd k" by simp
  qed
  have fold: "fold store_word (map ?f ks) mem' = copied dest src (set ks) mem'"
    if "set ks \<subseteq> set ts \<union> set hs" for ks mem'
    using room that by (intro fold_copied) blast
  {
    assume "seen mem ws m"
    then obtain k ys where k: "k < 2" "set ys \<subseteq> set (epochs ws ! k)"
      "m = fold store_word ys (fold store_word (concat (take k (epochs ws))) mem)"
    proof -
      have "length (epochs ws) = 2" by (simp add: ep)
      with \<open>seen mem ws m\<close> that show ?thesis unfolding seen_def by auto
    qed
    show "\<exists>D. m = copied dest src D mem \<and>
        ((\<forall>k \<in> D. k < unat sz \<and> \<not> 2 ^ b dvd k) \<or>
         (\<forall>k < unat sz. 4 dvd k \<and> \<not> 2 ^ b dvd k \<longrightarrow> k \<in> D))"
    proof (cases "k = 0")
      case True
      with k(2) have "set ys \<subseteq> ?f ` set ts" by (simp add: ep)
      then obtain ks where ks: "ys = map ?f ks" "set ks \<subseteq> set ts" using subset_map by blast
      then have "m = copied dest src (set ks) mem" using k(3) True fold [of ks mem] by auto
      with ks(2) ts show ?thesis by (intro exI [of _ "set ks"]) auto
    next
      case False
      with k(1) have k1: "k = 1" by simp
      with k(2) have "set ys \<subseteq> ?f ` set hs" by (simp add: ep)
      then obtain ks where ks: "ys = map ?f ks" "set ks \<subseteq> set hs" using subset_map by blast
      have "m = copied dest src (set ks) (copied dest src (set ts) mem)"
        using k(3) k1 ks fold [of ks] fold [of ts mem] by (auto simp: ep)
      then have "m = copied dest src (set ks \<union> set ts) mem" by (simp only: copied_copied)
      with ts show ?thesis by (intro exI [of _ "set ks \<union> set ts"]) auto
    qed
  }
  have "after_writes ws mem = copied dest src (set hs) (copied dest src (set ts) mem)"
    using fold [of hs] fold [of ts mem] by (simp add: after_writes_def ep)
  also have "\<dots> = copied dest src (set hs \<union> set ts) mem" by (rule copied_copied)
  also have "\<dots> = write_bytes mem dest src"
  proof
    fix a
    let ?i = "unat (a - dest)"
    have "4 dvd unat sz" using four assms(1) dvd_trans by (auto simp: copy_ok_def)
    then have "?i < unat sz \<longleftrightarrow> word_at ?i < unat sz" by (auto elim!: dvdE)
    then have "word_at ?i \<in> set hs \<union> set ts \<longleftrightarrow> ?i < unat sz" using ts hs four by auto
    then show "copied dest src (set hs \<union> set ts) mem a = write_bytes mem dest src a"
      by (simp add: copied_def write_bytes_def assms(3))
  qed
  finally show "after_writes ws mem = write_bytes mem dest src" .
qed

text \<open> C7. Installing new code is safe while other threads run: from a destination whose bundles
  all start with a halt word, at every moment of the copy and for every order in which another
  thread sees the stores, each bundle is either still halted or holds the whole new bundle; and
  in the end the destination holds exactly the source and nothing else has changed.\<close>

theorem copy_code_safe:
  assumes "copy_ok dest sz bs b" and "unat dest + unat sz < 2 ^ 64" and "length src = unat sz"
    and "\<forall>j < unat sz div 2 ^ b. halted dest (2 ^ b) mem j"
  shows "\<exists>ws. CopyCodeSafelyInitial dest src sz bs = Inr ws \<and>
    (\<forall>m. seen mem ws m \<longrightarrow>
       (\<forall>j < unat sz div 2 ^ b. halted dest (2 ^ b) m j \<or> holds_bundle dest (2 ^ b) src m j)) \<and>
    after_writes ws mem = write_bytes mem dest src"
proof -
  obtain ws where ws: "CopyCodeSafelyInitial dest src sz bs = Inr ws"
    by (rule CopyCodeSafely_result [OF assms(1-3)])
  let ?B = "2 ^ b :: nat"
  have four: "4 dvd ?B" by (rule copy_ok_bundle(3) [OF assms(1)])
  then have B4: "4 \<le> ?B" by (intro dvd_imp_le) simp_all
  have whole: "?B dvd unat sz" and small: "unat sz < 2 ^ 31" using assms(1) by (simp_all add: copy_ok_def)
  have core: "halted dest ?B m j \<or> holds_bundle dest ?B src m j"
    if seen: "seen mem ws m" and j: "j < unat sz div ?B" for m j
  proof -
    obtain D where m: "m = copied dest src D mem"
      and D: "(\<forall>k \<in> D. k < unat sz \<and> \<not> ?B dvd k) \<or> (\<forall>k < unat sz. 4 dvd k \<and> \<not> ?B dvd k \<longrightarrow> k \<in> D)"
      using copy_seen(1) [OF assms(1-3) ws seen] by blast
    have "(j + 1) * ?B \<le> unat sz div ?B * ?B" using j by (intro mult_le_mono1) simp
    also have "\<dots> = unat sz" using whole by simp
    finally have last: "j * ?B + ?B \<le> unat sz" by simp
    have at: "m (dest + of_nat (j * ?B + i)) =
        (if word_at (j * ?B + i) \<in> D then src ! (j * ?B + i) else mem (dest + of_nat (j * ?B + i)))"
      if "i < ?B" for i
    proof -
      have "j * ?B + i < 2 ^ 31" using that last small by linarith
      then have "j * ?B + i < 2 ^ 64" by (rule less_trans) simp
      then show ?thesis unfolding m by (rule copied_at)
    qed
    have head: "word_at (j * ?B + i) = j * ?B" if "i < 4" for i
      using bundle_words(1) [OF four, of i j] that B4 by simp
    show ?thesis
    proof (cases "j * ?B \<in> D")
      case False
      have "m (dest + of_nat (j * ?B + i)) = NACL_HALT_OPCODE" if "i < 4" for i
        using at [of i] head [of i] that B4 False assms(4) j by (simp add: halted_def)
      then show ?thesis by (simp add: halted_def)
    next
      case True
      have "?B dvd j * ?B" by simp
      with True D have D': "\<forall>k < unat sz. 4 dvd k \<and> \<not> ?B dvd k \<longrightarrow> k \<in> D" by blast
      have "word_at (j * ?B + i) \<in> D" if i: "i < ?B" for i
      proof (cases "i < 4")
        case False
        then have "\<not> ?B dvd word_at (j * ?B + i)" using bundle_words(2) [OF four i] by simp
        moreover have "word_at (j * ?B + i) < unat sz"
          using i last div_times_less_eq_dividend [of "j * ?B + i" 4] by linarith
        ultimately show ?thesis using D' by simp
      qed (use True head in simp)
      then show ?thesis using at by (simp add: holds_bundle_def)
    qed
  qed
  have safe: "\<forall>m. seen mem ws m \<longrightarrow>
      (\<forall>j < unat sz div ?B. halted dest ?B m j \<or> holds_bundle dest ?B src m j)"
    by (intro allI impI) (rule core)
  show ?thesis
    by (rule exI [of _ ws], rule conjI [OF ws conjI [OF safe copy_seen(2) [OF assms(1-3) ws]]])
qed

text \<open>What the halts do to memory, whatever it holds.\<close>

lemma ReplaceHeads_result:
  assumes "copy_ok dest sz bs b" and "unat dest + unat sz < 2 ^ 64"
  obtains ws where "ReplaceBundleHeadsWithHalts dest sz bs = Inr ws"
    and "\<forall>mem j. j < unat sz div 2 ^ b \<longrightarrow> halted dest (2 ^ b) (after_writes ws mem) j"
    and "\<forall>mem a. unat (a - dest) < unat sz \<and> unat (a - dest) mod 2 ^ b < 4 \<or> after_writes ws mem a = mem a"
proof -
  let ?B = "2 ^ b :: nat"
  have four: "4 dvd ?B" by (rule copy_ok_bundle(3) [OF assms(1)])
  then have B4: "4 \<le> ?B" by (intro dvd_imp_le) simp_all
  have step: "4 * (unat bs div 4) = ?B" using four copy_ok_bundle(1) [OF assms(1)] by simp
  obtain hs where hs: "heads_loop dest (\<lambda>_. Inr NACL_HALT_WORD) (unat sz) ?B 0 = Inr (stores dest (\<lambda>_. NACL_HALT_WORD) hs)"
    "set hs = {k. k < unat sz \<and> ?B dvd k}"
    using heads_loop_result [of ?B 0 "unat sz" "\<lambda>_. Inr NACL_HALT_WORD" "\<lambda>_. NACL_HALT_WORD" dest] by auto
  let ?ws = "stores dest (\<lambda>_. NACL_HALT_WORD) hs @ [Barrier]"
  have whole: "?B dvd unat sz" and small: "unat sz < 2 ^ 31" using assms(1) by (simp_all add: copy_ok_def)
  have "k + 4 \<le> 2 ^ 64 \<and> 4 dvd k" if "k \<in> set hs" for k
  proof -
    have "k < unat sz" "4 dvd k" using that hs(2) dvd_trans [OF four] by auto
    with small have "k < 2 ^ 31" "4 dvd k" by linarith+
    then show ?thesis by simp
  qed
  then have room: "\<forall>k \<in> set hs. k + 4 \<le> 2 ^ 64 \<and> 4 dvd k" by blast
  have "concat (epochs ?ws) = map (\<lambda>k. (dest + of_nat k, NACL_HALT_WORD)) hs"
    by (simp add: epochs_stores)
  then have eff: "after_writes ?ws mem a =
      (if word_at (unat (a - dest)) \<in> set hs then NACL_HALT_OPCODE else mem a)" for a mem
    using fold_stores [OF room, of dest "\<lambda>_. NACL_HALT_WORD" mem a]
    by (simp add: after_writes_def Let_def bytes32_halt)
  have "halted dest ?B (after_writes ?ws mem) j" if j: "j < unat sz div ?B" for j mem
    unfolding halted_def
  proof (intro allI impI)
    fix i :: nat assume i: "i < 4"
    have "(j + 1) * ?B \<le> unat sz div ?B * ?B" using j by (intro mult_le_mono1) simp
    also have "\<dots> = unat sz" using whole by simp
    finally have last: "j * ?B + ?B \<le> unat sz" by simp
    have "j * ?B + i < 2 ^ 31" using i B4 last small by linarith
    then have "j * ?B + i < 2 ^ 64" by (rule less_trans) simp
    then have "unat (dest + of_nat (j * ?B + i) - dest) = j * ?B + i"
      by (simp only: add_diff_cancel_left' unat_of_nat64)
    moreover have "word_at (j * ?B + i) = j * ?B" using bundle_words(1) [OF four, of i j] i B4 by simp
    moreover have "j * ?B \<in> set hs" using hs(2) last B4 by simp
    ultimately show "after_writes ?ws mem (dest + of_nat (j * ?B + i)) = NACL_HALT_OPCODE"
      unfolding eff by (simp only: if_True)
  qed
  then have heads: "\<forall>mem j. j < unat sz div ?B \<longrightarrow> halted dest ?B (after_writes ?ws mem) j" by (intro allI impI)
  have "unat (a - dest) < unat sz \<and> unat (a - dest) mod ?B < 4 \<or> after_writes ?ws mem a = mem a" for a mem
  proof (cases "word_at (unat (a - dest)) \<in> set hs")
    case True
    let ?i = "unat (a - dest)"
    have w: "word_at ?i < unat sz" "?B dvd word_at ?i" using True hs(2) by simp_all
    have "4 dvd unat sz" using four whole by (rule dvd_trans)
    with w(1) have "?i < unat sz" by (auto elim!: dvdE)
    moreover have "?i mod ?B < 4"
    proof -
      have "?i mod ?B = (word_at ?i + ?i mod 4) mod ?B" by simp
      also have "\<dots> = ?i mod 4 mod ?B" using w(2) by (metis mod_add_left_eq mod_0_imp_dvd dvd_imp_mod_0 add_0)
      also have "\<dots> < 4" using mod_less_eq_dividend [of "?i mod 4" ?B] by (rule le_less_trans) simp
      finally show ?thesis .
    qed
    ultimately show ?thesis by simp
  next
    case False
    then show ?thesis unfolding eff by simp
  qed
  then have frame: "\<forall>mem a. unat (a - dest) < unat sz \<and> unat (a - dest) mod ?B < 4 \<or> after_writes ?ws mem a = mem a" by (intro allI)
  have run: "ReplaceBundleHeadsWithHalts dest sz bs = Inr ?ws"
    by (simp add: ReplaceBundleHeadsWithHalts_def step hs(1))
  show ?thesis by (rule that [OF run heads frame])
qed

text \<open> C33. \<open>ReplaceBundleHeadsWithHalts\<close> halts every bundle of the range, whatever was there,
  and touches nothing but the first word of each bundle.\<close>

theorem replace_heads_halts:
  assumes "copy_ok dest sz bs b" and "unat dest + unat sz < 2 ^ 64"
  shows "\<exists>ws. ReplaceBundleHeadsWithHalts dest sz bs = Inr ws \<and>
    (\<forall>j < unat sz div 2 ^ b. halted dest (2 ^ b) (after_writes ws mem) j) \<and>
    (\<forall>a. unat (a - dest) < unat sz \<and> unat (a - dest) mod 2 ^ b < 4 \<or> after_writes ws mem a = mem a)"
proof -
  obtain ws where ws: "ReplaceBundleHeadsWithHalts dest sz bs = Inr ws"
    "\<forall>mem j. j < unat sz div 2 ^ b \<longrightarrow> halted dest (2 ^ b) (after_writes ws mem) j"
    "\<forall>mem a. unat (a - dest) < unat sz \<and> unat (a - dest) mod 2 ^ b < 4 \<or> after_writes ws mem a = mem a"
    by (rule ReplaceHeads_result [OF assms])
  then show ?thesis by (intro exI [of _ ws] conjI) blast+
qed

lemma copy_code_safe_witness:
  "\<exists>ws. CopyCodeSafelyInitial 0x10000 (replicate 64 0x90) 64 32 = Inr ws \<and>
    after_writes ws (\<lambda>_. NACL_HALT_OPCODE) = write_bytes (\<lambda>_. NACL_HALT_OPCODE) 0x10000 (replicate 64 0x90)"
proof -
  have "copy_ok 0x10000 64 32 5" by (simp add: copy_ok_def)
  from copy_code_safe [OF this, of "replicate 64 0x90" "\<lambda>_. NACL_HALT_OPCODE"] show ?thesis
    by (auto simp: halted_def)
qed

lemma replace_heads_halts_witness:
  "\<exists>ws. ReplaceBundleHeadsWithHalts 0x10000 64 32 = Inr ws \<and>
    halted 0x10000 (2 ^ 5) (after_writes ws (\<lambda>_. 0x90)) 1"
proof -
  have "copy_ok 0x10000 64 32 5" by (simp add: copy_ok_def)
  from replace_heads_halts [OF this, of "\<lambda>_. 0x90"] show ?thesis by auto
qed

end
