(* ===== verification/Dyn_Text.thy ===== *)
theory Dyn_Text
  imports Dyn_Region Code_Copy
begin

text \<open>
  The dynamic code system calls of \<open>service_runtime/nacl_text.c\<close>: creating, modifying and
  deleting code at run time in the shared memory object behind the dynamic text area.

  The object's contents are the field \<open>text_mem\<close>; the trusted, writable mapping of a part of it
  is a view (\<open>through\<close>) from addresses to offsets.  Calls to the host kernel go through \<open>os\<close>,
  the validator is a parameter, \<open>alloc\<close> and \<open>malloc\<close> say which allocations succeed, and
  \<open>user_mem\<close> is the untrusted memory as the service runtime reads it.
\<close>

subsection \<open>The bitmap of visible pages\<close>

definition BitmapAllocate :: "u32 \<Rightarrow> u8 list" where
  "BitmapAllocate indexes = replicate (unat ((indexes + 8 - 1) div 8)) 0"

definition BitmapIsBitSet :: "u8 list \<Rightarrow> u32 \<Rightarrow> bool run" where
  "BitmapIsBitSet bitmap index =
     (if unat (index div 8) < length bitmap
      then Inr (bit (bitmap ! unat (index div 8)) (unat (index mod 8)))
      else Inl OutOfBounds)"

definition BitmapSetBit :: "u8 list \<Rightarrow> u32 \<Rightarrow> u8 list run" where
  "BitmapSetBit bitmap index =
     (if unat (index div 8) < length bitmap
      then Inr (bitmap[unat (index div 8) :=
                  bitmap ! unat (index div 8) OR push_bit (unat (index mod 8)) 1])
      else Inl OutOfBounds)"

subsection \<open>The writable mapping\<close>

text \<open>\<open>NaClPtrIsNegErrno\<close> of \<open>shared/platform/nacl_host_desc.h\<close>.\<close>

definition NaClPtrIsNegErrno :: "u64 \<Rightarrow> bool" where
  "NaClPtrIsNegErrno val \<longleftrightarrow> val AND NOT 0xffff = NOT 0xffff"

definition through :: "u64 \<Rightarrow> u32 \<Rightarrow> ((u64 \<Rightarrow> u8) \<Rightarrow> u64 \<Rightarrow> u8) \<Rightarrow> (u64 \<Rightarrow> u8) \<Rightarrow> u64 \<Rightarrow> u8" where
  "through mapping off f mem =
     (\<lambda>shm_offset. f (\<lambda>a. mem (ucast off + (a - mapping))) (mapping + (shm_offset - ucast off)))"

definition NaClFillMemoryRegionWithHalt :: "u64 \<Rightarrow> u64 \<Rightarrow> (u64 \<Rightarrow> u8) \<Rightarrow> u64 \<Rightarrow> u8" where
  "NaClFillMemoryRegionWithHalt start sz mem a = (if a - start < sz then NACL_HALT_OPCODE else mem a)"

lemma unat_plus_one: "i < e \<Longrightarrow> unat (i + 1) = unat i + 1" for i e :: u32
proof -
  assume "i < e"
  moreover have "unat e < 2 ^ 32" by (rule less_le_trans [OF unsigned_less]) simp
  ultimately have "unat i + 1 < 2 ^ 32" by (simp add: word_less_nat_alt)
  then show ?thesis by (subst unat_add_small) simp_all
qed

text \<open>The loop that marks the pages, from \<open>index\<close> up to \<open>page_index_max\<close>.\<close>

function mark_pages :: "u8 list \<Rightarrow> u32 \<Rightarrow> u32 \<Rightarrow> u8 list run" where
  "mark_pages bitmap index page_index_max =
     (if index < page_index_max then
        andThen (BitmapIsBitSet bitmap index) (\<lambda>b.
        andThen (check (\<not> b)) (\<lambda>_.
        andThen (BitmapSetBit bitmap index) (\<lambda>bitmap.
        mark_pages bitmap (index + 1) page_index_max)))
      else Inr bitmap)"
  by pat_completeness auto
termination
proof (relation "measure (\<lambda>(bitmap, index, page_index_max). unat page_index_max - unat index)", goal_cases)
  case (2 bitmap index page_index_max x xa xb)
  then have "unat (index + 1) = unat index + 1"
    by (intro unat_plus_one)
  with 2 show ?case by (simp add: word_less_nat_alt)
qed simp

declare mark_pages.simps [simp del]

definition MakeDynamicCodePagesVisible ::
  "os \<Rightarrow> 'a NaClTextApp_scheme \<Rightarrow> u32 \<Rightarrow> u32 \<Rightarrow> u64 \<Rightarrow> u64 \<Rightarrow> u32 \<Rightarrow> 'a NaClTextApp_scheme run" where
  "MakeDynamicCodePagesVisible os nap page_index_min page_index_max writable_addr mapping off =
     (let sz = ucast ((page_index_max - page_index_min) * NACL_MAP_PAGESIZE) :: u64 in
      andThen (mark_pages (dynamic_page_bitmap nap) page_index_min page_index_max) (\<lambda>bitmap.
      let nap = nap\<lparr> dynamic_page_bitmap := bitmap \<rparr> in
      andThen (NaClUserToSys nap (dynamic_text_start nap + ucast (page_index_min * NACL_MAP_PAGESIZE))) (\<lambda>user_addr.
      andThen (check (text_mem nap (ucast off + (writable_addr - mapping)) = 0)) (\<lambda>_.
      let nap = nap\<lparr> text_mem := through mapping off (NaClFillMemoryRegionWithHalt writable_addr sz) (text_mem nap) \<rparr>;
          (rv, nap) = host os nap (HostMprotect user_addr sz (PROT_READ OR PROT_EXEC)) in
      if rv \<noteq> 0 then Inl LogFatal else Inr nap))))"

text \<open>The end of the block of unallocated pages that starts at \<open>index\<close>.\<close>

function unallocated_end :: "u8 list \<Rightarrow> u32 \<Rightarrow> u32 \<Rightarrow> u32 run" where
  "unallocated_end bitmap index end_page_index =
     (if index < end_page_index then
        andThen (BitmapIsBitSet bitmap index) (\<lambda>b.
        if \<not> b then unallocated_end bitmap (index + 1) end_page_index else Inr index)
      else Inr index)"
  by pat_completeness auto
termination
proof (relation "measure (\<lambda>(bitmap, index, end_page_index). unat end_page_index - unat index)", goal_cases)
  case (2 bitmap index end_page_index x)
  then have "unat (index + 1) = unat index + 1"
    by (intro unat_plus_one)
  with 2 show ?case by (simp add: word_less_nat_alt)
qed simp

declare unallocated_end.simps [simp del]

lemma unallocated_end_ge: "unallocated_end bitmap i e = Inr j \<Longrightarrow> i \<le> j"
proof (induction bitmap i e rule: unallocated_end.induct)
  case (1 bitmap i e)
  show ?case
  proof (cases "i < e \<and> BitmapIsBitSet bitmap i = Inr False")
    case True
    then have "unallocated_end bitmap (i + 1) e = Inr j"
      using "1.prems" by (subst (asm) unallocated_end.simps) simp
    then have "i + 1 \<le> j" using "1.IH" True by blast
    with True show ?thesis using unat_plus_one [of i e] by (simp add: word_le_nat_alt)
  next
    case False
    with "1.prems" show ?thesis
      by (subst (asm) unallocated_end.simps) (auto simp: run_simps split: if_splits)
  qed
qed

text \<open>
  The loop over the pages of a new mapping.  The page numbers are natural numbers here: they
  are at most \<open>(2 ^ 32 - 1) div 65536\<close>, so the 32-bit counter of the code does not wrap.
\<close>

function visible_loop :: "os \<Rightarrow> 'a NaClTextApp_scheme \<Rightarrow> nat \<Rightarrow> nat \<Rightarrow> u64 \<Rightarrow> u32 \<Rightarrow> 'a NaClTextApp_scheme run" where
  "visible_loop os nap current end_page_index mapping off =
     (if current < end_page_index then
        case unallocated_end (dynamic_page_bitmap nap) (of_nat current) (of_nat end_page_index) of
          Inl e \<Rightarrow> Inl e
        | Inr stop \<Rightarrow>
            andThen
              (if of_nat current < stop then
                 MakeDynamicCodePagesVisible os nap (of_nat current) stop
                   (mapping + ucast (of_nat current * NACL_MAP_PAGESIZE - off :: u32)) mapping off
               else Inr nap) (\<lambda>nap.
            visible_loop os nap (max current (unat stop) + 1) end_page_index mapping off)
      else Inr nap)"
  by pat_completeness auto
termination
  by (relation "measure (\<lambda>(os, nap, current, end_page_index, mapping, off). end_page_index - current)") auto

declare visible_loop.simps [simp del]

definition clear_mapcache :: "os \<Rightarrow> 'a NaClTextApp_scheme \<Rightarrow> 'a NaClTextApp_scheme run" where
  "clear_mapcache os nap =
     (if dynamic_mapcache_size nap > 0 then
        andThen (NaClDescUnmapUnsafe os nap (dynamic_mapcache_ret nap) (ucast (dynamic_mapcache_size nap))) (\<lambda>nap.
        Inr (nap\<lparr> dynamic_mapcache_offset := 0, dynamic_mapcache_size := 0, dynamic_mapcache_ret := 0 \<rparr>))
      else Inr nap)"

definition CachedMapWritableText ::
  "os \<Rightarrow> 'a NaClTextApp_scheme \<Rightarrow> u32 \<Rightarrow> u32 \<Rightarrow> ('a NaClTextApp_scheme \<times> u64) run" where
  "CachedMapWritableText os nap off sz =
     (if off \<noteq> dynamic_mapcache_offset nap \<or> sz \<noteq> dynamic_mapcache_size nap then
        andThen (clear_mapcache os nap) (\<lambda>nap.
        if sz > 0 then
          case text_shm nap of
            None \<Rightarrow> Inl NullDeref
          | Some shm \<Rightarrow>
              let (mapping, nap) = host os nap
                     (HostMapTrusted shm (ucast sz) (PROT_READ OR PROT_WRITE) MAP_SHARED (ucast off)) in
              if NaClPtrIsNegErrno mapping then Inr (nap, 0)
              else
                andThen (visible_loop os nap (unat (off div NACL_MAP_PAGESIZE))
                           (unat ((off + sz) div NACL_MAP_PAGESIZE)) mapping off) (\<lambda>nap.
                Inr (nap\<lparr> dynamic_mapcache_offset := off, dynamic_mapcache_size := sz,
                           dynamic_mapcache_ret := mapping \<rparr>, mapping))
        else Inr (nap, dynamic_mapcache_ret nap))
      else Inr (nap, dynamic_mapcache_ret nap))"

text \<open>The offset and the size of the pages of the object that hold the range.\<close>

definition shm_map_range :: "'a NaClTextApp_scheme \<Rightarrow> u32 \<Rightarrow> u32 \<Rightarrow> u32 \<times> u32 \<times> u32" where
  "shm_map_range nap dest sz =
     (let shm_offset = dest - ucast (dynamic_text_start nap);
          shm_map_offset = shm_offset AND NOT (NACL_MAP_PAGESIZE - 1);
          within_page_offset = shm_offset AND (NACL_MAP_PAGESIZE - 1);
          shm_map_offset_end = (shm_offset + sz + NACL_MAP_PAGESIZE - 1) AND NOT (NACL_MAP_PAGESIZE - 1) in
      (shm_map_offset, shm_map_offset_end - shm_map_offset, within_page_offset))"

definition NaClTextMapWrapper ::
  "os \<Rightarrow> 'a NaClTextApp_scheme \<Rightarrow> u32 \<Rightarrow> u32 \<Rightarrow> ('a NaClTextApp_scheme \<times> u64 option) run" where
  "NaClTextMapWrapper os nap dest sz =
     (case shm_map_range nap dest sz of (shm_map_offset, shm_map_size, within_page_offset) \<Rightarrow>
        andThen (CachedMapWritableText os nap shm_map_offset shm_map_size) (\<lambda>(nap, mmap_ret).
        Inr (nap, if mmap_ret = 0 then None else Some (mmap_ret + ucast within_page_offset))))"

definition NaClTextMapClearCacheIfNeeded ::
  "os \<Rightarrow> 'a NaClTextApp_scheme \<Rightarrow> u32 \<Rightarrow> u32 \<Rightarrow> 'a NaClTextApp_scheme run" where
  "NaClTextMapClearCacheIfNeeded os nap dest sz =
     (case shm_map_range nap dest sz of (shm_map_offset, shm_map_size, within_page_offset) \<Rightarrow>
        if shm_map_size > NACL_MAP_PAGESIZE
        then andThen (CachedMapWritableText os nap 0 0) (\<lambda>(nap, mmap_ret). Inr nap)
        else Inr nap)"

text \<open>Store through the cached mapping; what the mapping shows at an address.\<close>

definition store_text :: "'a NaClTextApp_scheme \<Rightarrow> ((u64 \<Rightarrow> u8) \<Rightarrow> u64 \<Rightarrow> u8) \<Rightarrow> 'a NaClTextApp_scheme" where
  "store_text nap f = nap\<lparr> text_mem :=
     through (dynamic_mapcache_ret nap) (dynamic_mapcache_offset nap) f (text_mem nap) \<rparr>"

definition load_text :: "'a NaClTextApp_scheme \<Rightarrow> u64 \<Rightarrow> nat \<Rightarrow> u8 list" where
  "load_text nap a n =
     read_bytes (\<lambda>a. text_mem nap (ucast (dynamic_mapcache_offset nap) + (a - dynamic_mapcache_ret nap))) a n"

text \<open>What untrusted code sees at an address of the dynamic text area.\<close>

definition load_user_text :: "'a NaClTextApp_scheme \<Rightarrow> u64 \<Rightarrow> nat \<Rightarrow> u8 list" where
  "load_user_text nap a n =
     read_bytes (\<lambda>a. text_mem nap (a - (mem_start nap + dynamic_text_start nap))) a n"

subsection \<open>The system calls\<close>

abbreviation (input) NACL_HALT_SLED_SIZE :: u64 where "NACL_HALT_SLED_SIZE \<equiv> 32"
abbreviation (input) NACL_INSTR_BLOCK_SIZE :: u64 where "NACL_INSTR_BLOCK_SIZE \<equiv> 32"

definition NaClTextDyncodeCreate ::
  "os \<Rightarrow> (nat \<Rightarrow> bool) \<Rightarrow> 'md NaClValidatorInterface \<Rightarrow> 'a NaClTextApp_scheme \<Rightarrow> u32 \<Rightarrow> u8 list \<Rightarrow> u32 \<Rightarrow>
   'md option \<Rightarrow> ('a NaClTextApp_scheme \<times> u32) run" where
  "NaClTextDyncodeCreate os alloc validator nap dest code_copy sz metadata =
     (let dest_addr = NaClUserToSysAddrRange nap (ucast dest) (ucast sz) in
      if text_shm nap = None then Inr (nap, neg_errno EINVAL)
      else if dest AND (bundle_size nap - 1) \<noteq> 0 \<or> sz AND (bundle_size nap - 1) \<noteq> 0
        then Inr (nap, neg_errno EINVAL)
      else if dest_addr = kNaClBadAddress then Inr (nap, neg_errno EFAULT)
      else if ucast dest < dynamic_text_start nap then Inr (nap, neg_errno EFAULT)
      else if ucast (dest + sz) > dynamic_text_end nap - NACL_HALT_SLED_SIZE then Inr (nap, neg_errno EFAULT)
      else if sz = 0 then Inr (nap, 0)
      else
        andThen (if \<not> skip_validator nap
                 then NaClValidateCode validator nap (ucast dest) code_copy metadata
                 else Inr (LOAD_OK, code_copy)) (\<lambda>(validator_result, code_copy).
        let validator_result =
              (if validator_result \<noteq> LOAD_OK \<and> ignore_validator_result nap then LOAD_OK else validator_result) in
        if validator_result \<noteq> LOAD_OK then Inr (nap, neg_errno EINVAL)
        else
          andThen (NaClDynamicRegionCreate alloc nap dest_addr (ucast sz) False) (\<lambda>(nap, created).
          if \<not> created then Inr (nap, neg_errno EINVAL)
          else
            andThen (NaClTextMapWrapper os nap dest sz) (\<lambda>(nap, mapped).
            case mapped of
              None \<Rightarrow> Inr (nap, neg_errno ENOMEM)
            | Some mapped_addr \<Rightarrow>
                andThen (CopyCodeSafelyInitial mapped_addr code_copy sz (bundle_size nap)) (\<lambda>writes.
                let nap = store_text nap (after_writes writes) in
                andThen (NaClTextMapClearCacheIfNeeded os nap dest sz) (\<lambda>nap.
                Inr (nap, 0)))))))"

definition NaClSysDyncodeCreate ::
  "os \<Rightarrow> (nat \<Rightarrow> bool) \<Rightarrow> (u64 \<Rightarrow> bool) \<Rightarrow> 'md NaClValidatorInterface \<Rightarrow> (u64 \<Rightarrow> u8) \<Rightarrow>
   'a NaClTextApp_scheme \<Rightarrow> u32 \<Rightarrow> u32 \<Rightarrow> u32 \<Rightarrow> ('a NaClTextApp_scheme \<times> u32) run" where
  "NaClSysDyncodeCreate os alloc malloc validator user_mem nap dest src sz =
     (let src_addr = NaClUserToSysAddrRange nap (ucast src) (ucast sz) in
      if \<not> enable_dyncode_syscalls nap then Inr (nap, neg_errno ENOSYS)
      else if src_addr = kNaClBadAddress then Inr (nap, neg_errno EFAULT)
      else if \<not> malloc (ucast sz) then Inr (nap, neg_errno ENOMEM)
      else NaClTextDyncodeCreate os alloc validator nap dest (read_bytes user_mem src_addr (unat sz)) sz None)"

definition NaClSysDyncodeModify ::
  "os \<Rightarrow> (u64 \<Rightarrow> bool) \<Rightarrow> 'md NaClValidatorInterface \<Rightarrow> (u64 \<Rightarrow> u8) \<Rightarrow>
   'a NaClTextApp_scheme \<Rightarrow> u32 \<Rightarrow> u32 \<Rightarrow> u32 \<Rightarrow> ('a NaClTextApp_scheme \<times> u32) run" where
  "NaClSysDyncodeModify os malloc validator user_mem nap dest src sz =
     (let dest_addr = NaClUserToSysAddrRange nap (ucast dest) (ucast sz);
          src_addr = NaClUserToSysAddrRange nap (ucast src) (ucast sz);
          bundle_mask = scast (bundle_size nap - 1) :: u64;
          found = (case NaClDynamicRegionFind nap dest_addr (ucast sz) of
                     None \<Rightarrow> False
                   | Some p \<Rightarrow>
                       let region = dynamic_regions nap ! p in
                       \<not> (region_start region > dest_addr \<or>
                          region_start region + region_size region < dest_addr + ucast sz \<or>
                          is_mmap region));
          beginbundle = dest_addr AND NOT bundle_mask;
          endbundle = (dest_addr + ucast sz - 1 + scast (bundle_size nap)) AND NOT bundle_mask;
          off = dest_addr AND bundle_mask;
          old = load_user_text nap beginbundle (unat (endbundle - beginbundle));
          code_copy = take (unat off) old @ read_bytes user_mem src_addr (unat sz) @ drop (unat off + unat sz) old;
          bdest = dest AND NOT (bundle_size nap - 1);
          bsz = ucast (endbundle - beginbundle) :: u32 in
      if \<not> code_replacement validator then Inr (nap, neg_errno ENOSYS)
      else if \<not> enable_dyncode_syscalls nap then Inr (nap, neg_errno ENOSYS)
      else if text_shm nap = None then Inr (nap, neg_errno EINVAL)
      else if sz = 0 then Inr (nap, 0)
      else if src_addr = kNaClBadAddress \<or> dest_addr = kNaClBadAddress then Inr (nap, neg_errno EFAULT)
      else if \<not> found then Inr (nap, neg_errno EFAULT)
      else if endbundle - beginbundle > NACL_INSTR_BLOCK_SIZE \<and> \<not> malloc (endbundle - beginbundle)
        then Inr (nap, neg_errno ENOMEM)
      else
        andThen (check (endbundle - beginbundle < 0xffffffff)) (\<lambda>_.
        let validator_result = NaClValidateCodeReplacement validator nap (ucast bdest)
              (load_user_text nap beginbundle (unat bsz)) code_copy;
            validator_result =
              (if validator_result \<noteq> LOAD_OK \<and> ignore_validator_result nap then LOAD_OK else validator_result) in
        if validator_result \<noteq> LOAD_OK then Inr (nap, neg_errno EINVAL)
        else
          andThen (NaClTextMapWrapper os nap bdest bsz) (\<lambda>(nap, mapped).
          case mapped of
            None \<Rightarrow> Inr (nap, neg_errno ENOMEM)
          | Some mapped_addr \<Rightarrow>
              let (copy_result, bytes) =
                    NaClCopyCode validator nap (ucast bdest) (load_text nap mapped_addr (unat bsz)) code_copy;
                  nap = store_text nap (\<lambda>mem. write_bytes mem mapped_addr bytes) in
              if copy_result \<noteq> LOAD_OK then Inr (nap, neg_errno EINVAL)
              else
                andThen (NaClTextMapClearCacheIfNeeded os nap bdest bsz) (\<lambda>nap.
                Inr (nap, 0)))))"

text \<open>The first deletion request for a region: its bundle heads become halts, and it gets the
  next generation number.  The result is \<open>Inl\<close> the error of the call.\<close>

definition dyncode_delete_start ::
  "os \<Rightarrow> 'a NaClTextApp_scheme \<Rightarrow> u32 \<Rightarrow> u32 \<Rightarrow> nat \<Rightarrow> ('a NaClTextApp_scheme \<times> u32 option) run" where
  "dyncode_delete_start os nap dest sz p =
     (if dynamic_delete_generation nap = INT32_MAX then Inr (nap, Some (neg_errno EFAULT))
      else
        andThen (NaClTextMapWrapper os nap dest sz) (\<lambda>(nap, mapped).
        case mapped of
          None \<Rightarrow> Inr (nap, Some (neg_errno ENOMEM))
        | Some mapped_addr \<Rightarrow>
            andThen (ReplaceBundleHeadsWithHalts mapped_addr sz (bundle_size nap)) (\<lambda>writes.
            let nap = store_text nap (after_writes writes) in
            andThen (NaClTextMapClearCacheIfNeeded os nap dest sz) (\<lambda>nap.
            let g = dynamic_delete_generation nap + 1 in
            Inr (nap\<lparr> dynamic_delete_generation := g,
                       dynamic_regions := (dynamic_regions nap)
                         [p := (dynamic_regions nap ! p)\<lparr> delete_generation := g \<rparr>] \<rparr>, None)))))"

definition NaClSysDyncodeDelete ::
  "os \<Rightarrow> (nat \<Rightarrow> bool) \<Rightarrow> 'a NaClTextApp_scheme \<Rightarrow> nat \<Rightarrow> u32 \<Rightarrow> u32 \<Rightarrow> ('a NaClTextApp_scheme \<times> u32) run" where
  "NaClSysDyncodeDelete os alloc nap natp dest sz =
     (let dest_addr = NaClUserToSysAddrRange nap (ucast dest) (ucast sz) in
      if \<not> enable_dyncode_syscalls nap then Inr (nap, neg_errno ENOSYS)
      else if text_shm nap = None then Inr (nap, neg_errno EINVAL)
      else if sz = 0 then
        andThen (NaClSetThreadGeneration nap natp (dynamic_delete_generation nap)) (\<lambda>nap. Inr (nap, 0))
      else if dest_addr = kNaClBadAddress then Inr (nap, neg_errno EFAULT)
      else
        case NaClDynamicRegionFind nap dest_addr (ucast sz) of
          None \<Rightarrow> Inr (nap, neg_errno EFAULT)
        | Some p \<Rightarrow>
            let region = dynamic_regions nap ! p in
            if region_start region \<noteq> dest_addr \<or> region_size region \<noteq> ucast sz \<or> is_mmap region
            then Inr (nap, neg_errno EFAULT)
            else
              andThen (if delete_generation region < 0 then dyncode_delete_start os nap dest sz p
                       else Inr (nap, None)) (\<lambda>(nap, err).
              case err of
                Some e \<Rightarrow> Inr (nap, e)
              | None \<Rightarrow>
                  andThen (NaClSetThreadGeneration nap natp (dynamic_delete_generation nap)) (\<lambda>nap.
                  if delete_generation (dynamic_regions nap ! p) \<le> NaClMinimumThreadGeneration nap
                  then andThen (NaClDynamicRegionDelete alloc nap p) (\<lambda>nap. Inr (nap, 0))
                  else Inr (nap, neg_errno EAGAIN))))"

subsection \<open>Setting up the dynamic text area\<close>

text \<open>\<open>HostShmCreate\<close> stands for the constructor of the shared memory descriptor: 0 is failure,
  and any other value the new descriptor.  \<open>sizeof_shm\<close> is the size of that object.\<close>

definition NaClMakeDynamicTextShared ::
  "os \<Rightarrow> (u64 \<Rightarrow> bool) \<Rightarrow> u64 \<Rightarrow> 'a NaClTextApp_scheme \<Rightarrow> ('a NaClTextApp_scheme \<times> NaClErrorCode) run" where
  "NaClMakeDynamicTextShared os malloc sizeof_shm nap =
     (let shm_vaddr_base = NaClRoundAllocPage (NaClEndOfStaticText nap);
          nap = nap\<lparr> dynamic_text_start := shm_vaddr_base, dynamic_text_end := shm_vaddr_base \<rparr>;
          shm_upper_bound = rodata_start nap;
          shm_upper_bound = (if shm_upper_bound = 0 then NaClTruncAllocPage (data_start nap) else shm_upper_bound);
          shm_upper_bound = (if shm_upper_bound = 0 then shm_vaddr_base else shm_upper_bound);
          dynamic_text_size = shm_upper_bound - shm_vaddr_base in
      if \<not> use_shm_for_dynamic_text nap then Inr (nap, LOAD_OK)
      else if dynamic_text_size = 0 then Inr (nap, LOAD_OK)
      else if \<not> malloc sizeof_shm then Inr (nap, LOAD_NO_MEMORY)
      else
        let (shm, nap) = host os nap (HostShmCreate dynamic_text_size) in
        if shm = 0 then Inr (nap, LOAD_NO_MEMORY_FOR_DYNAMIC_TEXT)
        else
          andThen (NaClUserToSys nap shm_vaddr_base) (\<lambda>text_sysaddr.
          let (freed, nap) = host os nap (HostPageFree text_sysaddr dynamic_text_size);
              (mmap_ret, nap) = host os nap
                (HostMapDesc (unat shm) text_sysaddr dynamic_text_size PROT_NONE (MAP_SHARED OR MAP_FIXED) 0);
              pages = ucast (dynamic_text_size div NACL_MAP_PAGESIZE) :: u32 in
          if freed \<noteq> 0 \<or> text_sysaddr \<noteq> mmap_ret then Inl LogFatal
          else if \<not> malloc (ucast ((pages + 8 - 1) div 8)) then Inl LogFatal
          else Inr (nap\<lparr> dynamic_page_bitmap := BitmapAllocate pages,
                         dynamic_text_start := shm_vaddr_base, dynamic_text_end := shm_upper_bound,
                         text_shm := Some (unat shm), text_mem := (\<lambda>_. 0) \<rparr>, LOAD_OK)))"

end
