(* ===== verification/Sys_Memory.thy ===== *)
theory Sys_Memory
  imports Vmmap_Contract Desc_Table Dyn_Text
begin

text \<open>
  The memory system calls of \<open>service_runtime/sys_memory.c\<close> (as built for Linux): \<open>brk\<close>,
  \<open>mmap\<close>, \<open>munmap\<close> and \<open>mprotect\<close>, over the memory map, the descriptor table, the pending I/O
  regions and the dynamic text area.

  The virtual methods of the backing descriptors are the record \<open>DescOps\<close>, a parameter of the
  calls that use them; \<open>image\<close> is what a trusted mapping of a file shows.  \<open>Fstat\<close> and \<open>image\<close> depend on
  the host calls so far, since files change.
\<close>

record 'md DescOps =
  GetFlags :: "nat \<Rightarrow> u32"
  Fstat :: "host_call list \<Rightarrow> nat \<Rightarrow> u32 \<times> u32 \<times> u64"
  DescIsSafeForMmap :: "nat \<Rightarrow> bool"
  is_host_io :: "nat \<Rightarrow> bool"
  MetadataFromNaClDesc :: "nat \<Rightarrow> 'md"
  image :: "host_call list \<Rightarrow> u64 \<Rightarrow> u64 \<Rightarrow> u8 list"

definition kMaxUsableFileSize :: u64 where
  "kMaxUsableFileSize = drop_bit 1 (- 1)"

definition size_min :: "u64 \<Rightarrow> u64 \<Rightarrow> u64" where
  "size_min a b = (if a < b then a else b)"

text \<open>An error as the 64-bit value that ends as the 32-bit result of a system call.\<close>

definition neg_errno64 :: "int \<Rightarrow> u64" where
  "neg_errno64 e = word_of_int (- e)"

subsection \<open>brk\<close>

text \<open>The branch that extends the segment of the current break; the result says whether it
  did, or ran into the next segment.\<close>

definition brk_grow :: "os \<Rightarrow> 'a NaClApp_scheme \<Rightarrow> u64 \<Rightarrow> ('a NaClApp_scheme \<times> bool) run" where
  "brk_grow os nap new_break =
     (let usr_last_data_page = drop_bit NACL_PAGESHIFT (break_addr nap - 1);
          usr_new_last_data_page = drop_bit NACL_PAGESHIFT (new_break - 1);
          last_internal_data_addr = NaClRoundAllocPage new_break - 1;
          last_internal_page = drop_bit NACL_PAGESHIFT last_internal_data_addr in
      andThen (NaClVmmapFindPageIter (mem_map nap) usr_last_data_page) (\<lambda>(vm, iter).
      let nap = nap\<lparr> mem_map := vm \<rparr> in
      if NaClVmmapIterAtEnd vm iter then Inl LogFatal
      else
        andThen (NaClVmmapIterStar vm iter) (\<lambda>ent.
        if usr_new_last_data_page < page_num ent + npages ent
        then Inr (nap\<lparr> break_addr := new_break \<rparr>, True)
        else
          let next_iter = NaClVmmapIterIncr iter in
          andThen (if NaClVmmapIterAtEnd vm next_iter then Inr False
                   else andThen (NaClVmmapIterStar vm next_iter) (\<lambda>next_ent.
                     Inr (page_num next_ent \<le> last_internal_page))) (\<lambda>runs_into_next.
          if runs_into_next then Inr (nap, False)
          else
            let start_new_region = push_bit NACL_PAGESHIFT (page_num ent + npages ent);
                vm = set_entry vm iter (ent\<lparr> npages := last_internal_page - page_num ent + 1 \<rparr>);
                region_size = push_bit NACL_PAGESHIFT (last_internal_page + 1) - start_new_region;
                nap = nap\<lparr> mem_map := vm \<rparr> in
            andThen (NaClUserToSys nap start_new_region) (\<lambda>addr.
            let (rv, nap) = host os nap (HostMprotect addr region_size (PROT_READ OR PROT_WRITE)) in
            if rv \<noteq> 0 then Inl LogFatal else Inr (nap\<lparr> break_addr := new_break \<rparr>, True))))))"

definition NaClSysBrk :: "os \<Rightarrow> 'a NaClApp_scheme \<Rightarrow> u64 \<Rightarrow> ('a NaClApp_scheme \<times> u32) run" where
  "NaClSysBrk os nap new_break =
     (let sys_new_break = NaClUserToSysAddr nap new_break in
      if pnacl_mode nap then Inr (nap, neg_errno ENOSYS)
      else if sys_new_break = kNaClBadAddress then Inr (nap, ucast (break_addr nap))
      else if new_break < data_end nap then Inr (nap, ucast (break_addr nap))
      else if new_break \<le> break_addr nap then Inr (nap\<lparr> break_addr := new_break \<rparr>, ucast new_break)
      else
        andThen (NaClUserToSys nap (break_addr nap)) (\<lambda>sys_break.
        andThen (brk_grow os nap new_break) (\<lambda>(nap, grown).
        if \<not> grown then Inr (nap, ucast (break_addr nap))
        else
          andThen (cassert (sys_new_break > sys_break)) (\<lambda>_.
          let (_, nap) = host os nap (HostMemset sys_break (sys_new_break - sys_break)) in
          Inr (nap, ucast new_break)))))"

subsection \<open>The executable part of the address space\<close>

definition NaClSysCommonAddrRangeContainsExecutablePages :: "'a NaClApp_scheme \<Rightarrow> u64 \<Rightarrow> u64 \<Rightarrow> bool" where
  "NaClSysCommonAddrRangeContainsExecutablePages nap usraddr len \<longleftrightarrow>
     NaClTruncAllocPage usraddr < dynamic_text_end nap"

definition NaClSysCommonAddrRangeInAllowedDynamicCodeSpace ::
  "'a NaClApp_scheme \<Rightarrow> u64 \<Rightarrow> u64 \<Rightarrow> bool" where
  "NaClSysCommonAddrRangeInAllowedDynamicCodeSpace nap usraddr len =
     (let usr_region_end = usraddr + len in
      if usr_region_end < usraddr then False
      else
        let usr_region_end = NaClRoundAllocPage usr_region_end in
        if usr_region_end < usraddr then False
        else dynamic_text_start nap \<le> usraddr \<and> usr_region_end \<le> dynamic_text_end nap)"

subsection \<open>munmap\<close>

definition MunmapInternal :: "os \<Rightarrow> 'a NaClApp_scheme \<Rightarrow> u64 \<Rightarrow> u64 \<Rightarrow> ('a NaClApp_scheme \<times> u32) run" where
  "MunmapInternal os nap sysaddr len =
     (let (rv, nap) = host os nap (HostMmapNone sysaddr len) in
      if rv = - 1 then
        let (e, nap) = host os nap HostErrno in Inr (nap, - ucast e)
      else
        andThen (NaClSysToUser nap sysaddr) (\<lambda>usraddr.
        andThen (NaClVmmapRemove (mem_map nap) (drop_bit NACL_PAGESHIFT usraddr) (drop_bit NACL_PAGESHIFT len)) (\<lambda>vm.
        Inr (nap\<lparr> mem_map := vm \<rparr>, 0))))"

definition NaClSysMunmap :: "os \<Rightarrow> 'a NaClApp_scheme \<Rightarrow> u64 \<Rightarrow> u64 \<Rightarrow> ('a NaClApp_scheme \<times> u32) run" where
  "NaClSysMunmap os nap start len =
     (if \<not> NaClIsAllocPageMultiple start then Inr (nap, neg_errno EINVAL)
      else if len = 0 then Inr (nap, neg_errno EINVAL)
      else
        let len = NaClRoundAllocPage len;
            sysaddr = NaClUserToSysAddrRange nap start len in
        if sysaddr = kNaClBadAddress then Inr (nap, neg_errno EFAULT)
        else if NaClSysCommonAddrRangeContainsExecutablePages nap start len then Inr (nap, neg_errno EINVAL)
        else
          andThen (NaClVmIoPendingCheck_mu nap (ucast start) (ucast (start + len - 1))) (\<lambda>_.
          MunmapInternal os nap sysaddr len))"

subsection \<open>mprotect\<close>

text \<open>\<open>NaClProtMap\<close> of \<open>shared/platform/nacl_host_desc_common.c\<close>; the host's protection bits are
  those of the sandbox.\<close>

definition NaClProtMap :: "u32 \<Rightarrow> u32" where
  "NaClProtMap abi_prot =
     (let m = (\<lambda>h host_os_prot. if abi_prot AND h \<noteq> 0 then host_os_prot OR h else host_os_prot) in
      m PROT_EXEC (m PROT_WRITE (m PROT_READ 0)))"

text \<open>The body of the loop over the entries, and the loop from the current entry on; \<open>entry\<close>
  is the last one it has seen.  File offsets and sizes are signed.\<close>

definition mprotect_entry :: "os \<Rightarrow> 'a NaClApp_scheme \<Rightarrow> u32 \<Rightarrow> NaClVmmapEntry \<Rightarrow> 'a NaClApp_scheme run" where
  "mprotect_entry os nap host_prot entry =
     andThen (NaClUserToSys nap (push_bit NACL_PAGESHIFT (page_num entry))) (\<lambda>addr.
     let entry_len = push_bit NACL_PAGESHIFT (npages entry) in
     if desc entry = None then
       let (rv, nap) = host os nap (HostMprotect addr entry_len host_prot) in
       if rv \<noteq> 0 then Inl LogFatal else Inr nap
     else if offset entry <s file_size entry then
       let rounded_file_bytes = NaClRoundPage (file_size entry - offset entry);
           prot_len = size_min rounded_file_bytes entry_len;
           (rv, nap) = host os nap (HostMprotect addr prot_len host_prot) in
       if rv \<noteq> 0 then Inl LogFatal else Inr nap
     else Inr nap)"

fun mprotect_loop ::
  "os \<Rightarrow> u64 \<Rightarrow> u32 \<Rightarrow> NaClVmmapEntry list \<Rightarrow> 'a NaClApp_scheme \<Rightarrow> NaClVmmapEntry \<Rightarrow>
   ('a NaClApp_scheme \<times> NaClVmmapEntry) run" where
  "mprotect_loop os last_page_num host_prot [] nap entry = Inr (nap, entry)"
| "mprotect_loop os last_page_num host_prot (e # es) nap entry =
     (if page_num e < last_page_num then
        andThen (mprotect_entry os nap host_prot e) (\<lambda>nap.
        mprotect_loop os last_page_num host_prot es nap e)
      else Inr (nap, entry))"

definition MprotectInternal ::
  "os \<Rightarrow> 'a NaClApp_scheme \<Rightarrow> u64 \<Rightarrow> u64 \<Rightarrow> u32 \<Rightarrow> ('a NaClApp_scheme \<times> u32) run" where
  "MprotectInternal os nap sysaddr len pr =
     (let host_prot = NaClProtMap pr in
      andThen (NaClSysToUser nap sysaddr) (\<lambda>usraddr.
      let last_page_num = drop_bit NACL_PAGESHIFT (usraddr + len) in
      andThen (NaClVmmapFindPageIter (mem_map nap) (drop_bit NACL_PAGESHIFT usraddr)) (\<lambda>(vm, iter).
      let nap = nap\<lparr> mem_map := vm \<rparr> in
      andThen (NaClVmmapIterStar vm iter) (\<lambda>entry.
      andThen (check (usraddr = push_bit NACL_PAGESHIFT (page_num entry))) (\<lambda>_.
      andThen (mprotect_loop os last_page_num host_prot (drop iter (vmentry vm)) nap entry) (\<lambda>(nap, entry).
      andThen (check (page_num entry + npages entry = last_page_num)) (\<lambda>_.
      Inr (nap, 0))))))))"

definition NaClSysMprotectInternal ::
  "os \<Rightarrow> 'md DescOps \<Rightarrow> 'a NaClApp_scheme \<Rightarrow> u32 \<Rightarrow> u64 \<Rightarrow> u32 \<Rightarrow> ('a NaClApp_scheme \<times> u32) run" where
  "NaClSysMprotectInternal os ops nap start len pr =
     (let aligned = NaClIsAllocPageMultiple (ucast start);
          len = NaClRoundAllocPage len;
          sysaddr = NaClUserToSysAddrRange nap (ucast start) len in
      if \<not> aligned then Inr (nap, neg_errno EINVAL)
      else if sysaddr = kNaClBadAddress then Inr (nap, neg_errno EFAULT)
      else if NOT (PROT_READ OR PROT_WRITE) AND pr \<noteq> 0 then Inr (nap, neg_errno EACCES)
      else if NaClSysCommonAddrRangeContainsExecutablePages nap (ucast start) len
        then Inr (nap, neg_errno EACCES)
      else
        andThen (NaClSysToUser nap sysaddr) (\<lambda>usraddr.
        andThen (NaClVmmapChangeProt (GetFlags ops) (mem_map nap) (drop_bit NACL_PAGESHIFT usraddr)
                   (drop_bit NACL_PAGESHIFT len) pr) (\<lambda>(vm, changed).
        let nap = nap\<lparr> mem_map := vm \<rparr> in
        if \<not> changed then Inr (nap, neg_errno EACCES)
        else
          andThen (NaClVmIoPendingCheck_mu nap start (ucast (ucast start + len - 1))) (\<lambda>_.
          MprotectInternal os nap sysaddr len pr))))"

definition NaClSysMprotect ::
  "os \<Rightarrow> 'md DescOps \<Rightarrow> 'a NaClApp_scheme \<Rightarrow> u32 \<Rightarrow> u64 \<Rightarrow> u32 \<Rightarrow> ('a NaClApp_scheme \<times> u32) run" where
  "NaClSysMprotect os ops nap start len pr = NaClSysMprotectInternal os ops nap start len pr"

end
