(* ===== verification/Sys_Mmap.thy ===== *)
theory Sys_Mmap
  imports Sys_Memory
begin

text \<open>
  \<open>NaClSysMmap\<close> of \<open>service_runtime/sys_memory.c\<close> (as built for Linux), in the phases of the
  code: the checks of the arguments and of the file, the choice of the addresses, the mapping of
  data, and the mapping of code, which is validated first and then either mapped or copied
  through the dynamic code interface.

  A phase returns \<open>Inl\<close> the value with which the call ends early (\<open>goto cleanup\<close>), a 64-bit
  \<open>map_result\<close>, or \<open>Inr\<close> what the next phase needs.
\<close>

abbreviation (input) S_IFMT :: u32 where "S_IFMT \<equiv> 0x1f000"
abbreviation (input) S_IFREG :: u32 where "S_IFREG \<equiv> 0x8000"
abbreviation (input) S_IFSHM :: u32 where "S_IFSHM \<equiv> 0x14000"
abbreviation (input) S_IFSHM_SYSV :: u32 where "S_IFSHM_SYSV \<equiv> 0x18000"
abbreviation (input) E_MOVE_ADDRESS_SPACE :: u64 where "E_MOVE_ADDRESS_SPACE \<equiv> 0x40000000"

text \<open>Whether the application loads code by mapping a file.\<close>

definition mmap_mapping_code ::
  "'a NaClApp_scheme \<Rightarrow> u64 \<Rightarrow> u64 \<Rightarrow> u32 \<Rightarrow> u32 \<Rightarrow> nat option \<Rightarrow> u64 + bool" where
  "mmap_mapping_code nap usraddr len pr fl ndp =
     (if PROT_EXEC AND pr \<noteq> 0 \<and> MAP_FIXED AND fl \<noteq> 0 \<and> ndp \<noteq> None \<and>
         NaClSysCommonAddrRangeInAllowedDynamicCodeSpace nap usraddr len
      then
        if \<not> enable_dyncode_syscalls nap then Inl (neg_errno64 EINVAL)
        else if PROT_WRITE AND pr \<noteq> 0 then Inl (neg_errno64 EINVAL)
        else Inr True
      else if pr AND PROT_EXEC \<noteq> 0 then Inl (neg_errno64 EINVAL)
      else Inr False)"

text \<open>The file size, the bytes from the offset to the end of the file, and these rounded up
  to host pages.\<close>

definition mmap_file_sizes ::
  "'md DescOps \<Rightarrow> 'a NaClApp_scheme \<Rightarrow> nat option \<Rightarrow> u64 \<Rightarrow> (u64 + u64 \<times> u64 \<times> u64) run" where
  "mmap_file_sizes ops nap ndp off =
     (case ndp of
        None \<Rightarrow> Inr (Inr (kMaxUsableFileSize, kMaxUsableFileSize, kMaxUsableFileSize))
      | Some d \<Rightarrow>
          let (ret, st_mode, st_size) = Fstat ops (host_log nap) d in
          if ret \<noteq> 0 then Inr (Inl (scast ret))
          else if st_mode AND S_IFMT \<noteq> S_IFREG \<and> st_mode AND S_IFMT \<noteq> S_IFSHM \<and>
                  st_mode AND S_IFMT \<noteq> S_IFSHM_SYSV then Inr (Inl (neg_errno64 ENODEV))
          else if st_size <s off then Inr (Inl (neg_errno64 EINVAL))
          else
            let file_bytes = st_size - off;
                host_rounded_file_bytes =
                  (if kMaxUsableFileSize <s file_bytes then kMaxUsableFileSize
                   else NaClRoundHostAllocPage file_bytes);
                alloc_rounded_file_bytes = NaClRoundAllocPage host_rounded_file_bytes in
            andThen (cassert (host_rounded_file_bytes \<le>s kMaxUsableFileSize)) (\<lambda>_.
            if alloc_rounded_file_bytes = 0 \<and> host_rounded_file_bytes \<noteq> 0
            then Inr (Inl (neg_errno64 ENOMEM))
            else Inr (Inr (st_size, file_bytes, host_rounded_file_bytes))))"

text \<open>What the checks before the address space is locked establish.\<close>

record mmap_plan =
  plan_code :: bool
  plan_alloc_length :: u64
  plan_length :: u64
  plan_file_size :: u64
  plan_file_bytes :: u64

definition mmap_checks ::
  "'md DescOps \<Rightarrow> 'a NaClApp_scheme \<Rightarrow> u64 \<Rightarrow> u64 \<Rightarrow> u32 \<Rightarrow> u32 \<Rightarrow> nat option \<Rightarrow> u64 \<Rightarrow>
   (u64 + mmap_plan) run" where
  "mmap_checks ops nap usraddr len pr fl ndp off =
     (case mmap_mapping_code nap usraddr len pr fl ndp of
        Inl e \<Rightarrow> Inr (Inl e)
      | Inr mapping_code \<Rightarrow>
          let alloc_rounded_length = NaClRoundAllocPage len in
          if \<not> NaClIsAllocPageMultiple usraddr then Inr (Inl (neg_errno64 EINVAL))
          else if off <s 0 then Inr (Inl (neg_errno64 EINVAL))
          else if \<not> NaClIsAllocPageMultiple off then Inr (Inl (neg_errno64 EINVAL))
          else if len = 0 then Inr (Inl (neg_errno64 EINVAL))
          else if alloc_rounded_length \<noteq> len \<and> mapping_code then Inr (Inl (neg_errno64 EINVAL))
          else
            andThen (mmap_file_sizes ops nap ndp off) (\<lambda>sizes.
            case sizes of
              Inl e \<Rightarrow> Inr (Inl e)
            | Inr (fsz, file_bytes, host_rounded_file_bytes) \<Rightarrow>
                if mapping_code \<and> file_bytes < alloc_rounded_length
                then Inr (Inl (neg_errno64 EINVAL))
                else Inr (Inr \<lparr> plan_code = mapping_code, plan_alloc_length = alloc_rounded_length,
                       plan_length = size_min alloc_rounded_length host_rounded_file_bytes,
                       plan_file_size = fsz, plan_file_bytes = file_bytes \<rparr>)))"

text \<open>The choice of the addresses.\<close>

definition mmap_place ::
  "'a NaClApp_scheme \<Rightarrow> u64 \<Rightarrow> u64 \<Rightarrow> u32 \<Rightarrow> ('a NaClApp_scheme \<times> (u64 + u64)) run" where
  "mmap_place nap usraddr alloc_rounded_length fl =
     (let num_pages = drop_bit NACL_PAGESHIFT alloc_rounded_length in
      if fl AND MAP_FIXED \<noteq> 0 then Inr (nap, Inr usraddr)
      else
        andThen
          (if usraddr = 0 then NaClVmmapFindMapSpace (mem_map nap) num_pages
           else
             andThen (NaClVmmapFindMapSpaceAboveHint (mem_map nap) usraddr num_pages) (\<lambda>(vm, usrpage).
             if usrpage = 0 then NaClVmmapFindMapSpace vm num_pages else Inr (vm, usrpage)))
          (\<lambda>(vm, usrpage).
           let nap = nap\<lparr> mem_map := vm \<rparr> in
           if usrpage = 0 then Inr (nap, Inl (neg_errno64 ENOMEM))
           else Inr (nap, Inr (push_bit NACL_PAGESHIFT usrpage))))"

text \<open>The checks of the chosen range; an error is \<open>Some\<close>.\<close>

definition mmap_range_check ::
  "'md DescOps \<Rightarrow> 'a NaClApp_scheme \<Rightarrow> mmap_plan \<Rightarrow> u64 \<Rightarrow> nat option \<Rightarrow> u32 \<Rightarrow> u64 option run" where
  "mmap_range_check ops nap plan usraddr ndp fl =
     (let endaddr = usraddr + plan_alloc_length plan in
      if addr_limit nap \<le> usraddr then Inr (Some (neg_errno64 EINVAL))
      else if endaddr < usraddr then Inr (Some (neg_errno64 EINVAL))
      else if addr_limit nap < endaddr then Inr (Some (neg_errno64 EINVAL))
      else if plan_code plan \<and> \<not> (case ndp of None \<Rightarrow> False | Some d \<Rightarrow> DescIsSafeForMmap ops d)
        then Inr (Some (neg_errno64 EINVAL))
      else if \<not> plan_code plan \<and> NaClSysCommonAddrRangeContainsExecutablePages nap usraddr (plan_length plan)
        then Inr (Some (neg_errno64 EINVAL))
      else
        andThen (NaClVmIoPendingCheck_mu nap (ucast usraddr) (ucast (usraddr + plan_length plan - 1))) (\<lambda>_.
        if (fl AND MAP_SHARED = 0) = (fl AND MAP_PRIVATE = 0) then Inr (Some (neg_errno64 EINVAL))
        else Inr None))"

text \<open>Mapping code from a file.\<close>

definition mmap_code ::
  "os \<Rightarrow> 'md DescOps \<Rightarrow> (nat \<Rightarrow> bool) \<Rightarrow> 'md NaClValidatorInterface \<Rightarrow> 'a NaClTextApp_scheme \<Rightarrow> u64 \<Rightarrow> u64 \<Rightarrow>
   u64 \<Rightarrow> nat \<Rightarrow> u64 \<Rightarrow> ('a NaClTextApp_scheme \<times> u64) run" where
  "mmap_code os ops alloc validator nap usraddr sysaddr len d off =
     (let usraddr_result = scast (ucast usraddr :: u32) :: u64 in
      if \<not> is_host_io ops d then Inr (nap, neg_errno64 EINVAL)
      else
        let (image_sys_addr, nap) = host os nap (HostMapTrusted d len (PROT_READ OR PROT_WRITE) MAP_PRIVATE off) in
        if NaClPtrIsNegErrno image_sys_addr then Inr (nap, image_sys_addr)
        else
          let (validator_status, code) = Validate validator usraddr (image ops (host_log nap) image_sys_addr len)
                 False True (Some (MetadataFromNaClDesc ops d)) (validation_cache nap) in
          if validator_status = NaClValidationSucceeded then
            andThen (NaClUserToSys nap usraddr) (\<lambda>start.
            andThen (NaClDynamicRegionCreate alloc nap start len True) (\<lambda>(nap, ret).
            if \<not> ret then Inr (nap, neg_errno64 EINVAL)
            else
              andThen (NaClDescUnmapUnsafe os nap image_sys_addr len) (\<lambda>nap.
              let (image_sys_addr, nap) = host os nap
                     (HostMapDesc d sysaddr len (PROT_READ OR PROT_EXEC) (MAP_PRIVATE OR MAP_FIXED) off) in
              if image_sys_addr \<noteq> sysaddr then Inl LogFatal else Inr (nap, usraddr_result))))
          else
            andThen (NaClTextDyncodeCreate os alloc validator nap (ucast usraddr) code (ucast len) None)
              (\<lambda>(nap, sys_ret).
            let map_result = (if sys_ret <s 0 then scast sys_ret else usraddr_result);
                (unmapped, nap) = host os nap (HostUnmapTrusted image_sys_addr len) in
            if unmapped \<noteq> 0 then Inl LogFatal else Inr (nap, map_result)))"

text \<open>Mapping data: anonymous memory or a file, then the inaccessible rest, then the entry in
  the memory map.  \<open>fl\<close> has \<open>MAP_FIXED\<close> set and \<open>pr\<close> has \<open>PROT_EXEC\<close> clear.\<close>

definition mmap_data_map ::
  "os \<Rightarrow> 'a NaClApp_scheme \<Rightarrow> mmap_plan \<Rightarrow> u64 \<Rightarrow> u32 \<Rightarrow> u32 \<Rightarrow> nat option \<Rightarrow> u64 \<Rightarrow>
   ('a NaClApp_scheme \<times> u64 option) run" where
  "mmap_data_map os nap plan sysaddr pr fl ndp off =
     (if plan_length plan > 0 then
        let (map_result, nap) = host os nap
              (case ndp of
                 None \<Rightarrow> HostMapAnon sysaddr (plan_length plan) pr fl off
               | Some d \<Rightarrow> HostMapDesc d sysaddr (size_min (plan_length plan) (plan_file_bytes plan)) pr fl off) in
        if NaClPtrIsNegErrno map_result then
          if map_result = - E_MOVE_ADDRESS_SPACE then Inl LogFatal else Inr (nap, Some map_result)
        else if map_result \<noteq> sysaddr then Inl LogFatal
        else Inr (nap, None)
      else Inr (nap, None))"

definition mmap_data ::
  "os \<Rightarrow> 'a NaClApp_scheme \<Rightarrow> mmap_plan \<Rightarrow> u64 \<Rightarrow> u64 \<Rightarrow> u32 \<Rightarrow> u32 \<Rightarrow> nat option \<Rightarrow> u64 \<Rightarrow>
   ('a NaClApp_scheme \<times> u64) run" where
  "mmap_data os nap plan usraddr sysaddr pr fl ndp off =
     (let len = plan_length plan; alloc_len = plan_alloc_length plan in
      andThen (mmap_data_map os nap plan sysaddr pr fl ndp off) (\<lambda>(nap, failed).
      case failed of
        Some map_result \<Rightarrow> Inr (nap, map_result)
      | None \<Rightarrow>
          andThen (if len < alloc_len then MunmapInternal os nap (sysaddr + len) (alloc_len - len)
                   else Inr (nap, 0)) (\<lambda>(nap, ret).
          if ret \<noteq> 0 then Inr (nap, scast ret)
          else
            andThen
              (if alloc_len > 0 then
                 andThen (NaClSysToUser nap sysaddr) (\<lambda>usr.
                 andThen (NaClVmmapAddWithOverwrite (mem_map nap) (drop_bit NACL_PAGESHIFT usr)
                            (drop_bit NACL_PAGESHIFT alloc_len) pr fl ndp off (plan_file_size plan)) (\<lambda>vm.
                 Inr (nap\<lparr> mem_map := vm \<rparr>)))
               else Inr nap) (\<lambda>nap.
            Inr (nap, usraddr)))))"

text \<open>From the checks to the value of \<open>map_result\<close> at \<open>cleanup\<close>.\<close>

definition mmap_body ::
  "os \<Rightarrow> 'md DescOps \<Rightarrow> (nat \<Rightarrow> bool) \<Rightarrow> 'md NaClValidatorInterface \<Rightarrow> 'a NaClTextApp_scheme \<Rightarrow> u64 \<Rightarrow> u64 \<Rightarrow>
   u32 \<Rightarrow> u32 \<Rightarrow> nat option \<Rightarrow> u64 \<Rightarrow> ('a NaClTextApp_scheme \<times> u64) run" where
  "mmap_body os ops alloc validator nap usraddr len pr fl ndp off =
     andThen (mmap_checks ops nap usraddr len pr fl ndp off) (\<lambda>checked.
     case checked of
       Inl e \<Rightarrow> Inr (nap, e)
     | Inr plan \<Rightarrow>
         andThen (mmap_place nap usraddr (plan_alloc_length plan) fl) (\<lambda>(nap, place).
         case place of
           Inl e \<Rightarrow> Inr (nap, e)
         | Inr usraddr \<Rightarrow>
             andThen (mmap_range_check ops nap plan usraddr ndp fl) (\<lambda>refused.
             case refused of
               Some e \<Rightarrow> Inr (nap, e)
             | None \<Rightarrow>
                 andThen (NaClUserToSys nap usraddr) (\<lambda>sysaddr.
                 if plan_code plan \<and> plan_length plan > 0 then
                   case ndp of
                     None \<Rightarrow> Inl NullDeref
                   | Some d \<Rightarrow> mmap_code os ops alloc validator nap usraddr sysaddr (plan_length plan) d off
                 else
                   mmap_data os nap plan usraddr sysaddr (pr AND NOT PROT_EXEC) (fl OR MAP_FIXED) ndp off))))"

definition NaClSysMmapIntern ::
  "os \<Rightarrow> 'md DescOps \<Rightarrow> (nat \<Rightarrow> bool) \<Rightarrow> 'md NaClValidatorInterface \<Rightarrow> 'a NaClTextApp_scheme \<Rightarrow> u64 \<Rightarrow> u64 \<Rightarrow>
   u32 \<Rightarrow> u32 \<Rightarrow> u32 \<Rightarrow> u64 \<Rightarrow> ('a NaClTextApp_scheme \<times> u32) run" where
  "NaClSysMmapIntern os ops alloc validator nap start len pr fl d off =
     (let fl = fl AND (MAP_FIXED OR MAP_SHARED OR MAP_PRIVATE OR MAP_ANONYMOUS);
          anonymous = fl AND MAP_ANONYMOUS \<noteq> 0 in
      andThen (if anonymous then Inr (nap, None) else NaClAppGetDesc nap d) (\<lambda>(nap, ndp).
      andThen (if \<not> anonymous \<and> ndp = None then Inr (nap, neg_errno64 EBADF)
               else mmap_body os ops alloc validator nap start len pr fl ndp off) (\<lambda>(nap, map_result).
      let nap = with_refs (desc_unref ndp) nap in
      if 0xffffffff < map_result \<and> \<not> NaClPtrIsNegErrno map_result then Inl LogFatal
      else Inr (nap, ucast map_result))))"

text \<open>The offset is an in/out argument in untrusted memory, eight bytes in little-endian order.\<close>

definition load_off :: "(u64 \<Rightarrow> u8) \<Rightarrow> u64 \<Rightarrow> u64" where
  "load_off user_mem a = foldr (\<lambda>b w. ucast b OR push_bit 8 w) (read_bytes user_mem a 8) 0"

definition NaClSysMmap ::
  "os \<Rightarrow> 'md DescOps \<Rightarrow> (nat \<Rightarrow> bool) \<Rightarrow> 'md NaClValidatorInterface \<Rightarrow> (u64 \<Rightarrow> u8) \<Rightarrow> 'a NaClTextApp_scheme \<Rightarrow>
   u64 \<Rightarrow> u64 \<Rightarrow> u32 \<Rightarrow> u32 \<Rightarrow> u32 \<Rightarrow> u64 \<Rightarrow> ('a NaClTextApp_scheme \<times> u32) run" where
  "NaClSysMmap os ops alloc validator user_mem nap start len pr fl d offp =
     (let sysaddr = NaClUserToSysAddrRange nap offp 8 in
      if offp = 0 then Inr (nap, neg_errno EINVAL)
      else if sysaddr = kNaClBadAddress then Inr (nap, neg_errno EFAULT)
      else NaClSysMmapIntern os ops alloc validator nap start len pr fl d (load_off user_mem sysaddr))"

end
