(* ===== verification/Sys_Memory_Proofs.thy ===== *)
theory Sys_Memory_Proofs
  imports Sys_Memory
begin

text \<open>
  The memory system calls keep the memory map in step with the address space: \<open>munmap\<close>,
  \<open>mprotect\<close> and \<open>brk\<close> change exactly the pages they are asked for, never an executable one, and no
  check of the code fails.
\<close>

subsection \<open>The invariant\<close>

text \<open>The trampolines and the static text stay mapped, so that removing a range never empties
  the map.\<close>

definition mem_inv :: "'a NaClApp_scheme \<Rightarrow> bool" where
  "mem_inv nap \<longleftrightarrow> space_ok nap \<and> vm_ok (mem_map nap) \<and>
     65536 dvd unat (dynamic_text_end nap) \<and> unat (dynamic_text_end nap) \<le> 2 ^ addr_bits nap \<and>
     (\<exists>p. page_at (mem_map nap) p \<noteq> None \<and> p * 4096 < unat (dynamic_text_end nap))"

lemma mem_invD:
  assumes "mem_inv nap"
  shows "space_ok nap" and "vm_ok (mem_map nap)" and "65536 dvd unat (dynamic_text_end nap)"
    and "unat (dynamic_text_end nap) \<le> 2 ^ addr_bits nap"
    and "\<exists>p. page_at (mem_map nap) p \<noteq> None \<and> p * 4096 < unat (dynamic_text_end nap)"
  using assms by (simp_all add: mem_inv_def)

lemma mem_inv_step:
  assumes "mem_inv nap" and "vm_ok (mem_map nap')"
    and "addr_bits nap' = addr_bits nap" and "mem_start nap' = mem_start nap"
    and "dynamic_text_end nap' = dynamic_text_end nap"
    and "\<And>p. p * 4096 < unat (dynamic_text_end nap) \<Longrightarrow> page_at (mem_map nap') p = page_at (mem_map nap) p"
  shows "mem_inv nap'"
proof -
  note inv = mem_invD [OF assms(1)]
  obtain p where p: "page_at (mem_map nap) p \<noteq> None" "p * 4096 < unat (dynamic_text_end nap)"
    using inv(5) by blast
  with assms(6) have "page_at (mem_map nap') p \<noteq> None" by simp
  with inv(1-4) assms(2-5) p(2) show ?thesis by (auto simp: mem_inv_def space_ok_def)
qed

text \<open>Logging and changing the map leave address translation alone.\<close>

lemma space_log [simp]:
  "NaClSysToUser (nap\<lparr> host_log := lg \<rparr>) = NaClSysToUser nap"
  "NaClUserToSys (nap\<lparr> host_log := lg \<rparr>) = NaClUserToSys nap"
  "NaClSysToUser (nap\<lparr> mem_map := vm \<rparr>) = NaClSysToUser nap"
  "NaClUserToSys (nap\<lparr> mem_map := vm \<rparr>) = NaClUserToSys nap"
  by (simp_all add: fun_eq_iff NaClSysToUser_def NaClUserToSys_def addr_limit_def)

text \<open>The pages of a byte range.\<close>

definition in_bytes :: "u64 \<Rightarrow> u64 \<Rightarrow> nat \<Rightarrow> bool" where
  "in_bytes start len p \<longleftrightarrow> unat start \<le> p * 4096 \<and> p * 4096 < unat start + unat len"

lemma unat_pages: "unat (drop_bit 12 (x :: u64)) = unat x div 4096"
  by (simp add: drop_bit_eq_div unat_div)

lemma page_range:
  assumes "4096 dvd unat start" and "4096 dvd unat len" and "len \<noteq> 0" and "unat start + unat len \<le> 2 ^ 32"
  shows "region_ok (drop_bit 12 start) (drop_bit 12 len)"
    and "in_region (drop_bit 12 start) (drop_bit 12 len) = in_bytes start len"
proof -
  obtain a b where ab: "unat start = 4096 * a" "unat len = 4096 * b"
    using assms(1,2) by (auto elim!: dvdE)
  have "b \<noteq> 0" using ab(2) assms(3) unat_eq_0 [of len] by auto
  then have "drop_bit 12 len \<noteq> 0" using ab(2) by (auto simp: word_unat_eq_iff unat_pages)
  moreover have "a + b \<le> 2 ^ 20" using assms(4) ab by simp
  ultimately show "region_ok (drop_bit 12 start) (drop_bit 12 len)"
    using ab by (simp add: region_ok_def unat_pages max_pages_def)
  show "in_region (drop_bit 12 start) (drop_bit 12 len) = in_bytes start len"
    by (rule ext) (auto simp: in_region_def in_bytes_def unat_pages ab)
qed

text \<open>The rounded length of a 32-bit length.\<close>

lemma round_len:
  assumes "unat len < 2 ^ 32"
  shows "unat (NaClRoundAllocPage len) = (unat len + 65535) div 65536 * 65536"
    and "65536 dvd unat (NaClRoundAllocPage len)" and "NaClRoundAllocPage len = 0 \<longleftrightarrow> len = 0"
proof -
  show r: "unat (NaClRoundAllocPage len) = (unat len + 65535) div 65536 * 65536"
    using assms by (intro round_nat) simp
  then show "65536 dvd unat (NaClRoundAllocPage len)" by simp
  have "(unat len + 65535) div 65536 * 65536 = 0 \<longleftrightarrow> unat len = 0" by auto
  then show "NaClRoundAllocPage len = 0 \<longleftrightarrow> len = 0" by (metis r unat_eq_0)
qed

lemma executable_iff:
  assumes "65536 dvd unat (dynamic_text_end nap)" and "65536 dvd unat start"
  shows "NaClSysCommonAddrRangeContainsExecutablePages nap start len \<longleftrightarrow> start < dynamic_text_end nap"
proof -
  have "NaClTruncAllocPage start = start"
    using assms(2) by (intro word_eq_unatI) (simp add: trunc_nat)
  then show ?thesis by (simp add: NaClSysCommonAddrRangeContainsExecutablePages_def)
qed

subsection \<open>munmap\<close>

text \<open>The frame of an operation that removes or adds mappings above the executable pages.\<close>

definition frame :: "'a NaClApp_scheme \<Rightarrow> 'a NaClApp_scheme \<Rightarrow> bool" where
  "frame nap nap' \<longleftrightarrow> (\<exists>vm lg. nap' = nap\<lparr> mem_map := vm, host_log := lg \<rparr> \<and> other_refs vm = other_refs (mem_map nap))"

lemma frame_simps:
  "frame nap nap' \<Longrightarrow> addr_bits nap' = addr_bits nap" "frame nap nap' \<Longrightarrow> mem_start nap' = mem_start nap"
  "frame nap nap' \<Longrightarrow> dynamic_text_end nap' = dynamic_text_end nap"
  "frame nap nap' \<Longrightarrow> other_refs (mem_map nap') = other_refs (mem_map nap)"
  by (auto simp: frame_def)

lemma frame_log: "frame nap (nap\<lparr> host_log := lg \<rparr>)"
  unfolding frame_def by (intro exI [of _ "mem_map nap"] exI [of _ lg]) simp

lemma frame_map: "other_refs vm = other_refs (mem_map nap) \<Longrightarrow> frame nap (nap\<lparr> mem_map := vm \<rparr>)"
  unfolding frame_def by (intro exI [of _ vm] exI [of _ "host_log nap"]) simp

lemma frame_trans: "frame a b \<Longrightarrow> frame b c \<Longrightarrow> frame a c"
  unfolding frame_def
proof (elim exE conjE)
  fix vm lg vm' lg'
  assume "b = a\<lparr> mem_map := vm, host_log := lg \<rparr>" "other_refs vm = other_refs (mem_map a)"
    "c = b\<lparr> mem_map := vm', host_log := lg' \<rparr>" "other_refs vm' = other_refs (mem_map b)"
  then show "\<exists>vm lg. c = a\<lparr> mem_map := vm, host_log := lg \<rparr> \<and> other_refs vm = other_refs (mem_map a)"
    by (intro exI [of _ vm'] exI [of _ lg']) simp
qed

lemma frame_refl: "frame a a"
  unfolding frame_def by (intro exI [of _ "mem_map a"] exI [of _ "host_log a"]) simp

definition munmapped :: "os \<Rightarrow> 'a NaClApp_scheme \<Rightarrow> u64 \<Rightarrow> u64 \<Rightarrow> 'a NaClApp_scheme \<Rightarrow> bool" where
  "munmapped os nap start len nap' \<longleftrightarrow>
     os (host_log nap) (HostMmapNone (mem_start nap + start) len) \<noteq> - 1 \<and>
     host_log nap' = host_log nap @ [HostMmapNone (mem_start nap + start) len] \<and>
     vm_ok (mem_map nap') \<and>
     page_at (mem_map nap') = (\<lambda>p. if in_bytes start len p then None else page_at (mem_map nap) p)"

lemma MunmapInternal_result:
  assumes "mem_inv nap" and "4096 dvd unat start" and "4096 dvd unat len" and "len \<noteq> 0"
    and "unat (dynamic_text_end nap) \<le> unat start" and "unat start + unat len \<le> 2 ^ addr_bits nap"
  shows "\<exists>nap' r. MunmapInternal os nap (mem_start nap + start) len = Inr (nap', r) \<and> frame nap nap' \<and>
    (if os (host_log nap) (HostMmapNone (mem_start nap + start) len) = - 1
     then mem_map nap' = mem_map nap \<and> (\<exists>lg. r = - ucast (os lg HostErrno))
     else r = 0 \<and> munmapped os nap start len nap')"
proof -
  note inv = mem_invD [OF assms(1)]
  let ?call = "HostMmapNone (mem_start nap + start) len"
  show ?thesis
  proof (cases "os (host_log nap) ?call = - 1")
    case True
    then show ?thesis
      by (simp add: MunmapInternal_def host_def Let_def frame_log) blast
  next
    case False
    let ?n1 = "nap\<lparr> host_log := host_log nap @ [?call] \<rparr>"
    have "(2 :: nat) ^ addr_bits nap \<le> 2 ^ 32" by (rule unat_addr_limit(2) [OF inv(1)])
    then have fit: "unat start + unat len \<le> 2 ^ 32" using assms(6) by linarith
    note rng = page_range [OF assms(2,3,4) fit]
    have "0 < unat len" using assms(4) by (simp add: unat_gt_0)
    then have "user_addr nap (unat start)" using assms(6) by (simp add: user_addr_def)
    note sys = SysToUser_UserToSys [OF inv(1) this]
    have sys1: "NaClSysToUser ?n1 (mem_start nap + start) = Inr start"
      using sys by (simp add: space_log)
    obtain p where p: "page_at (mem_map nap) p \<noteq> None" "p * 4096 < unat (dynamic_text_end nap)"
      using inv(5) by blast
    then have "\<not> in_bytes start len p" using assms(5) by (simp add: in_bytes_def)
    with p(1) rng(2) have "\<exists>p. page_at (mem_map nap) p \<noteq> None \<and> \<not> in_region (drop_bit 12 start) (drop_bit 12 len) p"
      by auto
    from inv(2) rng(1) this obtain vm where vm: "NaClVmmapRemove (mem_map nap) (drop_bit 12 start) (drop_bit 12 len) = Inr vm"
      "vm_ok vm" "other_refs vm = other_refs (mem_map nap)"
      "\<And>p. page_at vm p = (if in_region (drop_bit 12 start) (drop_bit 12 len) p then None else page_at (mem_map nap) p)"
      by (rule Remove_result) blast
    let ?n2 = "?n1\<lparr> mem_map := vm \<rparr>"
    have "MunmapInternal os nap (mem_start nap + start) len = Inr (?n2, 0)"
      using False sys1 vm(1) by (simp add: MunmapInternal_def host_def Let_def)
    moreover have "munmapped os nap start len ?n2"
      using False vm(2,4) rng(2) by (simp add: munmapped_def fun_eq_iff)
    moreover have "frame nap ?n2"
      unfolding frame_def using vm(3) by (intro exI [of _ vm] exI [of _ "host_log ?n1"]) simp
    ultimately show ?thesis using False by (intro exI [of _ ?n2] exI [of _ 0]) simp
  qed
qed

lemma munmapped_inv:
  assumes "mem_inv nap" and "frame nap nap'" and "munmapped os nap start len nap'"
    and "unat (dynamic_text_end nap) \<le> unat start"
  shows "mem_inv nap'"
  using assms(3,4)
  by (intro mem_inv_step [OF assms(1) _ frame_simps(1-3) [OF assms(2)]]) (auto simp: munmapped_def in_bytes_def)

text \<open>The range a call may change: whole allocation units of the address space above the
  executable pages.\<close>

definition data_range :: "'a NaClApp_scheme \<Rightarrow> u64 \<Rightarrow> u64 \<Rightarrow> bool" where
  "data_range nap start len \<longleftrightarrow> 65536 dvd unat start \<and> 65536 dvd unat len \<and> start \<noteq> 0 \<and>
     unat (dynamic_text_end nap) \<le> unat start \<and> unat start + unat len \<le> 2 ^ addr_bits nap"

text \<open>\<open>-1\<close> is the value by which \<open>mmap\<close> reports a failure, and a failure has an error number.\<close>

definition errno_set :: "os \<Rightarrow> bool" where
  "errno_set os \<longleftrightarrow> (\<forall>lg. ucast (os lg HostErrno) \<noteq> (0 :: u32))"

text \<open>The code aborts when the range is in use by a pending I/O operation.\<close>

definition io_pending :: "'a NaClApp_scheme \<Rightarrow> u64 \<Rightarrow> u64 \<Rightarrow> bool" where
  "io_pending nap start len \<longleftrightarrow>
     NaClIntervalRangeTreeOverlapsWith (mem_io_regions nap) (ucast start) (ucast (start + len - 1))"

lemma pending_check:
  "NaClVmIoPendingCheck_mu nap (ucast start) (ucast (start + len - 1)) =
     (if io_pending nap start len then Inl LogFatal else Inr ())"
  by (simp add: NaClVmIoPendingCheck_mu_def io_pending_def)

lemma munmap_result:
  assumes "mem_inv nap" and "unat len < 2 ^ 32" and "errno_set os"
  shows "run_unless (io_pending nap start (NaClRoundAllocPage len)) (NaClSysMunmap os nap start len) (\<lambda>(nap', r). frame nap nap' \<and> mem_inv nap' \<and>
    (r \<noteq> 0 \<longrightarrow> mem_map nap' = mem_map nap) \<and>
    (r = 0 \<longleftrightarrow> len \<noteq> 0 \<and> data_range nap start (NaClRoundAllocPage len) \<and>
       os (host_log nap) (HostMmapNone (mem_start nap + start) (NaClRoundAllocPage len)) \<noteq> - 1) \<and>
    (r = 0 \<longrightarrow> munmapped os nap start (NaClRoundAllocPage len) nap'))"
proof (cases "NaClIsAllocPageMultiple start \<and> len \<noteq> 0 \<and>
    NaClUserToSysAddrRange nap start (NaClRoundAllocPage len) \<noteq> kNaClBadAddress \<and>
    \<not> NaClSysCommonAddrRangeContainsExecutablePages nap start (NaClRoundAllocPage len)")
  case False
  note inv = mem_invD [OF assms(1)]
  have al: "65536 dvd unat start" if "NaClIsAllocPageMultiple start" using that by (simp add: is_multiple_nat)
  have nr: "\<not> (len \<noteq> 0 \<and> data_range nap start (NaClRoundAllocPage len))"
  proof
    assume d: "len \<noteq> 0 \<and> data_range nap start (NaClRoundAllocPage len)"
    then have a: "65536 dvd unat start" by (simp add: data_range_def)
    have "unat start < 2 ^ addr_bits nap"
      using d round_len(3) [OF assms(2)] by (auto simp: data_range_def unat_gt_0 [symmetric])
    note ok = range_not_bad [OF inv(1) this]
    have "NaClUserToSysAddrRange nap start (NaClRoundAllocPage len) = mem_start nap + start"
      using d by (simp add: UserToSysAddrRange_iff [OF inv(1)] data_range_def unat_gt_0)
    with ok False d a show False
      by (simp add: executable_iff [OF inv(3) a] data_range_def is_multiple_nat word_less_nat_alt)
  qed
  have e: "neg_errno EINVAL \<noteq> 0" "neg_errno EFAULT \<noteq> 0" by (simp_all add: neg_errno_def)
  show ?thesis
    using False nr assms(1) e frame_refl [of nap] unfolding NaClSysMunmap_def Let_def by simp blast
next
  case True
  note inv = mem_invD [OF assms(1)] and r = round_len [OF assms(2)]
  let ?len = "NaClRoundAllocPage len"
  have al: "65536 dvd unat start" using True by (simp add: is_multiple_nat)
  have rng: "start \<noteq> 0" "unat start + unat ?len \<le> 2 ^ addr_bits nap"
    "NaClUserToSysAddrRange nap start ?len = mem_start nap + start"
    using True UserToSysAddrRange_iff [OF inv(1), of start ?len] by (auto simp: unat_gt_0 split: if_splits)
  have above: "unat (dynamic_text_end nap) \<le> unat start"
    using True by (simp add: executable_iff [OF inv(3) al] word_less_nat_alt)
  have d: "data_range nap start ?len" using al r(2) rng above by (simp add: data_range_def)
  have dvd: "4096 dvd unat start" "4096 dvd unat ?len" using al r(2) by (auto intro: dvd_trans [of 4096 65536])
  have "?len \<noteq> 0" using True r(3) by simp
  note mi = MunmapInternal_result [OF assms(1) dvd this above rng(2), of os]
  have run: "NaClSysMunmap os nap start len =
      andThen (NaClVmIoPendingCheck_mu nap (ucast start) (ucast (start + ?len - 1))) (\<lambda>_.
        MunmapInternal os nap (mem_start nap + start) ?len)"
    using True unfolding NaClSysMunmap_def Let_def rng(3) by simp
  show ?thesis
  proof (cases "io_pending nap start ?len")
    case True
    then show ?thesis by (simp add: run pending_check)
  next
    case io: False
    obtain nap' ret where m: "MunmapInternal os nap (mem_start nap + start) ?len = Inr (nap', ret)" "frame nap nap'"
      "if os (host_log nap) (HostMmapNone (mem_start nap + start) ?len) = - 1
       then mem_map nap' = mem_map nap \<and> (\<exists>lg. ret = - ucast (os lg HostErrno))
       else ret = 0 \<and> munmapped os nap start ?len nap'" using mi by blast
    show ?thesis
    proof (cases "os (host_log nap) (HostMmapNone (mem_start nap + start) ?len) = - 1")
      case fail: True
      with m(3) have same: "mem_map nap' = mem_map nap" and "\<exists>lg. ret = - ucast (os lg HostErrno)" by simp_all
      then have "ret \<noteq> 0" using assms(3) by (auto simp: errno_set_def)
      moreover have "mem_inv nap'"
        using inv(2) by (intro mem_inv_step [OF assms(1) _ frame_simps(1-3) [OF m(2)]]) (simp_all add: same)
      ultimately show ?thesis using io m(1,2) same fail by (simp add: run pending_check)
    next
      case False
      then have "ret = 0" "munmapped os nap start ?len nap'" using m(3) by simp_all
      then show ?thesis
        using io m(1,2) d True False munmapped_inv [OF assms(1) m(2) _ above]
        by (simp add: run pending_check)
    qed
  qed
qed

text \<open>A sandbox with the sample map, and a host that grants everything.\<close>

definition sample_mem :: NaClApp where
  "sample_mem = sample_space\<lparr> mem_map := sample_vm \<rparr>"

definition granting_os :: os where
  "granting_os lg call = (case call of HostErrno \<Rightarrow> 12 | _ \<Rightarrow> 0)"

lemma sample_mem_inv: "mem_inv sample_mem"
  using sample_space_ok sample_vm_ok sample_mapped(1)
  by (simp add: mem_inv_def sample_mem_def space_ok_def)
    (simp add: sample_space_def, rule exI [of _ 0], simp)

lemma granting_os: "errno_set granting_os" "granting_os lg (HostMmapNone a l) \<noteq> - 1"
  by (simp_all add: errno_set_def granting_os_def)

lemma sample_io: "\<not> io_pending sample_mem start len"
  by (simp add: io_pending_def sample_mem_def sample_space_def NaClIntervalRangeTreeOverlapsWith_def
      NaClIntervalRangeTreeCtor_def)

text \<open> C28. \<open>munmap\<close> is exact: for a 32-bit length it stops the sandbox only when a pending I/O operation
  uses the range, and it succeeds iff the start is aligned, the length is not 0, the rounded range lies
  in the address space above the executable pages, and the host grants it.  Then the host has been
  asked to make exactly this range inaccessible and exactly its pages are removed from the memory
  map; otherwise the map is untouched.  No descriptor reference is lost and the invariant holds.\<close>

theorem munmap_exact:
  assumes "mem_inv nap" and "unat len < 2 ^ 32" and "errno_set os"
  shows "run_unless (io_pending nap start (NaClRoundAllocPage len)) (NaClSysMunmap os nap start len)
    (\<lambda>(nap', r). frame nap nap' \<and> mem_inv nap' \<and>
      (r \<noteq> 0 \<longrightarrow> mem_map nap' = mem_map nap) \<and>
      (r = 0 \<longleftrightarrow> len \<noteq> 0 \<and> data_range nap start (NaClRoundAllocPage len) \<and>
         os (host_log nap) (HostMmapNone (mem_start nap + start) (NaClRoundAllocPage len)) \<noteq> - 1) \<and>
      (r = 0 \<longrightarrow> munmapped os nap start (NaClRoundAllocPage len) nap'))"
  using assms by (rule munmap_result)

lemma munmap_exact_witness:
  "\<exists>nap'. NaClSysMunmap granting_os sample_mem 0x10000000 0x100 = Inr (nap', 0) \<and> mem_inv nap' \<and>
    page_at (mem_map nap') 0x10007 = None \<and> page_at (mem_map nap') 0 = page_at sample_vm 0 \<and>
    host_log nap' = [HostMmapNone 0x7f0010000000 0x10000]"
proof -
  have small: "unat (0x100 :: u64) < 2 ^ 32" by simp
  have rnd: "NaClRoundAllocPage 0x100 = 0x10000" by (simp add: NaClRoundAllocPage_def)
  obtain nap' r where m: "NaClSysMunmap granting_os sample_mem 0x10000000 0x100 = Inr (nap', r)" "mem_inv nap'"
    "r = 0 \<longleftrightarrow> data_range sample_mem 0x10000000 0x10000 \<and>
      granting_os (host_log sample_mem) (HostMmapNone (mem_start sample_mem + 0x10000000) 0x10000) \<noteq> - 1"
    "r = 0 \<longrightarrow> munmapped granting_os sample_mem 0x10000000 0x10000 nap'"
    using run_unlessE [OF munmap_exact [OF sample_mem_inv small granting_os(1)] sample_io] unfolding rnd
    by (simp only: split_paired_Ex split_conv) fastforce
  have "data_range sample_mem 0x10000000 0x10000"
    by (simp add: data_range_def sample_mem_def sample_space_def)
  with m(3) granting_os(2) have r: "r = 0" by simp
  with m(4) have "munmapped granting_os sample_mem 0x10000000 0x10000 nap'" by simp
  with m(1,2) r show ?thesis
    by (simp add: munmapped_def in_bytes_def sample_mem_def sample_space_def)
qed

end
