(* ===== verification/Sys_Mprotect_Proofs.thy ===== *)
theory Sys_Mprotect_Proofs
  imports Sys_Memory_Proofs
begin

text \<open>
  \<open>mprotect\<close> changes the protection of exactly the pages of its range, in the memory map and, page
  by page, at the host; its checks never fail unless the length is 0.
\<close>

subsection \<open>The iterator\<close>

lemma FindPageIter_result:
  assumes "vm_ok self"
  obtains s i where "NaClVmmapFindPageIter self pnum = Inr (s, i)" and "found self s"
    and "chained (vmentry s)" and "mset (vmentry s) = mset (vmentry self)"
    and "if page_at self (unat pnum) = None then i = nvalid s
      else i < nvalid s \<and> covers (vmentry s ! i) (unat pnum)"
proof -
  from assms obtain s where s: "NaClVmmapMakeSorted self = Inr s" "vm_ok s" "chained (vmentry s)"
    "mset (vmentry s) = mset (vmentry self)" "other_refs s = other_refs self"
    by (rule MakeSorted_result)
  have pages: "page_at s = page_at self" by (rule page_at_mset [OF assms s(2,4)])
  let ?b = "bsearch_by NaClVmmapContainCmpEntries pnum (vmentry s)"
  have ents: "\<forall>e \<in> set (vmentry s). ent_ok e" using s(2) by (simp add: vm_ok_def)
  have res: "if page_at self (unat pnum) = None then ?b = None
      else \<exists>i. ?b = Some i \<and> i < nvalid s \<and> covers (vmentry s ! i) (unat pnum)"
  proof (cases ?b)
    case None
    then show ?thesis using lookup_result [OF s(2,3), of pnum] pages by simp
  next
    case (Some i)
    then have "i < nvalid s" "NaClVmmapContainCmpEntries pnum (vmentry s ! i) = 0"
      by (auto dest: bsearch_by_Some)
    then have "covers (vmentry s ! i) (unat pnum)" using ents ContainCmp_iff(2) by auto
    then show ?thesis using lookup_result [OF s(2,3), of pnum] pages Some by simp
  qed
  show ?thesis
  proof (rule that [of s "case ?b of None \<Rightarrow> nvalid s | Some ix \<Rightarrow> ix"])
    show "NaClVmmapFindPageIter self pnum = Inr (s, case ?b of None \<Rightarrow> nvalid s | Some ix \<Rightarrow> ix)"
      using s(1) by (simp add: NaClVmmapFindPageIter_def)
    show "found self s" using s(2,5) pages by (simp add: found_def)
    show "if page_at self (unat pnum) = None then (case ?b of None \<Rightarrow> nvalid s | Some ix \<Rightarrow> ix) = nvalid s
      else (case ?b of None \<Rightarrow> nvalid s | Some ix \<Rightarrow> ix) < nvalid s \<and>
        covers (vmentry s ! (case ?b of None \<Rightarrow> nvalid s | Some ix \<Rightarrow> ix)) (unat pnum)"
      using res by (auto split: if_splits)
  qed (rule s(3,4))+
qed

subsection \<open>The loop over the entries\<close>

text \<open>The code aborts when the host does not change a protection.\<close>

definition mprotect_refused :: "os \<Rightarrow> bool" where
  "mprotect_refused os \<longleftrightarrow> (\<exists>lg a l p. os lg (HostMprotect a l p) \<noteq> 0)"

text \<open>How much of an entry, from its start, the host is asked to protect: all of it when the entry is
  anonymous, otherwise the pages that hold some of the file.\<close>

definition host_len :: "NaClVmmapEntry \<Rightarrow> u64 option" where
  "host_len e =
     (if desc e = None then Some (push_bit 12 (npages e))
      else if offset e <s file_size e
        then Some (size_min (NaClRoundPage (file_size e - offset e)) (push_bit 12 (npages e)))
      else None)"

text \<open>A page holds some of the file when its own offset is below the file size.\<close>

lemma host_len_page:
  assumes "ent_ok e" and "covers e p" and "desc e \<noteq> None" and "unat (file_size e) < 2 ^ 63"
    and "unat (pv_offset (view e p)) < 2 ^ 63"
  shows "unat (pv_offset (view e p)) < unat (file_size e) \<Longrightarrow>
      \<exists>l. host_len e = Some l \<and> (p - unat (page_num e)) * 4096 + 4096 \<le> unat l"
    and "unat (file_size e) \<le> unat (pv_offset (view e p)) \<Longrightarrow> host_len e = Some l \<Longrightarrow>
      unat l \<le> (p - unat (page_num e)) * 4096"
proof -
  define k where "k = (p - unat (page_num e)) * 4096"
  define o' where "o' = pv_offset (view e p)"
  let ?f = "file_size e" and ?len = "push_bit 12 (npages e)"
  note b = ent_ok_bounds [OF assms(1)]
  have p: "unat (page_num e) \<le> p" "p < unat (page_num e) + unat (npages e)" using assms(2) by (simp_all add: covers_def)
  have bnd: "unat (page_num e) + unat (npages e) \<le> 2 ^ 31" using b(3) by (simp add: stop_of_def max_pages_def)
  have "p - unat (page_num e) \<le> 2 ^ 31" using p bnd by linarith
  then have "k \<le> 2 ^ 31 * 4096" unfolding k_def by (rule mult_le_mono1)
  then have k63: "k < 2 ^ 63" by simp
  have "of_nat p - page_num e = of_nat (p - unat (page_num e))" using p(1) by (simp add: of_nat_diff)
  then have "push_bit 12 (of_nat p - page_num e) = (of_nat k :: u64)"
    by (simp add: push_bit_eq_mult k_def)
  then have off: "offset e = o' - of_nat k" by (simp add: o'_def view_def)
  have len: "unat ?len = unat (npages e) * 4096"
    using bnd by (simp add: push_bit_eq_mult unat_word_ariths)
  have sf: "sint ?f = int (unat ?f)" using assms(4) by (simp add: sint_cases)
  have less: "offset e <s ?f \<longleftrightarrow> unat o' < unat ?f + k"
  proof (cases "k \<le> unat o'")
    case True
    then have "unat (offset e) = unat o' - k" "unat o' - k < 2 ^ 63"
      using diff_of_nat(1) [OF k63] assms(5) off by (simp_all add: o'_def)
    then have "sint (offset e) = int (unat o' - k)" by (simp only: sint_cases if_True)
    then have "offset e <s ?f \<longleftrightarrow> unat o' - k < unat ?f" by (simp only: word_sless_alt sf of_nat_less_iff)
    with True show ?thesis by linarith
  next
    case False
    then have "unat (offset e) = 2 ^ 64 + unat o' - k" using diff_of_nat(2) [OF k63] off by simp
    then have "\<not> unat (offset e) < 2 ^ 63" "unat (offset e) < 2 ^ 64" using k63 False by simp_all
    moreover from this(2) have "int (unat (offset e)) < 2 ^ 64" by (metis of_nat_less_iff of_nat_numeral of_nat_power)
    ultimately have "sint (offset e) < 0" by (simp only: sint_cases if_False)
    moreover have "0 \<le> sint ?f" unfolding sf by (rule of_nat_0_le_iff)
    ultimately have "sint (offset e) < sint ?f" by (rule less_le_trans)
    with False show ?thesis unfolding word_sless_alt by simp
  qed
  have size: "unat (?f - offset e) = unat ?f + k - unat o'" if "unat o' < unat ?f + k"
  proof -
    have "?f - offset e = of_nat (unat ?f + k - unat o')"
      using that by (simp add: off of_nat_diff)
    moreover have "unat ?f + k - unat o' < 2 ^ 64" using assms(4) k63 by simp
    ultimately show ?thesis by (simp add: unat_of_nat take_bit_nat_eq_self)
  qed
  have round: "unat (NaClRoundPage (?f - offset e)) = (unat ?f + k - unat o' + 4095) div 4096 * 4096"
    if "unat o' < unat ?f + k"
    using size [OF that] assms(4) k63 p bnd unfolding k_def by (subst round_nat(1)) simp_all
  have kd: "k = (p - unat (page_num e)) * 4096" by (rule k_def)
  show "\<exists>l. host_len e = Some l \<and> (p - unat (page_num e)) * 4096 + 4096 \<le> unat l"
    if "unat (pv_offset (view e p)) < unat ?f"
  proof -
    have lt: "unat o' < unat ?f + k" using that by (simp add: o'_def)
    have "k + 4096 \<le> unat (NaClRoundPage (?f - offset e))"
    proof -
      have "k + 1 \<le> unat ?f + k - unat o'" using that by (simp add: o'_def)
      then have "(k + 1 + 4095) div 4096 * 4096 \<le> (unat ?f + k - unat o' + 4095) div 4096 * 4096"
        by (intro mult_le_mono1 div_le_mono) simp
      moreover have "(k + 1 + 4095) div 4096 * 4096 = k + 4096" by (simp add: kd)
      ultimately show ?thesis unfolding round [OF lt] by (simp only:)
    qed
    moreover have "k + 4096 \<le> unat ?len" unfolding len kd using p by simp
    ultimately have "k + 4096 \<le> unat (size_min (NaClRoundPage (?f - offset e)) ?len)" by (simp add: size_min_def)
    moreover have "host_len e = Some (size_min (NaClRoundPage (?f - offset e)) ?len)"
      using lt less assms(3) by (auto simp: host_len_def)
    ultimately show ?thesis by (simp add: kd)
  qed
  show "unat l \<le> (p - unat (page_num e)) * 4096"
    if "unat ?f \<le> unat (pv_offset (view e p))" "host_len e = Some l"
  proof -
    have lt: "unat o' < unat ?f + k" and l: "l = size_min (NaClRoundPage (?f - offset e)) ?len"
      using that(2) assms(3) less by (auto simp: host_len_def split: if_splits)
    have "unat ?f + k - unat o' \<le> k" using that(1) by (simp add: o'_def)
    then have "(unat ?f + k - unat o' + 4095) div 4096 * 4096 \<le> (k + 4095) div 4096 * 4096"
      by (intro mult_le_mono1 div_le_mono) simp
    also have "\<dots> = k" by (simp add: kd)
    finally have "unat (NaClRoundPage (?f - offset e)) \<le> k" unfolding round [OF lt] .
    then show ?thesis by (simp add: l size_min_def kd word_less_nat_alt split: if_splits)
  qed
qed

text \<open>The host is asked to protect exactly these parts.\<close>

definition protects :: "u64 \<Rightarrow> u32 \<Rightarrow> NaClVmmapEntry list \<Rightarrow> host_call list \<Rightarrow> bool" where
  "protects base hp es calls \<longleftrightarrow>
     (\<forall>c. c \<in> set calls \<longleftrightarrow> (\<exists>e \<in> set es. \<exists>l. host_len e = Some l \<and>
        c = HostMprotect (base + push_bit 12 (page_num e)) l hp))"

lemma protects_Nil: "protects base hp [] []"
  by (simp add: protects_def)

lemma protects_Cons:
  "protects base hp [e] a \<Longrightarrow> protects base hp es b \<Longrightarrow> protects base hp (e # es) (a @ b)"
  unfolding protects_def by simp

lemma host_len_le: "host_len e = Some l \<Longrightarrow> l \<le> push_bit 12 (npages e)"
  by (auto simp: host_len_def size_min_def split: if_splits)

lemma unat_page_addr:
  assumes "p * 4096 < 2 ^ 32" and "unat (x :: u64) = p"
  shows "unat (push_bit 12 x) = p * 4096"
proof -
  have "push_bit 12 x = x * 4096" by (simp add: push_bit_eq_mult)
  moreover have "unat (x * 4096) = unat x * 4096"
    using assms by (simp add: unat_word_ariths)
  ultimately show ?thesis using assms(2) by simp
qed

lemma mprotect_entry_result:
  assumes "space_ok nap" and "0 < unat (page_num e)" and "unat (page_num e) * 4096 < 2 ^ addr_bits nap"
  shows "run_unless (mprotect_refused os) (mprotect_entry os nap hp e) (\<lambda>nap'. \<exists>calls. nap' = nap\<lparr> host_log := host_log nap @ calls \<rparr> \<and>
    protects (mem_start nap) hp [e] calls)"
proof -
  have "unat (page_num e) * 4096 < 2 ^ 32" using assms(3) unat_addr_limit(2) [OF assms(1)] by linarith
  then have "unat (push_bit 12 (page_num e)) = unat (page_num e) * 4096" by (rule unat_page_addr) simp
  then have sys: "NaClUserToSys nap (push_bit 12 (page_num e)) = Inr (mem_start nap + push_bit 12 (page_num e))"
    using assms by (simp add: UserToSys_iff user_addr_def)
  show ?thesis
  proof (cases "desc e = None")
    case True
    then show ?thesis
      by (auto simp: mprotect_entry_def sys Let_def host_def protects_def host_len_def mprotect_refused_def)
  next
    case backed: False
    show ?thesis
    proof (cases "offset e <s file_size e")
      case True
      let ?call = "HostMprotect (mem_start nap + push_bit 12 (page_num e))
        (size_min (NaClRoundPage (file_size e - offset e)) (push_bit 12 (npages e))) hp"
      have "protects (mem_start nap) hp [e] [?call]"
        using backed True by (auto simp: protects_def host_len_def)
      moreover have "mprotect_entry os nap hp e = (if os (host_log nap) ?call \<noteq> 0 then Inl LogFatal
          else Inr (nap\<lparr> host_log := host_log nap @ [?call] \<rparr>))"
        using True backed by (auto simp: mprotect_entry_def sys Let_def host_def)
      ultimately show ?thesis by (auto simp: mprotect_refused_def)
    next
      case False
      with backed have run: "mprotect_entry os nap hp e = Inr nap" by (auto simp: mprotect_entry_def sys Let_def)
      have "nap = nap\<lparr> host_log := host_log nap @ [] \<rparr>" by simp
      moreover have "protects (mem_start nap) hp [e] []" using backed False by (auto simp: protects_def host_len_def)
      ultimately show ?thesis unfolding run run_unless_simps by blast
    qed
  qed
qed

definition before_page :: "u64 \<Rightarrow> NaClVmmapEntry list \<Rightarrow> NaClVmmapEntry list" where
  "before_page q es = takeWhile (\<lambda>e. page_num e < q) es"

lemma mprotect_loop_result:
  fixes nap :: "'a NaClApp_scheme"
  assumes "space_ok nap" and "\<forall>e \<in> set (before_page q es). 0 < unat (page_num e) \<and>
    unat (page_num e) * 4096 < 2 ^ addr_bits nap"
  shows "run_unless (mprotect_refused os) (mprotect_loop os q hp es nap entry) (\<lambda>(nap', entry').
    (\<exists>calls. nap' = nap\<lparr> host_log := host_log nap @ calls \<rparr> \<and> protects (mem_start nap) hp (before_page q es) calls) \<and>
    entry' = last (entry # before_page q es))"
  using assms
proof (induction es arbitrary: nap entry)
  case Nil
  have "nap = nap\<lparr> host_log := host_log nap @ [] \<rparr>" by simp
  with protects_Nil show ?case unfolding before_page_def takeWhile.simps mprotect_loop.simps
    by (simp only: run_unless_simps split_conv last.simps simp_thms if_True) blast
next
  case (Cons e es)
  show ?case
  proof (cases "page_num e < q")
    case False
    then have bp: "before_page q (e # es) = []" by (simp add: before_page_def)
    have run: "mprotect_loop os q hp (e # es) nap entry = Inr (nap, entry)" using False by simp
    have "nap = nap\<lparr> host_log := host_log nap @ [] \<rparr>" by simp
    with protects_Nil show ?thesis unfolding bp run
      by (simp only: run_unless_simps split_conv last.simps simp_thms if_True) blast
  next
    case True
    then have bp: "before_page q (e # es) = e # before_page q es" by (simp add: before_page_def)
    have run: "mprotect_loop os q hp (e # es) nap entry =
        andThen (mprotect_entry os nap hp e) (\<lambda>nap. mprotect_loop os q hp es nap e)"
      using True by simp
    have one: "run_unless (mprotect_refused os) (mprotect_entry os nap hp e) (\<lambda>nap'. \<exists>calls. nap' = nap\<lparr> host_log := host_log nap @ calls \<rparr> \<and>
        protects (mem_start nap) hp [e] calls)"
      using Cons.prems unfolding bp by (intro mprotect_entry_result) simp_all
    show ?thesis
      unfolding run bp
    proof (rule run_unless_bind [OF one])
      fix n1 :: "'a NaClApp_scheme"
      assume "\<exists>calls. n1 = nap\<lparr> host_log := host_log nap @ calls \<rparr> \<and> protects (mem_start nap) hp [e] calls"
      then obtain a where a: "n1 = nap\<lparr> host_log := host_log nap @ a \<rparr>" "protects (mem_start nap) hp [e] a" by blast
      have "space_ok n1" "\<forall>e \<in> set (before_page q es). 0 < unat (page_num e) \<and>
          unat (page_num e) * 4096 < 2 ^ addr_bits n1"
        using Cons.prems unfolding bp a(1) by (simp_all add: space_ok_def)
      note IH = Cons.IH [OF this, of e]
      show "run_unless (mprotect_refused os) (mprotect_loop os q hp es n1 e) (\<lambda>(nap', entry').
          (\<exists>calls. nap' = nap\<lparr> host_log := host_log nap @ calls \<rparr> \<and>
             protects (mem_start nap) hp (e # before_page q es) calls) \<and>
          entry' = last (entry # e # before_page q es))"
      proof (rule run_unless_weaken [OF IH])
        show "mprotect_refused os \<Longrightarrow> mprotect_refused os" .
      next
        fix x :: "'a NaClApp_scheme \<times> NaClVmmapEntry"
        assume "case x of (nap', entry') \<Rightarrow>
          (\<exists>calls. nap' = n1\<lparr> host_log := host_log n1 @ calls \<rparr> \<and> protects (mem_start n1) hp (before_page q es) calls) \<and>
          entry' = last (e # before_page q es)"
        then obtain nap' b where x: "x = (nap', last (e # before_page q es))"
          "nap' = n1\<lparr> host_log := host_log n1 @ b \<rparr>" "protects (mem_start n1) hp (before_page q es) b" by auto
        have "protects (mem_start nap) hp (e # before_page q es) (a @ b)"
          using protects_Cons [OF a(2), of "before_page q es" b] x(3) by (simp add: a(1))
        moreover have "nap' = nap\<lparr> host_log := host_log nap @ (a @ b) \<rparr>" by (simp add: x(2) a(1))
        ultimately show "case x of (nap', entry') \<Rightarrow>
          (\<exists>calls. nap' = nap\<lparr> host_log := host_log nap @ calls \<rparr> \<and>
             protects (mem_start nap) hp (e # before_page q es) calls) \<and>
          entry' = last (entry # e # before_page q es)"
          by (simp add: x(1)) blast
      qed
    qed
  qed
qed

subsection \<open>Whole entries\<close>

lemma before_page_memI:
  assumes "chained es" and "\<forall>e \<in> set es. ent_ok e" and "e \<in> set es" and "page_num e < q"
  shows "e \<in> set (before_page q es)"
  using assms
proof (induction es)
  case (Cons a es)
  show ?case
  proof (cases "e = a")
    case True
    with Cons.prems(4) show ?thesis by (simp add: before_page_def)
  next
    case False
    with Cons.prems(3) have e: "e \<in> set es" by simp
    have "unat (page_num a) < stop_of a" using Cons.prems(2) by (intro ent_ok_bounds) simp
    also have "stop_of a \<le> unat (page_num e)" using Cons.prems(1) e by (simp add: chained_def)
    also have "\<dots> < unat q" using Cons.prems(4) by (simp add: word_less_nat_alt)
    finally have "page_num a < q" by (simp add: word_less_nat_alt)
    moreover have "e \<in> set (before_page q es)"
      using Cons.IH [OF _ _ e Cons.prems(4)] Cons.prems(1,2) by (simp add: chained_def)
    ultimately show ?thesis by (simp add: before_page_def)
  qed
qed simp

text \<open>When entries end at page \<open>q\<close> and one covers the page before it, that is the last one before \<open>q\<close>.\<close>

lemma last_before_page:
  assumes "chained es" and "\<forall>e \<in> set es. ent_ok e \<and> (stop_of e \<le> unat q \<or> unat q \<le> unat (page_num e))"
    and "e \<in> set es" and "covers e (unat q - 1)" and "0 < unat q"
  shows "stop_of (last (x # before_page q es)) = unat q"
proof -
  let ?P = "before_page q es"
  have e: "unat (page_num e) < unat q" "stop_of e = unat q"
    using assms(2-5) by (fastforce simp: covers_iff)+
  have mem: "e \<in> set ?P"
    using assms(1-3) e(1) by (intro before_page_memI) (auto simp: word_less_nat_alt)
  then have ne: "?P \<noteq> []" by auto
  let ?l = "last ?P"
  have l: "?l \<in> set es" "page_num ?l < q"
  proof -
    have "?l \<in> set ?P" using ne by simp
    then show "?l \<in> set es" "page_num ?l < q" by (auto simp: before_page_def dest: set_takeWhileD)
  qed
  have ch: "chained ?P"
    using assms(1) unfolding chained_def before_page_def
    by (metis sorted_wrt_append takeWhile_dropWhile_id)
  have "e = ?l"
  proof (rule ccontr)
    assume ne': "e \<noteq> ?l"
    have P: "?P = butlast ?P @ [?l]" using ne by simp
    with mem ne' have "e \<in> set (butlast ?P)" by (metis Un_iff empty_iff list.set(1) set_ConsD set_append list.simps(15) insert_iff)
    with ch P have "stop_of e \<le> unat (page_num ?l)" unfolding chained_def
      by (metis list.set_intros(1) sorted_wrt_append)
    with e(2) l(2) show False by (simp add: word_less_nat_alt)
  qed
  with ne e(2) show ?thesis by simp
qed

lemma MprotectInternal_result:
  fixes nap :: "'a NaClApp_scheme"
  assumes "mem_inv nap" and "4096 dvd unat start" and "4096 dvd unat len" and "len \<noteq> 0"
    and "0 < unat start" and "unat start + unat len \<le> 2 ^ addr_bits nap"
    and "\<forall>p. in_bytes start len p \<longrightarrow> page_at (mem_map nap) p \<noteq> None"
    and "\<forall>e \<in> set (vmentry (mem_map nap)).
      aligned_to (unat start div 4096) (unat start div 4096 + unat len div 4096) e"
  shows "run_unless (mprotect_refused os) (MprotectInternal os nap (mem_start nap + start) len pr) (\<lambda>(nap', r).
    r = 0 \<and> found (mem_map nap) (mem_map nap') \<and> mset (vmentry (mem_map nap')) = mset (vmentry (mem_map nap)) \<and>
    (\<exists>calls es. nap' = nap\<lparr> mem_map := mem_map nap', host_log := host_log nap @ calls \<rparr> \<and>
       set es = {e \<in> set (vmentry (mem_map nap)). unat start div 4096 \<le> unat (page_num e) \<and>
         stop_of e \<le> unat start div 4096 + unat len div 4096} \<and>
       protects (mem_start nap) (NaClProtMap pr) es calls))"
proof -
  note inv = mem_invD [OF assms(1)]
  let ?a = "unat start div 4096" and ?b = "unat start div 4096 + unat len div 4096"
  let ?q = "drop_bit 12 (start + len)" and ?pn = "drop_bit 12 start"
  have lim: "(2 :: nat) ^ addr_bits nap \<le> 2 ^ 32" by (rule unat_addr_limit(2) [OF inv(1)])
  then have sum: "unat (start + len) = unat start + unat len" using assms(6) by (intro unat_add_small) simp
  have q: "unat ?q = ?b"
    using sum assms(2,3) by (simp add: unat_pages)
  have pn: "unat ?pn = ?a" by (rule unat_pages)
  have len: "0 < unat len div 4096"
    using assms(3,4) unat_eq_0 [of len] by (auto elim!: dvdE)
  have page_bytes: "in_bytes start len p \<longleftrightarrow> ?a \<le> p \<and> p < ?b" for p
    using assms(2,3) by (auto simp: in_bytes_def elim!: dvdE)
  have "0 < unat len" using assms(4) by (simp add: unat_gt_0)
  then have below: "unat start < 2 ^ addr_bits nap" using assms(6) by linarith
  then have "user_addr nap (unat start)" by (simp add: user_addr_def)
  note sys = SysToUser_UserToSys [OF inv(1) this]
  from inv(2) obtain s i where s: "NaClVmmapFindPageIter (mem_map nap) ?pn = Inr (s, i)" "found (mem_map nap) s"
    "chained (vmentry s)" "mset (vmentry s) = mset (vmentry (mem_map nap))"
    "if page_at (mem_map nap) (unat ?pn) = None then i = nvalid s
      else i < nvalid s \<and> covers (vmentry s ! i) (unat ?pn)"
    by (rule FindPageIter_result)
  have set_s: "set (vmentry s) = set (vmentry (mem_map nap))" by (rule mset_eq_setD [OF s(4)])
  have ents: "\<forall>e \<in> set (vmentry s). ent_ok e" using s(2) by (simp add: found_def vm_ok_def)
  have al: "\<forall>e \<in> set (vmentry s). aligned_to ?a ?b e" using assms(8) set_s by simp
  have "page_at (mem_map nap) ?a \<noteq> None" using assms(7) page_bytes len by simp
  with s(5) pn have i: "i < nvalid s" "covers (vmentry s ! i) ?a" by auto
  let ?e = "vmentry s ! i" and ?es = "drop i (vmentry s)"
  have e: "?e \<in> set (vmentry s)" using i(1) by simp
  have e_pn: "unat (page_num ?e) = ?a"
    using bspec [OF al e] i(2) by (auto simp: aligned_to_def covers_iff)
  have "unat start < 2 ^ 32" using below lim by linarith
  have start_eq: "start = push_bit 12 (page_num ?e)"
  proof (rule word_eq_unatI)
    have "?a * 4096 = unat start" using assms(2) by simp
    moreover from this \<open>unat start < 2 ^ 32\<close> have "unat (push_bit 12 (page_num ?e)) = ?a * 4096"
      by (intro unat_page_addr e_pn) simp
    ultimately show "unat start = unat (push_bit 12 (page_num ?e))" by simp
  qed
  have later: "?a \<le> unat (page_num x)" if x: "x \<in> set ?es" for x
  proof -
    obtain k where k: "k < length ?es" "x = ?es ! k" using x unfolding in_set_conv_nth by blast
    then have "i \<le> i + k" "i + k < nvalid s" "x = vmentry s ! (i + k)" by simp_all
    then obtain j where j: "i \<le> j" "j < nvalid s" "x = vmentry s ! j" by blast
    show ?thesis
    proof (cases "i = j")
      case False
      with j have "stop_of ?e \<le> unat (page_num x)" using chained_nth [OF s(3), of i j] by simp
      with ent_ok_bounds(2) [of ?e] ents e e_pn show ?thesis by fastforce
    qed (use j e_pn in simp)
  qed
  have in_es: "x \<in> set ?es" if x: "x \<in> set (vmentry s)" "?a \<le> unat (page_num x)" for x
  proof -
    obtain j where j: "j < nvalid s" "x = vmentry s ! j" using x(1) by (auto simp: in_set_conv_nth)
    have "i \<le> j"
    proof (rule ccontr)
      assume "\<not> i \<le> j"
      then have "stop_of x \<le> unat (page_num ?e)" using chained_nth [OF s(3), of j i] j i(1) by simp
      with ent_ok_bounds(2) [of x] ents x e_pn show False by fastforce
    qed
    with j have "x = ?es ! (j - i)" "j - i < length ?es" by simp_all
    then show ?thesis by (metis nth_mem)
  qed
  have ch: "chained ?es" using s(3) unfolding chained_def
    by (metis append_take_drop_id sorted_wrt_append)
  have es_ok: "\<forall>x \<in> set ?es. ent_ok x \<and> (stop_of x \<le> unat ?q \<or> unat ?q \<le> unat (page_num x))"
    using ents al set_drop_subset [of i "vmentry s"] unfolding q aligned_to_def by blast
  have bp: "set (before_page ?q ?es) = {e \<in> set (vmentry (mem_map nap)). ?a \<le> unat (page_num e) \<and> stop_of e \<le> ?b}"
  proof (intro set_eqI iffI)
    fix x assume "x \<in> set (before_page ?q ?es)"
    then have x: "x \<in> set ?es" "page_num x < ?q" by (auto simp: before_page_def dest: set_takeWhileD)
    then have "stop_of x \<le> ?b" using es_ok q by (fastforce simp: word_less_nat_alt)
    with x(1) later [OF x(1)] show "x \<in> {e \<in> set (vmentry (mem_map nap)). ?a \<le> unat (page_num e) \<and> stop_of e \<le> ?b}"
      using set_s in_set_dropD [of x i "vmentry s"] by blast
  next
    fix x assume "x \<in> {e \<in> set (vmentry (mem_map nap)). ?a \<le> unat (page_num e) \<and> stop_of e \<le> ?b}"
    then have x: "x \<in> set (vmentry s)" "?a \<le> unat (page_num x)" "stop_of x \<le> ?b" using set_s by auto
    have "ent_ok x" using ents x(1) by blast
    note ent_ok_bounds(2) [OF this]
    then have "page_num x < ?q" using x(3) q by (simp add: word_less_nat_alt)
    then show "x \<in> set (before_page ?q ?es)"
      using es_ok by (intro before_page_memI [OF ch _ in_es [OF x(1,2)]]) blast+
  qed
  have small: "\<forall>x \<in> set (before_page ?q ?es). 0 < unat (page_num x) \<and> unat (page_num x) * 4096 < 2 ^ addr_bits nap"
  proof
    fix x assume "x \<in> set (before_page ?q ?es)"
    then have x: "?a \<le> unat (page_num x)" "stop_of x \<le> ?b" "ent_ok x" using bp ents set_s by auto
    have "?a * 4096 = unat start" "?b * 4096 = unat start + unat len" using assms(2,3) by (auto elim!: dvdE)
    with x(1,2) ent_ok_bounds(2) [OF x(3)] assms(5,6)
    show "0 < unat (page_num x) \<and> unat (page_num x) * 4096 < 2 ^ addr_bits nap" by linarith
  qed
  obtain v where "page_at (mem_map nap) (?b - 1) = Some v" using assms(7) page_bytes len by fastforce
  then obtain z where z: "z \<in> set (vmentry s)" "covers z (?b - 1)"
    using page_at_iff [OF inv(2)] set_s by blast
  have "z \<in> set ?es"
  proof (rule in_es [OF z(1)])
    show "?a \<le> unat (page_num z)" using bspec [OF al z(1)] z(2) len by (auto simp: aligned_to_def covers_iff)
  qed
  from last_before_page [OF ch es_ok this, of ?e] z(2) q len
  have last: "stop_of (last (?e # before_page ?q ?es)) = ?b" by simp
  have "last (?e # before_page ?q ?es) \<in> set (vmentry s)"
    using e in_set_dropD [of _ i "vmentry s"]
    by (auto simp: before_page_def dest!: set_takeWhileD last_in_set)
  then have "ent_ok (last (?e # before_page ?q ?es))" using ents by blast
  from ent_ok_bounds(1) [OF this] last q have fin: "end_page (last (?e # before_page ?q ?es)) = ?q"
    by (intro word_eq_unatI) simp
  let ?n1 = "nap\<lparr> mem_map := s \<rparr>"
  have n1: "space_ok ?n1" "mem_start ?n1 = mem_start nap" "addr_bits ?n1 = addr_bits nap"
    using inv(1) by (simp_all add: space_ok_def)
  have run: "MprotectInternal os nap (mem_start nap + start) len pr =
      andThen (mprotect_loop os ?q (NaClProtMap pr) ?es ?n1 ?e) (\<lambda>(nap, entry).
        andThen (check (page_num entry + npages entry = ?q)) (\<lambda>_. Inr (nap, 0)))"
    using sys s(1) i(1) start_eq by (simp add: MprotectInternal_def Let_def NaClVmmapIterStar_def)
  show ?thesis
    unfolding run
  proof (rule run_unless_bind [OF mprotect_loop_result [OF n1(1) small [folded n1(3)]]])
    fix x :: "'a NaClApp_scheme \<times> NaClVmmapEntry"
    assume "case x of (nap', entry') \<Rightarrow>
      (\<exists>calls. nap' = ?n1\<lparr> host_log := host_log ?n1 @ calls \<rparr> \<and>
         protects (mem_start ?n1) (NaClProtMap pr) (before_page ?q ?es) calls) \<and>
      entry' = last (?e # before_page ?q ?es)"
    then obtain n2 calls where x: "x = (n2, last (?e # before_page ?q ?es))"
      "n2 = ?n1\<lparr> host_log := host_log ?n1 @ calls \<rparr>"
      "protects (mem_start nap) (NaClProtMap pr) (before_page ?q ?es) calls" by auto
    show "run_unless (mprotect_refused os) (case x of (nap, entry) \<Rightarrow>
        andThen (check (page_num entry + npages entry = ?q)) (\<lambda>_. Inr (nap, 0))) (\<lambda>(nap', r).
      r = 0 \<and> found (mem_map nap) (mem_map nap') \<and> mset (vmentry (mem_map nap')) = mset (vmentry (mem_map nap)) \<and>
      (\<exists>calls es. nap' = nap\<lparr> mem_map := mem_map nap', host_log := host_log nap @ calls \<rparr> \<and>
         set es = {e \<in> set (vmentry (mem_map nap)). ?a \<le> unat (page_num e) \<and> stop_of e \<le> ?b} \<and>
         protects (mem_start nap) (NaClProtMap pr) es calls))"
      unfolding x(1) split_conv fin using s(2,4) x(2,3) bp by auto
  qed
qed

subsection \<open>The system call\<close>

text \<open>What a successful \<open>mprotect\<close> asks of the host: only parts of the range, with the protection
  of the call; all of every anonymous page and of every page that holds some of its file,
  by the recorded file offset and size; and nothing of a file-backed page past the end of its file.\<close>

definition host_protected :: "'a NaClApp_scheme \<Rightarrow> u64 \<Rightarrow> u64 \<Rightarrow> u32 \<Rightarrow> 'a NaClApp_scheme \<Rightarrow> bool" where
  "host_protected nap start len pr nap' \<longleftrightarrow>
     (\<exists>calls. host_log nap' = host_log nap @ calls \<and>
        (\<forall>c \<in> set calls. \<exists>a l. c = HostMprotect a l (NaClProtMap pr) \<and>
           unat (mem_start nap) + unat start \<le> unat a \<and>
           unat a + unat l \<le> unat (mem_start nap) + unat start + unat len) \<and>
        (\<forall>p v. in_bytes start len p \<and> page_at (mem_map nap') p = Some v \<and>
           (pv_desc v = None \<or> unat (pv_offset v) < unat (pv_file_size v) \<and> unat (pv_file_size v) < 2 ^ 63) \<longrightarrow>
           (\<exists>a l. HostMprotect a l (NaClProtMap pr) \<in> set calls \<and>
              unat a \<le> unat (mem_start nap) + p * 4096 \<and>
              unat (mem_start nap) + p * 4096 + 4096 \<le> unat a + unat l)) \<and>
        (\<forall>p v. in_bytes start len p \<and> page_at (mem_map nap') p = Some v \<and> pv_desc v \<noteq> None \<and>
           unat (pv_file_size v) \<le> unat (pv_offset v) \<and> unat (pv_offset v) < 2 ^ 63 \<longrightarrow>
           (\<forall>a l. HostMprotect a l (NaClProtMap pr) \<in> set calls \<longrightarrow>
              \<not> (unat a < unat (mem_start nap) + p * 4096 + 4096 \<and> unat (mem_start nap) + p * 4096 < unat a + unat l))))"

lemma protects_host:
  assumes "space_ok nap" and "4096 dvd unat start" and "4096 dvd unat len"
    and "unat start + unat len \<le> 2 ^ addr_bits nap" and "vm_ok m"
    and "set es = {e \<in> set (vmentry m). unat start div 4096 \<le> unat (page_num e) \<and>
         stop_of e \<le> unat start div 4096 + unat len div 4096}"
    and "protects (mem_start nap) (NaClProtMap pr) es calls" and "host_log nap' = host_log nap @ calls"
    and "\<forall>e \<in> set (vmentry m). aligned_to (unat start div 4096) (unat start div 4096 + unat len div 4096) e"
    and "page_at (mem_map nap') = page_at m"
  shows "host_protected nap start len pr nap'"
  unfolding host_protected_def
proof (intro exI [of _ calls] conjI ballI allI impI)
  let ?a = "unat start div 4096" and ?b = "unat start div 4096 + unat len div 4096"
  have ab: "?a * 4096 = unat start" "?b * 4096 = unat start + unat len" using assms(2,3) by (auto elim!: dvdE)
  have ents: "\<forall>e \<in> set (vmentry m). ent_ok e" using assms(5) by (simp add: vm_ok_def)
  have lim: "(2 :: nat) ^ addr_bits nap \<le> 2 ^ 32" by (rule unat_addr_limit(2) [OF assms(1)])
  have room: "unat (mem_start nap) + 2 ^ addr_bits nap < 2 ^ 64" using assms(1) by (simp add: space_ok_def)
  have addr: "unat (mem_start nap + push_bit 12 (page_num e)) = unat (mem_start nap) + unat (page_num e) * 4096 \<and>
      unat (push_bit 12 (npages e)) = unat (npages e) * 4096" if e: "e \<in> set es" for e
  proof -
    have e: "?a \<le> unat (page_num e)" "stop_of e \<le> ?b" "ent_ok e" using that assms(6) ents by auto
    note st = e(2) [unfolded stop_of_def]
    have "?b * 4096 \<le> 2 ^ 32" unfolding ab using assms(4) lim by linarith
    then have top: "?b \<le> 1048576" by simp
    have "0 < unat (npages e)" using e(3) by (simp add: ent_ok_def unat_gt_0)
    then have pp: "unat (page_num e) * 4096 < 2 ^ addr_bits nap" using st ab(2) assms(4) by linarith
    then have p: "unat (push_bit 12 (page_num e)) = unat (page_num e) * 4096"
      using lim by (intro unat_page_addr) simp_all
    have "unat (npages e) \<le> 1048576" using st top by linarith
    then have n: "unat (push_bit 12 (npages e)) = unat (npages e) * 4096"
      by (simp add: push_bit_eq_mult unat_word_ariths)
    have "unat (mem_start nap + push_bit 12 (page_num e)) = unat (mem_start nap) + unat (push_bit 12 (page_num e))"
      using room pp p by (intro unat_add_small) simp
    with p n show ?thesis by simp
  qed
  show "host_log nap' = host_log nap @ calls" by (rule assms(8))
  show "\<exists>a l. c = HostMprotect a l (NaClProtMap pr) \<and> unat (mem_start nap) + unat start \<le> unat a \<and>
      unat a + unat l \<le> unat (mem_start nap) + unat start + unat len" if "c \<in> set calls" for c
  proof -
    from that assms(7) obtain e l where e: "e \<in> set es"
      "c = HostMprotect (mem_start nap + push_bit 12 (page_num e)) l (NaClProtMap pr)" "l \<le> push_bit 12 (npages e)"
      unfolding protects_def using host_len_le by blast
    have r: "?a \<le> unat (page_num e)" "unat (page_num e) + unat (npages e) \<le> ?b"
      using e(1) assms(6) by (auto simp: stop_of_def)
    have "unat l \<le> unat (npages e) * 4096" using e(3) addr [OF e(1)] by (simp add: word_le_nat_alt)
    then have "unat (mem_start nap) + unat start \<le> unat (mem_start nap + push_bit 12 (page_num e))"
      "unat (mem_start nap + push_bit 12 (page_num e)) + unat l \<le> unat (mem_start nap) + unat start + unat len"
      using addr [OF e(1)] r ab by linarith+
    with e(2) show ?thesis by blast
  qed
  have inside: "e \<in> set es" if "e \<in> set (vmentry m)" "covers e p" "in_bytes start len p" for e p
  proof -
    have "unat start \<le> p * 4096" "p * 4096 < ?b * 4096" using that(3) unfolding ab in_bytes_def by simp_all
    then have "?a \<le> p" "p < ?b" using ab(1) by (linarith, simp only: mult_less_cancel2)
    then show ?thesis using that(1,2) bspec [OF assms(9) that(1)] by (auto simp: assms(6) aligned_to_def covers_iff)
  qed
  show "\<exists>a l. HostMprotect a l (NaClProtMap pr) \<in> set calls \<and> unat a \<le> unat (mem_start nap) + p * 4096 \<and>
      unat (mem_start nap) + p * 4096 + 4096 \<le> unat a + unat l"
    if p: "in_bytes start len p \<and> page_at (mem_map nap') p = Some v \<and>
      (pv_desc v = None \<or> unat (pv_offset v) < unat (pv_file_size v) \<and> unat (pv_file_size v) < 2 ^ 63)" for p v
  proof -
    from p obtain e where e: "e \<in> set (vmentry m)" "covers e p" "v = view e p"
      using page_at_iff [OF assms(5)] unfolding assms(10) by blast
    have es: "e \<in> set es" using inside e(1,2) p by blast
    note ad = addr [OF es]
    have c: "unat (page_num e) \<le> p" "p < unat (page_num e) + unat (npages e)" using e(2) by (simp_all add: covers_def)
    have "\<exists>l. host_len e = Some l \<and> (p - unat (page_num e)) * 4096 + 4096 \<le> unat l"
    proof (cases "desc e = None")
      case True
      have "(p - unat (page_num e)) * 4096 + 4096 \<le> unat (npages e) * 4096" using c by simp
      with True ad show ?thesis by (simp add: host_len_def)
    next
      case False
      have f: "pv_desc v = desc e" "pv_file_size v = file_size e" by (simp_all add: e(3) view_def)
      have "unat (pv_offset v) < unat (file_size e)" "unat (file_size e) < 2 ^ 63"
        using p False unfolding f by blast+
      with host_len_page(1) [OF _ e(2) False] ents e(1) show ?thesis by (simp add: e(3))
    qed
    then obtain l where l: "host_len e = Some l" "(p - unat (page_num e)) * 4096 + 4096 \<le> unat l" by blast
    have "HostMprotect (mem_start nap + push_bit 12 (page_num e)) l (NaClProtMap pr) \<in> set calls"
      using assms(7) es l(1) by (auto simp: protects_def)
    moreover have "unat (mem_start nap + push_bit 12 (page_num e)) \<le> unat (mem_start nap) + p * 4096"
      "unat (mem_start nap) + p * 4096 + 4096 \<le> unat (mem_start nap + push_bit 12 (page_num e)) + unat l"
      using ad l(2) c(1) by (linarith, simp add: diff_mult_distrib)
    ultimately show ?thesis by blast
  qed
  show "\<not> (unat a < unat (mem_start nap) + p * 4096 + 4096 \<and> unat (mem_start nap) + p * 4096 < unat a + unat l)"
    if p: "in_bytes start len p \<and> page_at (mem_map nap') p = Some v \<and> pv_desc v \<noteq> None \<and>
        unat (pv_file_size v) \<le> unat (pv_offset v) \<and> unat (pv_offset v) < 2 ^ 63"
      and call: "HostMprotect a l (NaClProtMap pr) \<in> set calls" for p v a l
  proof
    assume touch: "unat a < unat (mem_start nap) + p * 4096 + 4096 \<and> unat (mem_start nap) + p * 4096 < unat a + unat l"
    from call assms(7) obtain e where e: "e \<in> set es" "host_len e = Some l"
      "a = mem_start nap + push_bit 12 (page_num e)"
      unfolding protects_def by blast
    have m: "e \<in> set (vmentry m)" "ent_ok e" using e(1) assms(6) ents by auto
    note ad = addr [OF e(1)]
    have "unat l \<le> unat (npages e) * 4096" using host_len_le [OF e(2)] ad by (simp add: word_le_nat_alt)
    then have "unat (page_num e) * 4096 < (p + 1) * 4096" "p * 4096 < (unat (page_num e) + unat (npages e)) * 4096"
      using touch ad unfolding e(3) by simp_all
    then have c: "unat (page_num e) \<le> p" "p < unat (page_num e) + unat (npages e)"
      unfolding mult_less_cancel2 by simp_all
    then have cov: "covers e p" by (simp add: covers_def)
    then have v: "v = view e p"
      using p page_at_iff [OF assms(5), of p] m(1) unfolding assms(10) by (metis option.inject)
    have "desc e \<noteq> None" "unat (file_size e) \<le> unat (pv_offset (view e p))" "unat (pv_offset (view e p)) < 2 ^ 63"
      using p by (simp_all add: v) (simp_all add: view_def)
    then have "unat l \<le> (p - unat (page_num e)) * 4096"
      using host_len_page(2) [OF m(2) cov _ _ _ _ e(2)] by simp
    with touch ad c(1) show False unfolding e(3) by (simp add: diff_mult_distrib)
  qed
qed

lemma mprotect_accepted:
  assumes "space_ok nap" and "65536 dvd unat (dynamic_text_end nap)" and "unat len < 2 ^ 32" and "len \<noteq> 0"
    and "data_range nap (ucast start) (NaClRoundAllocPage len)"
  shows "NaClUserToSysAddrRange nap (ucast start) (NaClRoundAllocPage len) = mem_start nap + ucast start"
    and "mem_start nap + ucast start \<noteq> kNaClBadAddress"
    and "NaClIsAllocPageMultiple (ucast start)"
    and "\<not> NaClSysCommonAddrRangeContainsExecutablePages nap (ucast start) (NaClRoundAllocPage len)"
    and "NaClSysToUser nap (mem_start nap + ucast start) = Inr (ucast start)"
proof -
  let ?s = "ucast start :: u64" and ?len = "NaClRoundAllocPage len"
  note d = assms(5) [unfolded data_range_def]
  have "0 < unat ?len" using round_len(3) [OF assms(3)] assms(4) by (simp add: unat_gt_0)
  then have below: "unat ?s < 2 ^ addr_bits nap" using d by linarith
  show "NaClUserToSysAddrRange nap ?s ?len = mem_start nap + ?s"
    using d by (simp add: UserToSysAddrRange_iff [OF assms(1)] unat_gt_0)
  show "mem_start nap + ?s \<noteq> kNaClBadAddress" by (rule range_not_bad [OF assms(1) below])
  show "NaClIsAllocPageMultiple ?s" using d by (simp only: is_multiple_nat)
  show "\<not> NaClSysCommonAddrRangeContainsExecutablePages nap ?s ?len"
    using d executable_iff [OF assms(2), of ?s ?len] by (simp add: word_less_nat_alt)
  show "NaClSysToUser nap (mem_start nap + ?s) = Inr ?s"
    using below by (intro SysToUser_UserToSys [OF assms(1)]) (simp add: user_addr_def)
qed

lemma mprotect_rejected:
  assumes "space_ok nap" and "65536 dvd unat (dynamic_text_end nap)" and "unat len < 2 ^ 32"
    and "\<not> data_range nap (ucast start) (NaClRoundAllocPage len) \<or> NOT (PROT_READ OR PROT_WRITE) AND pr \<noteq> 0"
  shows "\<exists>r. NaClSysMprotectInternal os ops nap start len pr = Inr (nap, r) \<and> r \<noteq> 0"
proof -
  let ?s = "ucast start :: u64" and ?len = "NaClRoundAllocPage len"
  have e: "neg_errno EINVAL \<noteq> 0" "neg_errno EFAULT \<noteq> 0" "neg_errno EACCES \<noteq> 0" by (simp_all add: neg_errno_def)
  show ?thesis
  proof (cases "NaClIsAllocPageMultiple ?s \<and> NaClUserToSysAddrRange nap ?s ?len \<noteq> kNaClBadAddress \<and>
      NOT (PROT_READ OR PROT_WRITE) AND pr = 0")
    case False
    then show ?thesis using e unfolding NaClSysMprotectInternal_def Let_def by simp blast
  next
    case True
    then have al: "65536 dvd unat ?s" by (simp add: is_multiple_nat)
    have "?s \<noteq> 0 \<and> unat ?s + unat ?len \<le> 2 ^ addr_bits nap"
      using True UserToSysAddrRange_iff [OF assms(1), of ?s ?len] by (auto simp: unat_gt_0 split: if_splits)
    with True assms(4) al round_len(2) [OF assms(3)] have "unat ?s < unat (dynamic_text_end nap)"
      by (auto simp: data_range_def)
    then have "NaClSysCommonAddrRangeContainsExecutablePages nap ?s ?len"
      using executable_iff [OF assms(2) al, of ?len] by (simp add: word_less_nat_alt)
    with True e show ?thesis unfolding NaClSysMprotectInternal_def Let_def by simp
  qed
qed

text \<open>The pages a call may re-protect.\<close>

definition protectable :: "'md DescOps \<Rightarrow> 'a NaClApp_scheme \<Rightarrow> u64 \<Rightarrow> u64 \<Rightarrow> u32 \<Rightarrow> bool" where
  "protectable ops nap start len pr \<longleftrightarrow>
     (\<forall>p. in_bytes start len p \<longrightarrow> (\<exists>v. page_at (mem_map nap) p = Some v \<and> allows (GetFlags ops) pr v))"

definition pages_reprotected :: "'a NaClApp_scheme \<Rightarrow> u64 \<Rightarrow> u64 \<Rightarrow> u32 \<Rightarrow> 'a NaClApp_scheme \<Rightarrow> bool" where
  "pages_reprotected nap start len pr nap' \<longleftrightarrow>
     (\<forall>p. map_option coarse (page_at (mem_map nap') p) =
        (if in_bytes start len p then map_option (\<lambda>v. coarse (v\<lparr> pv_prot := pr \<rparr>)) (page_at (mem_map nap) p)
         else map_option coarse (page_at (mem_map nap) p))) \<and>
     (\<forall>p. \<not> in_bytes start len p \<longrightarrow> page_at (mem_map nap') p = page_at (mem_map nap) p)"

lemma mprotect_result:
  fixes nap :: "'a NaClApp_scheme"
  assumes "mem_inv nap" and "unat len < 2 ^ 32" and "len \<noteq> 0" and "access_modes_ok (GetFlags ops)"
  shows "run_unless (mprotect_refused os \<or> io_pending nap (ucast start) (NaClRoundAllocPage len))
    (NaClSysMprotect os ops nap start len pr)
    (\<lambda>(nap', r). frame nap nap' \<and> mem_inv nap' \<and>
      (r = 0 \<longleftrightarrow> data_range nap (ucast start) (NaClRoundAllocPage len) \<and>
         NOT (PROT_READ OR PROT_WRITE) AND pr = 0 \<and> protectable ops nap (ucast start) (NaClRoundAllocPage len) pr) \<and>
      (r \<noteq> 0 \<longrightarrow> page_at (mem_map nap') = page_at (mem_map nap) \<and> host_log nap' = host_log nap) \<and>
      (r = 0 \<longrightarrow> pages_reprotected nap (ucast start) (NaClRoundAllocPage len) pr nap' \<and>
         host_protected nap (ucast start) (NaClRoundAllocPage len) pr nap'))"
  (is "run_unless ?A _ ?Q")
proof (cases "data_range nap (ucast start) (NaClRoundAllocPage len) \<and> NOT (PROT_READ OR PROT_WRITE) AND pr = 0")
  case False
  note inv = mem_invD [OF assms(1)]
  obtain r where "NaClSysMprotectInternal os ops nap start len pr = Inr (nap, r)" "r \<noteq> 0"
    using mprotect_rejected [OF inv(1,3) assms(2)] False by blast
  then show ?thesis using False assms(1) frame_refl unfolding NaClSysMprotect_def by auto
next
  case True
  let ?s = "ucast start :: u64" and ?len = "NaClRoundAllocPage len"
  note inv = mem_invD [OF assms(1)]
  note acc = mprotect_accepted [OF inv(1,3) assms(2,3) conjunct1 [OF True]]
  note d = conjunct1 [OF True, unfolded data_range_def]
  have dvd: "4096 dvd unat ?s" "4096 dvd unat ?len" using d by (auto intro: dvd_trans [of 4096 65536])
  have nz: "?len \<noteq> 0" using round_len(3) [OF assms(2)] assms(3) by simp
  have "unat ?s + unat ?len \<le> 2 ^ 32" using d unat_addr_limit(2) [OF inv(1)] by linarith
  note rng = page_range [OF dvd nz this]
  have maa: "mapped_and_allowed (GetFlags ops) (mem_map nap) (drop_bit 12 ?s) (drop_bit 12 ?len) pr =
      protectable ops nap ?s ?len pr"
    by (simp only: mapped_and_allowed_def protectable_def rng(2))
  note change = ChangeProt_result [OF assms(4) inv(2) rng(1), where pr = pr, unfolded maa]
  obtain vm where vm: "NaClVmmapChangeProt (GetFlags ops) (mem_map nap)
      (drop_bit 12 ?s) (drop_bit 12 ?len) pr = Inr (vm, protectable ops nap ?s ?len pr)"
    "vm_ok vm" "other_refs vm = other_refs (mem_map nap)"
    "if protectable ops nap ?s ?len pr then reprotected (mem_map nap) (drop_bit 12 ?s) (drop_bit 12 ?len) pr vm
     else page_at vm = page_at (mem_map nap)"
    "protectable ops nap ?s ?len pr \<longrightarrow> (\<forall>e \<in> set (vmentry vm).
       aligned_to (unat (drop_bit 12 ?s)) (unat (drop_bit 12 ?s) + unat (drop_bit 12 ?len)) e)"
    by (rule change) blast
  let ?n1 = "nap\<lparr> mem_map := vm \<rparr>"
  have f1: "frame nap ?n1" using vm(3) by (rule frame_map)
  have run: "NaClSysMprotect os ops nap start len pr =
      (if \<not> protectable ops nap ?s ?len pr then Inr (?n1, neg_errno EACCES)
       else andThen (NaClVmIoPendingCheck_mu ?n1 start (ucast (?s + ?len - 1))) (\<lambda>_.
         MprotectInternal os ?n1 (mem_start nap + ?s) ?len pr))"
    using acc True vm(1) by (simp add: NaClSysMprotect_def NaClSysMprotectInternal_def Let_def)
  show ?thesis
  proof (cases "protectable ops nap ?s ?len pr")
    case no: False
    have "mem_inv ?n1"
      using vm(2,4) no by (intro mem_inv_step [OF assms(1)]) simp_all
    moreover have "neg_errno EACCES \<noteq> 0" by (simp add: neg_errno_def)
    ultimately show ?thesis using no f1 vm(4) unfolding run by simp
  next
    case yes: True
    have rep: "pages_reprotected nap ?s ?len pr ?n1"
      using vm(4) yes by (simp add: pages_reprotected_def reprotected_def rng(2))
    have inv1: "mem_inv ?n1"
      using vm(2) rep d by (intro mem_inv_step [OF assms(1)]) (auto simp: pages_reprotected_def in_bytes_def)
    have pend: "NaClVmIoPendingCheck_mu ?n1 start (ucast (?s + ?len - 1)) =
        (if io_pending nap ?s ?len then Inl LogFatal else Inr ())"
      using pending_check [of ?n1 ?s ?len, unfolded ucast_down_up] by (simp add: io_pending_def ucast_down_up)
    show ?thesis
    proof (cases "io_pending nap ?s ?len")
      case True
      then show ?thesis using yes unfolding run pend by simp
    next
      case False
      have al: "\<forall>e \<in> set (vmentry (mem_map ?n1)). aligned_to (unat ?s div 4096) (unat ?s div 4096 + unat ?len div 4096) e"
        using vm(5) yes by (simp add: unat_pages)
      have mapped: "\<forall>p. in_bytes ?s ?len p \<longrightarrow> page_at (mem_map ?n1) p \<noteq> None"
      proof (intro allI impI)
        fix p assume p: "in_bytes ?s ?len p"
        with yes have "page_at (mem_map nap) p \<noteq> None" by (auto simp: protectable_def)
        moreover have "map_option coarse (page_at (mem_map ?n1) p) = map_option (\<lambda>v. coarse (v\<lparr> pv_prot := pr \<rparr>)) (page_at (mem_map nap) p)"
          using rep p by (simp add: pages_reprotected_def)
        ultimately show "page_at (mem_map ?n1) p \<noteq> None" by auto
      qed
      have pos: "0 < unat ?s" "unat ?s + unat ?len \<le> 2 ^ addr_bits ?n1" using d by (simp_all add: unat_gt_0)
      have run2: "NaClSysMprotect os ops nap start len pr = MprotectInternal os ?n1 (mem_start ?n1 + ?s) ?len pr"
        using yes False unfolding run pend by simp
      show ?thesis
        unfolding run2
      proof (rule run_unless_weaken [OF MprotectInternal_result [OF inv1 dvd nz pos mapped al]])
        fix x :: "'a NaClApp_scheme \<times> u32"
        assume "case x of (nap', r) \<Rightarrow> r = 0 \<and> found (mem_map ?n1) (mem_map nap') \<and>
          mset (vmentry (mem_map nap')) = mset (vmentry (mem_map ?n1)) \<and>
          (\<exists>calls es. nap' = ?n1\<lparr> mem_map := mem_map nap', host_log := host_log ?n1 @ calls \<rparr> \<and>
             set es = {e \<in> set (vmentry (mem_map ?n1)). unat ?s div 4096 \<le> unat (page_num e) \<and>
               stop_of e \<le> unat ?s div 4096 + unat ?len div 4096} \<and>
             protects (mem_start ?n1) (NaClProtMap pr) es calls)"
        then obtain nap' calls es where x: "x = (nap', 0)" "found (mem_map ?n1) (mem_map nap')"
          "nap' = ?n1\<lparr> mem_map := mem_map nap', host_log := host_log ?n1 @ calls \<rparr>"
          "set es = {e \<in> set (vmentry (mem_map ?n1)). unat ?s div 4096 \<le> unat (page_num e) \<and>
               stop_of e \<le> unat ?s div 4096 + unat ?len div 4096}"
          "protects (mem_start nap) (NaClProtMap pr) es calls" by auto
        have log: "host_log nap' = host_log nap @ calls" by (subst x(3)) simp
        have pages: "page_at (mem_map nap') = page_at vm" "other_refs (mem_map nap') = other_refs vm" "vm_ok (mem_map nap')"
          using x(2) by (simp_all add: found_def)
        have f2: "frame nap nap'"
          unfolding frame_def
          by (intro exI [of _ "mem_map nap'"] exI [of _ "host_log nap @ calls"] conjI)
            (subst x(3), simp, simp add: pages(2) vm(3))
        have inv2: "mem_inv nap'"
          using pages(1,3) by (intro mem_inv_step [OF inv1]) (simp_all add: frame_simps [OF f2])
        have rep2: "pages_reprotected nap ?s ?len pr nap'"
          using rep by (simp add: pages_reprotected_def pages(1))
        have "host_protected nap ?s ?len pr nap'"
          using d x(4) al by (intro protects_host [OF inv(1) dvd _ vm(2) _ x(5) log _ pages(1)]) simp_all
        with True yes f2 inv2 rep2 show "?Q x" by (simp add: x(1))
      qed auto
    qed
  qed
qed

subsection \<open>A length of 0\<close>

lemma CheckExisting_touch:
  assumes "access_modes_ok gf" and "chained es" and "\<forall>e \<in> set es. ent_ok e \<and> allows gf pr (view e 0)"
    and "\<exists>e \<in> set es. unat (page_num e) \<le> unat pn \<and> unat pn \<le> stop_of e"
  shows "CheckExisting_loop gf es pn pn pr = Inr True"
  using assms(2-4)
proof (induction es)
  case (Cons a es)
  have a: "ent_ok a" "allows gf pr (view a 0)" using Cons.prems(2) by simp_all
  note b = ent_ok_bounds [OF a(1)]
  note max = EntryMaxProt_view [OF assms(1), of a 0]
  show ?case
  proof (cases "unat (page_num a) \<le> unat pn \<and> unat pn \<le> stop_of a")
    case True
    then have "page_num a \<le> pn \<and> pn \<le> end_page a" by (simp add: word_le_nat_alt b(1))
    with a(2) show ?thesis by (simp add: max allows_def)
  next
    case False
    with Cons.prems(3) obtain e where e: "e \<in> set es" "unat (page_num e) \<le> unat pn" "unat pn \<le> stop_of e" by auto
    have "stop_of a \<le> unat (page_num e)" using Cons.prems(1) e(1) by (simp add: chained_def)
    with e(2) b(2) False have "\<not> pn \<le> end_page a" "\<not> pn < page_num a"
      by (simp_all add: word_le_nat_alt word_less_nat_alt b(1))
    moreover from this have "\<not> (page_num a \<le> pn \<and> pn < end_page a)" by auto
    moreover have "CheckExisting_loop gf es pn pn pr = Inr True"
      using Cons.IH Cons.prems(1,2) e by (auto simp: chained_def)
    ultimately show ?thesis by (simp add: max)
  qed
qed simp

lemma ChangeProt_nothing:
  assumes "access_modes_ok gf" and "vm_ok self"
    and "\<forall>p v. page_at self p = Some v \<longrightarrow> allows gf pr v"
    and "page_at self (unat pn) \<noteq> None \<or> (0 < unat pn \<and> page_at self (unat pn - 1) \<noteq> None)"
  obtains s where "NaClVmmapChangeProt gf self pn 0 pr = Inr (s, True)" and "vm_ok s"
    and "page_at s = page_at self"
proof -
  obtain s where s: "NaClVmmapMakeSorted self = Inr s" "vm_ok s" "chained (vmentry s)"
    "mset (vmentry s) = mset (vmentry self)" "other_refs s = other_refs self" "is_sorted s"
    using MakeSorted_result [OF assms(2)] by blast
  have pages: "page_at s = page_at self" by (rule page_at_mset [OF assms(2) s(2,4)])
  have ok: "ent_ok e" if "e \<in> set (vmentry s)" for e using s(2) that by (simp add: vm_ok_def)
  have al: "allows gf pr (view e 0)" if e: "e \<in> set (vmentry s)" for e
  proof -
    have "covers e (unat (page_num e))" using ent_ok_bounds(2) [OF ok [OF e]] by (simp add: covers_iff)
    then have "page_at s (unat (page_num e)) = Some (view e (unat (page_num e)))"
      using e page_at_iff [OF s(2)] by blast
    then have "allows gf pr (view e (unat (page_num e)))" using assms(3) pages by metis
    then show ?thesis by (rule allows_page [THEN iffD1])
  qed
  obtain q where q: "page_at s q \<noteq> None" "q = unat pn \<or> Suc q = unat pn"
    using assms(4) unfolding pages by fastforce
  then obtain e where e: "e \<in> set (vmentry s)" "covers e q" using page_at_iff [OF s(2)] by blast
  then have "unat (page_num e) \<le> unat pn \<and> unat pn \<le> stop_of e" using q(2) by (auto simp: covers_iff)
  with e(1) ok al have loop: "CheckExisting_loop gf (vmentry s) pn pn pr = Inr True"
    by (intro CheckExisting_touch [OF assms(1) s(3)]) blast+
  have "nvalid self \<noteq> 0"
  proof
    assume "nvalid self = 0"
    then have "mset (vmentry s) = {#}" using s(4) by simp
    with e(1) show False by simp
  qed
  then have "NaClVmmapCheckExistingMapping gf self pn 0 pr = Inr (s, True)"
    using s(1) loop by (simp add: NaClVmmapCheckExistingMapping_def)
  moreover have "NaClVmmapMakeSorted s = Inr s" using s(6) by (simp add: NaClVmmapMakeSorted_def)
  moreover have "ChangeProt_loop s pn 0 pr pn (nvalid s) 0 = Inr s" by (subst ChangeProt_loop.simps) simp
  ultimately have "NaClVmmapChangeProt gf self pn 0 pr = Inr (s, True)"
    by (simp add: NaClVmmapChangeProt_def)
  then show ?thesis using s(2) pages by (rule that)
qed

lemma mprotect_zero:
  assumes "mem_inv nap" and "access_modes_ok (GetFlags ops)" and "65536 dvd unat start" and "0 < unat start"
    and "unat (dynamic_text_end nap) \<le> unat start" and "unat start < 2 ^ addr_bits nap"
    and "NOT (PROT_READ OR PROT_WRITE) AND pr = 0" and "\<not> io_pending nap (ucast start) 0"
    and "\<forall>p v. page_at (mem_map nap) p = Some v \<longrightarrow> allows (GetFlags ops) pr v"
    and "page_at (mem_map nap) (unat start div 4096) \<noteq> None \<or> page_at (mem_map nap) (unat start div 4096 - 1) \<noteq> None"
  shows "NaClSysMprotect os ops nap start 0 pr =
    Inl (if page_at (mem_map nap) (unat start div 4096) = None then OutOfBounds else CheckFailed)"
proof -
  let ?s = "ucast start :: u64"
  note inv = mem_invD [OF assms(1)]
  have us: "unat ?s = unat start" by (rule unat_ucast_up)
  have r0: "NaClRoundAllocPage 0 = 0" by (simp add: NaClRoundAllocPage_def)
  have sys: "NaClUserToSysAddrRange nap ?s 0 = mem_start nap + ?s" "mem_start nap + ?s \<noteq> kNaClBadAddress"
    "NaClSysToUser nap (mem_start nap + ?s) = Inr ?s"
    using assms(4,6) range_not_bad [OF inv(1), of ?s] SysToUser_UserToSys [OF inv(1), of ?s]
    by (simp_all add: UserToSysAddrRange_iff [OF inv(1)] us user_addr_def)
  have al: "NaClIsAllocPageMultiple ?s" using assms(3) by (simp add: is_multiple_nat us)
  have ex: "\<not> NaClSysCommonAddrRangeContainsExecutablePages nap ?s 0"
    using assms(3,5) executable_iff [OF inv(3), of ?s 0] by (simp add: us word_less_nat_alt)
  have pn: "unat (drop_bit 12 ?s) = unat start div 4096" by (simp add: unat_pages us)
  have pos: "0 < unat start div 4096" using assms(3,4) by (auto elim!: dvdE)
  have "page_at (mem_map nap) (unat (drop_bit 12 ?s)) \<noteq> None \<or>
      (0 < unat (drop_bit 12 ?s) \<and> page_at (mem_map nap) (unat (drop_bit 12 ?s) - 1) \<noteq> None)"
    using assms(10) pos unfolding pn by blast
  then obtain vm where vm: "NaClVmmapChangeProt (GetFlags ops) (mem_map nap) (drop_bit 12 ?s) 0 pr = Inr (vm, True)"
    "vm_ok vm" "page_at vm = page_at (mem_map nap)"
    using ChangeProt_nothing [OF assms(2) inv(2) assms(9)] by blast
  let ?n1 = "nap\<lparr> mem_map := vm \<rparr>"
  have pend: "NaClVmIoPendingCheck_mu ?n1 start (ucast (?s - 1)) = Inr ()"
    using pending_check [of ?n1 ?s 0, unfolded ucast_down_up] assms(8) by (simp add: io_pending_def ucast_down_up)
  have run: "NaClSysMprotect os ops nap start 0 pr = MprotectInternal os ?n1 (mem_start nap + ?s) 0 pr"
    using sys al ex assms(7) vm(1) pend by (simp add: NaClSysMprotect_def NaClSysMprotectInternal_def r0 Let_def)
  obtain s i where s: "NaClVmmapFindPageIter vm (drop_bit 12 ?s) = Inr (s, i)" "found vm s"
    "if page_at vm (unat start div 4096) = None then i = nvalid s
      else i < nvalid s \<and> covers (vmentry s ! i) (unat start div 4096)"
    using FindPageIter_result [OF vm(2), of "drop_bit 12 ?s"] unfolding pn by blast
  show ?thesis
  proof (cases "page_at vm (unat start div 4096) = None")
    case True
    then have "NaClVmmapIterStar s i = Inl OutOfBounds" using s(3) by (simp add: NaClVmmapIterStar_def)
    with True show ?thesis unfolding run
      by (simp add: MprotectInternal_def Let_def sys(3) s(1) vm(3) [symmetric])
  next
    case False
    with s(3) have i: "i < nvalid s" "covers (vmentry s ! i) (unat start div 4096)" by simp_all
    let ?e = "vmentry s ! i"
    have "ent_ok ?e" using s(2) i(1) by (simp add: found_def vm_ok_def)
    note b = ent_ok_bounds [OF this]
    have e: "drop i (vmentry s) = ?e # drop (Suc i) (vmentry s)" using i(1) by (simp add: Cons_nth_drop_Suc)
    have star: "NaClVmmapIterStar s i = Inr ?e" using i(1) by (simp add: NaClVmmapIterStar_def)
    have "MprotectInternal os ?n1 (mem_start nap + ?s) 0 pr = Inl CheckFailed"
    proof (cases "?s = push_bit 12 (page_num ?e)")
      case False
      then show ?thesis by (simp add: MprotectInternal_def Let_def sys(3) s(1) star)
    next
      case eq: True
      have "unat start div 4096 * 4096 < 2 ^ 32" using unat_lt32 [of start] by (simp add: less_le_trans)
      moreover have "unat (page_num ?e) \<le> unat start div 4096" using i(2) by (simp add: covers_iff)
      ultimately have "unat (page_num ?e) * 4096 < 2 ^ 32" by linarith
      then have "unat ?s = unat (page_num ?e) * 4096" unfolding eq by (rule unat_page_addr) simp
      then have "unat (drop_bit 12 ?s) = unat (page_num ?e)" by (simp add: unat_pages)
      then have q: "drop_bit 12 ?s = page_num ?e" by (rule word_eq_unatI)
      have "end_page ?e \<noteq> page_num ?e" using b(1,2) by (metis less_irrefl)
      with star s(1) sys(3) eq q e show ?thesis by (simp add: MprotectInternal_def Let_def)
    qed
    with False show ?thesis unfolding run by (simp add: vm(3))
  qed
qed

subsection \<open>Properties\<close>

text \<open> C29. \<open>mprotect\<close> is exact: for a 32-bit length other than 0 no check of the code fails, and it stops the
  sandbox only when the host refuses or a pending I/O operation uses the range.  It succeeds iff the
  rounded range is aligned, lies above the executable pages, asks for no execution, and all its
  pages are mapped by a backing that allows the protection.  Then exactly these pages have the new
  protection in the memory map, the host has been asked to protect nothing outside the range, every
  anonymous page of the range and every page that holds some of its file (by the recorded offset and
  size) have been protected, and no page past the end of its file.  Otherwise neither the pages nor the host
  have changed.\<close>

theorem mprotect_exact:
  assumes "mem_inv nap" and "unat len < 2 ^ 32" and "len \<noteq> 0" and "access_modes_ok (GetFlags ops)"
  shows "run_unless (mprotect_refused os \<or> io_pending nap (ucast start) (NaClRoundAllocPage len))
    (NaClSysMprotect os ops nap start len pr)
    (\<lambda>(nap', r). frame nap nap' \<and> mem_inv nap' \<and>
      (r = 0 \<longleftrightarrow> data_range nap (ucast start) (NaClRoundAllocPage len) \<and>
         NOT (PROT_READ OR PROT_WRITE) AND pr = 0 \<and> protectable ops nap (ucast start) (NaClRoundAllocPage len) pr) \<and>
      (r \<noteq> 0 \<longrightarrow> page_at (mem_map nap') = page_at (mem_map nap) \<and> host_log nap' = host_log nap) \<and>
      (r = 0 \<longrightarrow> pages_reprotected nap (ucast start) (NaClRoundAllocPage len) pr nap' \<and>
         host_protected nap (ucast start) (NaClRoundAllocPage len) pr nap'))"
  using assms by (rule mprotect_result)

definition sample_descs :: "unit DescOps" where
  "sample_descs = \<lparr> GetFlags = (\<lambda>_. O_RDWR), Fstat = (\<lambda>_ _. (0, 0x8000, 0x8000)), DescIsSafeForMmap = (\<lambda>_. True),
     is_host_io = (\<lambda>_. True), MetadataFromNaClDesc = (\<lambda>_. ()), image = (\<lambda>_ _ n. replicate (unat n) 0xf4) \<rparr>"

lemma sample_access: "access_modes_ok (GetFlags sample_descs)"
  by (simp add: access_modes_ok_def sample_descs_def)

lemma granting_mprotect: "\<not> mprotect_refused granting_os"
  by (simp add: mprotect_refused_def granting_os_def)

lemma mprotect_exact_witness:
  "\<exists>nap'. NaClSysMprotect granting_os sample_descs sample_mem 0xff000000 0x8000 PROT_READ = Inr (nap', 0) \<and>
    mem_inv nap' \<and> page_at (mem_map nap') 0 = page_at sample_vm 0 \<and>
    map_option pv_prot (page_at (mem_map nap') 0xff00f) = Some PROT_READ \<and>
    map_option pv_prot (page_at (mem_map nap') 0xff010) = Some (PROT_READ OR PROT_WRITE)"
proof -
  let ?s = "ucast (0xff000000 :: u32) :: u64"
  have small: "unat (0x8000 :: u64) < 2 ^ 32" "(0x8000 :: u64) \<noteq> 0" by simp_all
  have rnd: "NaClRoundAllocPage 0x8000 = 0x10000" by (simp add: NaClRoundAllocPage_def)
  have stack: "page_at sample_vm p = Some \<lparr> pv_prot = 3, pv_flags = 2, pv_desc = None,
      pv_offset = push_bit 12 (of_nat p - 0xff000), pv_file_size = 0 \<rparr>" if "0xff000 \<le> p" "p < 0x100000" for p
    using that by (simp add: sample_vm_def page_at_def covers_def view_def)
  have ok: "data_range sample_mem ?s 0x10000" "protectable sample_descs sample_mem ?s 0x10000 PROT_READ"
    using stack by (auto simp: data_range_def sample_mem_def sample_space_def protectable_def in_bytes_def
        allows_def view_max_prot_def)
  have quiet: "\<not> (mprotect_refused granting_os \<or> io_pending sample_mem ?s 0x10000)"
    using granting_mprotect sample_io by blast
  note ex = mprotect_exact [OF sample_mem_inv small sample_access, where os = granting_os
      and start = "0xff000000" and pr = PROT_READ, unfolded rnd]
  from run_unlessE [OF ex quiet] ok
  obtain nap' where nap': "NaClSysMprotect granting_os sample_descs sample_mem 0xff000000 0x8000 PROT_READ = Inr (nap', 0)"
    "mem_inv nap'" "pages_reprotected sample_mem ?s 0x10000 PROT_READ nap'"
    by auto
  have "map_option coarse (page_at (mem_map nap') 0xff00f) = map_option (\<lambda>v. coarse (v\<lparr> pv_prot := PROT_READ \<rparr>)) (page_at sample_vm 0xff00f)"
    "page_at (mem_map nap') 0 = page_at sample_vm 0" "page_at (mem_map nap') 0xff010 = page_at sample_vm 0xff010"
    using nap'(3) by (simp_all add: pages_reprotected_def in_bytes_def sample_mem_def)
  with nap'(1,2) stack [of "0xff00f"] stack [of "0xff010"] show ?thesis
    by (cases "page_at (mem_map nap') 0xff00f") (auto simp: coarse_def dest: arg_cong [where f = pv_prot])
qed

text \<open> C35. A length of 0 is not an error for \<open>mprotect\<close>, as it is for \<open>munmap\<close>, and the code does not survive
  it: when the start is mapped, one of the two checks of \<open>MprotectInternal\<close> fails, and when
  only the page before the start is mapped, the code reads an entry of the memory map past the last.\<close>

theorem mprotect_zero_length:
  assumes "mem_inv nap" and "access_modes_ok (GetFlags ops)" and "65536 dvd unat start" and "0 < unat start"
    and "unat (dynamic_text_end nap) \<le> unat start" and "unat start < 2 ^ addr_bits nap"
    and "NOT (PROT_READ OR PROT_WRITE) AND pr = 0" and "\<not> io_pending nap (ucast start) 0"
    and "\<forall>p v. page_at (mem_map nap) p = Some v \<longrightarrow> allows (GetFlags ops) pr v"
    and "page_at (mem_map nap) (unat start div 4096) \<noteq> None \<or> page_at (mem_map nap) (unat start div 4096 - 1) \<noteq> None"
  shows "NaClSysMprotect os ops nap start 0 pr =
    Inl (if page_at (mem_map nap) (unat start div 4096) = None then OutOfBounds else CheckFailed)"
  using assms by (rule mprotect_zero)

lemma sample_allows:
  "\<forall>p v. page_at (mem_map sample_mem) p = Some v \<longrightarrow> allows (GetFlags sample_descs) PROT_READ v"
  by (auto simp: allows_def view_max_prot_def sample_descs_def split: option.splits)

lemma mprotect_zero_length_witness:
  "NaClSysMprotect granting_os sample_descs sample_mem 0xff000000 0 PROT_READ = Inl CheckFailed"
proof -
  have "page_at (mem_map sample_mem) (unat (0xff000000 :: u32) div 4096) \<noteq> None"
    by (simp add: sample_mem_def sample_vm_def page_at_def covers_def)
  moreover have "65536 dvd unat (0xff000000 :: u32)" "0 < unat (0xff000000 :: u32)"
    "unat (dynamic_text_end sample_mem) \<le> unat (0xff000000 :: u32)"
    "unat (0xff000000 :: u32) < 2 ^ addr_bits sample_mem" "NOT (PROT_READ OR PROT_WRITE) AND PROT_READ = 0"
    by (simp_all add: sample_mem_def sample_space_def)
  note mprotect_zero_length [OF sample_mem_inv sample_access this sample_io sample_allows disjI1, of granting_os]
  ultimately show ?thesis by simp
qed

end
