(* ===== verification/Sys_Brk_Proofs.thy ===== *)
theory Sys_Brk_Proofs
  imports Sys_Mprotect_Proofs
begin

text \<open>
  \<open>brk\<close> moves the break and keeps the memory map in step: pages are only added, next to the page
  of the old break, and the result is the break.
\<close>

text \<open>Lengthening an entry up to a page that the next one does not reach.\<close>

lemma grow_entry:
  assumes "vm_ok s" and "chained (vmentry s)" and "i < nvalid s" and "stop_of (vmentry s ! i) \<le> stop"
    and "stop \<le> max_pages" and "i + 1 < nvalid s \<Longrightarrow> stop \<le> unat (page_num (vmentry s ! (i + 1)))"
    and "page_num e' = page_num (vmentry s ! i)" and "unat (npages e') = stop - unat (page_num (vmentry s ! i))"
    and "desc e' = desc (vmentry s ! i)" and "removed e' = removed (vmentry s ! i)"
    and "\<And>p. view e' p = view (vmentry s ! i) p"
  shows "vm_ok (set_entry s i e')" and "other_refs (set_entry s i e') = other_refs s"
    and "page_at (set_entry s i e') p =
      (if stop_of (vmentry s ! i) \<le> p \<and> p < stop then Some (view (vmentry s ! i) p) else page_at s p)"
proof -
  let ?e = "vmentry s ! i" and ?es = "(vmentry s)[i := e']"
  have ents: "\<forall>e \<in> set (vmentry s). ent_ok e \<and> \<not> removed e" using assms(1) by (simp add: vm_ok_def)
  then have e: "ent_ok ?e" "\<not> removed ?e" using assms(3) by simp_all
  note b = ent_ok_bounds [OF e(1)]
  have st: "stop_of e' = stop" using assms(4,7,8) b(2) by (simp add: stop_of_def)
  have nz: "npages e' \<noteq> 0" using assms(4,8) b(2) by (auto simp: unat_eq_0 [symmetric])
  have e': "ent_ok e'" "\<not> removed e'"
    using assms(5,7,8,10) e(2) b(2) assms(4) nz by (simp_all add: ent_ok_def)
  have next_entry: "stop \<le> unat (page_num (vmentry s ! j))" if "i < j" "j < nvalid s" for j
  proof (cases "j = i + 1")
    case False
    with that have j: "i + 1 < j" by simp
    have "stop \<le> unat (page_num (vmentry s ! (i + 1)))" using assms(6) that by simp
    also have "\<dots> < stop_of (vmentry s ! (i + 1))" using ents that by (intro ent_ok_bounds) simp
    also have "\<dots> \<le> unat (page_num (vmentry s ! j))" using chained_nth [OF assms(2) j that(2)] .
    finally show ?thesis by simp
  qed (use assms(6) that in simp)
  have ch: "chained ?es"
    unfolding chained_def sorted_wrt_iff_nth_less
  proof (intro allI impI)
    fix j k assume jk: "j < k" "k < length ?es"
    then show "stop_of (?es ! j) \<le> unat (page_num (?es ! k))"
      using chained_nth [OF assms(2), of j k] next_entry [of k] st assms(7)
      by (cases "j = i"; cases "k = i") simp_all
  qed
  have all: "\<forall>e \<in> set ?es. ent_ok e \<and> \<not> removed e"
    using set_update_subset_insert [of "vmentry s" i e'] ents e' by blast
  show ok: "vm_ok (set_entry s i e')"
  proof (rule vm_ok_chained)
    show "chained (vmentry (set_entry s i e'))" using ch by (simp add: set_entry_def)
    show "\<forall>e \<in> set (vmentry (set_entry s i e')). ent_ok e \<and> \<not> removed e" using all by (simp add: set_entry_def)
    show "roomy (set_entry s i e')" using assms(1) by (simp add: roomy_def vm_ok_def)
    have "sorted_wrt (\<lambda>a b. page_num a \<le> page_num b) ?es"
    proof (rule chained_sorted_by [OF ch])
      show "page_num a \<le> page_num b" if "ent_ok a" "stop_of a \<le> unat (page_num b)" for a b
        using that ent_ok_bounds(2) [OF that(1)] by (simp add: word_le_nat_alt)
    qed (use all in blast)
    then have "sorted (map page_num ?es)" by (simp add: sorted_wrt_map)
    then show "sorted (map page_num (vmentry (set_entry s i e')))" by (simp add: set_entry_def)
  qed
  show "other_refs (set_entry s i e') = other_refs s"
    using assms(3,9) by simp
  show "page_at (set_entry s i e') p =
      (if stop_of ?e \<le> p \<and> p < stop then Some (view ?e p) else page_at s p)"
  proof -
    have in_new: "e' \<in> set ?es" using assms(3) by (simp add: set_update_memI)
    have sub: "e' = x \<or> (\<exists>j < nvalid s. j \<noteq> i \<and> x = vmentry s ! j)" if x: "x \<in> set ?es" for x
    proof -
      obtain j where "j < nvalid s" "x = ?es ! j" using x by (auto simp: in_set_conv_nth)
      then show ?thesis by (cases "j = i") auto
    qed
    have keep: "vmentry s ! j \<in> set ?es" if "j < nvalid s" "j \<noteq> i" for j
      using that by (metis length_list_update nth_list_update_neq nth_mem)
    have new: "page_at (set_entry s i e') p = Some v \<longleftrightarrow> (\<exists>x \<in> set ?es. covers x p \<and> v = view x p)" for v
      using page_at_iff [OF ok] by (simp add: set_entry_def)
    note old = page_at_iff [OF assms(1), of p]
    consider "covers ?e p" | "stop_of ?e \<le> p" "p < stop" | "\<not> covers ?e p" "\<not> (stop_of ?e \<le> p \<and> p < stop)" by blast
    then show ?thesis
    proof cases
      case 1
      then have "covers e' p" using st assms(4,7) by (simp add: covers_iff)
      then have "page_at (set_entry s i e') p = Some (view ?e p)" using in_new assms(11) new by auto
      moreover have "page_at s p = Some (view ?e p)" using 1 old assms(3) by auto
      ultimately show ?thesis using 1 by (simp add: covers_iff)
    next
      case 2
      then have "covers e' p" using st assms(7) b(2) by (simp add: covers_iff)
      then have "page_at (set_entry s i e') p = Some (view ?e p)" using in_new assms(11) new by auto
      with 2 show ?thesis by simp
    next
      case 3
      then have "\<not> covers e' p" using st assms(4,7) by (auto simp: covers_iff)
      then have "page_at (set_entry s i e') p = Some v \<longleftrightarrow> page_at s p = Some v" for v
        unfolding new old using 3(1) sub keep by (metis in_set_conv_nth)
      then have "page_at (set_entry s i e') p = page_at s p" by (metis option.exhaust)
      with 3(2) show ?thesis by (simp only: if_False)
    qed
  qed
qed

subsection \<open>brk\<close>

text \<open>The page of an address, and of the last byte before the break.\<close>

definition last_page :: "u64 \<Rightarrow> nat" where
  "last_page brk = (unat brk - 1) div 4096"

text \<open>What \<open>brk\<close> guarantees: pages are only added, all of them above the page of the old break and
  below the end of the allocation unit of the new one, with the protection of the old break's
  page; and when the break has grown, every page up to it is mapped.\<close>

definition brk_pages :: "'a NaClApp_scheme \<Rightarrow> 'a NaClApp_scheme \<Rightarrow> bool" where
  "brk_pages nap nap' \<longleftrightarrow>
     (\<forall>p. page_at (mem_map nap) p \<noteq> None \<longrightarrow> page_at (mem_map nap') p = page_at (mem_map nap) p) \<and>
     (\<forall>p. page_at (mem_map nap) p = None \<and> page_at (mem_map nap') p \<noteq> None \<longrightarrow>
        last_page (break_addr nap) < p \<and> p < (unat (break_addr nap') + 65535) div 65536 * 16 \<and>
        map_option pv_prot (page_at (mem_map nap') p) =
          map_option pv_prot (page_at (mem_map nap) (last_page (break_addr nap)))) \<and>
     (break_addr nap < break_addr nap' \<longrightarrow>
        (\<forall>p. last_page (break_addr nap) \<le> p \<and> p \<le> last_page (break_addr nap') \<longrightarrow>
           page_at (mem_map nap') p \<noteq> None))"

text \<open>Everything but the break, the map and the log.\<close>

definition brk_frame :: "'a NaClApp_scheme \<Rightarrow> 'a NaClApp_scheme \<Rightarrow> bool" where
  "brk_frame nap nap' \<longleftrightarrow> (\<exists>vm lg b. nap' = nap\<lparr> mem_map := vm, host_log := lg, break_addr := b \<rparr> \<and>
     vm_ok vm \<and> other_refs vm = other_refs (mem_map nap))"

lemma brk_frame_intro:
  "vm_ok vm \<Longrightarrow> other_refs vm = other_refs (mem_map nap) \<Longrightarrow>
   brk_frame nap (nap\<lparr> mem_map := vm, host_log := lg, break_addr := b \<rparr>)"
  unfolding brk_frame_def by (intro exI [of _ vm] exI [of _ lg] exI [of _ b]) simp

lemma unat_minus_one: "0 < unat (x :: u64) \<Longrightarrow> unat (x - 1) = unat x - 1"
  by (simp add: unat_sub_small)

text \<open>Nothing is mapped between the page of the break and the end of the allocation unit of \<open>nb\<close>.\<close>

definition room_above :: "'a NaClApp_scheme \<Rightarrow> u64 \<Rightarrow> bool" where
  "room_above nap nb \<longleftrightarrow> (\<forall>p. last_page (break_addr nap) < p \<and> p < (unat nb + 65535) div 65536 * 16 \<longrightarrow>
     page_at (mem_map nap) p = None)"

lemma brk_grow_result:
  fixes nap :: "'a NaClApp_scheme"
  assumes "space_ok nap" and "vm_ok (mem_map nap)" and "break_addr nap < nb" and "0 < unat (break_addr nap)"
    and "unat nb < 2 ^ addr_bits nap"
  shows "run_unless (mprotect_refused os \<or> page_at (mem_map nap) (last_page (break_addr nap)) = None)
    (brk_grow os nap nb) (\<lambda>(nap', moved). brk_frame nap nap' \<and> brk_pages nap nap' \<and>
      break_addr nap' = (if moved then nb else break_addr nap) \<and> (room_above nap nb \<longrightarrow> moved))"
proof -
  let ?lp = "last_page (break_addr nap)" and ?lip = "drop_bit 12 (NaClRoundAllocPage nb - 1) :: u64"
  let ?stop = "(unat nb + 65535) div 65536 * 16"
  have lim: "(2 :: nat) ^ addr_bits nap \<le> 2 ^ 32" by (rule unat_addr_limit(2) [OF assms(1)])
  have lt: "unat (break_addr nap) < unat nb" using assms(3) by (simp add: word_less_nat_alt)
  have nb: "0 < unat nb" "unat nb < 2 ^ 32" using lt assms(5) lim by linarith+
  have lp: "unat (drop_bit 12 (break_addr nap - 1)) = ?lp" "unat (drop_bit 12 (nb - 1)) = last_page nb"
    using assms(4) nb(1) by (simp_all add: unat_pages unat_minus_one last_page_def)
  have rnd: "unat (NaClRoundAllocPage nb) = (unat nb + 65535) div 65536 * 65536" by (rule round_len(1) [OF nb(2)])
  have "0 < (unat nb + 65535) div 65536" using nb(1) by linarith
  then have lip: "unat ?lip + 1 = ?stop"
    using rnd by (simp add: unat_pages unat_minus_one)
  have "unat nb + 65535 \<le> 65536 * 65537" using nb(2) by simp
  then have "(unat nb + 65535) div 65536 \<le> 65536 * 65537 div 65536" by (rule div_le_mono)
  then have stop_max: "?stop \<le> 2 ^ 21" by simp
  have nb_page: "last_page nb < ?stop" using nb(1) unfolding last_page_def by linarith
  obtain s i where s: "NaClVmmapFindPageIter (mem_map nap) (drop_bit 12 (break_addr nap - 1)) = Inr (s, i)"
    "found (mem_map nap) s" "chained (vmentry s)"
    "if page_at (mem_map nap) ?lp = None then i = nvalid s else i < nvalid s \<and> covers (vmentry s ! i) ?lp"
    using FindPageIter_result [OF assms(2), of "drop_bit 12 (break_addr nap - 1)"] unfolding lp by blast
  have vm: "vm_ok s" "page_at s = page_at (mem_map nap)" "other_refs s = other_refs (mem_map nap)"
    using s(2) by (simp_all add: found_def)
  let ?n1 = "nap\<lparr> mem_map := s \<rparr>"
  show ?thesis
  proof (cases "page_at (mem_map nap) ?lp = None")
    case True
    with s(1,4) show ?thesis by (simp add: brk_grow_def Let_def NaClVmmapIterAtEnd_def)
  next
    case False
    with s(4) have i: "i < nvalid s" "covers (vmentry s ! i) ?lp" by simp_all
    let ?e = "vmentry s ! i"
    have e_ok: "ent_ok ?e" using vm(1) i(1) by (simp add: vm_ok_def)
    note b = ent_ok_bounds [OF e_ok]
    have e_page: "page_at (mem_map nap) p = Some (view ?e p)" if "covers ?e p" for p
      using page_at_iff [OF vm(1)] that i(1) vm(2) by auto
    have within: "drop_bit 12 (nb - 1) < page_num ?e + npages ?e \<longleftrightarrow> last_page nb < stop_of ?e"
      using b(1) lp(2) by (simp add: word_less_nat_alt)
    have le_page: "?lp \<le> last_page nb" using lt unfolding last_page_def by (simp add: div_le_mono)
    show ?thesis
    proof (cases "last_page nb < stop_of ?e")
      case True
      have run: "brk_grow os nap nb = Inr (?n1\<lparr> break_addr := nb \<rparr>, True)"
        using s(1) i(1) True within
        by (simp add: brk_grow_def Let_def NaClVmmapIterAtEnd_def NaClVmmapIterStar_def)
      have "brk_pages nap (?n1\<lparr> break_addr := nb \<rparr>)"
        using e_page i(2) True vm(2) unfolding brk_pages_def by (auto simp: covers_iff)
      moreover have "brk_frame nap (?n1\<lparr> break_addr := nb \<rparr>)"
        using brk_frame_intro [OF vm(1,3), where lg = "host_log nap" and b = nb] by simp
      ultimately show ?thesis unfolding run by simp
    next
      case beyond: False
      define runs_into where "runs_into \<longleftrightarrow> i + 1 < nvalid s \<and> page_num (vmentry s ! (i + 1)) \<le> ?lip"
      have next_test: "(if NaClVmmapIterAtEnd s (NaClVmmapIterIncr i) then Inr False
          else andThen (NaClVmmapIterStar s (NaClVmmapIterIncr i)) (\<lambda>next_ent. Inr (page_num next_ent \<le> ?lip))) =
          Inr runs_into"
        by (auto simp: runs_into_def NaClVmmapIterAtEnd_def NaClVmmapIterIncr_def NaClVmmapIterStar_def)
      let ?e' = "?e\<lparr> npages := ?lip - page_num ?e + 1 \<rparr>"
      let ?n2 = "nap\<lparr> mem_map := set_entry s i ?e' \<rparr>"
      let ?start = "push_bit 12 (page_num ?e + npages ?e) :: u64"
      have run: "brk_grow os nap nb =
          (if runs_into then Inr (?n1, False)
           else andThen (NaClUserToSys ?n2 ?start) (\<lambda>addr.
             let (rv, nap) = host os ?n2 (HostMprotect addr (push_bit 12 (?lip + 1) - ?start) (PROT_READ OR PROT_WRITE)) in
             if rv \<noteq> 0 then Inl LogFatal else Inr (nap\<lparr> break_addr := nb \<rparr>, True)))"
        using s(1) i(1) beyond within next_test
        by (simp add: brk_grow_def Let_def NaClVmmapIterAtEnd_def [of s i] NaClVmmapIterStar_def [of s i])
      show ?thesis
      proof (cases runs_into)
        case True
        have "brk_pages nap ?n1" using vm(2) by (auto simp: brk_pages_def)
        moreover have "brk_frame nap ?n1"
          using brk_frame_intro [OF vm(1,3), where lg = "host_log nap" and b = "break_addr nap"] by simp
        moreover have "\<not> room_above nap nb"
        proof
          let ?n = "vmentry s ! (i + 1)" and ?p = "unat (page_num (vmentry s ! (i + 1)))"
          assume room: "room_above nap nb"
          have n: "i + 1 < nvalid s" "page_num ?n \<le> ?lip" using True by (simp_all add: runs_into_def)
          have "ent_ok ?n" using vm(1) n(1) by (simp add: vm_ok_def)
          note nb' = ent_ok_bounds(2) [OF this]
          have "stop_of ?e \<le> ?p" using chained_nth [OF s(3), of i "i + 1"] n(1) by simp
          then have "?lp < ?p" "?p < ?stop" using i(2) n(2) lip by (simp_all add: covers_iff word_le_nat_alt)
          then have "page_at s ?p = None" using room vm(2) by (simp add: room_above_def)
          moreover have "covers ?n ?p" using nb' by (simp add: covers_iff)
          ultimately show False using page_at_iff [OF vm(1), of ?p] n(1) by force
        qed
        ultimately show ?thesis using True unfolding run by simp
      next
        case False
        have st: "stop_of ?e \<le> ?stop" using beyond nb_page by linarith
        have free: "?stop \<le> unat (page_num (vmentry s ! (i + 1)))" if "i + 1 < nvalid s"
          using False that lip by (auto simp: runs_into_def word_le_nat_alt)
        have n': "unat (?lip - page_num ?e + 1) = ?stop - unat (page_num ?e)"
        proof -
          have le: "unat (page_num ?e) \<le> unat ?lip" using st b(2) lip by linarith
          then have d: "unat (?lip - page_num ?e) = unat ?lip - unat (page_num ?e)" by (rule unat_sub_small)
          have "unat (?lip - page_num ?e) + 1 < 2 ^ 64" unfolding d using lip stop_max by simp
          then have "unat (?lip - page_num ?e + 1) = unat (?lip - page_num ?e) + 1" by (simp add: unat_add_small)
          with d le lip show ?thesis by linarith
        qed
        have "?stop \<le> max_pages" using stop_max by (simp add: max_pages_def)
        note grow = grow_entry [OF vm(1) s(3) i(1) st this free, of ?e']
        have g: "vm_ok (set_entry s i ?e')" "other_refs (set_entry s i ?e') = other_refs s"
          "\<And>p. page_at (set_entry s i ?e') p =
             (if stop_of ?e \<le> p \<and> p < ?stop then Some (view ?e p) else page_at s p)"
          by (rule grow; simp add: n' view_def)+
        have "unat (page_num ?e + npages ?e) = stop_of ?e" by (rule b(1))
        moreover have "stop_of ?e * 4096 < 2 ^ addr_bits nap"
        proof -
          have "last_page nb * 4096 \<le> unat nb - 1" unfolding last_page_def by simp
          with beyond assms(5) show ?thesis by linarith
        qed
        moreover from this have "stop_of ?e * 4096 < 2 ^ 32" using lim by linarith
        ultimately have start: "unat ?start = stop_of ?e * 4096" by (intro unat_page_addr)
        have "0 < stop_of ?e" using b(2) by linarith
        then have sys: "NaClUserToSys nap ?start = Inr (mem_start nap + ?start)"
          using start \<open>stop_of ?e * 4096 < 2 ^ addr_bits nap\<close> assms(1)
          by (simp add: UserToSys_iff user_addr_def)
        let ?call = "HostMprotect (mem_start nap + ?start) (push_bit 12 (?lip + 1) - ?start) (PROT_READ OR PROT_WRITE)"
        let ?n3 = "nap\<lparr> mem_map := set_entry s i ?e', host_log := host_log nap @ [?call], break_addr := nb \<rparr>"
        have run3: "brk_grow os nap nb = (if os (host_log nap) ?call \<noteq> 0 then Inl LogFatal else Inr (?n3, True))"
          using False unfolding run by (simp add: sys host_def Let_def)
        have "brk_frame nap ?n3" using g(1,2) vm(3) by (intro brk_frame_intro) simp_all
        moreover have "brk_pages nap ?n3"
          unfolding brk_pages_def
        proof (intro conjI allI impI)
          have old: "page_at s p = None" if "stop_of ?e \<le> p" "p < ?stop" for p
          proof (rule ccontr)
            assume "page_at s p \<noteq> None"
            then obtain x where x: "x \<in> set (vmentry s)" "covers x p" using page_at_iff [OF vm(1)] by blast
            then obtain j where j: "j < nvalid s" "x = vmentry s ! j" by (auto simp: in_set_conv_nth)
            have x_ok: "ent_ok x" using vm(1) x(1) by (simp add: vm_ok_def)
            consider "j < i" | "j = i" | "j = i + 1" | "i + 1 < j" by linarith
            then show False
            proof cases
              case 1
              then have "stop_of x \<le> unat (page_num ?e)" using chained_nth [OF s(3) 1 i(1)] j by simp
              with x(2) that(1) b(2) show False by (simp add: covers_iff)
            next
              case 2
              with x(2) that(1) j show False by (simp add: covers_iff)
            next
              case 3
              with x(2) that(2) j free show False by (simp add: covers_iff)
            next
              case 4
              have n1: "i + 1 < nvalid s" using 4 j(1) by simp
              have "ent_ok (vmentry s ! (i + 1))" using vm(1) n1 by (simp add: vm_ok_def)
              then have "unat (page_num (vmentry s ! (i + 1))) < stop_of (vmentry s ! (i + 1))" by (rule ent_ok_bounds)
              also have "\<dots> \<le> unat (page_num x)" using chained_nth [OF s(3) 4 j(1)] j(2) by simp
              finally show False using x(2) that(2) free [OF n1] by (simp add: covers_iff)
            qed
          qed
          fix p
          show "page_at (mem_map ?n3) p = page_at (mem_map nap) p" if "page_at (mem_map nap) p \<noteq> None"
            using that old [of p] g(3) [of p] vm(2) by (auto split: if_splits)
          assume p: "page_at (mem_map nap) p = None \<and> page_at (mem_map ?n3) p \<noteq> None"
          then have r: "stop_of ?e \<le> p" "p < ?stop" using g(3) [of p] vm(2) by (auto split: if_splits)
          show "?lp < p" using r(1) i(2) by (simp add: covers_iff)
          show "p < (unat (break_addr ?n3) + 65535) div 65536 * 16" using r(2) by simp
          show "map_option pv_prot (page_at (mem_map ?n3) p) = map_option pv_prot (page_at (mem_map nap) ?lp)"
            using r g(3) [of p] e_page [OF i(2)] by (simp add: view_def)
        next
          fix p
          assume "?lp \<le> p \<and> p \<le> last_page (break_addr ?n3)"
          then have p: "?lp \<le> p" "p < ?stop" using nb_page by simp_all
          show "page_at (mem_map ?n3) p \<noteq> None"
          proof (cases "stop_of ?e \<le> p")
            case True
            with p g(3) [of p] show ?thesis by simp
          next
            case False
            with p i(2) have "covers ?e p" by (simp add: covers_iff)
            with False g(3) [of p] e_page vm(2) show ?thesis by simp
          qed
        qed
        ultimately show ?thesis unfolding run3 by (auto simp: mprotect_refused_def)
      qed
    qed
  qed
qed

lemma brk_pages_refl: "page_at (mem_map nap') = page_at (mem_map nap) \<Longrightarrow> break_addr nap' \<le> break_addr nap \<Longrightarrow>
    brk_pages nap nap'"
  by (auto simp: brk_pages_def)

lemma brk_frame_same: "vm_ok (mem_map nap) \<Longrightarrow> brk_frame nap (nap\<lparr> break_addr := b \<rparr>)"
  using brk_frame_intro [of "mem_map nap" nap b "host_log nap"] by simp

lemma brk_frame_refl: "vm_ok (mem_map nap) \<Longrightarrow> brk_frame nap nap"
  using brk_frame_same [of nap "break_addr nap"] by simp

lemma brk_frame_log: "brk_frame nap nap' \<Longrightarrow> brk_frame nap (nap'\<lparr> host_log := lg \<rparr>)"
proof -
  assume "brk_frame nap nap'"
  then obtain vm l b where "nap' = nap\<lparr> mem_map := vm, host_log := l, break_addr := b \<rparr>" "vm_ok vm"
    "other_refs vm = other_refs (mem_map nap)" unfolding brk_frame_def by blast
  moreover from this have "nap'\<lparr> host_log := lg \<rparr> = nap\<lparr> mem_map := vm, host_log := lg, break_addr := b \<rparr>" by simp
  ultimately show ?thesis using brk_frame_intro [of vm nap b lg] by (simp only:)
qed

lemma brk_frame_space:
  "brk_frame nap nap' \<Longrightarrow> mem_start nap' = mem_start nap \<and> addr_bits nap' = addr_bits nap \<and>
     dynamic_text_end nap' = dynamic_text_end nap \<and> data_end nap' = data_end nap"
  by (auto simp: brk_frame_def)

lemma brk_inv:
  assumes "mem_inv nap" and "brk_frame nap nap'" and "brk_pages nap nap'"
  shows "mem_inv nap'"
proof -
  note inv = mem_invD [OF assms(1)]
  obtain p where p: "page_at (mem_map nap) p \<noteq> None" "p * 4096 < unat (dynamic_text_end nap)" using inv(5) by blast
  have "page_at (mem_map nap') p \<noteq> None" using assms(3) p(1) by (simp add: brk_pages_def)
  moreover have "vm_ok (mem_map nap')" using assms(2) by (auto simp: brk_frame_def)
  ultimately show ?thesis using inv p(2) brk_frame_space [OF assms(2)] by (auto simp: mem_inv_def space_ok_def)
qed

definition brk_done :: "'a NaClApp_scheme \<Rightarrow> u64 \<Rightarrow> 'a NaClApp_scheme \<Rightarrow> bool" where
  "brk_done nap nb nap' \<longleftrightarrow> brk_frame nap nap' \<and> brk_pages nap nap' \<and> break_addr nap' \<in> {break_addr nap, nb} \<and>
     (data_end nap \<le> break_addr nap \<longrightarrow> data_end nap \<le> break_addr nap') \<and>
     (break_addr nap' < break_addr nap \<longrightarrow> host_log nap' = host_log nap) \<and>
     (break_addr nap < break_addr nap' \<longrightarrow> (\<exists>lg. host_log nap' =
        lg @ [HostMemset (mem_start nap + break_addr nap) (nb - break_addr nap)]))"

lemma brk_result:
  fixes nap :: "'a NaClApp_scheme"
  assumes "mem_inv nap" and "0 < unat (break_addr nap)" and "unat (break_addr nap) < 2 ^ addr_bits nap"
    and "\<not> pnacl_mode nap"
  shows "run_unless (mprotect_refused os \<or> page_at (mem_map nap) (last_page (break_addr nap)) = None)
    (NaClSysBrk os nap nb) (\<lambda>(nap', r). r = ucast (break_addr nap') \<and> brk_done nap nb nap' \<and>
      (nb \<noteq> 0 \<and> unat nb < 2 ^ addr_bits nap \<and> data_end nap \<le> nb \<and> (nb \<le> break_addr nap \<or> room_above nap nb) \<longrightarrow>
        break_addr nap' = nb))"
proof -
  note inv = mem_invD [OF assms(1)]
  have sys_nb: "NaClUserToSysAddr nap nb =
      (if nb \<noteq> 0 \<and> unat nb < 2 ^ addr_bits nap then mem_start nap + nb else kNaClBadAddress)"
    using unat_addr_limit(1) [OF inv(1)] by (auto simp: NaClUserToSysAddr_def word_le_nat_alt add.commute)
  have sys: "NaClUserToSys nap (break_addr nap) = Inr (mem_start nap + break_addr nap)"
    using assms(2,3) by (simp add: UserToSys_iff [OF inv(1)] user_addr_def)
  have stay: "brk_done nap nb nap" using inv(2) by (simp add: brk_done_def brk_frame_refl brk_pages_refl)
  consider (bad) "\<not> (nb \<noteq> 0 \<and> unat nb < 2 ^ addr_bits nap) \<or> nb < data_end nap"
    | (shrink) "nb \<noteq> 0" "unat nb < 2 ^ addr_bits nap" "data_end nap \<le> nb" "nb \<le> break_addr nap"
    | (grow) "nb \<noteq> 0" "unat nb < 2 ^ addr_bits nap" "data_end nap \<le> nb" "break_addr nap < nb"
    by (meson not_less)
  then show ?thesis
  proof cases
    case bad
    then have "NaClSysBrk os nap nb = Inr (nap, ucast (break_addr nap))"
      using assms(4) sys_nb by (auto simp: NaClSysBrk_def Let_def)
    moreover have "\<not> (nb \<noteq> 0 \<and> unat nb < 2 ^ addr_bits nap \<and> data_end nap \<le> nb)"
      using bad by (auto simp: not_le)
    ultimately show ?thesis using stay by auto
  next
    case shrink
    have "mem_start nap + nb \<noteq> kNaClBadAddress" by (rule range_not_bad [OF inv(1) shrink(2)])
    then have run: "NaClSysBrk os nap nb = Inr (nap\<lparr> break_addr := nb \<rparr>, ucast nb)"
      using shrink assms(4) sys_nb leD [OF shrink(3)] by (simp add: NaClSysBrk_def Let_def)
    have "brk_done nap nb (nap\<lparr> break_addr := nb \<rparr>)"
      using shrink inv(2) by (simp add: brk_done_def brk_frame_same brk_pages_refl not_less [symmetric])
    then show ?thesis unfolding run by simp
  next
    case grow
    let ?sb = "mem_start nap + break_addr nap" and ?sn = "mem_start nap + nb"
    have bad: "?sn \<noteq> kNaClBadAddress" by (rule range_not_bad [OF inv(1) grow(2)])
    have le: "unat (break_addr nap) < unat nb" using grow(4) by (simp add: word_less_nat_alt)
    have "unat ?sn = unat (mem_start nap) + unat nb" "unat ?sb = unat (mem_start nap) + unat (break_addr nap)"
      using grow(2) assms(3) by (simp_all add: unat_mem_start_add [OF inv(1)] user_addr_def)
    then have gt: "?sb < ?sn" using le by (simp add: word_less_nat_alt)
    have diff: "?sn - ?sb = nb - break_addr nap" by simp
    have run: "NaClSysBrk os nap nb = andThen (brk_grow os nap nb) (\<lambda>(nap', moved).
        if \<not> moved then Inr (nap', ucast (break_addr nap'))
        else Inr (snd (host os nap' (HostMemset ?sb (nb - break_addr nap))), ucast nb))"
      using grow(1,2) assms(4) sys_nb bad sys gt leD [OF grow(3)] not_le [THEN iffD2, OF grow(4)]
      unfolding NaClSysBrk_def Let_def by (simp add: split_def cong: if_cong)
    show ?thesis
      unfolding run
    proof (rule run_unless_bind [OF brk_grow_result [OF inv(1,2) grow(4) assms(2) grow(2)]])
      fix x :: "'a NaClApp_scheme \<times> bool"
      assume "case x of (nap', moved) \<Rightarrow> brk_frame nap nap' \<and> brk_pages nap nap' \<and>
        break_addr nap' = (if moved then nb else break_addr nap) \<and> (room_above nap nb \<longrightarrow> moved)"
      then obtain n1 g where x: "x = (n1, g)" "brk_frame nap n1" "brk_pages nap n1"
        "break_addr n1 = (if g then nb else break_addr nap)" "room_above nap nb \<longrightarrow> g" by (cases x) auto
      let ?call = "HostMemset ?sb (nb - break_addr nap)"
      let ?n2 = "n1\<lparr> host_log := host_log n1 @ [?call] \<rparr>"
      show "run_unless (mprotect_refused os \<or> page_at (mem_map nap) (last_page (break_addr nap)) = None)
        (case x of (nap', moved) \<Rightarrow> if \<not> moved then Inr (nap', ucast (break_addr nap'))
          else Inr (snd (host os nap' ?call), ucast nb))
        (\<lambda>(nap', r). r = ucast (break_addr nap') \<and> brk_done nap nb nap' \<and>
          (nb \<noteq> 0 \<and> unat nb < 2 ^ addr_bits nap \<and> data_end nap \<le> nb \<and> (nb \<le> break_addr nap \<or> room_above nap nb) \<longrightarrow>
        break_addr nap' = nb))"
      proof (cases g)
        case False
        with x grow(4) have "brk_done nap nb n1" by (simp add: brk_done_def)
        with False x(1,4,5) grow(4) show ?thesis by (simp add: not_le [symmetric])
      next
        case True
        have "brk_pages nap ?n2" using x(3) by (simp add: brk_pages_def)
        with True x grow(3,4) brk_frame_log [OF x(2)] have "brk_done nap nb ?n2"
          by (auto simp: brk_done_def less_imp_not_less)
        with True x(1,4) grow(4) show ?thesis by (simp add: host_def not_le [symmetric])
      qed
    qed
  qed
qed

text \<open> C30. \<open>brk\<close> returns the break, which is the old or the requested one and never falls below the end of
  the data.  A request for an address from the end of the data on is granted when it is at or below
  the break, or when nothing is mapped above the page of the break up to the end of its allocation unit.  No page loses
  its mapping; the pages that are added follow the page of the old break, stay within the
  allocation unit of the new one and share its protection; once the break has grown, every
  page up to it is mapped and the bytes between the two breaks have been cleared.  The
  process is stopped only when the host refuses or the page of the old break has been unmapped.\<close>

theorem brk_exact:
  assumes "mem_inv nap" and "0 < unat (break_addr nap)" and "unat (break_addr nap) < 2 ^ addr_bits nap"
    and "\<not> pnacl_mode nap"
  shows "run_unless (mprotect_refused os \<or> page_at (mem_map nap) (last_page (break_addr nap)) = None)
    (NaClSysBrk os nap nb) (\<lambda>(nap', r). r = ucast (break_addr nap') \<and> brk_done nap nb nap' \<and> mem_inv nap' \<and>
      (nb \<noteq> 0 \<and> unat nb < 2 ^ addr_bits nap \<and> data_end nap \<le> nb \<and> (nb \<le> break_addr nap \<or> room_above nap nb) \<longrightarrow>
        break_addr nap' = nb))"
  by (rule run_unless_weaken [OF brk_result [OF assms]]) (auto simp: brk_done_def brk_inv [OF assms(1)])

definition sample_brk :: NaClApp where
  "sample_brk = sample_mem\<lparr> data_end := 0x10007000, break_addr := 0x10008000 \<rparr>"

lemma brk_exact_witness:
  "\<exists>nap'. NaClSysBrk granting_os sample_brk 0x10012000 = Inr (nap', 0x10012000) \<and> mem_inv nap' \<and>
    break_addr nap' = 0x10012000 \<and> page_at (mem_map nap') 0x10011 \<noteq> None \<and>
    page_at (mem_map nap') 0x10000 = page_at sample_vm 0x10000"
proof -
  have inv: "mem_inv sample_brk"
    using sample_mem_inv by (simp add: mem_inv_def sample_brk_def space_ok_def)
  have brk: "break_addr sample_brk = 0x10008000" "data_end sample_brk = 0x10007000" "mem_map sample_brk = sample_vm"
    "addr_bits sample_brk = 32" "\<not> pnacl_mode sample_brk"
    by (simp_all add: sample_brk_def sample_mem_def sample_space_def)
  have pages: "page_at sample_vm 0x10000 \<noteq> None" "page_at sample_vm 0x10007 \<noteq> None"
    by (simp_all add: sample_vm_def page_at_def covers_def)
  have room: "room_above sample_brk 0x10012000"
    by (simp add: room_above_def brk last_page_def sample_vm_def page_at_def covers_def)
  have quiet: "\<not> (mprotect_refused granting_os \<or> page_at (mem_map sample_brk) (last_page (break_addr sample_brk)) = None)"
    using granting_mprotect pages(2) by (simp add: brk last_page_def)
  have pos: "0 < unat (break_addr sample_brk)" "unat (break_addr sample_brk) < 2 ^ addr_bits sample_brk"
    by (simp_all add: brk)
  note ex = brk_exact [OF inv pos brk(5), where nb = "0x10012000" and os = granting_os]
  from run_unlessE [OF ex quiet] room
  obtain nap' where nap': "NaClSysBrk granting_os sample_brk 0x10012000 = Inr (nap', ucast (break_addr nap'))"
    "brk_done sample_brk 0x10012000 nap'" "mem_inv nap'" "break_addr nap' = 0x10012000"
    by (auto simp: brk)
  from nap'(2) have "page_at (mem_map nap') 0x10000 = page_at (mem_map sample_brk) 0x10000"
    "page_at (mem_map nap') 0x10011 \<noteq> None"
    using pages nap'(4) by (simp_all add: brk_done_def brk_pages_def brk last_page_def)
  with nap' show ?thesis by (simp add: brk)
qed

end
