(* ===== verification/Sys_Mmap_Proofs.thy ===== *)
theory Sys_Mmap_Proofs
  imports Sys_Mmap Sys_Brk_Proofs
begin

text \<open>
  \<open>mmap\<close> of data: anonymous memory and files.  A call either changes nothing of the memory map, or
  maps exactly one range of whole allocation units above the executable pages.
\<close>

subsection \<open>Error values\<close>

definition sys_error :: "u64 \<Rightarrow> bool" where
  "sys_error m \<longleftrightarrow> 2 ^ 64 - 4096 < unat m"

lemma sys_error_neg:
  assumes "sys_error m"
  shows "NaClPtrIsNegErrno m" and "m \<noteq> - E_MOVE_ADDRESS_SPACE" and "2 ^ 32 - 4096 < unat (ucast m :: u32)"
    and "m \<noteq> 0"
proof -
  have m: "2 ^ 64 - 4096 < unat m" using assms by (simp add: sys_error_def)
  have "unat m < 2 ^ 64" by (rule unat_lt64)
  have "unat (m AND NOT (mask 16)) = unat m div 2 ^ 16 * 2 ^ 16" by (rule unat_and_not_mask)
  also have "\<dots> = 2 ^ 64 - 2 ^ 16" using m \<open>unat m < 2 ^ 64\<close> by simp
  also have "\<dots> = unat (NOT (mask 16) :: u64)" by (simp add: mask_eq_exp_minus_1)
  finally show "NaClPtrIsNegErrno m"
    by (simp only: NaClPtrIsNegErrno_def mask_numerals word_unat_eq_iff)
  show "m \<noteq> - E_MOVE_ADDRESS_SPACE" "m \<noteq> 0" using m by auto
  have "unat (ucast m :: u32) = unat m mod 2 ^ 32" by (simp add: unsigned_ucast_eq take_bit_eq_mod)
  moreover have "2 ^ 32 - 4096 < unat m mod 2 ^ 32"
  proof -
    define r where "r = unat m - (2 ^ 64 - 2 ^ 32)"
    have r: "2 ^ 32 - 4096 < r" "r < 2 ^ 32" using m \<open>unat m < 2 ^ 64\<close> unfolding r_def by simp_all
    have "unat m = (2 ^ 32 - 1) * 2 ^ 32 + r" using m unfolding r_def by simp
    then have "unat m mod 2 ^ 32 = r" using r(2) by (simp only: mod_mult_self3 mod_less)
    with r(1) show ?thesis by (simp only:)
  qed
  ultimately show "2 ^ 32 - 4096 < unat (ucast m :: u32)" by (simp only:)
qed

lemma sys_error_errno: "0 < e \<Longrightarrow> e < 4096 \<Longrightarrow> sys_error (neg_errno64 e)"
proof -
  assume e: "0 < e" "e < 4096"
  have "uint (word_of_int (- e) :: u64) = (- e) mod 2 ^ 64" by (simp only: uint_word_of_int len_of_numeral_defs) simp
  also have "\<dots> = 2 ^ 64 - e" using e by (simp add: mod_pos_geq zmod_zminus1_eq_if)
  finally have "int (unat (neg_errno64 e)) = 2 ^ 64 - e" by (simp only: neg_errno64_def uint_nat)
  then have "unat (neg_errno64 e) = nat (2 ^ 64 - e)" by (metis nat_int)
  moreover have "2 ^ 64 - 4096 < nat (2 ^ 64 - e)" using e by simp
  ultimately show ?thesis by (simp only: sys_error_def)
qed

lemma sys_error_errnos [simp]:
  "sys_error (neg_errno64 EBADF)" "sys_error (neg_errno64 EINVAL)"
  "sys_error (neg_errno64 ENODEV)" "sys_error (neg_errno64 ENOMEM)"
  by (simp_all add: sys_error_errno)

text \<open>The results of the host: \<open>errno\<close> is between 1 and 4095, and a mapping at a fixed address is
  placed there or fails.\<close>

definition linux_host :: "os \<Rightarrow> 'md DescOps \<Rightarrow> bool" where
  "linux_host os ops \<longleftrightarrow>
     (\<forall>lg. 0 < unat (os lg HostErrno) \<and> unat (os lg HostErrno) < 4096) \<and>
     (\<forall>lg d. fst (Fstat ops lg d) = 0 \<or> sys_error (scast (fst (Fstat ops lg d)))) \<and>
     (\<forall>lg a len pr fl off. fl AND MAP_FIXED \<noteq> 0 \<longrightarrow>
        os lg (HostMapAnon a len pr fl off) = a \<or> sys_error (os lg (HostMapAnon a len pr fl off))) \<and>
     (\<forall>lg d a len pr fl off. fl AND MAP_FIXED \<noteq> 0 \<longrightarrow>
        os lg (HostMapDesc d a len pr fl off) = a \<or> sys_error (os lg (HostMapDesc d a len pr fl off)))"

lemma linux_hostD:
  assumes "linux_host os ops"
  shows "0 < unat (os lg HostErrno)" and "unat (os lg HostErrno) < 4096"
    and "fl AND MAP_FIXED \<noteq> 0 \<Longrightarrow>
      os lg (HostMapAnon a len pr fl off) = a \<or> sys_error (os lg (HostMapAnon a len pr fl off))"
    and "fl AND MAP_FIXED \<noteq> 0 \<Longrightarrow>
      os lg (HostMapDesc d a len pr fl off) = a \<or> sys_error (os lg (HostMapDesc d a len pr fl off))"
  using assms unfolding linux_host_def by blast+

lemma scast_errno:
  assumes "0 < unat e" and "unat e < 4096"
  shows "sys_error (scast (- ucast (e :: u64) :: u32))"
proof -
  define k where "k = int (unat e)"
  have k: "0 < k" "k < 4096" using assms unfolding k_def by linarith+
  have "e = word_of_int k" by (simp add: k_def)
  then have "(- ucast e :: u32) = word_of_int (- k)" using k by (simp add: unsigned_of_int take_bit_int_eq_self)
  moreover have "sint (word_of_int (- k) :: u32) = - k"
    using k by (simp only: sint_sbintrunc' len_of_numeral_defs) (simp add: signed_take_bit_int_eq_self)
  ultimately have "(scast (- ucast e :: u32) :: u64) = neg_errno64 k"
    by (simp only: neg_errno64_def scast_eq)
  then show ?thesis using sys_error_errno [OF k] by simp
qed

lemma linux_errno:
  assumes "linux_host os ops"
  shows "errno_set os"
  unfolding errno_set_def
proof (intro allI notI)
  fix lg
  assume "ucast (os lg HostErrno) = (0 :: u32)"
  with scast_errno [OF linux_hostD(1,2) [OF assms], of lg] show False by (simp add: sys_error_def)
qed

subsection \<open>The checks and the choice of the address\<close>

text \<open>What the checks establish for a call that maps data.\<close>

definition known_size :: "'md DescOps \<Rightarrow> 'a NaClApp_scheme \<Rightarrow> nat option \<Rightarrow> u64 \<Rightarrow> bool" where
  "known_size ops nap ndp fsz \<longleftrightarrow>
     (case ndp of None \<Rightarrow> fsz = kMaxUsableFileSize | Some d \<Rightarrow> fsz = snd (snd (Fstat ops (host_log nap) d)))"

definition data_plan :: "'md DescOps \<Rightarrow> 'a NaClApp_scheme \<Rightarrow> u64 \<Rightarrow> nat option \<Rightarrow> mmap_plan \<Rightarrow> bool" where
  "data_plan ops nap len ndp plan \<longleftrightarrow> \<not> plan_code plan \<and> plan_alloc_length plan = NaClRoundAllocPage len \<and>
     4096 dvd unat (plan_length plan) \<and> plan_length plan \<le> plan_alloc_length plan \<and>
     (ndp = None \<longrightarrow> plan_length plan = plan_alloc_length plan) \<and>
     known_size ops nap ndp (plan_file_size plan)"

lemma size_min_left: "size_min a b \<le> a"
  by (auto simp: size_min_def)

lemma kMax: "unat kMaxUsableFileSize = 2 ^ 63 - 1"
  by (simp add: kMaxUsableFileSize_def drop_bit_eq_div unat_div unsigned_minus_1_eq_mask mask_eq_exp_minus_1)

lemma size_min_kMax: "unat a \<le> 2 ^ 32 \<Longrightarrow> size_min a kMaxUsableFileSize = a"
proof -
  assume "unat a \<le> 2 ^ 32"
  then have "unat a < unat kMaxUsableFileSize" unfolding kMax by (rule le_less_trans) simp
  then show ?thesis by (simp add: size_min_def word_less_nat_alt)
qed

lemma size_min_pages:
  assumes "unat a \<le> 2 ^ 32" and "65536 dvd unat a" and "b = kMaxUsableFileSize \<or> 4096 dvd unat b"
  shows "4096 dvd unat (size_min a b)"
proof -
  have "4096 dvd unat a" using assms(2) by (rule dvd_trans [rotated]) simp
  with assms show ?thesis by (auto simp: size_min_kMax) (simp add: size_min_def)
qed

lemma round_page_dvd: "4096 dvd unat (NaClRoundPage n)"
  by (simp add: NaClRoundPage_def mask_numerals unat_and_not_mask)

lemma alloc_len_bound:
  assumes "unat len < 2 ^ 32"
  shows "unat (NaClRoundAllocPage len) \<le> 2 ^ 32"
  using assms unfolding round_len(1) [OF assms] by simp

lemma kMax_top: "x \<le>s kMaxUsableFileSize"
proof -
  have "sint kMaxUsableFileSize = 2 ^ 63 - 1"
    using kMax by (simp add: sint_uint uint_nat signed_take_bit_int_eq_self)
  moreover have "sint x < 2 ^ 63" using sint_lt [of x] by simp
  ultimately show ?thesis by (simp add: word_sle_eq)
qed

lemma file_sizes_result:
  assumes "linux_host os ops"
  shows "\<exists>res. mmap_file_sizes ops nap ndp off = Inr res \<and>
    (case res of Inl e \<Rightarrow> sys_error e
     | Inr (fsz, fb, hb) \<Rightarrow> (hb = kMaxUsableFileSize \<or> 4096 dvd unat hb) \<and>
         (ndp = None \<longrightarrow> hb = kMaxUsableFileSize) \<and> known_size ops nap ndp fsz)"
proof (cases ndp)
  case None
  then show ?thesis by (simp add: mmap_file_sizes_def known_size_def)
next
  case (Some d)
  obtain ret md sz where f: "Fstat ops (host_log nap) d = (ret, md, sz)" by (cases "Fstat ops (host_log nap) d") auto
  with assms have "ret = 0 \<or> sys_error (scast ret)" unfolding linux_host_def by (metis fst_conv)
  with Some f show ?thesis
    using round_page_dvd by (auto simp: mmap_file_sizes_def known_size_def Let_def kMax_top cassert_def NaClRoundHostAllocPage_def)
qed

lemma checks_result:
  assumes "linux_host os ops" and "unat len < 2 ^ 32"
    and "mmap_mapping_code nap usraddr len pr fl ndp \<noteq> Inr True"
  shows "\<exists>res. mmap_checks ops nap usraddr len pr fl ndp off = Inr res \<and>
    (case res of Inl e \<Rightarrow> sys_error e
     | Inr plan \<Rightarrow> data_plan ops nap len ndp plan \<and> len \<noteq> 0 \<and> 65536 dvd unat usraddr)"
proof (cases "mmap_mapping_code nap usraddr len pr fl ndp")
  case (Inl e)
  then show ?thesis by (auto simp: mmap_checks_def mmap_mapping_code_def split: if_splits)
next
  case (Inr b)
  with assms(3) have code: "mmap_mapping_code nap usraddr len pr fl ndp = Inr False" by simp
  obtain sizes where sizes: "mmap_file_sizes ops nap ndp off = Inr sizes"
    "case sizes of Inl e \<Rightarrow> sys_error e
     | Inr (fsz, fb, hb) \<Rightarrow> (hb = kMaxUsableFileSize \<or> 4096 dvd unat hb) \<and>
         (ndp = None \<longrightarrow> hb = kMaxUsableFileSize) \<and> known_size ops nap ndp fsz"
    using file_sizes_result [OF assms(1)] by blast
  note r = round_len [OF assms(2)] alloc_len_bound [OF assms(2)]
  show ?thesis
  proof (cases "NaClIsAllocPageMultiple usraddr \<and> \<not> off <s 0 \<and> NaClIsAllocPageMultiple off \<and> len \<noteq> 0")
    case False
    then show ?thesis by (auto simp: mmap_checks_def code Let_def)
  next
    case True
    then have al: "65536 dvd unat usraddr" by (simp add: is_multiple_nat)
    show ?thesis
    proof (cases sizes)
      case (Inl e)
      with True sizes show ?thesis by (simp add: mmap_checks_def code Let_def)
    next
      case (Inr t)
      obtain fsz fb hb where t: "t = (fsz, fb, hb)" by (cases t) auto
      have sz: "hb = kMaxUsableFileSize \<or> 4096 dvd unat hb" "ndp = None \<longrightarrow> hb = kMaxUsableFileSize"
        "known_size ops nap ndp fsz" using sizes(2) by (simp_all add: Inr t)
      let ?plan = "\<lparr> plan_code = False, plan_alloc_length = NaClRoundAllocPage len,
        plan_length = size_min (NaClRoundAllocPage len) hb, plan_file_size = fsz, plan_file_bytes = fb \<rparr>"
      have "mmap_checks ops nap usraddr len pr fl ndp off = Inr (Inr ?plan)"
        using True sizes(1) by (simp add: mmap_checks_def code Let_def Inr t)
      moreover have "data_plan ops nap len ndp ?plan"
        using sz size_min_pages [OF r(4,2) sz(1)] size_min_kMax [OF r(4)] by (auto simp: data_plan_def size_min_left)
      ultimately show ?thesis using True al by auto
    qed
  qed
qed

definition place_ok :: "NaClVmmap \<Rightarrow> u64 \<Rightarrow> NaClVmmap \<times> u64 \<Rightarrow> bool" where
  "place_ok vm0 n = (\<lambda>(vm, pg). found vm0 vm \<and>
     (pg \<noteq> 0 \<longrightarrow> 16 dvd unat pg \<and> free_range vm0 (unat pg) (unat n) \<and> unat pg + unat n \<le> max_pages))"

lemma found_trans: "found a b \<Longrightarrow> found b c \<Longrightarrow> found a c"
  by (simp add: found_def)

lemma round_up16_id: "16 dvd n \<Longrightarrow> round_up16 n = n"
  by (auto simp: round_up16_def elim!: dvdE)

lemma find_place:
  assumes "vm_ok vm0" and "n \<noteq> 0" and "unat n + 15 < 2 ^ 64" and "16 dvd unat n"
  obtains res where "NaClVmmapFindMapSpace vm0 n = Inr res" and "place_ok vm0 n res"
proof (rule FindMapSpace_result [OF assms(1-3)])
  fix s r
  assume "NaClVmmapFindMapSpace vm0 n = Inr (s, r)" "found vm0 s"
    "if r = 0 then \<not> (\<exists>q. 16 dvd q \<and> hole vm0 q (round_up16 (unat n)))
     else 16 dvd unat r \<and> hole vm0 (unat r) (round_up16 (unat n)) \<and> unat r + round_up16 (unat n) \<le> max_pages"
  then show thesis
    by (intro that [of "(s, r)"]) (simp_all add: place_ok_def round_up16_id [OF assms(4)] hole_def split: if_splits)
qed

lemma find_place_hint:
  assumes "vm_ok vm0" and "n \<noteq> 0" and "unat n + 15 < 2 ^ 64" and "16 dvd unat n"
    and "16 dvd unat uaddr div 4096"
  obtains res where "NaClVmmapFindMapSpaceAboveHint vm0 uaddr n = Inr res" and "place_ok vm0 n res"
proof (rule FindMapSpaceAboveHint_result [OF assms(1-3,5)])
  fix s r
  assume "NaClVmmapFindMapSpaceAboveHint vm0 uaddr n = Inr (s, r)" "found vm0 s"
    "if r = 0 then \<not> (\<exists>q. 16 dvd q \<and> unat uaddr div 4096 \<le> q \<and> hole vm0 q (round_up16 (unat n)))
     else 16 dvd unat r \<and> unat uaddr div 4096 \<le> unat r \<and> hole vm0 (unat r) (round_up16 (unat n)) \<and>
       unat r + round_up16 (unat n) \<le> max_pages"
  then show thesis
    by (intro that [of "(s, r)"]) (simp_all add: place_ok_def round_up16_id [OF assms(4)] hole_def split: if_splits)
qed

lemma place_ok_trans:
  assumes "found vm0 vm1" and "place_ok vm1 n res"
  shows "place_ok vm0 n res"
proof -
  have "free_range vm1 = free_range vm0" using assms(1) by (simp add: found_def free_range_def fun_eq_iff)
  with assms show ?thesis by (auto simp: place_ok_def found_def)
qed

lemma place_pages:
  assumes "place_ok vm0 (drop_bit 12 alen) (vm, pg)" and "pg \<noteq> 0" and "65536 dvd unat alen"
  shows "65536 dvd unat (push_bit 12 pg)" and "push_bit 12 pg \<noteq> 0"
    and "in_bytes (push_bit 12 pg) alen p \<Longrightarrow> page_at vm0 p = None"
proof -
  have pg: "16 dvd unat pg" "free_range vm0 (unat pg) (unat (drop_bit 12 alen))"
    "unat pg + unat (drop_bit 12 alen) \<le> 2 ^ 31"
    using assms(1,2) by (simp_all add: place_ok_def max_pages_def)
  obtain k q where k: "unat alen = 65536 * k" "unat pg = 16 * q" using assms(3) pg(1) by (auto elim!: dvdE)
  have n: "unat (drop_bit 12 alen) = 16 * k" by (simp add: unat_pages k)
  have "unat pg < 2 ^ 52" using pg(3) by simp
  then have "unat pg * 4096 < 2 ^ 64" by simp
  then have u: "unat (push_bit 12 pg) = unat pg * 4096"
    by (simp add: push_bit_eq_mult unat_word_ariths)
  show "65536 dvd unat (push_bit 12 pg)" using u k(2) by simp
  have "unat pg \<noteq> 0" using assms(2) unat_eq_0 by blast
  then have "unat (push_bit 12 pg) \<noteq> 0" unfolding u by simp
  then show "push_bit 12 pg \<noteq> 0" by (metis unat_0)
  show "page_at vm0 p = None" if "in_bytes (push_bit 12 pg) alen p"
    using that pg(2) by (auto simp: in_bytes_def u free_range_def n k)
qed

lemma place_result:
  assumes "mem_inv nap" and "65536 dvd unat usraddr" and "len \<noteq> 0" and "unat len < 2 ^ 32"
  shows "\<exists>vm res. mmap_place nap usraddr (NaClRoundAllocPage len) fl = Inr (nap\<lparr> mem_map := vm \<rparr>, res) \<and>
    found (mem_map nap) vm \<and>
    (case res of Inl e \<Rightarrow> sys_error e \<and> fl AND MAP_FIXED = 0
     | Inr u \<Rightarrow> if fl AND MAP_FIXED \<noteq> 0 then u = usraddr
         else 65536 dvd unat u \<and> u \<noteq> 0 \<and>
           (\<forall>p. in_bytes u (NaClRoundAllocPage len) p \<longrightarrow> page_at (mem_map nap) p = None))"
proof (cases "fl AND MAP_FIXED = 0")
  case False
  have "found (mem_map nap) (mem_map nap)" using mem_invD(2) [OF assms(1)] by (simp add: found_def)
  with False show ?thesis by (intro exI [of _ "mem_map nap"] exI [of _ "Inr usraddr"]) (simp add: mmap_place_def)
next
  case True
  note inv = mem_invD [OF assms(1)] and r = round_len [OF assms(4)] alloc_len_bound [OF assms(4)]
  let ?alen = "NaClRoundAllocPage len"
  let ?n = "drop_bit 12 ?alen"
  obtain k where k: "unat ?alen = 65536 * k" using r(2) by (auto elim: dvdE)
  have n: "unat ?n = 16 * k" by (simp add: unat_pages k)
  have "unat ?alen \<noteq> 0" using r(3) assms(3) unat_eq_0 by blast
  then have "k \<noteq> 0" using k by simp
  with n have n_ok: "?n \<noteq> 0" "unat ?n + 15 < 2 ^ 64" "16 dvd unat ?n"
    using k r(4) unat_eq_0 [of ?n] by auto
  have al: "16 dvd unat usraddr div 4096" using assms(2) by (auto elim!: dvdE)
  have "\<exists>res. (if usraddr = 0 then NaClVmmapFindMapSpace (mem_map nap) ?n
      else andThen (NaClVmmapFindMapSpaceAboveHint (mem_map nap) usraddr ?n) (\<lambda>(vm, usrpage).
        if usrpage = 0 then NaClVmmapFindMapSpace vm ?n else Inr (vm, usrpage))) = Inr res \<and>
    place_ok (mem_map nap) ?n res"
  proof (cases "usraddr = 0")
    case True
    then show ?thesis using find_place [OF inv(2) n_ok] by (simp only: if_True) metis
  next
    case False
    obtain vm pg where h: "NaClVmmapFindMapSpaceAboveHint (mem_map nap) usraddr ?n = Inr (vm, pg)"
      "place_ok (mem_map nap) ?n (vm, pg)"
      using find_place_hint [OF inv(2) n_ok al] by (metis surj_pair)
    then have f: "found (mem_map nap) vm" "vm_ok vm" by (simp_all add: place_ok_def found_def)
    obtain res where "NaClVmmapFindMapSpace vm ?n = Inr res" "place_ok vm ?n res"
      using find_place [OF f(2) n_ok] by blast
    with place_ok_trans [OF f(1)] h False show ?thesis by (cases "pg = 0") auto
  qed
  then obtain found_at where fa: "(if usraddr = 0 then NaClVmmapFindMapSpace (mem_map nap) ?n
      else andThen (NaClVmmapFindMapSpaceAboveHint (mem_map nap) usraddr ?n) (\<lambda>(vm, usrpage).
        if usrpage = 0 then NaClVmmapFindMapSpace vm ?n else Inr (vm, usrpage))) = Inr found_at"
    "place_ok (mem_map nap) ?n found_at" by blast
  obtain vm pg where "found_at = (vm, pg)" by (cases found_at)
  note vp = fa [unfolded this]
  have run: "mmap_place nap usraddr ?alen fl = (if pg = 0 then Inr (nap\<lparr> mem_map := vm \<rparr>, Inl (neg_errno64 ENOMEM))
      else Inr (nap\<lparr> mem_map := vm \<rparr>, Inr (push_bit 12 pg)))"
    using True by (simp only: mmap_place_def Let_def vp(1)) simp
  have f: "found (mem_map nap) vm" using vp(2) by (simp add: place_ok_def)
  show ?thesis
  proof (cases "pg = 0")
    case True
    with \<open>fl AND MAP_FIXED = 0\<close> f show ?thesis
      by (intro exI [of _ vm] exI [of _ "Inl (neg_errno64 ENOMEM)"]) (simp add: run)
  next
    case False
    note pp = place_pages [OF vp(2) False r(2)]
    have "mmap_place nap usraddr ?alen fl = Inr (nap\<lparr> mem_map := vm \<rparr>, Inr (push_bit 12 pg))"
      using False by (simp add: run)
    then show ?thesis using f True pp by (intro exI [of _ vm] exI [of _ "Inr (push_bit 12 pg)"]) simp
  qed
qed

subsection \<open>Mapping data\<close>

definition map_call :: "nat option \<Rightarrow> u64 \<Rightarrow> u64 \<Rightarrow> u64 \<Rightarrow> u32 \<Rightarrow> u32 \<Rightarrow> u64 \<Rightarrow> host_call" where
  "map_call ndp a len file_len pr fl off =
     (case ndp of None \<Rightarrow> HostMapAnon a len pr fl off | Some d \<Rightarrow> HostMapDesc d a (size_min len file_len) pr fl off)"

definition map_calls :: "nat option \<Rightarrow> u64 \<Rightarrow> u64 \<Rightarrow> u64 \<Rightarrow> u64 \<Rightarrow> u32 \<Rightarrow> u32 \<Rightarrow> u64 \<Rightarrow> host_call list" where
  "map_calls ndp a alloc_len len file_len pr fl off =
     (if len = 0 then [] else [map_call ndp a len file_len pr fl off]) @
     (if len < alloc_len then [HostMmapNone (a + len) (alloc_len - len)] else [])"

lemma sys_addr_not_error:
  assumes "space_ok nap" and "unat u + 65536 \<le> 2 ^ addr_bits nap"
  shows "\<not> NaClPtrIsNegErrno (mem_start nap + u)"
proof -
  let ?a = "mem_start nap + u"
  have "unat ?a = unat (mem_start nap) + unat u"
    using assms by (intro unat_mem_start_add) (simp_all add: user_addr_def)
  then have a: "unat ?a < 2 ^ 64 - 2 ^ 16" using assms by (simp add: space_ok_def)
  have "unat (?a AND NOT (mask 16)) \<le> unat ?a" unfolding unat_and_not_mask by simp
  moreover have "unat (NOT (mask 16) :: u64) = 2 ^ 64 - 2 ^ 16" by (simp add: mask_eq_exp_minus_1)
  ultimately have "unat (?a AND NOT (mask 16)) \<noteq> unat (NOT (mask 16) :: u64)" using a by simp
  then show ?thesis unfolding NaClPtrIsNegErrno_def mask_numerals by metis
qed

lemma data_map_result:
  assumes "linux_host os ops" and "fl AND MAP_FIXED \<noteq> 0" and "\<not> NaClPtrIsNegErrno sysaddr"
  shows "\<exists>calls res. mmap_data_map os nap plan sysaddr pr fl ndp off = Inr (nap\<lparr> host_log := host_log nap @ calls \<rparr>, res) \<and>
    (case res of Some e \<Rightarrow> sys_error e
     | None \<Rightarrow> calls = (if plan_length plan = 0 then []
         else [map_call ndp sysaddr (plan_length plan) (plan_file_bytes plan) pr fl off]))"
proof (cases "plan_length plan = 0")
  case True
  then show ?thesis by (intro exI [of _ "[]"] exI [of _ None]) (simp add: mmap_data_map_def)
next
  case False
  let ?call = "map_call ndp sysaddr (plan_length plan) (plan_file_bytes plan) pr fl off"
  let ?m = "os (host_log nap) ?call"
  have m: "?m = sysaddr \<or> sys_error ?m"
    using linux_hostD(3,4) [OF assms(1,2)] by (cases ndp) (simp_all add: map_call_def)
  have run: "mmap_data_map os nap plan sysaddr pr fl ndp off =
     (let nap = nap\<lparr> host_log := host_log nap @ [?call] \<rparr> in
      if NaClPtrIsNegErrno ?m then
        if ?m = - E_MOVE_ADDRESS_SPACE then Inl LogFatal else Inr (nap, Some ?m)
      else if ?m \<noteq> sysaddr then Inl LogFatal else Inr (nap, None))"
    using False unfolding mmap_data_map_def host_def Let_def
    by (simp add: map_call_def word_gt_0 split: option.split)
  show ?thesis
  proof (cases "sys_error ?m")
    case True
    note e = sys_error_neg [OF True]
    show ?thesis
      by (intro exI [of _ "[?call]"] exI [of _ "Some ?m"]) (simp add: run Let_def e(1,2) True)
  next
    case ne: False
    with m have "?m = sysaddr" by simp
    with assms(3) show ?thesis
      by (intro exI [of _ "[?call]"] exI [of _ None]) (simp add: run Let_def False)
  qed
qed

text \<open>The pages and the host calls of a successful data mapping at \<open>u\<close>.\<close>

definition data_mapped ::
  "'md DescOps \<Rightarrow> 'a NaClApp_scheme \<Rightarrow> u64 \<Rightarrow> u64 \<Rightarrow> u32 \<Rightarrow> u32 \<Rightarrow> nat option \<Rightarrow> u64 \<Rightarrow> 'a NaClApp_scheme \<Rightarrow> bool" where
  "data_mapped ops nap u alloc_len pr fl ndp off nap' \<longleftrightarrow>
     (\<exists>fsz. known_size ops nap ndp fsz \<and>
        page_at (mem_map nap') = (\<lambda>p. if in_bytes u alloc_len p
          then Some (new_page (drop_bit 12 u) pr fl ndp off fsz p) else page_at (mem_map nap) p)) \<and>
     (\<exists>len file_len. len \<le> alloc_len \<and> 4096 dvd unat len \<and> (ndp = None \<longrightarrow> len = alloc_len) \<and>
        host_log nap' = host_log nap @ map_calls ndp (mem_start nap + u) alloc_len len file_len pr fl off)"

definition same_pages :: "'a NaClApp_scheme \<Rightarrow> 'a NaClApp_scheme \<Rightarrow> bool" where
  "same_pages nap nap' \<longleftrightarrow> vm_ok (mem_map nap') \<and> page_at (mem_map nap') = page_at (mem_map nap)"

lemma tail_result:
  assumes "linux_host os ops" and "mem_inv nap" and "data_range nap u alen" and "4096 dvd unat len" and "len \<le> alen"
  shows "\<exists>nap' ret. (if len < alen then MunmapInternal os nap (mem_start nap + u + len) (alen - len)
      else Inr (nap, 0)) = Inr (nap', ret) \<and> frame nap nap' \<and>
    (if ret = 0
     then vm_ok (mem_map nap') \<and> (\<forall>p. \<not> in_bytes u alen p \<longrightarrow> page_at (mem_map nap') p = page_at (mem_map nap) p) \<and>
       host_log nap' = host_log nap @ (if len < alen then [HostMmapNone (mem_start nap + u + len) (alen - len)] else [])
     else sys_error (scast ret) \<and> mem_map nap' = mem_map nap)"
proof (cases "len < alen")
  case False
  then show ?thesis using mem_invD(2) [OF assms(2)] frame_refl [of nap] by simp
next
  case True
  note inv = mem_invD [OF assms(2)]
  have d: "65536 dvd unat u" "65536 dvd unat alen" "unat (dynamic_text_end nap) \<le> unat u"
    "unat u + unat alen \<le> 2 ^ addr_bits nap" using assms(3) by (simp_all add: data_range_def)
  have le: "unat len < unat alen" using True by (simp add: word_less_nat_alt)
  have diff: "unat (alen - len) = unat alen - unat len" using le by (intro unat_sub_le) simp
  have "unat u + unat len \<le> 2 ^ 32" using d(4) le unat_addr_limit(2) [OF inv(1)] by linarith
  then have "unat u + unat len < 2 ^ 64" by simp
  then have sum: "unat (u + len) = unat u + unat len" by (intro unat_add_small) simp
  have dvds: "4096 dvd unat u" "4096 dvd unat alen" using d(1,2) by (auto intro: dvd_trans [of 4096 65536])
  have pre: "4096 dvd unat (u + len)" "4096 dvd unat (alen - len)" "alen - len \<noteq> 0"
    "unat (dynamic_text_end nap) \<le> unat (u + len)" "unat (u + len) + unat (alen - len) \<le> 2 ^ addr_bits nap"
  proof -
    show "4096 dvd unat (u + len)" unfolding sum using dvds(1) assms(4) by (rule dvd_add)
    show "4096 dvd unat (alen - len)" unfolding diff using dvds(2) assms(4) by (rule dvd_diff_nat)
    show "alen - len \<noteq> 0" using le by auto
    show "unat (dynamic_text_end nap) \<le> unat (u + len)" unfolding sum using d(3) by simp
    show "unat (u + len) + unat (alen - len) \<le> 2 ^ addr_bits nap" unfolding sum diff using d(4) le by simp
  qed
  let ?call = "HostMmapNone (mem_start nap + (u + len)) (alen - len)"
  obtain nap' r where m: "MunmapInternal os nap (mem_start nap + (u + len)) (alen - len) = Inr (nap', r)"
    "frame nap nap'"
    "if os (host_log nap) ?call = - 1 then mem_map nap' = mem_map nap \<and> (\<exists>lg. r = - ucast (os lg HostErrno))
     else r = 0 \<and> munmapped os nap (u + len) (alen - len) nap'"
    using MunmapInternal_result [OF assms(2) pre, of os] by blast
  show ?thesis
  proof (cases "os (host_log nap) ?call = - 1")
    case fail: True
    with m(3) obtain lg where r: "r = - ucast (os lg HostErrno)" "mem_map nap' = mem_map nap" by auto
    have err: "sys_error (scast r)"
      unfolding r(1) by (rule scast_errno [OF linux_hostD(1,2) [OF assms(1)]])
    then have "r \<noteq> 0" by (auto simp: sys_error_def)
    with err m(1,2) r(2) True show ?thesis by (simp add: add.assoc)
  next
    case False
    with m(3) have r: "r = 0" "munmapped os nap (u + len) (alen - len) nap'" by simp_all
    have "\<not> in_bytes u alen p \<Longrightarrow> \<not> in_bytes (u + len) (alen - len) p" for p
      using le by (auto simp: in_bytes_def sum diff)
    with r m(1,2) True show ?thesis by (simp add: munmapped_def add.assoc)
  qed
qed

lemma add_result:
  assumes "mem_inv nap" and "data_range nap u alen" and "alen \<noteq> 0"
  obtains vm where "NaClVmmapAddWithOverwrite (mem_map nap) (drop_bit 12 u) (drop_bit 12 alen) pr fl ndp off fsz = Inr vm"
    and "vm_ok vm" and "other_refs vm = other_refs (mem_map nap)"
    and "page_at vm = (\<lambda>p. if in_bytes u alen p then Some (new_page (drop_bit 12 u) pr fl ndp off fsz p)
      else page_at (mem_map nap) p)"
proof -
  note inv = mem_invD [OF assms(1)]
  have d: "4096 dvd unat u" "4096 dvd unat alen" "unat u + unat alen \<le> 2 ^ 32"
    using assms(2) unat_addr_limit(2) [OF inv(1)]
    by (auto simp: data_range_def intro: dvd_trans [of 4096 65536])
  note rng = page_range [OF d(1,2) assms(3) d(3)]
  obtain vm where vm: "NaClVmmapAddWithOverwrite (mem_map nap) (drop_bit 12 u) (drop_bit 12 alen) pr fl ndp off fsz = Inr vm"
    "vm_ok vm" "other_refs vm = other_refs (mem_map nap)"
    "\<And>p. page_at vm p = (if in_region (drop_bit 12 u) (drop_bit 12 alen) p
       then Some (new_page (drop_bit 12 u) pr fl ndp off fsz p) else page_at (mem_map nap) p)"
    using AddWithOverwrite_result [OF inv(2) rng(1)] by blast
  show thesis by (rule that [OF vm(1-3)]) (simp add: vm(4) rng(2) fun_eq_iff)
qed

lemma data_result:
  assumes "linux_host os ops" and "mem_inv nap" and "data_range nap u (NaClRoundAllocPage len)"
    and "len \<noteq> 0" and "unat len < 2 ^ 32" and "data_plan ops nap0 len ndp plan" and "fl AND MAP_FIXED \<noteq> 0"
    and "host_log nap0 = host_log nap"
  shows "\<exists>nap' m. mmap_data os nap plan u (mem_start nap + u) pr fl ndp off = Inr (nap', m) \<and> frame nap nap' \<and>
    (if sys_error m then same_pages nap nap'
     else m = u \<and> vm_ok (mem_map nap') \<and> data_mapped ops nap u (NaClRoundAllocPage len) pr fl ndp off nap')"
proof -
  note inv = mem_invD [OF assms(2)]
  note r = round_len [OF assms(5)]
  let ?alen = "NaClRoundAllocPage len" and ?sys = "mem_start nap + u"
  have plan: "plan_alloc_length plan = ?alen" "4096 dvd unat (plan_length plan)" "plan_length plan \<le> ?alen"
    "ndp = None \<longrightarrow> plan_length plan = ?alen" "known_size ops nap0 ndp (plan_file_size plan)"
    using assms(6) by (auto simp: data_plan_def)
  have known: "known_size ops nap ndp (plan_file_size plan)"
    using plan(5) assms(8) by (simp add: known_size_def split: option.splits)
  have a0: "?alen \<noteq> 0" using r(3) assms(4) by simp
  obtain k where k: "unat ?alen = 65536 * k" using r(2) by (auto elim: dvdE)
  have "unat ?alen \<noteq> 0" using a0 unat_eq_0 by blast
  with k have big: "65536 \<le> unat ?alen" by simp
  have d: "unat u + unat ?alen \<le> 2 ^ addr_bits nap" using assms(3) by (simp add: data_range_def)
  with big have "unat u + 65536 \<le> 2 ^ addr_bits nap" "user_addr nap (unat u)" by (simp_all add: user_addr_def)
  note ne = sys_addr_not_error [OF inv(1) this(1)] and user = SysToUser_UserToSys [OF inv(1) this(2)]
  have u_ok: "\<not> sys_error u"
  proof -
    have "unat u < 2 ^ 32" using d big unat_addr_limit(2) [OF inv(1)] by linarith
    then show ?thesis by (simp add: sys_error_def)
  qed
  obtain calls res where m: "mmap_data_map os nap plan ?sys pr fl ndp off =
      Inr (nap\<lparr> host_log := host_log nap @ calls \<rparr>, res)"
    "case res of Some e \<Rightarrow> sys_error e
     | None \<Rightarrow> calls = (if plan_length plan = 0 then []
         else [map_call ndp ?sys (plan_length plan) (plan_file_bytes plan) pr fl off])"
    using data_map_result [OF assms(1,7) ne] by blast
  let ?n1 = "nap\<lparr> host_log := host_log nap @ calls \<rparr>"
  have f1: "frame nap ?n1" by (rule frame_log)
  show ?thesis
  proof (cases res)
    case (Some e)
    with m have "mmap_data os nap plan u ?sys pr fl ndp off = Inr (?n1, e)" "sys_error e"
      by (simp_all add: mmap_data_def Let_def)
    with f1 inv(2) show ?thesis by (intro exI [of _ ?n1] exI [of _ e]) (simp add: same_pages_def)
  next
    case None
    have i1: "mem_inv ?n1"
      by (rule mem_inv_step [OF assms(2)]) (simp_all add: inv(2))
    have d1: "data_range ?n1 u ?alen" using assms(3) by (simp add: data_range_def)
    have n1: "mem_start ?n1 = mem_start nap" "mem_map ?n1 = mem_map nap" "host_log ?n1 = host_log nap @ calls"
      by simp_all
    obtain n2 ret where t: "(if plan_length plan < ?alen then MunmapInternal os ?n1 (?sys + plan_length plan) (?alen - plan_length plan)
        else Inr (?n1, 0)) = Inr (n2, ret)" "frame ?n1 n2"
      "if ret = 0
       then vm_ok (mem_map n2) \<and> (\<forall>p. \<not> in_bytes u ?alen p \<longrightarrow> page_at (mem_map n2) p = page_at (mem_map nap) p) \<and>
         host_log n2 = (host_log nap @ calls) @ (if plan_length plan < ?alen
           then [HostMmapNone (?sys + plan_length plan) (?alen - plan_length plan)] else [])
       else sys_error (scast ret) \<and> mem_map n2 = mem_map nap"
      using tail_result [OF assms(1) i1 d1 plan(2,3)] unfolding n1 by blast
    have f2: "frame nap n2" by (rule frame_trans [OF f1 t(2)])
    show ?thesis
    proof (cases "ret = 0")
      case False
      with t m(1) None have "mmap_data os nap plan u ?sys pr fl ndp off = Inr (n2, scast ret)"
        by (simp add: mmap_data_def Let_def plan(1))
      with False t(3) f2 inv(2) show ?thesis
        by (intro exI [of _ n2] exI [of _ "scast ret"]) (simp add: same_pages_def)
    next
      case True
      with t(3) have n2: "vm_ok (mem_map n2)"
        "\<And>p. \<not> in_bytes u ?alen p \<Longrightarrow> page_at (mem_map n2) p = page_at (mem_map nap) p"
        "host_log n2 = host_log nap @ map_calls ndp ?sys ?alen (plan_length plan) (plan_file_bytes plan) pr fl off"
        using m(2) None by (auto simp: map_calls_def)
      have above: "unat (dynamic_text_end nap) \<le> unat u" using assms(3) by (simp add: data_range_def)
      have i2: "mem_inv n2"
        by (rule mem_inv_step [OF assms(2) n2(1) frame_simps(1-3) [OF f2]])
          (rule n2(2), use above in \<open>simp add: in_bytes_def\<close>)
      have d2: "data_range n2 u ?alen" using assms(3) by (simp add: data_range_def frame_simps [OF f2])
      obtain vm where vm: "NaClVmmapAddWithOverwrite (mem_map n2) (drop_bit 12 u) (drop_bit 12 ?alen) pr fl ndp off
          (plan_file_size plan) = Inr vm"
        "vm_ok vm" "other_refs vm = other_refs (mem_map n2)"
        "page_at vm = (\<lambda>p. if in_bytes u ?alen p then Some (new_page (drop_bit 12 u) pr fl ndp off (plan_file_size plan) p)
          else page_at (mem_map n2) p)"
        using add_result [OF i2 d2 a0] by blast
      have sys2: "NaClSysToUser n2 ?sys = Inr u"
      proof -
        have "NaClSysToUser n2 = NaClSysToUser nap"
          by (simp add: fun_eq_iff NaClSysToUser_def addr_limit_def frame_simps [OF f2])
        with user show ?thesis by (simp only:)
      qed
      let ?n3 = "n2\<lparr> mem_map := vm \<rparr>"
      have run: "mmap_data os nap plan u ?sys pr fl ndp off = Inr (?n3, u)"
        using True t(1) m(1) None sys2 vm(1) a0 by (simp add: mmap_data_def Let_def plan(1) word_gt_0)
      have pages: "page_at vm = (\<lambda>p. if in_bytes u ?alen p
          then Some (new_page (drop_bit 12 u) pr fl ndp off (plan_file_size plan) p) else page_at (mem_map nap) p)"
        unfolding vm(4) using n2(2) by (simp add: fun_eq_iff)
      have dm: "data_mapped ops nap u ?alen pr fl ndp off ?n3"
        unfolding data_mapped_def
      proof (intro conjI)
        show "\<exists>fsz. known_size ops nap ndp fsz \<and> page_at (mem_map ?n3) = (\<lambda>p. if in_bytes u ?alen p
            then Some (new_page (drop_bit 12 u) pr fl ndp off fsz p) else page_at (mem_map nap) p)"
          using known pages by (intro exI [of _ "plan_file_size plan"]) simp
        show "\<exists>len file_len. len \<le> ?alen \<and> 4096 dvd unat len \<and> (ndp = None \<longrightarrow> len = ?alen) \<and>
            host_log ?n3 = host_log nap @ map_calls ndp (mem_start nap + u) ?alen len file_len pr fl off"
          using plan(2-4) n2(3) by (intro exI [of _ "plan_length plan"] exI [of _ "plan_file_bytes plan"]) simp
      qed
      have "frame nap ?n3" by (rule frame_trans [OF f2 frame_map [OF vm(3)]])
      with run u_ok dm vm(2) show ?thesis by (intro exI [of _ ?n3] exI [of _ u]) simp
    qed
  qed
qed

subsection \<open>The whole call\<close>

text \<open>The circumstances in which the code aborts: a pending I/O operation uses the range.\<close>

definition range_in_use :: "'a NaClApp_scheme \<Rightarrow> u64 \<Rightarrow> u64 \<Rightarrow> u32 \<Rightarrow> bool" where
  "range_in_use nap start len fl \<longleftrightarrow>
     (\<exists>u l. (fl AND MAP_FIXED \<noteq> 0 \<longrightarrow> u = start) \<and> l \<le> NaClRoundAllocPage len \<and> io_pending nap u l)"

lemma range_check_result:
  assumes "mem_inv nap" and "65536 dvd unat u" and "plan_alloc_length plan = NaClRoundAllocPage len"
    and "\<not> plan_code plan" and "plan_length plan \<le> NaClRoundAllocPage len" and "len \<noteq> 0" and "unat len < 2 ^ 32"
  shows "run_unless (io_pending nap u (plan_length plan)) (mmap_range_check ops nap plan u ndp fl)
    (\<lambda>res. case res of Some e \<Rightarrow> sys_error e
     | None \<Rightarrow> data_range nap u (NaClRoundAllocPage len) \<and> (fl AND MAP_SHARED = 0) \<noteq> (fl AND MAP_PRIVATE = 0))"
proof -
  note inv = mem_invD [OF assms(1)] and r = round_len [OF assms(7)] alloc_len_bound [OF assms(7)]
  let ?alen = "NaClRoundAllocPage len"
  have lim: "unat (addr_limit nap) = 2 ^ addr_bits nap" "(2 :: nat) ^ addr_bits nap \<le> 2 ^ 32"
    by (rule unat_addr_limit [OF inv(1)])+
  have ok: "data_range nap u ?alen" if "\<not> addr_limit nap \<le> u" "\<not> addr_limit nap < u + ?alen" "\<not> u < dynamic_text_end nap"
  proof -
    have "unat u < 2 ^ 32" using that(1) lim by (simp add: word_le_nat_alt)
    then have "unat (u + ?alen) = unat u + unat ?alen" using r(4) by (intro unat_add_small) simp
    moreover obtain p where "p * 4096 < unat (dynamic_text_end nap)" using inv(5) by blast
    ultimately show ?thesis
      using that assms(2) r(2) lim(1) by (auto simp: data_range_def word_le_nat_alt word_less_nat_alt)
  qed
  show ?thesis
    unfolding mmap_range_check_def Let_def assms(3) executable_iff [OF inv(3) assms(2)] pending_check
    using ok assms(4) by auto
qed

lemma body_result:
  assumes "linux_host os ops" and "mem_inv nap" and "unat len < 2 ^ 32"
    and "mmap_mapping_code nap start len pr fl ndp \<noteq> Inr True"
  shows "run_unless (range_in_use nap start len fl) (mmap_body os ops alloc validator nap start len pr fl ndp off)
    (\<lambda>(nap', m). frame nap nap' \<and>
      (if sys_error m then same_pages nap nap'
       else vm_ok (mem_map nap') \<and> len \<noteq> 0 \<and> data_range nap m (NaClRoundAllocPage len) \<and>
         (fl AND MAP_SHARED = 0) \<noteq> (fl AND MAP_PRIVATE = 0) \<and>
         (if fl AND MAP_FIXED \<noteq> 0 then m = start
          else \<forall>p. in_bytes m (NaClRoundAllocPage len) p \<longrightarrow> page_at (mem_map nap) p = None) \<and>
         data_mapped ops nap m (NaClRoundAllocPage len) (pr AND NOT PROT_EXEC) (fl OR MAP_FIXED) ndp off nap'))"
proof -
  note inv = mem_invD [OF assms(2)]
  let ?alen = "NaClRoundAllocPage len"
  obtain res where c: "mmap_checks ops nap start len pr fl ndp off = Inr res"
    "case res of Inl e \<Rightarrow> sys_error e
     | Inr plan \<Rightarrow> data_plan ops nap len ndp plan \<and> len \<noteq> 0 \<and> 65536 dvd unat start"
    using checks_result [OF assms(1,3,4)] by blast
  show ?thesis
  proof (cases res)
    case (Inl e)
    with c frame_refl [of nap] inv(2) show ?thesis by (simp add: mmap_body_def same_pages_def)
  next
    case (Inr plan)
    with c(2) have plan: "data_plan ops nap len ndp plan" and l0: "len \<noteq> 0" and al: "65536 dvd unat start" by simp_all
    have pl: "plan_alloc_length plan = ?alen" "\<not> plan_code plan" "plan_length plan \<le> ?alen"
      using plan by (auto simp: data_plan_def)
    obtain vm place where p: "mmap_place nap start ?alen fl = Inr (nap\<lparr> mem_map := vm \<rparr>, place)"
      "found (mem_map nap) vm"
      "case place of Inl e \<Rightarrow> sys_error e \<and> fl AND MAP_FIXED = 0
       | Inr u \<Rightarrow> if fl AND MAP_FIXED \<noteq> 0 then u = start
           else 65536 dvd unat u \<and> u \<noteq> 0 \<and> (\<forall>p. in_bytes u ?alen p \<longrightarrow> page_at (mem_map nap) p = None)"
      using place_result [OF assms(2) al l0 assms(3)] by blast
    let ?n1 = "nap\<lparr> mem_map := vm \<rparr>"
    have vm: "vm_ok vm" "page_at vm = page_at (mem_map nap)" "other_refs vm = other_refs (mem_map nap)"
      using p(2) by (simp_all add: found_def)
    have f1: "frame nap ?n1" by (rule frame_map [OF vm(3)])
    have i1: "mem_inv ?n1" by (rule mem_inv_step [OF assms(2)]) (simp_all add: vm)
    have n1: "same_pages ?n1 = same_pages nap" "data_range ?n1 = data_range nap" "data_mapped ops ?n1 = data_mapped ops nap"
    proof -
      have known: "known_size ops ?n1 = known_size ops nap"
        by (intro ext) (simp add: known_size_def split: option.split)
      have sel: "mem_map ?n1 = vm" "mem_start ?n1 = mem_start nap" "host_log ?n1 = host_log nap" by simp_all
      show "data_mapped ops ?n1 = data_mapped ops nap"
        by (intro ext) (unfold data_mapped_def known sel vm(2), rule refl)
    qed (simp_all add: fun_eq_iff same_pages_def data_range_def vm(2))
    show ?thesis
    proof (cases place)
      case (Inl e)
      with p c Inr f1 vm show ?thesis by (simp add: mmap_body_def pl same_pages_def)
    next
      case place_u: (Inr u)
      have u: "65536 dvd unat u" "fl AND MAP_FIXED \<noteq> 0 \<longrightarrow> u = start"
        "fl AND MAP_FIXED = 0 \<longrightarrow> (\<forall>p. in_bytes u ?alen p \<longrightarrow> page_at (mem_map nap) p = None)"
        using p(3) al by (auto simp: place_u split: if_splits)
      note rc = range_check_result [OF i1 u(1) pl(1,2,3) l0 assms(3), where ops = ops and ndp = ndp and fl = fl]
      have io: "range_in_use nap start len fl" if "io_pending ?n1 u (plan_length plan)"
        using that u(2) pl(3) by (auto simp: range_in_use_def io_pending_def)
      have run: "mmap_body os ops alloc validator nap start len pr fl ndp off =
        andThen (mmap_range_check ops ?n1 plan u ndp fl) (\<lambda>refused.
          case refused of Some e \<Rightarrow> Inr (?n1, e)
          | None \<Rightarrow> andThen (NaClUserToSys ?n1 u) (\<lambda>sysaddr.
              mmap_data os ?n1 plan u sysaddr (pr AND NOT PROT_EXEC) (fl OR MAP_FIXED) ndp off))"
        by (simp only: mmap_body_def c(1) Inr p(1) place_u pl(1,2) andThen.simps sum.case prod.case simp_thms if_False)
      show ?thesis
        unfolding run
      proof (rule run_unless_bind [OF run_unless_weaken [OF rc io]], assumption, assumption)
        fix refused
        assume ref: "case refused of Some e \<Rightarrow> sys_error e
          | None \<Rightarrow> data_range ?n1 u ?alen \<and> (fl AND MAP_SHARED = 0) \<noteq> (fl AND MAP_PRIVATE = 0)"
        show "run_unless (range_in_use nap start len fl)
          (case refused of Some e \<Rightarrow> Inr (?n1, e)
          | None \<Rightarrow> andThen (NaClUserToSys ?n1 u) (\<lambda>sysaddr.
              mmap_data os ?n1 plan u sysaddr (pr AND NOT PROT_EXEC) (fl OR MAP_FIXED) ndp off))
          (\<lambda>(nap', m). frame nap nap' \<and>
            (if sys_error m then same_pages nap nap'
             else vm_ok (mem_map nap') \<and> len \<noteq> 0 \<and> data_range nap m ?alen \<and>
               (fl AND MAP_SHARED = 0) \<noteq> (fl AND MAP_PRIVATE = 0) \<and>
               (if fl AND MAP_FIXED \<noteq> 0 then m = start
                else \<forall>p. in_bytes m ?alen p \<longrightarrow> page_at (mem_map nap) p = None) \<and>
               data_mapped ops nap m ?alen (pr AND NOT PROT_EXEC) (fl OR MAP_FIXED) ndp off nap'))"
        proof (cases refused)
          case (Some e)
          with ref f1 vm show ?thesis by (simp add: same_pages_def)
        next
          case None
          with ref have dr: "data_range ?n1 u ?alen" and shared: "(fl AND MAP_SHARED = 0) \<noteq> (fl AND MAP_PRIVATE = 0)"
            by simp_all
          have "(fl OR MAP_FIXED) AND MAP_FIXED = MAP_FIXED"
            by (rule bit_word_eqI) (auto simp: bit_simps)
          then have fx: "(fl OR MAP_FIXED) AND MAP_FIXED \<noteq> 0" by simp
          have "host_log nap = host_log ?n1" by simp
          from data_result [OF assms(1) i1 dr l0 assms(3) plan fx this]
          obtain nap' m where md: "mmap_data os ?n1 plan u (mem_start ?n1 + u) (pr AND NOT PROT_EXEC) (fl OR MAP_FIXED) ndp off =
              Inr (nap', m)" "frame ?n1 nap'"
            "if sys_error m then same_pages ?n1 nap'
             else m = u \<and> vm_ok (mem_map nap') \<and> data_mapped ops ?n1 u ?alen (pr AND NOT PROT_EXEC) (fl OR MAP_FIXED) ndp off nap'"
            by blast
          have "0 < unat u \<and> user_addr ?n1 (unat u)"
            using dr l0 round_len(3) [OF assms(3)] by (auto simp: data_range_def user_addr_def unat_gt_0 [symmetric])
          then have "NaClUserToSys ?n1 u = Inr (mem_start ?n1 + u)"
            using UserToSys_iff [OF mem_invD(1) [OF i1]] by simp
          moreover have "frame nap nap'" by (rule frame_trans [OF f1 md(2)])
          ultimately show ?thesis
            using None md(1) dr shared l0 u md(3) unfolding n1 by (cases "sys_error m") simp_all
        qed
      qed
    qed
  qed
qed

text \<open>Anonymous memory is granted when the arguments are in order, there is a place for it and
  the host grants it.\<close>

definition anon_args :: "u64 \<Rightarrow> u32 \<Rightarrow> u32 \<Rightarrow> u64 \<Rightarrow> bool" where
  "anon_args len pr fl off \<longleftrightarrow> fl AND MAP_ANONYMOUS \<noteq> 0 \<and> (fl AND MAP_SHARED = 0) \<noteq> (fl AND MAP_PRIVATE = 0) \<and>
     pr AND PROT_EXEC = 0 \<and> len \<noteq> 0 \<and> 65536 dvd unat off \<and> \<not> off <s 0"

definition fixed_args :: "'a NaClApp_scheme \<Rightarrow> u64 \<Rightarrow> u64 \<Rightarrow> u32 \<Rightarrow> bool" where
  "fixed_args nap start len fl \<longleftrightarrow> fl AND MAP_FIXED \<noteq> 0 \<and> data_range nap start (NaClRoundAllocPage len)"

lemma anon_data:
  assumes "mem_inv nap" and "data_range nap u alen" and "alen \<noteq> 0"
    and "plan = \<lparr> plan_code = False, plan_alloc_length = alen, plan_length = alen,
      plan_file_size = fsz, plan_file_bytes = fb \<rparr>"
    and "os (host_log nap) (HostMapAnon (mem_start nap + u) alen pr fl off) = mem_start nap + u"
    and "unat u + 65536 \<le> 2 ^ addr_bits nap"
  shows "\<exists>nap'. mmap_data os nap plan u (mem_start nap + u) pr fl None off = Inr (nap', u)"
proof -
  note inv = mem_invD [OF assms(1)]
  let ?n1 = "nap\<lparr> host_log := host_log nap @ [HostMapAnon (mem_start nap + u) alen pr fl off] \<rparr>"
  have ne: "\<not> NaClPtrIsNegErrno (mem_start nap + u)" by (rule sys_addr_not_error [OF inv(1) assms(6)])
  have m: "mmap_data_map os nap plan (mem_start nap + u) pr fl None off = Inr (?n1, None)"
    using assms(3,5) ne by (simp add: mmap_data_map_def host_def assms(4) word_gt_0)
  have "user_addr nap (unat u)" using assms(6) by (simp add: user_addr_def)
  note sys = SysToUser_UserToSys [OF inv(1) this]
  obtain vm where "NaClVmmapAddWithOverwrite (mem_map nap) (drop_bit 12 u) (drop_bit 12 alen) pr fl None off fsz = Inr vm"
    using add_result [OF assms(1-3)] by blast
  with m sys assms(3,4) show ?thesis by (simp add: mmap_data_def Let_def word_gt_0)
qed

lemma anon_granted:
  assumes "mem_inv nap" and "unat len < 2 ^ 32" and "anon_args len pr fl off" and "65536 dvd unat start"
    and "mmap_place nap start (NaClRoundAllocPage len) fl = Inr (nap\<lparr> mem_map := vm \<rparr>, Inr u)"
    and "found (mem_map nap) vm" and "data_range nap u (NaClRoundAllocPage len)"
    and "os (host_log nap) (HostMapAnon (mem_start nap + u) (NaClRoundAllocPage len) pr (fl OR MAP_FIXED) off) =
      mem_start nap + u"
  shows "run_unless (io_pending nap u (NaClRoundAllocPage len))
    (mmap_body os ops alloc validator nap start len pr fl None off) (\<lambda>(nap', m). m = u)"
proof -
  note r = round_len [OF assms(2)] alloc_len_bound [OF assms(2)]
  let ?alen = "NaClRoundAllocPage len" and ?n1 = "nap\<lparr> mem_map := vm \<rparr>"
  let ?plan = "\<lparr> plan_code = False, plan_alloc_length = ?alen, plan_length = ?alen,
    plan_file_size = kMaxUsableFileSize, plan_file_bytes = kMaxUsableFileSize \<rparr>"
  have n1: "mem_inv ?n1" "data_range ?n1 u ?alen"
    using assms(6,7) by (auto intro!: mem_inv_step [OF assms(1)] simp: found_def data_range_def)
  note inv = mem_invD [OF n1(1)]
  have os: "os (host_log ?n1) (HostMapAnon (mem_start ?n1 + u) ?alen pr (fl OR MAP_FIXED) off) = mem_start ?n1 + u"
    using assms(8) by simp
  have args: "(fl AND MAP_SHARED = 0) \<noteq> (fl AND MAP_PRIVATE = 0)" "pr AND PROT_EXEC = 0"
    "len \<noteq> 0" "65536 dvd unat off" "\<not> off <s 0"
    using assms(3) by (simp_all add: anon_args_def)
  have d: "65536 dvd unat u" "u \<noteq> 0" "unat (dynamic_text_end ?n1) \<le> unat u"
    "unat u + unat ?alen \<le> 2 ^ addr_bits ?n1" using n1(2) by (simp_all add: data_range_def)
  have a0: "?alen \<noteq> 0" using r(3) args(3) by simp
  have code: "mmap_mapping_code nap start len pr fl None = Inr False" using args(2) by (simp add: mmap_mapping_code_def)
  have checks: "mmap_checks ops nap start len pr fl None off = Inr (Inr ?plan)"
    using args(3-5) assms(4)
    by (simp add: mmap_checks_def code Let_def is_multiple_nat mmap_file_sizes_def size_min_kMax [OF r(4)])
  obtain k where k: "unat ?alen = 65536 * k" using r(2) by (auto elim: dvdE)
  have "unat ?alen \<noteq> 0" using a0 unat_eq_0 by blast
  with k d(4) have fit: "unat u + 65536 \<le> 2 ^ addr_bits ?n1" by simp
  have lim: "unat (addr_limit ?n1) = 2 ^ addr_bits ?n1" "(2 :: nat) ^ addr_bits ?n1 \<le> 2 ^ 32"
    by (rule unat_addr_limit [OF inv(1)])+
  have "unat u < 2 ^ 32" using fit lim(2) by linarith
  then have sum: "unat (u + ?alen) = unat u + unat ?alen" using r(4) by (intro unat_add_small) simp
  have range: "\<not> addr_limit ?n1 \<le> u" "\<not> u + ?alen < u" "\<not> addr_limit ?n1 < u + ?alen"
    "\<not> u < dynamic_text_end ?n1"
    using fit d(3,4) lim(1) by (simp_all only: word_le_nat_alt word_less_nat_alt sum)
  have check: "mmap_range_check ops ?n1 ?plan u None fl =
      (if io_pending ?n1 u ?alen then Inl LogFatal else Inr None)"
    using range args(1) unfolding mmap_range_check_def Let_def executable_iff [OF inv(3) d(1)]
    by (simp add: pending_check)
  have "0 < unat u \<and> user_addr ?n1 (unat u)" using fit d(2) unfolding user_addr_def unat_gt_0 by linarith
  then have sys: "NaClUserToSys ?n1 u = Inr (mem_start ?n1 + u)"
    using UserToSys_iff [OF inv(1)] by simp
  have "pr AND NOT PROT_EXEC = pr"
  proof (rule bit_word_eqI)
    fix n
    have "bit (pr AND PROT_EXEC) n = False" using args(2) by simp
    then show "bit (pr AND NOT PROT_EXEC) n = bit pr n" if "n < LENGTH(32)" using that by (auto simp: bit_simps)
  qed
  with anon_data [where os = os, OF n1 a0 refl os fit]
  obtain nap' where "mmap_data os ?n1 ?plan u (mem_start ?n1 + u) (pr AND NOT PROT_EXEC) (fl OR MAP_FIXED) None off =
    Inr (nap', u)" by metis
  then have "mmap_body os ops alloc validator nap start len pr fl None off =
      (if io_pending ?n1 u ?alen then Inl LogFatal else Inr (nap', u))"
    by (simp add: mmap_body_def checks assms(5) check sys [simplified])
  then show ?thesis by (simp add: io_pending_def)
qed

lemma run_unless_conj:
  "run_unless A r P \<Longrightarrow> run_unless B r Q \<Longrightarrow> run_unless A r (\<lambda>x. P x \<and> Q x)"
  by (cases r) auto

lemma frame_io: "frame nap nap' \<Longrightarrow> io_pending nap' = io_pending nap"
  by (auto simp: frame_def io_pending_def fun_eq_iff)

definition mmap_flags :: "u32 \<Rightarrow> u32" where
  "mmap_flags fl = fl AND (MAP_FIXED OR MAP_SHARED OR MAP_PRIVATE OR MAP_ANONYMOUS)"

lemma mmap_flags_simps [simp]:
  "mmap_flags fl AND MAP_FIXED = fl AND MAP_FIXED" "mmap_flags fl AND MAP_SHARED = fl AND MAP_SHARED"
  "mmap_flags fl AND MAP_PRIVATE = fl AND MAP_PRIVATE" "mmap_flags fl AND MAP_ANONYMOUS = fl AND MAP_ANONYMOUS"
  by (simp_all add: mmap_flags_def and.assoc)

lemma not_code: "pr AND PROT_EXEC = 0 \<Longrightarrow> mmap_mapping_code nap start len pr fl ndp \<noteq> Inr True"
  by (simp add: mmap_mapping_code_def and.commute)

text \<open>Taking and dropping a reference.\<close>

lemma with_refs_more [simp]:
  "addr_bits (with_refs f nap) = addr_bits nap" "mem_start (with_refs f nap) = mem_start nap"
  "dynamic_text_start (with_refs f nap) = dynamic_text_start nap"
  "dynamic_text_end (with_refs f nap) = dynamic_text_end nap" "mem_io_regions (with_refs f nap) = mem_io_regions nap"
  "host_log (with_refs f nap) = host_log nap" "vmentry (mem_map (with_refs f nap)) = vmentry (mem_map nap)"
  "is_sorted (mem_map (with_refs f nap)) = is_sorted (mem_map nap)"
  "enable_dyncode_syscalls (with_refs f nap) = enable_dyncode_syscalls nap"
  by (simp_all add: with_refs_def)

lemma mapping_code_refs: "mmap_mapping_code (with_refs f nap) = mmap_mapping_code nap"
  by (intro ext) (simp add: mmap_mapping_code_def NaClSysCommonAddrRangeInAllowedDynamicCodeSpace_def Let_def cong: if_cong)

lemma page_at_refs [simp]: "page_at (vm\<lparr> desc_refs := r \<rparr>) = page_at vm"
  by (rule ext) (simp add: page_at_def)

lemma vm_ok_refs [simp]: "vm_ok (vm\<lparr> desc_refs := r \<rparr>) \<longleftrightarrow> vm_ok vm"
  by (simp add: vm_ok_def)

lemma mem_inv_refs: "mem_inv (with_refs f nap) \<longleftrightarrow> mem_inv nap"
  by (simp add: with_refs_def mem_inv_def space_ok_def)

lemma page_at_with_refs [simp]: "page_at (mem_map (with_refs f nap)) = page_at (mem_map nap)"
  by (simp add: with_refs_def)

lemma frame_refs:
  assumes "frame (with_refs (desc_ref d) nap) nap'"
  shows "frame nap (with_refs (desc_unref d) nap')"
proof -
  obtain vm lg where n': "nap' = (with_refs (desc_ref d) nap)\<lparr> mem_map := vm, host_log := lg \<rparr>"
    "other_refs vm = other_refs (mem_map (with_refs (desc_ref d) nap))" using assms by (auto simp: frame_def)
  let ?vm = "vm\<lparr> desc_refs := desc_unref d (desc_refs vm) \<rparr>"
  have "with_refs (desc_unref d) nap' = nap\<lparr> mem_map := ?vm, host_log := lg \<rparr>" by (simp add: n'(1) with_refs_def)
  moreover have "other_refs ?vm = other_refs (mem_map nap)"
  proof
    fix k
    from fun_cong [OF n'(2), of k] show "other_refs ?vm k = other_refs (mem_map nap) k"
      by (cases "d = Some k") (simp_all add: other_refs_def with_refs_def desc_ref_apply desc_unref_apply)
  qed
  ultimately show ?thesis by (simp only: frame_def) blast
qed

text \<open>What a call has done when it returns \<open>r\<close>.\<close>

definition mmap_done ::
  "'md DescOps \<Rightarrow> 'a NaClApp_scheme \<Rightarrow> u64 \<Rightarrow> u64 \<Rightarrow> u32 \<Rightarrow> u32 \<Rightarrow> nat option \<Rightarrow> u64 \<Rightarrow> 'a NaClApp_scheme \<Rightarrow> u32 \<Rightarrow> bool" where
  "mmap_done ops nap start len pr fl ndp off nap' r \<longleftrightarrow>
     (if 2 ^ 32 - 4096 < unat r then page_at (mem_map nap') = page_at (mem_map nap)
      else len \<noteq> 0 \<and> data_range nap (ucast r) (NaClRoundAllocPage len) \<and>
        (fl AND MAP_SHARED = 0) \<noteq> (fl AND MAP_PRIVATE = 0) \<and>
        (if fl AND MAP_FIXED \<noteq> 0 then ucast r = start
         else \<forall>p. in_bytes (ucast r) (NaClRoundAllocPage len) p \<longrightarrow> page_at (mem_map nap) p = None) \<and>
        data_mapped ops nap (ucast r) (NaClRoundAllocPage len) (pr AND NOT PROT_EXEC) (mmap_flags fl OR MAP_FIXED) ndp off nap')"

lemma page_shift_bound:
  assumes "data_range nap u alen" and "space_ok nap" and "alen \<noteq> 0"
  shows "unat u < 2 ^ 32" and "unat u \<le> 2 ^ 32 - 4096" and "ucast (ucast u :: u32) = u"
proof -
  obtain k where k: "unat alen = 65536 * k" using assms(1) by (auto simp: data_range_def elim: dvdE)
  have "unat alen \<noteq> 0" using assms(3) unat_eq_0 by blast
  then have "65536 \<le> unat alen" using k by simp
  moreover have "unat u + unat alen \<le> 2 ^ 32"
    using assms(1) unat_addr_limit(2) [OF assms(2)] unfolding data_range_def by linarith
  ultimately have le: "unat u + 65536 \<le> 2 ^ 32" by linarith
  then show lt: "unat u < 2 ^ 32" "unat u \<le> 2 ^ 32 - 4096" by simp_all
  show "ucast (ucast u :: u32) = u"
    using lt(1) by (intro word_eq_unatI) (simp only: unat_low32 mod_less)
qed

lemma mmap_result:
  assumes "mem_inv nap" and "table_ok nap" and "unat len < 2 ^ 32" and "linux_host os ops"
    and "ndp = (if fl AND MAP_ANONYMOUS \<noteq> 0 then None else descs nap (unat (scast d :: u64)))"
    and "mmap_mapping_code nap start len pr (mmap_flags fl) ndp \<noteq> Inr True"
  shows "run_unless (range_in_use nap start len fl) (NaClSysMmapIntern os ops alloc validator nap start len pr fl d off)
    (\<lambda>(nap', r). frame nap nap' \<and> mem_inv nap' \<and> mmap_done ops nap start len pr fl ndp off nap' r \<and>
      (anon_args len pr fl off \<and> fixed_args nap start len fl \<and>
       os (host_log nap) (HostMapAnon (mem_start nap + start) (NaClRoundAllocPage len) pr (mmap_flags fl OR MAP_FIXED) off) =
         mem_start nap + start \<longrightarrow> r = ucast start))"
proof -
  note inv = mem_invD [OF assms(1)]
  let ?alen = "NaClRoundAllocPage len" and ?fl = "mmap_flags fl"
  let ?n1 = "with_refs (desc_ref ndp) nap"
  let ?granted = "anon_args len pr fl off \<and> fixed_args nap start len fl \<and>
    os (host_log nap) (HostMapAnon (mem_start nap + start) ?alen pr (?fl OR MAP_FIXED) off) = mem_start nap + start"
  have n1: "mem_inv ?n1" by (simp add: mem_inv_refs assms(1))
  have none: "with_refs (desc_ref None) nap = nap" by (simp add: with_refs_def desc_ref_def)
  have get: "(if fl AND MAP_ANONYMOUS \<noteq> 0 then Inr (nap, None) else NaClAppGetDesc nap d) = Inr (?n1, ndp)"
    using GetDesc_result [OF assms(2), of d] assms(5) none by simp
  have code: "mmap_mapping_code ?n1 start len pr ?fl ndp \<noteq> Inr True"
    using assms(6) unfolding mapping_code_refs .
  have use: "range_in_use ?n1 start len ?fl = range_in_use nap start len fl"
    by (simp add: range_in_use_def io_pending_def)
  let ?Q = "\<lambda>(nap', m). frame ?n1 nap' \<and>
      (if sys_error m then same_pages ?n1 nap'
       else vm_ok (mem_map nap') \<and> len \<noteq> 0 \<and> data_range ?n1 m ?alen \<and>
         (fl AND MAP_SHARED = 0) \<noteq> (fl AND MAP_PRIVATE = 0) \<and>
         (if fl AND MAP_FIXED \<noteq> 0 then m = start
          else \<forall>p. in_bytes m ?alen p \<longrightarrow> page_at (mem_map nap) p = None) \<and>
         data_mapped ops ?n1 m ?alen (pr AND NOT PROT_EXEC) (?fl OR MAP_FIXED) ndp off nap') \<and>
      (?granted \<longrightarrow> m = start)"
  have body: "run_unless (range_in_use nap start len fl) (if \<not> fl AND MAP_ANONYMOUS \<noteq> 0 \<and> ndp = None
      then Inr (?n1, neg_errno64 EBADF)
      else mmap_body os ops alloc validator ?n1 start len pr ?fl ndp off) ?Q"
  proof (cases "fl AND MAP_ANONYMOUS = 0 \<and> ndp = None")
    case True
    then show ?thesis using inv(2) frame_refl [of ?n1] by (simp add: same_pages_def anon_args_def none)
  next
    case False
    note b = body_result [OF assms(4) n1 assms(3) code, where alloc = alloc and validator = validator and off = off,
        unfolded use]
    have "run_unless (range_in_use nap start len fl) (mmap_body os ops alloc validator ?n1 start len pr ?fl ndp off) ?Q"
    proof (cases ?granted)
      case True
      then have g: "ndp = None" "anon_args len pr ?fl off" "data_range nap start ?alen" "65536 dvd unat start"
        "mmap_place nap start ?alen ?fl = Inr (nap\<lparr> mem_map := mem_map nap \<rparr>, Inr start)"
        using assms(5) by (simp_all add: anon_args_def fixed_args_def data_range_def mmap_place_def)
      have "found (mem_map nap) (mem_map nap)" using inv(2) by (simp add: found_def)
      with True g(1) anon_granted [OF assms(1,3) g(2,4,5) this g(3), where ops = ops and alloc = alloc and validator = validator]
      have "run_unless (io_pending nap start ?alen) (mmap_body os ops alloc validator ?n1 start len pr ?fl ndp off)
        (\<lambda>(nap', m). m = start)" by (simp add: none)
      from run_unless_conj [OF b this] show ?thesis
        by (rule run_unless_weaken) auto
    next
      case False
      with b show ?thesis by (elim run_unless_weaken) auto
    qed
    with False show ?thesis by auto
  qed
  have run: "NaClSysMmapIntern os ops alloc validator nap start len pr fl d off =
      andThen (if \<not> fl AND MAP_ANONYMOUS \<noteq> 0 \<and> ndp = None then Inr (?n1, neg_errno64 EBADF)
        else mmap_body os ops alloc validator ?n1 start len pr ?fl ndp off) (\<lambda>(nap, map_result).
      let nap = with_refs (desc_unref ndp) nap in
      if 0xffffffff < map_result \<and> \<not> NaClPtrIsNegErrno map_result then Inl LogFatal
      else Inr (nap, ucast map_result))"
    unfolding NaClSysMmapIntern_def Let_def mmap_flags_def [symmetric] mmap_flags_simps get by simp
  have sel: "data_range ?n1 = data_range nap" "data_mapped ops ?n1 = data_mapped ops nap" "same_pages ?n1 = same_pages nap"
  proof -
    have known: "known_size ops ?n1 = known_size ops nap"
      by (intro ext) (simp add: known_size_def split: option.split)
    show "data_mapped ops ?n1 = data_mapped ops nap"
      by (intro ext) (unfold data_mapped_def known page_at_with_refs with_refs_more, rule refl)
  qed (simp_all add: fun_eq_iff data_range_def same_pages_def)
  show ?thesis
    unfolding run
  proof (rule run_unless_bind [OF body])
    fix x :: "'a NaClTextApp_scheme \<times> u64"
    assume qx: "?Q x"
    obtain n2 m where x: "x = (n2, m)" by (cases x)
    note q0 = qx [unfolded x prod.case sel]
    have f: "frame ?n1 n2" and
      q: "if sys_error m then same_pages nap n2
       else vm_ok (mem_map n2) \<and> len \<noteq> 0 \<and> data_range nap m ?alen \<and>
         (fl AND MAP_SHARED = 0) \<noteq> (fl AND MAP_PRIVATE = 0) \<and>
         (if fl AND MAP_FIXED \<noteq> 0 then m = start
          else \<forall>p. in_bytes m ?alen p \<longrightarrow> page_at (mem_map nap) p = None) \<and>
         data_mapped ops nap m ?alen (pr AND NOT PROT_EXEC) (?fl OR MAP_FIXED) ndp off n2"
      and g: "?granted \<longrightarrow> m = start"
      by (rule conjunct1 [OF q0], rule conjunct1 [OF conjunct2 [OF q0]], rule conjunct2 [OF conjunct2 [OF q0]])
    let ?n3 = "with_refs (desc_unref ndp) n2"
    have f3: "frame nap ?n3" by (rule frame_refs [OF f])
    have "vm_ok (mem_map ?n3) \<and> (\<forall>p. p * 4096 < unat (dynamic_text_end nap) \<longrightarrow>
        page_at (mem_map ?n3) p = page_at (mem_map nap) p)"
    proof (cases "sys_error m")
      case True
      with q show ?thesis by (simp add: same_pages_def with_refs_def)
    next
      case False
      with q have "vm_ok (mem_map n2)" "unat (dynamic_text_end nap) \<le> unat m"
        "data_mapped ops nap m ?alen (pr AND NOT PROT_EXEC) (?fl OR MAP_FIXED) ndp off n2"
        by (simp_all add: data_range_def)
      then show ?thesis by (auto simp: with_refs_def data_mapped_def in_bytes_def)
    qed
    then have i3: "mem_inv ?n3"
      by (intro mem_inv_step [OF assms(1) _ frame_simps(1-3) [OF f3]]) simp_all
    have fin: "\<not> (0xffffffff < m \<and> \<not> NaClPtrIsNegErrno m) \<and> mmap_done ops nap start len pr fl ndp off ?n3 (ucast m)"
    proof (cases "sys_error m")
      case True
      note e = sys_error_neg [OF True]
      from e(3) q True show ?thesis by (simp add: e(1) mmap_done_def same_pages_def)
    next
      case False
      with q have dr: "data_range nap m ?alen" and l0: "len \<noteq> 0" by simp_all
      have "?alen \<noteq> 0" using round_len(3) [OF assms(3)] l0 by simp
      note b = page_shift_bound [OF dr inv(1) this]
      have "unat (ucast m :: u32) = unat (ucast (ucast m :: u32) :: u64)" by (simp only: unat_ucast_up)
      then have small: "\<not> 2 ^ 32 - 4096 < unat (ucast m :: u32)" using b(2) unfolding b(3) by simp
      have "\<not> 0xffffffff < m" using b(1) by (simp add: word_less_nat_alt)
      moreover have "data_mapped ops nap m ?alen (pr AND NOT PROT_EXEC) (?fl OR MAP_FIXED) ndp off ?n3"
        using q False by (simp add: data_mapped_def)
      then have "mmap_done ops nap start len pr fl ndp off ?n3 (ucast m)"
        using q unfolding mmap_done_def b(3) if_not_P [OF small] if_not_P [OF False] by blast
      ultimately show ?thesis by simp
    qed
    show "run_unless (range_in_use nap start len fl) (case x of (nap, map_result) \<Rightarrow>
        let nap = with_refs (desc_unref ndp) nap in
        if 0xffffffff < map_result \<and> \<not> NaClPtrIsNegErrno map_result then Inl LogFatal
        else Inr (nap, ucast map_result))
      (\<lambda>(nap', r). frame nap nap' \<and> mem_inv nap' \<and> mmap_done ops nap start len pr fl ndp off nap' r \<and>
        (?granted \<longrightarrow> r = ucast start))"
      unfolding x prod.case Let_def if_not_P [OF conjunct1 [OF fin]] run_unless_simps
      using f3 i3 fin g by simp
  qed
qed

definition sample_mmap :: NaClTextApp where
  "sample_mmap = sample_text\<lparr> mem_map := sample_vm \<rparr>"

definition mapping_os :: os where
  "mapping_os lg call = (case call of HostErrno \<Rightarrow> 12 | HostMapAnon a n pr fl off \<Rightarrow> a
     | HostMapDesc d a n pr fl off \<Rightarrow> a | _ \<Rightarrow> 0)"

lemma mapping_linux: "linux_host mapping_os sample_descs"
  by (simp add: linux_host_def mapping_os_def sample_descs_def)

lemma sample_mmap_fields:
  "addr_bits sample_mmap = 32" "mem_start sample_mmap = 0x7f0000000000" "dynamic_text_end sample_mmap = 0x100000"
  "mem_map sample_mmap = sample_vm" "desc_tbl sample_mmap = sample_array" "host_log sample_mmap = []"
  "mem_io_regions sample_mmap = NaClIntervalRangeTreeCtor" "dynamic_regions sample_mmap = dynamic_regions sample_text"
  "enable_dyncode_syscalls sample_mmap" "dynamic_text_start sample_mmap = 0x20000"
  by (simp_all add: sample_mmap_def sample_text_def NaClPolicyApp.defs NaClApp.defs sample_policy_def sample_space_def)

lemma sample_mmap_ok: "mem_inv sample_mmap" "table_ok sample_mmap" "\<not> range_in_use sample_mmap start len fl"
proof -
  show "mem_inv sample_mmap"
    using sample_vm_ok sample_mapped(1)
    by (simp add: mem_inv_def space_ok_def sample_mmap_fields) (rule exI [of _ 0], simp)
  show "table_ok sample_mmap" using sample_array_ok by (simp add: table_ok_def sample_mmap_fields)
  show "\<not> range_in_use sample_mmap start len fl"
    by (simp add: range_in_use_def io_pending_def sample_mmap_fields NaClIntervalRangeTreeOverlapsWith_def
        NaClIntervalRangeTreeCtor_def)
qed

text \<open> C27. \<open>mmap\<close> of data is exact.  A call that the code does not take for a request to load code, with a 32-bit length, stops the
  sandbox only when a pending I/O operation uses the range.  When it returns an error number the memory map shows
  the same pages as before; otherwise it returns an aligned address: the requested one, or one
  where nothing was mapped, with the rounded range above the executable pages and inside the
  address space.  Exactly the pages of that range are then mapped, never executable, with the
  descriptor, offset and file size of the call, and the host has been asked to map
  the file and to make the rest of the range inaccessible.  No descriptor reference is gained or lost, and
  anonymous memory at a proper fixed address is granted whenever the host grants it.\<close>

theorem mmap_data_exact:
  assumes "mem_inv nap" and "table_ok nap" and "unat len < 2 ^ 32" and "linux_host os ops"
    and "ndp = (if fl AND MAP_ANONYMOUS \<noteq> 0 then None else descs nap (unat (scast d :: u64)))"
    and "mmap_mapping_code nap start len pr (mmap_flags fl) ndp \<noteq> Inr True"
  shows "run_unless (range_in_use nap start len fl) (NaClSysMmapIntern os ops alloc validator nap start len pr fl d off)
    (\<lambda>(nap', r). frame nap nap' \<and> mem_inv nap' \<and> mmap_done ops nap start len pr fl ndp off nap' r \<and>
      (anon_args len pr fl off \<and> fixed_args nap start len fl \<and>
       os (host_log nap) (HostMapAnon (mem_start nap + start) (NaClRoundAllocPage len) pr (mmap_flags fl OR MAP_FIXED) off) =
         mem_start nap + start \<longrightarrow> r = ucast start))"
  using assms by (rule mmap_result)

lemma mmap_data_exact_witness:
  "\<exists>nap'. NaClSysMmapIntern mapping_os sample_descs (\<lambda>_. True) halt_validator sample_mmap 0x20000000 0x100 3 0x32 0 0 =
      Inr (nap', 0x20000000) \<and> mem_inv nap' \<and> page_at (mem_map nap') 0x2000f \<noteq> None \<and>
    page_at (mem_map nap') 0x20010 = page_at sample_vm 0x20010"
proof -
  have rnd: "NaClRoundAllocPage 0x100 = 0x10000" by (simp add: NaClRoundAllocPage_def)
  have len: "unat (0x100 :: u64) < 2 ^ 32" by simp
  have data: "mmap_mapping_code sample_mmap 0x20000000 0x100 3 (mmap_flags 0x32) None \<noteq> Inr True"
    by (rule not_code) simp
  have none: "None = (if (0x32 :: u32) AND MAP_ANONYMOUS \<noteq> 0 then None else descs sample_mmap (unat (scast (0 :: u32) :: u64)))"
    by simp
  note m = mmap_data_exact [OF sample_mmap_ok(1,2) len mapping_linux none data, where off = 0
      and alloc = "\<lambda>_. True" and validator = halt_validator]
  have args: "anon_args 0x100 3 0x32 0" "fixed_args sample_mmap 0x20000000 0x100 0x32"
    by (simp_all add: anon_args_def fixed_args_def data_range_def rnd sample_mmap_fields)
  have host: "mapping_os (host_log sample_mmap) (HostMapAnon (mem_start sample_mmap + 0x20000000) 0x10000 3
      (mmap_flags 0x32 OR MAP_FIXED) 0) = mem_start sample_mmap + 0x20000000"
    by (simp add: mapping_os_def)
  obtain nap' r where n: "NaClSysMmapIntern mapping_os sample_descs (\<lambda>_. True) halt_validator sample_mmap 0x20000000 0x100 3 0x32 0 0 =
      Inr (nap', r)" "mem_inv nap'" "r = 0x20000000"
    "mmap_done sample_descs sample_mmap 0x20000000 0x100 3 0x32 None 0 nap' r"
    using run_unlessE [OF m sample_mmap_ok(3)] args host unfolding rnd by auto
  from n(4) have "data_mapped sample_descs sample_mmap 0x20000000 0x10000 3 (mmap_flags 0x32 OR MAP_FIXED) None 0 nap'"
    by (simp add: mmap_done_def n(3) rnd)
  then have "page_at (mem_map nap') 0x2000f \<noteq> None" "page_at (mem_map nap') 0x20010 = page_at sample_vm 0x20010"
    by (auto simp: data_mapped_def in_bytes_def sample_mmap_fields)
  with n(1-3) show ?thesis by auto
qed

text \<open>Mapping and unmapping.\<close>

lemma mapped_then_unmapped:
  assumes "data_mapped ops nap u alen pr fl ndp off nap1" and "munmapped os nap1 u alen nap2"
    and "\<forall>p. in_bytes u alen p \<longrightarrow> page_at (mem_map nap) p = None"
  shows "page_at (mem_map nap2) = page_at (mem_map nap)"
  using assms by (auto simp: data_mapped_def munmapped_def fun_eq_iff)

text \<open> C31. Memory that \<open>mmap\<close> has placed can be returned: when a call without \<open>MAP_FIXED\<close> has succeeded, \<open>munmap\<close>
  of the returned address and the same length succeeds unless the host refuses or a pending I/O operation
  uses the range, and then every page of the sandbox is mapped as before the two calls, and every
  descriptor reference is where it was.\<close>

theorem mmap_munmap_roundtrip:
  assumes "mem_inv nap" and "table_ok nap" and "unat len < 2 ^ 32" and "linux_host os ops"
    and "pr AND PROT_EXEC = 0" and "fl AND MAP_FIXED = 0"
    and "NaClSysMmapIntern os ops alloc validator nap start len pr fl d off = Inr (nap1, r)" and "unat r \<le> 2 ^ 32 - 4096"
    and "os (host_log nap1) (HostMmapNone (mem_start nap1 + ucast r) (NaClRoundAllocPage len)) \<noteq> - 1"
    and "\<not> io_pending nap1 (ucast r) (NaClRoundAllocPage len)"
  shows "\<exists>nap2. NaClSysMunmap os nap1 (ucast r) len = Inr (nap2, 0) \<and> frame nap nap2 \<and> mem_inv nap2 \<and>
    page_at (mem_map nap2) = page_at (mem_map nap)"
proof -
  have "frame nap nap1 \<and> mem_inv nap1 \<and>
      mmap_done ops nap start len pr fl (if fl AND MAP_ANONYMOUS \<noteq> 0 then None else descs nap (unat (scast d :: u64))) off nap1 r"
    using mmap_result [OF assms(1-4) refl not_code [OF assms(5)], where start = start and fl = fl and d = d and off = off
        and alloc = alloc and validator = validator]
    unfolding assms(7) run_unless_simps prod.case by blast
  then have m: "frame nap nap1" "mem_inv nap1" "len \<noteq> 0" "data_range nap (ucast r) (NaClRoundAllocPage len)"
    "\<forall>p. in_bytes (ucast r) (NaClRoundAllocPage len) p \<longrightarrow> page_at (mem_map nap) p = None"
    "data_mapped ops nap (ucast r) (NaClRoundAllocPage len) (pr AND NOT PROT_EXEC) (mmap_flags fl OR MAP_FIXED)
      (if fl AND MAP_ANONYMOUS \<noteq> 0 then None else descs nap (unat (scast d :: u64))) off nap1"
    using assms(6,8) unfolding mmap_done_def by (simp_all add: not_less [symmetric])
  have "data_range nap1 (ucast r) (NaClRoundAllocPage len)"
    using m(4) by (simp add: data_range_def frame_simps [OF m(1)])
  moreover note linux_errno [OF assms(4)]
  ultimately obtain nap2 where n2: "NaClSysMunmap os nap1 (ucast r) len = Inr (nap2, 0)" "frame nap1 nap2" "mem_inv nap2"
    "munmapped os nap1 (ucast r) (NaClRoundAllocPage len) nap2"
    using run_unlessE [OF munmap_result [OF m(2) assms(3)] assms(10)] m(3) assms(9) by blast
  with mapped_then_unmapped [OF m(6) n2(4) m(5)] frame_trans [OF m(1) n2(2)] show ?thesis by blast
qed

lemma sample_place:
  "mmap_place sample_mmap 0 0x10000 0x22 = Inr (sample_mmap\<lparr> mem_map := sample_vm \<rparr>, Inr 0xfeff0000)"
proof -
  have "NaClVmmapFindMapSpace sample_vm 16 = Inr (sample_vm, 0xfeff0)"
  proof -
    have three: "3 - 1 = Suc (Suc 0)" by simp
    have loop: "FindMapSpace_loop (vmentry sample_vm) (NaClRoundPageNumUpToMapMultiple 16) (Suc (Suc 0)) = 0xfeff0"
      by (simp add: sample_vm_def NaClRoundPageNumUpToMapMultiple_def NaClTruncPageNumDownToMapMultiple_def Let_def)
    show ?thesis
      unfolding NaClVmmapFindMapSpace_def sample_sorted sample_nvalid andThen.simps three loop by simp
  qed
  then show ?thesis by (simp add: mmap_place_def sample_mmap_fields)
qed

lemma mmap_munmap_roundtrip_witness:
  "\<exists>nap1 nap2. NaClSysMmapIntern mapping_os sample_descs (\<lambda>_. True) halt_validator sample_mmap 0 0x10000 3 0x22 0 0 =
      Inr (nap1, 0xfeff0000) \<and>
    NaClSysMunmap mapping_os nap1 0xfeff0000 0x10000 = Inr (nap2, 0) \<and> mem_inv nap2 \<and>
    page_at (mem_map nap2) = page_at sample_vm"
proof -
  have rnd: "NaClRoundAllocPage 0x10000 = 0x10000" by (simp add: NaClRoundAllocPage_def)
  have len: "unat (0x10000 :: u64) < 2 ^ 32" by simp
  have args: "anon_args 0x10000 3 0x22 0" "65536 dvd unat (0 :: u64)" by (simp_all add: anon_args_def)
  have place: "mmap_place sample_mmap 0 (NaClRoundAllocPage 0x10000) 0x22 =
      Inr (sample_mmap\<lparr> mem_map := sample_vm \<rparr>, Inr 0xfeff0000)" unfolding rnd by (rule sample_place)
  have found: "found (mem_map sample_mmap) sample_vm" using sample_vm_ok by (simp add: found_def sample_mmap_fields)
  have range: "data_range sample_mmap 0xfeff0000 (NaClRoundAllocPage 0x10000)"
    by (simp add: data_range_def rnd sample_mmap_fields)
  have host: "mapping_os (host_log sample_mmap) (HostMapAnon (mem_start sample_mmap + 0xfeff0000)
      (NaClRoundAllocPage 0x10000) 3 (0x22 OR MAP_FIXED) 0) = mem_start sample_mmap + 0xfeff0000"
    by (simp add: mapping_os_def)
  have idle: "\<not> io_pending sample_mmap u n" for u n
    by (simp add: io_pending_def sample_mmap_fields NaClIntervalRangeTreeOverlapsWith_def NaClIntervalRangeTreeCtor_def)
  obtain n1 where body: "mmap_body mapping_os sample_descs (\<lambda>_. True) halt_validator sample_mmap 0 0x10000 3 0x22 None 0 =
      Inr (n1, 0xfeff0000)"
    using run_unlessE [OF anon_granted [where os = mapping_os, OF sample_mmap_ok(1) len args place found range host,
        where ops = sample_descs and alloc = "\<lambda>_. True" and validator = halt_validator] idle] by auto
  let ?n1 = "with_refs (desc_unref None) n1"
  have run: "NaClSysMmapIntern mapping_os sample_descs (\<lambda>_. True) halt_validator sample_mmap 0 0x10000 3 0x22 0 0 =
      Inr (?n1, 0xfeff0000)"
    by (simp add: NaClSysMmapIntern_def body)
  have ok: "(3 :: u32) AND PROT_EXEC = 0" "(0x22 :: u32) AND MAP_FIXED = 0" "unat (0xfeff0000 :: u32) \<le> 2 ^ 32 - 4096"
    by simp_all
  have "frame sample_mmap ?n1"
    using mmap_result [OF sample_mmap_ok(1,2) len mapping_linux refl not_code [OF ok(1)], where start = 0 and fl = "0x22"
        and d = 0 and off = 0 and alloc = "\<lambda>_. True" and validator = halt_validator]
    unfolding run run_unless_simps prod.case by blast
  then have "\<not> io_pending ?n1 (ucast (0xfeff0000 :: u32)) (NaClRoundAllocPage 0x10000)"
    unfolding frame_io [OF \<open>frame sample_mmap ?n1\<close>] by (intro idle)
  moreover have "mapping_os (host_log ?n1) (HostMmapNone (mem_start ?n1 + ucast (0xfeff0000 :: u32)) (NaClRoundAllocPage 0x10000)) \<noteq> - 1"
    by (simp add: mapping_os_def)
  ultimately obtain nap2 where "NaClSysMunmap mapping_os ?n1 (ucast (0xfeff0000 :: u32)) 0x10000 = Inr (nap2, 0)" "mem_inv nap2"
    "page_at (mem_map nap2) = page_at (mem_map sample_mmap)"
    using mmap_munmap_roundtrip [OF sample_mmap_ok(1,2) len mapping_linux ok(1,2) run ok(3)] by blast
  with run show ?thesis by (auto simp: sample_mmap_fields)
qed

end
