(* ===== verification/Dyn_Text_Proofs.thy ===== *)
theory Dyn_Text_Proofs
  imports Dyn_Text
begin

text \<open>
  The dynamic code system calls keep the text area safe: a page of the shared object that
  untrusted code can see holds, at the head of every bundle outside the live regions, a halt.
\<close>

subsection \<open>The bitmap\<close>

definition visible :: "u8 list \<Rightarrow> nat \<Rightarrow> bool" where
  "visible bm p \<longleftrightarrow> p < 8 * length bm \<and> bit (bm ! (p div 8)) (p mod 8)"

lemma unat_div_mod_8: "unat (i div 8) = unat i div 8" "unat (i mod 8) = unat i mod 8" for i :: u32
  by (simp_all add: unat_div unat_mod)

lemma BitmapIsBitSet_visible:
  "unat i < 8 * length bm \<Longrightarrow> BitmapIsBitSet bm i = Inr (visible bm (unat i))"
  by (auto simp: BitmapIsBitSet_def visible_def unat_div_mod_8)

lemma BitmapSetBit_visible:
  assumes "unat i < 8 * length bm"
  obtains bm' where "BitmapSetBit bm i = Inr bm'" and "length bm' = length bm"
    and "\<forall>p. visible bm' p \<longleftrightarrow> visible bm p \<or> p = unat i"
proof -
  let ?k = "unat i div 8" and ?j = "unat i mod 8"
  let ?bm = "bm[?k := bm ! ?k OR push_bit ?j 1]"
  have k: "?k < length bm" using assms by linarith
  have "visible ?bm p \<longleftrightarrow> visible bm p \<or> p = unat i" for p
  proof (cases "p div 8 = ?k")
    case True
    have "bit (bm ! ?k OR push_bit ?j 1) (p mod 8) \<longleftrightarrow> bit (bm ! ?k) (p mod 8) \<or> p mod 8 = ?j"
      by (auto simp: bit_simps)
    moreover have "p mod 8 = ?j \<longleftrightarrow> p = unat i" using True by (metis mod_div_mult_eq)
    moreover have "p < 8 * length bm" using True k by linarith
    ultimately show ?thesis using True k by (simp add: visible_def)
  next
    case False
    then have "p \<noteq> unat i" by auto
    with False show ?thesis by (simp add: visible_def)
  qed
  then show ?thesis
    using k by (intro that [of ?bm]) (simp_all add: BitmapSetBit_def unat_div_mod_8)
qed

lemma mark_pages_result:
  assumes "unat e \<le> 8 * length bm" and "\<forall>p. unat i \<le> p \<and> p < unat e \<longrightarrow> \<not> visible bm p"
  shows "\<exists>bm'. mark_pages bm i e = Inr bm' \<and> length bm' = length bm \<and>
    (\<forall>p. visible bm' p \<longleftrightarrow> visible bm p \<or> unat i \<le> p \<and> p < unat e)"
  using assms
proof (induction "unat e - unat i" arbitrary: bm i rule: less_induct)
  case less
  show ?case
  proof (cases "i < e")
    case True
    then have lt: "unat i < unat e" by (simp add: word_less_nat_alt)
    have i: "unat i < 8 * length bm" using lt less.prems(1) by simp
    obtain bm1 where bm1: "BitmapSetBit bm i = Inr bm1" "length bm1 = length bm"
      "\<forall>p. visible bm1 p \<longleftrightarrow> visible bm p \<or> p = unat i" using BitmapSetBit_visible [OF i] by metis
    have nxt: "unat (i + 1) = unat i + 1" by (rule unat_plus_one [OF True])
    have "unat e - unat (i + 1) < unat e - unat i" using lt nxt by simp
    moreover have "\<forall>p. unat (i + 1) \<le> p \<and> p < unat e \<longrightarrow> \<not> visible bm1 p"
      using less.prems(2) bm1(3) nxt by auto
    ultimately obtain bm' where bm': "mark_pages bm1 (i + 1) e = Inr bm'" "length bm' = length bm1"
      "\<forall>p. visible bm' p \<longleftrightarrow> visible bm1 p \<or> unat (i + 1) \<le> p \<and> p < unat e"
      using less.hyps [of "i + 1" bm1] less.prems(1) bm1(2) by auto
    have "\<not> visible bm (unat i)" using less.prems(2) lt by simp
    then have "mark_pages bm i e = Inr bm'"
      using True BitmapIsBitSet_visible [OF i] bm1(1) bm'(1) by (subst mark_pages.simps) simp
    moreover have "unat i \<le> p \<longleftrightarrow> p = unat i \<or> unat (i + 1) \<le> p" for p using nxt by auto
    ultimately show ?thesis using bm' bm1 lt by auto
  next
    case False
    then show ?thesis
      by (subst mark_pages.simps) (auto simp: word_less_nat_alt)
  qed
qed

lemma unallocated_end_result:
  assumes "unat e \<le> 8 * length bm" and "i \<le> e"
  shows "\<exists>j. unallocated_end bm i e = Inr j \<and> i \<le> j \<and> j \<le> e \<and>
    (\<forall>p. unat i \<le> p \<and> p < unat j \<longrightarrow> \<not> visible bm p) \<and> (j < e \<longrightarrow> visible bm (unat j))"
  using assms
proof (induction "unat e - unat i" arbitrary: i rule: less_induct)
  case less
  show ?case
  proof (cases "i < e \<and> \<not> visible bm (unat i)")
    case True
    then have lt: "unat i < unat e" by (simp add: word_less_nat_alt)
    have i: "unat i < 8 * length bm" using lt less.prems(1) by simp
    have nxt: "unat (i + 1) = unat i + 1" using unat_plus_one [of i e] True by simp
    obtain j where j: "unallocated_end bm (i + 1) e = Inr j" "i + 1 \<le> j" "j \<le> e"
      "\<forall>p. unat (i + 1) \<le> p \<and> p < unat j \<longrightarrow> \<not> visible bm p" "j < e \<longrightarrow> visible bm (unat j)"
    proof -
      have "unat e - unat (i + 1) < unat e - unat i" "i + 1 \<le> e"
        using lt nxt by (simp_all add: word_le_nat_alt)
      with less.hyps [of "i + 1"] less.prems(1) that show ?thesis by blast
    qed
    have "unallocated_end bm i e = Inr j"
      using True BitmapIsBitSet_visible [OF i] j(1) by (subst unallocated_end.simps) simp
    moreover have "unat i \<le> p \<longleftrightarrow> p = unat i \<or> unat (i + 1) \<le> p" for p using nxt by auto
    moreover have "i \<le> j" using j(2) nxt by (simp add: word_le_nat_alt)
    ultimately show ?thesis using j True by auto
  next
    case False
    have "unallocated_end bm i e = Inr i"
    proof (cases "i < e")
      case True
      then have "unat i < 8 * length bm" using less.prems(1) by (simp add: word_less_nat_alt)
      with True False show ?thesis using BitmapIsBitSet_visible by (subst unallocated_end.simps) simp
    qed (subst unallocated_end.simps, simp)
    with False less.prems show ?thesis by auto
  qed
qed

subsection \<open>Making pages visible\<close>

abbreviation (input) page_of :: "u64 \<Rightarrow> nat" where
  "page_of i \<equiv> unat i div 65536"

text \<open>The fields that the mapping machinery leaves alone.\<close>

definition kept :: "'a NaClTextApp_scheme \<Rightarrow> 'a NaClTextApp_scheme \<Rightarrow> bool" where
  "kept nap nap' \<longleftrightarrow>
     dynamic_regions nap' = dynamic_regions nap \<and> mem_start nap' = mem_start nap \<and>
     addr_bits nap' = addr_bits nap \<and> bundle_size nap' = bundle_size nap \<and>
     dynamic_text_start nap' = dynamic_text_start nap \<and> dynamic_text_end nap' = dynamic_text_end nap \<and>
     text_shm nap' = text_shm nap \<and> dynamic_delete_generation nap' = dynamic_delete_generation nap \<and>
     thread_generations nap' = thread_generations nap \<and> mem_map nap' = mem_map nap \<and>
     desc_tbl nap' = desc_tbl nap \<and> break_addr nap' = break_addr nap \<and> mem_io_regions nap' = mem_io_regions nap"

text \<open>One step of the pages: some become visible, filled with halts; nothing else changes.\<close>

definition pages_step :: "'a NaClTextApp_scheme \<Rightarrow> 'a NaClTextApp_scheme \<Rightarrow> bool" where
  "pages_step nap nap' \<longleftrightarrow> kept nap nap' \<and>
     length (dynamic_page_bitmap nap') = length (dynamic_page_bitmap nap) \<and>
     (\<forall>p. visible (dynamic_page_bitmap nap) p \<longrightarrow> visible (dynamic_page_bitmap nap') p) \<and>
     (\<forall>i. text_mem nap' i =
        (if visible (dynamic_page_bitmap nap') (page_of i) \<and> \<not> visible (dynamic_page_bitmap nap) (page_of i)
         then NACL_HALT_OPCODE else text_mem nap i))"

lemma pages_step_refl [simp]: "pages_step nap nap"
  by (simp add: pages_step_def kept_def)

lemma kept_trans: "kept a b \<Longrightarrow> kept b c \<Longrightarrow> kept a c"
  by (simp add: kept_def)

lemma pages_stepD:
  assumes "pages_step a b"
  shows "kept a b" and "length (dynamic_page_bitmap b) = length (dynamic_page_bitmap a)"
    and "visible (dynamic_page_bitmap a) p \<Longrightarrow> visible (dynamic_page_bitmap b) p"
    and "text_mem b i = (if visible (dynamic_page_bitmap b) (page_of i) \<and>
      \<not> visible (dynamic_page_bitmap a) (page_of i) then NACL_HALT_OPCODE else text_mem a i)"
  using assms unfolding pages_step_def by blast+

lemma pages_stepI:
  assumes "kept a b" and "length (dynamic_page_bitmap b) = length (dynamic_page_bitmap a)"
    and "\<And>p. visible (dynamic_page_bitmap a) p \<Longrightarrow> visible (dynamic_page_bitmap b) p"
    and "\<And>i. visible (dynamic_page_bitmap b) (page_of i) \<Longrightarrow> \<not> visible (dynamic_page_bitmap a) (page_of i) \<Longrightarrow>
      text_mem b i = NACL_HALT_OPCODE"
    and "\<And>i. visible (dynamic_page_bitmap a) (page_of i) \<or> \<not> visible (dynamic_page_bitmap b) (page_of i) \<Longrightarrow>
      text_mem b i = text_mem a i"
  shows "pages_step a b"
  unfolding pages_step_def using assms by (intro conjI) auto

lemma pages_step_trans:
  assumes "pages_step a b" and "pages_step b c"
  shows "pages_step a c"
proof (rule pages_stepI)
  note ab = pages_stepD [OF assms(1)] and bc = pages_stepD [OF assms(2)]
  show "kept a c" using ab(1) bc(1) by (rule kept_trans)
  show "length (dynamic_page_bitmap c) = length (dynamic_page_bitmap a)" using ab(2) bc(2) by simp
  show "visible (dynamic_page_bitmap c) p" if "visible (dynamic_page_bitmap a) p" for p
    using ab(3) bc(3) that by blast
  show "text_mem c i = NACL_HALT_OPCODE"
    if "visible (dynamic_page_bitmap c) (page_of i)" "\<not> visible (dynamic_page_bitmap a) (page_of i)" for i
    using ab(4) [of i] bc(4) [of i] that by (simp split: if_splits)
  show "text_mem c i = text_mem a i"
    if "visible (dynamic_page_bitmap a) (page_of i) \<or> \<not> visible (dynamic_page_bitmap c) (page_of i)" for i
    using ab(3) [of "page_of i"] bc(3) [of "page_of i"] ab(4) [of i] bc(4) [of i] that
    by (cases "visible (dynamic_page_bitmap b) (page_of i)") auto
qed

lemma pages_step_update:
  "pages_step nap (nap'\<lparr> host_log := lg \<rparr>) \<longleftrightarrow> pages_step nap nap'"
  "pages_step nap (nap'\<lparr> dynamic_mapcache_offset := off, dynamic_mapcache_size := sz, dynamic_mapcache_ret := ret \<rparr>)
     \<longleftrightarrow> pages_step nap nap'"
  by (simp_all add: pages_step_def kept_def)

lemma diff_less_iff:
  fixes a n i :: u64
  assumes "unat a + unat n \<le> 2 ^ 64"
  shows "i - a < n \<longleftrightarrow> unat a \<le> unat i \<and> unat i < unat a + unat n"
  using assms unat_lt64 [of i] by (auto simp: word_less_nat_alt unat_sub_if')

lemma through_apply:
  "through mapping off f mem i = f (\<lambda>a. mem (ucast off + (a - mapping))) (mapping + (i - ucast off))"
  by (simp add: through_def)

lemma through_write_bytes:
  "through mapping off (\<lambda>m. write_bytes m a xs) mem = write_bytes mem (ucast off + (a - mapping)) xs"
proof
  fix i
  have pos: "mapping + (i - ucast off) - a = i - (ucast off + (a - mapping))" by simp
  have back_again: "ucast off + (mapping + (i - ucast off) - mapping) = i" by simp
  show "through mapping off (\<lambda>m. write_bytes m a xs) mem i = write_bytes mem (ucast off + (a - mapping)) xs i"
    unfolding through_apply write_bytes_def pos back_again ..
qed

text \<open>The byte offset of a page as the code computes it.\<close>

lemma page_offset:
  assumes "unat p < 65536"
  shows "unat (p * NACL_MAP_PAGESIZE :: u32) = unat p * 65536"
  using assms by (simp add: unat_word_ariths)

text \<open>The area is laid out as \<open>NaClMakeDynamicTextShared\<close> lays it out.\<close>

definition text_pages :: "'a NaClTextApp_scheme \<Rightarrow> nat" where
  "text_pages nap = (unat (dynamic_text_end nap) - unat (dynamic_text_start nap)) div 65536"

definition layout_ok :: "'a NaClTextApp_scheme \<Rightarrow> bool" where
  "layout_ok nap \<longleftrightarrow> space_ok nap \<and> bundle_size nap = 32 \<and> text_shm nap \<noteq> None \<and>
     65536 dvd unat (dynamic_text_start nap) \<and> 65536 dvd unat (dynamic_text_end nap) \<and>
     0 < unat (dynamic_text_start nap) \<and> unat (dynamic_text_start nap) < unat (dynamic_text_end nap) \<and>
     unat (dynamic_text_end nap) \<le> 2 ^ addr_bits nap \<and>
     text_pages nap \<le> 8 * length (dynamic_page_bitmap nap) \<and>
     32 dvd unat (mem_start nap)"

lemma layout_pages:
  assumes "layout_ok nap"
  shows "unat (dynamic_text_end nap) = unat (dynamic_text_start nap) + text_pages nap * 65536"
    and "text_pages nap < 65536" and "unat (dynamic_text_end nap) \<le> 2 ^ 32"
proof -
  let ?s = "unat (dynamic_text_start nap)" and ?e = "unat (dynamic_text_end nap)"
  have "65536 dvd ?e - ?s" using assms by (simp add: layout_ok_def dvd_diff_nat)
  moreover have "?s < ?e" using assms by (simp add: layout_ok_def)
  ultimately show e: "?e = ?s + text_pages nap * 65536" by (simp add: text_pages_def)
  have "space_ok nap" "?e \<le> 2 ^ addr_bits nap" using assms by (simp_all add: layout_ok_def)
  then show lim: "?e \<le> 2 ^ 32" using unat_addr_limit(2) [of nap] by linarith
  have "65536 \<le> ?s" using assms by (intro dvd_imp_le) (simp_all add: layout_ok_def)
  with e lim show "text_pages nap < 65536" by simp
qed

lemma MakeVisible_result:
  assumes "layout_ok nap" and "p < e" and "unat e \<le> text_pages nap"
    and "\<forall>k. unat p \<le> k \<and> k < unat e \<longrightarrow> \<not> visible (dynamic_page_bitmap nap) k"
    and "unat off \<le> unat p * 65536"
    and "text_mem nap (ucast (p * NACL_MAP_PAGESIZE)) = 0"
  shows "run_ok (MakeDynamicCodePagesVisible os nap p e
      (mapping + ucast (p * NACL_MAP_PAGESIZE - off)) mapping off)
    (\<lambda>nap'. pages_step nap nap' \<and>
       (\<forall>k. visible (dynamic_page_bitmap nap') k \<longleftrightarrow>
          visible (dynamic_page_bitmap nap) k \<or> unat p \<le> k \<and> k < unat e))"
proof -
  note pages = layout_pages [OF assms(1)]
  have pe: "unat p < unat e" using assms(2) by (simp add: word_less_nat_alt)
  let ?P = "p * NACL_MAP_PAGESIZE :: u32" and ?bm = "dynamic_page_bitmap nap"
  let ?sz = "ucast ((e - p) * NACL_MAP_PAGESIZE :: u32) :: u64"
  have P: "unat ?P = unat p * 65536" using pe assms(3) pages(2) by (intro page_offset) simp
  have ep: "unat (e - p) = unat e - unat p" using pe by (simp add: unat_sub_small)
  have sz: "unat ?sz = (unat e - unat p) * 65536"
    unfolding unat_ucast_up using ep assms(3) pages(2) by (subst page_offset) simp_all
  have at: "ucast off + ucast (?P - off) = (ucast ?P :: u64)"
  proof (rule word_eq_unatI)
    have "unat (?P - off) = unat ?P - unat off" using assms(5) P by (simp add: unat_sub_small)
    then show "unat (ucast off + ucast (?P - off) :: u64) = unat (ucast ?P :: u64)"
      using assms(5) P pages(2) pe assms(3) by (subst unat_add_small) (simp_all add: unat_ucast_up)
  qed
  have "unat e \<le> 8 * length ?bm" using assms(1,3) by (simp add: layout_ok_def)
  then obtain bm' where bm': "mark_pages ?bm p e = Inr bm'" "length bm' = length ?bm"
    "\<forall>k. visible bm' k \<longleftrightarrow> visible ?bm k \<or> unat p \<le> k \<and> k < unat e"
    using mark_pages_result assms(4) by blast
  let ?nap = "nap\<lparr> dynamic_page_bitmap := bm' \<rparr>"
  have "unat (dynamic_text_start nap + ucast ?P) = unat (dynamic_text_start nap) + unat p * 65536"
    using pages pe assms(3) P by (subst unat_add_small) (simp_all add: unat_ucast_up)
  moreover have "unat (dynamic_text_start nap) + unat p * 65536 < unat (dynamic_text_end nap)"
    using pages(1) pe assms(3) by simp
  ultimately have user: "\<exists>a. NaClUserToSys ?nap (dynamic_text_start nap + ucast ?P) = Inr a"
    using assms(1) by (subst UserToSys_iff) (simp_all add: layout_ok_def space_ok_def user_addr_def)
  then obtain a where a: "NaClUserToSys ?nap (dynamic_text_start nap + ucast ?P) = Inr a" ..
  let ?fill = "through mapping off (NaClFillMemoryRegionWithHalt (mapping + ucast (?P - off)) ?sz) (text_mem nap)"
  have fill: "?fill i = (if unat p \<le> page_of i \<and> page_of i < unat e then NACL_HALT_OPCODE else text_mem nap i)" for i
  proof -
    have "mapping + (i - ucast off) - (mapping + ucast (?P - off)) = i - (ucast off + ucast (?P - off))"
      by simp
    also have "\<dots> = i - ucast ?P" by (simp only: at)
    finally have pos: "mapping + (i - ucast off) - (mapping + ucast (?P - off)) = i - ucast ?P" .
    have "i - ucast ?P < ?sz \<longleftrightarrow> unat (ucast ?P :: u64) \<le> unat i \<and> unat i < unat (ucast ?P :: u64) + unat ?sz"
      using P sz pe assms(3) pages(2) by (intro diff_less_iff) (simp add: unat_ucast_up)
    also have "\<dots> \<longleftrightarrow> unat p \<le> page_of i \<and> page_of i < unat e"
      using P sz pe by (auto simp: unat_ucast_up less_eq_div_iff_mult_less_eq div_less_iff_less_mult diff_mult_distrib)
    finally have range: "i - ucast ?P < ?sz \<longleftrightarrow> unat p \<le> page_of i \<and> page_of i < unat e" .
    have same: "ucast off + (mapping + (i - ucast off) - mapping) = i" by simp
    show ?thesis unfolding through_apply NaClFillMemoryRegionWithHalt_def pos range same ..
  qed
  have zero: "text_mem nap (ucast off + (mapping + ucast (?P - off) - mapping)) = 0"
    using at assms(6) by simp
  define m where "m = ?fill"
  have step: "pages_step nap (?nap\<lparr> text_mem := m, host_log := lg \<rparr>)" for lg
  proof (rule pages_stepI)
    show "text_mem (?nap\<lparr> text_mem := m, host_log := lg \<rparr>) i = NACL_HALT_OPCODE"
      if "visible (dynamic_page_bitmap (?nap\<lparr> text_mem := m, host_log := lg \<rparr>)) (page_of i)"
        "\<not> visible ?bm (page_of i)" for i
      using that bm'(3) fill [of i, folded m_def] by simp
    show "text_mem (?nap\<lparr> text_mem := m, host_log := lg \<rparr>) i = text_mem nap i"
      if "visible ?bm (page_of i) \<or> \<not> visible (dynamic_page_bitmap (?nap\<lparr> text_mem := m, host_log := lg \<rparr>)) (page_of i)" for i
      using that bm'(3) assms(4) fill [of i, folded m_def] by auto
  qed (use bm'(2,3) in \<open>simp_all add: kept_def\<close>)
  define P where "P = ?P"
  define Q where "Q = mapping + ucast (?P - off)"
  define W where "W = ?sz"
  have run: "MakeDynamicCodePagesVisible os nap p e Q mapping off =
      (case host os (?nap\<lparr> text_mem := m \<rparr>) (HostMprotect a W (PROT_READ OR PROT_EXEC)) of
         (rv, nap) \<Rightarrow> if rv \<noteq> 0 then Inl LogFatal else Inr nap)"
    unfolding MakeDynamicCodePagesVisible_def Let_def P_def [symmetric] W_def [symmetric] bm'(1)
    using a [folded P_def] zero [folded Q_def] by (simp add: m_def Q_def W_def)
  show ?thesis
    unfolding Q_def [symmetric] run using bm'(3) step by (simp add: host_def)
qed

text \<open>Pages that are not visible yet are as the kernel made them.\<close>

definition hidden_zero :: "'a NaClTextApp_scheme \<Rightarrow> bool" where
  "hidden_zero nap \<longleftrightarrow> (\<forall>i. page_of i < text_pages nap \<and> \<not> visible (dynamic_page_bitmap nap) (page_of i) \<longrightarrow>
     text_mem nap i = 0)"

lemma pages_step_layout:
  assumes "pages_step nap nap'"
  shows "layout_ok nap \<Longrightarrow> layout_ok nap'" and "hidden_zero nap \<Longrightarrow> hidden_zero nap'"
    and "text_pages nap' = text_pages nap"
proof -
  have k: "kept nap nap'" and l: "length (dynamic_page_bitmap nap') = length (dynamic_page_bitmap nap)"
    using pages_stepD [OF assms] by simp_all
  show t: "text_pages nap' = text_pages nap" using k by (simp add: kept_def text_pages_def)
  show "layout_ok nap \<Longrightarrow> layout_ok nap'" using k l t by (simp add: layout_ok_def kept_def space_ok_def)
  assume "hidden_zero nap"
  then show "hidden_zero nap'"
    unfolding hidden_zero_def t using pages_stepD(3,4) [OF assms] by (metis (no_types, lifting))
qed

lemma visible_loop_result:
  assumes "layout_ok nap" and "hidden_zero nap" and "e \<le> text_pages nap" and "unat off \<le> cur * 65536"
  shows "run_ok (visible_loop os nap cur e mapping off)
    (\<lambda>nap'. pages_step nap nap' \<and> (\<forall>k. cur \<le> k \<and> k < e \<longrightarrow> visible (dynamic_page_bitmap nap') k))"
  using assms
proof (induction "e - cur" arbitrary: nap cur rule: less_induct)
  case less
  note pages = layout_pages [OF less.prems(1)]
  show ?case
  proof (cases "cur < e")
    case False
    then show ?thesis by (subst visible_loop.simps) auto
  next
    case True
    have small: "cur < 65536" "e < 65536" using True less.prems(3) pages(2) by simp_all
    let ?c = "of_nat cur :: u32" and ?e = "of_nat e :: u32" and ?bm = "dynamic_page_bitmap nap"
    have c: "unat ?c = cur" "unat ?e = e" using small by (simp_all add: unat_of_nat take_bit_nat_eq_self)
    have "unat ?e \<le> 8 * length ?bm" using less.prems(1,3) c by (simp add: layout_ok_def)
    moreover have "?c \<le> ?e" using True c by (simp add: word_le_nat_alt)
    ultimately obtain stop where stop: "unallocated_end ?bm ?c ?e = Inr stop" "?c \<le> stop" "stop \<le> ?e"
      "\<forall>k. cur \<le> k \<and> k < unat stop \<longrightarrow> \<not> visible ?bm k" "stop < ?e \<longrightarrow> visible ?bm (unat stop)"
      using unallocated_end_result [of ?e ?bm ?c] c by auto
    have range: "cur \<le> unat stop" "unat stop \<le> e" using stop(2,3) c by (simp_all add: word_le_nat_alt)
    let ?first = "if ?c < stop then MakeDynamicCodePagesVisible os nap ?c stop
        (mapping + ucast (?c * NACL_MAP_PAGESIZE - off)) mapping off else Inr nap"
    have first: "run_ok ?first (\<lambda>nap1. pages_step nap nap1 \<and>
        (\<forall>k. cur \<le> k \<and> k < max cur (unat stop) + 1 \<and> k < e \<longrightarrow> visible (dynamic_page_bitmap nap1) k))"
    proof (cases "?c < stop")
      case adv: True
      have "unat (ucast (?c * NACL_MAP_PAGESIZE) :: u64) = cur * 65536"
        unfolding unat_ucast_up using page_offset [of ?c] c small by simp
      then have "page_of (ucast (?c * NACL_MAP_PAGESIZE)) = cur" by simp
      moreover have "\<not> visible ?bm cur" using stop(4) adv c by (simp add: word_less_nat_alt)
      ultimately have zero: "text_mem nap (ucast (?c * NACL_MAP_PAGESIZE)) = 0"
        using less.prems(2,3) True unfolding hidden_zero_def by (metis less_le_trans)
      have "run_ok (MakeDynamicCodePagesVisible os nap ?c stop
          (mapping + ucast (?c * NACL_MAP_PAGESIZE - off)) mapping off)
        (\<lambda>nap1. pages_step nap nap1 \<and> (\<forall>k. visible (dynamic_page_bitmap nap1) k \<longleftrightarrow>
          visible ?bm k \<or> cur \<le> k \<and> k < unat stop))"
        using MakeVisible_result [OF less.prems(1) adv _ _ _ zero, of off os mapping] range less.prems(3,4) stop(4) c by simp
      then show ?thesis
        unfolding if_P [OF adv]
      proof (rule run_ok_weaken)
        fix nap1
        assume n1: "pages_step nap nap1 \<and> (\<forall>k. visible (dynamic_page_bitmap nap1) k \<longleftrightarrow>
          visible ?bm k \<or> cur \<le> k \<and> k < unat stop)"
        have "visible ?bm k" if "\<not> k < unat stop" "k < unat stop + 1" "k < e" for k
          using that stop(5) c by (auto simp: word_less_nat_alt less_Suc_eq)
        with n1 range show "pages_step nap nap1 \<and>
          (\<forall>k. cur \<le> k \<and> k < max cur (unat stop) + 1 \<and> k < e \<longrightarrow> visible (dynamic_page_bitmap nap1) k)"
          by (auto simp: max_def split: if_splits)
      qed
    next
      case stay: False
      then have eq: "stop = ?c" using stop(2) by simp
      then have "visible ?bm cur" using stop(5) True c by (simp add: word_less_nat_alt)
      moreover have "unat stop = cur" using eq c by simp
      ultimately show ?thesis using stay by (auto simp: less_Suc_eq)
    qed
    have "run_ok (andThen ?first (\<lambda>nap. visible_loop os nap (max cur (unat stop) + 1) e mapping off))
      (\<lambda>nap'. pages_step nap nap' \<and> (\<forall>k. cur \<le> k \<and> k < e \<longrightarrow> visible (dynamic_page_bitmap nap') k))"
    proof (rule run_ok_bind [OF first])
      fix nap1
      let ?next = "max cur (unat stop) + 1"
      assume n1: "pages_step nap nap1 \<and>
        (\<forall>k. cur \<le> k \<and> k < ?next \<and> k < e \<longrightarrow> visible (dynamic_page_bitmap nap1) k)"
      note lay = pages_step_layout [OF conjunct1 [OF n1]]
      have "e - ?next < e - cur" using True by simp
      moreover have "e \<le> text_pages nap1" using less.prems(3) lay(3) by simp
      moreover have "unat off \<le> ?next * 65536" using less.prems(4) by simp
      ultimately have "run_ok (visible_loop os nap1 ?next e mapping off)
        (\<lambda>nap'. pages_step nap1 nap' \<and> (\<forall>k. ?next \<le> k \<and> k < e \<longrightarrow> visible (dynamic_page_bitmap nap') k))"
        using less.hyps lay(1) [OF less.prems(1)] lay(2) [OF less.prems(2)] by blast
      then show "run_ok (visible_loop os nap1 ?next e mapping off)
        (\<lambda>nap'. pages_step nap nap' \<and> (\<forall>k. cur \<le> k \<and> k < e \<longrightarrow> visible (dynamic_page_bitmap nap') k))"
      proof (rule run_ok_weaken)
        fix nap'
        assume n': "pages_step nap1 nap' \<and> (\<forall>k. ?next \<le> k \<and> k < e \<longrightarrow> visible (dynamic_page_bitmap nap') k)"
        have "visible (dynamic_page_bitmap nap') k" if "cur \<le> k" "k < e" for k
          using n1 n' that pages_stepD(3) [OF conjunct1 [OF n'], of k] by (cases "?next \<le> k") auto
        then show "pages_step nap nap' \<and> (\<forall>k. cur \<le> k \<and> k < e \<longrightarrow> visible (dynamic_page_bitmap nap') k)"
          using n1 n' pages_step_trans by blast
      qed
    qed
    then show ?thesis using True stop(1) by (subst visible_loop.simps) simp
  qed
qed

subsection \<open>The writable mapping\<close>

text \<open>What the code relies on from the kernel: \<open>mmap\<close> returns an error number or a page-aligned
  address other than NULL at which the mapping fits.\<close>

definition maps_ok :: "os \<Rightarrow> bool" where
  "maps_ok os \<longleftrightarrow> (\<forall>lg d n pr fl off. let r = os lg (HostMapTrusted d n pr fl off) in
     NaClPtrIsNegErrno r \<or> r \<noteq> 0 \<and> 4096 dvd unat r \<and> unat r + unat n < 2 ^ 64)"

definition cache_ok :: "'a NaClTextApp_scheme \<Rightarrow> bool" where
  "cache_ok nap \<longleftrightarrow>
     (let off = dynamic_mapcache_offset nap; sz = dynamic_mapcache_size nap; ret = dynamic_mapcache_ret nap in
      if sz = 0 then off = 0 \<and> ret = 0
      else ret \<noteq> 0 \<and> 4096 dvd unat ret \<and> unat ret + unat sz < 2 ^ 64 \<and>
        (\<forall>k. unat off div 65536 \<le> k \<and> k < (unat off + unat sz) div 65536 \<longrightarrow>
           visible (dynamic_page_bitmap nap) k))"

lemma cache_ok_log: "cache_ok (nap\<lparr> host_log := lg \<rparr>) = cache_ok nap"
  by (simp add: cache_ok_def)

lemma clear_mapcache_step:
  assumes "cache_ok nap"
  shows "run_ok (clear_mapcache os nap) (\<lambda>nap'. pages_step nap nap' \<and> cache_ok nap' \<and>
    dynamic_mapcache_size nap' = 0 \<and> dynamic_page_bitmap nap' = dynamic_page_bitmap nap)"
  using assms
  by (auto simp: clear_mapcache_def NaClDescUnmapUnsafe_def host_def pages_step_update cache_ok_def Let_def
      pages_step_def kept_def word_neq_0_conv split: if_splits)

lemma CachedMap_clear:
  assumes "cache_ok nap"
  shows "run_ok (CachedMapWritableText os nap 0 0) (\<lambda>(nap', ret). pages_step nap nap' \<and> cache_ok nap' \<and>
    dynamic_page_bitmap nap' = dynamic_page_bitmap nap)"
proof (cases "0 \<noteq> dynamic_mapcache_offset nap \<or> 0 \<noteq> dynamic_mapcache_size nap")
  case True
  then have run: "CachedMapWritableText os nap 0 0 =
      andThen (clear_mapcache os nap) (\<lambda>nap. Inr (nap, dynamic_mapcache_ret nap))"
    by (simp add: CachedMapWritableText_def)
  show ?thesis unfolding run by (rule run_ok_bind [OF clear_mapcache_step [OF assms]]) simp
qed (use assms in \<open>simp add: CachedMapWritableText_def\<close>)

text \<open>A cache miss, once the old mapping is gone.\<close>

definition map_text ::
  "os \<Rightarrow> u32 \<Rightarrow> u32 \<Rightarrow> 'a NaClTextApp_scheme \<Rightarrow> ('a NaClTextApp_scheme \<times> u64) run" where
  "map_text os off sz nap =
     (case text_shm nap of
        None \<Rightarrow> Inl NullDeref
      | Some shm \<Rightarrow>
          let (mapping, nap) = host os nap
                 (HostMapTrusted shm (ucast sz) (PROT_READ OR PROT_WRITE) MAP_SHARED (ucast off)) in
          if NaClPtrIsNegErrno mapping then Inr (nap, 0)
          else
            andThen (visible_loop os nap (unat (off div NACL_MAP_PAGESIZE))
                       (unat ((off + sz) div NACL_MAP_PAGESIZE)) mapping off) (\<lambda>nap.
            Inr (nap\<lparr> dynamic_mapcache_offset := off, dynamic_mapcache_size := sz,
                       dynamic_mapcache_ret := mapping \<rparr>, mapping)))"

lemma map_text_result:
  fixes nap :: "'a NaClTextApp_scheme"
  assumes "layout_ok nap" and "hidden_zero nap" and "cache_ok nap" and "maps_ok os" and "sz \<noteq> 0"
    and "65536 dvd unat off" and "65536 dvd unat sz" and "unat off + unat sz \<le> text_pages nap * 65536"
  shows "run_ok (map_text os off sz nap) (\<lambda>(nap', ret).
    pages_step nap nap' \<and> cache_ok nap' \<and>
    (ret \<noteq> 0 \<longrightarrow> dynamic_mapcache_offset nap' = off \<and> dynamic_mapcache_size nap' = sz \<and>
       dynamic_mapcache_ret nap' = ret))"
proof -
  note pages = layout_pages [OF assms(1)]
  obtain shm where shm: "text_shm nap = Some shm"
    using assms(1) by (auto simp: layout_ok_def)
  let ?call = "HostMapTrusted shm (ucast sz) (PROT_READ OR PROT_WRITE) MAP_SHARED (ucast off)"
  let ?mapping = "os (host_log nap) ?call"
  let ?n2 = "nap\<lparr> host_log := host_log nap @ [?call] \<rparr>"
  have s2: "pages_step nap ?n2" by (simp add: pages_step_update)
  have run: "map_text os off sz nap =
      (if NaClPtrIsNegErrno ?mapping then Inr (?n2, 0)
       else andThen (visible_loop os ?n2 (unat (off div NACL_MAP_PAGESIZE)) (unat ((off + sz) div NACL_MAP_PAGESIZE)) ?mapping off)
         (\<lambda>nap. Inr (nap\<lparr> dynamic_mapcache_offset := off, dynamic_mapcache_size := sz,
                           dynamic_mapcache_ret := ?mapping \<rparr>, ?mapping)))"
    using shm by (simp add: map_text_def Let_def host_def)
  show ?thesis
  proof (cases "NaClPtrIsNegErrno ?mapping")
    case True
    have "cache_ok ?n2" using assms(3) by (simp only: cache_ok_log)
    with True s2 show ?thesis unfolding run by simp
  next
    case False
    then have m: "?mapping \<noteq> 0" "4096 dvd unat ?mapping" "unat ?mapping + unat sz < 2 ^ 64"
      using assms(4) unfolding maps_ok_def Let_def by (metis unat_ucast_up)+
    have sum: "unat (off + sz) = unat off + unat sz"
      using assms(8) pages(2) by (intro unat_add_small) simp
    have idx: "unat (off div NACL_MAP_PAGESIZE) = unat off div 65536"
      "unat ((off + sz) div NACL_MAP_PAGESIZE) = (unat off + unat sz) div 65536"
      using sum by (simp_all add: unat_div)
    note l2 = pages_step_layout [OF s2]
    have "(unat off + unat sz) div 65536 \<le> text_pages ?n2" using assms(8) l2(3) by simp
    moreover have "unat off \<le> unat off div 65536 * 65536" using assms(6) by simp
    ultimately have loop: "run_ok (visible_loop os ?n2 (unat off div 65536) ((unat off + unat sz) div 65536) ?mapping off)
        (\<lambda>nap'. pages_step ?n2 nap' \<and> (\<forall>k. unat off div 65536 \<le> k \<and> k < (unat off + unat sz) div 65536 \<longrightarrow>
           visible (dynamic_page_bitmap nap') k))"
      by (rule visible_loop_result [OF l2(1) [OF assms(1)] l2(2) [OF assms(2)]])
    show ?thesis
      unfolding run if_not_P [OF False] idx
    proof (rule run_ok_bind [OF loop])
      fix n3
      assume n3: "pages_step ?n2 n3 \<and> (\<forall>k. unat off div 65536 \<le> k \<and> k < (unat off + unat sz) div 65536 \<longrightarrow>
           visible (dynamic_page_bitmap n3) k)"
      then have "pages_step nap n3" using s2 pages_step_trans by blast
      with n3 m assms(5) show "run_ok (Inr (n3\<lparr> dynamic_mapcache_offset := off, dynamic_mapcache_size := sz,
            dynamic_mapcache_ret := ?mapping \<rparr>, ?mapping)) (\<lambda>(nap', ret). pages_step nap nap' \<and> cache_ok nap' \<and>
          (ret \<noteq> 0 \<longrightarrow> dynamic_mapcache_offset nap' = off \<and> dynamic_mapcache_size nap' = sz \<and>
             dynamic_mapcache_ret nap' = ret))"
        by (simp add: pages_step_update cache_ok_def Let_def)
    qed
  qed
qed

lemma CachedMap_result:
  assumes "layout_ok nap" and "hidden_zero nap" and "cache_ok nap" and "maps_ok os" and "sz \<noteq> 0"
    and "65536 dvd unat off" and "65536 dvd unat sz" and "unat off + unat sz \<le> text_pages nap * 65536"
  shows "run_ok (CachedMapWritableText os nap off sz) (\<lambda>(nap', ret).
    pages_step nap nap' \<and> cache_ok nap' \<and>
    (ret \<noteq> 0 \<longrightarrow> dynamic_mapcache_offset nap' = off \<and> dynamic_mapcache_size nap' = sz \<and>
       dynamic_mapcache_ret nap' = ret))"
proof (cases "off \<noteq> dynamic_mapcache_offset nap \<or> sz \<noteq> dynamic_mapcache_size nap")
  case False
  with assms(3) show ?thesis by (simp add: CachedMapWritableText_def)
next
  case True
  have "0 < sz" using assms(5) by (simp add: word_neq_0_conv)
  with True have run: "CachedMapWritableText os nap off sz = andThen (clear_mapcache os nap) (map_text os off sz)"
    by (simp add: CachedMapWritableText_def map_text_def [abs_def])
  show ?thesis
    unfolding run
  proof (rule run_ok_bind [OF clear_mapcache_step [OF assms(3)]])
    fix n1 :: "'a NaClTextApp_scheme"
    assume s1: "pages_step nap n1 \<and> cache_ok n1 \<and> dynamic_mapcache_size n1 = 0 \<and>
      dynamic_page_bitmap n1 = dynamic_page_bitmap nap"
    then have step: "pages_step nap n1" by blast
    note l1 = pages_step_layout [OF step]
    have "run_ok (map_text os off sz n1) (\<lambda>(nap', ret). pages_step n1 nap' \<and> cache_ok nap' \<and>
        (ret \<noteq> 0 \<longrightarrow> dynamic_mapcache_offset nap' = off \<and> dynamic_mapcache_size nap' = sz \<and>
           dynamic_mapcache_ret nap' = ret))"
      using s1 assms(8) unfolding l1(3) [symmetric]
      by (intro map_text_result [OF l1(1) [OF assms(1)] l1(2) [OF assms(2)] _ assms(4-7)]) blast+
    then show "run_ok (map_text os off sz n1) (\<lambda>(nap', ret). pages_step nap nap' \<and> cache_ok nap' \<and>
        (ret \<noteq> 0 \<longrightarrow> dynamic_mapcache_offset nap' = off \<and> dynamic_mapcache_size nap' = sz \<and>
           dynamic_mapcache_ret nap' = ret))"
      by (rule run_ok_weaken) (use pages_step_trans [OF step] in auto)
  qed
qed

text \<open>A range of the dynamic text area and where it lies in the shared object.\<close>

definition in_text :: "'a NaClTextApp_scheme \<Rightarrow> u32 \<Rightarrow> u32 \<Rightarrow> bool" where
  "in_text nap dest sz \<longleftrightarrow> unat (dynamic_text_start nap) \<le> unat dest \<and> 0 < unat sz \<and>
     unat dest + unat sz \<le> unat (dynamic_text_end nap)"

definition text_offset :: "'a NaClTextApp_scheme \<Rightarrow> u32 \<Rightarrow> nat" where
  "text_offset nap dest = unat dest - unat (dynamic_text_start nap)"

lemma shm_map_range_nat:
  assumes "unat (dynamic_text_start nap) \<le> unat dest" and "0 < unat sz"
    and "text_offset nap dest + unat sz + 65536 \<le> 2 ^ 32"
  obtains mo ms wo where "shm_map_range nap dest sz = (mo, ms, wo)"
    and "unat mo = text_offset nap dest div 65536 * 65536"
    and "unat mo + unat ms = (text_offset nap dest + unat sz + 65535) div 65536 * 65536"
    and "unat wo = text_offset nap dest mod 65536" and "ms \<noteq> 0"
    and "65536 dvd unat mo" and "65536 dvd unat ms"
proof -
  let ?so = "dest - ucast (dynamic_text_start nap) :: u32" and ?t = "text_offset nap dest"
  let ?mo = "?so AND NOT (NACL_MAP_PAGESIZE - 1)" and ?wo = "?so AND (NACL_MAP_PAGESIZE - 1)"
  let ?stop = "(?so + sz + NACL_MAP_PAGESIZE - 1) AND NOT (NACL_MAP_PAGESIZE - 1)"
  note room = assms(3)
  have "unat (dynamic_text_start nap) < 2 ^ 32"
    using assms(1) unat_lt32 [of dest] by linarith
  then have "unat (ucast (dynamic_text_start nap) :: u32) = unat (dynamic_text_start nap)"
    by (simp add: unsigned_ucast_eq take_bit_nat_eq_self)
  then have so: "unat ?so = ?t" using assms(1) by (simp add: unat_sub_small text_offset_def)
  have mo: "unat ?mo = ?t div 65536 * 65536"
    using so by (simp add: mask_numerals unat_and_not_mask)
  have wo: "unat ?wo = ?t mod 65536"
    using so by (simp add: mask_numerals flip: take_bit_eq_mask)
      (simp only: unsigned_take_bit_eq, simp add: take_bit_eq_mod)
  have "unat (?so + sz) = ?t + unat sz" using so room by (subst unat_add_small) simp_all
  then have "unat (?so + sz + 0xffff) = ?t + unat sz + 65535" using room by (subst unat_add_small) simp_all
  then have en: "unat ?stop = (?t + unat sz + 65535) div 65536 * 65536"
    by (simp add: mask_numerals unat_and_not_mask add_diff_eq [symmetric] add.assoc)
  have le: "?t div 65536 * 65536 < (?t + unat sz + 65535) div 65536 * 65536"
    using assms(2) by linarith
  then have ms: "unat (?stop - ?mo) = (?t + unat sz + 65535) div 65536 * 65536 - ?t div 65536 * 65536"
    using mo en by (simp add: unat_sub_small)
  show ?thesis
  proof (rule that [of ?mo "?stop - ?mo" ?wo])
    show "shm_map_range nap dest sz = (?mo, ?stop - ?mo, ?wo)" by (simp only: shm_map_range_def Let_def)
    show "?stop - ?mo \<noteq> 0" using ms le by auto
    show "65536 dvd unat (?stop - ?mo)" unfolding ms by (intro dvd_diff_nat) simp_all
  qed (use mo ms wo le in simp_all)
qed

lemma shm_map_range_result:
  assumes "layout_ok nap" and "in_text nap dest sz"
  obtains mo ms wo where "shm_map_range nap dest sz = (mo, ms, wo)"
    and "unat mo = text_offset nap dest div 65536 * 65536"
    and "unat mo + unat ms = (text_offset nap dest + unat sz + 65535) div 65536 * 65536"
    and "unat wo = text_offset nap dest mod 65536" and "ms \<noteq> 0"
    and "65536 dvd unat mo" and "65536 dvd unat ms" and "unat mo + unat ms \<le> text_pages nap * 65536"
proof -
  note pages = layout_pages [OF assms(1)]
  let ?t = "text_offset nap dest"
  have inn: "unat (dynamic_text_start nap) \<le> unat dest" "0 < unat sz"
    "unat dest + unat sz \<le> unat (dynamic_text_end nap)" using assms(2) by (simp_all add: in_text_def)
  have "65536 \<le> unat (dynamic_text_start nap)"
    using assms(1) by (intro dvd_imp_le) (simp_all add: layout_ok_def)
  then have room: "?t + unat sz + 65536 \<le> 2 ^ 32" using inn pages(3) unfolding text_offset_def by linarith
  have "?t + unat sz \<le> text_pages nap * 65536" using inn pages(1) unfolding text_offset_def by linarith
  then have lim: "(?t + unat sz + 65535) div 65536 * 65536 \<le> text_pages nap * 65536"
    using div_le_mono [of "?t + unat sz + 65535" "text_pages nap * 65536 + 65535" 65536] by simp
  obtain mo ms wo where "shm_map_range nap dest sz = (mo, ms, wo)"
    "unat mo = ?t div 65536 * 65536" "unat mo + unat ms = (?t + unat sz + 65535) div 65536 * 65536"
    "unat wo = ?t mod 65536" "ms \<noteq> 0" "65536 dvd unat mo" "65536 dvd unat ms"
    by (rule shm_map_range_nat [OF inn(1,2) room])
  moreover from this(3) lim have "unat mo + unat ms \<le> text_pages nap * 65536" by (simp only:)
  ultimately show ?thesis by (rule that)
qed

lemma mapped_range:
  assumes "cache_ok nap" and "dynamic_mapcache_size nap \<noteq> 0" and "32 dvd t" and "t + n < 2 ^ 32" and "0 < n"
    and "unat (dynamic_mapcache_offset nap) = t div 65536 * 65536"
    and "unat (dynamic_mapcache_offset nap) + unat (dynamic_mapcache_size nap) = (t + n + 65535) div 65536 * 65536"
    and "unat wo = t mod 65536"
  shows "ucast (dynamic_mapcache_offset nap) + ucast (wo :: u32) = (of_nat t :: u64)"
    and "32 dvd unat (dynamic_mapcache_ret nap + ucast wo)"
    and "unat (dynamic_mapcache_ret nap + ucast wo) + n < 2 ^ 64"
    and "i < n \<Longrightarrow> visible (dynamic_page_bitmap nap) ((t + i) div 65536)"
proof -
  let ?off = "dynamic_mapcache_offset nap" and ?ret = "dynamic_mapcache_ret nap" and ?sz = "dynamic_mapcache_size nap"
  have c: "4096 dvd unat ?ret" "unat ?ret + unat ?sz < 2 ^ 64"
    "\<forall>k. unat ?off div 65536 \<le> k \<and> k < (unat ?off + unat ?sz) div 65536 \<longrightarrow> visible (dynamic_page_bitmap nap) k"
    using assms(1,2) by (simp_all add: cache_ok_def Let_def)
  have off_wo: "unat ?off + unat wo = t" by (simp add: assms(6,8))
  show "ucast ?off + ucast wo = (of_nat t :: u64)"
  proof (rule word_eq_unatI)
    have "t < 2 ^ 64" using assms(4) by simp
    then show "unat (ucast ?off + ucast wo :: u64) = unat (of_nat t :: u64)"
      using off_wo assms(4) by (subst unat_add_small) (simp_all add: unat_ucast_up unat_of_nat64)
  qed
  have "t + n \<le> (t + n + 65535) div 65536 * 65536" by linarith
  then have fits: "unat wo + n \<le> unat ?sz" using off_wo assms(7) by linarith
  have sum: "unat (?ret + ucast wo) = unat ?ret + unat wo"
    using fits c(2) by (subst unat_add_small) (simp_all add: unat_ucast_up)
  have "32 dvd unat ?ret" using c(1) by (rule dvd_trans [rotated]) simp
  moreover have "32 dvd unat wo" unfolding assms(8) by (rule dvd_mod [OF assms(3)]) simp
  ultimately show "32 dvd unat (?ret + ucast wo)" unfolding sum by (rule dvd_add)
  show "unat (?ret + ucast wo) + n < 2 ^ 64" unfolding sum using fits c(2) by linarith
  assume "i < n"
  then have "t div 65536 \<le> (t + i) div 65536" "(t + i) div 65536 < (t + n + 65535) div 65536"
    by (simp_all add: div_le_mono)
  moreover have "\<forall>k. t div 65536 \<le> k \<and> k < (t + n + 65535) div 65536 \<longrightarrow> visible (dynamic_page_bitmap nap) k"
    using c(3) unfolding assms(7) unfolding assms(6) by simp
  ultimately show "visible (dynamic_page_bitmap nap) ((t + i) div 65536)" by blast
qed

lemma MapWrapper_result:
  assumes "layout_ok nap" and "hidden_zero nap" and "cache_ok nap" and "maps_ok os" and "in_text nap dest sz"
    and "32 dvd unat dest"
  shows "run_ok (NaClTextMapWrapper os nap dest sz) (\<lambda>(nap', mapped). pages_step nap nap' \<and> cache_ok nap' \<and>
    (\<forall>a. mapped = Some a \<longrightarrow>
       ucast (dynamic_mapcache_offset nap') + (a - dynamic_mapcache_ret nap') = of_nat (text_offset nap dest) \<and>
       32 dvd unat a \<and> unat a + unat sz < 2 ^ 64 \<and>
       (\<forall>i < unat sz. visible (dynamic_page_bitmap nap') ((text_offset nap dest + i) div 65536))))"
proof -
  let ?t = "text_offset nap dest"
  obtain mo ms wo where r: "shm_map_range nap dest sz = (mo, ms, wo)"
    "unat mo = ?t div 65536 * 65536"
    "unat mo + unat ms = (?t + unat sz + 65535) div 65536 * 65536"
    "unat wo = ?t mod 65536" "ms \<noteq> 0" "65536 dvd unat mo" "65536 dvd unat ms"
    "unat mo + unat ms \<le> text_pages nap * 65536"
    using shm_map_range_result [OF assms(1,5)] by blast
  have t32: "32 dvd ?t"
  proof -
    have "65536 dvd unat (dynamic_text_start nap)" using assms(1) by (simp add: layout_ok_def)
    then have "32 dvd unat (dynamic_text_start nap)" by (rule dvd_trans [rotated]) simp
    then show ?thesis unfolding text_offset_def using assms(6) by (rule dvd_diff_nat [rotated])
  qed
  note cm = CachedMap_result [OF assms(1-4) r(5,6,7,8)]
  have "run_ok (NaClTextMapWrapper os nap dest sz) (\<lambda>(nap', mapped). pages_step nap nap' \<and> cache_ok nap' \<and>
      (\<forall>a. mapped = Some a \<longrightarrow> dynamic_mapcache_offset nap' = mo \<and> dynamic_mapcache_size nap' = ms \<and>
         a = dynamic_mapcache_ret nap' + ucast wo))"
    unfolding NaClTextMapWrapper_def r(1) split_conv
    by (rule run_ok_bind [OF cm]) (auto split: if_splits)
  then show ?thesis
  proof (rule run_ok_weaken)
    fix x
    assume "case x of (nap', mapped) \<Rightarrow> pages_step nap nap' \<and> cache_ok nap' \<and>
      (\<forall>a. mapped = Some a \<longrightarrow> dynamic_mapcache_offset nap' = mo \<and> dynamic_mapcache_size nap' = ms \<and>
         a = dynamic_mapcache_ret nap' + ucast wo)"
    then obtain nap' mapped where x: "x = (nap', mapped)" "pages_step nap nap'" "cache_ok nap'"
      "\<forall>a. mapped = Some a \<longrightarrow> dynamic_mapcache_offset nap' = mo \<and> dynamic_mapcache_size nap' = ms \<and>
         a = dynamic_mapcache_ret nap' + ucast wo" by auto
    have inn: "0 < unat sz" using assms(5) by (simp add: in_text_def)
    have "0 < unat (dynamic_text_start nap)" using assms(1) by (simp add: layout_ok_def)
    moreover have "unat (dynamic_text_start nap) \<le> unat dest" "unat dest + unat sz \<le> unat (dynamic_text_end nap)"
      using assms(5) by (simp_all add: in_text_def)
    ultimately have top: "?t + unat sz < 2 ^ 32"
      using layout_pages(3) [OF assms(1)] unfolding text_offset_def by linarith
    have "ucast (dynamic_mapcache_offset nap') + (a - dynamic_mapcache_ret nap') = of_nat ?t \<and>
       32 dvd unat a \<and> unat a + unat sz < 2 ^ 64 \<and>
       (\<forall>i < unat sz. visible (dynamic_page_bitmap nap') ((?t + i) div 65536))" if "mapped = Some a" for a
    proof -
      from x(4) that have a: "dynamic_mapcache_offset nap' = mo" "dynamic_mapcache_size nap' = ms"
        "a = dynamic_mapcache_ret nap' + ucast wo" by blast+
      note m = mapped_range [OF x(3) _ t32 top inn, of wo, unfolded a(1,2), OF r(5,2,3,4)]
      have "a - dynamic_mapcache_ret nap' = ucast wo" by (simp add: a(3))
      with m show ?thesis unfolding a(1) by (simp add: a(3))
    qed
    with x show "case x of (nap', mapped) \<Rightarrow> pages_step nap nap' \<and> cache_ok nap' \<and>
      (\<forall>a. mapped = Some a \<longrightarrow>
         ucast (dynamic_mapcache_offset nap') + (a - dynamic_mapcache_ret nap') = of_nat ?t \<and>
         32 dvd unat a \<and> unat a + unat sz < 2 ^ 64 \<and>
         (\<forall>i < unat sz. visible (dynamic_page_bitmap nap') ((?t + i) div 65536)))" by simp
  qed
qed

lemma ClearCacheIfNeeded_result:
  assumes "cache_ok nap"
  shows "run_ok (NaClTextMapClearCacheIfNeeded os nap dest sz) (\<lambda>nap'. pages_step nap nap' \<and> cache_ok nap' \<and>
    dynamic_page_bitmap nap' = dynamic_page_bitmap nap)"
proof -
  obtain mo ms wo where r: "shm_map_range nap dest sz = (mo, ms, wo)" by (cases "shm_map_range nap dest sz")
  have "run_ok (andThen (CachedMapWritableText os nap 0 0) (\<lambda>(nap, mmap_ret). Inr nap)) (\<lambda>nap'.
      pages_step nap nap' \<and> cache_ok nap' \<and> dynamic_page_bitmap nap' = dynamic_page_bitmap nap)"
    by (rule run_ok_bind [OF CachedMap_clear [OF assms]]) auto
  then show ?thesis using assms by (simp add: NaClTextMapClearCacheIfNeeded_def r)
qed

end
