(* ===== verification/Dyn_Text_Safety.thy ===== *)
theory Dyn_Text_Safety
  imports Dyn_Text_Proofs
begin

text \<open>
  The safety invariant of dynamic code: outside the regions that are loaded and not being
  deleted, every bundle that untrusted code can reach starts with halts.  It is kept by
  creating and deleting code, with every error path; a successful creation installs exactly
  the validated code, and a region's memory is reused only when every thread has
  acknowledged its deletion.
\<close>

subsection \<open>The invariant\<close>

text \<open>The host address of bundle \<open>k\<close> of the area.\<close>

definition bundle_addr :: "'a NaClTextApp_scheme \<Rightarrow> nat \<Rightarrow> nat" where
  "bundle_addr nap k = unat (mem_start nap) + unat (dynamic_text_start nap) + 32 * k"

definition covers_bundle :: "'a NaClTextApp_scheme \<Rightarrow> NaClDynamicRegion \<Rightarrow> nat \<Rightarrow> bool" where
  "covers_bundle nap r k \<longleftrightarrow> unat (region_start r) \<le> bundle_addr nap k \<and> bundle_addr nap k < region_end r"

definition live_bundle :: "'a NaClTextApp_scheme \<Rightarrow> nat \<Rightarrow> bool" where
  "live_bundle nap k \<longleftrightarrow>
     (\<exists>r \<in> set (dynamic_regions nap). \<not> is_mmap r \<and> delete_generation r < 0 \<and> covers_bundle nap r k)"

definition bundle_visible :: "'a NaClTextApp_scheme \<Rightarrow> nat \<Rightarrow> bool" where
  "bundle_visible nap k \<longleftrightarrow> k < text_pages nap * 2048 \<and> visible (dynamic_page_bitmap nap) (k div 2048)"

definition bundle_halted :: "'a NaClTextApp_scheme \<Rightarrow> nat \<Rightarrow> bool" where
  "bundle_halted nap k \<longleftrightarrow> (\<forall>i < 4. text_mem nap (of_nat (32 * k + i)) = NACL_HALT_OPCODE)"

definition idle_halted :: "'a NaClTextApp_scheme \<Rightarrow> bool" where
  "idle_halted nap \<longleftrightarrow> (\<forall>k. bundle_visible nap k \<and> \<not> live_bundle nap k \<longrightarrow> bundle_halted nap k)"

text \<open>The regions of loaded code lie in the area, below its last bundle.\<close>

definition in_area :: "'a NaClTextApp_scheme \<Rightarrow> NaClDynamicRegion \<Rightarrow> bool" where
  "in_area nap r \<longleftrightarrow> 32 dvd unat (region_start r) \<and> 32 dvd unat (region_size r) \<and>
     bundle_addr nap 0 \<le> unat (region_start r) \<and>
     region_end r + 32 \<le> unat (mem_start nap) + unat (dynamic_text_end nap)"

definition generations_ok :: "'a NaClTextApp_scheme \<Rightarrow> bool" where
  "generations_ok nap \<longleftrightarrow> 0 \<le> dynamic_delete_generation nap \<and> dynamic_delete_generation nap \<le> INT32_MAX \<and>
     (\<forall>g. Some g \<in> set (thread_generations nap) \<longrightarrow> g \<le> dynamic_delete_generation nap) \<and>
     (\<forall>r \<in> set (dynamic_regions nap). delete_generation r \<le> dynamic_delete_generation nap)"

text \<open>The area is smaller than 2 GB: \<open>CopyBundleTails\<close> takes its size as an \<open>int32_t\<close>.\<close>

definition text_inv :: "'a NaClTextApp_scheme \<Rightarrow> bool" where
  "text_inv nap \<longleftrightarrow> layout_ok nap \<and> text_pages nap < 2 ^ 15 \<and> hidden_zero nap \<and> cache_ok nap \<and>
     regions_ok (dynamic_regions nap) \<and>
     (\<forall>r \<in> set (dynamic_regions nap). \<not> is_mmap r \<longrightarrow> in_area nap r) \<and>
     generations_ok nap \<and> idle_halted nap"

lemma text_invI:
  assumes "layout_ok nap" and "text_pages nap < 2 ^ 15" and "hidden_zero nap" and "cache_ok nap"
    and "regions_ok (dynamic_regions nap)"
    and "\<And>r. r \<in> set (dynamic_regions nap) \<Longrightarrow> \<not> is_mmap r \<Longrightarrow> in_area nap r"
    and "generations_ok nap" and "idle_halted nap"
  shows "text_inv nap"
  using assms unfolding text_inv_def by blast

lemma text_invD:
  assumes "text_inv nap"
  shows "layout_ok nap" and "text_pages nap < 2 ^ 15" and "hidden_zero nap" and "cache_ok nap"
    and "regions_ok (dynamic_regions nap)"
    and "r \<in> set (dynamic_regions nap) \<Longrightarrow> \<not> is_mmap r \<Longrightarrow> in_area nap r"
    and "generations_ok nap" and "idle_halted nap"
  using assms unfolding text_inv_def by blast+

text \<open>Bytes of the object and the bundle that holds them.\<close>

lemma byte_of_bundle:
  assumes "k < text_pages nap * 2048" and "text_pages nap < 65536" and "i < 32"
  shows "unat (of_nat (32 * k + i) :: u64) = 32 * k + i"
    and "page_of (of_nat (32 * k + i)) = k div 2048"
proof -
  have "text_pages nap * 2048 \<le> 65535 * 2048" using assms(2) by (intro mult_le_mono1) simp
  then have "32 * k + i < 2 ^ 64" using assms(1,3) by simp
  then show u: "unat (of_nat (32 * k + i) :: u64) = 32 * k + i" by (rule unat_of_nat64)
  have "(32 * k + i) div 65536 = (32 * k + i) div 32 div 2048" using div_mult2_eq [of "32 * k + i" 32 2048] by simp
  also have "(32 * k + i) div 32 = k" using assms(3) by simp
  finally show "page_of (of_nat (32 * k + i)) = k div 2048" unfolding u .
qed

lemma idle_haltedI:
  assumes "\<And>k. bundle_visible nap k \<Longrightarrow> \<not> live_bundle nap k \<Longrightarrow> bundle_halted nap k"
  shows "idle_halted nap"
  using assms unfolding idle_halted_def by blast

lemma pages_step_bundles:
  assumes "pages_step nap nap'"
  shows "live_bundle nap' = live_bundle nap" and "in_area nap' = in_area nap"
    and "generations_ok nap' = generations_ok nap" and "dynamic_regions nap' = dynamic_regions nap"
  using pages_stepD(1) [OF assms]
  by (auto simp: live_bundle_def covers_bundle_def bundle_addr_def in_area_def generations_ok_def kept_def fun_eq_iff)

lemma pages_step_halted:
  assumes "pages_step nap nap'" and "text_pages nap < 65536" and "k < text_pages nap * 2048"
    and "bundle_visible nap' k" and "bundle_visible nap k \<Longrightarrow> bundle_halted nap k"
  shows "bundle_halted nap' k"
  unfolding bundle_halted_def
proof (intro allI impI)
  fix i :: nat assume i: "i < 4"
  then have page: "page_of (of_nat (32 * k + i)) = k div 2048"
    using byte_of_bundle(2) [OF assms(3,2), of i] by simp
  have vis: "visible (dynamic_page_bitmap nap') (k div 2048)"
    using assms(4) by (simp add: bundle_visible_def)
  note m = pages_stepD(4) [OF assms(1), of "of_nat (32 * k + i)", unfolded page]
  show "text_mem nap' (of_nat (32 * k + i)) = NACL_HALT_OPCODE"
  proof (cases "visible (dynamic_page_bitmap nap) (k div 2048)")
    case True
    then have "bundle_halted nap k" using assms(3,5) by (simp add: bundle_visible_def)
    then have "text_mem nap (of_nat (32 * k + i)) = NACL_HALT_OPCODE" using i by (simp add: bundle_halted_def)
    with m True show ?thesis by simp
  qed (use m vis in simp)
qed

lemma pages_step_inv:
  assumes "pages_step nap nap'" and "text_inv nap" and "cache_ok nap'"
  shows "text_inv nap'"
proof (rule text_invI)
  note inv = text_invD [OF assms(2)] and lay = pages_step_layout [OF assms(1)] and b = pages_step_bundles [OF assms(1)]
  show "layout_ok nap'" "hidden_zero nap'" "cache_ok nap'" "text_pages nap' < 2 ^ 15"
    using inv(1-3) lay assms(3) by simp_all
  show "regions_ok (dynamic_regions nap')" unfolding b by (rule inv(5))
  show "in_area nap' r" if "r \<in> set (dynamic_regions nap')" "\<not> is_mmap r" for r
    using inv(6) that unfolding b by blast
  show "generations_ok nap'" unfolding b by (rule inv(7))
  show "idle_halted nap'"
  proof (rule idle_haltedI)
    fix k assume k: "bundle_visible nap' k" "\<not> live_bundle nap' k"
    then have "k < text_pages nap * 2048" unfolding bundle_visible_def lay(3) by blast
    moreover have "bundle_halted nap k" if "bundle_visible nap k"
      using inv(8) that k(2) unfolding b idle_halted_def by blast
    ultimately show "bundle_halted nap' k"
      using k(1) layout_pages(2) [OF inv(1)] by (intro pages_step_halted [OF assms(1)])
  qed
qed

text \<open>Writes to live bundles of visible pages, through the mapping, keep the invariant.\<close>

lemma text_mem_simps:
  "layout_ok (nap\<lparr> text_mem := m \<rparr>) = layout_ok nap" "text_pages (nap\<lparr> text_mem := m \<rparr>) = text_pages nap"
  "cache_ok (nap\<lparr> text_mem := m \<rparr>) = cache_ok nap" "in_area (nap\<lparr> text_mem := m \<rparr>) = in_area nap"
  "generations_ok (nap\<lparr> text_mem := m \<rparr>) = generations_ok nap"
  "live_bundle (nap\<lparr> text_mem := m \<rparr>) = live_bundle nap"
  "bundle_visible (nap\<lparr> text_mem := m \<rparr>) = bundle_visible nap"
  by (simp_all add: layout_ok_def space_ok_def text_pages_def cache_ok_def in_area_def bundle_addr_def
      generations_ok_def live_bundle_def covers_bundle_def bundle_visible_def fun_eq_iff)

lemma text_inv_store:
  assumes "text_inv nap"
    and "\<And>i. m i \<noteq> text_mem nap i \<Longrightarrow>
      visible (dynamic_page_bitmap nap) (page_of i) \<and> live_bundle nap (unat i div 32)"
  shows "text_inv (nap\<lparr> text_mem := m \<rparr>)"
proof (rule text_invI)
  note inv = text_invD [OF assms(1)]
  let ?n = "nap\<lparr> text_mem := m \<rparr>"
  show "layout_ok ?n" "text_pages ?n < 2 ^ 15" "cache_ok ?n" "generations_ok ?n" "regions_ok (dynamic_regions ?n)"
    using inv(1,2,4,5,7) by (simp_all add: text_mem_simps)
  show "in_area ?n r" if "r \<in> set (dynamic_regions ?n)" "\<not> is_mmap r" for r
    using inv(6) [of r] that by (simp add: text_mem_simps)
  show "hidden_zero ?n"
    unfolding hidden_zero_def text_mem_simps
  proof (intro allI impI)
    fix i assume i: "page_of i < text_pages nap \<and> \<not> visible (dynamic_page_bitmap ?n) (page_of i)"
    then have "m i = text_mem nap i" using assms(2) [of i] by auto
    with i inv(3) show "text_mem ?n i = 0" by (simp add: hidden_zero_def)
  qed
  show "idle_halted ?n"
  proof (rule idle_haltedI, unfold text_mem_simps)
    fix k assume k: "bundle_visible nap k" "\<not> live_bundle nap k"
    then have h: "bundle_halted nap k" using inv(8) by (simp add: idle_halted_def)
    have "m (of_nat (32 * k + i)) = text_mem nap (of_nat (32 * k + i))" if "i < 4" for i
    proof (rule ccontr)
      assume "m (of_nat (32 * k + i)) \<noteq> text_mem nap (of_nat (32 * k + i))"
      then have "live_bundle nap (unat (of_nat (32 * k + i) :: u64) div 32)" using assms(2) by blast
      moreover have "unat (of_nat (32 * k + i) :: u64) = 32 * k + i"
        using k(1) layout_pages(2) [OF inv(1)] that
        by (intro byte_of_bundle(1) [of _ nap]) (simp_all add: bundle_visible_def)
      ultimately show False using k(2) that by simp
    qed
    with h show "bundle_halted ?n k" by (simp add: bundle_halted_def)
  qed
qed

subsection \<open>A region of loaded code and its bytes\<close>

text \<open>The facts about a range of the area that the system calls establish by their checks.\<close>

definition code_range :: "'a NaClTextApp_scheme \<Rightarrow> u32 \<Rightarrow> u32 \<Rightarrow> bool" where
  "code_range nap dest sz \<longleftrightarrow> 32 dvd unat dest \<and> 32 dvd unat sz \<and> 0 < unat sz \<and>
     unat (dynamic_text_start nap) \<le> unat dest \<and> unat dest + unat sz + 32 \<le> unat (dynamic_text_end nap)"

definition range_visible :: "'a NaClTextApp_scheme \<Rightarrow> u32 \<Rightarrow> u32 \<Rightarrow> bool" where
  "range_visible nap dest sz \<longleftrightarrow>
     (\<forall>i < unat sz. visible (dynamic_page_bitmap nap) ((text_offset nap dest + i) div 65536))"

lemma code_range_facts:
  assumes "layout_ok nap" and "text_pages nap < 2 ^ 15" and "code_range nap dest sz"
  shows "in_text nap dest sz" and "text_offset nap dest + unat sz + 32 \<le> text_pages nap * 65536"
    and "text_offset nap dest + unat sz < 2 ^ 31" and "32 dvd text_offset nap dest"
    and "unat (of_nat (text_offset nap dest) :: u64) = text_offset nap dest"
proof -
  have r: "unat (dynamic_text_start nap) \<le> unat dest" "unat dest + unat sz + 32 \<le> unat (dynamic_text_end nap)"
    "0 < unat sz" "32 dvd unat dest" using assms(3) by (simp_all add: code_range_def)
  show "in_text nap dest sz" using r by (simp add: in_text_def)
  show le: "text_offset nap dest + unat sz + 32 \<le> text_pages nap * 65536"
    using r(1,2) layout_pages(1) [OF assms(1)] unfolding text_offset_def by linarith
  moreover have "text_pages nap * 65536 \<le> 2 ^ 31" using assms(2) by simp
  ultimately show lt: "text_offset nap dest + unat sz < 2 ^ 31" by linarith
  have "65536 dvd unat (dynamic_text_start nap)" using assms(1) by (simp add: layout_ok_def)
  then have "32 dvd unat (dynamic_text_start nap)" by (rule dvd_trans [rotated]) simp
  then show "32 dvd text_offset nap dest" unfolding text_offset_def using r(4) by (rule dvd_diff_nat [rotated])
  from lt have "text_offset nap dest < 2 ^ 31" by linarith
  then show "unat (of_nat (text_offset nap dest) :: u64) = text_offset nap dest" by (intro unat_of_nat64) simp
qed

text \<open>A write inside the range touches a byte of it.\<close>

lemma write_in_range:
  assumes "layout_ok nap" and "text_pages nap < 2 ^ 15" and "code_range nap dest sz" and "range_visible nap dest sz"
    and "unat (i - of_nat (text_offset nap dest)) < unat sz"
  shows "visible (dynamic_page_bitmap nap) (page_of i)"
    and "text_offset nap dest \<le> 32 * (unat i div 32)"
    and "32 * (unat i div 32) < text_offset nap dest + unat sz"
proof -
  note f = code_range_facts [OF assms(1-3)]
  let ?t = "text_offset nap dest"
  have small: "unat (of_nat ?t :: u64) + unat (ucast sz :: u64) \<le> 2 ^ 64" using f(3,5) by (simp add: unat_ucast_up)
  have "i - of_nat ?t < ucast sz" using assms(5) by (simp add: word_less_nat_alt unat_ucast_up)
  then have i: "?t \<le> unat i" "unat i < ?t + unat sz"
    using diff_less_iff [OF small, of i] f(5) by (simp_all add: unat_ucast_up)
  have "visible (dynamic_page_bitmap nap) ((?t + (unat i - ?t)) div 65536)"
    using assms(4) i unfolding range_visible_def by (auto dest: spec [of _ "unat i - ?t"])
  then show "visible (dynamic_page_bitmap nap) (page_of i)" using i(1) by simp
  obtain c where c: "?t = 32 * c" using f(4) by (rule dvdE)
  then have "c \<le> unat i div 32" using div_le_mono [OF i(1), of 32] by simp
  then show "?t \<le> 32 * (unat i div 32)" unfolding c by simp
  show "32 * (unat i div 32) < ?t + unat sz" using i(2) by linarith
qed

definition range_region :: "'a NaClTextApp_scheme \<Rightarrow> u32 \<Rightarrow> u32 \<Rightarrow> NaClDynamicRegion \<Rightarrow> bool" where
  "range_region nap dest sz r \<longleftrightarrow>
     unat (region_start r) = unat (mem_start nap) + unat dest \<and> unat (region_size r) = unat sz"

lemma range_region_covers:
  assumes "code_range nap dest sz" and "range_region nap dest sz r"
  shows "covers_bundle nap r k \<longleftrightarrow> text_offset nap dest \<le> 32 * k \<and> 32 * k < text_offset nap dest + unat sz"
  using assms by (auto simp: covers_bundle_def bundle_addr_def range_region_def region_end_def text_offset_def
      code_range_def)

text \<open>Stores through the mapping into the range of a live region.\<close>

lemma store_live_range:
  assumes "text_inv nap" and "code_range nap dest sz" and "range_visible nap dest sz"
    and "r \<in> set (dynamic_regions nap)" and "range_region nap dest sz r"
    and "\<not> is_mmap r" and "delete_generation r < 0"
    and "\<And>i. m i \<noteq> text_mem nap i \<Longrightarrow> unat (i - of_nat (text_offset nap dest)) < unat sz"
  shows "text_inv (nap\<lparr> text_mem := m \<rparr>)"
proof (rule text_inv_store [OF assms(1)])
  note inv = text_invD [OF assms(1)]
  fix i assume "m i \<noteq> text_mem nap i"
  then have "unat (i - of_nat (text_offset nap dest)) < unat sz" by (rule assms(8))
  note w = write_in_range [OF inv(1,2) assms(2,3) this]
  have "live_bundle nap (unat i div 32)"
    unfolding live_bundle_def using assms(4,6,7) range_region_covers [OF assms(2,5)] w(2,3) by blast
  with w(1) show "visible (dynamic_page_bitmap nap) (page_of i) \<and> live_bundle nap (unat i div 32)" by blast
qed

subsection \<open>Writing through the mapping\<close>

text \<open>The outcome of mapping a range, storing to it and clearing the cache.  \<open>P\<close> is what the
  stores guarantee of the bytes of the range.\<close>

definition rewritten ::
  "'a NaClTextApp_scheme \<Rightarrow> u32 \<Rightarrow> u32 \<Rightarrow> ((nat \<Rightarrow> u8) \<Rightarrow> bool) \<Rightarrow> 'a NaClTextApp_scheme \<Rightarrow> bool" where
  "rewritten nap dest sz P nap' \<longleftrightarrow> text_inv nap' \<and> kept nap nap' \<and> range_visible nap' dest sz \<and>
     P (\<lambda>k. text_mem nap' (of_nat (text_offset nap dest + k))) \<and>
     (\<forall>i. visible (dynamic_page_bitmap nap) (page_of i) \<and>
        \<not> unat (i - of_nat (text_offset nap dest)) < unat sz \<longrightarrow> text_mem nap' i = text_mem nap i)"

lemma kept_offset: "kept nap nap' \<Longrightarrow> text_offset nap' dest = text_offset nap dest"
  by (simp add: kept_def text_offset_def)

lemma kept_range: "kept nap nap' \<Longrightarrow> code_range nap' dest sz = code_range nap dest sz"
  by (simp add: kept_def code_range_def)

lemma kept_region: "kept nap nap' \<Longrightarrow> range_region nap' dest sz = range_region nap dest sz"
  by (simp add: kept_def range_region_def fun_eq_iff)

lemma kept_regions: "kept nap nap' \<Longrightarrow> dynamic_regions nap' = dynamic_regions nap"
  by (simp add: kept_def)

lemma kept_store: "kept nap (nap'\<lparr> text_mem := m \<rparr>) = kept nap nap'"
  by (simp add: kept_def)

lemma stored_bytes:
  assumes "ucast off + (a - ret) = of_nat t"
  shows "through ret off f mem (of_nat (t + k)) = f (\<lambda>a. mem (ucast off + (a - ret))) (a + of_nat k)"
proof -
  have "ret + (of_nat (t + k) - ucast off) = a + of_nat k"
    unfolding of_nat_add assms [symmetric] by simp
  then show ?thesis by (simp only: through_apply)
qed

lemma stored_frame:
  assumes "ucast off + (a - ret) = of_nat t" and "\<And>mem x. \<not> unat (x - a) < n \<Longrightarrow> f mem x = mem x"
    and "\<not> unat (i - of_nat t) < n"
  shows "through ret off f mem i = mem i"
proof -
  have "ret + (i - ucast off) - a = i - of_nat t" unfolding assms(1) [symmetric] by simp
  then have "\<not> unat (ret + (i - ucast off) - a) < n" using assms(3) by (rule ssubst [where P = "\<lambda>x. \<not> unat x < n"])
  then have "through ret off f mem i = mem (ucast off + (ret + (i - ucast off) - ret))"
    unfolding through_apply by (rule assms(2))
  then show ?thesis by simp
qed

lemma store_and_clear:
  fixes nap2 :: "'a NaClTextApp_scheme"
  assumes "text_inv nap2" and "code_range nap2 dest sz" and "range_visible nap2 dest sz"
    and "r \<in> set (dynamic_regions nap2)" and "range_region nap2 dest sz r" and "\<not> is_mmap r" and "delete_generation r < 0"
    and "ucast (dynamic_mapcache_offset nap2) + (a - dynamic_mapcache_ret nap2) = of_nat (text_offset nap2 dest)"
    and "\<And>mem x. \<not> unat (x - a) < unat sz \<Longrightarrow> f mem x = mem x"
    and "\<And>mem. P (\<lambda>k. f mem (a + of_nat k))"
  shows "run_ok (NaClTextMapClearCacheIfNeeded os (store_text nap2 f) dest sz) (rewritten nap2 dest sz P)"
proof -
  let ?t = "text_offset nap2 dest" and ?n3 = "store_text nap2 f"
  let ?m = "through (dynamic_mapcache_ret nap2) (dynamic_mapcache_offset nap2) f (text_mem nap2)"
  have n3: "?n3 = nap2\<lparr> text_mem := ?m \<rparr>" by (simp only: store_text_def)
  have frame: "?m i = text_mem nap2 i" if "\<not> unat (i - of_nat ?t) < unat sz" for i
    by (rule stored_frame [where a = a and n = "unat sz", OF assms(8) _ that]) (rule assms(9))
  then have inv3: "text_inv ?n3" unfolding n3
    by (intro store_live_range [OF assms(1-7)]) blast
  have "(\<lambda>k. ?m (of_nat (?t + k))) =
      (\<lambda>k. f (\<lambda>a. text_mem nap2 (ucast (dynamic_mapcache_offset nap2) + (a - dynamic_mapcache_ret nap2))) (a + of_nat k))"
    by (rule ext) (rule stored_bytes [OF assms(8)])
  then have content: "P (\<lambda>k. ?m (of_nat (?t + k)))" using assms(10) by simp
  show ?thesis
  proof (rule run_ok_weaken [OF ClearCacheIfNeeded_result [OF text_invD(4) [OF inv3]]])
    fix nap' :: "'a NaClTextApp_scheme"
    assume c: "pages_step ?n3 nap' \<and> cache_ok nap' \<and> dynamic_page_bitmap nap' = dynamic_page_bitmap ?n3"
    then have step: "pages_step ?n3 nap'" and bm: "dynamic_page_bitmap nap' = dynamic_page_bitmap ?n3" by blast+
    have mem: "text_mem nap' i = ?m i" for i
      using pages_stepD(4) [OF step, of i] unfolding bm by (simp add: n3)
    have keep: "kept nap2 nap'"
      using pages_stepD(1) [OF step] by (rule kept_trans [rotated]) (simp add: n3 kept_def)
    show "rewritten nap2 dest sz P nap'"
      unfolding rewritten_def
    proof (intro conjI allI impI)
      show "text_inv nap'" using c by (intro pages_step_inv [OF step inv3]) blast
      show "kept nap2 nap'" by (rule keep)
      show "range_visible nap' dest sz"
        using assms(3) unfolding range_visible_def kept_offset [OF keep] bm n3 by simp
      show "P (\<lambda>k. text_mem nap' (of_nat (?t + k)))" unfolding mem by (rule content)
      show "text_mem nap' i = text_mem nap2 i"
        if "visible (dynamic_page_bitmap nap2) (page_of i) \<and> \<not> unat (i - of_nat ?t) < unat sz" for i
        unfolding mem using frame that by blast
    qed
  qed
qed

lemma rewrite_range:
  assumes "text_inv nap" and "maps_ok os" and "code_range nap dest sz"
    and "r \<in> set (dynamic_regions nap)" and "range_region nap dest sz r" and "\<not> is_mmap r" and "delete_generation r < 0"
    and copier: "\<And>nap2 a. kept nap nap2 \<Longrightarrow> 32 dvd unat a \<Longrightarrow> unat a + unat sz < 2 ^ 64 \<Longrightarrow>
      \<exists>ws. copier nap2 a = Inr ws \<and> (\<forall>mem x. \<not> unat (x - a) < unat sz \<longrightarrow> after_writes ws mem x = mem x) \<and>
        (\<forall>mem. P (\<lambda>k. after_writes ws mem (a + of_nat k)))"
    and "\<And>nap'. text_inv nap' \<Longrightarrow> pages_step nap nap' \<Longrightarrow> Q (fail nap')"
    and "\<And>nap'. rewritten nap dest sz P nap' \<Longrightarrow> Q (finish nap')"
  shows "run_ok (andThen (NaClTextMapWrapper os nap dest sz) (\<lambda>(nap, mapped).
      case mapped of None \<Rightarrow> Inr (fail nap)
      | Some a \<Rightarrow> andThen (copier nap a) (\<lambda>ws.
          andThen (NaClTextMapClearCacheIfNeeded os (store_text nap (after_writes ws)) dest sz) (\<lambda>nap.
          Inr (finish nap))))) Q"
proof -
  note inv = text_invD [OF assms(1)] and rng = code_range_facts [OF text_invD(1,2) [OF assms(1)] assms(3)]
  have "32 dvd unat dest" using assms(3) by (simp add: code_range_def)
  note map = MapWrapper_result [OF inv(1,3,4) assms(2) rng(1) this]
  show ?thesis
  proof (rule run_ok_bind [OF map])
    fix x
    assume "case x of (nap', mapped) \<Rightarrow> pages_step nap nap' \<and> cache_ok nap' \<and>
      (\<forall>a. mapped = Some a \<longrightarrow>
         ucast (dynamic_mapcache_offset nap') + (a - dynamic_mapcache_ret nap') = of_nat (text_offset nap dest) \<and>
         32 dvd unat a \<and> unat a + unat sz < 2 ^ 64 \<and>
         (\<forall>i < unat sz. visible (dynamic_page_bitmap nap') ((text_offset nap dest + i) div 65536)))"
    then obtain nap2 mapped where x: "x = (nap2, mapped)" "pages_step nap nap2" "cache_ok nap2"
      and a: "\<And>a. mapped = Some a \<Longrightarrow>
         ucast (dynamic_mapcache_offset nap2) + (a - dynamic_mapcache_ret nap2) = of_nat (text_offset nap dest) \<and>
         32 dvd unat a \<and> unat a + unat sz < 2 ^ 64 \<and>
         (\<forall>i < unat sz. visible (dynamic_page_bitmap nap2) ((text_offset nap dest + i) div 65536))"
      by (auto split: prod.splits)
    have inv2: "text_inv nap2" by (rule pages_step_inv [OF x(2) assms(1) x(3)])
    have keep: "kept nap nap2" by (rule pages_stepD(1) [OF x(2)])
    note k = kept_offset [OF keep] kept_range [OF keep] kept_region [OF keep] kept_regions [OF keep]
    show "run_ok (case x of (nap, mapped) \<Rightarrow> case mapped of None \<Rightarrow> Inr (fail nap)
      | Some a \<Rightarrow> andThen (copier nap a) (\<lambda>ws.
          andThen (NaClTextMapClearCacheIfNeeded os (store_text nap (after_writes ws)) dest sz) (\<lambda>nap.
          Inr (finish nap)))) Q"
    proof (cases mapped)
      case None
      then show ?thesis using assms(9) [OF inv2 x(2)] by (simp add: x(1))
    next
      case (Some a0)
      note a = a [OF Some]
      obtain ws where ws: "copier nap2 a0 = Inr ws" "\<forall>mem x. \<not> unat (x - a0) < unat sz \<longrightarrow> after_writes ws mem x = mem x"
        "\<forall>mem. P (\<lambda>k. after_writes ws mem (a0 + of_nat k))" using copier [OF keep, of a0] a by blast
      have vis: "range_visible nap2 dest sz" using a by (simp add: range_visible_def k)
      have "run_ok (NaClTextMapClearCacheIfNeeded os (store_text nap2 (after_writes ws)) dest sz) (rewritten nap2 dest sz P)"
        using store_and_clear [OF inv2 assms(3) [folded k] vis assms(4) [folded k] assms(5) [folded k] assms(6,7),
          of a0 "after_writes ws" P os] a ws(2,3) unfolding k by blast
      then have "run_ok (andThen (NaClTextMapClearCacheIfNeeded os (store_text nap2 (after_writes ws)) dest sz)
          (\<lambda>nap. Inr (finish nap))) Q"
      proof (rule run_ok_bind)
        fix nap'
        assume "rewritten nap2 dest sz P nap'"
        then have "rewritten nap dest sz P nap'"
          using keep pages_stepD(3,4) [OF x(2)] kept_trans [OF keep]
          unfolding rewritten_def k by (metis (no_types, lifting))
        then show "run_ok (Inr (finish nap')) Q" using assms(10) by simp
      qed
      then show ?thesis using Some ws(1) by (simp add: x(1))
    qed
  qed
qed

subsection \<open>Changes of the region table\<close>

definition same_text :: "'a NaClTextApp_scheme \<Rightarrow> 'a NaClTextApp_scheme \<Rightarrow> bool" where
  "same_text nap nap' \<longleftrightarrow>
     mem_start nap' = mem_start nap \<and> addr_bits nap' = addr_bits nap \<and> bundle_size nap' = bundle_size nap \<and>
     dynamic_text_start nap' = dynamic_text_start nap \<and> dynamic_text_end nap' = dynamic_text_end nap \<and>
     text_shm nap' = text_shm nap \<and> dynamic_page_bitmap nap' = dynamic_page_bitmap nap \<and>
     text_mem nap' = text_mem nap \<and> dynamic_mapcache_offset nap' = dynamic_mapcache_offset nap \<and>
     dynamic_mapcache_size nap' = dynamic_mapcache_size nap \<and> dynamic_mapcache_ret nap' = dynamic_mapcache_ret nap"

lemma same_text_simps:
  assumes "same_text nap nap'"
  shows "layout_ok nap' = layout_ok nap" and "text_pages nap' = text_pages nap"
    and "hidden_zero nap' = hidden_zero nap" and "cache_ok nap' = cache_ok nap" and "in_area nap' = in_area nap"
    and "bundle_visible nap' = bundle_visible nap" and "bundle_halted nap' = bundle_halted nap"
    and "covers_bundle nap' = covers_bundle nap" and "text_offset nap' = text_offset nap"
    and "code_range nap' = code_range nap" and "range_region nap' = range_region nap"
    and "text_mem nap' = text_mem nap" and "dynamic_page_bitmap nap' = dynamic_page_bitmap nap"
    and "mem_start nap' = mem_start nap" and "bundle_size nap' = bundle_size nap"
proof -
  note eqs = assms [unfolded same_text_def]
  show pg: "text_pages nap' = text_pages nap" using eqs by (simp add: text_pages_def)
  have ba: "bundle_addr nap' = bundle_addr nap" using eqs by (simp add: bundle_addr_def fun_eq_iff)
  show "layout_ok nap' = layout_ok nap" using eqs pg by (simp add: layout_ok_def space_ok_def)
  show "hidden_zero nap' = hidden_zero nap" using eqs pg by (simp add: hidden_zero_def)
  show "cache_ok nap' = cache_ok nap" using eqs by (simp add: cache_ok_def)
  show "in_area nap' = in_area nap" using eqs ba by (simp add: in_area_def fun_eq_iff)
  show "bundle_visible nap' = bundle_visible nap" using eqs pg by (simp add: bundle_visible_def fun_eq_iff)
  show "bundle_halted nap' = bundle_halted nap" using eqs by (simp add: bundle_halted_def fun_eq_iff)
  show "covers_bundle nap' = covers_bundle nap" using ba by (simp add: covers_bundle_def fun_eq_iff)
  show "text_offset nap' = text_offset nap" using eqs by (simp add: text_offset_def fun_eq_iff)
  show "code_range nap' = code_range nap" using eqs by (simp add: code_range_def fun_eq_iff)
  show "range_region nap' = range_region nap" using eqs by (simp add: range_region_def fun_eq_iff)
  show "text_mem nap' = text_mem nap" "dynamic_page_bitmap nap' = dynamic_page_bitmap nap"
    "mem_start nap' = mem_start nap" "bundle_size nap' = bundle_size nap" using eqs by blast+
qed

lemma text_inv_regions:
  assumes "text_inv nap" and "same_text nap nap'" and "regions_ok (dynamic_regions nap')"
    and "\<And>r. r \<in> set (dynamic_regions nap') \<Longrightarrow> \<not> is_mmap r \<Longrightarrow> in_area nap r" and "generations_ok nap'"
    and "\<And>k. bundle_visible nap k \<Longrightarrow> live_bundle nap k \<Longrightarrow> \<not> live_bundle nap' k \<Longrightarrow> bundle_halted nap k"
  shows "text_inv nap'"
proof (rule text_invI)
  note inv = text_invD [OF assms(1)] and same = same_text_simps [OF assms(2)]
  show "layout_ok nap'" "text_pages nap' < 2 ^ 15" "hidden_zero nap'" "cache_ok nap'"
    unfolding same by (rule inv(1) inv(2) inv(3) inv(4))+
  show "in_area nap' r" if "r \<in> set (dynamic_regions nap')" "\<not> is_mmap r" for r
    unfolding same using that by (rule assms(4))
  show "idle_halted nap'"
  proof (rule idle_haltedI, unfold same)
    fix k assume k: "bundle_visible nap k" "\<not> live_bundle nap' k"
    then show "bundle_halted nap k"
      using assms(6) [of k] inv(8) unfolding idle_halted_def by blast
  qed
qed (rule assms(3,5))+

end
