(* ===== verification/Dyn_Text_Calls.thy ===== *)
theory Dyn_Text_Calls
  imports Dyn_Text_Safety
begin

text \<open>
  The dynamic code system calls keep the safety invariant of \<open>Dyn_Text_Safety\<close>, and what
  each of them achieves when it succeeds: \<open>NaClTextDyncodeCreate\<close> and
  \<open>NaClSysDyncodeDelete\<close> of \<open>service_runtime/nacl_text.c\<close>.
\<close>

lemma neg_errno_nonzero [simp]:
  "neg_errno EINVAL \<noteq> 0" "neg_errno EFAULT \<noteq> 0" "neg_errno ENOMEM \<noteq> 0" "neg_errno ENOSYS \<noteq> 0"
  "neg_errno EAGAIN \<noteq> 0"
  by (simp_all add: neg_errno_def)

subsection \<open>Creating code\<close>

text \<open>What a successful creation leaves behind.\<close>

definition installed ::
  "'a NaClTextApp_scheme \<Rightarrow> u32 \<Rightarrow> u32 \<Rightarrow> u8 list \<Rightarrow> 'a NaClTextApp_scheme \<Rightarrow> bool" where
  "installed nap dest sz code nap' \<longleftrightarrow>
     (\<forall>r \<in> set (dynamic_regions nap).
        \<not> meets r (unat (mem_start nap) + unat dest) (unat (mem_start nap) + unat dest + unat sz)) \<and>
     set (dynamic_regions nap') =
       insert (new_region (mem_start nap + ucast dest) (ucast sz) False) (set (dynamic_regions nap)) \<and>
     dynamic_text_start nap' = dynamic_text_start nap \<and> dynamic_text_end nap' = dynamic_text_end nap \<and>
     mem_start nap' = mem_start nap \<and> range_visible nap' dest sz \<and>
     (\<forall>k < unat sz. text_mem nap' (of_nat (text_offset nap dest + k)) = code ! k) \<and>
     (\<forall>i. visible (dynamic_page_bitmap nap) (page_of i) \<and>
        \<not> unat (i - of_nat (text_offset nap dest)) < unat sz \<longrightarrow> text_mem nap' i = text_mem nap i)"

lemma range_addr:
  assumes "space_ok nap" and "unat dest + unat sz \<le> 2 ^ addr_bits nap"
  shows "unat (mem_start nap + ucast (dest :: u32)) = unat (mem_start nap) + unat dest"
    and "unat (mem_start nap) + unat dest + unat (sz :: u32) < 2 ^ 64"
proof -
  have "unat (mem_start nap) + 2 ^ addr_bits nap < 2 ^ 64" using assms(1) by (simp add: space_ok_def)
  with assms(2) show lt: "unat (mem_start nap) + unat dest + unat sz < 2 ^ 64" by linarith
  then show "unat (mem_start nap + ucast dest) = unat (mem_start nap) + unat dest"
    by (subst unat_add_small) (simp_all add: unat_ucast_up)
qed

lemma code_range_space:
  assumes "layout_ok nap" and "code_range nap dest sz"
  shows "space_ok nap" and "unat dest + unat sz \<le> 2 ^ addr_bits nap"
  using assms by (auto simp: layout_ok_def code_range_def)

lemma copy_new_code:
  assumes "32 dvd unat a" and "unat a + unat sz < 2 ^ 64" and "32 dvd unat sz" and "unat sz < 2 ^ 31"
    and "length code = unat sz"
  shows "\<exists>ws. CopyCodeSafelyInitial a code sz 32 = Inr ws \<and>
    (\<forall>mem x. \<not> unat (x - a) < unat sz \<longrightarrow> after_writes ws mem x = mem x) \<and>
    (\<forall>mem. \<forall>k < unat sz. after_writes ws mem (a + of_nat k) = code ! k)"
proof -
  have ok: "copy_ok a sz 32 5" using assms by (simp add: copy_ok_def)
  obtain ws where ws: "CopyCodeSafelyInitial a code sz 32 = Inr ws"
    by (rule CopyCodeSafely_result [OF ok assms(2,5)])
  note w = copy_seen(2) [OF ok assms(2,5) ws]
  have "unat (of_nat k :: u64) = k" if "k < unat sz" for k
    using that assms(4) by (intro unat_of_nat64) simp
  then show ?thesis using ws by (intro exI [of _ ws]) (simp add: w write_bytes_def assms(5))
qed

lemma new_region_range:
  assumes "layout_ok nap" and "code_range nap dest sz"
  shows "range_region nap dest sz (new_region (mem_start nap + ucast dest) (ucast sz) False)"
    and "in_area nap (new_region (mem_start nap + ucast dest) (ucast sz) False)"
proof -
  note a = range_addr [OF code_range_space [OF assms]]
  show "range_region nap dest sz (new_region (mem_start nap + ucast dest) (ucast sz) False)"
    using a by (simp add: range_region_def new_region_def unat_ucast_up)
  have "32 dvd unat (mem_start nap)" using assms(1) by (simp add: layout_ok_def)
  then show "in_area nap (new_region (mem_start nap + ucast dest) (ucast sz) False)"
    using a assms(2)
    by (simp add: in_area_def new_region_def unat_ucast_up region_end_def bundle_addr_def code_range_def)
qed

lemma create_region:
  assumes "text_inv nap" and "code_range nap dest sz"
    and "NaClDynamicRegionCreate alloc nap (mem_start nap + ucast dest) (ucast sz) False = Inr (nap1, ok)"
  shows "text_inv nap1" and "same_text nap nap1"
    and "ok \<longleftrightarrow> (\<forall>r \<in> set (dynamic_regions nap).
      \<not> meets r (unat (mem_start nap) + unat dest) (unat (mem_start nap) + unat dest + unat sz))"
    and "set (dynamic_regions nap1) = (if ok
      then insert (new_region (mem_start nap + ucast dest) (ucast sz) False) (set (dynamic_regions nap))
      else set (dynamic_regions nap))"
proof -
  note inv = text_invD [OF assms(1)]
  note a = range_addr [OF code_range_space [OF inv(1) assms(2)]]
  let ?r = "new_region (mem_start nap + ucast dest) (ucast sz) False"
  have sz: "0 < unat (ucast sz :: u64)" using assms(2) by (simp add: code_range_def unat_ucast_up)
  have lt: "unat (mem_start nap + ucast dest) + unat (ucast sz :: u64) < 2 ^ 64"
    using a by (simp add: unat_ucast_up)
  note c = Create_result [OF inv(5) sz lt assms(3)]
  show "ok \<longleftrightarrow> (\<forall>r \<in> set (dynamic_regions nap).
      \<not> meets r (unat (mem_start nap) + unat dest) (unat (mem_start nap) + unat dest + unat sz))"
    using c a by (simp add: unat_ucast_up)
  show set: "set (dynamic_regions nap1) = (if ok then insert ?r (set (dynamic_regions nap)) else set (dynamic_regions nap))"
    using c by blast
  obtain sp rs' where n1: "nap1 = (if ok then nap\<lparr> dynamic_regions_allocated := sp, dynamic_regions := rs' \<rparr>
       else nap\<lparr> dynamic_regions_allocated := sp \<rparr>)" using c by blast
  then show same: "same_text nap nap1" by (auto simp: same_text_def)
  have gen: "dynamic_delete_generation nap1 = dynamic_delete_generation nap"
    "thread_generations nap1 = thread_generations nap" using n1 by auto
  show "text_inv nap1"
  proof (rule text_inv_regions [OF assms(1) same])
    show "regions_ok (dynamic_regions nap1)" using c by blast
    show "in_area nap r" if "r \<in> set (dynamic_regions nap1)" "\<not> is_mmap r" for r
      using that inv(6) new_region_range(2) [OF inv(1) assms(2)] unfolding set by (auto split: if_splits)
    show "generations_ok nap1"
      using inv(7) unfolding generations_ok_def gen set by (auto simp: new_region_def)
    show "bundle_halted nap k" if "live_bundle nap k" "\<not> live_bundle nap1 k" for k
    proof -
      have "set (dynamic_regions nap) \<subseteq> set (dynamic_regions nap1)" unfolding set by auto
      with that show ?thesis unfolding live_bundle_def same_text_simps [OF same] by blast
    qed
  qed
qed

lemma create_tail:
  assumes "text_inv nap" and "maps_ok os" and "code_range nap dest sz" and "length code = unat sz"
  shows "run_ok (andThen (NaClDynamicRegionCreate alloc nap (mem_start nap + ucast dest) (ucast sz) False) (\<lambda>(nap, created).
      if \<not> created then Inr (nap, neg_errno EINVAL)
      else andThen (NaClTextMapWrapper os nap dest sz) (\<lambda>(nap, mapped).
        case mapped of None \<Rightarrow> Inr (nap, neg_errno ENOMEM)
        | Some a \<Rightarrow> andThen (CopyCodeSafelyInitial a code sz (bundle_size nap)) (\<lambda>ws.
            andThen (NaClTextMapClearCacheIfNeeded os (store_text nap (after_writes ws)) dest sz) (\<lambda>nap.
            Inr (nap, 0))))))
    (\<lambda>(nap', rv). text_inv nap' \<and> (rv = 0 \<longrightarrow> installed nap dest sz code nap'))"
proof (cases "NaClDynamicRegionCreate alloc nap (mem_start nap + ucast dest) (ucast sz) False")
  case (Inl e)
  then have "e = LogFatal"
    unfolding NaClDynamicRegionCreate_def Let_def by (auto split: if_splits option.splits)
  with Inl show ?thesis by simp
next
  case (Inr x)
  obtain nap1 ok where x: "x = (nap1, ok)" by (cases x)
  note c = create_region [OF assms(1,3) Inr [unfolded x]]
  note same = same_text_simps [OF c(2)] and inv1 = text_invD [OF c(1)]
  show ?thesis
  proof (cases ok)
    case False
    with c(1) Inr x show ?thesis by simp
  next
    case True
    let ?r = "new_region (mem_start nap + ucast dest) (ucast sz) False"
    let ?P = "\<lambda>f. \<forall>k < unat sz. f k = code ! k"
    have rng: "code_range nap1 dest sz" using assms(3) by (simp only: same)
    note f = code_range_facts [OF inv1(1,2) rng]
    have rr: "range_region nap1 dest sz ?r"
      using new_region_range(1) [OF text_invD(1) [OF assms(1)] assms(3)] by (simp only: same)
    have mem: "?r \<in> set (dynamic_regions nap1)" using c(4) True by simp
    have live: "\<not> is_mmap ?r" "delete_generation ?r < 0" by (simp_all add: new_region_def)
    have copier: "\<exists>ws. CopyCodeSafelyInitial a code sz (bundle_size nap2) = Inr ws \<and>
        (\<forall>mem x. \<not> unat (x - a) < unat sz \<longrightarrow> after_writes ws mem x = mem x) \<and>
        (\<forall>mem. ?P (\<lambda>k. after_writes ws mem (a + of_nat k)))"
      if "kept nap1 nap2" "32 dvd unat a" "unat a + unat sz < 2 ^ 64" for nap2 a
    proof -
      have "bundle_size nap2 = 32" using that(1) inv1(1) by (simp add: kept_def layout_ok_def)
      moreover have "unat sz < 2 ^ 31" using f(3) by linarith
      ultimately show ?thesis
        using copy_new_code [OF that(2,3) _ _ assms(4)] rng by (simp add: code_range_def)
    qed
    have "run_ok (andThen (NaClTextMapWrapper os nap1 dest sz) (\<lambda>(nap, mapped).
        case mapped of None \<Rightarrow> Inr (nap, neg_errno ENOMEM)
        | Some a \<Rightarrow> andThen (CopyCodeSafelyInitial a code sz (bundle_size nap)) (\<lambda>ws.
            andThen (NaClTextMapClearCacheIfNeeded os (store_text nap (after_writes ws)) dest sz) (\<lambda>nap.
            Inr (nap, 0)))))
      (\<lambda>(nap', rv). text_inv nap' \<and> (rv = 0 \<longrightarrow> installed nap dest sz code nap'))"
    proof (rule rewrite_range [OF c(1) assms(2) rng mem rr live, where P = ?P
          and copier = "\<lambda>nap a. CopyCodeSafelyInitial a code sz (bundle_size nap)"
          and fail = "\<lambda>nap. (nap, neg_errno ENOMEM)" and finish = "\<lambda>nap. (nap, 0)", OF copier])
      fix nap' assume "rewritten nap1 dest sz ?P nap'"
      note w = this [unfolded rewritten_def same]
      then have k: "kept nap1 nap'" by blast
      have "dynamic_text_start nap' = dynamic_text_start nap" "dynamic_text_end nap' = dynamic_text_end nap"
        "mem_start nap' = mem_start nap" using k c(2) by (simp_all add: kept_def same_text_def)
      with kept_regions [OF k] c(3,4) True w
      show "case (nap', 0) of (nap', rv) \<Rightarrow> text_inv nap' \<and> (rv = (0 :: u32) \<longrightarrow> installed nap dest sz code nap')"
        unfolding installed_def by simp
    qed simp_all
    with Inr x True show ?thesis by simp
  qed
qed

text \<open>What passing the checks means, when \<open>dest + size\<close> does not wrap around.\<close>

lemma and_31: "x AND (32 - 1) = 0 \<longleftrightarrow> 32 dvd unat (x :: u32)"
  using mask_and_eq_0 [of 5 x] by (simp add: mask_eq_exp_minus_1 and.commute)

lemma create_checks:
  assumes "layout_ok nap" and "unat dest + unat sz < 2 ^ 32" and "sz \<noteq> 0"
    and "dest AND (bundle_size nap - 1) = 0" and "sz AND (bundle_size nap - 1) = 0"
    and "\<not> ucast dest < dynamic_text_start nap"
    and "\<not> ucast (dest + sz) > dynamic_text_end nap - NACL_HALT_SLED_SIZE"
  shows "code_range nap dest sz"
    and "NaClUserToSysAddrRange nap (ucast dest) (ucast sz) = mem_start nap + ucast dest"
proof -
  have l: "bundle_size nap = 32" "space_ok nap" "65536 dvd unat (dynamic_text_end nap)"
    "unat (dynamic_text_start nap) < unat (dynamic_text_end nap)" "unat (dynamic_text_end nap) \<le> 2 ^ addr_bits nap"
    "0 < unat (dynamic_text_start nap)"
    using assms(1) by (simp_all add: layout_ok_def)
  have low: "unat (dynamic_text_start nap) \<le> unat dest"
    using assms(6) by (simp add: word_less_nat_alt unat_ucast_up)
  have "65536 \<le> unat (dynamic_text_end nap)" using l(3,4) by (intro dvd_imp_le) simp_all
  then have sub: "unat (dynamic_text_end nap - NACL_HALT_SLED_SIZE) = unat (dynamic_text_end nap) - 32"
    "32 \<le> unat (dynamic_text_end nap)" by (simp_all add: unat_sub_small)
  have "unat (dest + sz) = unat dest + unat sz" using assms(2) by (subst unat_add_small) simp_all
  then have high: "unat dest + unat sz + 32 \<le> unat (dynamic_text_end nap)"
    using assms(7) sub by (simp add: word_less_nat_alt unat_ucast_up)
  have "0 < unat sz" using assms(3) by (simp add: unat_gt_0)
  moreover have "32 dvd unat dest" "32 dvd unat sz" using assms(4,5) by (simp_all only: l(1) and_31)
  ultimately show "code_range nap dest sz" using low high by (simp add: code_range_def)
  have "0 < unat dest \<and> unat dest + unat sz \<le> 2 ^ addr_bits nap" using low high l(5,6) by linarith
  then show "NaClUserToSysAddrRange nap (ucast dest) (ucast sz) = mem_start nap + ucast dest"
    by (simp add: UserToSysAddrRange_iff [OF l(2)] unat_ucast_up)
qed

definition created ::
  "'md NaClValidatorInterface \<Rightarrow> 'a NaClTextApp_scheme \<Rightarrow> u32 \<Rightarrow> u8 list \<Rightarrow> u32 \<Rightarrow> 'a NaClTextApp_scheme \<Rightarrow> bool" where
  "created validator nap dest code sz nap' \<longleftrightarrow> code_range nap dest sz \<and>
     (\<exists>code'. length code' = unat sz \<and> (fixed_feature_cpu_mode nap \<or> skip_validator nap \<longrightarrow> code' = code) \<and>
        (skip_validator nap \<or> ignore_validator_result nap \<or>
           (\<exists>md cache. accepts validator (ucast dest) code' (fixed_feature_cpu_mode nap) md cache)) \<and>
        installed nap dest sz code' nap')"

lemma create_result:
  assumes "text_inv nap" and "maps_ok os" and "keeps_code validator" and "length code = unat sz"
    and "unat dest + unat sz < 2 ^ 32"
  shows "run_ok (NaClTextDyncodeCreate os alloc validator nap dest code sz metadata)
    (\<lambda>(nap', rv). text_inv nap' \<and> (rv = 0 \<and> sz \<noteq> 0 \<longrightarrow> created validator nap dest code sz nap'))"
proof -
  note inv = text_invD [OF assms(1)]
  let ?v = "if \<not> skip_validator nap then NaClValidateCode validator nap (ucast dest) code metadata
    else Inr (LOAD_OK, code)"
  let ?ok = "\<lambda>rc. (if rc \<noteq> LOAD_OK \<and> ignore_validator_result nap then LOAD_OK else rc) = LOAD_OK"
  show ?thesis
  proof (cases "text_shm nap = None \<or> dest AND (bundle_size nap - 1) \<noteq> 0 \<or> sz AND (bundle_size nap - 1) \<noteq> 0 \<or>
      NaClUserToSysAddrRange nap (ucast dest) (ucast sz) = kNaClBadAddress \<or>
      ucast dest < dynamic_text_start nap \<or>
      ucast (dest + sz) > dynamic_text_end nap - NACL_HALT_SLED_SIZE \<or> sz = 0")
    case True
    then show ?thesis using assms(1) unfolding NaClTextDyncodeCreate_def Let_def by auto
  next
    case False
    then have pass: "sz \<noteq> 0" "dest AND (bundle_size nap - 1) = 0" "sz AND (bundle_size nap - 1) = 0"
      "\<not> ucast dest < dynamic_text_start nap"
      "\<not> ucast (dest + sz) > dynamic_text_end nap - NACL_HALT_SLED_SIZE"
      "text_shm nap \<noteq> None" "NaClUserToSysAddrRange nap (ucast dest) (ucast sz) \<noteq> kNaClBadAddress"
      "\<not> (dest AND (bundle_size nap - 1) \<noteq> 0 \<or> sz AND (bundle_size nap - 1) \<noteq> 0)" by simp_all
    note chk = create_checks [OF inv(1) assms(5) pass(1-5)]
    have run: "NaClTextDyncodeCreate os alloc validator nap dest code sz metadata =
        andThen ?v (\<lambda>(rc, code).
        if \<not> ?ok rc then Inr (nap, neg_errno EINVAL)
        else andThen (NaClDynamicRegionCreate alloc nap (mem_start nap + ucast dest) (ucast sz) False) (\<lambda>(nap, created).
          if \<not> created then Inr (nap, neg_errno EINVAL)
          else andThen (NaClTextMapWrapper os nap dest sz) (\<lambda>(nap, mapped).
            case mapped of None \<Rightarrow> Inr (nap, neg_errno ENOMEM)
            | Some a \<Rightarrow> andThen (CopyCodeSafelyInitial a code sz (bundle_size nap)) (\<lambda>ws.
                andThen (NaClTextMapClearCacheIfNeeded os (store_text nap (after_writes ws)) dest sz) (\<lambda>nap.
                Inr (nap, 0))))))"
      unfolding NaClTextDyncodeCreate_def Let_def if_not_P [OF pass(1)] if_not_P [OF pass(4)] if_not_P [OF pass(5)]
        if_not_P [OF pass(6)] if_not_P [OF pass(7) [unfolded chk(2)]] if_not_P [OF pass(8)] chk(2) ..
    show ?thesis
    proof (cases ?v)
      case (Inl e)
      then have "e = LogFatal"
        by (auto simp: NaClValidateCode_def Let_def case_prod_beta split: if_splits)
      with Inl run show ?thesis by simp
    next
      case (Inr x)
      obtain rc code' where x: "x = (rc, code')" by (cases x)
      have val: "length code' = unat sz" "fixed_feature_cpu_mode nap \<or> skip_validator nap \<longrightarrow> code' = code"
        "rc = LOAD_OK \<Longrightarrow> skip_validator nap \<or>
           (\<exists>md cache. accepts validator (ucast dest) code' (fixed_feature_cpu_mode nap) md cache)"
        using Inr x ValidateCode_accepted [OF assms(3), of nap "ucast dest" code metadata rc code'] assms(4)
        by (auto split: if_splits)
      show ?thesis
      proof (cases "?ok rc")
        case False
        have "NaClTextDyncodeCreate os alloc validator nap dest code sz metadata = Inr (nap, neg_errno EINVAL)"
          unfolding run Inr x andThen.simps split_conv if_P [OF False] ..
        with assms(1) show ?thesis by simp
      next
        case True
        then have acc: "skip_validator nap \<or> ignore_validator_result nap \<or>
           (\<exists>md cache. accepts validator (ucast dest) code' (fixed_feature_cpu_mode nap) md cache)"
          using val(3) by (auto split: if_splits)
        have nn: "\<not> \<not> ?ok rc" using True by blast
        show ?thesis
          unfolding run Inr x andThen.simps split_conv if_not_P [OF nn]
        proof (rule run_ok_weaken [OF create_tail [OF assms(1,2) chk(1) val(1)]])
          fix y assume "case y of (nap', rv) \<Rightarrow> text_inv nap' \<and> (rv = (0 :: u32) \<longrightarrow> installed nap dest sz code' nap')"
          then obtain nap' rv where y: "y = (nap', rv)" "text_inv nap'" "rv = 0 \<Longrightarrow> installed nap dest sz code' nap'"
            by (cases y) auto
          have "created validator nap dest code sz nap'" if "rv = 0"
            unfolding created_def
            by (intro conjI chk(1) exI [of _ code'] val(1,2) acc) (rule y(3) [OF that])
          with y(2) show "case y of (nap', rv) \<Rightarrow> text_inv nap' \<and> (rv = 0 \<and> sz \<noteq> 0 \<longrightarrow> created validator nap dest code sz nap')"
            unfolding y(1) by simp
        qed
      qed
    qed
  qed
qed

text \<open>A range that reaches beyond 4 GB fails the address check, so only a range that ends exactly there
  is left out.\<close>

lemma create_result_any:
  assumes "text_inv nap" and "maps_ok os" and "keeps_code validator" and "length code = unat sz"
    and "unat dest + unat sz \<noteq> 2 ^ 32"
  shows "run_ok (NaClTextDyncodeCreate os alloc validator nap dest code sz metadata)
    (\<lambda>(nap', rv). text_inv nap' \<and> (rv = 0 \<and> sz \<noteq> 0 \<longrightarrow> created validator nap dest code sz nap'))"
proof (cases "unat dest + unat sz < 2 ^ 32")
  case True
  from create_result [OF assms(1-4) True] show ?thesis .
next
  case False
  have space: "space_ok nap" using text_invD(1) [OF assms(1)] by (simp add: layout_ok_def)
  have "\<not> unat (ucast dest :: u64) + unat (ucast sz :: u64) \<le> 2 ^ addr_bits nap"
    using False assms(5) unat_addr_limit(2) [OF space] unfolding unat_ucast_up by linarith
  then have "NaClUserToSysAddrRange nap (ucast dest) (ucast sz) = kNaClBadAddress"
    by (simp add: UserToSysAddrRange_iff [OF space])
  moreover have "sz \<noteq> 0" using False unat_lt32 [of dest] by auto
  ultimately have "NaClTextDyncodeCreate os alloc validator nap dest code sz metadata \<in>
      {Inr (nap, neg_errno EINVAL), Inr (nap, neg_errno EFAULT)}"
    by (auto simp: NaClTextDyncodeCreate_def Let_def)
  with assms(1) show ?thesis by auto
qed

subsection \<open>Deleting code\<close>

definition valid_thread :: "'a NaClTextApp_scheme \<Rightarrow> nat \<Rightarrow> bool" where
  "valid_thread nap natp \<longleftrightarrow> natp < length (thread_generations nap) \<and> thread_generations nap ! natp \<noteq> None"

lemma set_generation:
  assumes "generations_ok nap" and "valid_thread nap natp"
  shows "NaClSetThreadGeneration nap natp (dynamic_delete_generation nap) = Inr (nap\<lparr> thread_generations :=
    (thread_generations nap)[natp := Some (dynamic_delete_generation nap)] \<rparr>)"
proof -
  obtain g where g: "thread_generations nap ! natp = Some g" "natp < length (thread_generations nap)"
    using assms(2) by (auto simp: valid_thread_def)
  then have "Some g \<in> set (thread_generations nap)" by (metis nth_mem)
  then have "g \<le> dynamic_delete_generation nap" using assms(1) unfolding generations_ok_def by blast
  moreover have "nap\<lparr> thread_generations := (thread_generations nap)[natp := Some (dynamic_delete_generation nap)] \<rparr> = nap"
    if "g = dynamic_delete_generation nap"
    unfolding that [symmetric] g(1) [symmetric] list_update_id by simp
  ultimately show ?thesis using g by (simp add: NaClSetThreadGeneration_def)
qed

lemma regions_ok_update:
  assumes "regions_ok rs" and "region_start r = region_start (rs ! p)" and "region_size r = region_size (rs ! p)"
    and "p < length rs"
  shows "regions_ok (rs[p := r])"
proof -
  have e: "region_end r = region_end (rs ! p)" using assms(2,3) by (simp add: region_end_def)
  have "region_fits (rs ! p)" using assms(1,4) by (simp add: regions_ok_def)
  then have "region_fits r" using e assms(3) by (simp add: region_fits_def)
  then have "\<forall>x \<in> set (rs[p := r]). region_fits x"
    using assms(1) set_update_subset_insert [of rs p r] by (auto simp: regions_ok_def)
  moreover have "sorted_wrt before (rs[p := r])"
    using assms(1,2,4) e by (auto simp: regions_ok_def sorted_wrt_iff_nth_less before_def nth_list_update)
  ultimately show ?thesis by (simp add: regions_ok_def)
qed

lemma covers_unique:
  assumes "regions_ok rs" and "r \<in> set rs" and "r' \<in> set rs" and "covers_bundle nap r k" and "covers_bundle nap r' k"
  shows "r = r'"
proof -
  obtain i j where ij: "i < length rs" "r = rs ! i" "j < length rs" "r' = rs ! j"
    using assms(2,3) by (auto simp: in_set_conv_nth)
  have "\<not> i < j" "\<not> j < i"
    using regions_ok_nth(1) [OF assms(1), of i j] regions_ok_nth(1) [OF assms(1), of j i] ij assms(4,5)
    by (auto simp: covers_bundle_def)
  then show ?thesis using ij by simp
qed

lemma set_generation_inv:
  assumes "text_inv nap" and "valid_thread nap natp"
  obtains n1 where "NaClSetThreadGeneration nap natp (dynamic_delete_generation nap) = Inr n1"
    and "text_inv n1" and "same_text nap n1" and "dynamic_regions n1 = dynamic_regions nap"
    and "thread_generations n1 = (thread_generations nap)[natp := Some (dynamic_delete_generation nap)]"
    and "dynamic_delete_generation n1 = dynamic_delete_generation nap"
proof -
  note inv = text_invD [OF assms(1)]
  let ?ts = "(thread_generations nap)[natp := Some (dynamic_delete_generation nap)]"
  define n1 where "n1 = nap\<lparr> thread_generations := ?ts \<rparr>"
  have n1: "dynamic_regions n1 = dynamic_regions nap" "thread_generations n1 = ?ts"
    "dynamic_delete_generation n1 = dynamic_delete_generation nap" "same_text nap n1"
    by (simp_all add: n1_def same_text_def)
  have set: "NaClSetThreadGeneration nap natp (dynamic_delete_generation nap) = Inr n1"
    unfolding n1_def by (rule set_generation [OF inv(7) assms(2)])
  have gens1: "generations_ok n1"
    using inv(7) set_update_subset_insert [of "thread_generations nap" natp "Some (dynamic_delete_generation nap)"]
    unfolding generations_ok_def n1 by auto
  have live1: "live_bundle n1 = live_bundle nap"
    unfolding live_bundle_def n1 same_text_simps [OF n1(4)] ..
  have "text_inv n1"
    using inv(5,6) gens1 by (intro text_inv_regions [OF assms(1) n1(4)]) (simp_all add: n1(1) live1)
  then show ?thesis by (rule that [OF set _ n1(4,1,2,3)])
qed

lemma delete_finish:
  assumes "text_inv nap" and "valid_thread nap natp" and "p < length (dynamic_regions nap)"
    and "0 \<le> delete_generation (dynamic_regions nap ! p)"
  shows "run_ok (andThen (NaClSetThreadGeneration nap natp (dynamic_delete_generation nap)) (\<lambda>nap.
      if delete_generation (dynamic_regions nap ! p) \<le> NaClMinimumThreadGeneration nap
      then andThen (NaClDynamicRegionDelete alloc nap p) (\<lambda>nap. Inr (nap, 0))
      else Inr (nap, neg_errno EAGAIN)))
    (\<lambda>(nap', rv). text_inv nap' \<and> same_text nap nap' \<and>
      thread_generations nap' = (thread_generations nap)[natp := Some (dynamic_delete_generation nap)] \<and>
      (if \<forall>h. Some h \<in> set (thread_generations nap') \<longrightarrow> delete_generation (dynamic_regions nap ! p) \<le> h
       then rv = 0 \<and> set (dynamic_regions nap') = set (dynamic_regions nap) - {dynamic_regions nap ! p}
       else rv = neg_errno EAGAIN \<and> dynamic_regions nap' = dynamic_regions nap))"
proof -
  note inv = text_invD [OF assms(1)]
  let ?ts = "(thread_generations nap)[natp := Some (dynamic_delete_generation nap)]"
  let ?r = "dynamic_regions nap ! p"
  obtain n1 where set: "NaClSetThreadGeneration nap natp (dynamic_delete_generation nap) = Inr n1"
    and inv1: "text_inv n1" and same1: "same_text nap n1"
    and n1: "dynamic_regions n1 = dynamic_regions nap" "thread_generations n1 = ?ts"
      "dynamic_delete_generation n1 = dynamic_delete_generation nap"
    by (rule set_generation_inv [OF assms(1,2)])
  note gens1 = text_invD(7) [OF inv1]
  have "?r \<in> set (dynamic_regions nap)" using assms(3) by (rule nth_mem)
  then have "delete_generation ?r \<le> dynamic_delete_generation nap" "dynamic_delete_generation nap \<le> INT32_MAX"
    using inv(7) unfolding generations_ok_def by blast+
  then have min: "delete_generation ?r \<le> NaClMinimumThreadGeneration n1 \<longleftrightarrow>
      (\<forall>h. Some h \<in> set ?ts \<longrightarrow> delete_generation ?r \<le> h)"
    unfolding MinimumThreadGeneration_le n1(2) using order_trans by blast
  show ?thesis
  proof (cases "\<forall>h. Some h \<in> set ?ts \<longrightarrow> delete_generation ?r \<le> h")
    case False
    then have "\<not> delete_generation ?r \<le> NaClMinimumThreadGeneration n1" using min by blast
    with inv1 False show ?thesis
      unfolding set andThen.simps n1(1) by (simp add: n1 same1)
  next
    case True
    then have le: "delete_generation ?r \<le> NaClMinimumThreadGeneration n1" using min by blast
    show ?thesis
    proof (cases "NaClDynamicRegionDelete alloc n1 p")
      case (Inl e)
      then have "e = LogFatal" unfolding NaClDynamicRegionDelete_def Let_def by (auto split: if_splits)
      with Inl le show ?thesis unfolding set andThen.simps n1(1) by simp
    next
      case (Inr n2)
      note d = Delete_result [OF text_invD(5) [OF inv1] assms(3) [folded n1(1)] Inr, unfolded n1(1)]
      have n2: "same_text n1 n2" "thread_generations n2 = ?ts"
        "dynamic_delete_generation n2 = dynamic_delete_generation nap"
        using Inr n1 same1 by (auto simp: NaClDynamicRegionDelete_def Let_def same_text_def split: if_splits)
      have same: "same_text nap n2" using n2(1) same1 by (simp add: same_text_def)
      have "text_inv n2"
      proof (rule text_inv_regions [OF inv1 n2(1) d(1)])
        show "in_area n1 x" if "x \<in> set (dynamic_regions n2)" "\<not> is_mmap x" for x
          using that text_invD(6) [OF inv1, of x] unfolding d(3) n1(1) by blast
        show "generations_ok n2"
          using gens1 unfolding generations_ok_def n1 n2(2,3) d(3) by blast
        show "bundle_halted n1 k" if "live_bundle n1 k" "\<not> live_bundle n2 k" for k
          using that assms(4) unfolding live_bundle_def same_text_simps [OF n2(1)] d(3) n1(1) by force
      qed
      with True same n2(2) d(3) show ?thesis
        unfolding set andThen.simps n1(1) if_P [OF le] Inr by simp
    qed
  qed
qed

lemma region_range:
  assumes "text_inv nap" and "r \<in> set (dynamic_regions nap)" and "\<not> is_mmap r"
    and "region_start r = mem_start nap + ucast dest" and "region_size r = ucast (sz :: u32)"
    and "unat (mem_start nap + ucast dest) = unat (mem_start nap) + unat dest"
  shows "code_range nap dest sz" and "range_region nap dest sz r"
proof -
  note inv = text_invD [OF assms(1)]
  have area: "in_area nap r" using inv(6) assms(2,3) by blast
  have "0 < unat (region_size r)" using inv(5) assms(2) by (simp add: regions_ok_def region_fits_def)
  moreover have "32 dvd unat (mem_start nap)" using inv(1) by (simp add: layout_ok_def)
  moreover have "32 dvd unat (mem_start nap) + unat dest" using area assms(4,6) by (simp add: in_area_def)
  ultimately show "code_range nap dest sz"
    using area assms(4-6) by (auto simp: in_area_def code_range_def bundle_addr_def region_end_def
        unat_ucast_up dvd_add_right_iff)
  show "range_region nap dest sz r" using assms(4-6) by (simp add: range_region_def unat_ucast_up)
qed

lemma halt_code:
  assumes "32 dvd unat a" and "unat a + unat sz < 2 ^ 64" and "32 dvd unat sz" and "unat sz < 2 ^ 31"
  shows "\<exists>ws. ReplaceBundleHeadsWithHalts a sz 32 = Inr ws \<and>
    (\<forall>mem x. \<not> unat (x - a) < unat sz \<longrightarrow> after_writes ws mem x = mem x) \<and>
    (\<forall>mem. \<forall>j < unat sz div 32. \<forall>i < 4. after_writes ws mem (a + of_nat (j * 32 + i)) = NACL_HALT_OPCODE)"
proof -
  have ok: "copy_ok a sz 32 5" using assms by (simp add: copy_ok_def)
  obtain ws where "ReplaceBundleHeadsWithHalts a sz 32 = Inr ws"
    "\<forall>mem j. j < unat sz div 2 ^ 5 \<longrightarrow> halted a (2 ^ 5) (after_writes ws mem) j"
    "\<forall>mem x. unat (x - a) < unat sz \<and> unat (x - a) mod 2 ^ 5 < 4 \<or> after_writes ws mem x = mem x"
    by (rule ReplaceHeads_result [OF ok assms(2)])
  then show ?thesis by (intro exI [of _ ws]) (auto simp: halted_def)
qed

lemma range_bundle:
  assumes "t \<le> 32 * k" and "32 * k < t + n" and "32 dvd t" and "32 dvd (n :: nat)"
  obtains j where "j < n div 32" and "\<And>i. 32 * k + i = t + (j * 32 + i)"
proof -
  obtain c d where "t = 32 * c" "n = 32 * d" using assms(3,4) by (auto elim!: dvdE)
  with assms(1,2) that [of "k - c"] show ?thesis by auto
qed

text \<open>Marking a region whose bundles are halted as deleted.\<close>

lemma mark_deleted:
  fixes g :: int and nap p
  defines "nap' \<equiv> nap\<lparr> dynamic_delete_generation := g, dynamic_regions := (dynamic_regions nap)
    [p := (dynamic_regions nap ! p)\<lparr> delete_generation := g \<rparr>] \<rparr>"
  assumes "text_inv nap" and "p < length (dynamic_regions nap)" and "g = dynamic_delete_generation nap + 1"
    and "g \<le> INT32_MAX"
    and "\<And>k. covers_bundle nap (dynamic_regions nap ! p) k \<Longrightarrow> bundle_visible nap k \<Longrightarrow> bundle_halted nap k"
  shows "text_inv nap'" and "same_text nap nap'"
proof -
  note inv = text_invD [OF assms(2)]
  let ?rs = "dynamic_regions nap" and ?r = "(dynamic_regions nap ! p)\<lparr> delete_generation := g \<rparr>"
  show same: "same_text nap nap'" by (simp add: nap'_def same_text_def)
  have rs: "dynamic_regions nap' = ?rs[p := ?r]" by (simp add: nap'_def)
  have old: "?rs ! p \<in> set ?rs" using assms(3) by (rule nth_mem)
  have sub: "x \<in> set (?rs[p := ?r]) \<Longrightarrow> x = ?r \<or> x \<in> set ?rs" for x
    using set_update_subset_insert [of ?rs p ?r] by auto
  show "text_inv nap'"
  proof (rule text_inv_regions [OF assms(2) same])
    show "regions_ok (dynamic_regions nap')"
      unfolding rs by (rule regions_ok_update [OF inv(5) _ _ assms(3)]) simp_all
    show "in_area nap x" if "x \<in> set (dynamic_regions nap')" "\<not> is_mmap x" for x
    proof (cases "x = ?r")
      case True
      then have "in_area nap (?rs ! p)" using inv(6) [OF old] that(2) by simp
      then show ?thesis unfolding True by (simp add: in_area_def region_end_def)
    qed (use that sub [of x] inv(6) rs in auto)
    have parts: "0 \<le> dynamic_delete_generation nap"
      "\<forall>h. Some h \<in> set (thread_generations nap) \<longrightarrow> h \<le> dynamic_delete_generation nap"
      "\<forall>x \<in> set ?rs. delete_generation x \<le> dynamic_delete_generation nap"
      using inv(7) unfolding generations_ok_def by blast+
    have fields: "dynamic_delete_generation nap' = g" "thread_generations nap' = thread_generations nap"
      by (simp_all add: nap'_def)
    have "delete_generation x \<le> g" if "x \<in> set (?rs[p := ?r])" for x
      using sub [OF that] parts(3) assms(4) by force
    then show "generations_ok nap'"
      unfolding generations_ok_def fields rs using parts(1,2) assms(4,5) by force
    show "bundle_halted nap k" if k: "bundle_visible nap k" "live_bundle nap k" "\<not> live_bundle nap' k" for k
    proof -
      obtain x where x: "x \<in> set ?rs" "\<not> is_mmap x" "delete_generation x < 0" "covers_bundle nap x k"
        using k(2) unfolding live_bundle_def by blast
      then obtain q where q: "q < length ?rs" "x = ?rs ! q" by (auto simp: in_set_conv_nth)
      have "q = p"
      proof (rule ccontr)
        assume "q \<noteq> p"
        then have "x \<in> set (dynamic_regions nap')" unfolding rs using q
          by (metis length_list_update nth_list_update_neq nth_mem)
        with x(2-4) k(3) show False unfolding live_bundle_def same_text_simps [OF same] by blast
      qed
      then show ?thesis using assms(6) [OF _ k(1)] x(4) q(2) by simp
    qed
  qed
qed

lemma delete_start:
  assumes "text_inv nap" and "maps_ok os" and "p < length (dynamic_regions nap)"
    and "code_range nap dest sz" and "range_region nap dest sz (dynamic_regions nap ! p)"
    and "\<not> is_mmap (dynamic_regions nap ! p)" and "delete_generation (dynamic_regions nap ! p) < 0"
  shows "run_ok (dyncode_delete_start os nap dest sz p) (\<lambda>(nap', err). text_inv nap' \<and>
    mem_start nap' = mem_start nap \<and> dynamic_text_start nap' = dynamic_text_start nap \<and>
    thread_generations nap' = thread_generations nap \<and>
    (case err of
       None \<Rightarrow> dynamic_delete_generation nap' = dynamic_delete_generation nap + 1 \<and>
         dynamic_regions nap' = (dynamic_regions nap)[p := (dynamic_regions nap ! p)
           \<lparr> delete_generation := dynamic_delete_generation nap + 1 \<rparr>]
     | Some e \<Rightarrow> (e = neg_errno EFAULT \<or> e = neg_errno ENOMEM) \<and> dynamic_regions nap' = dynamic_regions nap \<and>
         dynamic_delete_generation nap' = dynamic_delete_generation nap))"
    (is "run_ok _ ?Q")
proof (cases "dynamic_delete_generation nap = INT32_MAX")
  case True
  then show ?thesis using assms(1) by (simp add: dyncode_delete_start_def)
next
  case False
  note inv = text_invD [OF assms(1)] and f = code_range_facts [OF text_invD(1,2) [OF assms(1)] assms(4)]
  let ?P = "\<lambda>f. \<forall>j < unat sz div 32. \<forall>i < 4. f (j * 32 + i) = NACL_HALT_OPCODE"
  let ?done = "\<lambda>nap. nap\<lparr> dynamic_delete_generation := dynamic_delete_generation nap + 1,
    dynamic_regions := (dynamic_regions nap)
      [p := (dynamic_regions nap ! p)\<lparr> delete_generation := dynamic_delete_generation nap + 1 \<rparr>] \<rparr>"
  have sz: "32 dvd unat sz" using assms(4) by (simp add: code_range_def)
  have old: "dynamic_regions nap ! p \<in> set (dynamic_regions nap)" using assms(3) by (rule nth_mem)
  have copier: "\<exists>ws. ReplaceBundleHeadsWithHalts a sz (bundle_size nap2) = Inr ws \<and>
      (\<forall>mem x. \<not> unat (x - a) < unat sz \<longrightarrow> after_writes ws mem x = mem x) \<and>
      (\<forall>mem. ?P (\<lambda>k. after_writes ws mem (a + of_nat k)))"
    if "kept nap nap2" "32 dvd unat a" "unat a + unat sz < 2 ^ 64" for nap2 a
  proof -
    have "bundle_size nap2 = 32" using that(1) inv(1) by (simp add: kept_def layout_ok_def)
    moreover have "unat sz < 2 ^ 31" using f(3) by linarith
    ultimately show ?thesis using halt_code [OF that(2,3) sz] by simp
  qed
  have "run_ok (andThen (NaClTextMapWrapper os nap dest sz) (\<lambda>(nap, mapped).
        case mapped of None \<Rightarrow> Inr (nap, Some (neg_errno ENOMEM))
        | Some a \<Rightarrow> andThen (ReplaceBundleHeadsWithHalts a sz (bundle_size nap)) (\<lambda>ws.
            andThen (NaClTextMapClearCacheIfNeeded os (store_text nap (after_writes ws)) dest sz) (\<lambda>nap.
            Inr (?done nap, None))))) ?Q"
  proof (rule rewrite_range [OF assms(1,2,4) old assms(5-7), where P = ?P
        and copier = "\<lambda>nap a. ReplaceBundleHeadsWithHalts a sz (bundle_size nap)"
        and fail = "\<lambda>nap. (nap, Some (neg_errno ENOMEM))" and finish = "\<lambda>nap. (?done nap, None)", OF copier])
    fix nap' assume "text_inv nap'" "pages_step nap nap'"
    then show "?Q (nap', Some (neg_errno ENOMEM))"
      using pages_stepD(1) [of nap nap'] by (simp add: kept_def)
  next
    fix nap' assume "rewritten nap dest sz ?P nap'"
    note w = this [unfolded rewritten_def]
    have k: "kept nap nap'" using w by blast
    then have keep: "dynamic_regions nap' = dynamic_regions nap" "mem_start nap' = mem_start nap"
      "thread_generations nap' = thread_generations nap"
      "dynamic_delete_generation nap' = dynamic_delete_generation nap" by (simp_all add: kept_def)
    have "0 \<le> dynamic_delete_generation nap" "dynamic_delete_generation nap \<le> INT32_MAX"
      using inv(7) unfolding generations_ok_def by blast+
    then have room: "dynamic_delete_generation nap' + 1 \<le> INT32_MAX" using False keep(4) by simp
    have halted: "bundle_halted nap' k"
      if "covers_bundle nap' (dynamic_regions nap' ! p) k" for k
    proof -
      have "text_offset nap dest \<le> 32 * k" "32 * k < text_offset nap dest + unat sz"
        using range_region_covers [OF assms(4,5)] that k unfolding keep(1)
        by (simp_all add: covers_bundle_def bundle_addr_def kept_def)
      then obtain j where j: "j < unat sz div 32" "\<And>i. 32 * k + i = text_offset nap dest + (j * 32 + i)"
        using range_bundle [OF _ _ f(4) sz] by blast
      have "?P (\<lambda>k. text_mem nap' (of_nat (text_offset nap dest + k)))" using w by blast
      then show ?thesis using j(1) unfolding bundle_halted_def j(2) by blast
    qed
    have p': "p < length (dynamic_regions nap')" using assms(3) keep(1) by simp
    have inv': "text_inv nap'" using w by blast
    have "text_inv (?done nap')" by (rule mark_deleted(1) [OF inv' p' refl room halted])
    moreover have "dynamic_text_start nap' = dynamic_text_start nap" using k by (simp add: kept_def)
    ultimately show "?Q (?done nap', None)" by (simp add: keep)
  qed
  then show ?thesis unfolding dyncode_delete_start_def Let_def using False by simp
qed

text \<open>The generation that every thread has to reach before the region can be reused.\<close>

definition generation_due :: "'a NaClTextApp_scheme \<Rightarrow> NaClDynamicRegion \<Rightarrow> int" where
  "generation_due nap r =
     (if delete_generation r < 0 then dynamic_delete_generation nap + 1 else delete_generation r)"

definition deleted :: "'a NaClTextApp_scheme \<Rightarrow> u32 \<Rightarrow> u32 \<Rightarrow> 'a NaClTextApp_scheme \<Rightarrow> bool" where
  "deleted nap dest sz nap' \<longleftrightarrow>
     (\<exists>r \<in> set (dynamic_regions nap). range_region nap dest sz r \<and> \<not> is_mmap r \<and>
        set (dynamic_regions nap') = set (dynamic_regions nap) - {r} \<and>
        (\<forall>g. Some g \<in> set (thread_generations nap') \<longrightarrow> generation_due nap r \<le> g) \<and>
        (\<forall>k. covers_bundle nap r k \<and> bundle_visible nap' k \<longrightarrow> bundle_halted nap' k))"

definition deletion_pending :: "'a NaClTextApp_scheme \<Rightarrow> u32 \<Rightarrow> u32 \<Rightarrow> bool" where
  "deletion_pending nap dest sz \<longleftrightarrow>
     (\<exists>r \<in> set (dynamic_regions nap). range_region nap dest sz r \<and> 0 \<le> delete_generation r \<and>
        (\<exists>g. Some g \<in> set (thread_generations nap) \<and> g < delete_generation r))"

lemma regions_ok_distinct: "regions_ok rs \<Longrightarrow> distinct rs"
  unfolding distinct_conv_nth
proof (intro allI impI)
  fix i j assume "regions_ok rs" "i < length rs" "j < length rs" "i \<noteq> j"
  then show "rs ! i \<noteq> rs ! j"
    using region_starts_mono [of rs i j] region_starts_mono [of rs j i] by (cases "i < j") auto
qed

lemma set_replace_remove:
  assumes "distinct rs" and "distinct (rs[p := x])" and "p < length rs"
  shows "set (rs[p := x]) - {x} = set rs - {rs ! p}"
proof -
  have "x \<notin> set rs - {rs ! p}"
  proof
    assume "x \<in> set rs - {rs ! p}"
    then obtain q where q: "q < length rs" "rs ! q = x" "q \<noteq> p" by (auto simp: in_set_conv_nth)
    then have "rs[p := x] ! q = rs[p := x] ! p" using assms(3) by simp
    with q(1,3) assms(2,3) show False using nth_eq_iff_index_eq [OF assms(2), of q p] by simp
  qed
  with set_update_distinct [OF assms(1,3), of x] show ?thesis by auto
qed

lemma delete_request:
  assumes "text_inv nap" and "maps_ok os" and "p < length (dynamic_regions nap)"
    and "code_range nap dest sz" and "range_region nap dest sz (dynamic_regions nap ! p)"
    and "\<not> is_mmap (dynamic_regions nap ! p)"
  shows "run_ok (if delete_generation (dynamic_regions nap ! p) < 0 then dyncode_delete_start os nap dest sz p
      else Inr (nap, None)) (\<lambda>(nap', err). text_inv nap' \<and>
    mem_start nap' = mem_start nap \<and> dynamic_text_start nap' = dynamic_text_start nap \<and>
    thread_generations nap' = thread_generations nap \<and>
    (case err of
       None \<Rightarrow> dynamic_regions nap' = (dynamic_regions nap)[p := (dynamic_regions nap ! p)
           \<lparr> delete_generation := generation_due nap (dynamic_regions nap ! p) \<rparr>]
     | Some e \<Rightarrow> (e = neg_errno EFAULT \<or> e = neg_errno ENOMEM) \<and> dynamic_regions nap' = dynamic_regions nap))"
proof (cases "delete_generation (dynamic_regions nap ! p) < 0")
  case True
  show ?thesis
    unfolding if_P [OF True]
    by (rule run_ok_weaken [OF delete_start [OF assms True]])
      (auto simp: generation_due_def True split: option.splits)
next
  case False
  have "(dynamic_regions nap ! p)\<lparr> delete_generation := delete_generation (dynamic_regions nap ! p) \<rparr> =
      dynamic_regions nap ! p" by simp
  then show ?thesis using False assms(1) by (simp add: generation_due_def)
qed

lemma delete_region_result:
  fixes nap :: "'a NaClTextApp_scheme"
  assumes "text_inv nap" and "maps_ok os" and "valid_thread nap natp" and "p < length (dynamic_regions nap)"
    and "code_range nap dest sz" and "range_region nap dest sz (dynamic_regions nap ! p)"
    and "\<not> is_mmap (dynamic_regions nap ! p)"
  shows "run_ok (andThen (if delete_generation (dynamic_regions nap ! p) < 0 then dyncode_delete_start os nap dest sz p
        else Inr (nap, None)) (\<lambda>(nap, err).
      case err of
        Some e \<Rightarrow> Inr (nap, e)
      | None \<Rightarrow>
          andThen (NaClSetThreadGeneration nap natp (dynamic_delete_generation nap)) (\<lambda>nap.
          if delete_generation (dynamic_regions nap ! p) \<le> NaClMinimumThreadGeneration nap
          then andThen (NaClDynamicRegionDelete alloc nap p) (\<lambda>nap. Inr (nap, 0))
          else Inr (nap, neg_errno EAGAIN))))
    (\<lambda>(nap', rv). text_inv nap' \<and> (rv = 0 \<longrightarrow> deleted nap dest sz nap') \<and>
       (rv = neg_errno EAGAIN \<longrightarrow> deletion_pending nap' dest sz))"
proof (rule run_ok_bind [OF delete_request [OF assms(1,2,4-7)]])
  let ?rs = "dynamic_regions nap" and ?r = "dynamic_regions nap ! p"
  let ?x = "?r\<lparr> delete_generation := generation_due nap ?r \<rparr>"
  fix y :: "'a NaClTextApp_scheme \<times> u32 option"
  assume "case y of (nap', err) \<Rightarrow> text_inv nap' \<and>
    mem_start nap' = mem_start nap \<and> dynamic_text_start nap' = dynamic_text_start nap \<and>
    thread_generations nap' = thread_generations nap \<and>
    (case err of
       None \<Rightarrow> dynamic_regions nap' = ?rs[p := ?x]
     | Some e \<Rightarrow> (e = neg_errno EFAULT \<or> e = neg_errno ENOMEM) \<and> dynamic_regions nap' = ?rs)"
  then obtain n1 err where y: "y = (n1, err)" "text_inv n1" "mem_start n1 = mem_start nap"
    "dynamic_text_start n1 = dynamic_text_start nap" "thread_generations n1 = thread_generations nap"
    "err = None \<Longrightarrow> dynamic_regions n1 = ?rs[p := ?x]"
    "\<And>e. err = Some e \<Longrightarrow> e = neg_errno EFAULT \<or> e = neg_errno ENOMEM"
    by (cases y) (auto split: option.splits)
  show "run_ok (case y of (nap, err) \<Rightarrow>
      (case err of
        Some e \<Rightarrow> Inr (nap, e)
      | None \<Rightarrow>
          andThen (NaClSetThreadGeneration nap natp (dynamic_delete_generation nap)) (\<lambda>nap.
          if delete_generation (dynamic_regions nap ! p) \<le> NaClMinimumThreadGeneration nap
          then andThen (NaClDynamicRegionDelete alloc nap p) (\<lambda>nap. Inr (nap, 0))
          else Inr (nap, neg_errno EAGAIN))))
    (\<lambda>(nap', rv). text_inv nap' \<and> (rv = 0 \<longrightarrow> deleted nap dest sz nap') \<and>
       (rv = neg_errno EAGAIN \<longrightarrow> deletion_pending nap' dest sz))"
  proof (cases err)
    case (Some e)
    then show ?thesis using y(2) y(7) [OF Some] by (auto simp: y(1) neg_errno_def)
  next
    case None
    note rs1 = y(6) [OF None]
    have old: "?r \<in> set ?rs" using assms(4) by (rule nth_mem)
    have p1: "p < length (dynamic_regions n1)" "dynamic_regions n1 ! p = ?x" using assms(4) by (simp_all add: rs1)
    have due: "0 \<le> generation_due nap ?r"
      using text_invD(7) [OF assms(1)] by (auto simp: generation_due_def generations_ok_def)
    have vt: "valid_thread n1 natp" using assms(3) by (simp add: valid_thread_def y(5))
    have due1: "0 \<le> delete_generation (dynamic_regions n1 ! p)" using due by (simp add: p1)
    have removed: "set (dynamic_regions n1) - {?x} = set ?rs - {?r}"
      unfolding rs1
      by (rule set_replace_remove [OF _ _ assms(4)])
        (use regions_ok_distinct text_invD(5) [OF assms(1)] text_invD(5) [OF y(2)] rs1 in auto)
    have rx: "range_region nap dest sz ?x" using assms(6) by (simp add: range_region_def)
    show ?thesis
      unfolding y(1) None split_conv option.case
    proof (rule run_ok_weaken [OF delete_finish [OF y(2) vt p1(1) due1]])
      fix z
      assume z: "case z of (nap', rv) \<Rightarrow> text_inv nap' \<and> same_text n1 nap' \<and>
        thread_generations nap' = (thread_generations n1)[natp := Some (dynamic_delete_generation n1)] \<and>
        (if \<forall>h. Some h \<in> set (thread_generations nap') \<longrightarrow> delete_generation (dynamic_regions n1 ! p) \<le> h
         then rv = 0 \<and> set (dynamic_regions nap') = set (dynamic_regions n1) - {dynamic_regions n1 ! p}
         else rv = neg_errno EAGAIN \<and> dynamic_regions nap' = dynamic_regions n1)"
      obtain n2 rv where zz: "z = (n2, rv)" by (cases z)
      note z = z [unfolded zz split_conv p1(2)]
      have inv2: "text_inv n2" and same: "same_text n1 n2" using z by blast+
      have "deleted nap dest sz n2" if rv: "rv = 0"
      proof -
        have acks: "\<forall>h. Some h \<in> set (thread_generations n2) \<longrightarrow> generation_due nap ?r \<le> h"
          and rs2: "set (dynamic_regions n2) = set ?rs - {?r}"
          using z rv removed by (auto split: if_splits)
        have "bundle_halted n2 k" if k: "covers_bundle nap ?r k" "bundle_visible n2 k" for k
        proof -
          have cov: "covers_bundle n2 = covers_bundle nap"
            unfolding same_text_simps [OF same] using y(3,4)
            by (simp add: covers_bundle_def bundle_addr_def fun_eq_iff)
          have "\<not> live_bundle n2 k"
            using covers_unique [OF text_invD(5) [OF assms(1)] _ old _ k(1)]
            unfolding live_bundle_def cov rs2 by blast
          with k(2) text_invD(8) [OF inv2] show ?thesis unfolding idle_halted_def by blast
        qed
        then show ?thesis
          unfolding deleted_def using old assms(6,7) acks rs2 by blast
      qed
      moreover have "deletion_pending n2 dest sz" if rv: "rv = neg_errno EAGAIN"
      proof -
        have "\<not> (\<forall>h. Some h \<in> set (thread_generations n2) \<longrightarrow> delete_generation ?x \<le> h)"
          and rs2: "dynamic_regions n2 = dynamic_regions n1"
          using z rv by (auto split: if_splits)
        then obtain h where "Some h \<in> set (thread_generations n2)" "h < delete_generation ?x" by (auto simp: not_le)
        moreover have "?x \<in> set (dynamic_regions n2)" unfolding rs2 using p1 by (metis nth_mem)
        moreover have "range_region n2 dest sz ?x"
          using rx y(3) by (simp add: same_text_simps [OF same] range_region_def)
        ultimately show ?thesis unfolding deletion_pending_def using due by force
      qed
      ultimately show "case z of (nap', rv) \<Rightarrow> text_inv nap' \<and> (rv = 0 \<longrightarrow> deleted nap dest sz nap') \<and>
         (rv = neg_errno EAGAIN \<longrightarrow> deletion_pending nap' dest sz)"
        using inv2 by (simp add: zz)
    qed
  qed
qed

lemma delete_result:
  fixes nap :: "'a NaClTextApp_scheme"
  assumes "text_inv nap" and "maps_ok os" and "valid_thread nap natp"
  shows "run_ok (NaClSysDyncodeDelete os alloc nap natp dest sz) (\<lambda>(nap', rv). text_inv nap' \<and>
    (rv = 0 \<and> sz \<noteq> 0 \<longrightarrow> deleted nap dest sz nap') \<and> (rv = neg_errno EAGAIN \<longrightarrow> deletion_pending nap' dest sz))"
    (is "run_ok _ ?Q")
proof -
  note inv = text_invD [OF assms(1)]
  let ?a = "NaClUserToSysAddrRange nap (ucast dest) (ucast sz)"
  have errors: "?Q (nap, neg_errno ENOSYS)" "?Q (nap, neg_errno EFAULT)" "?Q (nap, neg_errno EINVAL)"
    using assms(1) by (simp_all add: neg_errno_def)
  consider "\<not> enable_dyncode_syscalls nap" | "text_shm nap = None"
    | "enable_dyncode_syscalls nap" "text_shm nap \<noteq> None" "sz = 0"
    | "enable_dyncode_syscalls nap" "text_shm nap \<noteq> None" "sz \<noteq> 0" "?a = kNaClBadAddress"
    | "enable_dyncode_syscalls nap" "text_shm nap \<noteq> None" "sz \<noteq> 0" "?a \<noteq> kNaClBadAddress"
    by blast
  then show ?thesis
  proof cases
    case 3
    obtain n1 where "NaClSetThreadGeneration nap natp (dynamic_delete_generation nap) = Inr n1" "text_inv n1"
      by (rule set_generation_inv [OF assms(1,3)])
    with 3 assms(1) show ?thesis by (simp add: NaClSysDyncodeDelete_def Let_def neg_errno_def)
  next
    case 5
    have sp: "space_ok nap" using inv(1) by (simp add: layout_ok_def)
    have fits: "unat dest + unat sz \<le> 2 ^ addr_bits nap" and a: "?a = mem_start nap + ucast dest"
      using 5(4) UserToSysAddrRange_iff [OF sp, of "ucast dest" "ucast sz"]
      by (simp_all add: unat_ucast_up split: if_splits)
    note ra = range_addr [OF sp fits]
    have n: "0 < unat (ucast sz :: u64)" using 5(3) by (simp add: unat_ucast_up unat_gt_0)
    have "unat ?a + unat (ucast sz :: u64) < 2 ^ 64" using ra by (simp add: a unat_ucast_up)
    note find = Find_result [OF inv(5) n this]
    have "\<not> \<not> enable_dyncode_syscalls nap" using 5(1) by blast
    note run = NaClSysDyncodeDelete_def [of os alloc nap natp dest sz, unfolded Let_def
        if_not_P [OF this] if_not_P [OF 5(2)] if_not_P [OF 5(3)] if_not_P [OF 5(4)]]
    show ?thesis
    proof (cases "NaClDynamicRegionFind nap ?a (ucast sz)")
      case None
      show ?thesis unfolding run None option.case run_ok_simps by (rule errors(2))
    next
      case (Some p)
      let ?r = "dynamic_regions nap ! p"
      have p: "p < length (dynamic_regions nap)" using find Some by simp
      show ?thesis
      proof (cases "region_start ?r \<noteq> ?a \<or> region_size ?r \<noteq> ucast sz \<or> is_mmap ?r")
        case True
        show ?thesis unfolding run Some option.case if_P [OF True] run_ok_simps by (rule errors(2))
      next
        case False
        then have eqs: "region_start ?r = mem_start nap + ucast dest" "region_size ?r = ucast sz" "\<not> is_mmap ?r"
          by (simp_all add: a)
        have "?r \<in> set (dynamic_regions nap)" using p by (rule nth_mem)
        note rr = region_range [OF assms(1) this eqs(3,1,2) ra(1)]
        have "run_ok (NaClSysDyncodeDelete os alloc nap natp dest sz)
          (\<lambda>(nap', rv). text_inv nap' \<and> (rv = 0 \<longrightarrow> deleted nap dest sz nap') \<and>
             (rv = neg_errno EAGAIN \<longrightarrow> deletion_pending nap' dest sz))"
          unfolding run Some option.case if_not_P [OF False]
          by (rule delete_region_result [OF assms(1-3) p rr eqs(3)])
        then show ?thesis by (rule run_ok_weaken) auto
      qed
    qed
  qed (use errors in \<open>simp_all add: NaClSysDyncodeDelete_def Let_def\<close>)
qed

subsection \<open>When the host refuses the mapping\<close>

definition maps_refused :: "os \<Rightarrow> bool" where
  "maps_refused os \<longleftrightarrow> (\<forall>lg d n pr fl off. NaClPtrIsNegErrno (os lg (HostMapTrusted d n pr fl off)))"

lemma MapWrapper_refused:
  assumes "maps_refused os" and "text_shm nap \<noteq> None" and "dynamic_mapcache_size nap = 0"
    and "fst (snd (shm_map_range nap dest sz)) \<noteq> 0"
  shows "\<exists>lg. NaClTextMapWrapper os nap dest sz = Inr (nap\<lparr> host_log := lg \<rparr>, None)"
proof -
  obtain mo ms wo where r: "shm_map_range nap dest sz = (mo, ms, wo)" by (cases "shm_map_range nap dest sz")
  with assms(4) have ms: "ms \<noteq> 0" by simp
  with assms(1-3) r show ?thesis
    by (auto simp: NaClTextMapWrapper_def CachedMapWritableText_def clear_mapcache_def host_def maps_refused_def
        Let_def word_neq_0_conv)
qed

text \<open>A creation that passes its checks and the validator, in the code's own terms.\<close>

definition create_admitted ::
  "'md NaClValidatorInterface \<Rightarrow> 'a NaClTextApp_scheme \<Rightarrow> u32 \<Rightarrow> u8 list \<Rightarrow> u32 \<Rightarrow> 'md option \<Rightarrow> bool" where
  "create_admitted validator nap dest code sz metadata \<longleftrightarrow>
     text_shm nap \<noteq> None \<and> dest AND (bundle_size nap - 1) = 0 \<and> sz AND (bundle_size nap - 1) = 0 \<and>
     NaClUserToSysAddrRange nap (ucast dest) (ucast sz) \<noteq> kNaClBadAddress \<and>
     \<not> ucast dest < dynamic_text_start nap \<and>
     \<not> ucast (dest + sz) > dynamic_text_end nap - NACL_HALT_SLED_SIZE \<and> sz \<noteq> 0 \<and> \<not> skip_validator nap \<and>
     (\<exists>code'. NaClValidateCode validator nap (ucast dest) code metadata = Inr (LOAD_OK, code'))"

text \<open>A free range is entered into the table.\<close>

lemma create_enters:
  assumes "regions_ok (dynamic_regions nap)" and "0 < unat n" and "unat start + unat n < 2 ^ 64"
    and "\<forall>r \<in> set (dynamic_regions nap). \<not> meets r (unat start) (unat start + unat n)"
  obtains sp rs where "NaClDynamicRegionCreate (\<lambda>_. True) nap start n False =
      Inr (nap\<lparr> dynamic_regions_allocated := sp, dynamic_regions := rs \<rparr>, True)"
    and "regions_ok rs" and "set rs = insert (new_region start n False) (set (dynamic_regions nap))"
proof -
  obtain nap1 ok where run: "NaClDynamicRegionCreate (\<lambda>_. True) nap start n False = Inr (nap1, ok)"
    using Create_returns [of "\<lambda>_. True"] by blast
  note c = Create_result [OF assms(1-3) run]
  have ok using c assms(4) by blast
  with c obtain sp rs where "nap1 = nap\<lparr> dynamic_regions_allocated := sp, dynamic_regions := rs \<rparr>" by auto
  with run c \<open>ok\<close> that [of rs sp] show ?thesis by simp
qed

lemma create_run:
  assumes "create_admitted validator nap dest code sz metadata"
  obtains code' where "NaClTextDyncodeCreate os alloc validator nap dest code sz metadata =
    andThen (NaClDynamicRegionCreate alloc nap (NaClUserToSysAddrRange nap (ucast dest) (ucast sz)) (ucast sz) False) (\<lambda>(nap, created).
      if \<not> created then Inr (nap, neg_errno EINVAL)
      else andThen (NaClTextMapWrapper os nap dest sz) (\<lambda>(nap, mapped).
        case mapped of None \<Rightarrow> Inr (nap, neg_errno ENOMEM)
        | Some a \<Rightarrow> andThen (CopyCodeSafelyInitial a code' sz (bundle_size nap)) (\<lambda>ws.
            andThen (NaClTextMapClearCacheIfNeeded os (store_text nap (after_writes ws)) dest sz) (\<lambda>nap.
            Inr (nap, 0)))))"
    and "NaClValidateCode validator nap (ucast dest) code metadata = Inr (LOAD_OK, code')"
proof -
  have c: "sz \<noteq> 0" "\<not> ucast dest < dynamic_text_start nap"
    "\<not> ucast (dest + sz) > dynamic_text_end nap - NACL_HALT_SLED_SIZE"
    "text_shm nap \<noteq> None" "NaClUserToSysAddrRange nap (ucast dest) (ucast sz) \<noteq> kNaClBadAddress"
    "\<not> (dest AND (bundle_size nap - 1) \<noteq> 0 \<or> sz AND (bundle_size nap - 1) \<noteq> 0)" "\<not> skip_validator nap"
    using assms by (simp_all add: create_admitted_def)
  obtain code' where val: "NaClValidateCode validator nap (ucast dest) code metadata = Inr (LOAD_OK, code')"
    using assms by (auto simp: create_admitted_def)
  note run = NaClTextDyncodeCreate_def [of os alloc validator nap dest code sz metadata, unfolded Let_def
      if_not_P [OF c(1)] if_not_P [OF c(2)] if_not_P [OF c(3)] if_not_P [OF c(4)] if_not_P [OF c(5)]
      if_not_P [OF c(6)] if_P [OF c(7)] val andThen.simps split_conv]
  show ?thesis by (rule that [OF _ val]) (simp add: run)
qed

lemma create_refused:
  fixes start sz
  assumes "create_admitted validator nap dest code sz metadata" and "maps_refused os"
    and "dynamic_mapcache_size nap = 0" and "fst (snd (shm_map_range nap dest sz)) \<noteq> 0"
    and "NaClDynamicRegionCreate alloc nap (NaClUserToSysAddrRange nap (ucast dest) (ucast sz)) (ucast sz) False =
      Inr (nap\<lparr> dynamic_regions_allocated := sp, dynamic_regions := rs \<rparr>, True)"
  shows "\<exists>lg. NaClTextDyncodeCreate os alloc validator nap dest code sz metadata =
    Inr (nap\<lparr> dynamic_regions_allocated := sp, dynamic_regions := rs, host_log := lg \<rparr>, neg_errno ENOMEM)"
proof -
  let ?nap1 = "nap\<lparr> dynamic_regions_allocated := sp, dynamic_regions := rs \<rparr>"
  have "shm_map_range ?nap1 dest sz = shm_map_range nap dest sz" by (simp add: shm_map_range_def)
  then obtain lg where map: "NaClTextMapWrapper os ?nap1 dest sz = Inr (?nap1\<lparr> host_log := lg \<rparr>, None)"
    using MapWrapper_refused [OF assms(2), of ?nap1 dest sz] assms(1,3,4) by (auto simp: create_admitted_def)
  show ?thesis by (rule create_run [OF assms(1), of os alloc]) (rule exI [of _ lg], simp add: assms(5) map)
qed

lemma admitted_later:
  defines "later nap sp rs lg \<equiv> nap\<lparr> dynamic_regions_allocated := sp, dynamic_regions := rs, host_log := lg \<rparr>"
  shows "NaClUserToSysAddrRange (later nap sp rs lg) = NaClUserToSysAddrRange nap"
    and "NaClValidateCode validator (later nap sp rs lg) = NaClValidateCode validator nap"
    and "create_admitted validator (later nap sp rs lg) dest code sz metadata =
      create_admitted validator nap dest code sz metadata"
proof -
  show r: "NaClUserToSysAddrRange (later nap sp rs lg) = NaClUserToSysAddrRange nap"
    unfolding later_def by (intro ext) (simp add: NaClUserToSysAddrRange_def addr_limit_def Let_def)
  show v: "NaClValidateCode validator (later nap sp rs lg) = NaClValidateCode validator nap"
  proof (intro ext)
    have flags: "validator_stub_out_mode (later nap sp rs lg) = validator_stub_out_mode nap"
      "fixed_feature_cpu_mode (later nap sp rs lg) = fixed_feature_cpu_mode nap"
      "validation_cache (later nap sp rs lg) = validation_cache nap" by (simp_all add: later_def)
    fix addr data md
    show "NaClValidateCode validator (later nap sp rs lg) addr data md = NaClValidateCode validator nap addr data md"
      unfolding NaClValidateCode_def flags ..
  qed
  show "create_admitted validator (later nap sp rs lg) dest code sz metadata =
      create_admitted validator nap dest code sz metadata"
    unfolding create_admitted_def r v by (simp add: later_def)
qed

lemma create_occupied:
  assumes "create_admitted validator nap dest code sz metadata"
    and "regions_ok (dynamic_regions nap)" and "NaClUserToSysAddrRange nap (ucast dest) (ucast sz) = start"
    and "unat start + unat sz < 2 ^ 64" and "r \<in> set (dynamic_regions nap)"
    and "meets r (unat start) (unat start + unat sz)"
  shows "\<exists>nap'. NaClTextDyncodeCreate os (\<lambda>_. True) validator nap dest code sz metadata = Inr (nap', neg_errno EINVAL)"
proof -
  have n: "0 < unat (ucast sz :: u64)" "unat start + unat (ucast sz :: u64) < 2 ^ 64"
    using assms(1,4) by (simp_all add: create_admitted_def unat_ucast_up unat_gt_0)
  obtain nap1 ok where run: "NaClDynamicRegionCreate (\<lambda>_. True) nap start (ucast sz) False = Inr (nap1, ok)"
    using Create_returns [of "\<lambda>_. True"] by blast
  have "\<not> ok" using Create_result [OF assms(2) n run] assms(5,6) by (auto simp: unat_ucast_up)
  then show ?thesis
    by - (rule create_run [OF assms(1), of os "\<lambda>_. True"], rule exI [of _ nap1], simp add: assms(3) run)
qed

subsection \<open>Properties\<close>

text \<open> C4. Every creation whose range does not end exactly at 4 GB (for those see C36: their bound
  check wraps around) keeps the safety invariant, also with other bad arguments, rejected code, an
  occupied range or failing host calls, and runs into no failing check and no undefined
  behaviour.  When it returns 0 for a non-empty range, the range is bundle-aligned and inside
  the area, no region met it before, the region table has exactly this region more, all its
  pages are visible, they hold exactly the code as the validator has accepted and left it, and no visible byte
  outside the range has changed.\<close>

theorem dyncode_create_installs:
  assumes "text_inv nap" and "maps_ok os" and "keeps_code validator" and "length code = unat sz"
    and "unat dest + unat sz \<noteq> 2 ^ 32"
  shows "run_ok (NaClTextDyncodeCreate os alloc validator nap dest code sz metadata)
    (\<lambda>(nap', rv). text_inv nap' \<and> (rv = 0 \<and> sz \<noteq> 0 \<longrightarrow> created validator nap dest code sz nap'))"
  using assms by (rule create_result_any)

text \<open> C5. Deleting code keeps the safety invariant.  It returns 0 for a region only if every thread's
  generation has reached the one due for this region; then exactly this region has left the
  table and all its visible bundles are halted.  It returns \<open>EAGAIN\<close> only while some thread's
  generation is still below that of the region.\<close>

theorem dyncode_delete_protocol:
  assumes "text_inv nap" and "maps_ok os" and "valid_thread nap natp"
  shows "run_ok (NaClSysDyncodeDelete os alloc nap natp dest sz) (\<lambda>(nap', rv). text_inv nap' \<and>
    (rv = 0 \<and> sz \<noteq> 0 \<longrightarrow> deleted nap dest sz nap') \<and> (rv = neg_errno EAGAIN \<longrightarrow> deletion_pending nap' dest sz))"
  using assms by (rule delete_result)

text \<open>Creations and deletions in any order, from any threads.  Creations whose range ends exactly
  at 4 GB are left out.\<close>

inductive text_step ::
  "os \<Rightarrow> 'md NaClValidatorInterface \<Rightarrow> 'a NaClTextApp_scheme \<Rightarrow> 'a NaClTextApp_scheme \<Rightarrow> bool"
  for os validator where
  create: "NaClTextDyncodeCreate os alloc validator nap dest code sz metadata = Inr (nap', rv) \<Longrightarrow>
    length code = unat sz \<Longrightarrow> unat dest + unat sz \<noteq> 2 ^ 32 \<Longrightarrow> text_step os validator nap nap'"
| delete: "NaClSysDyncodeDelete os alloc nap natp dest sz = Inr (nap', rv) \<Longrightarrow>
    valid_thread nap natp \<Longrightarrow> text_step os validator nap nap'"

inductive_cases text_stepE: "text_step os validator nap nap'"

lemma text_step_inv:
  assumes "text_step os validator nap nap'" and "text_inv nap" and "maps_ok os" and "keeps_code validator"
  shows "text_inv nap'"
  using assms(1)
proof cases
  case (create alloc dest code sz metadata rv)
  from run_okD [OF create_result_any [OF assms(2-4) create(2,3)] create(1)] show ?thesis by simp
next
  case (delete alloc natp dest sz rv)
  from run_okD [OF delete_result [OF assms(2,3) delete(2)] delete(1)] show ?thesis by simp
qed

text \<open> C3. In every state that creations and deletions can reach, where no creation has a range that
  ends exactly at 4 GB (see C36), a visible bundle of the dynamic text
  area that no loaded, undeleted region covers starts with halts.\<close>

theorem dyncode_reachable_halted:
  assumes "text_inv nap" and "maps_ok os" and "keeps_code validator"
    and "(text_step os validator)\<^sup>*\<^sup>* nap nap'"
    and "bundle_visible nap' k" and "\<not> live_bundle nap' k"
  shows "bundle_halted nap' k"
proof -
  from assms(4) have "text_inv nap'"
    by induction (use assms(1-3) text_step_inv in blast)+
  from text_invD(8) [OF this] assms(5,6) show ?thesis unfolding idle_halted_def by blast
qed

text \<open> C36. A creation that ends exactly at the top of a 4 GB address space passes the check
  \<open>dest + size > dynamic_text_end - NACL_HALT_SLED_SIZE\<close>, because the 32-bit sum is 0: with an
  accepted piece of code it registers a code region that lies outside the dynamic text area
  (here the host then refuses the mapping, and the region even stays).\<close>

theorem dyncode_create_top_of_space:
  assumes "text_inv nap" and "addr_bits nap = 32" and "unat dest + unat sz = 2 ^ 32"
    and "32 dvd unat dest" and "unat (dynamic_text_start nap) \<le> unat dest"
    and "\<not> skip_validator nap"
    and "NaClValidateCode validator nap (ucast dest) code metadata = Inr (LOAD_OK, code')"
    and "\<forall>r \<in> set (dynamic_regions nap). \<not> meets r (unat (mem_start nap) + unat dest) (unat (mem_start nap) + 2 ^ 32)"
    and "dynamic_mapcache_size nap = 0" and "maps_refused os"
  shows "\<exists>nap'. NaClTextDyncodeCreate os (\<lambda>_. True) validator nap dest code sz metadata = Inr (nap', neg_errno ENOMEM) \<and>
    (\<exists>r \<in> set (dynamic_regions nap'). \<not> is_mmap r \<and> \<not> in_area nap r \<and> range_region nap dest sz r)"
proof -
  note inv = text_invD [OF assms(1)]
  have l: "bundle_size nap = 32" "space_ok nap" "text_shm nap \<noteq> None" "65536 \<le> unat (dynamic_text_start nap)"
    "65536 \<le> unat (dynamic_text_end nap)" "unat (dynamic_text_end nap) \<le> 2 ^ 32"
    using inv(1) assms(2) by (auto simp: layout_ok_def intro: dvd_imp_le)
  have fits: "unat dest + unat sz \<le> 2 ^ addr_bits nap" using assms(2,3) by simp
  note a = range_addr [OF l(2) fits]
  let ?start = "mem_start nap + ucast dest" and ?r = "new_region (mem_start nap + ucast dest) (ucast sz) False"
  have sz: "0 < unat sz" using assms(3) unat_lt32 [of dest] by linarith
  have addr: "NaClUserToSysAddrRange nap (ucast dest) (ucast sz) = ?start"
    using fits assms(5) l(4) by (simp add: UserToSysAddrRange_iff [OF l(2)] unat_ucast_up)
  have "unat (ucast dest :: u64) < 2 ^ addr_bits nap" using sz fits by (simp add: unat_ucast_up)
  then have "?start \<noteq> kNaClBadAddress" by (rule range_not_bad [OF l(2)])
  moreover have "32 dvd unat sz"
  proof -
    have "(32 :: nat) dvd 2 ^ 32 - unat dest" using assms(4) by (intro dvd_diff_nat) simp_all
    then show ?thesis using assms(3) by (metis diff_add_inverse)
  qed
  moreover have "dest + sz = 0"
    using assms(3) by (intro word_eq_unatI) (simp add: unat_word_ariths)
  ultimately have adm: "create_admitted validator nap dest code sz metadata"
    using l(1,3) assms(4-7) sz
    by (simp add: create_admitted_def addr and_31 [simplified] word_less_nat_alt unat_ucast_up unat_gt_0)
  have "text_offset nap dest + unat sz + 65536 \<le> 2 ^ 32" using assms(3,5) l(4) unfolding text_offset_def by linarith
  then have rng: "fst (snd (shm_map_range nap dest sz)) \<noteq> 0"
    using shm_map_range_nat [OF assms(5) sz] by (metis fst_conv snd_conv)
  have n: "0 < unat (ucast sz :: u64)" "unat ?start + unat (ucast sz :: u64) < 2 ^ 64"
    using sz a by (simp_all add: unat_ucast_up)
  have "unat ?start + unat (ucast sz :: u64) = unat (mem_start nap) + 2 ^ 32"
    using a(1) assms(3) by (simp add: unat_ucast_up)
  note sum = this
  have free: "\<forall>r \<in> set (dynamic_regions nap). \<not> meets r (unat ?start) (unat ?start + unat (ucast sz :: u64))"
    using assms(8) unfolding sum by (simp only: a(1))
  obtain sp rs where c: "NaClDynamicRegionCreate (\<lambda>_. True) nap ?start (ucast sz) False =
      Inr (nap\<lparr> dynamic_regions_allocated := sp, dynamic_regions := rs \<rparr>, True)" "?r \<in> set rs"
    using create_enters [OF inv(5) n free] by blast
  have "\<not> in_area nap ?r"
    using a(1) assms(3) l(6) by (auto simp: in_area_def new_region_def region_end_def unat_ucast_up)
  moreover have "\<not> is_mmap ?r" "range_region nap dest sz ?r"
    using a(1) by (simp_all add: new_region_def range_region_def unat_ucast_up)
  moreover obtain lg where "NaClTextDyncodeCreate os (\<lambda>_. True) validator nap dest code sz metadata =
    Inr (nap\<lparr> dynamic_regions_allocated := sp, dynamic_regions := rs, host_log := lg \<rparr>, neg_errno ENOMEM)"
    using create_refused [OF adm assms(10,9) rng c(1) [folded addr]] by blast
  ultimately show ?thesis using c(2) by auto
qed

text \<open> C37. When the host refuses the mapping, \<open>NaClTextDyncodeCreate\<close> reports \<open>ENOMEM\<close> but the region it
  has entered into the table stays there: repeating the call can then only fail with
  \<open>EINVAL\<close>, although nothing has been loaded.\<close>

theorem dyncode_create_no_retry:
  assumes "text_inv nap" and "create_admitted validator nap dest code sz metadata"
    and "unat dest + unat sz < 2 ^ 32"
    and "\<forall>r \<in> set (dynamic_regions nap).
      \<not> meets r (unat (mem_start nap) + unat dest) (unat (mem_start nap) + unat dest + unat sz)"
    and "dynamic_mapcache_size nap = 0" and "maps_refused os"
  shows "\<exists>nap'. NaClTextDyncodeCreate os (\<lambda>_. True) validator nap dest code sz metadata = Inr (nap', neg_errno ENOMEM) \<and>
    (\<exists>nap''. NaClTextDyncodeCreate os' (\<lambda>_. True) validator nap' dest code sz metadata = Inr (nap'', neg_errno EINVAL))"
proof -
  note inv = text_invD [OF assms(1)]
  have adm: "sz \<noteq> 0" "dest AND (bundle_size nap - 1) = 0" "sz AND (bundle_size nap - 1) = 0"
    "\<not> ucast dest < dynamic_text_start nap"
    "\<not> ucast (dest + sz) > dynamic_text_end nap - NACL_HALT_SLED_SIZE"
    using assms(2) by (simp_all add: create_admitted_def)
  note chk = create_checks [OF inv(1) assms(3) adm]
  note a = range_addr [OF code_range_space [OF inv(1) chk(1)]] and f = code_range_facts [OF inv(1,2) chk(1)]
  let ?start = "mem_start nap + ucast dest" and ?r = "new_region (mem_start nap + ucast dest) (ucast sz) False"
  have n: "0 < unat (ucast sz :: u64)" "unat ?start + unat (ucast sz :: u64) < 2 ^ 64"
    "\<forall>r \<in> set (dynamic_regions nap). \<not> meets r (unat ?start) (unat ?start + unat (ucast sz :: u64))"
    using chk(1) a assms(4) by (simp_all add: code_range_def unat_ucast_up)
  obtain sp rs where c: "NaClDynamicRegionCreate (\<lambda>_. True) nap ?start (ucast sz) False =
      Inr (nap\<lparr> dynamic_regions_allocated := sp, dynamic_regions := rs \<rparr>, True)" "regions_ok rs" "?r \<in> set rs"
    using create_enters [OF inv(5) n] by blast
  have rng: "fst (snd (shm_map_range nap dest sz)) \<noteq> 0"
    using shm_map_range_result [OF inv(1) f(1)] by (metis fst_conv snd_conv)
  obtain lg where first: "NaClTextDyncodeCreate os (\<lambda>_. True) validator nap dest code sz metadata =
    Inr (nap\<lparr> dynamic_regions_allocated := sp, dynamic_regions := rs, host_log := lg \<rparr>, neg_errno ENOMEM)"
    using create_refused [OF assms(2,6,5) rng c(1) [folded chk(2)]] by blast
  let ?nap' = "nap\<lparr> dynamic_regions_allocated := sp, dynamic_regions := rs, host_log := lg \<rparr>"
  have "meets ?r (unat ?start) (unat ?start + unat sz)"
    using n(1) by (simp add: meets_def new_region_def region_end_def unat_ucast_up)
  then have "\<exists>nap''. NaClTextDyncodeCreate os' (\<lambda>_. True) validator ?nap' dest code sz metadata = Inr (nap'', neg_errno EINVAL)"
    using c(2,3) assms(2) chk(2) n(2)
    by (intro create_occupied [where start = ?start and r = ?r]) (simp_all add: admitted_later unat_ucast_up)
  with first show ?thesis by blast
qed

subsection \<open>The properties at a concrete state\<close>

definition sample_os :: os where
  "sample_os log call = (case call of
     HostMapTrusted d n pr fl off \<Rightarrow> if n < 0x10000000000 then 0x7fff00000000 else - 12 | _ \<Rightarrow> 0)"

definition refusing_os :: os where
  "refusing_os log call = - 12"

lemma sample_fields:
  "dynamic_text_start sample_text = 0x20000" "dynamic_text_end sample_text = 0x100000"
  "dynamic_mapcache_offset sample_text = 0" "dynamic_mapcache_size sample_text = 0"
  "dynamic_mapcache_ret sample_text = 0" "text_shm sample_text = Some 0"
  "dynamic_page_bitmap sample_text = [0, 0]" "mem_start sample_text = 0x7f0000000000"
  "addr_bits sample_text = 32" "text_mem sample_text = (\<lambda>_. 0)" "bundle_size sample_text = 32"
  "enable_dyncode_syscalls sample_text" "\<not> skip_validator sample_text" "\<not> fixed_feature_cpu_mode sample_text"
  "validator_stub_out_mode sample_text" "dynamic_delete_generation sample_text = 0"
  "thread_generations sample_text = [Some 0]"
  by (simp_all add: sample_text_def NaClPolicyApp.defs sample_policy_def NaClApp.defs sample_space_def)

lemma sample_invisible: "\<not> visible [0, 0] p"
  by (auto simp: visible_def less_Suc_eq nth_Cons split: nat.splits)

lemma sample_text_inv: "text_inv sample_text"
proof (rule text_invI)
  have pages: "text_pages sample_text = 14" by (simp add: text_pages_def sample_fields)
  then show "text_pages sample_text < 2 ^ 15" by simp
  have "65536 dvd (131072 :: nat)" "65536 dvd (1048576 :: nat)" "32 dvd (139637976727552 :: nat)" by presburger+
  with pages show "layout_ok sample_text" by (simp add: layout_ok_def space_ok_def sample_fields)
  show "hidden_zero sample_text" by (simp add: hidden_zero_def sample_fields)
  show "cache_ok sample_text" by (simp add: cache_ok_def sample_fields)
  show "regions_ok (dynamic_regions sample_text)" by (rule sample_regions_ok)
  show "in_area sample_text r" if "r \<in> set (dynamic_regions sample_text)" for r
    using that by (auto simp: sample_regions region_at_def new_region_def in_area_def bundle_addr_def sample_fields
        region_end_def)
  show "generations_ok sample_text"
    by (simp add: generations_ok_def sample_fields sample_regions region_at_def new_region_def)
  show "idle_halted sample_text"
    by (simp add: idle_halted_def bundle_visible_def sample_fields sample_invisible)
qed

lemma sample_maps_ok: "maps_ok sample_os"
proof -
  have "4096 dvd (140733193388032 :: nat)" by presburger
  then show ?thesis by (auto simp: maps_ok_def sample_os_def NaClPtrIsNegErrno_def word_less_nat_alt)
qed

lemma refusing_maps: "maps_refused refusing_os"
  by (simp add: maps_refused_def refusing_os_def NaClPtrIsNegErrno_def)

lemma halt_keeps: "keeps_code halt_validator"
  by (simp add: keeps_code_def halt_validator_def)

text \<open>The first page is mapped and filled with halts.\<close>

lemma sample_map:
  assumes "text_inv nap" and "code_range nap dest sz" and "shm_map_range nap dest sz = (0, 0x10000, wo)"
    and "same_text sample_text nap"
  obtains nap' where "NaClTextMapWrapper sample_os nap dest sz = Inr (nap', Some (0x7fff00000000 + ucast wo))"
    and "pages_step nap nap'"
    and "32 dvd unat (0x7fff00000000 + ucast wo :: u64)" and "unat (0x7fff00000000 + ucast wo :: u64) + unat sz < 2 ^ 64"
proof -
  note same = assms(4) [unfolded same_text_def sample_fields]
  have "\<exists>nap'. NaClTextMapWrapper sample_os nap dest sz = Inr (nap', Some (0x7fff00000000 + ucast wo))"
    using same unfolding NaClTextMapWrapper_def assms(3)
    by (simp add: CachedMapWritableText_def clear_mapcache_def host_def Let_def sample_os_def NaClPtrIsNegErrno_def)
      (subst visible_loop.simps, simp add: MakeDynamicCodePagesVisible_def mark_pages.simps unallocated_end.simps
        BitmapIsBitSet_def BitmapSetBit_def host_def Let_def NaClUserToSys_def addr_limit_def through_def
        NaClFillMemoryRegionWithHalt_def visible_loop.simps sample_os_def)
  then obtain nap' where run: "NaClTextMapWrapper sample_os nap dest sz = Inr (nap', Some (0x7fff00000000 + ucast wo))" ..
  note inv = text_invD [OF assms(1)]
  have "32 dvd unat dest" using assms(2) by (simp add: code_range_def)
  note m = MapWrapper_result [OF inv(1,3,4) sample_maps_ok code_range_facts(1) [OF inv(1,2) assms(2)] this]
  from run_okD [OF m run] show ?thesis by (intro that [OF run]) simp_all
qed

lemma sample_clear:
  assumes "dynamic_text_start nap = 0x20000" and "shm_map_range nap dest sz = (0, 0x10000, wo)"
  shows "NaClTextMapClearCacheIfNeeded sample_os nap dest sz = Inr nap"
  using assms by (simp add: NaClTextMapClearCacheIfNeeded_def)

lemma sample_range:
  assumes "same_text sample_text nap"
  shows "code_range nap 0x20080 0x20" and "shm_map_range nap 0x20080 0x20 = (0, 0x10000, 0x80)"
    and "code_range nap 0x20000 0x20" and "shm_map_range nap 0x20000 0x20 = (0, 0x10000, 0)"
proof -
  note same = assms [unfolded same_text_def sample_fields]
  show "code_range nap 0x20080 0x20" "code_range nap 0x20000 0x20" using same by (simp_all add: code_range_def)
  show "shm_map_range nap 0x20080 0x20 = (0, 0x10000, 0x80)" "shm_map_range nap 0x20000 0x20 = (0, 0x10000, 0)"
    using same by (simp_all add: shm_map_range_def)
qed

definition sample_code :: "u8 list" where
  "sample_code = replicate 32 0x90"

lemma sample_admitted: "create_admitted halt_validator sample_text 0x20080 sample_code 0x20 None"
proof -
  have "NaClValidateCode halt_validator sample_text 0x20080 sample_code None = Inr (LOAD_OK, replicate 32 0xf4)"
    by (simp add: NaClValidateCode_def sample_fields sample_code_def halt_validator_def kMinimumCachedCodeSize_def Let_def)
  then show ?thesis
    by (simp add: create_admitted_def sample_fields NaClUserToSysAddrRange_def addr_limit_def Let_def)
qed

lemma sample_free:
  "\<forall>r \<in> set (dynamic_regions sample_text).
     \<not> meets r (unat (mem_start sample_text) + unat (0x20080 :: u32)) (unat (mem_start sample_text) + unat (0x20080 :: u32) + unat (0x20 :: u32))"
  "\<forall>r \<in> set (dynamic_regions sample_text).
     \<not> meets r (unat (mem_start sample_text) + unat (0xffffffe0 :: u32)) (unat (mem_start sample_text) + 2 ^ 32)"
  by (simp_all add: sample_regions sample_fields meets_def region_at_def new_region_def region_end_def)

lemma sample_create:
  obtains nap' where "NaClTextDyncodeCreate sample_os (\<lambda>_. True) halt_validator sample_text 0x20080 sample_code 0x20 None =
    Inr (nap', 0)"
proof -
  note inv = text_invD [OF sample_text_inv]
  let ?start = "mem_start sample_text + ucast (0x20080 :: u32)" and ?n = "ucast (0x20 :: u32) :: u64"
  have n: "0 < unat ?n" "unat ?start + unat ?n < 2 ^ 64"
    "\<forall>r \<in> set (dynamic_regions sample_text). \<not> meets r (unat ?start) (unat ?start + unat ?n)"
    using sample_free(1) by (simp_all add: sample_fields)
  obtain sp rs where "NaClDynamicRegionCreate (\<lambda>_. True) sample_text ?start ?n False =
      Inr (sample_text\<lparr> dynamic_regions_allocated := sp, dynamic_regions := rs \<rparr>, True)"
    by (rule create_enters [OF inv(5) n])
  then obtain nap1 where reg: "NaClDynamicRegionCreate (\<lambda>_. True) sample_text ?start ?n False = Inr (nap1, True)" ..
  have "same_text sample_text sample_text" by (simp add: same_text_def)
  note sr = sample_range [OF this]
  note c = create_region [OF sample_text_inv sr(1) reg]
  note sr1 = sample_range [OF c(2)]
  obtain nap2 where map: "NaClTextMapWrapper sample_os nap1 0x20080 0x20 = Inr (nap2, Some (0x7fff00000000 + ucast (0x80 :: u32)))"
    and step: "pages_step nap1 nap2"
    by (rule sample_map [OF c(1) sr1(1,2) c(2)])
  have k: "bundle_size nap2 = 32" "dynamic_text_start nap2 = 0x20000"
    using pages_stepD(1) [OF step] c(2) by (simp_all add: kept_def same_text_def sample_fields)
  have addr: "NaClUserToSysAddrRange sample_text (ucast (0x20080 :: u32)) ?n = ?start"
    by (simp add: NaClUserToSysAddrRange_def addr_limit_def sample_fields Let_def)
  obtain code' where run: "NaClTextDyncodeCreate sample_os (\<lambda>_. True) halt_validator sample_text 0x20080 sample_code 0x20 None =
    andThen (NaClTextMapWrapper sample_os nap1 0x20080 0x20) (\<lambda>(nap, mapped).
        case mapped of None \<Rightarrow> Inr (nap, neg_errno ENOMEM)
        | Some a \<Rightarrow> andThen (CopyCodeSafelyInitial a code' 0x20 (bundle_size nap)) (\<lambda>ws.
            andThen (NaClTextMapClearCacheIfNeeded sample_os (store_text nap (after_writes ws)) 0x20080 0x20) (\<lambda>nap.
            Inr (nap, 0))))"
    and val: "NaClValidateCode halt_validator sample_text (ucast (0x20080 :: u32)) sample_code None = Inr (LOAD_OK, code')"
    by (rule create_run [OF sample_admitted, of sample_os "\<lambda>_. True", unfolded addr reg andThen.simps split_conv]) simp
  have "length code' = unat (0x20 :: u32)"
    using ValidateCode_accepted [OF halt_keeps val] by (simp add: sample_code_def)
  then obtain ws where "CopyCodeSafelyInitial (0x7fff00000000 + ucast (0x80 :: u32)) code' 0x20 32 = Inr ws"
    using copy_new_code [of "0x7fff00000000 + ucast (0x80 :: u32)" "0x20" code'] by auto
  moreover have "NaClTextMapClearCacheIfNeeded sample_os (store_text nap2 f) 0x20080 0x20 = Inr (store_text nap2 f)" for f
    using k by (intro sample_clear) (simp_all add: store_text_def shm_map_range_def)
  ultimately show ?thesis by (intro that) (simp add: run map k(1))
qed

lemma dyncode_create_installs_witness:
  "\<exists>nap'. NaClTextDyncodeCreate sample_os (\<lambda>_. True) halt_validator sample_text 0x20080 sample_code 0x20 None =
    Inr (nap', 0) \<and> text_inv nap' \<and> created halt_validator sample_text 0x20080 sample_code 0x20 nap'"
proof -
  obtain nap' where run: "NaClTextDyncodeCreate sample_os (\<lambda>_. True) halt_validator sample_text 0x20080 sample_code 0x20 None =
    Inr (nap', 0)" by (rule sample_create)
  have "length sample_code = unat (0x20 :: u32)" "unat (0x20080 :: u32) + unat (0x20 :: u32) \<noteq> 2 ^ 32"
    by (simp_all add: sample_code_def)
  note c = dyncode_create_installs [OF sample_text_inv sample_maps_ok halt_keeps this]
  from run_okD [OF c run] run show ?thesis by (intro exI [of _ nap']) simp
qed

lemma dyncode_create_top_of_space_witness:
  "\<exists>nap'. NaClTextDyncodeCreate refusing_os (\<lambda>_. True) halt_validator sample_text 0xffffffe0 sample_code 0x20 None =
      Inr (nap', neg_errno ENOMEM) \<and>
    (\<exists>r \<in> set (dynamic_regions nap'). \<not> is_mmap r \<and> \<not> in_area sample_text r \<and> range_region sample_text 0xffffffe0 0x20 r)"
proof -
  have "NaClValidateCode halt_validator sample_text (ucast (0xffffffe0 :: u32)) sample_code None = Inr (LOAD_OK, replicate 32 0xf4)"
    by (simp add: NaClValidateCode_def sample_fields sample_code_def halt_validator_def kMinimumCachedCodeSize_def Let_def)
  from dyncode_create_top_of_space [OF sample_text_inv sample_fields(9) _ _ _ sample_fields(13) this sample_free(2)
      sample_fields(4) refusing_maps, of "0x20"]
  show ?thesis by (simp add: sample_fields)
qed

lemma dyncode_create_no_retry_witness:
  "\<exists>nap'. NaClTextDyncodeCreate refusing_os (\<lambda>_. True) halt_validator sample_text 0x20080 sample_code 0x20 None =
      Inr (nap', neg_errno ENOMEM) \<and>
    (\<exists>nap''. NaClTextDyncodeCreate sample_os (\<lambda>_. True) halt_validator nap' 0x20080 sample_code 0x20 None =
      Inr (nap'', neg_errno EINVAL))"
proof -
  have "unat (0x20080 :: u32) + unat (0x20 :: u32) < 2 ^ 32" by simp
  from dyncode_create_no_retry [OF sample_text_inv sample_admitted this sample_free(1) sample_fields(4) refusing_maps]
  show ?thesis .
qed

lemma dyncode_reachable_halted_witness:
  "\<exists>nap'. (text_step sample_os halt_validator)\<^sup>*\<^sup>* sample_text nap' \<and> bundle_visible nap' 1 \<and> bundle_halted nap' 1"
proof -
  obtain nap' where run: "NaClTextDyncodeCreate sample_os (\<lambda>_. True) halt_validator sample_text 0x20080 sample_code 0x20 None =
    Inr (nap', 0)" by (rule sample_create)
  have len: "length sample_code = unat (0x20 :: u32)" "unat (0x20080 :: u32) + unat (0x20 :: u32) \<noteq> 2 ^ 32"
    by (simp_all add: sample_code_def)
  have "text_step sample_os halt_validator sample_text nap'" by (rule text_step.create [OF run len])
  then have reach: "(text_step sample_os halt_validator)\<^sup>*\<^sup>* sample_text nap'" by (rule r_into_rtranclp)
  have "created halt_validator sample_text 0x20080 sample_code 0x20 nap'"
    using run_okD [OF create_result_any [OF sample_text_inv sample_maps_ok halt_keeps len] run] by simp
  then obtain code where "installed sample_text 0x20080 0x20 code nap'" by (auto simp: created_def)
  note i = this [unfolded installed_def sample_fields]
  have "visible (dynamic_page_bitmap nap') ((text_offset nap' 0x20080 + 0) div 65536)"
    using i unfolding range_visible_def by (auto dest: spec [of _ 0])
  then have "bundle_visible nap' 1"
    using i by (simp add: bundle_visible_def text_offset_def text_pages_def)
  moreover have "\<not> live_bundle nap' 1"
    using i by (auto simp: live_bundle_def sample_regions covers_bundle_def bundle_addr_def region_end_def
        region_at_def new_region_def)
  ultimately show ?thesis
    using dyncode_reachable_halted [OF sample_text_inv sample_maps_ok halt_keeps reach] reach by blast
qed

lemma dyncode_delete_protocol_witness:
  "\<exists>nap'. NaClSysDyncodeDelete sample_os (\<lambda>_. True) sample_text 0 0x20000 0x20 = Inr (nap', 0) \<and> text_inv nap' \<and>
    deleted sample_text 0x20000 0x20 nap'"
proof -
  have thread: "valid_thread sample_text 0" by (simp add: valid_thread_def sample_fields)
  have find: "NaClDynamicRegionFind sample_text 0x7f0000020000 0x20 = Some 0"
    by (simp add: NaClDynamicRegionFind_def NaClDynamicRegionFindClosestLEQ_def sample_regions region_at_def new_region_def
        leq_bsearch.simps leq_scan.simps Let_def)
  have addr: "NaClUserToSysAddrRange sample_text 0x20000 0x20 = 0x7f0000020000"
    by (simp add: NaClUserToSysAddrRange_def addr_limit_def sample_fields Let_def)
  have same: "same_text sample_text sample_text" by (simp add: same_text_def)
  note sr = sample_range [OF same]
  have rr: "range_region sample_text 0x20000 0x20 (dynamic_regions sample_text ! 0)"
    by (simp add: range_region_def sample_regions region_at_def new_region_def sample_fields)
  have p: "0 < length (dynamic_regions sample_text)" "\<not> is_mmap (dynamic_regions sample_text ! 0)"
    "delete_generation (dynamic_regions sample_text ! 0) < 0"
    by (simp_all add: sample_regions region_at_def new_region_def)
  obtain nap2 where map: "NaClTextMapWrapper sample_os sample_text 0x20000 0x20 = Inr (nap2, Some (0x7fff00000000 + ucast (0 :: u32)))"
    and step: "pages_step sample_text nap2"
    by (rule sample_map [OF sample_text_inv sr(3,4) same])
  have k: "bundle_size nap2 = 32" "dynamic_text_start nap2 = 0x20000"
    using pages_stepD(1) [OF step] by (simp_all add: kept_def sample_fields)
  obtain ws where ws: "ReplaceBundleHeadsWithHalts (0x7fff00000000 + ucast (0 :: u32)) 0x20 32 = Inr ws"
    using halt_code [of "0x7fff00000000 + ucast (0 :: u32)" "0x20"] by auto
  have clear: "NaClTextMapClearCacheIfNeeded sample_os (store_text nap2 f) 0x20000 0x20 = Inr (store_text nap2 f)" for f
    using k by (intro sample_clear) (simp_all add: store_text_def shm_map_range_def)
  obtain nap3 where start: "dyncode_delete_start sample_os sample_text 0x20000 0x20 0 = Inr (nap3, None)"
    using ws map k(1) by (simp add: dyncode_delete_start_def sample_fields clear Let_def)
  note d = run_okD [OF delete_start [OF sample_text_inv sample_maps_ok p(1) sr(3) rr p(2,3)] start, simplified]
  have "valid_thread nap3 0" using d by (simp add: valid_thread_def sample_fields)
  then obtain nap4 where gen: "NaClSetThreadGeneration nap3 0 (dynamic_delete_generation nap3) = Inr nap4"
    and nap4: "dynamic_regions nap4 = dynamic_regions nap3"
    "thread_generations nap4 = (thread_generations nap3)[0 := Some (dynamic_delete_generation nap3)]"
    using set_generation_inv [of nap3 0] d by blast
  have "delete_generation (dynamic_regions nap4 ! 0) \<le> NaClMinimumThreadGeneration nap4"
    using d by (simp add: NaClMinimumThreadGeneration_def nap4 sample_fields sample_regions)
  moreover obtain nap5 where "NaClDynamicRegionDelete (\<lambda>_. True) nap4 0 = Inr nap5"
    using Delete_returns [of "\<lambda>_. True"] by blast
  ultimately have run: "NaClSysDyncodeDelete sample_os (\<lambda>_. True) sample_text 0 0x20000 0x20 = Inr (nap5, 0)"
    using find p(2,3) start gen
    by (simp add: NaClSysDyncodeDelete_def sample_fields addr sample_regions region_at_def new_region_def Let_def)
  from run_okD [OF dyncode_delete_protocol [OF sample_text_inv sample_maps_ok thread] run] run show ?thesis
    by (intro exI [of _ nap5]) simp
qed

end
