(* ===== verification/Sandbox_Steps.thy ===== *)
theory Sandbox_Steps
  imports Sys_Mmap_Proofs Dyn_Text_Calls
begin

text \<open>
  The system calls side by side.  The calls on dynamic code leave the data side of the sandbox alone,
  the calls on memory leave the code side alone, and no call asks the host for memory that is
  both writable and executable.
\<close>

subsection \<open>What a call asks of the host\<close>

fun wx_ok :: "host_call \<Rightarrow> bool" where
  "wx_ok (HostMprotect a n pr) \<longleftrightarrow> pr AND PROT_WRITE = 0 \<or> pr AND PROT_EXEC = 0"
| "wx_ok (HostMapAnon a n pr fl off) \<longleftrightarrow> pr AND PROT_WRITE = 0 \<or> pr AND PROT_EXEC = 0"
| "wx_ok (HostMapDesc d a n pr fl off) \<longleftrightarrow> pr AND PROT_WRITE = 0 \<or> pr AND PROT_EXEC = 0"
| "wx_ok (HostMapTrusted d n pr fl off) \<longleftrightarrow> pr AND PROT_WRITE = 0 \<or> pr AND PROT_EXEC = 0"
| "wx_ok _ \<longleftrightarrow> True"

definition logs :: "'a NaClApp_scheme \<Rightarrow> 'a NaClApp_scheme \<Rightarrow> bool" where
  "logs nap nap' \<longleftrightarrow> (\<exists>cs. host_log nap' = host_log nap @ cs \<and> (\<forall>c \<in> set cs. wx_ok c))"

lemma logs_refl: "host_log nap' = host_log nap \<Longrightarrow> logs nap nap'"
  by (simp add: logs_def)

lemma logs_trans: "logs a b \<Longrightarrow> logs b c \<Longrightarrow> logs a c"
proof -
  assume "logs a b" "logs b c"
  then obtain cs ds where "host_log b = host_log a @ cs" "host_log c = host_log b @ ds"
    "\<forall>x \<in> set cs. wx_ok x" "\<forall>x \<in> set ds. wx_ok x" by (auto simp: logs_def)
  then show "logs a c" by (auto simp: logs_def intro!: exI [of _ "cs @ ds"])
qed

lemma logs_call: "host_log nap' = host_log nap @ [c] \<Longrightarrow> wx_ok c \<Longrightarrow> logs nap nap'"
  by (auto simp: logs_def)

text \<open>The data side of a sandbox: everything but the dynamic code and the log.\<close>

definition core :: "'a NaClApp_scheme \<Rightarrow> NaClApp" where
  "core nap = (NaClApp.truncate nap)\<lparr> host_log := [] \<rparr>"

lemma coreD:
  assumes "core a = core b"
  shows "mem_map a = mem_map b" and "addr_bits a = addr_bits b" and "mem_start a = mem_start b"
    and "dynamic_text_start a = dynamic_text_start b" and "dynamic_text_end a = dynamic_text_end b"
    and "desc_tbl a = desc_tbl b" and "break_addr a = break_addr b" and "data_end a = data_end b"
    and "pnacl_mode a = pnacl_mode b" and "mem_io_regions a = mem_io_regions b"
    and "enable_dyncode_syscalls a = enable_dyncode_syscalls b"
  using assms by (simp_all add: core_def NaClApp.truncate_def)

definition text_only :: "'a NaClApp_scheme \<Rightarrow> 'a NaClApp_scheme \<Rightarrow> bool" where
  "text_only nap nap' \<longleftrightarrow> core nap' = core nap \<and> logs nap nap'"

lemma text_only_refl [simp]: "text_only nap nap"
  by (simp add: text_only_def logs_refl)

lemma text_only_trans: "text_only a b \<Longrightarrow> text_only b c \<Longrightarrow> text_only a c"
  using logs_trans by (auto simp: text_only_def)

text \<open>Updates of the fields of the code side.\<close>

lemma core_text [simp]:
  fixes nap :: "'a NaClTextApp_scheme"
  shows "core (nap\<lparr> dynamic_regions := rs \<rparr>) = core nap" "core (nap\<lparr> dynamic_regions_allocated := n \<rparr>) = core nap"
    "core (nap\<lparr> dynamic_page_bitmap := bm \<rparr>) = core nap" "core (nap\<lparr> text_mem := m \<rparr>) = core nap"
    "core (nap\<lparr> dynamic_mapcache_offset := off \<rparr>) = core nap" "core (nap\<lparr> dynamic_mapcache_size := sz \<rparr>) = core nap"
    "core (nap\<lparr> dynamic_mapcache_ret := ret \<rparr>) = core nap" "core (nap\<lparr> dynamic_delete_generation := g \<rparr>) = core nap"
    "core (nap\<lparr> thread_generations := ts \<rparr>) = core nap" "core (nap\<lparr> host_log := lg \<rparr>) = core nap"
  by (simp_all add: core_def NaClApp.truncate_def)

lemma text_only_update:
  fixes nap :: "'a NaClTextApp_scheme"
  shows "text_only nap (nap\<lparr> dynamic_regions := rs \<rparr>)" "text_only nap (nap\<lparr> dynamic_regions_allocated := n \<rparr>)"
    "text_only nap (nap\<lparr> dynamic_page_bitmap := bm \<rparr>)" "text_only nap (nap\<lparr> text_mem := m \<rparr>)"
    "text_only nap (nap\<lparr> thread_generations := ts \<rparr>)"
    "text_only nap (nap\<lparr> dynamic_mapcache_offset := off, dynamic_mapcache_size := sz, dynamic_mapcache_ret := ret \<rparr>)"
    "text_only nap (nap\<lparr> dynamic_delete_generation := g, dynamic_regions := rs \<rparr>)"
    "text_only nap (nap\<lparr> dynamic_regions_allocated := n, dynamic_regions := rs \<rparr>)"
  by (simp_all add: text_only_def logs_refl)

lemma text_only_call: "wx_ok c \<Longrightarrow> text_only nap (nap\<lparr> host_log := host_log nap @ [c] \<rparr>)"
  for nap :: "'a NaClTextApp_scheme"
  by (auto simp: text_only_def intro: logs_call)

text \<open>The rules that follow the structure of a call.\<close>

definition leads :: "('s \<Rightarrow> bool) \<Rightarrow> ('s \<times> 'b) run \<Rightarrow> bool" where
  "leads P r \<longleftrightarrow> (\<forall>n x. r = Inr (n, x) \<longrightarrow> P n)"

lemma leads_intros:
  "leads P (Inl e)"
  "P n \<Longrightarrow> leads P (Inr (n, x))"
  "(\<And>x. r = Inr x \<Longrightarrow> leads P (f x)) \<Longrightarrow> leads P (andThen r f)"
  "(c \<Longrightarrow> leads P s) \<Longrightarrow> (\<not> c \<Longrightarrow> leads P t) \<Longrightarrow> leads P (if c then s else t)"
  "(v = None \<Longrightarrow> leads P s) \<Longrightarrow> (\<And>y. v = Some y \<Longrightarrow> leads P (g y)) \<Longrightarrow>
    leads P (case v of None \<Rightarrow> s | Some y \<Rightarrow> g y)"
  by (auto simp: leads_def run_simps split: option.split)

lemma leadsD: "leads P r \<Longrightarrow> r = Inr (n, x) \<Longrightarrow> P n"
  by (simp add: leads_def)

subsection \<open>The calls on dynamic code\<close>

lemma DescUnmap_only: "NaClDescUnmapUnsafe os nap a n = Inr nap' \<Longrightarrow> text_only nap nap'"
  for nap :: "'a NaClTextApp_scheme"
  by (auto simp: NaClDescUnmapUnsafe_def host_def text_only_call split: if_splits)

lemma MakeVisible_only:
  "MakeDynamicCodePagesVisible os nap lo hi w m off = Inr nap' \<Longrightarrow> text_only nap nap'"
  by (auto simp: MakeDynamicCodePagesVisible_def Let_def host_def run_simps text_only_def split: if_splits
      intro!: logs_call)

lemma visible_loop_only:
  "visible_loop os nap i e m off = Inr nap' \<Longrightarrow> text_only nap nap'"
proof (induction os nap i e m off arbitrary: nap' rule: visible_loop.induct)
  case (1 os nap i e m off)
  show ?case
  proof (cases "i < e")
    case False
    with "1.prems" show ?thesis by (subst (asm) visible_loop.simps) simp
  next
    case True
    with "1.prems" obtain stop n1 where s: "unallocated_end (dynamic_page_bitmap nap) (of_nat i) (of_nat e) = Inr stop"
      "(if of_nat i < stop then MakeDynamicCodePagesVisible os nap (of_nat i) stop
          (m + ucast (of_nat i * NACL_MAP_PAGESIZE - off :: u32)) m off else Inr nap) = Inr n1"
      "visible_loop os n1 (max i (unat stop) + 1) e m off = Inr nap'"
      by (subst (asm) visible_loop.simps) (auto simp: run_simps split: sum.splits)
    have "text_only nap n1" using s(2) MakeVisible_only by (auto split: if_splits)
    from this "1.IH" [OF True s(1) s(3)] show ?thesis by (rule text_only_trans)
  qed
qed

lemma clear_only: "clear_mapcache os nap = Inr nap' \<Longrightarrow> text_only nap nap'"
  unfolding clear_mapcache_def
  by (auto simp: run_simps split: if_splits intro: text_only_trans [OF DescUnmap_only text_only_update(6)])

lemma CachedMap_only:
  assumes "CachedMapWritableText os nap off sz = Inr (nap', r)"
  shows "text_only nap nap'"
proof (cases "off \<noteq> dynamic_mapcache_offset nap \<or> sz \<noteq> dynamic_mapcache_size nap")
  case False
  with assms show ?thesis by (simp add: CachedMapWritableText_def)
next
  case True
  with assms obtain n1 where n1: "clear_mapcache os nap = Inr n1"
    and rest: "(if sz > 0 then
          case text_shm n1 of
            None \<Rightarrow> Inl NullDeref
          | Some shm \<Rightarrow>
              let (mapping, nap) = host os n1
                     (HostMapTrusted shm (ucast sz) (PROT_READ OR PROT_WRITE) MAP_SHARED (ucast off)) in
              if NaClPtrIsNegErrno mapping then Inr (nap, 0)
              else
                andThen (visible_loop os nap (unat (off div NACL_MAP_PAGESIZE))
                           (unat ((off + sz) div NACL_MAP_PAGESIZE)) mapping off) (\<lambda>nap.
                Inr (nap\<lparr> dynamic_mapcache_offset := off, dynamic_mapcache_size := sz,
                           dynamic_mapcache_ret := mapping \<rparr>, mapping))
        else Inr (n1, dynamic_mapcache_ret n1)) = Inr (nap', r)"
    by (auto simp: CachedMapWritableText_def run_simps)
  have "text_only n1 nap'"
  proof (cases "sz > 0")
    case False
    with rest show ?thesis by simp
  next
    case True
    with rest obtain shm where "text_shm n1 = Some shm" by (auto split: option.splits)
    let ?call = "HostMapTrusted shm (ucast sz) (PROT_READ OR PROT_WRITE) MAP_SHARED (ucast off)"
    let ?n2 = "n1\<lparr> host_log := host_log n1 @ [?call] \<rparr>"
    have o2: "text_only n1 ?n2" by (rule text_only_call) simp
    from rest True \<open>text_shm n1 = Some shm\<close> consider "nap' = ?n2"
      | n3 where "visible_loop os ?n2 (unat (off div NACL_MAP_PAGESIZE))
                    (unat ((off + sz) div NACL_MAP_PAGESIZE)) (os (host_log n1) ?call) off = Inr n3"
        "nap' = n3\<lparr> dynamic_mapcache_offset := off, dynamic_mapcache_size := sz, dynamic_mapcache_ret := os (host_log n1) ?call \<rparr>"
      by (auto simp: host_def Let_def run_simps split: if_splits)
    then show ?thesis
    proof cases
      case 1
      with o2 show ?thesis by (simp only:)
    next
      case 2
      show ?thesis
        unfolding 2(2)
        by (rule text_only_trans [OF o2 text_only_trans [OF visible_loop_only [OF 2(1)] text_only_update(6)]])
    qed
  qed
  from text_only_trans [OF clear_only [OF n1] this] show ?thesis .
qed

lemma MapWrapper_only: "NaClTextMapWrapper os nap dest sz = Inr (nap', r) \<Longrightarrow> text_only nap nap'"
  by (auto simp: NaClTextMapWrapper_def run_simps split: prod.splits dest: CachedMap_only)

lemma ClearCache_only: "NaClTextMapClearCacheIfNeeded os nap dest sz = Inr nap' \<Longrightarrow> text_only nap nap'"
  by (auto simp: NaClTextMapClearCacheIfNeeded_def run_simps split: prod.splits if_splits dest: CachedMap_only)

lemma store_text_only: "text_only nap (store_text nap f)"
  by (simp add: store_text_def text_only_update(4))

lemma RegionCreate_only: "NaClDynamicRegionCreate alloc nap start n mm = Inr (nap', ok) \<Longrightarrow> text_only nap nap'"
  by (auto simp: NaClDynamicRegionCreate_def Let_def text_only_update split: if_splits option.splits)

lemma Create_only:
  assumes "NaClTextDyncodeCreate os alloc validator nap dest code sz md = Inr (nap', rv)"
  shows "text_only nap nap'"
proof -
  have region: "text_only nap (fst c)" if "NaClDynamicRegionCreate alloc nap s l False = Inr c" for c s l
    using that by (cases c) (simp add: RegionCreate_only)
  have map: "text_only nap (fst m)" if "NaClDynamicRegionCreate alloc nap s l False = Inr c"
    "NaClTextMapWrapper os (fst c) dest sz = Inr m" for c m s l
    using that(2) text_only_trans [OF region [OF that(1)] MapWrapper_only] by (cases m) simp
  have clear: "text_only nap n3" if "NaClDynamicRegionCreate alloc nap s l False = Inr c"
    "NaClTextMapWrapper os (fst c) dest sz = Inr m"
    "NaClTextMapClearCacheIfNeeded os (store_text (fst m) f) dest sz = Inr n3" for c m s l f n3
    using text_only_trans [OF map [OF that(1,2)] text_only_trans [OF store_text_only ClearCache_only [OF that(3)]]] .
  have "leads (text_only nap) (NaClTextDyncodeCreate os alloc validator nap dest code sz md)"
    unfolding NaClTextDyncodeCreate_def Let_def split_def
    by (intro leads_intros) (erule (2) clear | erule (1) map | erule region | rule text_only_refl)+
  from leadsD [OF this assms] show ?thesis .
qed

lemma SetGeneration_only: "NaClSetThreadGeneration nap natp g = Inr nap' \<Longrightarrow> text_only nap nap'"
  by (auto simp: NaClSetThreadGeneration_def run_simps text_only_update split: if_splits option.splits)

lemma RegionDelete_only: "NaClDynamicRegionDelete alloc nap p = Inr nap' \<Longrightarrow> text_only nap nap'"
  by (auto simp: NaClDynamicRegionDelete_def Let_def text_only_update text_only_def logs_refl split: if_splits)

lemma delete_start_only:
  assumes "dyncode_delete_start os nap dest sz p = Inr (nap', err)"
  shows "text_only nap nap'"
proof -
  from assms consider "nap' = nap"
    | a where "NaClTextMapWrapper os nap dest sz = Inr (nap', a)"
    | n2 a f n3 g rs where "NaClTextMapWrapper os nap dest sz = Inr (n2, a)"
        "NaClTextMapClearCacheIfNeeded os (store_text n2 f) dest sz = Inr n3"
        "nap' = n3\<lparr> dynamic_delete_generation := g, dynamic_regions := rs \<rparr>"
    unfolding dyncode_delete_start_def Let_def
    by (auto simp: run_simps split: if_splits option.splits)
  then show ?thesis
  proof cases
    case 2
    then show ?thesis by (rule MapWrapper_only)
  next
    case 3
    show ?thesis
      unfolding 3(3)
      by (rule text_only_trans [OF text_only_trans [OF MapWrapper_only [OF 3(1)] store_text_only]
          text_only_trans [OF ClearCache_only [OF 3(2)] text_only_update(7)]])
  qed simp
qed

lemma Delete_only:
  assumes "NaClSysDyncodeDelete os alloc nap natp dest sz = Inr (nap', rv)"
  shows "text_only nap nap'"
proof -
  from assms consider "nap' = nap"
    | g where "NaClSetThreadGeneration nap natp g = Inr nap'"
    | p where "andThen (if delete_generation (dynamic_regions nap ! p) < 0 then dyncode_delete_start os nap dest sz p
          else Inr (nap, None)) (\<lambda>(nap, err).
        case err of
          Some e \<Rightarrow> Inr (nap, e)
        | None \<Rightarrow>
            andThen (NaClSetThreadGeneration nap natp (dynamic_delete_generation nap)) (\<lambda>nap.
            if delete_generation (dynamic_regions nap ! p) \<le> NaClMinimumThreadGeneration nap
            then andThen (NaClDynamicRegionDelete alloc nap p) (\<lambda>nap. Inr (nap, 0))
            else Inr (nap, neg_errno EAGAIN))) = Inr (nap', rv)"
    unfolding NaClSysDyncodeDelete_def Let_def
    by (simp split: if_splits option.splits) (auto simp: run_simps)
  then show ?thesis
  proof cases
    case 2
    then show ?thesis by (rule SetGeneration_only)
  next
    case 3
    then obtain n1 err where n1: "(if delete_generation (dynamic_regions nap ! p) < 0 then dyncode_delete_start os nap dest sz p
          else Inr (nap, None)) = Inr (n1, err)"
      and rest: "(case err of Some e \<Rightarrow> Inr (n1, e)
        | None \<Rightarrow>
            andThen (NaClSetThreadGeneration n1 natp (dynamic_delete_generation n1)) (\<lambda>nap.
            if delete_generation (dynamic_regions nap ! p) \<le> NaClMinimumThreadGeneration nap
            then andThen (NaClDynamicRegionDelete alloc nap p) (\<lambda>nap. Inr (nap, 0))
            else Inr (nap, neg_errno EAGAIN))) = Inr (nap', rv)"
      unfolding andThen_eq_Inr by auto
    have o1: "text_only nap n1" using n1 delete_start_only by (auto split: if_splits)
    show ?thesis
    proof (cases err)
      case (Some e)
      with rest o1 show ?thesis by simp
    next
      case None
      with rest obtain n2 where n2: "NaClSetThreadGeneration n1 natp (dynamic_delete_generation n1) = Inr n2"
        "nap' = n2 \<or> NaClDynamicRegionDelete alloc n2 p = Inr nap'"
        by (auto simp: run_simps split: if_splits)
      from text_only_trans [OF o1 SetGeneration_only [OF n2(1)]] n2(2) RegionDelete_only text_only_trans show ?thesis
        by blast
    qed
  qed simp
qed

lemma text_step_only: "text_step os validator nap nap' \<Longrightarrow> text_only nap nap'"
  by (erule text_stepE) (blast intro: Create_only Delete_only)+

subsection \<open>The calls on memory\<close>

text \<open>The code side of a sandbox.\<close>

lemma text_inv_memory:
  fixes nap :: "'a NaClTextApp_scheme"
  shows "text_inv (nap\<lparr> mem_map := vm, host_log := lg, break_addr := b \<rparr>) = text_inv nap"
proof -
  let ?n = "nap\<lparr> mem_map := vm, host_log := lg, break_addr := b \<rparr>"
  have same: "same_text nap ?n" by (simp add: same_text_def)
  have "generations_ok ?n = generations_ok nap" by (simp add: generations_ok_def)
  moreover have "idle_halted ?n = idle_halted nap"
    unfolding idle_halted_def live_bundle_def same_text_simps [OF same] by simp
  ultimately show ?thesis unfolding text_inv_def same_text_simps [OF same] by simp
qed

lemma text_inv_frame: "frame nap nap' \<Longrightarrow> text_inv nap' = text_inv nap"
proof -
  assume "frame nap nap'"
  then obtain vm lg where n: "nap' = nap\<lparr> mem_map := vm, host_log := lg \<rparr>" by (auto simp: frame_def)
  have "nap' = nap\<lparr> mem_map := vm, host_log := lg, break_addr := break_addr nap \<rparr>" by (simp add: n)
  then show ?thesis by (simp only: text_inv_memory)
qed

lemma text_inv_brk_frame: "brk_frame nap nap' \<Longrightarrow> text_inv nap' = text_inv nap"
  unfolding brk_frame_def by (elim exE conjE) (simp only: text_inv_memory)

lemma host_logs: "host os nap c = (r, nap') \<Longrightarrow> wx_ok c \<Longrightarrow> logs nap nap'"
  by (auto simp: host_def intro: logs_call)

lemma logs_map [simp]: "logs nap (nap'\<lparr> mem_map := vm \<rparr>) = logs nap nap'" "logs (nap\<lparr> mem_map := vm \<rparr>) nap' = logs nap nap'"
  "logs nap (nap'\<lparr> break_addr := b \<rparr>) = logs nap nap'"
  by (simp_all add: logs_def)

lemma MunmapInternal_logs: "MunmapInternal os nap a n = Inr (nap', r) \<Longrightarrow> logs nap nap'"
  by (auto simp: MunmapInternal_def host_def Let_def run_simps logs_def split: if_splits)

lemma Munmap_logs: "NaClSysMunmap os nap start len = Inr (nap', r) \<Longrightarrow> logs nap nap'"
  by (auto simp: NaClSysMunmap_def Let_def run_simps logs_refl dest: MunmapInternal_logs split: if_splits)

lemma logs_wx [simp]: "host_log n = host_log nap @ [HostMprotect a l (PROT_READ OR PROT_WRITE)] \<Longrightarrow> logs nap n"
  by (erule logs_call) simp

lemma brk_grow_logs: "brk_grow os nap nb = Inr (nap', ok) \<Longrightarrow> logs nap nap'"
proof (erule leadsD [rotated])
  show "leads (logs nap) (brk_grow os nap nb)"
    unfolding brk_grow_def Let_def host_def split_def
    by (intro leads_intros) (simp_all add: logs_refl)
qed

lemma Brk_logs: "NaClSysBrk os nap nb = Inr (nap', r) \<Longrightarrow> logs nap nap'"
  by (auto simp: NaClSysBrk_def Let_def host_def run_simps logs_refl dest!: brk_grow_logs
      intro: logs_trans [OF _ logs_call] split: if_splits)

text \<open>The protections that the memory calls ask for.\<close>

lemma NaClProtMap_data:
  assumes "NOT (PROT_READ OR PROT_WRITE) AND pr = 0"
  shows "NaClProtMap pr AND PROT_EXEC = 0" and "pr AND PROT_EXEC = 0"
proof -
  have "(NOT (PROT_READ OR PROT_WRITE) AND pr) AND PROT_EXEC = pr AND (NOT (PROT_READ OR PROT_WRITE) AND PROT_EXEC)"
    by (simp only: and.assoc and.commute and.left_commute)
  also have "NOT (PROT_READ OR PROT_WRITE) AND PROT_EXEC = PROT_EXEC" by simp
  finally have "pr AND PROT_EXEC = (NOT (PROT_READ OR PROT_WRITE) AND pr) AND PROT_EXEC" by (rule sym)
  with assms show pr: "pr AND PROT_EXEC = 0" by simp
  have "(1 :: u32) AND 4 = 0" "(2 :: u32) AND 4 = 0" "(3 :: u32) AND 4 = 0" by simp_all
  with pr show "NaClProtMap pr AND PROT_EXEC = 0" by (simp add: NaClProtMap_def Let_def)
qed

lemma entry_logs:
  assumes "hp AND PROT_EXEC = 0" and "mprotect_entry os nap hp e = Inr nap'"
  shows "logs nap nap'"
proof -
  have "logs nap (nap\<lparr> host_log := host_log nap @ [HostMprotect a n hp] \<rparr>)" for a n
    by (rule logs_call [where c = "HostMprotect a n hp"]) (simp_all add: assms(1))
  then have "leads (logs nap) (andThen (mprotect_entry os nap hp e) (\<lambda>n. Inr (n, ())))"
    unfolding mprotect_entry_def Let_def host_def split_def andThen_assoc
    by (intro leads_intros) (auto simp: logs_refl leads_def split: if_splits)
  from leadsD [OF this] assms(2) show ?thesis by simp
qed

lemma mprotect_loop_logs:
  assumes "hp AND PROT_EXEC = 0" and "mprotect_loop os q hp es nap entry = Inr (nap', e)"
  shows "logs nap nap'"
  using assms(2)
proof (induction es arbitrary: nap entry)
  case (Cons a es)
  then show ?case
    by (auto simp: run_simps logs_refl split: if_splits intro: logs_trans [OF entry_logs [OF assms(1)]])
qed (simp add: logs_refl)

lemma logs_prefix: "leads (logs n) r \<Longrightarrow> logs nap n \<Longrightarrow> leads (logs nap) r"
  by (auto simp: leads_def intro: logs_trans)

lemma Mprotect_logs: "NaClSysMprotect os ops nap start len pr = Inr (nap', r) \<Longrightarrow> logs nap nap'"
proof (erule leadsD [rotated])
  have int: "leads (logs nap) (MprotectInternal os n a l pr)"
    if "NOT (PROT_READ OR PROT_WRITE) AND pr = 0" "host_log n = host_log nap" for n a l
  proof (rule logs_prefix [OF _ logs_refl [OF that(2)]])
    note x = NaClProtMap_data(1) [OF that(1)]
    show "leads (logs n) (MprotectInternal os n a l pr)"
      unfolding MprotectInternal_def Let_def split_def
      by (intro leads_intros) (auto dest: mprotect_loop_logs [OF x])
  qed
  show "leads (logs nap) (NaClSysMprotect os ops nap start len pr)"
    unfolding NaClSysMprotect_def NaClSysMprotectInternal_def Let_def split_def
    by (intro leads_intros int) (simp_all add: logs_refl)
qed

lemma data_map_logs:
  assumes "pr AND PROT_EXEC = 0" and "mmap_data_map os nap plan a pr fl ndp off = Inr (nap', r)"
  shows "logs nap nap'"
proof -
  have "logs nap (nap\<lparr> host_log := host_log nap @
      [case ndp of None \<Rightarrow> HostMapAnon a (plan_length plan) pr fl off
       | Some d \<Rightarrow> HostMapDesc d a (size_min (plan_length plan) (plan_file_bytes plan)) pr fl off] \<rparr>)"
    by (rule logs_call, simp) (simp add: assms(1) split: option.split)
  then have "leads (logs nap) (mmap_data_map os nap plan a pr fl ndp off)"
    unfolding mmap_data_map_def Let_def host_def split_def
    by (intro leads_intros) (simp_all add: logs_refl)
  from leadsD [OF this assms(2)] show ?thesis .
qed

lemma data_logs:
  assumes "pr AND PROT_EXEC = 0"
  shows "leads (logs nap) (mmap_data os nap plan u a pr fl ndp off)"
proof -
  have tail: "logs nap n2" if "(if c then MunmapInternal os n1 x y else Inr (n1, 0)) = Inr (n2, r)" "logs nap n1"
    for c n1 n2 x y and r :: u32
    using that(1) logs_trans [OF that(2) MunmapInternal_logs] that(2) by (auto split: if_splits)
  show ?thesis
    unfolding mmap_data_def Let_def
  proof (rule leads_intros(3))
    fix x assume x: "mmap_data_map os nap plan a pr fl ndp off = Inr x"
    obtain n1 failed where x1: "x = (n1, failed)" by (cases x)
    note l1 = data_map_logs [OF assms x [unfolded x1]]
    show "leads (logs nap) (case x of (nap, failed) \<Rightarrow> (case failed of
        Some map_result \<Rightarrow> Inr (nap, map_result)
      | None \<Rightarrow>
          andThen (if plan_length plan < plan_alloc_length plan
                   then MunmapInternal os nap (a + plan_length plan) (plan_alloc_length plan - plan_length plan)
                   else Inr (nap, 0)) (\<lambda>(nap, ret).
          if ret \<noteq> 0 then Inr (nap, scast ret)
          else
            andThen
              (if plan_alloc_length plan > 0 then
                 andThen (NaClSysToUser nap a) (\<lambda>usr.
                 andThen (NaClVmmapAddWithOverwrite (mem_map nap) (drop_bit NACL_PAGESHIFT usr)
                            (drop_bit NACL_PAGESHIFT (plan_alloc_length plan)) pr fl ndp off (plan_file_size plan)) (\<lambda>vm.
                 Inr (nap\<lparr> mem_map := vm \<rparr>)))
               else Inr nap) (\<lambda>nap.
            Inr (nap, u)))))"
    proof (cases failed)
      case (Some e)
      with l1 x1 show ?thesis by (simp add: leads_def)
    next
      case None
      show ?thesis
        unfolding x1 None split_def fst_conv snd_conv option.case
      proof (intro leads_intros)
        fix y
        assume y: "(if plan_length plan < plan_alloc_length plan
          then MunmapInternal os n1 (a + plan_length plan) (plan_alloc_length plan - plan_length plan)
          else Inr (n1, 0)) = Inr y"
        then have "(if plan_length plan < plan_alloc_length plan
          then MunmapInternal os n1 (a + plan_length plan) (plan_alloc_length plan - plan_length plan)
          else Inr (n1, 0)) = Inr (fst y, snd y)" by simp
        from tail [OF this l1] have l2: "logs nap (fst y)" .
        then show "logs nap (fst y)" .
        fix z
        assume "(if plan_alloc_length plan > 0 then
                 andThen (NaClSysToUser (fst y) a) (\<lambda>usr.
                 andThen (NaClVmmapAddWithOverwrite (mem_map (fst y)) (drop_bit NACL_PAGESHIFT usr)
                            (drop_bit NACL_PAGESHIFT (plan_alloc_length plan)) pr fl ndp off (plan_file_size plan)) (\<lambda>vm.
                 Inr ((fst y)\<lparr> mem_map := vm \<rparr>)))
               else Inr (fst y)) = Inr z"
        then show "logs nap z" using l2 by (auto simp: run_simps split: if_splits)
      qed
    qed
  qed
qed

lemma code_only: "leads (text_only nap) (mmap_code os ops alloc validator nap u a len d off)"
proof -
  have call: "text_only nap n \<Longrightarrow> wx_ok c \<Longrightarrow> text_only nap (n\<lparr> host_log := host_log n @ [c] \<rparr>)" for n c
    using text_only_trans text_only_call by blast
  have region: "NaClDynamicRegionCreate alloc n s l True = Inr (n1, ok) \<Longrightarrow> text_only nap n \<Longrightarrow> text_only nap n1" for n s l n1 ok
    using RegionCreate_only text_only_trans by blast
  have unmap: "NaClDescUnmapUnsafe os n s l = Inr n2 \<Longrightarrow> text_only nap n \<Longrightarrow> text_only nap n2" for n n2 s l
    using DescUnmap_only text_only_trans by blast
  have create: "NaClTextDyncodeCreate os alloc validator n dest code sz md = Inr (n1, rv) \<Longrightarrow> text_only nap n \<Longrightarrow>
      text_only nap n1" for n dest code sz md n1 rv
    using Create_only text_only_trans by blast
  show ?thesis
    unfolding mmap_code_def Let_def host_def split_def
    by (intro leads_intros) (auto intro!: call intro: unmap [OF _ region [OF _ call]] region [OF _ call] create [OF _ call])
qed

lemma mmap_body_logs: "leads (logs nap) (mmap_body os ops alloc validator nap start len pr fl ndp off)"
proof -
  have pr: "(pr AND NOT PROT_EXEC) AND PROT_EXEC = 0" by (rule bit_word_eqI) (simp add: bit_simps)
  have place: "host_log (fst x) = host_log nap" if "mmap_place nap start al fl = Inr x" for al x
    using that by (auto simp: mmap_place_def Let_def run_simps split: if_splits prod.splits)
  show ?thesis
    unfolding mmap_body_def split_def
  proof (intro leads_intros)
    fix checked
    show "leads (logs nap) (case checked of
       Inl e \<Rightarrow> Inr (nap, e)
     | Inr plan \<Rightarrow>
         andThen (mmap_place nap start (plan_alloc_length plan) fl) (\<lambda>x.
         case snd x of
           Inl e \<Rightarrow> Inr (fst x, e)
         | Inr usraddr \<Rightarrow>
             andThen (mmap_range_check ops (fst x) plan usraddr ndp fl) (\<lambda>refused.
             case refused of
               Some e \<Rightarrow> Inr (fst x, e)
             | None \<Rightarrow>
                 andThen (NaClUserToSys (fst x) usraddr) (\<lambda>sysaddr.
                 if plan_code plan \<and> plan_length plan > 0 then
                   case ndp of
                     None \<Rightarrow> Inl NullDeref
                   | Some d \<Rightarrow> mmap_code os ops alloc validator (fst x) usraddr sysaddr (plan_length plan) d off
                 else
                   mmap_data os (fst x) plan usraddr sysaddr (pr AND NOT PROT_EXEC) (fl OR MAP_FIXED) ndp off))))"
    proof (cases checked)
      case (Inr plan)
      have go: "leads (logs nap) (case refused of
               Some e \<Rightarrow> Inr (n, e)
             | None \<Rightarrow>
                 andThen (NaClUserToSys n usraddr) (\<lambda>sysaddr.
                 if plan_code plan \<and> plan_length plan > 0 then
                   case ndp of
                     None \<Rightarrow> Inl NullDeref
                   | Some d \<Rightarrow> mmap_code os ops alloc validator n usraddr sysaddr (plan_length plan) d off
                 else
                   mmap_data os n plan usraddr sysaddr (pr AND NOT PROT_EXEC) (fl OR MAP_FIXED) ndp off))"
        if n: "host_log n = host_log nap" for n :: "'a NaClTextApp_scheme" and refused usraddr
      proof -
        have code: "leads (logs nap) (mmap_code os ops alloc validator n u a l d off)" for u a l d
          using code_only [of n os ops alloc validator u a l d off] logs_trans [OF logs_refl [OF n]]
          by (auto simp: leads_def text_only_def)
        show ?thesis
          by (cases refused; cases ndp)
            (auto intro!: leads_intros logs_refl n code logs_prefix [OF data_logs [OF pr]])
      qed
      show ?thesis
        unfolding Inr sum.case
      proof (intro leads_intros)
        fix x assume x: "mmap_place nap start (plan_alloc_length plan) fl = Inr x"
        note n = place [OF x]
        show "leads (logs nap) (case snd x of
           Inl e \<Rightarrow> Inr (fst x, e)
         | Inr usraddr \<Rightarrow>
             andThen (mmap_range_check ops (fst x) plan usraddr ndp fl) (\<lambda>refused.
             case refused of
               Some e \<Rightarrow> Inr (fst x, e)
             | None \<Rightarrow>
                 andThen (NaClUserToSys (fst x) usraddr) (\<lambda>sysaddr.
                 if plan_code plan \<and> plan_length plan > 0 then
                   case ndp of
                     None \<Rightarrow> Inl NullDeref
                   | Some d \<Rightarrow> mmap_code os ops alloc validator (fst x) usraddr sysaddr (plan_length plan) d off
                 else
                   mmap_data os (fst x) plan usraddr sysaddr (pr AND NOT PROT_EXEC) (fl OR MAP_FIXED) ndp off)))"
          by (cases "snd x") (auto intro!: leads_intros go [OF n] logs_refl [OF n])
      qed
    qed (simp add: leads_intros logs_refl)
  qed
qed

subsection \<open>Mapping code\<close>

lemma text_inv_log: "text_inv (nap\<lparr> host_log := lg \<rparr>) = text_inv nap"
  by (rule text_inv_frame [OF frame_log])

lemma mmap_region_inv:
  assumes "text_inv nap" and "0 < unat n" and "unat start + unat n < 2 ^ 64"
    and "NaClDynamicRegionCreate alloc nap start n True = Inr (nap', ok)"
  shows "text_inv nap'"
proof -
  note inv = text_invD [OF assms(1)]
  note c = Create_result [OF inv(5) assms(2-4)]
  have set: "set (dynamic_regions nap') = (if ok then insert (new_region start n True) (set (dynamic_regions nap))
      else set (dynamic_regions nap))" using c by blast
  obtain sp rs' where n': "nap' = (if ok then nap\<lparr> dynamic_regions_allocated := sp, dynamic_regions := rs' \<rparr>
       else nap\<lparr> dynamic_regions_allocated := sp \<rparr>)" using c by blast
  then have same: "same_text nap nap'" by (auto simp: same_text_def)
  have gen: "dynamic_delete_generation nap' = dynamic_delete_generation nap"
    "thread_generations nap' = thread_generations nap" using n' by auto
  show ?thesis
  proof (rule text_inv_regions [OF assms(1) same])
    show "regions_ok (dynamic_regions nap')" using c by blast
    show "in_area nap r" if "r \<in> set (dynamic_regions nap')" "\<not> is_mmap r" for r
      using that inv(6) unfolding set by (auto simp: new_region_def split: if_splits)
    show "generations_ok nap'"
      using inv(7) unfolding generations_ok_def gen set by (auto simp: new_region_def)
    show "bundle_halted nap k" if "live_bundle nap k" "\<not> live_bundle nap' k" for k
    proof -
      have "set (dynamic_regions nap) \<subseteq> set (dynamic_regions nap')" unfolding set by auto
      with that show ?thesis unfolding live_bundle_def same_text_simps [OF same] by blast
    qed
  qed
qed

text \<open>A trusted mapping of a file shows as many bytes as it has.\<close>

definition images_ok :: "'md DescOps \<Rightarrow> bool" where
  "images_ok ops \<longleftrightarrow> (\<forall>lg a n. length (DescOps.image ops lg a n) = unat n)"

lemma unat_ucast_small: "unat x < 2 ^ 32 \<Longrightarrow> unat (ucast (x :: u64) :: u32) = unat x"
  by (simp add: unsigned_ucast_eq take_bit_nat_eq_self)

lemma code_inv:
  fixes nap :: "'a NaClTextApp_scheme"
  assumes "text_inv nap" and "maps_ok os" and "keeps_code validator" and "images_ok ops"
    and "0 < unat len" and "unat u + unat len < 2 ^ 32" and "unat u + unat len \<le> 2 ^ addr_bits nap"
  shows "leads text_inv (mmap_code os ops alloc validator nap u a len d off)"
proof -
  have space: "space_ok nap" using text_invD(1) [OF assms(1)] by (simp add: layout_ok_def)
  have log: "text_inv n \<Longrightarrow> text_inv (n\<lparr> host_log := host_log n @ [c] \<rparr>)" for n :: "'a NaClTextApp_scheme" and c
    by (simp add: text_inv_log)
  have region: "text_inv (fst x)" if "NaClUserToSys (nap\<lparr> host_log := lg \<rparr>) u = Inr start"
    "NaClDynamicRegionCreate alloc (nap\<lparr> host_log := lg \<rparr>) start len True = Inr x" for x lg start
  proof -
    have ua: "user_addr nap (unat u)" using assms(5,7) by (simp add: user_addr_def)
    have "NaClUserToSys (nap\<lparr> host_log := lg \<rparr>) u = NaClUserToSys nap u"
      by (simp add: NaClUserToSys_def addr_limit_def)
    with that(1) UserToSys_iff [OF space, of u] have "start = mem_start nap + u" by (simp split: if_splits)
    then have lt: "unat start + unat len < 2 ^ 64"
      using unat_mem_start_add [OF space ua] space assms(7) by (simp add: space_ok_def)
    have inv: "text_inv (nap\<lparr> host_log := lg \<rparr>)" using assms(1) by (simp add: text_inv_log)
    have "NaClDynamicRegionCreate alloc (nap\<lparr> host_log := lg \<rparr>) start len True = Inr (fst x, snd x)"
      using that(2) by simp
    from mmap_region_inv [OF inv assms(5) lt this] show ?thesis .
  qed
  have unmap: "text_inv n2" if "NaClDescUnmapUnsafe os n1 x y = Inr n2" "text_inv n1" for n1 n2 :: "'a NaClTextApp_scheme" and x y
    using that log by (auto simp: NaClDescUnmapUnsafe_def host_def split: if_splits)
  have create: "text_inv (fst x)" if "NaClTextDyncodeCreate os alloc validator (nap\<lparr> host_log := lg \<rparr>) (ucast u)
      (snd (Validate validator u (DescOps.image ops lg2 m len) False True md c)) (ucast len) None = Inr x" for x lg lg2 m md c
  proof -
    have l: "unat (ucast len :: u32) = unat len" "unat (ucast u :: u32) = unat u"
      using assms(6) by (simp_all add: unat_ucast_small)
    have n: "length (snd (Validate validator u (DescOps.image ops lg2 m len) False True md c)) = unat (ucast len :: u32)"
      using assms(3,4) l(1) by (simp add: keeps_code_def images_ok_def)
    have lt: "unat (ucast u :: u32) + unat (ucast len :: u32) < 2 ^ 32" using assms(6) by (simp add: l)
    have inv: "text_inv (nap\<lparr> host_log := lg \<rparr>)" using assms(1) by (simp add: text_inv_log)
    from run_okD [OF create_result [OF inv assms(2,3) n lt] that] show ?thesis by (simp add: split_def)
  qed
  show ?thesis
    unfolding mmap_code_def Let_def host_def split_def
    by (intro leads_intros)
      (simp_all only: fst_conv snd_conv,
        (rule assms(1) | rule log | erule (1) region | erule create | erule unmap)+)
qed

lemma round_alloc_ge:
  assumes "\<not> NaClRoundAllocPage x < s" and "s \<noteq> 0"
  shows "unat x \<le> unat (NaClRoundAllocPage x)"
proof (cases "unat x + 65535 < 2 ^ 64")
  case True
  have "unat x \<le> (unat x + 65535) div 65536 * 65536" by simp
  then show ?thesis using round_nat(2) [OF True] by simp
next
  case False
  have "unat (x + 65535) = (unat x + 65535) mod 2 ^ 64" by (simp add: unat_word_ariths)
  also have "\<dots> = unat x + 65535 - 2 ^ 64" using False unat_lt64 [of x] by (simp add: le_mod_geq)
  finally have "unat (x + 65535) < 65536" using unat_lt64 [of x] False by simp
  then have "unat (NaClRoundAllocPage x) = 0"
    by (simp add: NaClRoundAllocPage_def mask_numerals unat_and_not_mask add_diff_eq [symmetric])
  then have "NaClRoundAllocPage x = 0" by (simp add: unat_eq_0)
  with assms show ?thesis by (simp add: word_gt_0)
qed

lemma allowed_space:
  assumes "NaClSysCommonAddrRangeInAllowedDynamicCodeSpace nap start len" and "dynamic_text_start nap \<noteq> 0"
  shows "dynamic_text_start nap \<le> start" and "unat start + unat len \<le> unat (dynamic_text_end nap)"
proof -
  let ?e = "start + len"
  have a: "\<not> ?e < start" "\<not> NaClRoundAllocPage ?e < start" "dynamic_text_start nap \<le> start"
    "NaClRoundAllocPage ?e \<le> dynamic_text_end nap"
    using assms(1) by (auto simp: NaClSysCommonAddrRangeInAllowedDynamicCodeSpace_def Let_def split: if_splits)
  show "dynamic_text_start nap \<le> start" by (rule a(3))
  have s0: "start \<noteq> 0" using a(3) assms(2) by (metis word_le_0_iff)
  have "unat start + unat len < 2 ^ 64"
  proof (rule ccontr)
    assume "\<not> unat start + unat len < 2 ^ 64"
    then have "?e < start" using no_olen_add_nat [of start len] by (simp add: word_le_nat_alt word_less_nat_alt not_le)
    with a(1) show False ..
  qed
  then have "unat ?e = unat start + unat len" by (intro unat_add_small) simp
  then show "unat start + unat len \<le> unat (dynamic_text_end nap)"
    using round_alloc_ge [OF a(2) s0] a(4) by (simp add: word_le_nat_alt)
qed

lemma code_checks:
  assumes "mmap_mapping_code nap start len pr fl ndp = Inr True" and "unat len < 2 ^ 32"
    and "mmap_checks ops nap start len pr fl ndp off = Inr (Inr plan)"
  shows "plan_code plan" and "plan_alloc_length plan = len" and "0 < plan_length plan" and "plan_length plan \<le> len"
proof -
  obtain d where d: "ndp = Some d" using assms(1) by (auto simp: mmap_mapping_code_def split: if_splits)
  have guards: "NaClRoundAllocPage len = len" "len \<noteq> 0" "\<not> off <s 0"
    and "\<exists>sizes. mmap_file_sizes ops nap ndp off = Inr sizes \<and> (case sizes of
              Inl e \<Rightarrow> Inr (Inl e)
            | Inr (fsz, file_bytes, host_rounded_file_bytes) \<Rightarrow>
                if file_bytes < len
                then Inr (Inl (neg_errno64 EINVAL))
                else Inr (Inr \<lparr> plan_code = True, plan_alloc_length = NaClRoundAllocPage len,
                       plan_length = size_min (NaClRoundAllocPage len) host_rounded_file_bytes,
                       plan_file_size = fsz, plan_file_bytes = file_bytes \<rparr>)) = (Inr (Inr plan) :: (u64 + mmap_plan) run)"
    using assms(3) by (simp_all add: mmap_checks_def assms(1) Let_def andThen_eq_Inr split: if_splits)
  then obtain sizes where sz: "mmap_file_sizes ops nap ndp off = Inr sizes" and "(case sizes of
              Inl e \<Rightarrow> Inr (Inl e)
            | Inr (fsz, file_bytes, host_rounded_file_bytes) \<Rightarrow>
                if file_bytes < len
                then Inr (Inl (neg_errno64 EINVAL))
                else Inr (Inr \<lparr> plan_code = True, plan_alloc_length = NaClRoundAllocPage len,
                       plan_length = size_min (NaClRoundAllocPage len) host_rounded_file_bytes,
                       plan_file_size = fsz, plan_file_bytes = file_bytes \<rparr>)) = (Inr (Inr plan) :: (u64 + mmap_plan) run)"
    by blast
  then obtain fsz fb hb where "sizes = Inr (fsz, fb, hb)" and
    c: "plan = \<lparr> plan_code = True, plan_alloc_length = NaClRoundAllocPage len,
       plan_length = size_min (NaClRoundAllocPage len) hb, plan_file_size = fsz, plan_file_bytes = fb \<rparr>"
    "\<not> fb < len"
    by (cases sizes) (auto split: if_splits)
  note sz = sz [unfolded this(1)]
  show "plan_code plan" "plan_alloc_length plan = len" "plan_length plan \<le> len"
    using c(1) guards(1) size_min_left [of len hb] by simp_all
  from sz d have f: "\<not> fsz <s off" "fb = fsz - off"
    "hb = (if kMaxUsableFileSize <s fb then kMaxUsableFileSize else NaClRoundPage fb)"
    by (auto simp: mmap_file_sizes_def Let_def run_simps NaClRoundHostAllocPage_def split: if_splits prod.splits)
  have "\<not> kMaxUsableFileSize <s fb" using kMax_top [of fb] by (simp add: word_sle_eq word_sless_alt)
  with f(3) have hb: "hb = NaClRoundPage fb" by simp
  have small: "unat fb < 2 ^ 63"
  proof -
    have s: "0 \<le> sint off" "sint off \<le> sint fsz" "sint fsz < 2 ^ 63"
      using guards(3) f(1) sint_lt [of fsz] by (simp_all add: word_sless_alt)
    have "sint off < 2 ^ 63" using s by linarith
    have "uint x = sint x" if "0 \<le> sint x" for x :: u64
    proof -
      have "sint x < 2 ^ 63" using sint_lt [of x] by simp
      then have "take_bit LENGTH(64) (sint x) = sint x" using that by (intro take_bit_int_eq_self) simp_all
      then show ?thesis by (simp only: uint_sint)
    qed
    from this [of off] this [of fsz] have u: "uint off = sint off" "uint fsz = sint fsz" using s by linarith+
    then have le: "uint off \<le> uint fsz" using s by linarith
    have "uint (fsz - off) = uint fsz - uint off" by (simp only: uint_sub_if' le if_True)
    moreover have "0 \<le> uint off" by simp
    ultimately have "uint fb \<le> sint fsz" unfolding f(2) u(2) [symmetric] by simp
    then have "uint fb < 2 ^ 63" using s(3) by (rule le_less_trans)
    moreover have "unat fb = nat (uint fb)" by simp
    moreover have "nat (2 ^ 63 :: int) = 2 ^ 63" by simp
    moreover have "0 \<le> uint fb" by simp
    ultimately show ?thesis using nat_less_eq_zless [of "uint fb" "2 ^ 63"] by metis
  qed
  have "unat len \<le> unat fb" using guards(1) c(2) by (simp add: word_less_nat_alt)
  moreover have "0 < unat len" using guards(2) by (simp add: unat_gt_0)
  moreover have "unat fb \<le> unat hb" unfolding hb using small by (subst round_nat(1)) simp_all
  ultimately have "0 < unat hb" by linarith
  then show "0 < plan_length plan" using c(1) guards(1,2) by (simp add: size_min_def word_gt_0 unat_gt_0)
qed

lemma body_code:
  fixes nap :: "'a NaClTextApp_scheme"
  assumes "text_inv nap" and "maps_ok os" and "keeps_code validator" and "images_ok ops" and "unat len < 2 ^ 32"
    and "mmap_mapping_code nap start len pr fl ndp = Inr True" and "unat (dynamic_text_end nap) < 2 ^ 32"
  shows "leads (\<lambda>n. text_inv n \<and> text_only nap n) (mmap_body os ops alloc validator nap start len pr fl ndp off)"
proof -
  let ?P = "\<lambda>n. text_inv n \<and> text_only nap n"
  have args: "fl AND MAP_FIXED \<noteq> 0" "NaClSysCommonAddrRangeInAllowedDynamicCodeSpace nap start len"
    and d: "ndp \<noteq> None"
    using assms(6) by (auto simp: mmap_mapping_code_def and.commute split: if_splits)
  have layout: "dynamic_text_start nap \<noteq> 0" "unat (dynamic_text_end nap) \<le> 2 ^ addr_bits nap"
    using text_invD(1) [OF assms(1)] by (auto simp: layout_ok_def)
  note range = allowed_space [OF args(2) layout(1)]
  have P: "?P nap" using assms(1) by simp
  show ?thesis
    unfolding mmap_body_def
  proof (rule leads_intros(3))
    fix checked assume c: "mmap_checks ops nap start len pr fl ndp off = Inr checked"
    show "leads ?P (case checked of
       Inl e \<Rightarrow> Inr (nap, e)
     | Inr plan \<Rightarrow>
         andThen (mmap_place nap start (plan_alloc_length plan) fl) (\<lambda>(nap, place).
         case place of
           Inl e \<Rightarrow> Inr (nap, e)
         | Inr usraddr \<Rightarrow>
             andThen (mmap_range_check ops nap plan usraddr ndp fl) (\<lambda>refused.
             case refused of
               Some e \<Rightarrow> Inr (nap, e)
             | None \<Rightarrow>
                 andThen (NaClUserToSys nap usraddr) (\<lambda>sysaddr.
                 if plan_code plan \<and> plan_length plan > 0 then
                   case ndp of
                     None \<Rightarrow> Inl NullDeref
                   | Some d \<Rightarrow> mmap_code os ops alloc validator nap usraddr sysaddr (plan_length plan) d off
                 else
                   mmap_data os nap plan usraddr sysaddr (pr AND NOT PROT_EXEC) (fl OR MAP_FIXED) ndp off))))"
    proof (cases checked)
      case (Inl e)
      with P show ?thesis by (simp add: leads_def)
    next
      case (Inr plan)
      note cc = code_checks [OF assms(6,5) c [unfolded Inr]]
      have "unat (plan_length plan) \<le> unat len" using cc(4) by (simp add: word_le_nat_alt)
      then have fit: "0 < unat (plan_length plan)" "unat start + unat (plan_length plan) < 2 ^ 32"
        "unat start + unat (plan_length plan) \<le> 2 ^ addr_bits nap"
        using range(2) layout(2) assms(7) cc(3) by (simp_all add: word_less_nat_alt)
      have "leads ?P (mmap_code os ops alloc validator nap start a (plan_length plan) d off)" for a d
        using code_inv [OF assms(1-4) fit, of alloc a d off]
          code_only [of nap os ops alloc validator start a "plan_length plan" d off]
        by (simp add: leads_def)
      with P show ?thesis
        using args(1) cc(1,3) d by (auto simp: Inr mmap_place_def intro!: leads_intros split: option.split)
    qed
  qed
qed

text \<open>The whole call, whatever it maps.\<close>

lemma Mmap_logs:
  assumes "NaClSysMmapIntern os ops alloc validator nap start len pr fl d off = Inr (nap', r)"
  shows "logs nap nap'"
proof -
  have get: "logs nap (fst x)" if "(if c then Inr (nap, None) else NaClAppGetDesc nap d) = Inr x" for x c
    using that by (auto simp: NaClAppGetDesc_def NaClAppGetDescMu_def run_simps logs_refl split: if_splits)
  have body: "logs nap (fst y)" if "(if c then Inr (n1, e) else mmap_body os ops alloc validator n1 start len pr fl' ndp off) = Inr y"
    "logs nap n1" for c n1 e y ndp fl'
  proof -
    have "leads (logs n1) (Inr y)"
      unfolding that(1) [symmetric] by (intro leads_intros mmap_body_logs) (simp add: logs_refl)
    from logs_trans [OF that(2)] leadsD [OF this] show ?thesis by (cases y) auto
  qed
  have refs: "logs nap (with_refs f n) = logs nap n" for f n by (simp add: logs_def)
  have "leads (logs nap) (NaClSysMmapIntern os ops alloc validator nap start len pr fl d off)"
    unfolding NaClSysMmapIntern_def Let_def split_def
    by (intro leads_intros) (simp only: refs, erule body, erule get)
  from leadsD [OF this assms] show ?thesis .
qed

end
