(* ===== verification/Sandbox.thy ===== *)
theory Sandbox
  imports Sandbox_Steps
begin

text \<open>
  The sandbox as a state machine whose steps are the system calls on memory and on dynamic code,
  and the invariant that every call keeps.
\<close>

subsection \<open>The invariant\<close>

text \<open>No page above the text is executable, as far as the memory map says.\<close>

definition data_not_exec :: "'a NaClApp_scheme \<Rightarrow> bool" where
  "data_not_exec nap \<longleftrightarrow> (\<forall>p v. unat (dynamic_text_end nap) \<le> p * 4096 \<and> page_at (mem_map nap) p = Some v \<longrightarrow>
     pv_prot v AND PROT_EXEC = 0)"

text \<open>The break lies above the text.\<close>

definition break_ok :: "'a NaClApp_scheme \<Rightarrow> bool" where
  "break_ok nap \<longleftrightarrow> dynamic_text_end nap < data_end nap \<and> data_end nap \<le> break_addr nap \<and>
     unat (break_addr nap) < 2 ^ addr_bits nap \<and> \<not> pnacl_mode nap"

definition sandbox_inv :: "'a NaClTextApp_scheme \<Rightarrow> bool" where
  "sandbox_inv nap \<longleftrightarrow> text_inv nap \<and> mem_inv nap \<and> table_ok nap \<and> data_not_exec nap \<and> break_ok nap \<and>
     unat (dynamic_text_end nap) < 2 ^ 32"

text \<open>What a call leaves as it is: the pages of the text in the memory map; and it asks the host for
  nothing that is writable and executable.\<close>

definition text_kept :: "'a NaClApp_scheme \<Rightarrow> 'a NaClApp_scheme \<Rightarrow> bool" where
  "text_kept nap nap' \<longleftrightarrow> dynamic_text_end nap' = dynamic_text_end nap \<and> logs nap nap' \<and>
     (\<forall>p. p * 4096 < unat (dynamic_text_end nap) \<longrightarrow> page_at (mem_map nap') p = page_at (mem_map nap) p)"

lemma text_kept_refl: "text_kept nap nap"
  by (simp add: text_kept_def logs_refl)

lemma text_kept_trans: "text_kept a b \<Longrightarrow> text_kept b c \<Longrightarrow> text_kept a c"
  using logs_trans [of a b c] by (simp add: text_kept_def)

subsection \<open>The calls keep the invariant\<close>

text \<open>Calls on dynamic code.\<close>

lemma mem_inv_core: "core a = core b \<Longrightarrow> mem_inv a = mem_inv b"
  using coreD [of a b] by (simp add: mem_inv_def space_ok_def)

lemma sandbox_text_only:
  assumes "sandbox_inv nap" and "text_inv nap'" and "text_only nap nap'"
  shows "sandbox_inv nap' \<and> text_kept nap nap'"
proof -
  have c: "core nap' = core nap" and l: "logs nap nap'" using assms(3) by (simp_all add: text_only_def)
  note eqs = coreD [OF c]
  have "mem_inv nap'" using assms(1) mem_inv_core [OF c] by (simp add: sandbox_inv_def)
  with assms(1,2) have "sandbox_inv nap'"
    by (simp add: sandbox_inv_def table_ok_def data_not_exec_def break_ok_def eqs)
  with l show ?thesis by (simp add: text_kept_def eqs)
qed

text \<open>Calls on memory that keep the frame.\<close>

lemma frame_eqs:
  assumes "frame nap nap'"
  shows "desc_tbl nap' = desc_tbl nap" and "break_addr nap' = break_addr nap" and "data_end nap' = data_end nap"
    and "pnacl_mode nap' = pnacl_mode nap"
  using assms by (auto simp: frame_def)

lemma sandbox_frame:
  fixes nap :: "'a NaClTextApp_scheme"
  assumes "sandbox_inv nap" and "frame nap nap'" and "mem_inv nap'" and "logs nap nap'"
    and "\<And>p. p * 4096 < unat (dynamic_text_end nap) \<Longrightarrow> page_at (mem_map nap') p = page_at (mem_map nap) p"
    and "\<And>p v. unat (dynamic_text_end nap) \<le> p * 4096 \<Longrightarrow> page_at (mem_map nap') p = Some v \<Longrightarrow>
      page_at (mem_map nap) p \<noteq> Some v \<Longrightarrow> pv_prot v AND PROT_EXEC = 0"
  shows "sandbox_inv nap' \<and> text_kept nap nap'"
proof -
  note eqs = frame_simps(1-3) [OF assms(2)] frame_eqs [OF assms(2)]
  have "data_not_exec nap'"
    using assms(1,6) unfolding data_not_exec_def eqs sandbox_inv_def by metis
  moreover have "text_inv nap'" using assms(1) text_inv_frame [OF assms(2)] by (simp add: sandbox_inv_def)
  ultimately have "sandbox_inv nap'"
    using assms(1,3) by (simp add: sandbox_inv_def table_ok_def break_ok_def eqs)
  with assms(4,5) show ?thesis by (simp add: text_kept_def eqs)
qed

lemma sandbox_munmap:
  fixes nap :: "'a NaClTextApp_scheme"
  assumes "sandbox_inv nap" and "unat len < 2 ^ 32" and "errno_set os"
    and "NaClSysMunmap os nap start len = Inr (nap', r)"
  shows "sandbox_inv nap' \<and> text_kept nap nap'"
proof -
  have mem: "mem_inv nap" using assms(1) by (simp add: sandbox_inv_def)
  have m: "frame nap nap'" "mem_inv nap'" "r \<noteq> 0 \<longrightarrow> mem_map nap' = mem_map nap"
    "r = 0 \<longrightarrow> munmapped os nap start (NaClRoundAllocPage len) nap' \<and> data_range nap start (NaClRoundAllocPage len)"
    using munmap_result [OF mem assms(2,3), of start] unfolding assms(4) run_unless_simps prod.case by blast+
  show ?thesis
  proof (rule sandbox_frame [OF assms(1) m(1,2) Munmap_logs [OF assms(4)]])
    show "page_at (mem_map nap') p = page_at (mem_map nap) p" if "p * 4096 < unat (dynamic_text_end nap)" for p
      using m(3,4) that by (cases "r = 0") (auto simp: munmapped_def data_range_def in_bytes_def)
    show "pv_prot v AND PROT_EXEC = 0" if "page_at (mem_map nap') p = Some v" "page_at (mem_map nap) p \<noteq> Some v" for p v
      using m(3,4) that by (cases "r = 0") (auto simp: munmapped_def split: if_splits)
  qed
qed

lemma sandbox_mprotect:
  fixes nap :: "'a NaClTextApp_scheme"
  assumes "sandbox_inv nap" and "unat len < 2 ^ 32" and "len \<noteq> 0" and "access_modes_ok (GetFlags ops)"
    and "NaClSysMprotect os ops nap start len pr = Inr (nap', r)"
  shows "sandbox_inv nap' \<and> text_kept nap nap'"
proof -
  have mem: "mem_inv nap" using assms(1) by (simp add: sandbox_inv_def)
  have m: "frame nap nap'" "mem_inv nap'" "r \<noteq> 0 \<longrightarrow> page_at (mem_map nap') = page_at (mem_map nap)"
    "r = 0 \<longrightarrow> pages_reprotected nap (ucast start) (NaClRoundAllocPage len) pr nap' \<and>
      data_range nap (ucast start) (NaClRoundAllocPage len) \<and> NOT (PROT_READ OR PROT_WRITE) AND pr = 0"
    using mprotect_result [OF mem assms(2-4), of os start pr] unfolding assms(5) run_unless_simps prod.case by blast+
  show ?thesis
  proof (rule sandbox_frame [OF assms(1) m(1,2) Mprotect_logs [OF assms(5)]])
    show "page_at (mem_map nap') p = page_at (mem_map nap) p" if "p * 4096 < unat (dynamic_text_end nap)" for p
    proof (cases "r = 0")
      case True
      then have "\<not> in_bytes (ucast start) (NaClRoundAllocPage len) p"
        using m(4) that by (auto simp: data_range_def in_bytes_def)
      with True m(4) show ?thesis by (simp add: pages_reprotected_def)
    qed (use m(3) in simp)
    show "pv_prot v AND PROT_EXEC = 0" if v: "page_at (mem_map nap') p = Some v" "page_at (mem_map nap) p \<noteq> Some v" for p v
    proof (cases "r = 0")
      case True
      with m(4) have pg: "pages_reprotected nap (ucast start) (NaClRoundAllocPage len) pr nap'"
        and pr: "NOT (PROT_READ OR PROT_WRITE) AND pr = 0" by simp_all
      have "in_bytes (ucast start) (NaClRoundAllocPage len) p"
        using pg v unfolding pages_reprotected_def by metis
      with pg v(1) obtain w where "coarse v = coarse (w\<lparr> pv_prot := pr \<rparr>)"
        unfolding pages_reprotected_def by (metis (no_types, lifting) map_option_eq_Some option.simps(9))
      then have "pv_prot v = pr" by (auto simp: coarse_def dest: arg_cong [where f = pv_prot])
      with NaClProtMap_data(2) [OF pr] show ?thesis by simp
    next
      case False
      with m(3) v show ?thesis by simp
    qed
  qed
qed

lemma brk_bound:
  assumes "space_ok nap" and "NaClSysBrk os nap nb = Inr (nap', r)"
  shows "break_addr nap' = break_addr nap \<or> unat nb < 2 ^ addr_bits nap"
proof (cases "NaClUserToSysAddr nap nb = kNaClBadAddress")
  case True
  with assms(2) show ?thesis by (auto simp: NaClSysBrk_def Let_def split: if_splits)
next
  case False
  then have "\<not> addr_limit nap \<le> nb" by (auto simp: NaClUserToSysAddr_def)
  then show ?thesis using unat_addr_limit(1) [OF assms(1)] by (simp add: word_le_nat_alt)
qed

lemma last_page_above:
  assumes "65536 dvd unat t" and "t < b"
  shows "unat t \<le> last_page b * 4096"
proof -
  obtain k where k: "unat t = 65536 * k" using assms(1) by (auto elim: dvdE)
  have lt: "unat t < unat b" using assms(2) by (simp add: word_less_nat_alt)
  then have "unat (b - 1) = unat b - 1" by (intro unat_minus_one) simp
  then have "16 * k \<le> last_page b"
    using lt k div_le_mono [of "65536 * k" "unat b - 1" 4096] by (simp add: last_page_def)
  then show ?thesis using k by simp
qed

lemma sandbox_brk:
  fixes nap :: "'a NaClTextApp_scheme"
  assumes "sandbox_inv nap" and "NaClSysBrk os nap nb = Inr (nap', r)"
  shows "sandbox_inv nap' \<and> text_kept nap nap'"
proof -
  have inv: "mem_inv nap" "text_inv nap" "table_ok nap" "data_not_exec nap" "break_ok nap" "unat (dynamic_text_end nap) < 2 ^ 32"
    using assms(1) by (simp_all add: sandbox_inv_def)
  have brk: "dynamic_text_end nap < data_end nap" "data_end nap \<le> break_addr nap" "unat (break_addr nap) < 2 ^ addr_bits nap"
    "\<not> pnacl_mode nap" using inv(5) by (simp_all add: break_ok_def)
  have above: "dynamic_text_end nap < break_addr nap" using brk(1,2) by (rule less_le_trans)
  then have pos: "0 < unat (break_addr nap)" by (simp add: word_less_nat_alt)
  have d: "brk_done nap nb nap'"
    using brk_result [OF inv(1) pos brk(3,4), of os nb] unfolding assms(2) run_unless_simps prod.case by blast
  then have f: "brk_frame nap nap'" and pg: "brk_pages nap nap'" and b: "break_addr nap' \<in> {break_addr nap, nb}"
    "data_end nap \<le> break_addr nap'" using brk(2) by (simp_all add: brk_done_def)
  note last = last_page_above [OF mem_invD(3) [OF inv(1)] above]
  have same: "page_at (mem_map nap') p = page_at (mem_map nap) p" if "p * 4096 < unat (dynamic_text_end nap)" for p
  proof (cases "page_at (mem_map nap) p = None \<and> page_at (mem_map nap') p \<noteq> None")
    case True
    with pg have "last_page (break_addr nap) < p" unfolding brk_pages_def by blast
    with last that show ?thesis by linarith
  next
    case False
    with pg show ?thesis unfolding brk_pages_def by metis
  qed
  have "pv_prot v AND PROT_EXEC = 0" if v: "unat (dynamic_text_end nap) \<le> p * 4096" "page_at (mem_map nap') p = Some v" for p v
  proof (cases "page_at (mem_map nap) p")
    case None
    with pg v(2) have "map_option pv_prot (page_at (mem_map nap') p) =
        map_option pv_prot (page_at (mem_map nap) (last_page (break_addr nap)))"
      unfolding brk_pages_def by (metis option.distinct(1))
    with v(2) obtain w where "page_at (mem_map nap) (last_page (break_addr nap)) = Some w" "pv_prot w = pv_prot v"
      by (cases "page_at (mem_map nap) (last_page (break_addr nap))") auto
    with inv(4) last show ?thesis unfolding data_not_exec_def by metis
  next
    case (Some w)
    with pg have "page_at (mem_map nap') p = Some w" unfolding brk_pages_def by (metis option.distinct(1))
    with Some v inv(4) show ?thesis unfolding data_not_exec_def by simp
  qed
  moreover have eqs: "dynamic_text_end nap' = dynamic_text_end nap" "data_end nap' = data_end nap" "addr_bits nap' = addr_bits nap"
    "pnacl_mode nap' = pnacl_mode nap" "desc_tbl nap' = desc_tbl nap"
    using f by (auto simp: brk_frame_def)
  ultimately have "data_not_exec nap'" unfolding data_not_exec_def eqs by blast
  moreover have "break_ok nap'"
    using brk b brk_bound [OF mem_invD(1) [OF inv(1)] assms(2)] by (auto simp: break_ok_def eqs)
  moreover have "mem_inv nap'"
    using brk_inv [OF inv(1)] d by (auto simp: brk_done_def)
  moreover have "text_inv nap'" using inv(2) text_inv_brk_frame [OF f] by simp
  ultimately have "sandbox_inv nap'" using inv(3,6) by (simp add: sandbox_inv_def table_ok_def eqs)
  with same show ?thesis using Brk_logs [OF assms(2)] by (simp add: text_kept_def eqs)
qed

text \<open>\<open>mmap\<close>, of data and of code.\<close>

lemma sandbox_refs:
  "sandbox_inv (with_refs f nap) = sandbox_inv nap"
  "text_kept nap (with_refs f nap') = text_kept nap nap'" "text_kept (with_refs f nap) nap' = text_kept nap nap'"
proof -
  have "text_inv (with_refs f nap) = text_inv nap"
  proof -
    let ?n = "nap\<lparr> mem_map := (mem_map nap)\<lparr> desc_refs := f (desc_refs (mem_map nap)) \<rparr>, host_log := host_log nap,
      break_addr := break_addr nap \<rparr>"
    have "with_refs f nap = ?n" by (simp add: with_refs_def)
    then show ?thesis by (simp only: text_inv_memory)
  qed
  moreover have "data_end (with_refs f nap) = data_end nap" "break_addr (with_refs f nap) = break_addr nap"
    "pnacl_mode (with_refs f nap) = pnacl_mode nap" by (simp_all add: with_refs_def)
  ultimately show "sandbox_inv (with_refs f nap) = sandbox_inv nap"
    by (simp add: sandbox_inv_def data_not_exec_def break_ok_def mem_inv_refs)
  show "text_kept nap (with_refs f nap') = text_kept nap nap'" "text_kept (with_refs f nap) nap' = text_kept nap nap'"
    by (simp_all add: text_kept_def logs_def)
qed

text \<open>What the calls rely on: the host kernel, the validator and the descriptors behave as documented.\<close>

definition environment_ok :: "os \<Rightarrow> 'md DescOps \<Rightarrow> 'md NaClValidatorInterface \<Rightarrow> bool" where
  "environment_ok os ops validator \<longleftrightarrow> linux_host os ops \<and> maps_ok os \<and> keeps_code validator \<and> images_ok ops \<and>
     access_modes_ok (GetFlags ops)"

lemma sandbox_mmap:
  fixes nap :: "'a NaClTextApp_scheme"
  assumes "sandbox_inv nap" and "environment_ok os ops validator" and "unat len < 2 ^ 32"
    and "NaClSysMmapIntern os ops alloc validator nap start len pr fl d off = Inr (nap', r)"
  shows "sandbox_inv nap' \<and> text_kept nap nap'"
proof -
  have inv: "mem_inv nap" "table_ok nap" "text_inv nap" "unat (dynamic_text_end nap) < 2 ^ 32"
    using assms(1) by (simp_all add: sandbox_inv_def)
  have env: "linux_host os ops" "maps_ok os" "keeps_code validator" "images_ok ops"
    using assms(2) by (simp_all add: environment_ok_def)
  define ndp where "ndp = (if fl AND MAP_ANONYMOUS \<noteq> 0 then None else descs nap (unat (scast d :: u64)))"
  show ?thesis
  proof (cases "mmap_mapping_code nap start len pr (mmap_flags fl) ndp = Inr True")
    case False
    have m: "frame nap nap'" "mem_inv nap'" "mmap_done ops nap start len pr fl ndp off nap' r"
      using mmap_result [OF inv(1,2) assms(3) env(1) ndp_def False, of alloc validator off]
      unfolding assms(4) run_unless_simps prod.case by blast+
    have pr: "(pr AND NOT PROT_EXEC) AND PROT_EXEC = 0" by (rule bit_word_eqI) (simp add: bit_simps)
    show ?thesis
    proof (rule sandbox_frame [OF assms(1) m(1,2) Mmap_logs [OF assms(4)]])
      show "page_at (mem_map nap') p = page_at (mem_map nap) p" if "p * 4096 < unat (dynamic_text_end nap)" for p
        using m(3) that by (auto simp: mmap_done_def data_mapped_def data_range_def in_bytes_def split: if_splits)
      show "pv_prot v AND PROT_EXEC = 0" if "page_at (mem_map nap') p = Some v" "page_at (mem_map nap) p \<noteq> Some v" for p v
      proof -
        have "pv_prot v = pr AND NOT PROT_EXEC"
          using m(3) that by (auto simp: mmap_done_def data_mapped_def new_page_def split: if_splits)
        with pr show ?thesis by simp
      qed
    qed
  next
    case True
    then have nd: "ndp \<noteq> None" by (auto simp: mmap_mapping_code_def split: if_splits)
    then have anon: "fl AND MAP_ANONYMOUS = 0" "descs nap (unat (scast d :: u64)) = ndp" by (auto simp: ndp_def split: if_splits)
    let ?n1 = "with_refs (desc_ref ndp) nap"
    have n1: "sandbox_inv ?n1" using assms(1) by (simp only: sandbox_refs(1))
    then have n1': "text_inv ?n1" "unat (dynamic_text_end ?n1) < 2 ^ 32" by (simp_all only: sandbox_inv_def)
    have code: "mmap_mapping_code ?n1 start len pr (mmap_flags fl) ndp = Inr True"
      using True by (simp only: mapping_code_refs)
    have "NaClSysMmapIntern os ops alloc validator nap start len pr fl d off =
        andThen (mmap_body os ops alloc validator ?n1 start len pr (mmap_flags fl) ndp off) (\<lambda>(nap, map_result).
        let nap = with_refs (desc_unref ndp) nap in
        if 0xffffffff < map_result \<and> \<not> NaClPtrIsNegErrno map_result then Inl LogFatal
        else Inr (nap, ucast map_result))"
      using GetDesc_result [OF inv(2), of d] anon(1) anon(2) [symmetric] nd
      unfolding NaClSysMmapIntern_def Let_def mmap_flags_def [symmetric] mmap_flags_simps by auto
    with assms(4) obtain n2 m where b: "mmap_body os ops alloc validator ?n1 start len pr (mmap_flags fl) ndp off = Inr (n2, m)"
      "nap' = with_refs (desc_unref ndp) n2"
      by (auto simp: run_simps Let_def split: if_splits)
    from leadsD [OF body_code [OF n1'(1) env(2-4) assms(3) code n1'(2)] b(1)]
    have "text_inv n2" "text_only ?n1 n2" by simp_all
    from sandbox_text_only [OF n1 this] show ?thesis by (simp add: b(2) sandbox_refs)
  qed
qed

text \<open>The system calls on dynamic code.  A creation whose range ends at 4 GB is excluded: its bound
  check wraps around.\<close>

lemma sandbox_create:
  fixes nap :: "'a NaClTextApp_scheme"
  assumes "sandbox_inv nap" and "environment_ok os ops validator" and "unat dest + unat sz \<noteq> 2 ^ 32"
    and "NaClSysDyncodeCreate os alloc malloc validator user_mem nap dest src sz = Inr (nap', r)"
  shows "sandbox_inv nap' \<and> text_kept nap nap'"
proof -
  have inv: "text_inv nap" "maps_ok os" "keeps_code validator"
    using assms(1,2) by (auto simp: sandbox_inv_def environment_ok_def)
  from assms(4) consider "nap' = nap"
    | a where "NaClTextDyncodeCreate os alloc validator nap dest (read_bytes user_mem a (unat sz)) sz None = Inr (nap', r)"
    by (auto simp: NaClSysDyncodeCreate_def Let_def split: if_splits)
  then show ?thesis
  proof cases
    case 1
    with assms(1) text_kept_refl show ?thesis by simp
  next
    case 2
    have "length (read_bytes user_mem a (unat sz)) = unat sz" by (simp add: read_bytes_def)
    from run_okD [OF create_result_any [OF inv this assms(3)] 2] have "text_inv nap'" by simp
    from sandbox_text_only [OF assms(1) this Create_only [OF 2]] show ?thesis .
  qed
qed

lemma sandbox_delete:
  fixes nap :: "'a NaClTextApp_scheme"
  assumes "sandbox_inv nap" and "environment_ok os ops validator" and "valid_thread nap natp"
    and "NaClSysDyncodeDelete os alloc nap natp dest sz = Inr (nap', r)"
  shows "sandbox_inv nap' \<and> text_kept nap nap'"
proof -
  have inv: "text_inv nap" "maps_ok os" using assms(1,2) by (simp_all add: sandbox_inv_def environment_ok_def)
  from run_okD [OF delete_result [OF inv assms(3)] assms(4)] have "text_inv nap'" by simp
  from sandbox_text_only [OF assms(1) this Delete_only [OF assms(4)]] show ?thesis .
qed

subsection \<open>The state machine\<close>

text \<open>A call that returns, from any thread and with any arguments of the 32-bit system call interface.\<close>

inductive sys_step ::
  "os \<Rightarrow> 'md DescOps \<Rightarrow> 'md NaClValidatorInterface \<Rightarrow> 'a NaClTextApp_scheme \<Rightarrow> 'a NaClTextApp_scheme \<Rightarrow> bool"
  for os ops validator where
  sys_brk: "NaClSysBrk os nap nb = Inr (nap', r) \<Longrightarrow> sys_step os ops validator nap nap'"
| sys_mmap: "NaClSysMmap os ops alloc validator user_mem nap start len pr fl d offp = Inr (nap', r) \<Longrightarrow>
    unat len < 2 ^ 32 \<Longrightarrow> sys_step os ops validator nap nap'"
| sys_munmap: "NaClSysMunmap os nap start len = Inr (nap', r) \<Longrightarrow> unat len < 2 ^ 32 \<Longrightarrow>
    sys_step os ops validator nap nap'"
| sys_mprotect: "NaClSysMprotect os ops nap start32 len pr = Inr (nap', r) \<Longrightarrow> unat len < 2 ^ 32 \<Longrightarrow> len \<noteq> 0 \<Longrightarrow>
    sys_step os ops validator nap nap'"
| sys_dyncode_create: "NaClSysDyncodeCreate os alloc malloc validator user_mem nap dest src sz = Inr (nap', r) \<Longrightarrow>
    unat dest + unat sz \<noteq> 2 ^ 32 \<Longrightarrow> sys_step os ops validator nap nap'"
| sys_dyncode_delete: "NaClSysDyncodeDelete os alloc nap natp dest sz = Inr (nap', r) \<Longrightarrow>
    valid_thread nap natp \<Longrightarrow> sys_step os ops validator nap nap'"

inductive_cases sys_stepE: "sys_step os ops validator nap nap'"

lemma sys_step_inv:
  assumes "sys_step os ops validator nap nap'" and "sandbox_inv nap" and "environment_ok os ops validator"
  shows "sandbox_inv nap' \<and> text_kept nap nap'"
  using assms(1)
proof cases
  case (sys_brk nb r)
  from sandbox_brk [OF assms(2) this] show ?thesis .
next
  case (sys_mmap alloc user_mem start len pr fl d offp r)
  then have "nap' = nap \<or> (\<exists>off. NaClSysMmapIntern os ops alloc validator nap start len pr fl d off = Inr (nap', r))"
    by (auto simp: NaClSysMmap_def Let_def split: if_splits)
  with sandbox_mmap [OF assms(2,3) sys_mmap(2)] assms(2) text_kept_refl show ?thesis by blast
next
  case (sys_munmap start len r)
  have "errno_set os" using assms(3) linux_errno by (auto simp: environment_ok_def)
  from sandbox_munmap [OF assms(2) sys_munmap(2) this sys_munmap(1)] show ?thesis .
next
  case (sys_mprotect start len pr r)
  have "access_modes_ok (GetFlags ops)" using assms(3) by (simp add: environment_ok_def)
  from sandbox_mprotect [OF assms(2) sys_mprotect(2,3) this sys_mprotect(1)] show ?thesis .
next
  case (sys_dyncode_create alloc malloc user_mem dest src sz r)
  from sandbox_create [OF assms(2,3) this(2,1)] show ?thesis .
next
  case (sys_dyncode_delete alloc natp dest sz r)
  from sandbox_delete [OF assms(2,3) this(2,1)] show ?thesis .
qed

lemma sys_reachable_inv:
  assumes "(sys_step os ops validator)\<^sup>*\<^sup>* nap nap'" and "sandbox_inv nap" and "environment_ok os ops validator"
  shows "sandbox_inv nap' \<and> text_kept nap nap'"
  using assms(1)
proof (induction rule: rtranclp_induct)
  case base
  from assms(2) text_kept_refl show ?case by simp
next
  case (step y z)
  with sys_step_inv [OF step.hyps(2) _ assms(3)] text_kept_trans show ?case by blast
qed

subsection \<open>A concrete sandbox and its environment\<close>

definition sample_kernel :: os where
  "sample_kernel lg call = (case call of HostErrno \<Rightarrow> 12 | HostMapAnon a n pr fl off \<Rightarrow> a
     | HostMapDesc d a n pr fl off \<Rightarrow> a
     | HostMapTrusted d n pr fl off \<Rightarrow> if n < 0x10000000000 then 0x7fff00000000 else - 12 | _ \<Rightarrow> 0)"

lemma sample_environment: "environment_ok sample_kernel sample_descs halt_validator"
proof -
  have "linux_host sample_kernel sample_descs"
    by (simp add: linux_host_def sample_kernel_def sample_descs_def)
  moreover have "maps_ok sample_kernel"
  proof -
    have "NaClPtrIsNegErrno (- 12)" by (simp add: NaClPtrIsNegErrno_def)
    then show ?thesis by (auto simp: maps_ok_def sample_kernel_def word_less_nat_alt)
  qed
  moreover have "images_ok sample_descs" by (simp add: images_ok_def sample_descs_def)
  ultimately show ?thesis using halt_keeps sample_access by (simp add: environment_ok_def)
qed

lemma sample_sandbox: "sandbox_inv sample_mmap"
proof -
  let ?n = "sample_text\<lparr> mem_map := sample_vm, host_log := host_log sample_text, break_addr := break_addr sample_text \<rparr>"
  have "text_inv ?n" using sample_text_inv unfolding text_inv_memory .
  moreover have "?n = sample_mmap" by (simp add: sample_mmap_def)
  ultimately have "text_inv sample_mmap" by (simp only:)
  moreover have "data_not_exec sample_mmap"
    by (auto simp: data_not_exec_def sample_mmap_fields sample_vm_def page_at_def view_def split: if_splits)
  moreover have "break_ok sample_mmap"
    by (simp add: break_ok_def sample_mmap_def sample_text_def NaClPolicyApp.defs NaClApp.defs sample_policy_def sample_space_def)
  ultimately show ?thesis using sample_mmap_ok(1,2) by (simp add: sandbox_inv_def sample_mmap_fields)
qed

lemma sample_unmap_step:
  "\<exists>nap'. sys_step sample_kernel sample_descs halt_validator sample_mmap nap' \<and> page_at (mem_map nap') 0x10007 = None"
proof -
  have small: "unat (0x100 :: u64) < 2 ^ 32" by simp
  have rnd: "NaClRoundAllocPage 0x100 = 0x10000" by (simp add: NaClRoundAllocPage_def)
  have errno: "errno_set sample_kernel"
    using sample_environment linux_errno by (auto simp: environment_ok_def)
  have idle: "\<not> io_pending sample_mmap 0x10000000 (NaClRoundAllocPage 0x100)"
    by (simp add: io_pending_def sample_mmap_fields NaClIntervalRangeTreeOverlapsWith_def NaClIntervalRangeTreeCtor_def)
  obtain nap' r where m: "NaClSysMunmap sample_kernel sample_mmap 0x10000000 0x100 = Inr (nap', r)"
    "r = 0 \<longleftrightarrow> data_range sample_mmap 0x10000000 0x10000 \<and>
      sample_kernel (host_log sample_mmap) (HostMmapNone (mem_start sample_mmap + 0x10000000) 0x10000) \<noteq> - 1"
    "r = 0 \<longrightarrow> munmapped sample_kernel sample_mmap 0x10000000 0x10000 nap'"
    using run_unlessE [OF munmap_result [OF sample_mmap_ok(1) small errno] idle] unfolding rnd
    by (simp only: split_paired_Ex split_conv) fastforce
  have "data_range sample_mmap 0x10000000 0x10000" by (simp add: data_range_def sample_mmap_fields)
  with m(2,3) have "munmapped sample_kernel sample_mmap 0x10000000 0x10000 nap'"
    by (simp add: sample_kernel_def)
  then have "page_at (mem_map nap') 0x10007 = None" by (simp add: munmapped_def in_bytes_def)
  with sys_munmap [OF m(1) small] show ?thesis by blast
qed

end
