(* ===== verification/Dyn_Text_Liveness.thy ===== *)
theory Dyn_Text_Liveness
  imports Sandbox_Steps
begin

text \<open>
  The deletion of dynamic code comes to its end: once every live thread has made a call of
  \<open>NaClSysDyncodeDelete\<close> after the first request, the next request for the region removes it.
\<close>

subsection \<open>What a deletion call does to the generations\<close>

text \<open>A thread moves to the current generation, which only grows; the other threads stay.\<close>

definition checked_in :: "'a NaClTextApp_scheme \<Rightarrow> nat \<Rightarrow> 'a NaClTextApp_scheme \<Rightarrow> bool" where
  "checked_in nap t nap' \<longleftrightarrow> dynamic_delete_generation nap \<le> dynamic_delete_generation nap' \<and>
     (thread_generations nap' = thread_generations nap \<or>
      thread_generations nap' = (thread_generations nap)[t := Some (dynamic_delete_generation nap')])"

lemma checked_in_refl: "checked_in nap t nap"
  by (simp add: checked_in_def)

lemma SetGeneration_effect:
  assumes "NaClSetThreadGeneration nap t g = Inr nap'"
  shows "thread_generations nap' = (thread_generations nap)[t := Some g]"
    and "dynamic_delete_generation nap' = dynamic_delete_generation nap"
    and "dynamic_regions nap' = dynamic_regions nap"
  using assms unfolding NaClSetThreadGeneration_def
  by (auto simp: run_simps list_update_id split: option.splits if_splits) (metis list_update_id)

lemma RegionDelete_effect:
  assumes "NaClDynamicRegionDelete alloc nap p = Inr nap'"
  shows "thread_generations nap' = thread_generations nap"
    and "dynamic_delete_generation nap' = dynamic_delete_generation nap"
  using assms by (auto simp: NaClDynamicRegionDelete_def Let_def split: if_splits)

lemma finish_checked_in:
  assumes "andThen (NaClSetThreadGeneration nap t (dynamic_delete_generation nap)) (\<lambda>nap.
      if delete_generation (dynamic_regions nap ! p) \<le> NaClMinimumThreadGeneration nap
      then andThen (NaClDynamicRegionDelete alloc nap p) (\<lambda>nap. Inr (nap, 0))
      else Inr (nap, neg_errno EAGAIN)) = Inr (nap', rv)"
  shows "checked_in nap t nap'"
proof -
  from assms obtain n1 where n1: "NaClSetThreadGeneration nap t (dynamic_delete_generation nap) = Inr n1"
    and rest: "nap' = n1 \<or> NaClDynamicRegionDelete alloc n1 p = Inr nap'"
    by (auto simp: run_simps split: if_splits)
  note e1 = SetGeneration_effect [OF n1]
  from rest show ?thesis
  proof
    assume "nap' = n1"
    with e1 show ?thesis by (simp add: checked_in_def)
  next
    assume "NaClDynamicRegionDelete alloc n1 p = Inr nap'"
    note e2 = RegionDelete_effect [OF this]
    show ?thesis using e1 by (simp add: checked_in_def e2)
  qed
qed

text \<open>A request that finds its region.\<close>

lemma delete_finds:
  assumes "text_inv nap" and "enable_dyncode_syscalls nap" and "NaClDynamicRegionFind nap
      (NaClUserToSysAddrRange nap (ucast dest) (ucast sz)) (ucast sz) = Some p"
    and "sz \<noteq> 0" and "NaClUserToSysAddrRange nap (ucast dest) (ucast sz) \<noteq> kNaClBadAddress"
    and "region_start (dynamic_regions nap ! p) = NaClUserToSysAddrRange nap (ucast dest) (ucast sz)"
    and "region_size (dynamic_regions nap ! p) = ucast sz" and "\<not> is_mmap (dynamic_regions nap ! p)"
  shows "p < length (dynamic_regions nap)" and "code_range nap dest sz"
    and "range_region nap dest sz (dynamic_regions nap ! p)"
proof -
  note inv = text_invD [OF assms(1)]
  have sp: "space_ok nap" using inv(1) by (simp add: layout_ok_def)
  have fits: "unat dest + unat sz \<le> 2 ^ addr_bits nap"
    and a: "NaClUserToSysAddrRange nap (ucast dest) (ucast sz) = mem_start nap + ucast dest"
    using assms(5) UserToSysAddrRange_iff [OF sp, of "ucast dest" "ucast sz"]
    by (simp_all add: unat_ucast_up split: if_splits)
  note ra = range_addr [OF sp fits]
  have n: "0 < unat (ucast sz :: u64)" using assms(4) by (simp add: unat_ucast_up unat_gt_0)
  have "unat (mem_start nap + ucast dest) + unat (ucast sz :: u64) < 2 ^ 64" using ra by (simp add: unat_ucast_up)
  note find = Find_result [OF inv(5) n this]
  show p: "p < length (dynamic_regions nap)" using find assms(3) by (simp add: a)
  have eqs: "region_start (dynamic_regions nap ! p) = mem_start nap + ucast dest" using assms(6) by (simp add: a)
  note rr = region_range [OF assms(1) nth_mem [OF p] assms(8) eqs assms(7) ra(1)]
  show "code_range nap dest sz" "range_region nap dest sz (dynamic_regions nap ! p)" by (fact rr)+
qed

lemma delete_checked_in:
  fixes nap :: "'a NaClTextApp_scheme"
  assumes "text_inv nap" and "maps_ok os" and "NaClSysDyncodeDelete os alloc nap t dest sz = Inr (nap', rv)"
  shows "checked_in nap t nap'"
proof -
  let ?a = "NaClUserToSysAddrRange nap (ucast dest) (ucast sz)"
  let ?finish = "\<lambda>p (nap :: 'a NaClTextApp_scheme). andThen (NaClSetThreadGeneration nap t (dynamic_delete_generation nap)) (\<lambda>nap.
            if delete_generation (dynamic_regions nap ! p) \<le> NaClMinimumThreadGeneration nap
            then andThen (NaClDynamicRegionDelete alloc nap p) (\<lambda>nap. Inr (nap, 0))
            else Inr (nap, neg_errno EAGAIN))"
  from assms(3) consider "nap' = nap"
    | "NaClSetThreadGeneration nap t (dynamic_delete_generation nap) = Inr nap'"
    | p where "enable_dyncode_syscalls nap" "sz \<noteq> 0" "?a \<noteq> kNaClBadAddress"
        "NaClDynamicRegionFind nap ?a (ucast sz) = Some p"
        "region_start (dynamic_regions nap ! p) = ?a" "region_size (dynamic_regions nap ! p) = ucast sz"
        "\<not> is_mmap (dynamic_regions nap ! p)"
        "andThen (if delete_generation (dynamic_regions nap ! p) < 0 then dyncode_delete_start os nap dest sz p
          else Inr (nap, None)) (\<lambda>(nap, err).
          case err of Some e \<Rightarrow> Inr (nap, e) | None \<Rightarrow> ?finish p nap) = Inr (nap', rv)"
  proof -
    note run = assms(3) [unfolded NaClSysDyncodeDelete_def Let_def]
    show thesis
    proof (cases "enable_dyncode_syscalls nap \<and> text_shm nap \<noteq> None")
      case False
      with run that(1) show thesis by (auto split: if_splits)
    next
      case True
      note run = run [simplified True if_True not_True_eq_False if_False simp_thms]
      show thesis
      proof (cases "sz = 0 \<or> ?a = kNaClBadAddress")
        case bad: True
        with run that(1,2) show thesis by (auto simp: run_simps split: if_splits)
      next
        case ok: False
        then have "\<not> sz = 0" "\<not> ?a = kNaClBadAddress" by blast+
        note run = run [unfolded if_not_P [OF this(1)] if_not_P [OF this(2)]]
        show thesis
        proof (cases "NaClDynamicRegionFind nap ?a (ucast sz)")
          case None
          with run that(1) show thesis by simp
        next
          case (Some p)
          note run = run [unfolded Some option.case]
          show thesis
          proof (cases "region_start (dynamic_regions nap ! p) \<noteq> ?a \<or> region_size (dynamic_regions nap ! p) \<noteq> ucast sz \<or>
              is_mmap (dynamic_regions nap ! p)")
            case True
            from run [unfolded if_P [OF True]] that(1) show thesis by simp
          next
            case False
            from run [unfolded if_not_P [OF False]] that(3) [of p] True ok Some False show thesis by blast
          qed
        qed
      qed
    qed
  qed
  then show ?thesis
  proof cases
    case 1
    then show ?thesis by (simp add: checked_in_refl)
  next
    case 2
    from SetGeneration_effect [OF this] show ?thesis by (simp add: checked_in_def)
  next
    case (3 p)
    note f = delete_finds [OF assms(1) 3(1,4,2,3,5,6,7)]
    from 3(8) obtain n1 err where n1: "(if delete_generation (dynamic_regions nap ! p) < 0
          then dyncode_delete_start os nap dest sz p else Inr (nap, None)) = Inr (n1, err)"
      and rest: "(case err of Some e \<Rightarrow> Inr (n1, e) | None \<Rightarrow> ?finish p n1) = Inr (nap', rv)"
      by (auto simp: run_simps)
    have d: "dynamic_delete_generation nap \<le> dynamic_delete_generation n1" "thread_generations n1 = thread_generations nap"
    proof -
      show "thread_generations n1 = thread_generations nap"
        using run_okD [OF delete_start [OF assms(1,2) f(1-3) 3(7)]] n1 by (fastforce split: if_splits)
      show "dynamic_delete_generation nap \<le> dynamic_delete_generation n1"
        using run_okD [OF delete_start [OF assms(1,2) f(1-3) 3(7)]] n1 by (cases err) (fastforce split: if_splits)+
    qed
    show ?thesis
    proof (cases err)
      case (Some e)
      with rest d show ?thesis by (simp add: checked_in_def)
    next
      case None
      with rest have "?finish p n1 = Inr (nap', rv)" by simp
      from finish_checked_in [OF this] d show ?thesis by (auto simp: checked_in_def)
    qed
  qed
qed

subsection \<open>Sequences of deletion calls\<close>

fun delete_calls ::
  "os \<Rightarrow> (nat \<Rightarrow> bool) \<Rightarrow> 'a NaClTextApp_scheme \<Rightarrow> (nat \<times> u32 \<times> u32) list \<Rightarrow> 'a NaClTextApp_scheme run" where
  "delete_calls os alloc nap [] = Inr nap"
| "delete_calls os alloc nap ((t, dest, sz) # cs) =
     andThen (NaClSysDyncodeDelete os alloc nap t dest sz) (\<lambda>(nap, rv). delete_calls os alloc nap cs)"

definition acked :: "'a NaClTextApp_scheme \<Rightarrow> int \<Rightarrow> nat \<Rightarrow> bool" where
  "acked nap g t \<longleftrightarrow> (\<forall>h. thread_generations nap ! t = Some h \<longrightarrow> g \<le> h)"

definition can_delete :: "'a NaClTextApp_scheme \<Rightarrow> bool" where
  "can_delete nap \<longleftrightarrow> text_inv nap \<and> enable_dyncode_syscalls nap"

lemma report_runs:
  assumes "can_delete nap" and "valid_thread nap t"
  shows "\<exists>nap'. NaClSysDyncodeDelete os alloc nap t d 0 = Inr (nap', 0) \<and>
    thread_generations nap' = (thread_generations nap)[t := Some (dynamic_delete_generation nap)]"
proof -
  have inv: "text_inv nap" "enable_dyncode_syscalls nap" using assms(1) by (simp_all add: can_delete_def)
  then have shm: "text_shm nap \<noteq> None" using text_invD(1) by (auto simp: layout_ok_def)
  obtain n1 where "NaClSetThreadGeneration nap t (dynamic_delete_generation nap) = Inr n1"
    "thread_generations n1 = (thread_generations nap)[t := Some (dynamic_delete_generation nap)]"
    by (rule set_generation_inv [OF inv(1) assms(2)])
  with inv(2) shm show ?thesis by (simp add: NaClSysDyncodeDelete_def Let_def)
qed

lemma delete_step:
  assumes "can_delete nap" and "maps_ok os" and "valid_thread nap t"
    and "NaClSysDyncodeDelete os alloc nap t dest sz = Inr (nap', rv)"
  shows "can_delete nap'" and "mem_start nap' = mem_start nap" and "valid_thread nap' = valid_thread nap"
    and "dynamic_delete_generation nap \<le> dynamic_delete_generation nap'"
    and "g \<le> dynamic_delete_generation nap \<Longrightarrow> acked nap g s \<or> s = t \<and> sz = 0 \<Longrightarrow> acked nap' g s"
proof -
  have inv: "text_inv nap" "enable_dyncode_syscalls nap" using assms(1) by (simp_all add: can_delete_def)
  have t: "t < length (thread_generations nap)" "thread_generations nap ! t \<noteq> None"
    using assms(3) by (simp_all add: valid_thread_def)
  have core: "core nap' = core nap" using Delete_only [OF assms(4)] by (simp add: text_only_def)
  note c = delete_checked_in [OF inv(1) assms(2,4), unfolded checked_in_def]
  have "text_inv nap'" using run_okD [OF delete_result [OF inv(1) assms(2,3)] assms(4)] by simp
  then show "can_delete nap'" using inv(2) coreD(11) [OF core] by (simp add: can_delete_def)
  show "mem_start nap' = mem_start nap" by (rule coreD(3) [OF core])
  show "valid_thread nap' = valid_thread nap"
    using c t by (auto simp: valid_thread_def fun_eq_iff nth_list_update split: if_splits)
  show "dynamic_delete_generation nap \<le> dynamic_delete_generation nap'" using c by blast
  assume g: "g \<le> dynamic_delete_generation nap" and s: "acked nap g s \<or> s = t \<and> sz = 0"
  have "thread_generations nap' = (thread_generations nap)[t := Some (dynamic_delete_generation nap)]" if "sz = 0"
    using report_runs [OF assms(1,3), of os alloc dest] assms(4) that by auto
  note reported = this
  show "acked nap' g s"
  proof (cases "s = t \<and> sz = 0")
    case True
    then have "thread_generations nap' ! s = Some (dynamic_delete_generation nap)" using reported t by simp
    with g show ?thesis by (simp add: acked_def)
  next
    case False
    with c g s t show ?thesis by (cases "s = t") (auto simp: acked_def)
  qed
qed

lemma delete_calls_ack:
  assumes "delete_calls os alloc nap cs = Inr nap'" and "can_delete nap" and "maps_ok os"
    and "\<forall>c \<in> set cs. valid_thread nap (fst c)"
    and "g \<le> dynamic_delete_generation nap"
  shows "can_delete nap' \<and> mem_start nap' = mem_start nap \<and> valid_thread nap' = valid_thread nap \<and>
    (\<forall>s. acked nap g s \<or> (\<exists>dest. (s, dest, 0) \<in> set cs) \<longrightarrow> acked nap' g s)"
  using assms
proof (induction os alloc nap cs rule: delete_calls.induct)
  case (2 os alloc nap t dest sz cs)
  from "2.prems"(1) obtain n1 rv where n1: "NaClSysDyncodeDelete os alloc nap t dest sz = Inr (n1, rv)"
    and rest: "delete_calls os alloc n1 cs = Inr nap'"
    by (auto simp: run_simps)
  have t: "valid_thread nap t" using "2.prems"(4) by simp
  note st = delete_step [OF "2.prems"(2,3) t n1]
  have "\<forall>c \<in> set cs. valid_thread n1 (fst c)" using "2.prems"(4) by (simp add: st(3))
  with "2.IH" [OF rest st(1) "2.prems"(3)] st(4) "2.prems"(5)
  have ih: "can_delete nap' \<and> mem_start nap' = mem_start n1 \<and> valid_thread nap' = valid_thread n1 \<and>
    (\<forall>s. acked n1 g s \<or> (\<exists>dest. (s, dest, 0) \<in> set cs) \<longrightarrow> acked nap' g s)" by auto
  have "acked nap' g s" if "acked nap g s \<or> (\<exists>d. (s, d, 0) \<in> set ((t, dest, sz) # cs))" for s
    using that ih st(5) [OF "2.prems"(5), of s] by auto
  with ih st(2,3) show ?case by simp
qed simp

text \<open>The last request.\<close>

lemma delete_lookup:
  assumes "text_inv nap" and "r \<in> set (dynamic_regions nap)" and "range_region nap dest sz r" and "\<not> is_mmap r"
  shows "\<exists>p. NaClUserToSysAddrRange nap (ucast dest) (ucast sz) = region_start r \<and> region_size r = ucast sz \<and>
    region_start r \<noteq> kNaClBadAddress \<and> sz \<noteq> 0 \<and>
    NaClDynamicRegionFind nap (region_start r) (ucast sz) = Some p \<and> p < length (dynamic_regions nap) \<and>
    dynamic_regions nap ! p = r"
proof -
  note inv = text_invD [OF assms(1)]
  have sp: "space_ok nap" and l: "0 < unat (dynamic_text_start nap)" "unat (dynamic_text_end nap) \<le> 2 ^ addr_bits nap"
    using inv(1) by (simp_all add: layout_ok_def)
  have fit: "0 < unat (region_size r)" "region_end r < 2 ^ 64" using inv(5) assms(2) by (simp_all add: regions_ok_def region_fits_def)
  have area: "in_area nap r" using inv(6) assms(2,4) by blast
  have rr: "unat (region_start r) = unat (mem_start nap) + unat dest" "unat (region_size r) = unat sz"
    using assms(3) by (simp_all add: range_region_def)
  have fits: "unat dest + unat sz \<le> 2 ^ addr_bits nap" "0 < unat dest" "unat dest < 2 ^ addr_bits nap"
    using area l rr fit(1) by (simp_all add: in_area_def bundle_addr_def region_end_def)
  note ra = range_addr [OF sp fits(1)]
  have start: "region_start r = mem_start nap + ucast dest" using ra(1) rr(1) by (simp add: word_eq_unatI)
  have size: "region_size r = ucast sz" using rr(2) by (simp add: word_eq_unatI unat_ucast_up)
  have addr: "NaClUserToSysAddrRange nap (ucast dest) (ucast sz) = region_start r"
    using UserToSysAddrRange_iff [OF sp, of "ucast dest" "ucast sz"] fits by (simp add: unat_ucast_up start)
  have good: "region_start r \<noteq> kNaClBadAddress"
    unfolding start by (rule range_not_bad [OF sp]) (simp add: unat_ucast_up fits(3))
  have sz: "sz \<noteq> 0" using fit(1) rr(2) by auto
  have n: "0 < unat (ucast sz :: u64)" "unat (region_start r) + unat (ucast sz :: u64) < 2 ^ 64"
    using fit size by (simp_all add: region_end_def)
  note find = Find_result [OF inv(5) n]
  have hit: "meets r (unat (region_start r)) (unat (region_start r) + unat (ucast sz :: u64))"
    using n(1) fit(1) by (simp add: meets_def region_end_def)
  obtain q where q: "q < length (dynamic_regions nap)" "dynamic_regions nap ! q = r"
    using assms(2) by (auto simp: in_set_conv_nth)
  obtain p where p: "NaClDynamicRegionFind nap (region_start r) (ucast sz) = Some p"
    using find assms(2) hit by (cases "NaClDynamicRegionFind nap (region_start r) (ucast sz)") auto
  then have p2: "p < length (dynamic_regions nap)"
    "meets (dynamic_regions nap ! p) (unat (region_start r)) (unat (region_start r) + unat (ucast sz :: u64))"
    using find by simp_all
  have "p = q"
  proof (rule ccontr)
    assume "p \<noteq> q"
    then consider "p < q" | "q < p" by linarith
    then show False
      using regions_ok_nth(1) [OF inv(5), of p q] regions_ok_nth(1) [OF inv(5), of q p] p2 q size
      by cases (auto simp: meets_def region_end_def)
  qed
  with p p2(1) q(2) addr size good sz show ?thesis by auto
qed

lemma delete_last:
  fixes nap :: "'a NaClTextApp_scheme"
  assumes "can_delete nap" and "valid_thread nap natp" and "r \<in> set (dynamic_regions nap)"
    and "range_region nap dest sz r" and "\<not> is_mmap r" and "0 \<le> delete_generation r"
    and "\<forall>t. t \<noteq> natp \<longrightarrow> valid_thread nap t \<longrightarrow> acked nap (delete_generation r) t" and "\<And>n. alloc n"
  shows "\<exists>nap'. NaClSysDyncodeDelete os alloc nap natp dest sz = Inr (nap', 0) \<and> text_inv nap' \<and>
    set (dynamic_regions nap') = set (dynamic_regions nap) - {r}"
proof -
  have inv: "text_inv nap" "enable_dyncode_syscalls nap" using assms(1) by (simp_all add: can_delete_def)
  obtain shm where shm: "text_shm nap = Some shm" using text_invD(1) [OF inv(1)] by (auto simp: layout_ok_def)
  obtain p where p: "NaClUserToSysAddrRange nap (ucast dest) (ucast sz) = region_start r" "region_size r = ucast sz"
    "region_start r \<noteq> kNaClBadAddress" "sz \<noteq> 0"
    "NaClDynamicRegionFind nap (region_start r) (ucast sz) = Some p" "p < length (dynamic_regions nap)"
    "dynamic_regions nap ! p = r"
    using delete_lookup [OF inv(1) assms(3-5)] by blast
  let ?finish = "andThen (NaClSetThreadGeneration nap natp (dynamic_delete_generation nap)) (\<lambda>nap.
      if delete_generation (dynamic_regions nap ! p) \<le> NaClMinimumThreadGeneration nap
      then andThen (NaClDynamicRegionDelete alloc nap p) (\<lambda>nap. Inr (nap, 0))
      else Inr (nap, neg_errno EAGAIN))"
  have run: "NaClSysDyncodeDelete os alloc nap natp dest sz = ?finish"
    using inv(2) shm p assms(5,6) by (simp add: NaClSysDyncodeDelete_def Let_def)
  obtain n1 where n1: "NaClSetThreadGeneration nap natp (dynamic_delete_generation nap) = Inr n1"
    by (rule set_generation_inv [OF inv(1) assms(2)])
  obtain n2 where n2: "NaClDynamicRegionDelete alloc n1 p = Inr n2" using Delete_returns assms(8) by blast
  then obtain nap' rv where fin: "?finish = Inr (nap', rv)" using n1 by (cases "delete_generation (dynamic_regions n1 ! p) \<le> NaClMinimumThreadGeneration n1") auto
  have due: "0 \<le> delete_generation (dynamic_regions nap ! p)" using assms(6) by (simp add: p(7))
  note f = run_okD [OF delete_finish [OF inv(1) assms(2) p(6) due] fin, unfolded split_conv p(7)]
  have "delete_generation r \<le> h" if h: "Some h \<in> set (thread_generations nap')" for h
  proof -
    obtain t where t: "t < length (thread_generations nap')" "thread_generations nap' ! t = Some h"
      using h by (auto simp: in_set_conv_nth)
    have tg: "thread_generations nap' = (thread_generations nap)[natp := Some (dynamic_delete_generation nap)]"
      using f by blast
    show ?thesis
    proof (cases "t = natp")
      case True
      then have "h = dynamic_delete_generation nap" using t tg by simp
      then show ?thesis using text_invD(7) [OF inv(1)] assms(3) by (simp add: generations_ok_def)
    next
      case False
      then have "valid_thread nap t" "thread_generations nap ! t = Some h" using t tg by (simp_all add: valid_thread_def)
      with False assms(7) show ?thesis by (simp add: acked_def)
    qed
  qed
  with f have "rv = 0" "set (dynamic_regions nap') = set (dynamic_regions nap) - {r}" "text_inv nap'" by simp_all
  with run fin show ?thesis by simp
qed

subsection \<open>Properties\<close>

text \<open> C6. Deletion ends.  A request to delete the region of a range is pending, and threads make any
  sequence of deletion calls, on any ranges, in which every live thread but the one that asks last has made an empty
  call (a check-in).  Unless the region has been removed meanwhile, the next request for it
  returns 0 and removes it, and only it, from the table.\<close>

theorem dyncode_delete_completes:
  assumes "can_delete nap" and "maps_ok os" and "\<And>n. alloc n"
    and "r \<in> set (dynamic_regions nap)" and "range_region nap dest sz r" and "\<not> is_mmap r" and "0 \<le> delete_generation r"
    and "\<forall>c \<in> set cs. valid_thread nap (fst c)" and "delete_calls os alloc nap cs = Inr nap'"
    and "\<forall>t. valid_thread nap t \<longrightarrow> t \<noteq> natp \<longrightarrow> (\<exists>d. (t, d, 0) \<in> set cs)" and "valid_thread nap natp"
  shows "r \<in> set (dynamic_regions nap') \<longrightarrow>
    (\<exists>nap''. NaClSysDyncodeDelete os alloc nap' natp dest sz = Inr (nap'', 0) \<and> text_inv nap'' \<and>
      set (dynamic_regions nap'') = set (dynamic_regions nap') - {r})"
proof
  assume r: "r \<in> set (dynamic_regions nap')"
  have "text_inv nap" using assms(1) by (simp add: can_delete_def)
  then have "delete_generation r \<le> dynamic_delete_generation nap"
    using text_invD(7) assms(4) by (auto simp: generations_ok_def)
  note calls = delete_calls_ack [OF assms(9,1,2,8) this]
  have "range_region nap' dest sz r" using assms(5) calls by (simp add: range_region_def)
  moreover have "\<forall>t. t \<noteq> natp \<longrightarrow> valid_thread nap' t \<longrightarrow> acked nap' (delete_generation r) t"
    using calls assms(10) by auto
  ultimately show "\<exists>nap''. NaClSysDyncodeDelete os alloc nap' natp dest sz = Inr (nap'', 0) \<and> text_inv nap'' \<and>
      set (dynamic_regions nap'') = set (dynamic_regions nap') - {r}"
    using calls r assms(6,7,11) by (intro delete_last [OF _ _ _ _ _ _ _ assms(3)]) auto
qed

subsection \<open>The property at a concrete state\<close>

text \<open>The deletion of the first region of the example is pending; thread 0 has not checked in since.\<close>

abbreviation pending_region :: NaClDynamicRegion where
  "pending_region \<equiv> (region_at 0x7f0000020000 0x20)\<lparr> delete_generation := 1 \<rparr>"

definition sample_pending :: NaClTextApp where
  "sample_pending = sample_text\<lparr> dynamic_regions := [pending_region, region_at 0x7f0000020040 0x40],
     dynamic_delete_generation := 1, thread_generations := [Some 0, Some 1] \<rparr>"

lemma sample_pending_fields:
  "dynamic_regions sample_pending = [pending_region, region_at 0x7f0000020040 0x40]"
  "dynamic_delete_generation sample_pending = 1" "thread_generations sample_pending = [Some 0, Some 1]"
  "mem_start sample_pending = 0x7f0000000000"
  by (simp_all add: sample_pending_def sample_fields)

lemma sample_pending_ok: "can_delete sample_pending"
proof -
  have "text_inv sample_pending"
  proof (rule text_inv_regions [OF sample_text_inv])
    show "same_text sample_text sample_pending" by (simp add: same_text_def sample_pending_def)
    show "regions_ok (dynamic_regions sample_pending)"
      by (simp add: sample_pending_fields regions_ok_def region_at_def new_region_def before_def region_fits_def region_end_def)
    show "in_area sample_text r" if "r \<in> set (dynamic_regions sample_pending)" for r
      using that by (auto simp: sample_pending_fields region_at_def new_region_def in_area_def bundle_addr_def sample_fields
          region_end_def)
    show "generations_ok sample_pending"
      by (simp add: generations_ok_def sample_pending_fields region_at_def new_region_def)
    show "bundle_halted sample_text k" if "bundle_visible sample_text k" for k
      using that by (simp add: bundle_visible_def sample_fields sample_invisible)
  qed
  then show ?thesis by (simp add: can_delete_def sample_pending_def sample_fields)
qed

lemma dyncode_delete_completes_witness:
  "\<exists>nap' nap''. delete_calls sample_os (\<lambda>_. True) sample_pending [(0, 0, 0)] = Inr nap' \<and>
    NaClSysDyncodeDelete sample_os (\<lambda>_. True) nap' 1 0x20000 0x20 = Inr (nap'', 0) \<and>
    set (dynamic_regions nap'') = {region_at 0x7f0000020040 0x40}"
proof -
  have t: "valid_thread sample_pending 0" "valid_thread sample_pending 1"
    by (simp_all add: valid_thread_def sample_pending_fields)
  have others: "\<forall>t. valid_thread sample_pending t \<longrightarrow> t \<noteq> 1 \<longrightarrow> (\<exists>d. (t, d, 0) \<in> set [(0, 0, 0)])"
    by (auto simp: valid_thread_def sample_pending_fields less_Suc_eq)
  obtain shm where shm: "text_shm sample_pending = Some shm" by (simp add: sample_pending_def sample_fields)
  have enabled: "enable_dyncode_syscalls sample_pending" using sample_pending_ok by (simp add: can_delete_def)
  obtain nap' where calls: "delete_calls sample_os (\<lambda>_. True) sample_pending [(0, 0, 0)] = Inr nap'"
    and r: "dynamic_regions nap' = dynamic_regions sample_pending"
    using shm enabled by (auto simp: NaClSysDyncodeDelete_def NaClSetThreadGeneration_def sample_pending_fields Let_def)
  have p: "pending_region \<in> set (dynamic_regions sample_pending)" "range_region sample_pending 0x20000 0x20 pending_region"
    "\<not> is_mmap pending_region" "0 \<le> delete_generation pending_region"
    by (simp_all add: sample_pending_fields range_region_def region_at_def new_region_def)
  have "pending_region \<in> set (dynamic_regions nap')" using p(1) r by simp
  with dyncode_delete_completes [OF sample_pending_ok sample_maps_ok TrueI p _ calls others t(2)] t(1)
  obtain nap'' where n: "NaClSysDyncodeDelete sample_os (\<lambda>_. True) nap' 1 0x20000 0x20 = Inr (nap'', 0)"
    "set (dynamic_regions nap'') = set (dynamic_regions nap') - {pending_region}" by auto
  have "set (dynamic_regions nap') - {pending_region} = {region_at 0x7f0000020040 0x40}"
    by (auto simp: r sample_pending_fields region_at_def new_region_def)
  with calls n show ?thesis by auto
qed

end
