(* ===== verification/Elf_Image.thy ===== *)
theory Elf_Image
  imports Nacl_Error_Code Nacl_Config Nacl_Prelude
begin

text \<open>
  Reading and checking the headers of an executable, \<open>service_runtime/elf_util.c\<close>: the structures of
  \<open>include/elf32.h\<close> and \<open>include/elf64.h\<close>, \<open>NaClElfImageNew\<close> and the two validation
  functions.  The file is a parameter \<open>pread\<close>: what the method \<open>PRead\<close> of the descriptor returns for an
  offset and a length, \<open>None\<close> standing for a negative result.
\<close>

subsection \<open>The structures\<close>

text \<open>The 32-bit and the 64-bit formats differ in the width of addresses, offsets and sizes.\<close>

record 'w Ehdr =
  e_ident :: "u8 list"
  e_type :: u16
  e_machine :: u16
  e_version :: u32
  e_entry :: 'w
  e_phoff :: 'w
  e_shoff :: 'w
  e_flags :: u32
  e_ehsize :: u16
  e_phentsize :: u16
  e_phnum :: u16
  e_shentsize :: u16
  e_shnum :: u16
  e_shstrndx :: u16

record 'w Phdr =
  p_type :: u32
  p_offset :: 'w
  p_vaddr :: 'w
  p_paddr :: 'w
  p_filesz :: 'w
  p_memsz :: 'w
  p_flags :: u32
  p_align :: 'w

type_synonym Elf_Ehdr = "u32 Ehdr"
type_synonym Elf_Phdr = "u32 Phdr"
type_synonym Elf64_Ehdr = "u64 Ehdr"
type_synonym Elf64_Phdr = "u64 Phdr"

text \<open>A field of a structure in memory: \<open>n\<close> bytes at an offset, in little-endian order.\<close>

definition le_word :: "u8 list \<Rightarrow> 'n::len word" where
  "le_word bs = foldr (\<lambda>b w. ucast b OR push_bit 8 w) bs 0"

definition field :: "u8 list \<Rightarrow> nat \<Rightarrow> nat \<Rightarrow> 'n::len word" where
  "field bs off n = le_word (take n (drop off bs))"

definition decode_ehdr32 :: "u8 list \<Rightarrow> Elf_Ehdr" where
  "decode_ehdr32 bs = \<lparr> e_ident = take 16 bs, e_type = field bs 16 2, e_machine = field bs 18 2,
     e_version = field bs 20 4, e_entry = field bs 24 4, e_phoff = field bs 28 4, e_shoff = field bs 32 4,
     e_flags = field bs 36 4, e_ehsize = field bs 40 2, e_phentsize = field bs 42 2, e_phnum = field bs 44 2,
     e_shentsize = field bs 46 2, e_shnum = field bs 48 2, e_shstrndx = field bs 50 2 \<rparr>"

definition decode_ehdr64 :: "u8 list \<Rightarrow> Elf64_Ehdr" where
  "decode_ehdr64 bs = \<lparr> e_ident = take 16 bs, e_type = field bs 16 2, e_machine = field bs 18 2,
     e_version = field bs 20 4, e_entry = field bs 24 8, e_phoff = field bs 32 8, e_shoff = field bs 40 8,
     e_flags = field bs 48 4, e_ehsize = field bs 52 2, e_phentsize = field bs 54 2, e_phnum = field bs 56 2,
     e_shentsize = field bs 58 2, e_shnum = field bs 60 2, e_shstrndx = field bs 62 2 \<rparr>"

definition decode_phdr32 :: "u8 list \<Rightarrow> Elf_Phdr" where
  "decode_phdr32 bs = \<lparr> p_type = field bs 0 4, p_offset = field bs 4 4, p_vaddr = field bs 8 4,
     p_paddr = field bs 12 4, p_filesz = field bs 16 4, p_memsz = field bs 20 4, p_flags = field bs 24 4,
     p_align = field bs 28 4 \<rparr>"

definition decode_phdr64 :: "u8 list \<Rightarrow> Elf64_Phdr" where
  "decode_phdr64 bs = \<lparr> p_type = field bs 0 4, p_offset = field bs 8 8, p_vaddr = field bs 16 8,
     p_paddr = field bs 24 8, p_filesz = field bs 32 8, p_memsz = field bs 40 8, p_flags = field bs 4 4,
     p_align = field bs 48 8 \<rparr>"

text \<open>An array of \<open>n\<close> structures of a given size.\<close>

definition decode_array :: "(u8 list \<Rightarrow> 'a) \<Rightarrow> nat \<Rightarrow> nat \<Rightarrow> u8 list \<Rightarrow> 'a list" where
  "decode_array decode sz n bs = map (\<lambda>i. decode (take sz (drop (i * sz) bs))) [0..<n]"

abbreviation (input) NACL_MAX_PROGRAM_HEADERS :: nat where "NACL_MAX_PROGRAM_HEADERS \<equiv> 128"

record NaClElfImage =
  ehdr :: Elf_Ehdr
  phdrs :: "Elf_Phdr list"
  loadable :: "bool list"

subsection \<open>The file header\<close>

abbreviation (input) EI_CLASS :: nat where "EI_CLASS \<equiv> 4"
abbreviation (input) ELFCLASS32 :: u8 where "ELFCLASS32 \<equiv> 1"
abbreviation (input) ELFCLASS64 :: u8 where "ELFCLASS64 \<equiv> 2"
abbreviation (input) ELFMAG :: "u8 list" where "ELFMAG \<equiv> [0x7f, 0x45, 0x4c, 0x46]"
abbreviation (input) ET_EXEC :: u16 where "ET_EXEC \<equiv> 2"
abbreviation (input) EM_X86_64 :: u16 where "EM_X86_64 \<equiv> 62"
abbreviation (input) EV_CURRENT :: u32 where "EV_CURRENT \<equiv> 1"

definition NaClElfImageValidateElfHeader :: "NaClElfImage \<Rightarrow> NaClErrorCode" where
  "NaClElfImageValidateElfHeader img =
     (let hdr = ehdr img in
      if take 4 (e_ident hdr) \<noteq> ELFMAG then LOAD_BAD_ELF_MAGIC
      else if e_ident hdr ! EI_CLASS \<noteq> ELFCLASS32 then LOAD_NOT_32_BIT
      else if e_type hdr \<noteq> ET_EXEC then LOAD_NOT_EXEC
      else if e_machine hdr \<noteq> EM_X86_64 then LOAD_BAD_MACHINE
      else if e_version hdr \<noteq> EV_CURRENT then LOAD_BAD_ELF_VERS
      else LOAD_OK)"

subsection \<open>Reading the headers\<close>

text \<open>From the 64-bit to the 32-bit format.\<close>

definition convert_ehdr :: "Elf64_Ehdr \<Rightarrow> NaClErrorCode + Elf_Ehdr" where
  "convert_ehdr h =
     (if e_entry h > 0xffffffff \<or> e_phoff h > 0xffffffff \<or> e_shoff h > 0xffffffff then Inl LOAD_EHDR_OVERFLOW
      else if e_ehsize h \<noteq> 64 then Inl LOAD_BAD_EHSIZE
      else Inr \<lparr> e_ident = (e_ident h)[EI_CLASS := ELFCLASS32], e_type = e_type h, e_machine = e_machine h,
        e_version = e_version h, e_entry = ucast (e_entry h), e_phoff = ucast (e_phoff h),
        e_shoff = ucast (e_shoff h), e_flags = e_flags h, e_ehsize = 52, e_phentsize = 32,
        e_phnum = e_phnum h, e_shentsize = e_shentsize h, e_shnum = e_shnum h, e_shstrndx = e_shstrndx h \<rparr>)"

definition phdr_overflows :: "Elf64_Phdr \<Rightarrow> bool" where
  "phdr_overflows p \<longleftrightarrow> p_offset p > 0xffffffff \<or> p_vaddr p > 0xffffffff \<or> p_paddr p > 0xffffffff \<or>
     p_filesz p > 0xffffffff \<or> p_memsz p > 0xffffffff \<or> p_align p > 0xffffffff"

definition convert_phdr :: "Elf64_Phdr \<Rightarrow> Elf_Phdr" where
  "convert_phdr p = \<lparr> p_type = p_type p, p_offset = ucast (p_offset p), p_vaddr = ucast (p_vaddr p),
     p_paddr = ucast (p_paddr p), p_filesz = ucast (p_filesz p), p_memsz = ucast (p_memsz p),
     p_flags = p_flags p, p_align = ucast (p_align p) \<rparr>"

type_synonym elf_file = "u64 \<Rightarrow> nat \<Rightarrow> u8 list option"

text \<open>A read that fails or comes up short is an error.\<close>

definition read_exact :: "elf_file \<Rightarrow> u64 \<Rightarrow> nat \<Rightarrow> NaClErrorCode + u8 list" where
  "read_exact pread off n =
     (case pread off n of
        None \<Rightarrow> Inl LOAD_READ_ERROR
      | Some bs \<Rightarrow> if length bs \<noteq> n then Inl LOAD_READ_ERROR else Inr bs)"

definition read_ehdr :: "u8 list \<Rightarrow> NaClErrorCode + Elf_Ehdr" where
  "read_ehdr bs = (if bs ! EI_CLASS = ELFCLASS64 then convert_ehdr (decode_ehdr64 bs) else Inr (decode_ehdr32 bs))"

definition read_phdrs :: "elf_file \<Rightarrow> u8 list \<Rightarrow> Elf_Ehdr \<Rightarrow> NaClErrorCode + Elf_Phdr list" where
  "read_phdrs pread bs hdr =
     (let n = unat (e_phnum hdr); off = ucast (e_phoff hdr) in
      if bs ! EI_CLASS = ELFCLASS64 then
        if e_phentsize (decode_ehdr64 bs) \<noteq> 56 then Inl LOAD_BAD_PHENTSIZE
        else
          case read_exact pread off (n * 56) of
            Inl e \<Rightarrow> Inl e
          | Inr data \<Rightarrow>
              let phs = decode_array decode_phdr64 56 n data in
              if list_ex phdr_overflows phs then Inl LOAD_PHDR_OVERFLOW else Inr (map convert_phdr phs)
      else
        if e_phentsize hdr \<noteq> 32 then Inl LOAD_BAD_PHENTSIZE
        else
          case read_exact pread off (n * 32) of
            Inl e \<Rightarrow> Inl e
          | Inr data \<Rightarrow> Inr (decode_array decode_phdr32 32 n data))"

text \<open>\<open>malloc\<close> says whether the allocation of the result succeeds; its failure is fatal.\<close>

definition NaClElfImageNew :: "bool \<Rightarrow> elf_file \<Rightarrow> (NaClErrorCode + NaClElfImage) run" where
  "NaClElfImageNew malloc pread =
     (case read_exact pread 0 64 of
        Inl e \<Rightarrow> Inr (Inl e)
      | Inr bs \<Rightarrow>
          case read_ehdr bs of
            Inl e \<Rightarrow> Inr (Inl e)
          | Inr hdr \<Rightarrow>
              let img = \<lparr> ehdr = hdr, phdrs = [], loadable = replicate NACL_MAX_PROGRAM_HEADERS False \<rparr>;
                  err_code = NaClElfImageValidateElfHeader img in
              if err_code \<noteq> LOAD_OK then Inr (Inl err_code)
              else if e_phnum hdr > of_nat NACL_MAX_PROGRAM_HEADERS then Inr (Inl LOAD_TOO_MANY_PROG_HDRS)
              else
                case read_phdrs pread bs hdr of
                  Inl e \<Rightarrow> Inr (Inl e)
                | Inr phs \<Rightarrow> if \<not> malloc then Inl LogFatal else Inr (Inr (img\<lparr> phdrs := phs \<rparr>)))"

subsection \<open>The program headers\<close>

datatype NaClPhdrCheckAction = PCA_NONE | PCA_TEXT_CHECK | PCA_RODATA | PCA_DATA | PCA_IGNORE

record NaClPhdrChecks =
  check_type :: u32
  check_flags :: u32
  action :: NaClPhdrCheckAction
  required :: bool
  check_vaddr :: u32

abbreviation (input) PT_LOAD :: u32 where "PT_LOAD \<equiv> 1"
abbreviation (input) PT_GNU_STACK :: u32 where "PT_GNU_STACK \<equiv> 0x6474e551"
abbreviation (input) PF_X :: u32 where "PF_X \<equiv> 1"
abbreviation (input) PF_W :: u32 where "PF_W \<equiv> 2"
abbreviation (input) PF_R :: u32 where "PF_R \<equiv> 4"

definition phdr_check :: "u32 \<Rightarrow> u32 \<Rightarrow> NaClPhdrCheckAction \<Rightarrow> bool \<Rightarrow> u32 \<Rightarrow> NaClPhdrChecks" where
  "phdr_check ty fl act req va =
     \<lparr> check_type = ty, check_flags = fl, action = act, required = req, check_vaddr = va \<rparr>"

text \<open>The table for x86: headers, text, read-only data, data, TLS, stack marker, dynamic (twice),
  interpreter, note, exception frames, relocation-read-only, null.\<close>

definition nacl_phdr_check_data :: "NaClPhdrChecks list" where
  "nacl_phdr_check_data =
     [phdr_check 6 PF_R PCA_IGNORE False 0,
      phdr_check PT_LOAD (PF_R OR PF_X) PCA_TEXT_CHECK True 0x20000,
      phdr_check PT_LOAD PF_R PCA_RODATA False 0,
      phdr_check PT_LOAD (PF_R OR PF_W) PCA_DATA False 0,
      phdr_check 7 PF_R PCA_IGNORE False 0,
      phdr_check PT_GNU_STACK (PF_R OR PF_W) PCA_NONE False 0,
      phdr_check 2 (PF_R OR PF_W) PCA_IGNORE False 0,
      phdr_check 2 PF_R PCA_IGNORE False 0,
      phdr_check 3 PF_R PCA_IGNORE False 0,
      phdr_check 4 PF_R PCA_IGNORE False 0,
      phdr_check 0x6474e550 PF_R PCA_IGNORE False 0,
      phdr_check 0x6474e552 PF_R PCA_IGNORE False 0,
      phdr_check 0 PF_R PCA_IGNORE False 0]"

fun find_check :: "Elf_Phdr \<Rightarrow> NaClPhdrChecks list \<Rightarrow> nat option" where
  "find_check php [] = None"
| "find_check php (c # cs) =
     (if p_type php = check_type c \<and> p_flags php = check_flags c then Some 0
      else map_option Suc (find_check php cs))"

record NaClElfImageInfo =
  info_static_text_end :: u64
  info_rodata_start :: u64
  info_rodata_end :: u64
  info_data_start :: u64
  info_data_end :: u64
  info_max_vaddr :: u64

record phdr_scan =
  seen_seg :: "bool list"
  scan_loadable :: "bool list"
  scan_info :: NaClElfImageInfo

text \<open>The end of a segment, computed in 32 bits.\<close>

definition phdr_end :: "Elf_Phdr \<Rightarrow> u64" where
  "phdr_end php = ucast (p_vaddr php + p_memsz php)"

definition check_segment :: "nat \<Rightarrow> Elf_Phdr \<Rightarrow> NaClPhdrChecks \<Rightarrow> NaClErrorCode" where
  "check_segment bits php c =
     (if check_vaddr c \<noteq> 0 \<and> check_vaddr c \<noteq> p_vaddr php then LOAD_SEGMENT_BAD_LOC
      else if p_vaddr php < 0x20000 then LOAD_SEGMENT_OUTSIDE_ADDRSPACE
      else if ucast (p_vaddr php) \<ge> (push_bit bits 1 :: u64) \<or>
              push_bit bits 1 - ucast (p_vaddr php) < (ucast (p_memsz php) :: u64) then LOAD_SEGMENT_OUTSIDE_ADDRSPACE
      else if p_filesz php > p_memsz php then LOAD_SEGMENT_BAD_PARAM
      else LOAD_OK)"

definition record_segment :: "Elf_Phdr \<Rightarrow> NaClPhdrCheckAction \<Rightarrow> NaClElfImageInfo \<Rightarrow> NaClErrorCode + NaClElfImageInfo" where
  "record_segment php act info =
     (let info = (if info_max_vaddr info < phdr_end php then info\<lparr> info_max_vaddr := phdr_end php \<rparr> else info) in
      case act of
        PCA_NONE \<Rightarrow> Inr info
      | PCA_TEXT_CHECK \<Rightarrow>
          if p_memsz php = 0 then Inl LOAD_BAD_ELF_TEXT
          else Inr (info\<lparr> info_static_text_end := ucast (0x20000 + p_filesz php) \<rparr>)
      | PCA_RODATA \<Rightarrow> Inr (info\<lparr> info_rodata_start := ucast (p_vaddr php), info_rodata_end := phdr_end php \<rparr>)
      | PCA_DATA \<Rightarrow> Inr (info\<lparr> info_data_start := ucast (p_vaddr php), info_data_end := phdr_end php \<rparr>)
      | PCA_IGNORE \<Rightarrow> Inr info)"

text \<open>One round of the loop over the program headers.\<close>

definition scan_phdr :: "nat \<Rightarrow> nat \<Rightarrow> Elf_Phdr \<Rightarrow> phdr_scan \<Rightarrow> NaClErrorCode + phdr_scan" where
  "scan_phdr bits segnum php s =
     (if p_memsz php = 0 then Inr s
      else
        case find_check php nacl_phdr_check_data of
          None \<Rightarrow> Inl LOAD_BAD_SEGMENT
        | Some j \<Rightarrow>
            let c = nacl_phdr_check_data ! j in
            if seen_seg s ! j then Inl LOAD_DUP_SEGMENT
            else
              let s = s\<lparr> seen_seg := (seen_seg s)[j := True] \<rparr> in
              if action c = PCA_IGNORE then Inr s
              else
                let err = check_segment bits php c in
                if err \<noteq> LOAD_OK then Inl err
                else
                  case record_segment php (action c) (scan_info s) of
                    Inl e \<Rightarrow> Inl e
                  | Inr info \<Rightarrow>
                      Inr (s\<lparr> scan_loadable := (scan_loadable s)[segnum := True], scan_info := info \<rparr>))"

fun scan_phdrs :: "nat \<Rightarrow> nat \<Rightarrow> Elf_Phdr list \<Rightarrow> phdr_scan \<Rightarrow> NaClErrorCode + phdr_scan" where
  "scan_phdrs bits segnum [] s = Inr s"
| "scan_phdrs bits segnum (php # phs) s =
     (case scan_phdr bits segnum php s of
        Inl e \<Rightarrow> Inl e
      | Inr s \<Rightarrow> scan_phdrs bits (Suc segnum) phs s)"

definition required_missing :: "bool list \<Rightarrow> bool" where
  "required_missing seen \<longleftrightarrow> list_ex (\<lambda>j. required (nacl_phdr_check_data ! j) \<and> \<not> seen ! j) [0..<length nacl_phdr_check_data]"

definition NaClElfImageValidateProgramHeaders ::
  "NaClElfImage \<Rightarrow> nat \<Rightarrow> NaClErrorCode + NaClElfImage \<times> NaClElfImageInfo" where
  "NaClElfImageValidateProgramHeaders img bits =
     (let info = \<lparr> info_static_text_end = 0, info_rodata_start = 0, info_rodata_end = 0, info_data_start = 0,
            info_data_end = 0, info_max_vaddr = 0x20000 \<rparr>;
          s = \<lparr> seen_seg = replicate (length nacl_phdr_check_data) False, scan_loadable = loadable img,
            scan_info = info \<rparr> in
      case scan_phdrs bits 0 (take (unat (e_phnum (ehdr img))) (phdrs img)) s of
        Inl e \<Rightarrow> Inl e
      | Inr s \<Rightarrow>
          if required_missing (seen_seg s) then Inl LOAD_REQUIRED_SEG_MISSING
          else Inr (img\<lparr> loadable := scan_loadable s \<rparr>, scan_info s))"

end
