(* ===== verification/Elf_Image_Proofs.thy ===== *)
theory Elf_Image_Proofs
  imports Elf_Image
begin

text \<open>
  What the header functions of \<open>elf_util.c\<close> guarantee: an executable file in either format is read back
  exactly, and the segments that pass validation lie in the address space, apart in kind.
\<close>

subsection \<open>The file formats\<close>

definition le_bytes :: "nat \<Rightarrow> 'n::len word \<Rightarrow> u8 list" where
  "le_bytes n w = map (\<lambda>i. ucast (drop_bit (8 * i) w)) [0..<n]"

lemma length_le_bytes [simp]: "length (le_bytes n w) = n"
  by (simp add: le_bytes_def)

lemma le_bytes_Suc: "le_bytes (Suc n) w = ucast w # le_bytes n (drop_bit 8 w)"
  by (simp add: le_bytes_def map_upt_Suc add.commute del: upt_Suc)

lemma le_word_bytes: "le_word (le_bytes n w) = take_bit (8 * n) w"
proof (induction n arbitrary: w)
  case 0
  show ?case by (simp add: le_word_def le_bytes_def)
next
  case (Suc n)
  have "le_word (le_bytes (Suc n) w) = ucast (ucast w :: u8) OR push_bit 8 (le_word (le_bytes n (drop_bit 8 w)) :: 'a word)"
    by (simp add: le_bytes_Suc le_word_def)
  also have "\<dots> = ucast (ucast w :: u8) OR push_bit 8 (take_bit (8 * n) (drop_bit 8 w))"
    by (simp only: Suc.IH)
  also have "\<dots> = take_bit (8 * Suc n) w"
    by (rule bit_word_eqI) (auto simp: bit_simps)
  finally show ?case .
qed

lemma le_word_exact: "LENGTH('n) = 8 * n \<Longrightarrow> le_word (le_bytes n w) = (w :: 'n::len word)"
  by (simp add: le_word_bytes) (metis take_bit_length_eq)

definition encode_ehdr32 :: "Elf_Ehdr \<Rightarrow> u8 list" where
  "encode_ehdr32 h = e_ident h @ le_bytes 2 (e_type h) @ le_bytes 2 (e_machine h) @ le_bytes 4 (e_version h) @
     le_bytes 4 (e_entry h) @ le_bytes 4 (e_phoff h) @ le_bytes 4 (e_shoff h) @ le_bytes 4 (e_flags h) @
     le_bytes 2 (e_ehsize h) @ le_bytes 2 (e_phentsize h) @ le_bytes 2 (e_phnum h) @
     le_bytes 2 (e_shentsize h) @ le_bytes 2 (e_shnum h) @ le_bytes 2 (e_shstrndx h)"

definition encode_ehdr64 :: "Elf64_Ehdr \<Rightarrow> u8 list" where
  "encode_ehdr64 h = e_ident h @ le_bytes 2 (e_type h) @ le_bytes 2 (e_machine h) @ le_bytes 4 (e_version h) @
     le_bytes 8 (e_entry h) @ le_bytes 8 (e_phoff h) @ le_bytes 8 (e_shoff h) @ le_bytes 4 (e_flags h) @
     le_bytes 2 (e_ehsize h) @ le_bytes 2 (e_phentsize h) @ le_bytes 2 (e_phnum h) @
     le_bytes 2 (e_shentsize h) @ le_bytes 2 (e_shnum h) @ le_bytes 2 (e_shstrndx h)"

definition encode_phdr32 :: "Elf_Phdr \<Rightarrow> u8 list" where
  "encode_phdr32 p = le_bytes 4 (p_type p) @ le_bytes 4 (p_offset p) @ le_bytes 4 (p_vaddr p) @
     le_bytes 4 (p_paddr p) @ le_bytes 4 (p_filesz p) @ le_bytes 4 (p_memsz p) @ le_bytes 4 (p_flags p) @
     le_bytes 4 (p_align p)"

definition encode_phdr64 :: "Elf64_Phdr \<Rightarrow> u8 list" where
  "encode_phdr64 p = le_bytes 4 (p_type p) @ le_bytes 4 (p_flags p) @ le_bytes 8 (p_offset p) @ le_bytes 8 (p_vaddr p) @
     le_bytes 8 (p_paddr p) @ le_bytes 8 (p_filesz p) @ le_bytes 8 (p_memsz p) @ le_bytes 8 (p_align p)"

lemma length_encode:
  "length (encode_phdr32 p) = 32" "length (encode_phdr64 q) = 56"
  "length (e_ident h) = 16 \<Longrightarrow> length (encode_ehdr32 h) = 52"
  "length (e_ident k) = 16 \<Longrightarrow> length (encode_ehdr64 k) = 64"
  by (simp_all add: encode_phdr32_def encode_phdr64_def encode_ehdr32_def encode_ehdr64_def)

lemma decode_encode_ehdr32: "length (e_ident h) = 16 \<Longrightarrow> decode_ehdr32 (encode_ehdr32 h @ rest) = h"
  by (simp add: decode_ehdr32_def encode_ehdr32_def field_def le_word_exact)

lemma decode_encode_ehdr64: "length (e_ident h) = 16 \<Longrightarrow> decode_ehdr64 (encode_ehdr64 h) = h"
  by (simp add: decode_ehdr64_def encode_ehdr64_def field_def le_word_exact)

lemma decode_encode_phdr32: "decode_phdr32 (encode_phdr32 p) = p"
  by (simp add: decode_phdr32_def encode_phdr32_def field_def le_word_exact)

lemma decode_encode_phdr64: "decode_phdr64 (encode_phdr64 p) = p"
  by (simp add: decode_phdr64_def encode_phdr64_def field_def le_word_exact)

lemma drop_take_concat:
  assumes "\<And>x. x \<in> set xs \<Longrightarrow> length (f x) = n" and "i < length xs"
  shows "take n (drop (i * n) (concat (map f xs))) = f (xs ! i)"
  using assms
proof (induction xs arbitrary: i)
  case (Cons x xs)
  have "length (f x) = n" using Cons.prems(1) by simp
  then show ?case using Cons by (cases i) (auto simp: add.commute)
qed simp

lemma decode_encode_array:
  assumes "\<And>x. length (enc x) = n" and "\<And>x. dec (enc x) = g x"
  shows "decode_array dec n (length xs) (concat (map enc xs)) = map g xs"
  by (rule nth_equalityI) (simp_all add: decode_array_def drop_take_concat assms)

text \<open>The 64-bit form of a header.\<close>

definition widen_ehdr :: "Elf_Ehdr \<Rightarrow> Elf64_Ehdr" where
  "widen_ehdr h = \<lparr> e_ident = (e_ident h)[EI_CLASS := ELFCLASS64], e_type = e_type h, e_machine = e_machine h,
     e_version = e_version h, e_entry = ucast (e_entry h), e_phoff = ucast (e_phoff h), e_shoff = ucast (e_shoff h),
     e_flags = e_flags h, e_ehsize = 64, e_phentsize = 56, e_phnum = e_phnum h, e_shentsize = e_shentsize h,
     e_shnum = e_shnum h, e_shstrndx = e_shstrndx h \<rparr>"

definition widen_phdr :: "Elf_Phdr \<Rightarrow> Elf64_Phdr" where
  "widen_phdr p = \<lparr> p_type = p_type p, p_offset = ucast (p_offset p), p_vaddr = ucast (p_vaddr p),
     p_paddr = ucast (p_paddr p), p_filesz = ucast (p_filesz p), p_memsz = ucast (p_memsz p),
     p_flags = p_flags p, p_align = ucast (p_align p) \<rparr>"

lemma ucast_not_big: "\<not> (0xffffffff < (ucast (x :: u32) :: u64))"
  using unat_lt32 [of x] by (simp add: word_less_nat_alt unat_ucast_up)

lemma convert_widen_phdr: "\<not> phdr_overflows (widen_phdr p) \<and> convert_phdr (widen_phdr p) = p"
  by (simp add: widen_phdr_def phdr_overflows_def convert_phdr_def ucast_not_big ucast_down_up)

text \<open>The header of an executable for this machine, in its 32-bit form.\<close>

definition exec_header :: "Elf_Ehdr \<Rightarrow> bool" where
  "exec_header h \<longleftrightarrow> length (e_ident h) = 16 \<and> take 4 (e_ident h) = ELFMAG \<and> e_ident h ! EI_CLASS = ELFCLASS32 \<and>
     e_type h = ET_EXEC \<and> e_machine h = EM_X86_64 \<and> e_version h = EV_CURRENT \<and>
     e_ehsize h = 52 \<and> e_phentsize h = 32 \<and> unat (e_phnum h) \<le> NACL_MAX_PROGRAM_HEADERS"

lemma convert_widen_ehdr:
  assumes "exec_header h"
  shows "convert_ehdr (widen_ehdr h) = Inr h"
proof -
  have "(e_ident h)[EI_CLASS := ELFCLASS64, EI_CLASS := ELFCLASS32] = e_ident h"
    using assms by (simp add: exec_header_def) (metis list_update_id)
  then show ?thesis
    using assms by (simp add: widen_ehdr_def convert_ehdr_def ucast_not_big ucast_down_up exec_header_def)
qed

text \<open>A file that holds a header and its program headers, in the 32-bit or in the 64-bit format.\<close>

definition holds_elf :: "bool \<Rightarrow> u8 list \<Rightarrow> Elf_Ehdr \<Rightarrow> Elf_Phdr list \<Rightarrow> bool" where
  "holds_elf wide contents h phs \<longleftrightarrow> length phs = unat (e_phnum h) \<and>
     (if wide then take 64 contents = encode_ehdr64 (widen_ehdr h) \<and>
        take (56 * length phs) (drop (unat (e_phoff h)) contents) = concat (map (encode_phdr64 \<circ> widen_phdr) phs)
      else 64 \<le> length contents \<and> take 52 contents = encode_ehdr32 h \<and>
        take (32 * length phs) (drop (unat (e_phoff h)) contents) = concat (map encode_phdr32 phs))"

definition contents_file :: "u8 list \<Rightarrow> elf_file" where
  "contents_file contents off n = Some (take n (drop (unat off) contents))"

lemma exec_header_valid:
  assumes "exec_header h"
  shows "NaClElfImageValidateElfHeader \<lparr> ehdr = h, phdrs = phs, loadable = ls \<rparr> = LOAD_OK"
    and "\<not> e_phnum h > of_nat NACL_MAX_PROGRAM_HEADERS"
  using assms by (simp_all add: NaClElfImageValidateElfHeader_def exec_header_def word_less_nat_alt)

lemma length_concat_encode:
  "length (concat (map encode_phdr32 phs)) = 32 * length phs"
  "length (concat (map (encode_phdr64 \<circ> widen_phdr) phs)) = 56 * length phs"
  by (simp_all add: length_concat comp_def length_encode sum_list_triv)

lemma read_contents:
  assumes "take n (drop (unat (off :: u32)) contents) = bs" and "length bs = n"
  shows "read_exact (contents_file contents) (ucast off) n = Inr bs"
proof -
  have "contents_file contents (ucast off) n = Some bs" by (simp add: contents_file_def unat_ucast_up assms(1))
  with assms(2) show ?thesis by (simp add: read_exact_def)
qed

lemma elf_image_new:
  assumes "holds_elf wide contents h phs" and "exec_header h"
  shows "NaClElfImageNew True (contents_file contents) =
    Inr (Inr \<lparr> ehdr = h, phdrs = phs, loadable = replicate NACL_MAX_PROGRAM_HEADERS False \<rparr>)"
proof -
  let ?bs = "take 64 contents"
  have n: "length phs = unat (e_phnum h)" using assms(1) by (simp add: holds_elf_def)
  have id: "length (e_ident h) = 16" "e_ident h ! EI_CLASS = ELFCLASS32" using assms(2) by (simp_all add: exec_header_def)
  have read: "length ?bs = 64 \<and> read_ehdr ?bs = Inr h \<and> read_phdrs (contents_file contents) ?bs h = Inr phs"
  proof (cases wide)
    case True
    note ef = assms(1) [unfolded holds_elf_def if_P [OF True]]
    from ef have bs: "?bs = encode_ehdr64 (widen_ehdr h)"
      and data: "take (56 * length phs) (drop (unat (e_phoff h)) contents) = concat (map (encode_phdr64 \<circ> widen_phdr) phs)"
      by blast+
    have wid: "length (e_ident (widen_ehdr h)) = 16" using id by (simp add: widen_ehdr_def)
    have cls: "?bs ! EI_CLASS = ELFCLASS64" using id by (simp add: bs encode_ehdr64_def widen_ehdr_def nth_append)
    have dec: "decode_ehdr64 ?bs = widen_ehdr h" unfolding bs by (rule decode_encode_ehdr64 [OF wid])
    have arr: "decode_array decode_phdr64 56 (length phs) (concat (map (encode_phdr64 \<circ> widen_phdr) phs)) = map widen_phdr phs"
      by (rule decode_encode_array) (simp_all add: length_encode decode_encode_phdr64)
    have "length ?bs = 64" unfolding bs by (rule length_encode(4) [OF wid])
    moreover have "read_ehdr ?bs = Inr h"
      unfolding read_ehdr_def cls dec by (simp add: convert_widen_ehdr [OF assms(2)])
    moreover have "read_phdrs (contents_file contents) ?bs h = Inr phs"
      using read_contents [OF data length_concat_encode(2)] arr
      by (simp add: read_phdrs_def cls dec widen_ehdr_def n [symmetric] Let_def list_ex_iff convert_widen_phdr comp_def
          mult.commute [of _ 56])
    ultimately show ?thesis by blast
  next
    case False
    note ef = assms(1) [unfolded holds_elf_def if_not_P [OF False]]
    from ef have len: "64 \<le> length contents" and h: "take 52 contents = encode_ehdr32 h"
      and data: "take (32 * length phs) (drop (unat (e_phoff h)) contents) = concat (map encode_phdr32 phs)"
      by blast+
    have bs: "?bs = encode_ehdr32 h @ take 12 (drop 52 contents)"
      using h take_add [of 52 12 contents] by simp
    have cls: "?bs ! EI_CLASS = ELFCLASS32" using id by (simp add: bs encode_ehdr32_def nth_append)
    have dec: "decode_ehdr32 ?bs = h" unfolding bs by (rule decode_encode_ehdr32 [OF id(1)])
    have arr: "decode_array decode_phdr32 32 (length phs) (concat (map encode_phdr32 phs)) = map id phs"
      by (rule decode_encode_array) (simp_all add: length_encode decode_encode_phdr32)
    have "length ?bs = 64" using len by simp
    moreover have "read_ehdr ?bs = Inr h" unfolding read_ehdr_def cls dec by simp
    moreover have "read_phdrs (contents_file contents) ?bs h = Inr phs"
      using read_contents [OF data length_concat_encode(1)] arr assms(2)
      by (simp add: read_phdrs_def cls n [symmetric] Let_def exec_header_def mult.commute [of _ 32])
    ultimately show ?thesis by blast
  qed
  then have exact: "read_exact (contents_file contents) 0 64 = Inr ?bs"
    by (simp add: read_exact_def contents_file_def)
  from read show ?thesis
    by (simp add: NaClElfImageNew_def exact Let_def exec_header_valid [OF assms(2)] del: of_nat_numeral)
qed

subsection \<open>The program headers\<close>

text \<open>A segment that is loaded: the entry of the table it matches is not one to ignore.\<close>

definition check_of :: "Elf_Phdr \<Rightarrow> nat option" where
  "check_of php = (if p_memsz php = 0 then None else find_check php nacl_phdr_check_data)"

definition loads :: "Elf_Phdr \<Rightarrow> bool" where
  "loads php \<longleftrightarrow> (case check_of php of None \<Rightarrow> False | Some j \<Rightarrow> action (nacl_phdr_check_data ! j) \<noteq> PCA_IGNORE)"

lemma find_check_Some:
  "find_check php cs = Some j \<Longrightarrow> j < length cs \<and> p_type php = check_type (cs ! j) \<and> p_flags php = check_flags (cs ! j)"
  by (induction cs arbitrary: j) (auto split: if_splits)

lemma check_table:
  assumes "j < length nacl_phdr_check_data"
  shows "action (nacl_phdr_check_data ! j) = PCA_TEXT_CHECK \<longleftrightarrow> j = 1"
    and "action (nacl_phdr_check_data ! j) = PCA_RODATA \<longleftrightarrow> j = 2"
    and "action (nacl_phdr_check_data ! j) = PCA_DATA \<longleftrightarrow> j = 3"
    and "action (nacl_phdr_check_data ! j) = PCA_NONE \<longleftrightarrow> j = 5"
    and "required (nacl_phdr_check_data ! j) \<longleftrightarrow> j = 1"
    and "check_vaddr (nacl_phdr_check_data ! j) = (if j = 1 then 0x20000 else 0)"
  using assms by (auto simp: nacl_phdr_check_data_def phdr_check_def less_Suc_eq nth_Cons split: nat.splits)

text \<open>The place of a loaded segment.\<close>

definition segment_ok :: "nat \<Rightarrow> Elf_Phdr \<Rightarrow> bool" where
  "segment_ok bits php \<longleftrightarrow> 0x20000 \<le> unat (p_vaddr php) \<and> 0 < unat (p_memsz php) \<and>
     unat (p_vaddr php) + unat (p_memsz php) \<le> 2 ^ bits \<and> unat (p_filesz php) \<le> unat (p_memsz php)"

definition is_text :: "Elf_Phdr \<Rightarrow> bool" where "is_text php \<longleftrightarrow> check_of php = Some 1"
definition is_rodata :: "Elf_Phdr \<Rightarrow> bool" where "is_rodata php \<longleftrightarrow> check_of php = Some 2"
definition is_data :: "Elf_Phdr \<Rightarrow> bool" where "is_data php \<longleftrightarrow> check_of php = Some 3"
definition is_gnu_stack :: "Elf_Phdr \<Rightarrow> bool" where "is_gnu_stack php \<longleftrightarrow> check_of php = Some 5"

lemma loads_kinds: "loads php \<longleftrightarrow> is_text php \<or> is_rodata php \<or> is_data php \<or> is_gnu_stack php"
proof (cases "check_of php")
  case (Some j)
  then have "j < length nacl_phdr_check_data" by (auto simp: check_of_def dest: find_check_Some split: if_splits)
  note t = check_table(1-4) [OF this]
  have "action (nacl_phdr_check_data ! j) \<noteq> PCA_IGNORE \<longleftrightarrow> j = 1 \<or> j = 2 \<or> j = 3 \<or> j = 5"
    unfolding t [symmetric] by (cases "action (nacl_phdr_check_data ! j)") simp_all
  with Some show ?thesis by (auto simp: loads_def is_text_def is_rodata_def is_data_def is_gnu_stack_def)
qed (simp add: loads_def is_text_def is_rodata_def is_data_def is_gnu_stack_def)

lemma check_segment_ok:
  assumes "check_segment bits php c = LOAD_OK" and "p_memsz php \<noteq> 0" and "bits \<le> 32"
  shows "segment_ok bits php" and "check_vaddr c \<noteq> 0 \<Longrightarrow> p_vaddr php = check_vaddr c"
proof -
  have lim: "unat (2 ^ bits :: u64) = 2 ^ bits"
  proof -
    have "(2 :: nat) ^ bits \<le> 2 ^ 32" using assms(3) by (intro power_increasing) simp_all
    then have "(2 :: nat) ^ bits < 2 ^ 64" by (rule le_less_trans) simp
    moreover have "2 ^ bits = (of_nat (2 ^ bits) :: u64)" by simp
    ultimately show ?thesis by (simp add: unat_of_nat take_bit_nat_eq_self del: of_nat_power)
  qed
  have c: "\<not> p_vaddr php < 0x20000" "\<not> (2 ^ bits :: u64) \<le> ucast (p_vaddr php)"
    "\<not> 2 ^ bits - ucast (p_vaddr php) < (ucast (p_memsz php) :: u64)" "\<not> p_filesz php > p_memsz php"
    "check_vaddr c \<noteq> 0 \<Longrightarrow> p_vaddr php = check_vaddr c"
    using assms(1) by (auto simp: check_segment_def push_bit_eq_mult split: if_splits)
  have v: "unat (p_vaddr php) < 2 ^ bits" using c(2) by (simp add: word_le_nat_alt unat_ucast_up lim)
  then have "unat (2 ^ bits - ucast (p_vaddr php) :: u64) = 2 ^ bits - unat (p_vaddr php)"
    by (subst unat_sub_small) (simp_all add: unat_ucast_up lim)
  with c(3) have "unat (p_memsz php) \<le> 2 ^ bits - unat (p_vaddr php)" by (simp add: word_less_nat_alt unat_ucast_up)
  with v c(1,4) assms(2) show "segment_ok bits php"
    by (simp add: segment_ok_def word_less_nat_alt unat_gt_0)
  show "check_vaddr c \<noteq> 0 \<Longrightarrow> p_vaddr php = check_vaddr c" by (rule c(5))
qed

text \<open>What the record of the scan says about the headers seen so far.\<close>

definition seg_value :: "('p \<Rightarrow> bool) \<Rightarrow> ('p \<Rightarrow> u64) \<Rightarrow> 'p list \<Rightarrow> u64 \<Rightarrow> bool" where
  "seg_value P f phs v \<longleftrightarrow> (\<forall>p \<in> set phs. P p \<longrightarrow> v = f p) \<and> ((\<forall>p \<in> set phs. \<not> P p) \<longrightarrow> v = 0)"

definition text_end_of :: "Elf_Phdr \<Rightarrow> u64" where
  "text_end_of php = ucast (0x20000 + p_filesz php)"

definition info_ok :: "Elf_Phdr list \<Rightarrow> NaClElfImageInfo \<Rightarrow> bool" where
  "info_ok phs info \<longleftrightarrow>
     seg_value is_text text_end_of phs (info_static_text_end info) \<and>
     seg_value is_rodata (\<lambda>p. ucast (p_vaddr p)) phs (info_rodata_start info) \<and>
     seg_value is_rodata phdr_end phs (info_rodata_end info) \<and>
     seg_value is_data (\<lambda>p. ucast (p_vaddr p)) phs (info_data_start info) \<and>
     seg_value is_data phdr_end phs (info_data_end info) \<and>
     (\<forall>p \<in> set phs. loads p \<longrightarrow> phdr_end p \<le> info_max_vaddr info) \<and> 0x20000 \<le> info_max_vaddr info \<and>
     (info_max_vaddr info = 0x20000 \<or> (\<exists>p \<in> set phs. loads p \<and> info_max_vaddr info = phdr_end p))"

definition matched :: "Elf_Phdr list \<Rightarrow> nat list" where
  "matched phs = map the (filter (\<lambda>c. c \<noteq> None) (map check_of phs))"

lemma matched_snoc: "matched (phs @ [p]) = matched phs @ (case check_of p of None \<Rightarrow> [] | Some j \<Rightarrow> [j])"
  by (simp add: matched_def split: option.split)

definition scan_ok :: "nat \<Rightarrow> Elf_Phdr list \<Rightarrow> phdr_scan \<Rightarrow> bool" where
  "scan_ok bits phs s \<longleftrightarrow>
     length (seen_seg s) = length nacl_phdr_check_data \<and>
     length (scan_loadable s) = NACL_MAX_PROGRAM_HEADERS \<and>
     (\<forall>i < NACL_MAX_PROGRAM_HEADERS. scan_loadable s ! i \<longleftrightarrow> i < length phs \<and> loads (phs ! i)) \<and>
     (\<forall>j < length nacl_phdr_check_data. seen_seg s ! j \<longleftrightarrow> j \<in> set (matched phs)) \<and> distinct (matched phs) \<and>
     (\<forall>p \<in> set phs. loads p \<longrightarrow> segment_ok bits p) \<and> (\<forall>p \<in> set phs. is_text p \<longrightarrow> p_vaddr p = 0x20000) \<and>
     (\<forall>p \<in> set phs. p_memsz p \<noteq> 0 \<longrightarrow> check_of p \<noteq> None) \<and>
     info_ok phs (scan_info s)"

lemma seg_value_snoc:
  assumes "seg_value P f phs v" and "P p \<Longrightarrow> \<forall>q \<in> set phs. \<not> P q"
  shows "seg_value P f (phs @ [p]) (if P p then f p else v)"
  using assms by (auto simp: seg_value_def)

lemma check_of_table: "check_of p = Some j \<Longrightarrow> j < length nacl_phdr_check_data"
  by (auto simp: check_of_def dest: find_check_Some split: if_splits)

text \<open>One more header; \<open>info_ok\<close> is the caller's.\<close>

lemma scan_ok_snoc:
  assumes "scan_ok bits phs s" and "length phs < NACL_MAX_PROGRAM_HEADERS"
    and "p_memsz p \<noteq> 0 \<Longrightarrow> check_of p \<noteq> None" and "\<And>j. check_of p = Some j \<Longrightarrow> \<not> seen_seg s ! j"
    and "seen_seg s' = (case check_of p of None \<Rightarrow> seen_seg s | Some j \<Rightarrow> (seen_seg s)[j := True])"
    and "scan_loadable s' = (if loads p then (scan_loadable s)[length phs := True] else scan_loadable s)"
    and "loads p \<Longrightarrow> segment_ok bits p" and "is_text p \<Longrightarrow> p_vaddr p = 0x20000"
    and "info_ok (phs @ [p]) (scan_info s')"
  shows "scan_ok bits (phs @ [p]) s'"
proof -
  have s: "length (seen_seg s) = length nacl_phdr_check_data" "length (scan_loadable s) = NACL_MAX_PROGRAM_HEADERS"
    "\<forall>i < NACL_MAX_PROGRAM_HEADERS. scan_loadable s ! i \<longleftrightarrow> i < length phs \<and> loads (phs ! i)"
    "\<forall>j < length nacl_phdr_check_data. seen_seg s ! j \<longleftrightarrow> j \<in> set (matched phs)" "distinct (matched phs)"
    using assms(1) by (simp_all add: scan_ok_def)
  have "\<forall>j < length nacl_phdr_check_data. seen_seg s' ! j \<longleftrightarrow> j \<in> set (matched (phs @ [p]))"
    using s(1,4) check_of_table [of p]
    by (cases "check_of p") (auto simp: assms(5) matched_snoc nth_list_update)
  moreover have "distinct (matched (phs @ [p]))"
    using s(4,5) assms(4) check_of_table by (auto simp: matched_snoc split: option.splits)
  moreover have "length (seen_seg s') = length nacl_phdr_check_data" using s(1) by (simp add: assms(5) split: option.split)
  moreover have "\<forall>i < NACL_MAX_PROGRAM_HEADERS. scan_loadable s' ! i \<longleftrightarrow> i < length (phs @ [p]) \<and> loads ((phs @ [p]) ! i)"
    using s(2,3) assms(2) by (auto simp: assms(6) nth_append less_Suc_eq nth_list_update)
  moreover have "length (scan_loadable s') = NACL_MAX_PROGRAM_HEADERS" using s(2) by (simp add: assms(6))
  ultimately show ?thesis
    using assms(1,3,7-9) unfolding scan_ok_def by simp
qed

lemma check_of_fresh:
  assumes "scan_ok bits phs s" and "check_of p = Some j" and "\<not> seen_seg s ! j" and "q \<in> set phs"
  shows "check_of q \<noteq> Some j"
proof
  assume "check_of q = Some j"
  with assms(4) have "j \<in> set (matched phs)" by (force simp: matched_def)
  with assms(1-3) check_of_table [OF assms(2)] show False by (simp add: scan_ok_def)
qed

lemma info_ok_ignored:
  assumes "info_ok phs info" and "\<not> loads p"
  shows "info_ok (phs @ [p]) info"
  using assms by (auto simp: loads_kinds info_ok_def seg_value_def)

lemma record_segment_ok:
  assumes "info_ok phs info" and "record_segment p (action (nacl_phdr_check_data ! j)) info = Inr info'"
    and "check_of p = Some j" and "\<And>q. q \<in> set phs \<Longrightarrow> check_of q \<noteq> Some j"
    and "action (nacl_phdr_check_data ! j) \<noteq> PCA_IGNORE"
  shows "info_ok (phs @ [p]) info'"
proof -
  let ?i = "if info_max_vaddr info < phdr_end p then info\<lparr> info_max_vaddr := phdr_end p \<rparr> else info"
  have load: "loads p" using assms(3,5) by (simp add: loads_def)
  note t = check_table(1-4) [OF check_of_table [OF assms(3)]]
  have max: "info_max_vaddr ?i = max (info_max_vaddr info) (phdr_end p)" by (auto simp: max_def)
  note old = assms(1) [unfolded info_ok_def]
  have no: "seg_value P f phs v \<Longrightarrow> \<not> P p \<Longrightarrow> seg_value P f (phs @ [p]) v" for P and f :: "Elf_Phdr \<Rightarrow> u64" and v
    by (auto simp: seg_value_def)
  have new: "P p \<Longrightarrow> \<forall>q \<in> set phs. \<not> P q \<Longrightarrow> seg_value P f (phs @ [p]) (f p)" for P and f :: "Elf_Phdr \<Rightarrow> u64"
    by (auto simp: seg_value_def)
  note newv = new [where f = "\<lambda>p. ucast (p_vaddr p)"]
  have m: "(\<forall>q \<in> set (phs @ [p]). loads q \<longrightarrow> phdr_end q \<le> max (info_max_vaddr info) (phdr_end p)) \<and>
      0x20000 \<le> max (info_max_vaddr info) (phdr_end p) \<and>
      (max (info_max_vaddr info) (phdr_end p) = 0x20000 \<or>
       (\<exists>q \<in> set (phs @ [p]). loads q \<and> max (info_max_vaddr info) (phdr_end p) = phdr_end q))"
    using old load by (auto simp: max_def)
  consider "j = 1" | "j = 2" | "j = 3" | "j = 5" using t assms(5) by (cases "action (nacl_phdr_check_data ! j)") auto
  then show ?thesis
  proof cases
    case 1
    then have k: "is_text p" "\<not> is_rodata p" "\<not> is_data p" "\<forall>q \<in> set phs. \<not> is_text q"
      using assms(3,4) by (auto simp: is_text_def is_rodata_def is_data_def)
    have "info' = ?i\<lparr> info_static_text_end := text_end_of p \<rparr>"
      using assms(2) 1 t(1) by (simp add: record_segment_def Let_def text_end_of_def split: if_splits)
    with k m old max show ?thesis by (simp add: info_ok_def no new newv)
  next
    case 2
    then have k: "is_rodata p" "\<not> is_text p" "\<not> is_data p" "\<forall>q \<in> set phs. \<not> is_rodata q"
      using assms(3,4) by (auto simp: is_text_def is_rodata_def is_data_def)
    have "info' = ?i\<lparr> info_rodata_start := ucast (p_vaddr p), info_rodata_end := phdr_end p \<rparr>"
      using assms(2) 2 t(2) by (simp add: record_segment_def Let_def)
    with k m old max show ?thesis by (simp add: info_ok_def no new newv)
  next
    case 3
    then have k: "is_data p" "\<not> is_text p" "\<not> is_rodata p" "\<forall>q \<in> set phs. \<not> is_data q"
      using assms(3,4) by (auto simp: is_text_def is_rodata_def is_data_def)
    have "info' = ?i\<lparr> info_data_start := ucast (p_vaddr p), info_data_end := phdr_end p \<rparr>"
      using assms(2) 3 t(3) by (simp add: record_segment_def Let_def)
    with k m old max show ?thesis by (simp add: info_ok_def no new newv)
  next
    case 4
    then have k: "\<not> is_data p" "\<not> is_text p" "\<not> is_rodata p"
      using assms(3) by (auto simp: is_text_def is_rodata_def is_data_def)
    have "info' = ?i" using assms(2) 4 t(4) by (simp add: record_segment_def Let_def)
    with k m old max show ?thesis by (simp add: info_ok_def no)
  qed
qed

lemma scan_phdr_ok:
  assumes "scan_ok bits phs s" and "scan_phdr bits (length phs) p s = Inr s'" and "bits \<le> 32"
    and "length phs < NACL_MAX_PROGRAM_HEADERS"
  shows "scan_ok bits (phs @ [p]) s'"
proof (cases "p_memsz p = 0")
  case True
  then have "check_of p = None" "\<not> loads p" by (simp_all add: check_of_def loads_def)
  moreover have "s' = s" using True assms(2) by (simp add: scan_phdr_def)
  moreover have "info_ok phs (scan_info s)" using assms(1) by (simp add: scan_ok_def)
  ultimately show ?thesis
    using True assms(1,4) by (intro scan_ok_snoc [OF assms(1)]) (auto simp: is_text_def info_ok_ignored)
next
  case False
  with assms(2) obtain j where j: "check_of p = Some j" "\<not> seen_seg s ! j"
    by (auto simp: scan_phdr_def check_of_def Let_def split: option.splits if_splits)
  let ?c = "nacl_phdr_check_data ! j" and ?s = "s\<lparr> seen_seg := (seen_seg s)[j := True] \<rparr>"
  have old: "info_ok phs (scan_info s)" using assms(1) by (simp add: scan_ok_def)
  have run: "(if action ?c = PCA_IGNORE then Inr ?s
      else let err = check_segment bits p ?c in
        if err \<noteq> LOAD_OK then Inl err
        else case record_segment p (action ?c) (scan_info s) of
            Inl e \<Rightarrow> Inl e
          | Inr info \<Rightarrow> Inr (?s\<lparr> scan_loadable := (scan_loadable s)[length phs := True], scan_info := info \<rparr>)) = Inr s'"
    using assms(2) False j by (simp add: scan_phdr_def check_of_def Let_def cong: if_cong sum.case_cong)
  show ?thesis
  proof (cases "action ?c = PCA_IGNORE")
    case True
    then have "\<not> loads p" using j by (simp add: loads_def)
    moreover have "s' = ?s" using run True by simp
    ultimately show ?thesis
      using j info_ok_ignored [OF old] assms(4)
      by (intro scan_ok_snoc [OF assms(1)]) (auto simp: loads_kinds)
  next
    case load: False
    then have l: "loads p" using j by (simp add: loads_def)
    from run load obtain info where chk: "check_segment bits p ?c = LOAD_OK"
      and rec: "record_segment p (action ?c) (scan_info s) = Inr info"
      and s': "s' = ?s\<lparr> scan_loadable := (scan_loadable s)[length phs := True], scan_info := info \<rparr>"
      by (auto simp: Let_def split: if_splits sum.splits)
    note seg = check_segment_ok [OF chk False assms(3)]
    have "info_ok (phs @ [p]) info"
      by (rule record_segment_ok [OF old rec j(1) _ load]) (rule check_of_fresh [OF assms(1) j])
    moreover have "is_text p \<Longrightarrow> p_vaddr p = 0x20000"
      using seg(2) check_table(6) [OF check_of_table [OF j(1)]] j(1) by (simp add: is_text_def)
    ultimately show ?thesis
      using j l seg(1) assms(4) by (intro scan_ok_snoc [OF assms(1)]) (simp_all add: s')
  qed
qed

lemma scan_phdrs_ok:
  assumes "scan_phdrs bits (length pre) phs s = Inr s'" and "scan_ok bits pre s" and "bits \<le> 32"
    and "length pre + length phs \<le> NACL_MAX_PROGRAM_HEADERS"
  shows "scan_ok bits (pre @ phs) s'"
  using assms
proof (induction phs arbitrary: pre s)
  case (Cons p phs)
  then obtain s1 where s1: "scan_phdr bits (length pre) p s = Inr s1" "scan_phdrs bits (Suc (length pre)) phs s1 = Inr s'"
    by (auto split: sum.splits)
  have "scan_ok bits (pre @ [p]) s1"
    using Cons.prems(2-4) s1(1) by (intro scan_phdr_ok) simp_all
  with Cons.IH [of "pre @ [p]" s1] s1(2) Cons.prems(3,4) show ?case by simp
qed simp

text \<open>The result of the validation.\<close>

definition headers_ok :: "nat \<Rightarrow> NaClElfImage \<Rightarrow> NaClElfImageInfo \<Rightarrow> bool" where
  "headers_ok bits img info \<longleftrightarrow> length (phdrs img) \<le> NACL_MAX_PROGRAM_HEADERS \<and>
     (\<exists>t \<in> set (phdrs img). is_text t) \<and> distinct (matched (phdrs img)) \<and>
     (\<forall>i < NACL_MAX_PROGRAM_HEADERS. loadable img ! i \<longleftrightarrow> i < length (phdrs img) \<and> loads (phdrs img ! i)) \<and>
     (\<forall>p \<in> set (phdrs img). loads p \<longrightarrow> segment_ok bits p) \<and>
     (\<forall>p \<in> set (phdrs img). is_text p \<longrightarrow> p_vaddr p = 0x20000) \<and>
     (\<forall>p \<in> set (phdrs img). p_memsz p \<noteq> 0 \<longrightarrow> check_of p \<noteq> None) \<and> info_ok (phdrs img) info"

definition new_image :: "NaClElfImage \<Rightarrow> bool" where
  "new_image img \<longleftrightarrow> length (phdrs img) = unat (e_phnum (ehdr img)) \<and>
     length (phdrs img) \<le> NACL_MAX_PROGRAM_HEADERS \<and> loadable img = replicate NACL_MAX_PROGRAM_HEADERS False"

lemma validate_headers:
  assumes "NaClElfImageValidateProgramHeaders img bits = Inr (img', info)" and "new_image img" and "bits \<le> 32"
  shows "headers_ok bits img' info" and "phdrs img' = phdrs img" and "ehdr img' = ehdr img"
proof -
  let ?info = "\<lparr> info_static_text_end = 0, info_rodata_start = 0, info_rodata_end = 0, info_data_start = 0,
     info_data_end = 0, info_max_vaddr = 0x20000 \<rparr>"
  let ?s = "\<lparr> seen_seg = replicate (length nacl_phdr_check_data) False, scan_loadable = loadable img, scan_info = ?info \<rparr>"
  obtain s where run: "scan_phdrs bits 0 (phdrs img) ?s = Inr s" and seen: "\<not> required_missing (seen_seg s)"
    and img': "img' = img\<lparr> loadable := scan_loadable s \<rparr>" and info: "info = scan_info s"
    using assms(1,2)
    by (auto simp: NaClElfImageValidateProgramHeaders_def new_image_def Let_def split: sum.splits if_splits)
  have "scan_ok bits [] ?s"
    using assms(2) by (simp add: scan_ok_def matched_def info_ok_def seg_value_def new_image_def)
  with scan_phdrs_ok [of bits "[]"] run assms(2,3) have ok: "scan_ok bits (phdrs img) s"
    by (simp add: new_image_def)
  have "seen_seg s ! 1"
    using seen by (auto simp: required_missing_def list_ex_iff nacl_phdr_check_data_def phdr_check_def)
  then have "1 \<in> set (matched (phdrs img))" using ok by (simp add: scan_ok_def nacl_phdr_check_data_def)
  then have "\<exists>t \<in> set (phdrs img). is_text t" by (auto simp: matched_def is_text_def)
  with ok assms(2) show "headers_ok bits img' info"
    by (simp add: headers_ok_def scan_ok_def img' info new_image_def)
  show "phdrs img' = phdrs img" "ehdr img' = ehdr img" by (simp_all add: img')
qed

lemma elf_image_new_image:
  assumes "NaClElfImageNew malloc pread = Inr (Inr img)"
  shows "new_image img"
proof -
  have len: "length (decode_array d sz n bs) = n" for d :: "u8 list \<Rightarrow> 'a Phdr" and sz n bs by (simp add: decode_array_def)
  have phs: "length phs = unat (e_phnum h)" if "read_phdrs pread bs h = Inr phs" for bs h phs
    using that by (auto simp: read_phdrs_def Let_def decode_array_def split: if_splits sum.splits)
  from assms obtain bs h phs where "read_phdrs pread bs h = Inr phs" "\<not> e_phnum h > of_nat NACL_MAX_PROGRAM_HEADERS"
    "img = \<lparr> ehdr = h, phdrs = phs, loadable = replicate NACL_MAX_PROGRAM_HEADERS False \<rparr>"
    by (auto simp: NaClElfImageNew_def Let_def split: sum.splits if_splits)
  with phs show ?thesis by (auto simp: new_image_def word_less_nat_alt not_less)
qed

definition segment_kind :: "Elf_Phdr \<Rightarrow> u32 \<times> u32" where
  "segment_kind php = (p_type php, p_flags php)"

text \<open>The kinds of segments, written out: type and access rights.\<close>

definition allowed_kinds :: "(u32 \<times> u32) list" where
  "allowed_kinds = [(PT_LOAD, PF_R OR PF_X), (PT_LOAD, PF_R), (PT_LOAD, PF_R OR PF_W),
     (PT_GNU_STACK, PF_R OR PF_W), (0, PF_R), (2, PF_R), (2, PF_R OR PF_W), (3, PF_R), (4, PF_R),
     (6, PF_R), (7, PF_R), (0x6474e550, PF_R), (0x6474e552, PF_R)]"

definition text_phdr :: "Elf_Phdr \<Rightarrow> bool" where
  "text_phdr php \<longleftrightarrow> p_memsz php \<noteq> 0 \<and> segment_kind php = (PT_LOAD, PF_R OR PF_X)"

definition rodata_phdr :: "Elf_Phdr \<Rightarrow> bool" where
  "rodata_phdr php \<longleftrightarrow> p_memsz php \<noteq> 0 \<and> segment_kind php = (PT_LOAD, PF_R)"

definition data_phdr :: "Elf_Phdr \<Rightarrow> bool" where
  "data_phdr php \<longleftrightarrow> p_memsz php \<noteq> 0 \<and> segment_kind php = (PT_LOAD, PF_R OR PF_W)"

definition stack_phdr :: "Elf_Phdr \<Rightarrow> bool" where
  "stack_phdr php \<longleftrightarrow> p_memsz php \<noteq> 0 \<and> segment_kind php = (PT_GNU_STACK, PF_R OR PF_W)"

definition loaded_phdr :: "Elf_Phdr \<Rightarrow> bool" where
  "loaded_phdr php \<longleftrightarrow> text_phdr php \<or> rodata_phdr php \<or> data_phdr php \<or> stack_phdr php"

lemma find_check_kind:
  "segment_kind p = segment_kind q \<Longrightarrow> find_check p cs = find_check q cs"
  by (induction cs) (simp_all add: segment_kind_def)

lemma kinds:
  "is_text = text_phdr" "is_rodata = rodata_phdr" "is_data = data_phdr" "is_gnu_stack = stack_phdr"
  by (auto simp: fun_eq_iff is_text_def is_rodata_def is_data_def is_gnu_stack_def text_phdr_def rodata_phdr_def
      data_phdr_def stack_phdr_def segment_kind_def check_of_def nacl_phdr_check_data_def phdr_check_def)

lemma loads_loaded: "loads = loaded_phdr"
  by (simp add: fun_eq_iff loads_kinds kinds loaded_phdr_def)

lemma check_of_kind:
  assumes "check_of p \<noteq> None"
  shows "segment_kind p \<in> set allowed_kinds"
  using assms
  by (auto simp: check_of_def nacl_phdr_check_data_def phdr_check_def segment_kind_def allowed_kinds_def split: if_splits)

text \<open>
  The summary in plain numbers.  The sums of the code have 32 bits, so the end of a segment
  that reaches up to 4 GB is recorded as 0.
\<close>

definition seg_end :: "Elf_Phdr \<Rightarrow> nat" where
  "seg_end php = unat (p_vaddr php) + unat (p_memsz php)"

definition recorded_end :: "nat \<Rightarrow> nat" where
  "recorded_end e = (if e = 2 ^ 32 then 0 else e)"

definition summary_ok :: "Elf_Phdr list \<Rightarrow> NaClElfImageInfo \<Rightarrow> bool" where
  "summary_ok phs info \<longleftrightarrow>
     (\<forall>p \<in> set phs. text_phdr p \<longrightarrow>
        unat (info_static_text_end info) = recorded_end (0x20000 + unat (p_filesz p))) \<and>
     (\<forall>p \<in> set phs. rodata_phdr p \<longrightarrow> unat (info_rodata_start info) = unat (p_vaddr p) \<and>
        unat (info_rodata_end info) = recorded_end (seg_end p)) \<and>
     ((\<forall>p \<in> set phs. \<not> rodata_phdr p) \<longrightarrow> info_rodata_start info = 0 \<and> info_rodata_end info = 0) \<and>
     (\<forall>p \<in> set phs. data_phdr p \<longrightarrow> unat (info_data_start info) = unat (p_vaddr p) \<and>
        unat (info_data_end info) = recorded_end (seg_end p)) \<and>
     ((\<forall>p \<in> set phs. \<not> data_phdr p) \<longrightarrow> info_data_start info = 0 \<and> info_data_end info = 0) \<and>
     (\<forall>p \<in> set phs. loaded_phdr p \<longrightarrow> recorded_end (seg_end p) \<le> unat (info_max_vaddr info)) \<and>
     0x20000 \<le> unat (info_max_vaddr info) \<and>
     (unat (info_max_vaddr info) = 0x20000 \<or>
      (\<exists>p \<in> set phs. loaded_phdr p \<and> unat (info_max_vaddr info) = recorded_end (seg_end p)))"

lemma unat_sum32:
  fixes a b :: u32
  assumes "unat a + unat b \<le> 2 ^ 32"
  shows "unat (ucast (a + b) :: u64) = recorded_end (unat a + unat b)"
proof (cases "unat a + unat b = 2 ^ 32")
  case True
  then show ?thesis by (simp add: recorded_end_def unat_ucast_up unat_word_ariths)
next
  case False
  then have "unat (a + b) = unat a + unat b" using assms by (subst unat_add_small) simp_all
  with False show ?thesis by (simp add: recorded_end_def unat_ucast_up)
qed

lemma segment_ends:
  assumes "segment_ok bits p" and "bits \<le> 32"
  shows "unat (phdr_end p) = recorded_end (seg_end p)"
    and "p_vaddr p = 0x20000 \<Longrightarrow> unat (text_end_of p) = recorded_end (0x20000 + unat (p_filesz p))"
proof -
  have "(2 :: nat) ^ bits \<le> 2 ^ 32" using assms(2) by (intro power_increasing) simp_all
  then have le: "unat (p_vaddr p) + unat (p_memsz p) \<le> 2 ^ 32" "unat (p_filesz p) \<le> unat (p_memsz p)"
    using assms(1) by (simp_all add: segment_ok_def)
  show "unat (phdr_end p) = recorded_end (seg_end p)"
    unfolding phdr_end_def seg_end_def by (rule unat_sum32 [OF le(1)])
  have "unat (ucast (0x20000 + p_filesz p) :: u64) = recorded_end (unat (0x20000 :: u32) + unat (p_filesz p))"
    if "p_vaddr p = 0x20000"
    using le that by (intro unat_sum32) simp
  then show "p_vaddr p = 0x20000 \<Longrightarrow> unat (text_end_of p) = recorded_end (0x20000 + unat (p_filesz p))"
    unfolding text_end_of_def by simp
qed

lemma headers_summary:
  assumes "headers_ok bits img info" and "bits \<le> 32"
  shows "summary_ok (phdrs img) info"
proof -
  have h: "info_ok (phdrs img) info" "\<And>p. p \<in> set (phdrs img) \<Longrightarrow> loaded_phdr p \<Longrightarrow> segment_ok bits p"
    "\<And>p. p \<in> set (phdrs img) \<Longrightarrow> text_phdr p \<Longrightarrow> p_vaddr p = 0x20000"
    using assms(1) by (simp_all add: headers_ok_def loads_loaded kinds)
  have e: "unat (phdr_end p) = recorded_end (seg_end p)" if "p \<in> set (phdrs img)" "loaded_phdr p" for p
    by (rule segment_ends(1) [OF h(2) [OF that] assms(2)])
  have t: "unat (text_end_of p) = recorded_end (0x20000 + unat (p_filesz p))"
    if "p \<in> set (phdrs img)" "text_phdr p" for p
    using segment_ends(2) [OF h(2) assms(2) h(3) [OF that]] that by (simp add: loaded_phdr_def)
  have l: "rodata_phdr p \<Longrightarrow> loaded_phdr p" "data_phdr p \<Longrightarrow> loaded_phdr p" for p by (simp_all add: loaded_phdr_def)
  note i = h(1) [unfolded info_ok_def seg_value_def kinds loads_loaded]
  have m: "recorded_end (seg_end p) \<le> unat (info_max_vaddr info)" if "p \<in> set (phdrs img)" "loaded_phdr p" for p
    using i that unfolding e [OF that, symmetric] by (simp add: word_le_nat_alt)
  have "(0x20000 :: u64) \<le> info_max_vaddr info" using i by blast
  then have low: "0x20000 \<le> unat (info_max_vaddr info)" by (simp add: word_le_nat_alt)
  have top: "unat (info_max_vaddr info) = 0x20000 \<or>
      (\<exists>p \<in> set (phdrs img). loaded_phdr p \<and> unat (info_max_vaddr info) = recorded_end (seg_end p))"
  proof -
    have "info_max_vaddr info = 0x20000 \<or> (\<exists>p \<in> set (phdrs img). loaded_phdr p \<and> info_max_vaddr info = phdr_end p)"
      using i by blast
    then show ?thesis
    proof
      assume "info_max_vaddr info = 0x20000"
      then show ?thesis by simp
    next
      assume "\<exists>p \<in> set (phdrs img). loaded_phdr p \<and> info_max_vaddr info = phdr_end p"
      with e show ?thesis by metis
    qed
  qed
  show ?thesis
    unfolding summary_ok_def
  proof (intro conjI ballI impI low top m)
  qed (use i e t l in \<open>simp_all add: unat_ucast_up\<close>)
qed

lemma matched_unique:
  assumes "distinct (matched phs)" and "i < k" and "k < length phs" and "check_of (phs ! i) = Some j"
  shows "check_of (phs ! k) \<noteq> Some j"
  using assms
proof (induction phs rule: rev_induct)
  case (snoc p phs)
  show ?case
  proof (cases "k < length phs")
    case True
    with snoc show ?thesis by (auto simp: matched_snoc nth_append)
  next
    case False
    with snoc.prems have k: "k = length phs" "i < length phs" by auto
    then have "j \<in> set (matched phs)" using snoc.prems(4) by (force simp: matched_def nth_append)
    with snoc.prems(1) k show ?thesis by (auto simp: matched_snoc)
  qed
qed simp

subsection \<open>Properties\<close>

text \<open> C13. Executables are read back exactly.  When a file holds the header of an x86-64 executable and its
  program headers, at most 128, in the 32-bit or in the 64-bit ELF format, \<open>NaClElfImageNew\<close>
  returns exactly this header and these program headers, in the 32-bit format.\<close>

theorem elf_image_roundtrip:
  assumes "holds_elf wide contents h phs" and "exec_header h"
  shows "NaClElfImageNew True (contents_file contents) =
    Inr (Inr \<lparr> ehdr = h, phdrs = phs, loadable = replicate 128 False \<rparr>)"
  using assms by (rule elf_image_new)

text \<open> C11. Validated program headers are safe to load.  When \<open>NaClElfImageValidateProgramHeaders\<close> accepts an
  image: every non-empty segment has one of the 13 allowed pairs of type and access rights, and no two
  have the same one; exactly one is the text segment; exactly the text, read-only data, data and stack
  segments are marked for loading; these lie above the trampolines and inside the
  address space, their file part is no larger than their memory part, none is writable and executable, and
  an executable one is the text segment and starts at 0x20000; and the summary has the real bounds
  of these segments, but for one case: the end of a segment that reaches exactly up to 4 GB is
  recorded as 0 (the comment in the code takes every end to be below the limit).\<close>

theorem program_headers_safe:
  assumes "NaClElfImageValidateProgramHeaders img bits = Inr (img', info)" and "new_image img" and "bits \<le> 32"
  shows "(\<exists>!i. i < length (phdrs img) \<and> text_phdr (phdrs img ! i)) \<and>
    (\<forall>p \<in> set (phdrs img). p_memsz p \<noteq> 0 \<longrightarrow> segment_kind p \<in> set allowed_kinds) \<and>
    (\<forall>i k. i < k \<and> k < length (phdrs img) \<and> p_memsz (phdrs img ! i) \<noteq> 0 \<and> p_memsz (phdrs img ! k) \<noteq> 0 \<longrightarrow>
       segment_kind (phdrs img ! i) \<noteq> segment_kind (phdrs img ! k)) \<and>
    (\<forall>i < length (phdrs img). loadable img' ! i \<longleftrightarrow> loaded_phdr (phdrs img ! i)) \<and>
    (\<forall>i < length (phdrs img). loadable img' ! i \<longrightarrow> segment_ok bits (phdrs img ! i) \<and>
       (p_flags (phdrs img ! i) AND PF_W = 0 \<or> p_flags (phdrs img ! i) AND PF_X = 0) \<and>
       (p_flags (phdrs img ! i) AND PF_X \<noteq> 0 \<longrightarrow> text_phdr (phdrs img ! i) \<and> p_vaddr (phdrs img ! i) = 0x20000)) \<and>
    summary_ok (phdrs img) info"
proof -
  note ok = validate_headers [OF assms]
  note h = ok(1) [unfolded headers_ok_def ok(2) loads_loaded kinds]
  note sum = headers_summary [OF ok(1) assms(3), unfolded ok(2)]
  have known: "check_of p \<noteq> None" if "p \<in> set (phdrs img)" "p_memsz p \<noteq> 0" for p using h that by blast
  have unique: "segment_kind (phdrs img ! i) \<noteq> segment_kind (phdrs img ! k)"
    if "i < k" "k < length (phdrs img)" "p_memsz (phdrs img ! i) \<noteq> 0" "p_memsz (phdrs img ! k) \<noteq> 0" for i k
  proof
    note nonempty = that(3)
    assume same: "segment_kind (phdrs img ! i) = segment_kind (phdrs img ! k)"
    have "check_of (phdrs img ! k) = check_of (phdrs img ! i)"
      unfolding check_of_def find_check_kind [OF same] using that(3,4) by simp
    moreover have "phdrs img ! i \<in> set (phdrs img)" using that(1,2) by simp
    then obtain j where "check_of (phdrs img ! i) = Some j" using known nonempty by blast
    ultimately show False using matched_unique [OF _ that(1,2)] h by metis
  qed
  obtain i where i: "i < length (phdrs img)" "text_phdr (phdrs img ! i)" using h by (auto simp: in_set_conv_nth)
  have "k = i" if "k < length (phdrs img)" "text_phdr (phdrs img ! k)" for k
    using unique [of i k] unique [of k i] i that by (cases i k rule: linorder_cases) (auto simp: text_phdr_def)
  with i have one: "\<exists>!i. i < length (phdrs img) \<and> text_phdr (phdrs img ! i)" by blast
  have load: "loadable img' ! i \<longleftrightarrow> loaded_phdr (phdrs img ! i)" if "i < length (phdrs img)" for i
  proof -
    have "i < NACL_MAX_PROGRAM_HEADERS" using h that by linarith
    then show ?thesis using h that by blast
  qed
  have seg: "segment_ok bits (phdrs img ! i) \<and>
       (p_flags (phdrs img ! i) AND PF_W = 0 \<or> p_flags (phdrs img ! i) AND PF_X = 0) \<and>
       (p_flags (phdrs img ! i) AND PF_X \<noteq> 0 \<longrightarrow> text_phdr (phdrs img ! i) \<and> p_vaddr (phdrs img ! i) = 0x20000)"
    if "i < length (phdrs img)" "loadable img' ! i" for i
  proof -
    have l: "loaded_phdr (phdrs img ! i)" using load that by blast
    then consider "text_phdr (phdrs img ! i)" | "rodata_phdr (phdrs img ! i)" | "data_phdr (phdrs img ! i)"
      | "stack_phdr (phdrs img ! i)" by (auto simp: loaded_phdr_def)
    then show ?thesis using h l nth_mem [OF that(1)]
      by cases (auto simp: text_phdr_def rodata_phdr_def data_phdr_def stack_phdr_def segment_kind_def)
  qed
  show ?thesis using one unique seg load sum known check_of_kind by blast
qed

subsection \<open>The properties at a concrete executable\<close>

definition sample_phdr :: "u32 \<Rightarrow> u32 \<Rightarrow> u32 \<Rightarrow> u32 \<Rightarrow> u32 \<Rightarrow> Elf_Phdr" where
  "sample_phdr off va fsz msz fl = \<lparr> p_type = PT_LOAD, p_offset = off, p_vaddr = va, p_paddr = va, p_filesz = fsz,
     p_memsz = msz, p_flags = fl, p_align = 0x10000 \<rparr>"

definition sample_phdrs :: "Elf_Phdr list" where
  "sample_phdrs = [sample_phdr 0x10000 0x20000 0x40 0x40 5, sample_phdr 0x20000 0x10020000 0x100 0x100 4,
     sample_phdr 0x30000 0x10030000 0x80 0x200 6]"

definition sample_ehdr :: Elf_Ehdr where
  "sample_ehdr = \<lparr> e_ident = [0x7f, 0x45, 0x4c, 0x46, 1, 1, 1, 0, 0, 0, 0, 0, 0, 0, 0, 0], e_type = ET_EXEC,
     e_machine = EM_X86_64, e_version = EV_CURRENT, e_entry = 0x20000, e_phoff = 0x40, e_shoff = 0, e_flags = 0,
     e_ehsize = 52, e_phentsize = 32, e_phnum = 3, e_shentsize = 0, e_shnum = 0, e_shstrndx = 0 \<rparr>"

definition sample_elf :: "u8 list" where
  "sample_elf = encode_ehdr64 (widen_ehdr sample_ehdr) @ concat (map (encode_phdr64 \<circ> widen_phdr) sample_phdrs)"

definition sample_image :: NaClElfImage where
  "sample_image = \<lparr> ehdr = sample_ehdr, phdrs = sample_phdrs, loadable = replicate 128 False \<rparr>"

lemma sample_exec: "exec_header sample_ehdr"
  by (simp add: exec_header_def sample_ehdr_def)

lemma sample_holds: "holds_elf True sample_elf sample_ehdr sample_phdrs"
proof -
  have "length (encode_ehdr64 (widen_ehdr sample_ehdr)) = 64"
    by (rule length_encode(4)) (simp add: widen_ehdr_def sample_ehdr_def)
  then show ?thesis
    using length_concat_encode(2) [of sample_phdrs]
    by (simp add: holds_elf_def sample_elf_def sample_phdrs_def) (simp add: sample_ehdr_def)
qed

lemma elf_image_roundtrip_witness:
  "NaClElfImageNew True (contents_file sample_elf) = Inr (Inr sample_image)"
  unfolding sample_image_def by (rule elf_image_roundtrip [OF sample_holds sample_exec])

lemma sample_new: "new_image sample_image"
  by (simp add: new_image_def sample_image_def sample_ehdr_def sample_phdrs_def)

definition sample_loadable :: NaClElfImage where
  "sample_loadable = sample_image\<lparr> loadable := [True, True, True] @ replicate 125 False \<rparr>"

definition sample_info :: NaClElfImageInfo where
  "sample_info = \<lparr> info_static_text_end = 0x20040, info_rodata_start = 0x10020000, info_rodata_end = 0x10020100,
     info_data_start = 0x10030000, info_data_end = 0x10030200, info_max_vaddr = 0x10030200 \<rparr>"

lemma sample_valid: "NaClElfImageValidateProgramHeaders sample_image 32 = Inr (sample_loadable, sample_info)"
proof -
  have "replicate 128 False = [False, False, False] @ replicate 125 False" by (simp add: numeral_eq_Suc)
  then show ?thesis
    by (simp add: NaClElfImageValidateProgramHeaders_def sample_image_def sample_loadable_def sample_info_def sample_phdrs_def
        sample_ehdr_def sample_phdr_def scan_phdr_def nacl_phdr_check_data_def phdr_check_def check_segment_def
        record_segment_def phdr_end_def required_missing_def Let_def)
qed

lemma program_headers_safe_witness:
  "NaClElfImageValidateProgramHeaders sample_image 32 = Inr (sample_loadable, sample_info) \<and>
    loaded_phdr (sample_phdrs ! 2) \<and> segment_ok 32 (sample_phdrs ! 2) \<and> summary_ok sample_phdrs sample_info"
proof -
  have p: "phdrs sample_image = sample_phdrs" "loadable sample_loadable ! 2" "2 < length sample_phdrs"
    by (simp_all add: sample_image_def sample_loadable_def sample_phdrs_def)
  note s = program_headers_safe [OF sample_valid sample_new, unfolded p(1), simplified]
  have "loaded_phdr (sample_phdrs ! 2)" "segment_ok 32 (sample_phdrs ! 2)" "summary_ok sample_phdrs sample_info"
    using s p(2,3) by blast+
  with sample_valid show ?thesis by blast
qed

end
