(* ===== verification/Load_File.thy ===== *)
theory Load_File
  imports Elf_Image Sys_Mmap
begin

text \<open>
  Loading an executable: \<open>NaClAppLoadFileAslr\<close> of \<open>sel_ldr_standard.c\<close> with the functions it calls in
  \<open>elf_util.c\<close> (segments), \<open>sel_addrspace.c\<close> (address space and memory protection),
  \<open>arch/x86_64/sel_addrspace_posix_x86_64.c\<close>, \<open>arch/x86_64/sel_ldr_x86_64.c\<close> and \<open>sel_ldr.c\<close> (trampolines).

  \<open>user_mem\<close> is the memory of the process by address, as far as the loader writes it.  The file is a
  descriptor number; \<open>LoadOps\<close> adds its method \<open>PRead\<close> to the other descriptor operations.
\<close>

record NaClLoadApp = NaClTextApp +
  stack_size :: u64
  initial_nexe_max_code_bytes :: u32
  initial_entry_pt :: u64
  user_entry_pt :: u64
  main_exe_prevalidated :: bool
  nacl_syscall_addr :: u64
  get_tls_fast_path1_addr :: u64
  get_tls_fast_path2_addr :: u64
  user_mem :: "u64 \<Rightarrow> u8"

record 'md LoadOps = "'md DescOps" +
  PRead :: "nat \<Rightarrow> elf_file"

type_synonym 'a load = "('a NaClLoadApp_scheme \<times> NaClErrorCode) run"

subsection \<open>A fresh application (sel_ldr.c)\<close>

text \<open>The fields that the model keeps, as \<open>NaClAppWithSyscallTableCtor\<close> sets them; the two flags are the
  environment's, and the descriptor table comes from its constructor.\<close>

definition NaClAppCtor :: "bool \<Rightarrow> bool \<Rightarrow> nat DynArray \<Rightarrow> (nat \<Rightarrow> int) \<Rightarrow> NaClLoadApp" where
  "NaClAppCtor enable_dyncode dynamic_loading tbl refs =
     \<lparr> addr_bits = 32, mem_start = 0, static_text_end = 0, dynamic_text_start = 0, dynamic_text_end = 0,
       rodata_start = 0, data_start = 0, data_end = 0, break_addr = 0, bundle_size = 0, pnacl_mode = False,
       enable_dyncode_syscalls = enable_dyncode, mem_map = NaClVmmapCtor refs, desc_tbl = tbl,
       mem_io_regions = NaClIntervalRangeTreeCtor, host_log = [],
       validation_cache = False, fixed_feature_cpu_mode = False, ignore_validator_result = False,
       skip_validator = False, validator_stub_out_mode = False,
       use_shm_for_dynamic_text = dynamic_loading, text_shm = None, text_mem = (\<lambda>_. 0), dynamic_page_bitmap = [],
       dynamic_regions = [], dynamic_regions_allocated = 0, dynamic_mapcache_offset = 0,
       dynamic_mapcache_size = 0, dynamic_mapcache_ret = 0, dynamic_delete_generation = 0, thread_generations = [],
       stack_size = 0x1000000, initial_nexe_max_code_bytes = 0, initial_entry_pt = 0, user_entry_pt = 0,
       main_exe_prevalidated = False, nacl_syscall_addr = 0, get_tls_fast_path1_addr = 0,
       get_tls_fast_path2_addr = 0, user_mem = (\<lambda>_. 0) \<rparr>"

subsection \<open>Loading the segments (elf_util.c)\<close>

text \<open>\<open>PRead\<close> into memory; a short read still leaves what it has read.\<close>

definition pread_into ::
  "'md LoadOps \<Rightarrow> 'a NaClLoadApp_scheme \<Rightarrow> nat \<Rightarrow> u64 \<Rightarrow> u64 \<Rightarrow> u64 \<Rightarrow> 'a NaClLoadApp_scheme \<times> bool" where
  "pread_into ops nap d addr n off =
     (case PRead ops d off (unat n) of
        None \<Rightarrow> (nap, False)
      | Some bs \<Rightarrow> (nap\<lparr> user_mem := write_bytes (user_mem nap) addr bs \<rparr>, length bs = unat n))"

text \<open>The scratch mapping of the text segment and its validation.\<close>

definition prevalidate_text ::
  "os \<Rightarrow> 'md LoadOps \<Rightarrow> 'md NaClValidatorInterface \<Rightarrow> 'a NaClLoadApp_scheme \<Rightarrow> nat \<Rightarrow> u32 \<Rightarrow> u32 \<Rightarrow> u64 \<Rightarrow> u64 \<Rightarrow>
   ('a NaClLoadApp_scheme \<times> bool) run" where
  "prevalidate_text os ops validator nap ndp file_offset segment_size rounded_filesz vaddr =
     (if \<not> is_host_io ops ndp then Inr (nap, False)
      else
        let (image_sys_addr, nap) = host os nap (HostMapTrusted ndp rounded_filesz PROT_READ MAP_PRIVATE (ucast file_offset)) in
        if NaClPtrIsNegErrno image_sys_addr then Inr (nap, False)
        else
          andThen (check (ucast segment_size = static_text_end nap - NACL_TRAMPOLINE_END)) (\<lambda>_.
          let (validator_status, _) =
                Validate validator vaddr (DescOps.image ops (host_log nap) image_sys_addr (ucast segment_size))
                  False True (Some (MetadataFromNaClDesc ops ndp)) (validation_cache nap) in
          andThen (NaClDescUnmapUnsafe os nap image_sys_addr rounded_filesz) (\<lambda>nap.
          if validator_status \<noteq> NaClValidationSucceeded then Inr (nap, False)
          else Inr (nap\<lparr> main_exe_prevalidated := True \<rparr>, True))))"

text \<open>Reading the last, partial page, and mapping the others.\<close>

definition map_pages ::
  "os \<Rightarrow> 'md LoadOps \<Rightarrow> 'a NaClLoadApp_scheme \<Rightarrow> nat \<Rightarrow> u32 \<Rightarrow> u32 \<Rightarrow> u64 \<Rightarrow> u32 \<Rightarrow> bool \<Rightarrow> u64 \<Rightarrow> 'a load" where
  "map_pages os ops nap ndp file_offset segment_size rounded_filesz mmap_prot read_last paddr =
     (let tail_offset = rounded_filesz - NACL_MAP_PAGESIZE;
          tail_size = ucast segment_size - tail_offset;
          partial = (rounded_filesz \<noteq> ucast segment_size \<and> read_last);
          (nap, ok) = (if partial then pread_into ops nap ndp (paddr + tail_offset) tail_size (ucast file_offset + tail_offset)
                       else (nap, True));
          rounded_filesz = (if partial then rounded_filesz - NACL_MAP_PAGESIZE else rounded_filesz) in
      if \<not> ok then Inr (nap, LOAD_SEGMENT_BAD_PARAM)
      else if rounded_filesz = 0 then Inr (nap, LOAD_OK)
      else
        let (image_sys_addr, nap) = host os nap
              (HostMapDesc ndp paddr rounded_filesz mmap_prot (MAP_PRIVATE OR MAP_FIXED) (ucast file_offset)) in
        if image_sys_addr \<noteq> paddr then Inl LogFatal
        else Inr (nap\<lparr> user_mem := write_bytes (user_mem nap) paddr
                         (DescOps.image ops (host_log nap) paddr rounded_filesz) \<rparr>, LOAD_OK))"

definition NaClElfFileMapSegment ::
  "os \<Rightarrow> 'md LoadOps \<Rightarrow> 'md NaClValidatorInterface \<Rightarrow> 'a NaClLoadApp_scheme \<Rightarrow> nat \<Rightarrow> u32 \<Rightarrow> u32 \<Rightarrow> u32 \<Rightarrow> u64 \<Rightarrow> u64 \<Rightarrow>
   'a load" where
  "NaClElfFileMapSegment os ops validator nap ndp fl file_offset segment_size vaddr paddr =
     (let rounded_filesz = NaClRoundAllocPage (ucast segment_size) in
      if fl = PF_R OR PF_X then
        andThen (prevalidate_text os ops validator nap ndp file_offset segment_size rounded_filesz vaddr) (\<lambda>(nap, ok).
        if \<not> ok then Inr (nap, LOAD_STATUS_UNKNOWN)
        else map_pages os ops nap ndp file_offset segment_size rounded_filesz (PROT_READ OR PROT_EXEC) True paddr)
      else if fl = PF_R OR PF_W then
        map_pages os ops nap ndp file_offset segment_size rounded_filesz (PROT_READ OR PROT_WRITE) True paddr
      else if fl = PF_R then
        map_pages os ops nap ndp file_offset segment_size rounded_filesz PROT_READ False paddr
      else Inl LogFatal)"

text \<open>One round of the loop of \<open>NaClElfImageLoad\<close>, for a segment that is to be loaded.\<close>

definition load_segment ::
  "os \<Rightarrow> 'md LoadOps \<Rightarrow> 'md NaClValidatorInterface \<Rightarrow> 'a NaClLoadApp_scheme \<Rightarrow> nat \<Rightarrow> Elf_Phdr \<Rightarrow> 'a load" where
  "load_segment os ops validator nap ndp php =
     (let off = ucast (NaClTruncAllocPage (ucast (p_offset php))) :: u32;
          filesz = p_offset php + p_filesz php - off;
          end_vaddr = ucast (p_vaddr php + p_filesz php) :: u64 in
      if p_filesz php = 0 then Inr (nap, LOAD_OK)
      else if end_vaddr < ucast (p_vaddr php) then Inl LogFatal
      else if end_vaddr \<ge> addr_limit nap then Inl LogFatal
      else
        let vaddr = NaClTruncAllocPage (ucast (p_vaddr php));
            paddr = NaClUserToSysAddr nap vaddr in
        andThen (check (paddr \<noteq> kNaClBadAddress)) (\<lambda>_.
        andThen (if DescIsSafeForMmap ops ndp
                 then NaClElfFileMapSegment os ops validator nap ndp (p_flags php) off filesz vaddr paddr
                 else Inr (nap, LOAD_STATUS_UNKNOWN)) (\<lambda>(nap, map_status).
        if map_status \<noteq> LOAD_STATUS_UNKNOWN then Inr (nap, map_status)
        else
          let (nap, ok) = pread_into ops nap ndp paddr (ucast filesz) (ucast off) in
          Inr (nap, if ok then LOAD_OK else LOAD_SEGMENT_BAD_PARAM))))"

fun load_segments ::
  "os \<Rightarrow> 'md LoadOps \<Rightarrow> 'md NaClValidatorInterface \<Rightarrow> 'a NaClLoadApp_scheme \<Rightarrow> nat \<Rightarrow> (Elf_Phdr \<times> bool) list \<Rightarrow> 'a load" where
  "load_segments os ops validator nap ndp [] = Inr (nap, LOAD_OK)"
| "load_segments os ops validator nap ndp ((php, to_load) # phs) =
     (if \<not> to_load then load_segments os ops validator nap ndp phs
      else
        andThen (load_segment os ops validator nap ndp php) (\<lambda>(nap, status).
        if status \<noteq> LOAD_OK then Inr (nap, status) else load_segments os ops validator nap ndp phs))"

definition NaClElfImageLoad ::
  "os \<Rightarrow> 'md LoadOps \<Rightarrow> 'md NaClValidatorInterface \<Rightarrow> NaClElfImage \<Rightarrow> nat \<Rightarrow> 'a NaClLoadApp_scheme \<Rightarrow> 'a load" where
  "NaClElfImageLoad os ops validator img ndp nap =
     load_segments os ops validator nap ndp (zip (take (unat (e_phnum (ehdr img))) (phdrs img)) (loadable img))"

subsection \<open>The layout of the image (sel_ldr_standard.c)\<close>

abbreviation (input) NACL_HALT_SLED_SIZE64 :: u64 where "NACL_HALT_SLED_SIZE64 \<equiv> 32"

definition NaClFillEndOfTextRegion :: "'a NaClLoadApp_scheme \<Rightarrow> 'a NaClLoadApp_scheme run" where
  "NaClFillEndOfTextRegion nap =
     (let ste = static_text_end nap in
      if data_start nap \<noteq> 0 \<and> ste + NACL_HALT_SLED_SIZE64 > NaClTruncAllocPage (data_start nap) then Inl LogFatal
      else if rodata_start nap \<noteq> 0 \<and> ste + NACL_HALT_SLED_SIZE64 > rodata_start nap then Inl LogFatal
      else
        let page_pad = (if text_shm nap = None then NaClRoundAllocPage (ste + NACL_HALT_SLED_SIZE64) - ste
                        else NaClRoundAllocPage ste - ste) in
        andThen (if text_shm nap = None
                 then andThen (check (page_pad \<ge> NACL_HALT_SLED_SIZE64)) (\<lambda>_.
                        check (page_pad < NACL_MAP_PAGESIZE + NACL_HALT_SLED_SIZE64))
                 else Inr ()) (\<lambda>_.
        Inr (nap\<lparr> user_mem := NaClFillMemoryRegionWithHalt (mem_start nap + ste) page_pad (user_mem nap),
                  static_text_end := ste + page_pad \<rparr>)))"

definition NaClCheckAddressSpaceLayoutSanity ::
  "'a NaClApp_scheme \<Rightarrow> u64 \<Rightarrow> u64 \<Rightarrow> u64 \<Rightarrow> NaClErrorCode" where
  "NaClCheckAddressSpaceLayoutSanity nap rod_end dat_end max_vaddr =
     (if data_start nap \<noteq> 0 \<and> dat_end \<noteq> max_vaddr then LOAD_DATA_NOT_LAST_SEGMENT
      else if data_start nap = 0 \<and> rodata_start nap \<noteq> 0 \<and> NaClRoundAllocPage rod_end \<noteq> max_vaddr
        then LOAD_NO_DATA_BUT_RODATA_NOT_LAST_SEGMENT
      else if rodata_start nap \<noteq> 0 \<and> data_start nap \<noteq> 0 \<and> rod_end > NaClTruncAllocPage (data_start nap)
        then LOAD_RODATA_OVERLAPS_DATA
      else if rodata_start nap \<noteq> 0 \<and> NaClRoundAllocPage (NaClEndOfStaticText nap) > rodata_start nap
        then LOAD_TEXT_OVERLAPS_RODATA
      else if rodata_start nap = 0 \<and> data_start nap \<noteq> 0 \<and>
              NaClRoundAllocPage (NaClEndOfStaticText nap) > NaClTruncAllocPage (data_start nap)
        then LOAD_TEXT_OVERLAPS_DATA
      else if rodata_start nap \<noteq> 0 \<and> NaClRoundAllocPage (rodata_start nap) \<noteq> rodata_start nap
        then LOAD_BAD_RODATA_ALIGNMENT
      else LOAD_OK)"

definition NaClAddrIsValidEntryPt :: "'a NaClApp_scheme \<Rightarrow> u64 \<Rightarrow> bool" where
  "NaClAddrIsValidEntryPt nap addr \<longleftrightarrow>
     addr AND (scast (bundle_size nap) - 1) = 0 \<and> addr < static_text_end nap"

subsection \<open>The address space (sel_addrspace.c)\<close>

abbreviation (input) FOURGIG :: u64 where "FOURGIG \<equiv> 0x100000000"
abbreviation (input) NACL_ADDRSPACE_GUARD_SIZE :: u64 where "NACL_ADDRSPACE_GUARD_SIZE \<equiv> 0xa00000000"

text \<open>\<open>HostAllocateSpace\<close> stands for \<open>NaClFindAddressSpace\<close> and its randomized variant, 0 for no memory
  found; \<open>HostPageFree\<close> for \<open>munmap\<close>.\<close>

definition NaClAllocatePow2AlignedMemory ::
  "os \<Rightarrow> 'a NaClLoadApp_scheme \<Rightarrow> u64 \<Rightarrow> nat \<Rightarrow> bool \<Rightarrow> ('a NaClLoadApp_scheme \<times> u64) run" where
  "NaClAllocatePow2AlignedMemory os nap mem_sz log_alignment aslr_mode =
     (let pow2align = push_bit log_alignment 1;
          request_size = mem_sz + pow2align;
          (unrounded_addr, nap) = host os nap (HostAllocateSpace request_size aslr_mode) in
      if unrounded_addr = 0 then Inl LogFatal
      else
        let rounded_addr = (unrounded_addr + (pow2align - 1)) AND NOT (pow2align - 1);
            extra = rounded_addr - unrounded_addr;
            (rv, nap) = (if extra \<noteq> 0 then host os nap (HostPageFree unrounded_addr extra) else (0, nap)) in
        if rv = - 1 then Inl LogFatal
        else
          let extra = pow2align - extra;
              (rv, nap) = (if extra \<noteq> 0 then host os nap (HostPageFree (rounded_addr + mem_sz) extra) else (0, nap)) in
          if rv = - 1 then Inl LogFatal
          else Inr (nap, rounded_addr))"

definition NaClAllocateSpaceAslr ::
  "os \<Rightarrow> 'a NaClLoadApp_scheme \<Rightarrow> u64 \<Rightarrow> bool \<Rightarrow> ('a NaClLoadApp_scheme \<times> NaClErrorCode \<times> u64) run" where
  "NaClAllocateSpaceAslr os nap addrsp_size aslr_mode =
     (let mem_sz = NACL_ADDRSPACE_GUARD_SIZE + FOURGIG + NACL_ADDRSPACE_GUARD_SIZE in
      andThen (check (addrsp_size = FOURGIG)) (\<lambda>_.
      andThen (NaClAllocatePow2AlignedMemory os nap mem_sz 32 aslr_mode) (\<lambda>(nap, mem_ptr).
      if mem_ptr = 0 then Inr (nap, LOAD_NO_MEMORY_FOR_ADDRESS_SPACE, 0)
      else Inr (nap, LOAD_OK, mem_ptr + NACL_ADDRSPACE_GUARD_SIZE))))"

definition NaClAllocAddrSpaceAslr :: "os \<Rightarrow> 'a NaClLoadApp_scheme \<Rightarrow> bool \<Rightarrow> 'a load" where
  "NaClAllocAddrSpaceAslr os nap aslr_mode =
     andThen (NaClAllocateSpaceAslr os nap (addr_limit nap) aslr_mode) (\<lambda>(nap, rv, mem).
     if rv \<noteq> LOAD_OK then Inr (nap, rv)
     else
       let nap = nap\<lparr> mem_start := mem, user_mem := (\<lambda>_. 0) \<rparr>;
           hole_start = NaClRoundAllocPage (data_end nap);
           stack_start = NaClTruncAllocPage (addr_limit nap - stack_size nap) in
       if stack_size nap \<ge> addr_limit nap then Inl LogFatal
       else if stack_start < hole_start then Inr (nap, LOAD_DATA_OVERLAPS_STACK_SECTION)
       else
         let hole_size = NaClTruncAllocPage (stack_start - hole_start) in
         if hole_size = 0 then Inr (nap, LOAD_OK)
         else
           let (rv, nap) = host os nap (HostMadviseFree (mem_start nap + hole_start) hole_size) in
           if rv \<noteq> 0 then Inr (nap, LOAD_MADVISE_FAIL)
           else
             let (rv, nap) = host os nap (HostMprotect (mem_start nap + hole_start) hole_size PROT_NONE) in
             if rv \<noteq> 0 then Inr (nap, LOAD_MPROTECT_FAIL) else Inr (nap, LOAD_OK))"

text \<open>Protect a region at the host and enter it into the memory map.  The region of the dynamic
  text and the one at 0 are only entered.\<close>

definition add_mapping ::
  "'a NaClLoadApp_scheme \<Rightarrow> u64 \<Rightarrow> u64 \<Rightarrow> u32 \<Rightarrow> nat option \<Rightarrow> u64 \<Rightarrow> 'a NaClLoadApp_scheme" where
  "add_mapping nap uaddr rgn_size pr d fsz =
     nap\<lparr> mem_map := NaClVmmapAdd (mem_map nap) (drop_bit NACL_PAGESHIFT uaddr) (drop_bit NACL_PAGESHIFT rgn_size)
            pr MAP_PRIVATE d 0 fsz \<rparr>"

definition protect_region ::
  "os \<Rightarrow> 'a NaClLoadApp_scheme \<Rightarrow> u64 \<Rightarrow> u64 \<Rightarrow> u64 \<Rightarrow> u32 \<Rightarrow> 'a load" where
  "protect_region os nap start_addr protect_size rgn_size pr =
     (let (err, nap) = host os nap (HostMprotect start_addr protect_size pr) in
      if err \<noteq> 0 then Inr (nap, LOAD_MPROTECT_FAIL)
      else
        andThen (NaClSysToUser nap start_addr) (\<lambda>uaddr.
        Inr (add_mapping nap uaddr rgn_size pr None 0, LOAD_OK)))"

definition protect_text :: "os \<Rightarrow> 'a NaClLoadApp_scheme \<Rightarrow> 'a load" where
  "protect_text os nap =
     (let start_addr = mem_start nap + 0x10000;
          rgn_size = NaClRoundPage (static_text_end nap - 0x10000) in
      protect_region os nap start_addr rgn_size rgn_size (PROT_READ OR PROT_EXEC))"

definition record_dynamic_text :: "'a NaClLoadApp_scheme \<Rightarrow> 'a NaClLoadApp_scheme run" where
  "record_dynamic_text nap =
     andThen (NaClUserToSys nap (dynamic_text_start nap)) (\<lambda>start_addr.
     let rgn_size = dynamic_text_end nap - dynamic_text_start nap in
     if rgn_size = 0 then Inr nap
     else
       andThen (NaClSysToUser nap start_addr) (\<lambda>uaddr.
       Inr (add_mapping nap uaddr rgn_size (PROT_READ OR PROT_EXEC) (text_shm nap) rgn_size)))"

definition protect_rodata :: "os \<Rightarrow> 'a NaClLoadApp_scheme \<Rightarrow> 'a load" where
  "protect_rodata os nap =
     (if rodata_start nap = 0 then Inr (nap, LOAD_OK)
      else
        let rodata_end = (if data_start nap \<noteq> 0 then NaClTruncAllocPage (data_start nap) else break_addr nap) in
        andThen (NaClUserToSys nap (rodata_start nap)) (\<lambda>start_addr.
        andThen (NaClSysToUser nap start_addr) (\<lambda>uaddr.
        let rgn_size = NaClRoundPage (NaClRoundAllocPage rodata_end - uaddr) in
        protect_region os nap start_addr rgn_size rgn_size PROT_READ)))"

definition protect_data :: "os \<Rightarrow> 'a NaClLoadApp_scheme \<Rightarrow> 'a load" where
  "protect_data os nap =
     (if data_start nap = 0 then Inr (nap, LOAD_OK)
      else
        andThen (NaClUserToSys nap (NaClTruncAllocPage (data_start nap))) (\<lambda>start_addr.
        andThen (NaClSysToUser nap start_addr) (\<lambda>uaddr.
        let rgn_size = NaClRoundPage (NaClRoundAllocPage (data_end nap) - uaddr) in
        protect_region os nap start_addr rgn_size rgn_size (PROT_READ OR PROT_WRITE))))"

definition protect_stack :: "os \<Rightarrow> 'a NaClLoadApp_scheme \<Rightarrow> 'a load" where
  "protect_stack os nap =
     andThen (NaClUserToSys nap (NaClTruncAllocPage (addr_limit nap - stack_size nap))) (\<lambda>start_addr.
     protect_region os nap start_addr (NaClRoundAllocPage (stack_size nap)) (stack_size nap) (PROT_READ OR PROT_WRITE))"

text \<open>The steps of a load end the load with their error code.\<close>

definition andLoad :: "'a load \<Rightarrow> ('a NaClLoadApp_scheme \<Rightarrow> 'a load) \<Rightarrow> 'a load" where
  "andLoad r f = andThen r (\<lambda>(nap, status). if status \<noteq> LOAD_OK then Inr (nap, status) else f nap)"

definition NaClMemoryProtection :: "os \<Rightarrow> 'a NaClLoadApp_scheme \<Rightarrow> 'a load" where
  "NaClMemoryProtection os nap =
     (let nap = add_mapping nap 0 0x10000 PROT_NONE None 0 in
      andLoad (protect_text os nap) (\<lambda>nap.
      andThen (record_dynamic_text nap) (\<lambda>nap.
      andLoad (protect_rodata os nap) (\<lambda>nap.
      andLoad (protect_data os nap) (\<lambda>nap.
      protect_stack os nap)))))"

subsection \<open>Trampolines (sel_ldr.c, arch/x86_64)\<close>

text \<open>\<open>NaClStoreMem\<close>: a little-endian store.\<close>

definition NaClStoreMem :: "u64 \<Rightarrow> nat \<Rightarrow> u64 \<Rightarrow> (u64 \<Rightarrow> u8) \<Rightarrow> u64 \<Rightarrow> u8" where
  "NaClStoreMem addr nbytes v mem = write_bytes mem addr (map (\<lambda>i. ucast (drop_bit (8 * i) v)) [0..<nbytes])"

text \<open>A patch: the place in the source code and the value; on x86-64 only 64-bit and 32-bit absolute
  patches are made.  \<open>code\<close> is the memory from \<open>src\<close>.\<close>

record NaClPatchInfo =
  patch_dst :: u64
  patch_src :: u64
  patch_code :: "u8 list"
  patch_abs64 :: "(u64 \<times> u64) list"
  patch_abs32 :: "(u64 \<times> u64) list"

definition NaClApplyPatchToMemory :: "NaClPatchInfo \<Rightarrow> (u64 \<Rightarrow> u8) \<Rightarrow> u64 \<Rightarrow> u8" where
  "NaClApplyPatchToMemory patch mem =
     (let mem = write_bytes mem (patch_dst patch) (patch_code patch);
          place = (\<lambda>target. patch_dst patch + (target - patch_src patch));
          mem = fold (\<lambda>(target, v). NaClStoreMem (place target) 8 v) (patch_abs64 patch) mem in
      fold (\<lambda>(target, v). NaClStoreMem (place target) 4 v) (patch_abs32 patch) mem)"

text \<open>The code of \<open>tramp_64.S\<close>: \<open>movl $0xdeadbeef, -8(%rsp)\<close>, \<open>mov $0xdeadbeefcafebabe, %rax\<close>,
  \<open>jmp *(%rax)\<close>, \<open>hlt\<close>, with its labels after the first and the second instruction.\<close>

definition NaCl_trampoline_code :: "u8 list" where
  "NaCl_trampoline_code =
     [0xc7, 0x44, 0x24, 0xf8, 0xef, 0xbe, 0xad, 0xde,
      0x48, 0xb8, 0xbe, 0xba, 0xfe, 0xca, 0xef, 0xbe, 0xad, 0xde, 0xff, 0x20, 0xf4]"

definition NaClPatchOneTrampolineCall :: "u64 \<Rightarrow> u64 \<Rightarrow> u64 \<Rightarrow> (u64 \<Rightarrow> u8) \<Rightarrow> (u64 \<Rightarrow> u8) run" where
  "NaClPatchOneTrampolineCall code_addr call_target_addr target_addr mem =
     (let tramp_addr = (code_addr + 8 - 4, ucast (ucast target_addr :: u32));
          call_target = (code_addr + 18 - 8, call_target_addr) in
      andThen (check (call_target_addr \<noteq> 0)) (\<lambda>_.
      andThen (check (length NaCl_trampoline_code \<le> 32)) (\<lambda>_.
      Inr (NaClApplyPatchToMemory \<lparr> patch_dst = target_addr, patch_src = code_addr,
             patch_code = NaCl_trampoline_code, patch_abs64 = [call_target], patch_abs32 = [tramp_addr] \<rparr> mem))))"

text \<open>The page of dispatch addresses lies outside the sandbox; its contents are not kept.
  \<open>HostPageAlloc\<close> stands for \<open>NaClPageAllocRandomized\<close>, 0 for failure.\<close>

definition NaClMakeDispatchAddrs :: "os \<Rightarrow> 'a NaClLoadApp_scheme \<Rightarrow> ('a NaClLoadApp_scheme \<times> bool) run" where
  "NaClMakeDispatchAddrs os nap =
     (if nacl_syscall_addr nap \<noteq> 0 then Inr (nap, True)
      else
        let (page_addr, nap) = host os nap (HostPageAlloc NACL_MAP_PAGESIZE) in
        if page_addr = 0 then Inr (nap, False)
        else
          let free = (\<lambda>nap. let (rv, nap) = host os nap (HostPageFree page_addr NACL_MAP_PAGESIZE) in
                        if rv \<noteq> 0 then Inl LogFatal else Inr (nap, False));
              (err, nap) = host os nap (HostMprotect page_addr NACL_MAP_PAGESIZE (PROT_READ OR PROT_WRITE)) in
          if err \<noteq> 0 then free nap
          else
            let (err, nap) = host os nap (HostMprotect page_addr NACL_MAP_PAGESIZE PROT_READ) in
            if err \<noteq> 0 then free nap
            else Inr (nap\<lparr> nacl_syscall_addr := page_addr, get_tls_fast_path1_addr := page_addr + 8,
                            get_tls_fast_path2_addr := page_addr + 16 \<rparr>, True))"

text \<open>The loop over the syscall entry points, from \<open>i\<close> on.\<close>

fun patch_trampolines :: "u64 \<Rightarrow> u64 \<Rightarrow> u64 \<Rightarrow> nat \<Rightarrow> (u64 \<Rightarrow> u8) \<Rightarrow> (u64 \<Rightarrow> u8) run" where
  "patch_trampolines code_addr call_target addr 0 mem = Inr mem"
| "patch_trampolines code_addr call_target addr (Suc n) mem =
     andThen (NaClPatchOneTrampolineCall code_addr call_target addr mem)
       (patch_trampolines code_addr call_target (addr + 32) n)"

definition NaClLoadTrampoline ::
  "os \<Rightarrow> u64 \<Rightarrow> 'a NaClLoadApp_scheme \<Rightarrow> 'a NaClLoadApp_scheme run" where
  "NaClLoadTrampoline os code_addr nap =
     andThen (NaClMakeDispatchAddrs os nap) (\<lambda>(nap, made).
     if \<not> made then Inl LogFatal
     else
       let num_syscalls = (0x20000 - 0x10000) div 32 - 1;
           start = mem_start nap + 0x10000 in
       andThen (patch_trampolines code_addr (nacl_syscall_addr nap) start num_syscalls
                  (NaClFillMemoryRegionWithHalt start 0x10000 (user_mem nap))) (\<lambda>mem.
       andThen (NaClPatchOneTrampolineCall code_addr (get_tls_fast_path1_addr nap) (start + 32 * 84) mem) (\<lambda>mem.
       andThen (NaClPatchOneTrampolineCall code_addr (get_tls_fast_path2_addr nap) (start + 32 * 86) mem) (\<lambda>mem.
       Inr (nap\<lparr> user_mem := mem \<rparr>)))))"

subsection \<open>Loading an executable (sel_ldr_standard.c)\<close>

text \<open>The size of a \<open>struct NaClElfImage\<close>: a header, 128 program headers and 128 flags.\<close>

abbreviation (input) sizeof_image :: u64 where "sizeof_image \<equiv> 52 + 128 * 32 + 128 * 4"

text \<open>The first half: headers and layout.\<close>

definition load_headers ::
  "bool \<Rightarrow> elf_file \<Rightarrow> 'a NaClLoadApp_scheme \<Rightarrow> ('a NaClLoadApp_scheme \<times> (NaClErrorCode + NaClElfImage)) run" where
  "load_headers malloc pread nap =
     (if addr_bits nap > 32 then Inr (nap, Inl LOAD_ADDR_SPACE_TOO_BIG)
      else
        let nap = nap\<lparr> stack_size := NaClRoundAllocPage (stack_size nap) \<rparr> in
        andThen (NaClElfImageNew malloc pread) (\<lambda>r.
        case r of
          Inl subret \<Rightarrow> Inr (nap, Inl subret)
        | Inr img \<Rightarrow>
            case NaClElfImageValidateProgramHeaders img (addr_bits nap) of
              Inl subret \<Rightarrow> Inr (nap, Inl subret)
            | Inr (img, info) \<Rightarrow>
                let code_segment_size = info_static_text_end info - NACL_TRAMPOLINE_END in
                if initial_nexe_max_code_bytes nap \<noteq> 0 \<and> code_segment_size > ucast (initial_nexe_max_code_bytes nap)
                then Inr (nap, Inl LOAD_CODE_SEGMENT_TOO_LARGE)
                else
                  let max_vaddr = info_max_vaddr info;
                      max_vaddr =
                        (if info_data_start info = 0 then
                           NaClRoundAllocPage
                             (if info_rodata_start info = 0 \<and>
                                 NaClRoundAllocPage max_vaddr - max_vaddr < NACL_HALT_SLED_SIZE64
                              then max_vaddr + NACL_MAP_PAGESIZE else max_vaddr)
                         else max_vaddr);
                      nap = nap\<lparr> static_text_end := info_static_text_end info, rodata_start := info_rodata_start info,
                                 data_start := info_data_start info, break_addr := max_vaddr, data_end := max_vaddr,
                                 bundle_size := 32, initial_entry_pt := ucast (e_entry (ehdr img)) \<rparr> in
                  if \<not> NaClAddrIsValidEntryPt nap (initial_entry_pt nap) then Inr (nap, Inl LOAD_BAD_ENTRY)
                  else
                    let subret = NaClCheckAddressSpaceLayoutSanity nap (info_rodata_end info) (info_data_end info) max_vaddr in
                    if subret \<noteq> LOAD_OK then Inr (nap, Inl subret) else Inr (nap, Inr img)))"

text \<open>The validation, unless the text has been validated and mapped from the file.\<close>

definition validate_loaded :: "'md NaClValidatorInterface \<Rightarrow> 'a NaClLoadApp_scheme \<Rightarrow> 'a load" where
  "validate_loaded validator nap =
     (if main_exe_prevalidated nap then Inr (nap, LOAD_OK)
      else
        andThen (NaClValidateImage validator nap (user_mem nap)) (\<lambda>(status, mem).
        Inr (nap\<lparr> user_mem := mem \<rparr>, status)))"

text \<open>Space, segments, dynamic text, validation, trampolines and protection.\<close>

definition load_image ::
  "os \<Rightarrow> 'md LoadOps \<Rightarrow> (u64 \<Rightarrow> bool) \<Rightarrow> u64 \<Rightarrow> 'md NaClValidatorInterface \<Rightarrow> u64 \<Rightarrow> NaClElfImage \<Rightarrow> nat \<Rightarrow> bool \<Rightarrow>
   'a NaClLoadApp_scheme \<Rightarrow> 'a load" where
  "load_image os ops malloc sizeof_shm validator code_addr img ndp aslr_mode nap =
     andLoad (NaClAllocAddrSpaceAslr os nap aslr_mode) (\<lambda>nap.
     let (ret, nap) = host os nap (HostMprotect (mem_start nap + 0x10000)
                         (NaClRoundAllocPage (data_end nap) - 0x10000) (PROT_READ OR PROT_WRITE)) in
     if ret \<noteq> 0 then Inl LogFatal
     else
       andLoad (NaClElfImageLoad os ops validator img ndp nap) (\<lambda>nap.
       andLoad (NaClMakeDynamicTextShared os malloc sizeof_shm nap) (\<lambda>nap.
       andThen (NaClFillEndOfTextRegion nap) (\<lambda>nap.
       andLoad (validate_loaded validator nap) (\<lambda>nap.
       andThen (NaClLoadTrampoline os code_addr nap) (\<lambda>nap.
       NaClMemoryProtection os nap))))))"

definition NaClAppLoadFileAslr ::
  "os \<Rightarrow> 'md LoadOps \<Rightarrow> (u64 \<Rightarrow> bool) \<Rightarrow> u64 \<Rightarrow> 'md NaClValidatorInterface \<Rightarrow> u64 \<Rightarrow> nat \<Rightarrow>
   'a NaClLoadApp_scheme \<Rightarrow> bool \<Rightarrow> 'a load" where
  "NaClAppLoadFileAslr os ops malloc sizeof_shm validator code_addr ndp nap aslr_mode =
     andThen (load_headers (malloc sizeof_image) (PRead ops ndp) nap) (\<lambda>(nap, r).
     case r of
       Inl status \<Rightarrow> Inr (nap, status)
     | Inr img \<Rightarrow> load_image os ops malloc sizeof_shm validator code_addr img ndp aslr_mode nap)"

definition NaClAppLoadFile ::
  "os \<Rightarrow> 'md LoadOps \<Rightarrow> (u64 \<Rightarrow> bool) \<Rightarrow> u64 \<Rightarrow> 'md NaClValidatorInterface \<Rightarrow> u64 \<Rightarrow> nat \<Rightarrow> 'a NaClLoadApp_scheme \<Rightarrow> 'a load" where
  "NaClAppLoadFile os ops malloc sizeof_shm validator code_addr ndp nap =
     NaClAppLoadFileAslr os ops malloc sizeof_shm validator code_addr ndp nap True"

end
