(* ===== verification/Load_Layout.thy ===== *)
theory Load_Layout
  imports Load_File Sandbox
begin

text \<open>
  \<open>NaClMemoryProtection\<close> gives every part of a loaded image its protection, at the host and in the
  memory map: nothing at the bottom, the code readable and executable, read-only data, data and stack.
\<close>

subsection \<open>Growing the memory map upwards\<close>

definition prot_of :: "NaClVmmap \<Rightarrow> nat \<Rightarrow> u32 option" where
  "prot_of m p = map_option pv_prot (page_at m p)"

text \<open>A well-formed map with nothing at or above page \<open>k\<close>.\<close>

definition below :: "NaClVmmap \<Rightarrow> nat \<Rightarrow> bool" where
  "below m k \<longleftrightarrow> vm_ok m \<and> (\<forall>p \<ge> k. page_at m p = None)"

lemma below_mono: "below m k \<Longrightarrow> k \<le> l \<Longrightarrow> below m l"
  by (simp add: below_def)

lemma below_ctor: "below (NaClVmmapCtor refs) 0"
  by (simp add: below_def vm_ok_def NaClVmmapCtor_def page_at_def)

lemma page_at_Add:
  "page_at (NaClVmmapAdd m pn n pr fl d off fsz) p =
    (case page_at m p of Some v \<Rightarrow> Some v
     | None \<Rightarrow> if in_region pn n p then Some (new_page pn pr fl d off fsz p) else None)"
proof -
  have find: "find P (xs @ [x]) = (case find P xs of Some y \<Rightarrow> Some y | None \<Rightarrow> if P x then Some x else None)"
    for P and xs :: "NaClVmmapEntry list" and x by (induction xs) auto
  show ?thesis
    by (auto simp: page_at_def find covers_def view_def in_region_def new_page_def split: option.splits)
qed

lemma below_Add:
  assumes "below m k" and "k \<le> unat pn" and "n \<noteq> 0" and "unat pn + unat n \<le> max_pages"
  shows "below (NaClVmmapAdd m pn n pr fl d off fsz) (unat pn + unat n)"
    and "prot_of (NaClVmmapAdd m pn n pr fl d off fsz) p =
      (if unat pn \<le> p \<and> p < unat pn + unat n then Some pr else prot_of m p)"
proof -
  let ?m = "NaClVmmapAdd m pn n pr fl d off fsz"
  have ok: "vm_ok m" and none: "\<And>p. k \<le> p \<Longrightarrow> page_at m p = None" using assms(1) by (simp_all add: below_def)
  have "size (views (mset (vmentry ?m)) q) \<le> 1" for q
  proof (cases "unat pn \<le> q")
    case True
    then have "views (mset (vmentry m)) q = {#}" using none [of q] assms(2) by (simp add: page_at_None)
    then show ?thesis by simp
  next
    case False
    then show ?thesis using ok by (simp add: vm_ok_def covers_def)
  qed
  moreover have "roomy ?m" using ok by (intro Add_simps) (simp add: vm_ok_def roomy_def)
  ultimately have "vm_ok ?m"
    using ok assms(3,4) by (auto simp: vm_ok_def ent_ok_def roomy_def)
  moreover have "page_at ?m q = None" if "unat pn + unat n \<le> q" for q
    using that none [of q] assms(2) by (simp add: page_at_Add in_region_def)
  ultimately show "below ?m (unat pn + unat n)" by (simp add: below_def)
  show "prot_of ?m p = (if unat pn \<le> p \<and> p < unat pn + unat n then Some pr else prot_of m p)"
    using none [of p] assms(2) by (auto simp: prot_of_def page_at_Add in_region_def new_page_def split: option.split)
qed

text \<open>A region of whole pages of the address space, above what is mapped.\<close>

lemma add_mapping_pages:
  assumes "below (mem_map nap) k" and "k * 4096 \<le> unat u" and "4096 dvd unat u" and "4096 dvd unat n"
    and "n \<noteq> 0" and "unat u + unat n \<le> 2 ^ 32"
  shows "\<exists>m. add_mapping nap u n pr d fsz = nap\<lparr> mem_map := m \<rparr> \<and> below m ((unat u + unat n) div 4096) \<and>
    (\<forall>p. prot_of m p = (if unat u \<le> p * 4096 \<and> p * 4096 < unat u + unat n then Some pr else prot_of (mem_map nap) p))"
proof -
  obtain a b where ab: "unat u = 4096 * a" "unat n = 4096 * b" using assms(3,4) by (auto simp: dvd_def)
  have "unat n \<noteq> 0" using assms(5) by (simp add: unat_eq_0)
  then have b: "b \<noteq> 0" using ab(2) by simp
  have pg: "unat (drop_bit NACL_PAGESHIFT u) = a" "unat (drop_bit NACL_PAGESHIFT n) = b" by (simp_all only: unat_pages ab)
  then have "drop_bit NACL_PAGESHIFT n \<noteq> 0" using b unat_eq_0 [of "drop_bit NACL_PAGESHIFT n"] by metis
  moreover have "k \<le> a" using assms(2) ab by simp
  moreover have "a + b \<le> max_pages" using assms(6) ab by (simp add: max_pages_def)
  ultimately have "below (NaClVmmapAdd (mem_map nap) (drop_bit NACL_PAGESHIFT u) (drop_bit NACL_PAGESHIFT n) pr MAP_PRIVATE d 0 fsz) (a + b)"
    "prot_of (NaClVmmapAdd (mem_map nap) (drop_bit NACL_PAGESHIFT u) (drop_bit NACL_PAGESHIFT n) pr MAP_PRIVATE d 0 fsz) p =
      (if a \<le> p \<and> p < a + b then Some pr else prot_of (mem_map nap) p)" for p
    using below_Add [OF assms(1), of "drop_bit NACL_PAGESHIFT u" "drop_bit NACL_PAGESHIFT n"] unfolding pg by blast+
  moreover have "(unat u + unat n) div 4096 = a + b" using ab by simp
  moreover have "a \<le> p \<and> p < a + b \<longleftrightarrow> unat u \<le> p * 4096 \<and> p * 4096 < unat u + unat n" for p using ab by auto
  ultimately show ?thesis unfolding add_mapping_def by auto
qed

subsection \<open>The steps of the protection\<close>

text \<open>The protection that the host gives an address: that of the last call that covers it.\<close>

definition mprot_at :: "host_call list \<Rightarrow> nat \<Rightarrow> u32 option" where
  "mprot_at cs a = fold (\<lambda>c acc. case c of
     HostMprotect s n pr \<Rightarrow> (if unat s \<le> a \<and> a < unat s + unat n then Some pr else acc) | _ \<Rightarrow> acc) cs None"

lemma mprot_at_simps [simp]:
  "mprot_at [] a = None"
  "mprot_at (cs @ [HostMprotect s n pr]) a = (if unat s \<le> a \<and> a < unat s + unat n then Some pr else mprot_at cs a)"
  by (simp_all add: mprot_at_def)

text \<open>What a prefix of \<open>NaClMemoryProtection\<close> has reached: only the map and the log have changed, the
  pages of the map have the protections \<open>f\<close>, with none from address \<open>e\<close> on, and the host has been asked
  for the protections \<open>g\<close>.\<close>

definition with_region :: "nat \<Rightarrow> nat \<Rightarrow> u32 \<Rightarrow> (nat \<Rightarrow> u32 option) \<Rightarrow> nat \<Rightarrow> u32 option" where
  "with_region a b pr f p = (if a \<le> p * 4096 \<and> p * 4096 < b then Some pr else f p)"

definition reached ::
  "'a NaClLoadApp_scheme \<Rightarrow> (nat \<Rightarrow> u32 option) \<Rightarrow> (nat \<Rightarrow> u32 option) \<Rightarrow> nat \<Rightarrow> 'a NaClLoadApp_scheme \<Rightarrow> bool" where
  "reached nap f g e nap' \<longleftrightarrow> 4096 dvd e \<and> (\<exists>m cs. nap' = nap\<lparr> mem_map := m, host_log := host_log nap @ cs \<rparr> \<and>
     below m (e div 4096) \<and> (\<forall>p. prot_of m p = f p) \<and> (\<forall>c \<in> set cs. wx_ok c) \<and>
     (\<forall>p. mprot_at cs (unat (mem_start nap) + p * 4096) = g p))"

lemma reached_fields:
  assumes "reached nap f g e n1"
  shows "static_text_end n1 = static_text_end nap" "mem_start n1 = mem_start nap" "addr_bits n1 = addr_bits nap"
    "dynamic_text_start n1 = dynamic_text_start nap" "dynamic_text_end n1 = dynamic_text_end nap"
    "rodata_start n1 = rodata_start nap" "data_start n1 = data_start nap" "data_end n1 = data_end nap"
    "break_addr n1 = break_addr nap" "stack_size n1 = stack_size nap" "text_shm n1 = text_shm nap"
    "space_ok n1 = space_ok nap"
  using assms by (auto simp: reached_def space_ok_def)

lemma reached_add:
  assumes "reached nap f g e n1" and "e \<le> unat u" and "4096 dvd unat u" and "4096 dvd unat n" and "n \<noteq> 0"
    and "unat u + unat n \<le> 2 ^ 32"
  shows "reached nap (with_region (unat u) (unat u + unat n) pr f) g (unat u + unat n) (add_mapping n1 u n pr d fsz)"
proof -
  obtain m cs where n1: "n1 = nap\<lparr> mem_map := m, host_log := host_log nap @ cs \<rparr>" "below m (e div 4096)"
    "\<forall>p. prot_of m p = f p" "\<forall>c \<in> set cs. wx_ok c"
    "\<forall>p. mprot_at cs (unat (mem_start nap) + p * 4096) = g p" and e: "4096 dvd e" using assms(1) by (auto simp: reached_def)
  have "below (mem_map n1) (e div 4096)" "e div 4096 * 4096 \<le> unat u" using n1(1,2) e assms(2) by simp_all
  from add_mapping_pages [OF this assms(3-6), of pr d fsz] obtain m' where
    m': "add_mapping n1 u n pr d fsz = n1\<lparr> mem_map := m' \<rparr>" "below m' ((unat u + unat n) div 4096)"
    "\<forall>p. prot_of m' p = (if unat u \<le> p * 4096 \<and> p * 4096 < unat u + unat n then Some pr else prot_of (mem_map n1) p)"
    by blast
  have "n1\<lparr> mem_map := m' \<rparr> = nap\<lparr> mem_map := m', host_log := host_log nap @ cs \<rparr>" using n1(1) by simp
  moreover have "\<forall>p. prot_of m' p = with_region (unat u) (unat u + unat n) pr f p"
    using m'(3) n1(1,3) by (simp add: with_region_def)
  ultimately show ?thesis
    unfolding reached_def m'(1)
    using m'(2) assms(3,4) n1(4,5) by (intro conjI exI [of _ m'] exI [of _ cs]) auto
qed

lemma reached_call:
  assumes "reached nap f g e n1" and "space_ok nap" and "addr_bits nap = 32" and "unat u + unat n \<le> 2 ^ 32" and "n \<noteq> 0"
    and "pr AND PROT_WRITE = 0 \<or> pr AND PROT_EXEC = 0"
  shows "reached nap f (with_region (unat u) (unat u + unat n) pr g) e
    (n1\<lparr> host_log := host_log n1 @ [HostMprotect (mem_start nap + u) n pr] \<rparr>)"
proof -
  obtain m cs where n1: "n1 = nap\<lparr> mem_map := m, host_log := host_log nap @ cs \<rparr>" "below m (e div 4096)"
    "\<forall>p. prot_of m p = f p" "\<forall>c \<in> set cs. wx_ok c"
    "\<forall>p. mprot_at cs (unat (mem_start nap) + p * 4096) = g p" "4096 dvd e" using assms(1) by (auto simp: reached_def)
  have "unat n \<noteq> 0" using assms(5) by (simp add: unat_eq_0)
  then have "user_addr nap (unat u)" using assms(3,4) by (simp add: user_addr_def)
  from unat_mem_start_add [OF assms(2) this]
  have "mprot_at (cs @ [HostMprotect (mem_start nap + u) n pr]) (unat (mem_start nap) + p * 4096) =
      with_region (unat u) (unat u + unat n) pr g p" for p
    using n1(5) by (simp add: with_region_def)
  then show ?thesis
    unfolding reached_def using n1(1-4,6) assms(6)
    by (intro conjI exI [of _ m] exI [of _ "cs @ [HostMprotect (mem_start nap + u) n pr]"]) auto
qed

lemma protect_region_reached:
  assumes "protect_region os n1 (mem_start nap + u) n n pr = Inr (n2, LOAD_OK)" and "reached nap f g e n1"
    and "space_ok nap" and "addr_bits nap = 32"
    and "e \<le> unat u" and "4096 dvd unat u" and "4096 dvd unat n" and "n \<noteq> 0" and "unat u + unat n \<le> 2 ^ 32"
    and "pr AND PROT_WRITE = 0 \<or> pr AND PROT_EXEC = 0"
  shows "reached nap (with_region (unat u) (unat u + unat n) pr f) (with_region (unat u) (unat u + unat n) pr g)
    (unat u + unat n) n2"
proof -
  note fields = reached_fields [OF assms(2)]
  let ?n1 = "n1\<lparr> host_log := host_log n1 @ [HostMprotect (mem_start nap + u) n pr] \<rparr>"
  have ok: "space_ok ?n1" using assms(3) fields(12) by (simp add: space_ok_def)
  have "unat n \<noteq> 0" using assms(8) by (simp add: unat_eq_0)
  then have "user_addr ?n1 (unat u)" using assms(4,9) fields(3) by (simp add: user_addr_def)
  from SysToUser_UserToSys [OF ok this] have "NaClSysToUser ?n1 (mem_start nap + u) = Inr u" using fields(2) by simp
  then have n2: "n2 = add_mapping ?n1 u n pr None 0"
    using assms(1) by (auto simp: protect_region_def host_def Let_def split: if_splits)
  show ?thesis
    unfolding n2 by (rule reached_add [OF reached_call [OF assms(2-4,9,8,10)] assms(5-9)])
qed

subsection \<open>The layout of an image\<close>

definition alloc_up :: "u64 \<Rightarrow> nat" where
  "alloc_up x = (unat x + 65535) div 65536 * 65536"

definition alloc_down :: "u64 \<Rightarrow> nat" where
  "alloc_down x = unat x div 65536 * 65536"

text \<open>Where the executable part, the read-only data and the whole image end.\<close>

definition code_top :: "'a NaClApp_scheme \<Rightarrow> nat" where
  "code_top nap = (if dynamic_text_start nap = dynamic_text_end nap then unat (static_text_end nap)
     else unat (dynamic_text_end nap))"

definition rodata_top :: "'a NaClApp_scheme \<Rightarrow> nat" where
  "rodata_top nap = (if data_start nap \<noteq> 0 then alloc_down (data_start nap) else alloc_up (break_addr nap))"

definition image_top :: "'a NaClApp_scheme \<Rightarrow> nat" where
  "image_top nap = (if data_start nap \<noteq> 0 then alloc_up (data_end nap)
     else if rodata_start nap \<noteq> 0 then alloc_up (break_addr nap) else code_top nap)"

text \<open>The parts are aligned, and follow each other in the address space with the stack at its end.\<close>

definition image_layout :: "'a NaClLoadApp_scheme \<Rightarrow> bool" where
  "image_layout nap \<longleftrightarrow> space_ok nap \<and> addr_bits nap = 32 \<and> below (mem_map nap) 0 \<and>
     0x20000 \<le> unat (static_text_end nap) \<and> 65536 dvd unat (static_text_end nap) \<and>
     (dynamic_text_start nap \<noteq> dynamic_text_end nap \<longrightarrow>
        unat (static_text_end nap) \<le> unat (dynamic_text_start nap) \<and>
        unat (dynamic_text_start nap) < unat (dynamic_text_end nap) \<and>
        65536 dvd unat (dynamic_text_start nap) \<and> 65536 dvd unat (dynamic_text_end nap)) \<and>
     (rodata_start nap \<noteq> 0 \<longrightarrow> 65536 dvd unat (rodata_start nap) \<and> code_top nap \<le> unat (rodata_start nap) \<and>
        unat (rodata_start nap) < rodata_top nap) \<and>
     (data_start nap \<noteq> 0 \<longrightarrow> code_top nap \<le> alloc_down (data_start nap) \<and> unat (data_start nap) < unat (data_end nap)) \<and>
     65536 dvd unat (stack_size nap) \<and> image_top nap + unat (stack_size nap) \<le> 2 ^ 32"

text \<open>The protection of a page of a loaded image.\<close>

definition image_prot :: "'a NaClLoadApp_scheme \<Rightarrow> nat \<Rightarrow> u32 option" where
  "image_prot nap p =
     (let a = p * 4096; stack_start = 2 ^ 32 - unat (stack_size nap) in
      if a < 0x10000 then Some PROT_NONE
      else if a < unat (static_text_end nap) then Some (PROT_READ OR PROT_EXEC)
      else if unat (dynamic_text_start nap) \<le> a \<and> a < unat (dynamic_text_end nap) then Some (PROT_READ OR PROT_EXEC)
      else if rodata_start nap \<noteq> 0 \<and> unat (rodata_start nap) \<le> a \<and> a < rodata_top nap then Some PROT_READ
      else if data_start nap \<noteq> 0 \<and> alloc_down (data_start nap) \<le> a \<and> a < alloc_up (data_end nap)
        then Some (PROT_READ OR PROT_WRITE)
      else if stack_start \<le> a \<and> a < 2 ^ 32 then Some (PROT_READ OR PROT_WRITE)
      else None)"

lemma alloc_facts:
  "65536 dvd alloc_up x" "65536 dvd alloc_down x" "unat x \<le> alloc_up x" "alloc_down x \<le> unat x"
  "unat x < alloc_down x + 65536" "unat x < alloc_up y \<Longrightarrow> alloc_down x < alloc_up y"
  by (simp_all add: alloc_up_def alloc_down_def)

lemma image_top_bounds:
  assumes "image_layout nap"
  shows "code_top nap \<le> image_top nap" and "unat (static_text_end nap) \<le> code_top nap"
    and "rodata_start nap \<noteq> 0 \<Longrightarrow> rodata_top nap \<le> image_top nap"
    and "data_start nap \<noteq> 0 \<Longrightarrow> alloc_down (data_start nap) < alloc_up (data_end nap)"
proof -
  have d: "alloc_down (data_start nap) < alloc_up (data_end nap)" if "data_start nap \<noteq> 0"
    using that assms alloc_facts(3) [of "data_end nap"] alloc_facts(4) [of "data_start nap"]
    by (simp add: image_layout_def)
  then show "data_start nap \<noteq> 0 \<Longrightarrow> alloc_down (data_start nap) < alloc_up (data_end nap)" .
  show "rodata_start nap \<noteq> 0 \<Longrightarrow> rodata_top nap \<le> image_top nap"
    using d by (auto simp: image_top_def rodata_top_def intro: less_imp_le)
  show "code_top nap \<le> image_top nap" using assms d by (auto simp: image_layout_def image_top_def rodata_top_def)
  show "unat (static_text_end nap) \<le> code_top nap" using assms by (auto simp: image_layout_def code_top_def)
qed

lemma dvd_4096: "65536 dvd (n :: nat) \<Longrightarrow> 4096 dvd n"
  by (rule dvd_trans [of _ 65536]) simp_all

lemma round_alloc: "unat x \<le> 2 ^ 32 \<Longrightarrow> unat (NaClRoundAllocPage x) = alloc_up x"
  by (simp add: round_nat alloc_up_def)

lemma trunc_alloc: "unat (NaClTruncAllocPage x) = alloc_down x"
  by (simp add: trunc_nat alloc_down_def)

lemma round_page_self: "4096 dvd unat x \<Longrightarrow> NaClRoundPage x = x"
  by (simp add: round_page_multiple is_multiple_nat)

text \<open>The size of a region that runs up to the end of the allocation page of \<open>x\<close>.\<close>

lemma region_size_nat:
  assumes "unat x \<le> 2 ^ 32" and "65536 dvd unat u" and "unat u < alloc_up x" and "alloc_up x \<le> 2 ^ 32"
  shows "unat (NaClRoundPage (NaClRoundAllocPage x - u)) = alloc_up x - unat u"
    and "NaClRoundPage (NaClRoundAllocPage x - u) \<noteq> 0"
proof -
  have "unat (NaClRoundAllocPage x - u) = alloc_up x - unat u"
    using assms round_alloc [OF assms(1)] by (simp add: unat_sub_small)
  moreover have "4096 dvd alloc_up x - unat u"
    using dvd_4096 [OF alloc_facts(1)] dvd_4096 [OF assms(2)] by (rule dvd_diff_nat)
  ultimately show n: "unat (NaClRoundPage (NaClRoundAllocPage x - u)) = alloc_up x - unat u"
    using assms(4) by (subst round_page_self) simp_all
  show "NaClRoundPage (NaClRoundAllocPage x - u) \<noteq> 0" using n assms(3) by (auto simp flip: unat_eq_0)
qed

subsection \<open>The protections of an image\<close>

lemma protect_text_reached:
  assumes "protect_text os n1 = Inr (n2, LOAD_OK)" and "reached nap f g 0x10000 n1" and "image_layout nap"
  shows "reached nap (with_region 0x10000 (unat (static_text_end nap)) (PROT_READ OR PROT_EXEC) f)
    (with_region 0x10000 (unat (static_text_end nap)) (PROT_READ OR PROT_EXEC) g) (unat (static_text_end nap)) n2"
proof -
  note fields = reached_fields [OF assms(2)]
  let ?ste = "static_text_end nap"
  let ?n = "NaClRoundPage (?ste - 0x10000)"
  have l: "space_ok nap" "addr_bits nap = 32" "0x20000 \<le> unat ?ste" "65536 dvd unat ?ste"
    "image_top nap + unat (stack_size nap) \<le> 2 ^ 32" using assms(3) by (simp_all add: image_layout_def)
  have top: "unat ?ste \<le> 2 ^ 32" using l(5) image_top_bounds(1,2) [OF assms(3)] by linarith
  have d: "unat (?ste - 0x10000) = unat ?ste - 0x10000" using l(3) by (simp add: unat_sub_small)
  have "4096 dvd unat (?ste - 0x10000)" unfolding d using dvd_4096 [OF l(4)] by (rule dvd_diff_nat) simp
  then have n: "?n = ?ste - 0x10000" using top d by (intro round_page_self) simp_all
  have un: "unat ?n = unat ?ste - 0x10000" unfolding n d ..
  have n0: "?n \<noteq> 0" using un l(3) by (auto simp flip: unat_eq_0)
  have "protect_region os n1 (mem_start nap + 0x10000) ?n ?n (PROT_READ OR PROT_EXEC) = Inr (n2, LOAD_OK)"
    using assms(1) by (simp add: protect_text_def Let_def fields)
  from protect_region_reached [OF this assms(2) l(1,2) _ _ _ n0] show ?thesis
    using l(3) top dvd_4096 [OF l(4)] un by (simp add: dvd_diff_nat)
qed

lemma record_dynamic_reached:
  assumes "record_dynamic_text n1 = Inr n2" and "reached nap f g (unat (static_text_end nap)) n1" and "image_layout nap"
  shows "reached nap (with_region (unat (dynamic_text_start nap)) (unat (dynamic_text_end nap)) (PROT_READ OR PROT_EXEC) f)
    g (code_top nap) n2"
proof -
  note fields = reached_fields [OF assms(2)]
  let ?s = "dynamic_text_start nap" and ?e = "dynamic_text_end nap"
  have sp: "space_ok n1" using assms(3) fields(12) by (simp add: image_layout_def)
  show ?thesis
  proof (cases "?s = ?e")
    case True
    then have "n2 = n1" using assms(1) fields by (auto simp: record_dynamic_text_def run_simps)
    moreover have "with_region (unat ?e) (unat ?e) pr f = f" for pr
      by (rule ext) (use leD in \<open>auto simp: with_region_def\<close>)
    ultimately show ?thesis using True assms(2) by (simp add: code_top_def)
  next
    case False
    then have l: "unat (static_text_end nap) \<le> unat ?s" "unat ?s < unat ?e" "65536 dvd unat ?s" "65536 dvd unat ?e"
      "0x20000 \<le> unat (static_text_end nap)" "addr_bits nap = 32" "image_top nap + unat (stack_size nap) \<le> 2 ^ 32"
      using assms(3) by (simp_all add: image_layout_def)
    have top: "unat ?e \<le> 2 ^ 32" using False l(7) image_top_bounds(1) [OF assms(3)] by (simp add: code_top_def)
    have n: "unat (?e - ?s) = unat ?e - unat ?s" using l(2) by (simp add: unat_sub_small)
    then have n0: "?e - ?s \<noteq> 0" using l(2) by (auto simp flip: unat_eq_0)
    have ua: "user_addr n1 (unat ?s)" using l(2,6) top fields(3) by (simp add: user_addr_def)
    have "NaClUserToSys n1 ?s = Inr (mem_start nap + ?s)"
      using UserToSys_iff [OF sp, of ?s] ua l(1,5) fields(2) by simp
    moreover have "NaClSysToUser n1 (mem_start nap + ?s) = Inr ?s" using SysToUser_UserToSys [OF sp ua] fields(2) by simp
    ultimately have "n2 = add_mapping n1 ?s (?e - ?s) (PROT_READ OR PROT_EXEC) (text_shm nap) (?e - ?s)"
      using assms(1) n0 fields by (auto simp: record_dynamic_text_def Let_def)
    moreover have "reached nap (with_region (unat ?s) (unat ?s + unat (?e - ?s)) (PROT_READ OR PROT_EXEC) f) g
        (unat ?s + unat (?e - ?s)) (add_mapping n1 ?s (?e - ?s) (PROT_READ OR PROT_EXEC) (text_shm nap) (?e - ?s))"
      using l top n by (intro reached_add [OF assms(2)] n0 dvd_4096) (simp_all add: dvd_diff_nat)
    moreover have "code_top nap = unat ?e" using False by (simp add: code_top_def)
    moreover have "unat ?s + unat (?e - ?s) = unat ?e" using n l(2) by simp
    ultimately show ?thesis by simp
  qed
qed

text \<open>A region of data, from a multiple of the allocation page to the end of another.\<close>

lemma protect_data_region:
  assumes "andThen (NaClUserToSys n1 u) (\<lambda>start_addr. andThen (NaClSysToUser n1 start_addr) (\<lambda>uaddr.
      protect_region os n1 start_addr (NaClRoundPage (NaClRoundAllocPage x - uaddr))
        (NaClRoundPage (NaClRoundAllocPage x - uaddr)) pr)) = Inr (n2, LOAD_OK)"
    and "reached nap f g e n1" and "space_ok nap" and "addr_bits nap = 32" and "e \<le> unat u" and "0 < unat u"
    and "65536 dvd unat u" and "unat u < alloc_up x" and "alloc_up x \<le> 2 ^ 32"
    and "pr AND PROT_WRITE = 0 \<or> pr AND PROT_EXEC = 0"
  shows "reached nap (with_region (unat u) (alloc_up x) pr f) (with_region (unat u) (alloc_up x) pr g) (alloc_up x) n2"
proof -
  note fields = reached_fields [OF assms(2)]
  have sp: "space_ok n1" using assms(3) fields(12) by simp
  have ua: "user_addr n1 (unat u)" using assms(4,8,9) fields(3) by (simp add: user_addr_def)
  let ?n = "NaClRoundPage (NaClRoundAllocPage x - u)"
  have x: "unat x \<le> 2 ^ 32" using alloc_facts(3) [of x] assms(9) by simp
  note n = region_size_nat [OF x assms(7-9)]
  have "NaClUserToSys n1 u = Inr (mem_start nap + u)" using UserToSys_iff [OF sp, of u] ua assms(6) fields(2) by simp
  moreover have "NaClSysToUser n1 (mem_start nap + u) = Inr u" using SysToUser_UserToSys [OF sp ua] fields(2) by simp
  ultimately have "protect_region os n1 (mem_start nap + u) ?n ?n pr = Inr (n2, LOAD_OK)" using assms(1) by simp
  moreover have "4096 dvd unat ?n"
    unfolding n(1) using dvd_4096 [OF alloc_facts(1)] dvd_4096 [OF assms(7)] by (rule dvd_diff_nat)
  moreover have "unat u + unat ?n = alloc_up x" using n(1) assms(8) by simp
  ultimately show ?thesis
    using protect_region_reached [OF _ assms(2,3,4,5) dvd_4096 [OF assms(7)] _ n(2) _ assms(10), of os n2] assms(9) by simp
qed

lemma protect_rodata_reached:
  assumes "protect_rodata os n1 = Inr (n2, LOAD_OK)" and "reached nap f g (code_top nap) n1" and "image_layout nap"
  shows "if rodata_start nap = 0 then n2 = n1
    else reached nap (with_region (unat (rodata_start nap)) (rodata_top nap) PROT_READ f)
      (with_region (unat (rodata_start nap)) (rodata_top nap) PROT_READ g) (rodata_top nap) n2"
proof (cases "rodata_start nap = 0")
  case True
  then show ?thesis using assms(1) reached_fields [OF assms(2)] by (simp add: protect_rodata_def)
next
  case False
  note fields = reached_fields [OF assms(2)]
  let ?x = "if data_start nap \<noteq> 0 then NaClTruncAllocPage (data_start nap) else break_addr nap"
  have x: "alloc_up ?x = rodata_top nap"
    by (simp add: rodata_top_def alloc_up_def alloc_down_def trunc_nat)
  have l: "space_ok nap" "addr_bits nap = 32" "65536 dvd unat (rodata_start nap)" "code_top nap \<le> unat (rodata_start nap)"
    "unat (rodata_start nap) < rodata_top nap" "image_top nap + unat (stack_size nap) \<le> 2 ^ 32"
    using False assms(3) by (simp_all add: image_layout_def)
  have top: "rodata_top nap \<le> 2 ^ 32" using l(6) image_top_bounds(3) [OF assms(3) False] by simp
  have "0 < unat (rodata_start nap)" using False by (simp add: unat_gt_0)
  from protect_data_region [OF _ assms(2) l(1,2,4) this l(3), where x = ?x and os = os and pr = PROT_READ]
  show ?thesis using assms(1) l(5) top False unfolding protect_rodata_def x fields Let_def by simp
qed

lemma protect_data_reached:
  assumes "protect_data os n1 = Inr (n2, LOAD_OK)" and "reached nap f g e n1" and "image_layout nap"
    and "data_start nap \<noteq> 0 \<Longrightarrow> e \<le> alloc_down (data_start nap)"
  shows "if data_start nap = 0 then n2 = n1
    else reached nap (with_region (alloc_down (data_start nap)) (alloc_up (data_end nap)) (PROT_READ OR PROT_WRITE) f)
      (with_region (alloc_down (data_start nap)) (alloc_up (data_end nap)) (PROT_READ OR PROT_WRITE) g)
      (alloc_up (data_end nap)) n2"
proof (cases "data_start nap = 0")
  case True
  then show ?thesis using assms(1) reached_fields [OF assms(2)] by (simp add: protect_data_def)
next
  case False
  note fields = reached_fields [OF assms(2)]
  let ?u = "NaClTruncAllocPage (data_start nap)"
  have l: "space_ok nap" "addr_bits nap = 32" "0x20000 \<le> unat (static_text_end nap)"
    "code_top nap \<le> alloc_down (data_start nap)" "image_top nap + unat (stack_size nap) \<le> 2 ^ 32"
    using False assms(3) by (simp_all add: image_layout_def)
  have top: "alloc_up (data_end nap) \<le> 2 ^ 32" using l(5) False by (simp add: image_top_def)
  have pos: "0 < unat ?u" using l(3,4) image_top_bounds(2) [OF assms(3)] by (simp add: trunc_alloc)
  have e: "e \<le> unat ?u" and dvd: "65536 dvd unat ?u" and lt: "unat ?u < alloc_up (data_end nap)"
    using assms(4) False image_top_bounds(4) [OF assms(3) False] alloc_facts(2) by (simp_all add: trunc_alloc)
  from protect_data_region [OF _ assms(2) l(1,2) e pos dvd lt top, where os = os and pr = "PROT_READ OR PROT_WRITE"]
  show ?thesis using assms(1) False unfolding protect_data_def fields Let_def trunc_alloc by simp
qed

lemma protect_stack_reached:
  assumes "protect_stack os n1 = Inr (n2, LOAD_OK)" and "reached nap f g e n1" and "image_layout nap"
    and "e \<le> image_top nap"
  shows "unat (stack_size nap) \<noteq> 0" and "reached nap
    (with_region (2 ^ 32 - unat (stack_size nap)) (2 ^ 32) (PROT_READ OR PROT_WRITE) f)
    (with_region (2 ^ 32 - unat (stack_size nap)) (2 ^ 32) (PROT_READ OR PROT_WRITE) g) (2 ^ 32) n2"
proof -
  note fields = reached_fields [OF assms(2)]
  let ?z = "stack_size nap"
  have l: "space_ok nap" "addr_bits nap = 32" "65536 dvd unat ?z" "image_top nap + unat ?z \<le> 2 ^ 32"
    using assms(3) by (simp_all add: image_layout_def)
  have lim: "addr_limit n1 = addr_limit nap" using fields by (simp add: addr_limit_def)
  have ulim: "unat (addr_limit nap) = 2 ^ 32" using unat_addr_limit(1) [OF l(1)] l(2) by simp
  let ?u = "NaClTruncAllocPage (addr_limit nap - ?z)"
  obtain k where k: "unat ?z = 65536 * k" using l(3) by (auto simp: dvd_def)
  have d: "unat (addr_limit nap - ?z) = 2 ^ 32 - unat ?z" using l(4) ulim by (simp add: unat_sub_small)
  have dvd_u: "65536 dvd 2 ^ 32 - unat ?z" using l(3) by (intro dvd_diff_nat) simp_all
  then have u: "unat ?u = 2 ^ 32 - unat ?z" unfolding trunc_alloc alloc_down_def d by simp
  have sp: "space_ok n1" using l(1) fields(12) by simp
  have size: "NaClRoundAllocPage ?z = ?z" using l(4) k by (intro word_eq_unatI) (simp add: round_nat)
  obtain sa where sa: "NaClUserToSys n1 ?u = Inr sa"
    using assms(1) fields lim by (auto simp: protect_stack_def run_simps)
  then have ua: "user_addr n1 (unat ?u)" and sa': "sa = mem_start n1 + ?u"
    using UserToSys_iff [OF sp, of ?u] by (auto split: if_splits)
  then show nz: "unat ?z \<noteq> 0" using u l(2) fields(3) by (auto simp: user_addr_def)
  have "protect_region os n1 (mem_start nap + ?u) ?z ?z (PROT_READ OR PROT_WRITE) = Inr (n2, LOAD_OK)"
    using assms(1) sa sa' size fields lim by (simp add: protect_stack_def)
  moreover have "e \<le> unat ?u" using assms(4) l(4) u by simp
  moreover have "unat ?u + unat ?z = 2 ^ 32" using u l(4) by simp
  moreover have "?z \<noteq> 0" using nz by auto
  ultimately show "reached nap (with_region (2 ^ 32 - unat ?z) (2 ^ 32) (PROT_READ OR PROT_WRITE) f)
    (with_region (2 ^ 32 - unat ?z) (2 ^ 32) (PROT_READ OR PROT_WRITE) g) (2 ^ 32) n2"
    using protect_region_reached [OF _ assms(2) l(1,2), where u = ?u and n = ?z and os = os and ?n2.0 = n2
        and pr = "PROT_READ OR PROT_WRITE"] u dvd_4096 [OF dvd_u] dvd_4096 [OF l(3)] by simp
qed

lemma andLoad_ok: "andLoad r f = Inr (n, LOAD_OK) \<longleftrightarrow> (\<exists>m. r = Inr (m, LOAD_OK) \<and> f m = Inr (n, LOAD_OK))"
  by (auto simp: andLoad_def run_simps split: if_splits)

text \<open>What the host has been asked for: all but the bottom of the address space and the dynamic text.\<close>

definition host_managed :: "'a NaClLoadApp_scheme \<Rightarrow> nat \<Rightarrow> bool" where
  "host_managed nap p \<longleftrightarrow> 0x10000 \<le> p * 4096 \<and>
     \<not> (unat (dynamic_text_start nap) \<le> p * 4096 \<and> p * 4096 < unat (dynamic_text_end nap))"

definition protected :: "'a NaClLoadApp_scheme \<Rightarrow> 'a NaClLoadApp_scheme \<Rightarrow> bool" where
  "protected nap nap' \<longleftrightarrow> (\<exists>m cs. nap' = nap\<lparr> mem_map := m, host_log := host_log nap @ cs \<rparr> \<and> vm_ok m \<and>
     (\<forall>p. prot_of m p = image_prot nap p) \<and> (\<forall>c \<in> set cs. wx_ok c) \<and>
     (\<forall>p. host_managed nap p \<longrightarrow> mprot_at cs (unat (mem_start nap) + p * 4096) = image_prot nap p))"

lemma bottom_reached:
  assumes "image_layout nap"
  shows "reached nap (with_region 0 0x10000 PROT_NONE (\<lambda>_. None)) (\<lambda>_. None) 0x10000
    (add_mapping nap 0 0x10000 PROT_NONE None 0)"
proof -
  have b: "below (mem_map nap) 0" using assms by (simp add: image_layout_def)
  then have "prot_of (mem_map nap) p = None" for p by (simp add: below_def prot_of_def)
  with b have "reached nap (\<lambda>_. None) (\<lambda>_. None) 0 nap"
    unfolding reached_def by (intro conjI exI [of _ "mem_map nap"] exI [of _ "[]"]) simp_all
  from reached_add [OF this, of 0 "0x10000" PROT_NONE None 0] show ?thesis by simp
qed

text \<open>The regions, put on top of each other in the order of the code.\<close>

definition image_regions :: "'a NaClLoadApp_scheme \<Rightarrow> (nat \<Rightarrow> u32 option) \<Rightarrow> nat \<Rightarrow> u32 option" where
  "image_regions nap f =
     (let f = (if rodata_start nap = 0 then f
               else with_region (unat (rodata_start nap)) (rodata_top nap) PROT_READ f);
          f = (if data_start nap = 0 then f
               else with_region (alloc_down (data_start nap)) (alloc_up (data_end nap)) (PROT_READ OR PROT_WRITE) f) in
      with_region (2 ^ 32 - unat (stack_size nap)) (2 ^ 32) (PROT_READ OR PROT_WRITE) f)"

text \<open>They do not overlap.\<close>

lemma image_prot_code:
  assumes "image_layout nap" and "p * 4096 < code_top nap"
  shows "image_prot nap p = (if p * 4096 < 0x10000 then Some PROT_NONE
     else if p * 4096 < unat (static_text_end nap) then Some (PROT_READ OR PROT_EXEC)
     else if unat (dynamic_text_start nap) \<le> p * 4096 \<and> p * 4096 < unat (dynamic_text_end nap)
       then Some (PROT_READ OR PROT_EXEC) else None)"
proof -
  have t: "image_top nap + unat (stack_size nap) \<le> 2 ^ 32" "code_top nap \<le> image_top nap"
    using assms(1) image_top_bounds(1) by (simp_all add: image_layout_def)
  have "\<not> (rodata_start nap \<noteq> 0 \<and> unat (rodata_start nap) \<le> p * 4096 \<and> p * 4096 < rodata_top nap)"
    "\<not> (data_start nap \<noteq> 0 \<and> alloc_down (data_start nap) \<le> p * 4096 \<and> p * 4096 < alloc_up (data_end nap))"
    using assms by (auto simp: image_layout_def)
  moreover have "\<not> (2 ^ 32 - unat (stack_size nap) \<le> p * 4096 \<and> p * 4096 < 2 ^ 32)" using t assms(2) by linarith
  ultimately show ?thesis unfolding image_prot_def Let_def by (simp only: if_False)
qed

lemma image_regions_prot:
  assumes "image_layout nap"
    and "\<And>p. p * 4096 < code_top nap \<Longrightarrow> h p \<Longrightarrow> f p = image_prot nap p"
    and "\<And>p. code_top nap \<le> p * 4096 \<Longrightarrow> f p = None"
    and "h p"
  shows "image_regions nap f p = image_prot nap p"
proof -
  define a where "a = p * 4096"
  define top where "top = code_top nap"
  define z where "z = 2 ^ 32 - unat (stack_size nap)"
  define ro where "ro = unat (rodata_start nap)"
  define rt where "rt = rodata_top nap"
  define ds where "ds = alloc_down (data_start nap)"
  define de where "de = alloc_up (data_end nap)"
  note b = image_top_bounds [OF assms(1)]
  have "image_top nap + unat (stack_size nap) \<le> 2 ^ 32" using assms(1) by (simp add: image_layout_def)
  then have it: "image_top nap \<le> z" unfolding z_def by linarith
  have lt: "top \<le> image_top nap" using b(1) by (simp add: top_def)
  have r: "rodata_start nap \<noteq> 0 \<Longrightarrow> top \<le> ro \<and> ro < rt \<and> rt \<le> image_top nap"
    using assms(1) b(3) by (simp add: image_layout_def ro_def rt_def top_def)
  have d: "data_start nap \<noteq> 0 \<Longrightarrow> top \<le> ds \<and> ds < de \<and> de = image_top nap"
    using assms(1) b(4) by (simp add: image_layout_def ds_def de_def top_def image_top_def)
  have rd: "data_start nap \<noteq> 0 \<Longrightarrow> rt = ds" by (simp add: rt_def ds_def rodata_top_def)
  have low: "image_prot nap p = f p" if "a < top" using assms(2) [of p] that assms(4) by (simp add: a_def top_def)
  have lowtop: "0x10000 \<le> a \<and> unat (static_text_end nap) \<le> a \<and>
     \<not> (unat (dynamic_text_start nap) \<le> a \<and> a < unat (dynamic_text_end nap))" if "top \<le> a"
  proof -
    have ct: "top = (if dynamic_text_start nap = dynamic_text_end nap then unat (static_text_end nap)
       else unat (dynamic_text_end nap))" by (simp add: top_def code_top_def)
    have "0x20000 \<le> unat (static_text_end nap)" "unat (static_text_end nap) \<le> top"
      using assms(1) b(2) by (simp_all add: image_layout_def top_def)
    with that show ?thesis unfolding ct by (auto split: if_splits)
  qed
  have high: "image_prot nap p = (if rodata_start nap \<noteq> 0 \<and> ro \<le> a \<and> a < rt then Some PROT_READ
      else if data_start nap \<noteq> 0 \<and> ds \<le> a \<and> a < de then Some (PROT_READ OR PROT_WRITE)
      else if z \<le> a \<and> a < 2 ^ 32 then Some (PROT_READ OR PROT_WRITE) else None)" if "top \<le> a"
  proof -
    note l = lowtop [OF that]
    have n: "\<not> a < 0x10000" "\<not> a < unat (static_text_end nap)"
      "\<not> (unat (dynamic_text_start nap) \<le> a \<and> a < unat (dynamic_text_end nap))" using l by simp_all
    show ?thesis
      unfolding image_prot_def Let_def a_def [symmetric] ro_def rt_def ds_def de_def z_def
        if_not_P [OF n(1)] if_not_P [OF n(2)] if_not_P [OF n(3)] ..
  qed
  have regions: "image_regions nap f p = (if z \<le> a \<and> a < 2 ^ 32 then Some (PROT_READ OR PROT_WRITE)
      else if data_start nap \<noteq> 0 \<and> ds \<le> a \<and> a < de then Some (PROT_READ OR PROT_WRITE)
      else if rodata_start nap \<noteq> 0 \<and> ro \<le> a \<and> a < rt then Some PROT_READ else f p)"
    unfolding ro_def rt_def ds_def de_def z_def a_def
    by (cases "rodata_start nap = 0"; cases "data_start nap = 0") (simp_all add: image_regions_def with_region_def)
  show ?thesis
  proof (cases "a < top")
    case True
    then have "\<not> z \<le> a" "\<not> (data_start nap \<noteq> 0 \<and> ds \<le> a)" "\<not> (rodata_start nap \<noteq> 0 \<and> ro \<le> a)"
      using it lt r d by auto
    then show ?thesis using low [OF True] regions by auto
  next
    case False
    then have "f p = None" using assms(3) [of p] by (simp add: a_def top_def)
    moreover have "\<not> a < rt" if "z \<le> a" "rodata_start nap \<noteq> 0" using that it r by auto
    moreover have "\<not> a < de" if "z \<le> a" "data_start nap \<noteq> 0" using that it d by auto
    ultimately show ?thesis using False high regions rd by auto
  qed
qed

lemma memory_protection:
  assumes "image_layout nap" and "NaClMemoryProtection os nap = Inr (nap', LOAD_OK)"
  shows "protected nap nap'" and "unat (stack_size nap) \<noteq> 0"
proof -
  let ?RX = "PROT_READ OR PROT_EXEC"
  let ?n0 = "add_mapping nap 0 0x10000 PROT_NONE None 0"
  obtain n1 n2 n3 n4 where run: "protect_text os ?n0 = Inr (n1, LOAD_OK)" "record_dynamic_text n1 = Inr n2"
    "protect_rodata os n2 = Inr (n3, LOAD_OK)" "protect_data os n3 = Inr (n4, LOAD_OK)"
    "protect_stack os n4 = Inr (nap', LOAD_OK)"
    using assms(2) unfolding NaClMemoryProtection_def Let_def by (auto simp: andLoad_ok run_simps)
  define g1 where "g1 = with_region 0x10000 (unat (static_text_end nap)) ?RX (\<lambda>_. None)"
  define f2 where "f2 = with_region (unat (dynamic_text_start nap)) (unat (dynamic_text_end nap)) ?RX
     (with_region 0x10000 (unat (static_text_end nap)) ?RX (with_region 0 0x10000 PROT_NONE (\<lambda>_. None)))"
  have r2: "reached nap f2 g1 (code_top nap) n2"
    using record_dynamic_reached [OF run(2) protect_text_reached [OF run(1) bottom_reached [OF assms(1)] assms(1)] assms(1)]
    unfolding f2_def g1_def .
  note b = image_top_bounds [OF assms(1)]
  define ro where "ro f = (if rodata_start nap = 0 then f
     else with_region (unat (rodata_start nap)) (rodata_top nap) PROT_READ f)" for f
  define e3 where "e3 = (if rodata_start nap = 0 then code_top nap else rodata_top nap)"
  have r3: "reached nap (ro f2) (ro g1) e3 n3"
    using protect_rodata_reached [OF run(3) r2 assms(1)] r2 by (simp add: ro_def e3_def split: if_splits)
  have e3: "e3 \<le> alloc_down (data_start nap)" if "data_start nap \<noteq> 0"
    using that assms(1) by (auto simp: e3_def rodata_top_def image_layout_def)
  define da where "da f = (if data_start nap = 0 then f
     else with_region (alloc_down (data_start nap)) (alloc_up (data_end nap)) (PROT_READ OR PROT_WRITE) f)" for f
  define e4 where "e4 = (if data_start nap = 0 then e3 else alloc_up (data_end nap))"
  have r4: "reached nap (da (ro f2)) (da (ro g1)) e4 n4"
    using protect_data_reached [OF run(4) r3 assms(1) e3] r3 by (simp add: da_def e4_def split: if_splits)
  have "e4 \<le> image_top nap" using b(1,3) by (auto simp: e4_def e3_def image_top_def)
  note st = protect_stack_reached [OF run(5) r4 assms(1) this]
  show "unat (stack_size nap) \<noteq> 0" by (rule st(1))
  have regions: "with_region (2 ^ 32 - unat (stack_size nap)) (2 ^ 32) (PROT_READ OR PROT_WRITE) (da (ro f)) = image_regions nap f" for f
    by (simp add: image_regions_def da_def ro_def)
  have reached: "reached nap (image_regions nap f2) (image_regions nap g1) (2 ^ 32) nap'"
    using st(2) unfolding regions .
  have ct: "code_top nap = (if dynamic_text_start nap = dynamic_text_end nap then unat (static_text_end nap)
     else unat (dynamic_text_end nap))" by (rule code_top_def)
  have ste: "0x10000 \<le> unat (static_text_end nap)" using assms(1) by (simp add: image_layout_def)
  have f: "image_regions nap f2 p = image_prot nap p" for p
  proof (rule image_regions_prot [OF assms(1), where h = "\<lambda>_. True"])
    have above: "unat (static_text_end nap) \<le> unat (dynamic_text_start nap)"
      if "unat (dynamic_text_start nap) \<le> a" "a < unat (dynamic_text_end nap)" for a
      using that assms(1) by (auto simp: image_layout_def)
    show "f2 q = image_prot nap q" if "q * 4096 < code_top nap" for q
      using that ste above [of "q * 4096"] unfolding image_prot_code [OF assms(1) that(1)] f2_def with_region_def by auto
    show "f2 q = None" if "code_top nap \<le> q * 4096" for q
      using that b(2) ste unfolding f2_def with_region_def ct by (auto split: if_splits)
  qed simp
  have g: "image_regions nap g1 p = image_prot nap p" if "host_managed nap p" for p
  proof (rule image_regions_prot [OF assms(1), where h = "host_managed nap"])
    show "g1 q = image_prot nap q" if "q * 4096 < code_top nap" "host_managed nap q" for q
      using that ste unfolding image_prot_code [OF assms(1) that(1)] g1_def with_region_def host_managed_def by auto
    show "g1 q = None" if "code_top nap \<le> q * 4096" for q
      using that b(2) unfolding g1_def with_region_def ct by (auto split: if_splits)
  qed (rule that)
  obtain m cs where mc: "nap' = nap\<lparr> mem_map := m, host_log := host_log nap @ cs \<rparr>" "below m (2 ^ 32 div 4096)"
    "\<forall>p. prot_of m p = image_regions nap f2 p" "\<forall>c \<in> set cs. wx_ok c"
    "\<forall>p. mprot_at cs (unat (mem_start nap) + p * 4096) = image_regions nap g1 p"
    using reached unfolding reached_def by (elim conjE exE)
  have "\<forall>p. host_managed nap p \<longrightarrow> mprot_at cs (unat (mem_start nap) + p * 4096) = image_prot nap p"
    using mc(5) g by simp
  moreover have "\<forall>p. prot_of m p = image_prot nap p" using mc(3) f by simp
  moreover have "vm_ok m" using mc(2) by (simp add: below_def)
  ultimately show "protected nap nap'" using mc(1,4) unfolding protected_def by blast
qed

subsection \<open>The protection aborts on no image of the loader\<close>

text \<open>The protection has been refused when its last host call was.\<close>

definition refused :: "os \<Rightarrow> 'a NaClLoadApp_scheme \<Rightarrow> 'a NaClLoadApp_scheme \<Rightarrow> bool" where
  "refused os nap nap' \<longleftrightarrow> (\<exists>cs c. host_log nap' = host_log nap @ cs @ [c] \<and>
     os (host_log nap @ cs) c \<noteq> 0 \<and> (\<forall>c' \<in> set (cs @ [c]). wx_ok c'))"

text \<open>A stack, and a dynamic text area (empty or not) that starts inside the address space.\<close>

definition places_ok :: "'a NaClLoadApp_scheme \<Rightarrow> bool" where
  "places_ok nap \<longleftrightarrow> stack_size nap \<noteq> 0 \<and> dynamic_text_start nap \<noteq> 0 \<and> unat (dynamic_text_start nap) < 2 ^ 32"

text \<open>How the protection of \<open>nap\<close> can end.\<close>

definition settles :: "os \<Rightarrow> 'a NaClLoadApp_scheme \<Rightarrow> 'a load \<Rightarrow> bool" where
  "settles os nap r \<longleftrightarrow> (case r of Inl e \<Rightarrow> \<not> places_ok nap
     | Inr (nap', status) \<Rightarrow> status = LOAD_OK \<or> status = LOAD_MPROTECT_FAIL \<and> refused os nap nap')"

lemma settles_andLoad:
  assumes "settles os nap r" and "\<And>m. r = Inr (m, LOAD_OK) \<Longrightarrow> settles os nap (f m)"
  shows "settles os nap (andLoad r f)"
proof (cases r)
  case (Inl e)
  with assms(1) show ?thesis by (simp add: andLoad_def settles_def)
next
  case (Inr x)
  obtain m status where x: "x = (m, status)" by (cases x)
  show ?thesis
  proof (cases "status = LOAD_OK")
    case True
    with assms(2) [of m] Inr x show ?thesis by (simp add: andLoad_def)
  next
    case False
    with assms(1) Inr x show ?thesis by (simp add: andLoad_def settles_def)
  qed
qed

lemma settles_andThen:
  "\<not> places_ok nap \<or> (\<exists>m. r = Inr m) \<Longrightarrow> (\<And>m. r = Inr m \<Longrightarrow> settles os nap (f m)) \<Longrightarrow> settles os nap (andThen r f)"
  by (cases r) (auto simp: settles_def)

lemma protect_region_settles:
  assumes "reached nap f g e n1" and "space_ok nap" and "addr_bits nap = 32" and "unat u < 2 ^ 32"
    and "pr AND PROT_WRITE = 0 \<or> pr AND PROT_EXEC = 0"
  shows "settles os nap (protect_region os n1 (mem_start nap + u) k n pr)"
proof -
  note fields = reached_fields [OF assms(1)]
  let ?c = "HostMprotect (mem_start nap + u) k pr"
  let ?n1 = "n1\<lparr> host_log := host_log n1 @ [?c] \<rparr>"
  obtain cs where cs: "host_log n1 = host_log nap @ cs" "\<forall>c \<in> set cs. wx_ok c"
    using assms(1) by (auto simp: reached_def)
  have "user_addr n1 (unat u)" using assms(3,4) fields(3) by (simp add: user_addr_def)
  then have addr: "NaClSysToUser n1 (mem_start nap + u) = Inr u"
    using SysToUser_UserToSys [of n1 u] assms(2) fields(2,12) by simp
  show ?thesis
  proof (cases "os (host_log n1) ?c = 0")
    case True
    then show ?thesis by (simp add: protect_region_def host_def Let_def addr settles_def)
  next
    case False
    have "refused os nap ?n1"
      unfolding refused_def using cs False assms(5)
      by (intro exI [of _ cs] exI [of _ ?c]) auto
    with False show ?thesis by (simp add: protect_region_def host_def Let_def settles_def)
  qed
qed

lemma protect_data_region_settles:
  assumes "reached nap f g e n1" and "space_ok nap" and "addr_bits nap = 32" and "0 < unat u" and "unat u < 2 ^ 32"
    and "pr AND PROT_WRITE = 0 \<or> pr AND PROT_EXEC = 0"
  shows "settles os nap (andThen (NaClUserToSys n1 u) (\<lambda>start_addr. andThen (NaClSysToUser n1 start_addr) (\<lambda>uaddr.
      protect_region os n1 start_addr (k uaddr) (n uaddr) pr)))"
proof -
  note fields = reached_fields [OF assms(1)]
  have sp: "space_ok n1" using assms(2) fields(12) by simp
  have ua: "user_addr n1 (unat u)" using assms(3,5) fields(3) by (simp add: user_addr_def)
  have "NaClUserToSys n1 u = Inr (mem_start nap + u)" using UserToSys_iff [OF sp, of u] ua assms(4) fields(2) by simp
  moreover have "NaClSysToUser n1 (mem_start nap + u) = Inr u" using SysToUser_UserToSys [OF sp ua] fields(2) by simp
  ultimately show ?thesis using protect_region_settles [OF assms(1-3,5,6)] by simp
qed

lemma record_dynamic_runs:
  assumes "reached nap f g e n1" and "image_layout nap" and "places_ok nap"
  shows "\<exists>n2. record_dynamic_text n1 = Inr n2"
proof -
  note fields = reached_fields [OF assms(1)]
  let ?s = "dynamic_text_start nap"
  have l: "space_ok n1" "addr_bits nap = 32" using assms(2) fields(12) by (simp_all add: image_layout_def)
  have s: "0 < unat ?s" "user_addr n1 (unat ?s)"
    using assms(3) l(2) fields(3) by (simp_all add: places_ok_def user_addr_def unat_gt_0)
  have "NaClUserToSys n1 ?s = Inr (mem_start nap + ?s)" using UserToSys_iff [OF l(1), of ?s] s fields(2) by simp
  moreover have "NaClSysToUser n1 (mem_start nap + ?s) = Inr ?s" using SysToUser_UserToSys [OF l(1) s(2)] fields(2) by simp
  ultimately show ?thesis by (simp add: record_dynamic_text_def fields Let_def)
qed

lemma protect_rodata_settles:
  assumes "reached nap f g e n1" and "image_layout nap"
  shows "settles os nap (protect_rodata os n1)"
proof (cases "rodata_start nap = 0")
  case True
  then show ?thesis using reached_fields [OF assms(1)] by (simp add: protect_rodata_def settles_def)
next
  case False
  have l: "space_ok nap" "addr_bits nap = 32" "unat (rodata_start nap) < rodata_top nap"
    "image_top nap + unat (stack_size nap) \<le> 2 ^ 32" using False assms(2) by (simp_all add: image_layout_def)
  have "unat (rodata_start nap) < 2 ^ 32" using l(3,4) image_top_bounds(3) [OF assms(2) False] by simp
  moreover have "0 < unat (rodata_start nap)" using False by (simp add: unat_gt_0)
  ultimately show ?thesis
    using protect_data_region_settles [OF assms(1) l(1,2), of "rodata_start nap" PROT_READ] False reached_fields [OF assms(1)]
    by (simp add: protect_rodata_def Let_def)
qed

lemma protect_data_settles:
  assumes "reached nap f g e n1" and "image_layout nap"
  shows "settles os nap (protect_data os n1)"
proof (cases "data_start nap = 0")
  case True
  then show ?thesis using reached_fields [OF assms(1)] by (simp add: protect_data_def settles_def)
next
  case False
  let ?u = "NaClTruncAllocPage (data_start nap)"
  have l: "space_ok nap" "addr_bits nap = 32" "0x20000 \<le> unat (static_text_end nap)"
    "code_top nap \<le> alloc_down (data_start nap)" "image_top nap + unat (stack_size nap) \<le> 2 ^ 32"
    using False assms(2) by (simp_all add: image_layout_def)
  have pos: "0 < unat ?u" using l(3,4) image_top_bounds(2) [OF assms(2)] by (simp add: trunc_alloc)
  have "unat ?u < 2 ^ 32" using image_top_bounds(4) [OF assms(2) False] l(5) False by (simp add: trunc_alloc image_top_def)
  with pos show ?thesis
    using protect_data_region_settles [OF assms(1) l(1,2), of ?u "PROT_READ OR PROT_WRITE"] False reached_fields [OF assms(1)]
    by (simp add: protect_data_def Let_def)
qed

lemma protect_stack_settles:
  assumes "reached nap f g e n1" and "image_layout nap"
  shows "settles os nap (protect_stack os n1)"
proof -
  note fields = reached_fields [OF assms(1)]
  let ?z = "stack_size nap"
  have l: "space_ok nap" "addr_bits nap = 32" "65536 dvd unat ?z" "image_top nap + unat ?z \<le> 2 ^ 32"
    "0x20000 \<le> unat (static_text_end nap)"
    using assms(2) by (simp_all add: image_layout_def)
  have lim: "addr_limit n1 = addr_limit nap" using fields by (simp add: addr_limit_def)
  have ulim: "unat (addr_limit nap) = 2 ^ 32" using unat_addr_limit(1) [OF l(1)] l(2) by simp
  let ?u = "NaClTruncAllocPage (addr_limit nap - ?z)"
  have d: "unat (addr_limit nap - ?z) = 2 ^ 32 - unat ?z" using l(4) ulim by (simp add: unat_sub_small)
  have "65536 dvd 2 ^ 32 - unat ?z" using l(3) by (intro dvd_diff_nat) simp_all
  then have u: "unat ?u = 2 ^ 32 - unat ?z" unfolding trunc_alloc alloc_down_def d by simp
  have sp: "space_ok n1" using l(1) fields(12) by simp
  note usr = UserToSys_iff [OF sp, of ?u]
  have pos: "0 < unat ?u" using u l(4,5) image_top_bounds(1,2) [OF assms(2)] by linarith
  show ?thesis
  proof (cases "?z = 0")
    case True
    then have "\<not> user_addr n1 (unat ?u)" using u l(2) fields(3) by (simp add: user_addr_def)
    with usr True show ?thesis by (simp add: protect_stack_def lim fields(10) settles_def places_ok_def)
  next
    case False
    then have "0 < unat ?z" by (simp add: unat_gt_0)
    then have b: "unat ?u < 2 ^ 32" using u by simp
    then have "user_addr n1 (unat ?u)" using l(2) fields(3) by (simp add: user_addr_def)
    with usr pos have "NaClUserToSys n1 ?u = Inr (mem_start nap + ?u)" using fields(2) by simp
    then show ?thesis
      using protect_region_settles [OF assms(1) l(1,2) b, of "PROT_READ OR PROT_WRITE"]
      by (simp add: protect_stack_def lim fields(10))
  qed
qed

lemma memory_protection_settles:
  assumes "image_layout nap"
  shows "settles os nap (NaClMemoryProtection os nap)"
proof -
  let ?n0 = "add_mapping nap 0 0x10000 PROT_NONE None 0"
  note r0 = bottom_reached [OF assms]
  have l: "space_ok nap" "addr_bits nap = 32" using assms by (simp_all add: image_layout_def)
  have bottom: "settles os nap (protect_text os ?n0)"
    using protect_region_settles [OF r0 l, of "0x10000" "PROT_READ OR PROT_EXEC"] reached_fields [OF r0]
    by (simp add: protect_text_def Let_def)
  show ?thesis
    unfolding NaClMemoryProtection_def Let_def
  proof (intro settles_andLoad settles_andThen bottom)
    fix n1 assume "protect_text os ?n0 = Inr (n1, LOAD_OK)"
    note r1 = protect_text_reached [OF this r0 assms]
    show "\<not> places_ok nap \<or> (\<exists>n2. record_dynamic_text n1 = Inr n2)"
      using record_dynamic_runs [OF r1 assms] by blast
    fix n2 assume "record_dynamic_text n1 = Inr n2"
    note r2 = record_dynamic_reached [OF this r1 assms]
    show "settles os nap (protect_rodata os n2)" by (rule protect_rodata_settles [OF r2 assms])
    fix n3 assume "protect_rodata os n2 = Inr (n3, LOAD_OK)"
    from protect_rodata_reached [OF this r2 assms] r2
    obtain f3 g3 e3 where r3: "reached nap f3 g3 e3 n3" and
      e3: "e3 = (if rodata_start nap = 0 then code_top nap else rodata_top nap)" by (metis (full_types))
    show "settles os nap (protect_data os n3)" by (rule protect_data_settles [OF r3 assms])
    fix n4 assume run: "protect_data os n3 = Inr (n4, LOAD_OK)"
    have "e3 \<le> alloc_down (data_start nap)" if "data_start nap \<noteq> 0"
      using that assms by (auto simp: e3 rodata_top_def image_layout_def)
    from protect_data_reached [OF run r3 assms this] r3
    obtain f4 g4 e4 where r4: "reached nap f4 g4 e4 n4" by metis
    show "settles os nap (protect_stack os n4)" by (rule protect_stack_settles [OF r4 assms])
  qed
qed

subsection \<open>The property\<close>

text \<open> C12. Memory protection is exact or refused.  On an image whose parts are laid out as the loader lays
  them out, \<open>NaClMemoryProtection\<close> ends in one of two ways.  On success the memory map is well-formed and gives every page
  of the address space the protection of the part it belongs to, nothing below 0x10000, readable and executable for
  trampolines, text and dynamic text, readable for read-only data, readable and writable for data
  and stack, and it maps no other page; the host has been asked for exactly these protections (the dynamic
  text, whose pages become visible one by one, and the inaccessible bottom apart); and for
  nothing that is writable and executable.  Otherwise it returns \<open>LOAD_MPROTECT_FAIL\<close>, and then its last host call
  was one that the host refused.  It aborts only when there is no stack or the dynamic text area starts
  outside the address space.\<close>

theorem memory_protection_exact:
  assumes "image_layout nap"
  shows "case NaClMemoryProtection os nap of
      Inl e \<Rightarrow> \<not> places_ok nap
    | Inr (nap', status) \<Rightarrow>
        (status = LOAD_OK \<and> vm_ok (mem_map nap') \<and>
         (\<forall>p. map_option pv_prot (page_at (mem_map nap') p) = image_prot nap p) \<and>
         (\<exists>cs. host_log nap' = host_log nap @ cs \<and> (\<forall>c \<in> set cs. wx_ok c) \<and>
           (\<forall>p. host_managed nap p \<longrightarrow> mprot_at cs (unat (mem_start nap) + p * 4096) = image_prot nap p))) \<or>
        (status = LOAD_MPROTECT_FAIL \<and> refused os nap nap')"
proof (cases "NaClMemoryProtection os nap")
  case (Inl e)
  with memory_protection_settles [OF assms, of os] show ?thesis by (simp add: settles_def)
next
  case (Inr r)
  obtain nap' status where r: "r = (nap', status)" by (cases r)
  show ?thesis
  proof (cases "status = LOAD_OK")
    case False
    with memory_protection_settles [OF assms, of os] Inr r show ?thesis by (simp add: settles_def)
  next
    case True
    with Inr r have run: "NaClMemoryProtection os nap = Inr (nap', LOAD_OK)" by simp
    obtain m cs where mc: "nap' = nap\<lparr> mem_map := m, host_log := host_log nap @ cs \<rparr>" "vm_ok m"
      "\<forall>p. prot_of m p = image_prot nap p" "\<forall>c \<in> set cs. wx_ok c"
      "\<forall>p. host_managed nap p \<longrightarrow> mprot_at cs (unat (mem_start nap) + p * 4096) = image_prot nap p"
      using memory_protection(1) [OF assms run] unfolding protected_def by (elim exE conjE)
    have "vm_ok (mem_map nap')" "\<forall>p. map_option pv_prot (page_at (mem_map nap') p) = image_prot nap p"
      using mc(1,2,3) by (simp_all add: prot_of_def)
    moreover have "\<exists>cs. host_log nap' = host_log nap @ cs \<and> (\<forall>c \<in> set cs. wx_ok c) \<and>
       (\<forall>p. host_managed nap p \<longrightarrow> mprot_at cs (unat (mem_start nap) + p * 4096) = image_prot nap p)"
      using mc(1,4,5) by (intro exI [of _ cs] conjI) simp_all
    ultimately show ?thesis unfolding run by simp
  qed
qed

text \<open>At an image with a page of static text, seven of dynamic text, read-only data, data and a stack of 64 KB.\<close>

definition sample_laid_out :: NaClLoadApp where
  "sample_laid_out = (NaClAppCtor True True sample_array (\<lambda>_. 0))\<lparr> mem_start := 0x7f0000000000, static_text_end := 0x30000,
     dynamic_text_start := 0x30000, dynamic_text_end := 0xa0000, rodata_start := 0xa0000, data_start := 0xb0010,
     data_end := 0xb8000, break_addr := 0xb8000, text_shm := Some 5, stack_size := 0x10000 \<rparr>"

lemma sample_image_layout: "image_layout sample_laid_out"
proof -
  have "below (mem_map sample_laid_out) 0" using below_ctor by (simp add: sample_laid_out_def NaClAppCtor_def)
  then show ?thesis
    by (simp add: image_layout_def space_ok_def code_top_def rodata_top_def image_top_def alloc_up_def alloc_down_def)
      (simp add: sample_laid_out_def NaClAppCtor_def)
qed

lemma sample_protected: "\<exists>nap'. NaClMemoryProtection (\<lambda>_ _. 0) sample_laid_out = Inr (nap', LOAD_OK)"
  by (simp add: NaClMemoryProtection_def protect_text_def protect_rodata_def protect_data_def protect_stack_def
      record_dynamic_text_def protect_region_def add_mapping_def andLoad_def host_def Let_def NaClUserToSys_def NaClSysToUser_def
      addr_limit_def NaClTruncAllocPage_def NaClRoundAllocPage_def NaClRoundPage_def sample_laid_out_def NaClAppCtor_def)

lemma memory_protection_exact_witness:
  "places_ok sample_laid_out \<and> (\<exists>nap'. NaClMemoryProtection (\<lambda>_ _. 0) sample_laid_out = Inr (nap', LOAD_OK) \<and>
     map_option pv_prot (page_at (mem_map nap') 32) = Some 5 \<and> map_option pv_prot (page_at (mem_map nap') 0xa0) = Some 1 \<and>
     map_option pv_prot (page_at (mem_map nap') 0xb0) = Some 3 \<and> map_option pv_prot (page_at (mem_map nap') 0xc0) = None) \<and>
   (\<exists>nap'. NaClMemoryProtection (\<lambda>_ _. 1) sample_laid_out = Inr (nap', LOAD_MPROTECT_FAIL) \<and>
     refused (\<lambda>_ _. 1) sample_laid_out nap')"
proof (intro conjI)
  show "places_ok sample_laid_out" by (simp add: places_ok_def sample_laid_out_def NaClAppCtor_def)
  obtain nap' where run: "NaClMemoryProtection (\<lambda>_ _. 0) sample_laid_out = Inr (nap', LOAD_OK)"
    using sample_protected by blast
  have "\<forall>p. map_option pv_prot (page_at (mem_map nap') p) = image_prot sample_laid_out p"
    using memory_protection_exact [OF sample_image_layout, of "\<lambda>_ _. 0"] run by simp
  moreover have "image_prot sample_laid_out 32 = Some 5" "image_prot sample_laid_out 0xa0 = Some 1"
    "image_prot sample_laid_out 0xb0 = Some 3" "image_prot sample_laid_out 0xc0 = None"
    by (simp_all add: image_prot_def rodata_top_def alloc_up_def alloc_down_def sample_laid_out_def NaClAppCtor_def)
  ultimately show "\<exists>nap'. NaClMemoryProtection (\<lambda>_ _. 0) sample_laid_out = Inr (nap', LOAD_OK) \<and>
     map_option pv_prot (page_at (mem_map nap') 32) = Some 5 \<and> map_option pv_prot (page_at (mem_map nap') 0xa0) = Some 1 \<and>
     map_option pv_prot (page_at (mem_map nap') 0xb0) = Some 3 \<and> map_option pv_prot (page_at (mem_map nap') 0xc0) = None"
    using run by metis
  have "\<exists>nap'. NaClMemoryProtection (\<lambda>_ _. 1) sample_laid_out = Inr (nap', LOAD_MPROTECT_FAIL)"
    by (simp add: NaClMemoryProtection_def protect_text_def protect_region_def andLoad_def host_def Let_def)
  then show "\<exists>nap'. NaClMemoryProtection (\<lambda>_ _. 1) sample_laid_out = Inr (nap', LOAD_MPROTECT_FAIL) \<and>
     refused (\<lambda>_ _. 1) sample_laid_out nap'"
    using memory_protection_exact [OF sample_image_layout, of "\<lambda>_ _. 1"] by auto
qed

end
