(* ===== verification/Load_Sandbox.thy ===== *)
theory Load_Sandbox
  imports Load_Layout Elf_Image_Proofs
begin

text \<open>
  A successful load establishes the invariant of the sandbox: the parts of the loader in turn, what each
  leaves as it is, the layout that the header checks guarantee, and the state in which untrusted code starts.
\<close>

subsection \<open>The parts of the state that the loader writes without changing the layout\<close>

definition base :: "'a NaClLoadApp_scheme \<Rightarrow> 'a NaClLoadApp_scheme" where
  "base a = a\<lparr> host_log := [], user_mem := (\<lambda>_. 0), main_exe_prevalidated := False,
     nacl_syscall_addr := 0, get_tls_fast_path1_addr := 0, get_tls_fast_path2_addr := 0 \<rparr>"

definition loader :: "'a NaClLoadApp_scheme \<Rightarrow> 'a NaClLoadApp_scheme \<Rightarrow> bool" where
  "loader a b \<longleftrightarrow> base b = base a \<and> logs a b"

lemma loader_refl: "loader a a"
  by (simp add: loader_def logs_refl)

lemma loader_trans: "loader a b \<Longrightarrow> loader b c \<Longrightarrow> loader a c"
  using logs_trans by (auto simp: loader_def)

lemma loader_updates:
  "loader a b \<Longrightarrow> loader a (b\<lparr> user_mem := u \<rparr>)"
  "loader a b \<Longrightarrow> loader a (b\<lparr> main_exe_prevalidated := m \<rparr>)"
  "loader a b \<Longrightarrow> loader a (b\<lparr> nacl_syscall_addr := s, get_tls_fast_path1_addr := t1, get_tls_fast_path2_addr := t2 \<rparr>)"
  by (simp_all add: loader_def logs_def base_def)

lemma loader_call: "loader a b \<Longrightarrow> wx_ok c \<Longrightarrow> loader a (b\<lparr> host_log := host_log b @ [c] \<rparr>)"
  by (auto simp: loader_def logs_def base_def)

lemma base_simps:
  "addr_bits (base a) = addr_bits a"
  "mem_start (base a) = mem_start a"
  "static_text_end (base a) = static_text_end a"
  "dynamic_text_start (base a) = dynamic_text_start a"
  "dynamic_text_end (base a) = dynamic_text_end a"
  "rodata_start (base a) = rodata_start a"
  "data_start (base a) = data_start a"
  "data_end (base a) = data_end a"
  "break_addr (base a) = break_addr a"
  "bundle_size (base a) = bundle_size a"
  "pnacl_mode (base a) = pnacl_mode a"
  "mem_map (base a) = mem_map a"
  "desc_tbl (base a) = desc_tbl a"
  "use_shm_for_dynamic_text (base a) = use_shm_for_dynamic_text a"
  "text_shm (base a) = text_shm a"
  "text_mem (base a) = text_mem a"
  "dynamic_page_bitmap (base a) = dynamic_page_bitmap a"
  "dynamic_regions (base a) = dynamic_regions a"
  "dynamic_mapcache_offset (base a) = dynamic_mapcache_offset a"
  "dynamic_mapcache_size (base a) = dynamic_mapcache_size a"
  "dynamic_mapcache_ret (base a) = dynamic_mapcache_ret a"
  "dynamic_delete_generation (base a) = dynamic_delete_generation a"
  "thread_generations (base a) = thread_generations a"
  "stack_size (base a) = stack_size a"
  by (simp_all add: base_def)

lemma loader_fields:
  assumes "loader a b"
  shows "addr_bits b = addr_bits a" "mem_start b = mem_start a" "static_text_end b = static_text_end a"
    "dynamic_text_start b = dynamic_text_start a" "dynamic_text_end b = dynamic_text_end a"
    "rodata_start b = rodata_start a" "data_start b = data_start a" "data_end b = data_end a"
    "break_addr b = break_addr a" "bundle_size b = bundle_size a" "pnacl_mode b = pnacl_mode a" "mem_map b = mem_map a"
    "desc_tbl b = desc_tbl a" "use_shm_for_dynamic_text b = use_shm_for_dynamic_text a" "text_shm b = text_shm a"
    "text_mem b = text_mem a" "dynamic_page_bitmap b = dynamic_page_bitmap a" "dynamic_regions b = dynamic_regions a"
    "dynamic_mapcache_offset b = dynamic_mapcache_offset a" "dynamic_mapcache_size b = dynamic_mapcache_size a"
    "dynamic_mapcache_ret b = dynamic_mapcache_ret a" "dynamic_delete_generation b = dynamic_delete_generation a"
    "thread_generations b = thread_generations a" "stack_size b = stack_size a"
  using assms base_simps [of a] base_simps [of b] by (simp_all add: loader_def)

lemmas loader_rules = loader_refl loader_updates loader_call

lemma pread_into_loader: "loader a b \<Longrightarrow> loader a (fst (pread_into ops b d addr n off))"
  by (simp add: pread_into_def loader_updates split: option.split)

lemma DescUnmap_loader: "NaClDescUnmapUnsafe os b p n = Inr c \<Longrightarrow> loader a b \<Longrightarrow> loader a c"
  by (auto simp: NaClDescUnmapUnsafe_def host_def loader_call split: if_splits)

lemma prevalidate_loader: "leads (loader nap) (prevalidate_text os ops validator nap ndp off sz rsz va)"
  unfolding prevalidate_text_def Let_def host_def split_def
  by (intro leads_intros) (auto intro!: loader_rules elim!: DescUnmap_loader)

lemma map_pages_loader:
  "loader nap n \<Longrightarrow> pr AND PROT_WRITE = 0 \<or> pr AND PROT_EXEC = 0 \<Longrightarrow>
   leads (loader nap) (map_pages os ops n ndp off sz rsz pr rd pa)"
  unfolding map_pages_def Let_def host_def split_def
  by (intro leads_intros) (auto intro!: loader_rules pread_into_loader split: if_splits)

lemma leads_fst: "leads P r \<Longrightarrow> r = Inr x \<Longrightarrow> P (fst x)"
  by (cases x) (auto simp: leads_def)

lemma FileMapSegment_loader:
  "leads (loader nap) (NaClElfFileMapSegment os ops validator nap ndp fl off sz va pa)"
proof -
  note pre = leads_fst [OF prevalidate_loader]
  have "leads (loader nap) (map_pages os ops (fst x) ndp off sz rsz (PROT_READ OR PROT_EXEC) True pa)"
    if "prevalidate_text os ops validator nap ndp off sz r va = Inr x" for x rsz r
    by (rule map_pages_loader [OF pre [OF that]]) simp
  moreover have "leads (loader nap) (map_pages os ops nap ndp off sz rsz pr rd pa)"
    if "pr AND PROT_WRITE = 0 \<or> pr AND PROT_EXEC = 0" for rsz pr rd
    by (rule map_pages_loader [OF loader_refl that])
  ultimately show ?thesis
    unfolding NaClElfFileMapSegment_def Let_def split_def by (intro leads_intros) (auto intro: pre)
qed

lemma load_segment_loader: "leads (loader nap) (load_segment os ops validator nap ndp php)"
proof -
  note map = leads_fst [OF FileMapSegment_loader]
  show ?thesis
    unfolding load_segment_def Let_def split_def
    by (intro leads_intros) (auto intro: loader_refl pread_into_loader [OF loader_refl] pread_into_loader [OF map] map split: if_splits)
qed

lemma load_segments_loader:
  "load_segments os ops validator nap ndp phs = Inr (nap', st) \<Longrightarrow> loader nap nap'"
proof (induction phs arbitrary: nap)
  case Nil
  then show ?case by (simp add: loader_refl)
next
  case (Cons ph phs)
  obtain php l where ph: "ph = (php, l)" by (cases ph)
  show ?case
  proof (cases l)
    case False
    with Cons ph show ?thesis by simp
  next
    case True
    obtain n1 s1 where s: "load_segment os ops validator nap ndp php = Inr (n1, s1)"
      "(if s1 \<noteq> LOAD_OK then Inr (n1, s1) else load_segments os ops validator n1 ndp phs) = Inr (nap', st)"
      using Cons.prems ph True by (auto simp: run_simps)
    have "loader nap n1" by (rule leadsD [OF load_segment_loader s(1)])
    with s(2) Cons.IH show ?thesis by (auto split: if_splits intro: loader_trans)
  qed
qed

lemma load_trampoline_loader: "NaClLoadTrampoline os code_addr nap = Inr nap' \<Longrightarrow> loader nap nap'"
proof -
  assume run: "NaClLoadTrampoline os code_addr nap = Inr nap'"
  have "leads (loader nap) (NaClMakeDispatchAddrs os nap)"
    unfolding NaClMakeDispatchAddrs_def Let_def host_def split_def
    by (intro leads_intros) (auto simp: loader_def logs_def base_def)
  from leadsD [OF this] run show ?thesis
    unfolding NaClLoadTrampoline_def Let_def
    by (auto simp: run_simps intro: loader_updates split: if_splits)
qed

subsection \<open>The layout that the header checks guarantee\<close>

text \<open>A segment that ends exactly at 4 GB has the end 0 in the 32-bit sums of the scan: such executables
  are left out here.\<close>

definition no_segment_at_top :: "bool \<Rightarrow> elf_file \<Rightarrow> bool" where
  "no_segment_at_top malloc pread \<longleftrightarrow>
     (case NaClElfImageNew malloc pread of Inr (Inr img) \<Rightarrow>
        list_all (\<lambda>php. unat (p_vaddr php) + unat (p_memsz php) \<noteq> 2 ^ 32) (phdrs img) | _ \<Rightarrow> True)"

definition header_layout :: "'a NaClLoadApp_scheme \<Rightarrow> bool" where
  "header_layout nap \<longleftrightarrow> break_addr nap = data_end nap \<and> bundle_size nap = 32 \<and>
     0x20000 \<le> unat (static_text_end nap) \<and> unat (static_text_end nap) < 2 ^ 32 \<and>
     65536 dvd unat (stack_size nap) \<and>
     (rodata_start nap \<noteq> 0 \<or> data_start nap \<noteq> 0 \<longrightarrow> unat (data_end nap) \<le> 2 ^ 32) \<and>
     (rodata_start nap \<noteq> 0 \<longrightarrow> 65536 dvd unat (rodata_start nap) \<and>
        alloc_up (static_text_end nap) \<le> unat (rodata_start nap) \<and>
        unat (rodata_start nap) < (if data_start nap \<noteq> 0 then alloc_down (data_start nap) else unat (data_end nap))) \<and>
     (data_start nap \<noteq> 0 \<longrightarrow> unat (data_start nap) < unat (data_end nap) \<and>
        (rodata_start nap = 0 \<longrightarrow> alloc_up (static_text_end nap) \<le> alloc_down (data_start nap)))"

lemma phdr_end_nat:
  assumes "segment_ok bits php" and "bits \<le> 32" and "unat (p_vaddr php) + unat (p_memsz php) \<noteq> 2 ^ 32"
  shows "unat (phdr_end php) = unat (p_vaddr php) + unat (p_memsz php)"
    and "unat (p_vaddr php) + unat (p_memsz php) < 2 ^ 32"
proof -
  have "unat (p_vaddr php) + unat (p_memsz php) \<le> 2 ^ bits" using assms(1) by (simp add: segment_ok_def)
  also have "(2 :: nat) ^ bits \<le> 2 ^ 32" using assms(2) by (intro power_increasing) simp_all
  finally show lt: "unat (p_vaddr php) + unat (p_memsz php) < 2 ^ 32" using assms(3) by simp
  then have "unat (p_vaddr php + p_memsz php) = unat (p_vaddr php) + unat (p_memsz php)" by (intro unat_add_small) simp
  then show "unat (phdr_end php) = unat (p_vaddr php) + unat (p_memsz php)" by (simp add: phdr_end_def unat_ucast_up)
qed

text \<open>The sanity checks, on natural numbers.\<close>

lemma layout_sane:
  assumes "NaClCheckAddressSpaceLayoutSanity nap rod_end dat_end max_vaddr = LOAD_OK"
    and "unat (static_text_end nap) < 2 ^ 32" and "unat (rodata_start nap) < 2 ^ 32" and "unat rod_end < 2 ^ 32"
  shows "data_start nap \<noteq> 0 \<Longrightarrow> dat_end = max_vaddr"
    and "data_start nap = 0 \<Longrightarrow> rodata_start nap \<noteq> 0 \<Longrightarrow> alloc_up rod_end = unat max_vaddr"
    and "data_start nap \<noteq> 0 \<Longrightarrow> rodata_start nap \<noteq> 0 \<Longrightarrow> unat rod_end \<le> alloc_down (data_start nap)"
    and "rodata_start nap \<noteq> 0 \<Longrightarrow> alloc_up (static_text_end nap) \<le> unat (rodata_start nap)"
    and "data_start nap \<noteq> 0 \<Longrightarrow> rodata_start nap = 0 \<Longrightarrow> alloc_up (static_text_end nap) \<le> alloc_down (data_start nap)"
    and "rodata_start nap \<noteq> 0 \<Longrightarrow> 65536 dvd unat (rodata_start nap)"
proof -
  have r: "unat (NaClRoundAllocPage (static_text_end nap)) = alloc_up (static_text_end nap)"
    "unat (NaClRoundAllocPage rod_end) = alloc_up rod_end"
    "unat (NaClRoundAllocPage (rodata_start nap)) = alloc_up (rodata_start nap)"
    using assms(2-4) by (intro round_alloc; simp)+
  note c = assms(1) [unfolded NaClCheckAddressSpaceLayoutSanity_def NaClEndOfStaticText_def]
  show "data_start nap \<noteq> 0 \<Longrightarrow> dat_end = max_vaddr" using c by (auto split: if_splits)
  show "data_start nap = 0 \<Longrightarrow> rodata_start nap \<noteq> 0 \<Longrightarrow> alloc_up rod_end = unat max_vaddr"
    using c unfolding r(2) [symmetric] by (auto split: if_splits)
  show "data_start nap \<noteq> 0 \<Longrightarrow> rodata_start nap \<noteq> 0 \<Longrightarrow> unat rod_end \<le> alloc_down (data_start nap)"
    using c unfolding trunc_alloc [symmetric] by (auto simp: word_less_nat_alt split: if_splits)
  show "rodata_start nap \<noteq> 0 \<Longrightarrow> alloc_up (static_text_end nap) \<le> unat (rodata_start nap)"
    using c unfolding r(1) [symmetric] by (auto simp: word_less_nat_alt split: if_splits)
  show "data_start nap \<noteq> 0 \<Longrightarrow> rodata_start nap = 0 \<Longrightarrow> alloc_up (static_text_end nap) \<le> alloc_down (data_start nap)"
    using c unfolding r(1) [symmetric] trunc_alloc [symmetric] by (auto simp: word_less_nat_alt split: if_splits)
  show "65536 dvd unat (rodata_start nap)" if "rodata_start nap \<noteq> 0"
  proof -
    have "NaClRoundAllocPage (rodata_start nap) = rodata_start nap" using c that by (auto split: if_splits)
    then show ?thesis using r(3) alloc_facts(1) by metis
  qed
qed

text \<open>What the summary of accepted headers says, when no segment ends at 4 GB.\<close>

lemma info_bounds:
  assumes "headers_ok 32 img info" and "list_all (\<lambda>php. unat (p_vaddr php) + unat (p_memsz php) \<noteq> 2 ^ 32) (phdrs img)"
  shows "0x20000 \<le> unat (info_static_text_end info)" and "unat (info_static_text_end info) < 2 ^ 32"
    and "unat (info_rodata_start info) < 2 ^ 32" and "unat (info_rodata_end info) < 2 ^ 32"
    and "info_rodata_start info \<noteq> 0 \<Longrightarrow> unat (info_rodata_start info) < unat (info_rodata_end info)"
    and "info_data_start info \<noteq> 0 \<Longrightarrow> unat (info_data_start info) < unat (info_data_end info)"
    and "unat (info_data_end info) < 2 ^ 32"
proof -
  have h: "info_ok (phdrs img) info" "\<And>php. php \<in> set (phdrs img) \<Longrightarrow> loads php \<Longrightarrow> segment_ok 32 php"
    "\<exists>t \<in> set (phdrs img). is_text t" "\<And>t. t \<in> set (phdrs img) \<Longrightarrow> is_text t \<Longrightarrow> p_vaddr t = 0x20000"
    using assms(1) by (simp_all add: headers_ok_def)
  have seg: "segment_ok 32 p" "unat (phdr_end p) = unat (p_vaddr p) + unat (p_memsz p)" "unat (phdr_end p) < 2 ^ 32"
    if "p \<in> set (phdrs img)" "is_text p \<or> is_rodata p \<or> is_data p" for p
  proof -
    show s: "segment_ok 32 p" using that h(2) by (auto simp: loads_kinds)
    have "unat (p_vaddr p) + unat (p_memsz p) \<noteq> 2 ^ 32" using assms(2) that(1) by (simp add: list_all_iff)
    note e = phdr_end_nat [OF s _ this]
    then show "unat (phdr_end p) = unat (p_vaddr p) + unat (p_memsz p)" "unat (phdr_end p) < 2 ^ 32" by simp_all
  qed
  obtain t where t: "t \<in> set (phdrs img)" "is_text t" using h(3) by blast
  have te: "info_static_text_end info = text_end_of t" using h(1) t by (auto simp: info_ok_def seg_value_def)
  have st: "segment_ok 32 t" "unat (p_vaddr t) = 0x20000" "unat (p_vaddr t) + unat (p_memsz t) < 2 ^ 32"
    using seg [OF t(1)] h(4) [OF t] t(2) by simp_all
  then have "unat (0x20000 + p_filesz t) = 0x20000 + unat (p_filesz t)"
    by (subst unat_add_small) (simp_all add: segment_ok_def)
  then have "unat (info_static_text_end info) = 0x20000 + unat (p_filesz t)" by (simp add: te text_end_of_def unat_ucast_up)
  with st show "0x20000 \<le> unat (info_static_text_end info)" "unat (info_static_text_end info) < 2 ^ 32"
    by (simp_all add: segment_ok_def)
  have ro: "(\<exists>p \<in> set (phdrs img). is_rodata p \<and> info_rodata_start info = ucast (p_vaddr p) \<and> info_rodata_end info = phdr_end p) \<or>
     info_rodata_start info = 0 \<and> info_rodata_end info = 0"
    using h(1) unfolding info_ok_def seg_value_def by blast
  then show "unat (info_rodata_start info) < 2 ^ 32" "unat (info_rodata_end info) < 2 ^ 32"
    using seg(3) unat_lt32 by (auto simp: unat_ucast_up)
  show "info_rodata_start info \<noteq> 0 \<Longrightarrow> unat (info_rodata_start info) < unat (info_rodata_end info)"
    using ro seg(1,2) by (auto simp: unat_ucast_up segment_ok_def)
  have "(\<exists>p \<in> set (phdrs img). is_data p \<and> info_data_start info = ucast (p_vaddr p) \<and> info_data_end info = phdr_end p) \<or>
     info_data_start info = 0 \<and> info_data_end info = 0"
    using h(1) unfolding info_ok_def seg_value_def by blast
  then show "info_data_start info \<noteq> 0 \<Longrightarrow> unat (info_data_start info) < unat (info_data_end info)"
    "unat (info_data_end info) < 2 ^ 32"
    using seg by (auto simp: unat_ucast_up segment_ok_def)
qed

text \<open>The fields that \<open>load_headers\<close> writes.\<close>

definition headers_written :: "'a NaClLoadApp_scheme \<Rightarrow> 'a NaClLoadApp_scheme \<Rightarrow> bool" where
  "headers_written nap nap' \<longleftrightarrow> (\<exists>ss ste ro ds br de ep. nap' = nap\<lparr> stack_size := ss, static_text_end := ste,
     rodata_start := ro, data_start := ds, break_addr := br, data_end := de, bundle_size := 32, initial_entry_pt := ep \<rparr>)"

lemma load_headers_layout:
  assumes "load_headers malloc pread nap = Inr (nap', Inr img)" and "addr_bits nap = 32"
    and "no_segment_at_top malloc pread"
  shows "header_layout nap'" and "headers_written nap nap'"
proof -
  note run = assms(1) [unfolded load_headers_def Let_def]
  have "\<not> addr_bits nap > 32" using assms(2) by simp
  note run = run [unfolded if_not_P [OF this] andThen_eq_Inr]
  obtain img0 info where new: "NaClElfImageNew malloc pread = Inr (Inr img0)"
    and val: "NaClElfImageValidateProgramHeaders img0 32 = Inr (img, info)"
  proof -
    obtain r where r: "NaClElfImageNew malloc pread = Inr r" using run by blast
    show thesis
    proof (cases r)
      case (Inl e)
      with run r show thesis by simp
    next
      case (Inr img0)
      show thesis
      proof (cases "NaClElfImageValidateProgramHeaders img0 32")
        case (Inl e)
        with run r \<open>r = Inr img0\<close> assms(2) show thesis by simp
      next
        case (Inr x)
        obtain img1 info where x: "x = (img1, info)" by (cases x)
        with Inr run r \<open>r = Inr img0\<close> assms(2) have "img1 = img" by (simp split: if_splits)
        with that r \<open>r = Inr img0\<close> Inr x show thesis by simp
      qed
    qed
  qed
  have tops: "list_all (\<lambda>php. unat (p_vaddr php) + unat (p_memsz php) \<noteq> 2 ^ 32) (phdrs img)"
    using assms(3) new validate_headers(2) [OF val elf_image_new_image [OF new] order_refl] by (simp add: no_segment_at_top_def)
  note b = info_bounds [OF validate_headers(1) [OF val elf_image_new_image [OF new] order_refl] tops]
  define max_vaddr where "max_vaddr =
     (if info_data_start info = 0 then
        NaClRoundAllocPage
          (if info_rodata_start info = 0 \<and>
              NaClRoundAllocPage (info_max_vaddr info) - info_max_vaddr info < NACL_HALT_SLED_SIZE64
           then info_max_vaddr info + NACL_MAP_PAGESIZE else info_max_vaddr info)
      else info_max_vaddr info)"
  define n1 where "n1 = nap\<lparr> stack_size := NaClRoundAllocPage (stack_size nap), static_text_end := info_static_text_end info,
     rodata_start := info_rodata_start info, data_start := info_data_start info, break_addr := max_vaddr,
     data_end := max_vaddr, bundle_size := 32, initial_entry_pt := ucast (e_entry (ehdr img)) \<rparr>"
  have "(if initial_nexe_max_code_bytes nap \<noteq> 0 \<and>
        info_static_text_end info - NACL_TRAMPOLINE_END > ucast (initial_nexe_max_code_bytes nap)
      then Inr (nap\<lparr> stack_size := NaClRoundAllocPage (stack_size nap) \<rparr>, Inl LOAD_CODE_SEGMENT_TOO_LARGE)
      else if \<not> NaClAddrIsValidEntryPt n1 (initial_entry_pt n1) then Inr (n1, Inl LOAD_BAD_ENTRY)
      else if NaClCheckAddressSpaceLayoutSanity n1 (info_rodata_end info) (info_data_end info) max_vaddr \<noteq> LOAD_OK
      then Inr (n1, Inl (NaClCheckAddressSpaceLayoutSanity n1 (info_rodata_end info) (info_data_end info) max_vaddr))
      else Inr (n1, Inr img)) = (Inr (nap', Inr img) :: ('a NaClLoadApp_scheme \<times> (NaClErrorCode + NaClElfImage)) run)"
    using assms(1,2) new val unfolding load_headers_def Let_def n1_def max_vaddr_def
    by (simp split del: if_split)
  then have "nap' = n1 \<and> NaClCheckAddressSpaceLayoutSanity n1 (info_rodata_end info) (info_data_end info) max_vaddr = LOAD_OK"
    by (simp split: if_splits)
  then have nap': "nap' = n1" and sane: "NaClCheckAddressSpaceLayoutSanity n1 (info_rodata_end info) (info_data_end info) max_vaddr = LOAD_OK"
    by simp_all
  show "headers_written nap nap'" unfolding headers_written_def nap' n1_def by blast
  have f: "static_text_end n1 = info_static_text_end info" "rodata_start n1 = info_rodata_start info"
    "data_start n1 = info_data_start info" "data_end n1 = max_vaddr" "break_addr n1 = max_vaddr" "bundle_size n1 = 32"
    "stack_size n1 = NaClRoundAllocPage (stack_size nap)" by (simp_all add: n1_def)
  note l = layout_sane [OF sane, unfolded f, OF b(2,3,4)]
  have "65536 dvd unat (NaClRoundAllocPage x)" for x
    by (simp add: NaClRoundAllocPage_def mask_numerals unat_and_not_mask)
  moreover have "unat (info_rodata_start info) < unat max_vaddr"
    if "info_rodata_start info \<noteq> 0" "info_data_start info = 0"
    using l(2) [OF that(2,1)] b(5) [OF that(1)] alloc_facts(3) [of "info_rodata_end info"] by simp
  moreover have "unat max_vaddr \<le> 2 ^ 32" if "info_rodata_start info \<noteq> 0 \<or> info_data_start info \<noteq> 0"
  proof (cases "info_data_start info = 0")
    case True
    have "alloc_up (info_rodata_end info) \<le> 2 ^ 32"
    proof -
      have "(unat (info_rodata_end info) + 65535) div 65536 \<le> (2 ^ 32 - 1 + 65535) div 65536"
        using b(4) by (intro div_le_mono) simp
      then show ?thesis by (simp add: alloc_up_def)
    qed
    then show ?thesis using l(2) [OF True] that True by simp
  next
    case False
    then show ?thesis using l(1) b(7) by simp
  qed
  ultimately show "header_layout nap'"
    using b l unfolding header_layout_def nap' f by auto
qed

subsection \<open>The address space\<close>

text \<open>Reserved memory lies below the end of the host's address space.\<close>

definition space_found :: "os \<Rightarrow> bool" where
  "space_found os \<longleftrightarrow> (\<forall>lg n a. os lg (HostAllocateSpace n a) = 0 \<or> unat (os lg (HostAllocateSpace n a)) + unat n < 2 ^ 64)"

definition placed :: "'a NaClLoadApp_scheme \<Rightarrow> 'a NaClLoadApp_scheme \<Rightarrow> bool" where
  "placed nap nap' \<longleftrightarrow> (\<exists>ms u cs. nap' = nap\<lparr> mem_start := ms, user_mem := u, host_log := host_log nap @ cs \<rparr> \<and>
     (\<forall>c \<in> set cs. wx_ok c) \<and> 2 ^ 32 dvd unat ms \<and> unat ms + 2 ^ 32 < 2 ^ 64)"

lemma round_up_pow2:
  fixes u :: u64
  assumes "unat u + 0xffffffff < 2 ^ 64"
  shows "2 ^ 32 dvd unat ((u + 0xffffffff) AND NOT 0xffffffff)"
    and "unat ((u + 0xffffffff) AND NOT 0xffffffff) \<le> unat u + 0xffffffff"
proof -
  have m: "(0xffffffff :: u64) = mask 32" by (simp add: mask_eq_exp_minus_1)
  have "unat (u + 0xffffffff) = unat u + 0xffffffff" using assms by (subst unat_add_small) simp_all
  then show "2 ^ 32 dvd unat ((u + 0xffffffff) AND NOT 0xffffffff)"
    "unat ((u + 0xffffffff) AND NOT 0xffffffff) \<le> unat u + 0xffffffff"
    unfolding m unat_and_not_mask by simp_all
qed

lemma pow2_memory:
  assumes "NaClAllocatePow2AlignedMemory os nap 0x1500000000 32 aslr_mode = Inr (n1, r)" and "space_found os"
  shows "\<exists>cs. n1 = nap\<lparr> host_log := host_log nap @ cs \<rparr> \<and> (\<forall>c \<in> set cs. wx_ok c)"
    and "2 ^ 32 dvd unat r" and "unat r + 0x1500000000 < 2 ^ 64"
proof -
  define u where "u = os (host_log nap) (HostAllocateSpace 0x1600000000 aslr_mode)"
  have u: "u \<noteq> 0" and r: "r = (u + 0xffffffff) AND NOT 0xffffffff"
    using assms(1) unfolding u_def
    by (auto simp: NaClAllocatePow2AlignedMemory_def Let_def host_def split: if_splits)
  have lt: "unat u + unat (0x1600000000 :: u64) < 2 ^ 64" using assms(2) u unfolding space_found_def u_def by blast
  then have "unat u + 0xffffffff < 2 ^ 64" by simp
  from round_up_pow2 [OF this, folded r] lt show "2 ^ 32 dvd unat r" "unat r + 0x1500000000 < 2 ^ 64" by simp_all
  show "\<exists>cs. n1 = nap\<lparr> host_log := host_log nap @ cs \<rparr> \<and> (\<forall>c \<in> set cs. wx_ok c)"
    using assms(1) unfolding NaClAllocatePow2AlignedMemory_def Let_def host_def
    by (simp split: if_splits) (safe, (rule exI, rule conjI, rule refl, simp)+)
qed

lemma alloc_space_placed:
  assumes "NaClAllocAddrSpaceAslr os nap aslr_mode = Inr (nap', LOAD_OK)" and "addr_bits nap = 32" and "space_found os"
    and "65536 dvd unat (stack_size nap)"
  shows "placed nap nap'"
    and "unat (data_end nap) \<le> 2 ^ 32 \<Longrightarrow> alloc_up (data_end nap) + unat (stack_size nap) \<le> 2 ^ 32"
proof -
  have lim: "addr_limit n = FOURGIG" if "addr_bits n = 32" for n :: "'c NaClApp_scheme" using that by (simp add: addr_limit_def)
  obtain n1 rv mem where space: "NaClAllocateSpaceAslr os nap FOURGIG aslr_mode = Inr (n1, rv, mem)"
    using assms(1) lim [OF assms(2)] by (auto simp: NaClAllocAddrSpaceAslr_def run_simps)
  then have rv: "rv = LOAD_OK"
    using assms(1) lim [OF assms(2)] by (auto simp: NaClAllocAddrSpaceAslr_def split: if_splits)
  obtain r where pow: "NaClAllocatePow2AlignedMemory os nap 0x1500000000 32 aslr_mode = Inr (n1, r)" "mem = r + 0xa00000000"
    using space rv unfolding NaClAllocateSpaceAslr_def by (auto simp: run_simps split: if_splits)
  note p = pow2_memory [OF pow(1) assms(3)]
  have mem: "unat mem = unat r + 0xa00000000" unfolding pow(2) using p(3) by (subst unat_add_small) simp_all
  have dvd: "2 ^ 32 dvd unat mem" unfolding mem using p(2) by (rule dvd_add) simp
  obtain cs where n1: "n1 = nap\<lparr> host_log := host_log nap @ cs \<rparr>" "\<forall>c \<in> set cs. wx_ok c" using p(1) by blast
  define n2 where "n2 = n1\<lparr> mem_start := mem, user_mem := (\<lambda>_. 0) \<rparr>"
  let ?hole_start = "NaClRoundAllocPage (data_end nap)" and ?stack_start = "NaClTruncAllocPage (FOURGIG - stack_size nap)"
  let ?hole_size = "NaClTruncAllocPage (?stack_start - ?hole_start)"
  have f: "addr_limit n2 = FOURGIG" "data_end n2 = data_end nap" "stack_size n2 = stack_size nap"
    using assms(2) by (simp_all add: n2_def n1(1) addr_limit_def)
  have nrv: "\<not> rv \<noteq> LOAD_OK" using rv by simp
  have run: "(if stack_size nap \<ge> FOURGIG then Inl LogFatal
       else if ?stack_start < ?hole_start then Inr (n2, LOAD_DATA_OVERLAPS_STACK_SECTION)
       else if ?hole_size = 0 then Inr (n2, LOAD_OK)
       else
         let (rv, nap) = host os n2 (HostMadviseFree (mem_start n2 + ?hole_start) ?hole_size) in
         if rv \<noteq> 0 then Inr (nap, LOAD_MADVISE_FAIL)
         else
           let (rv, nap) = host os nap (HostMprotect (mem_start nap + ?hole_start) ?hole_size PROT_NONE) in
           if rv \<noteq> 0 then Inr (nap, LOAD_MPROTECT_FAIL) else Inr (nap, LOAD_OK)) = Inr (nap', LOAD_OK)"
    using assms(1) unfolding NaClAllocAddrSpaceAslr_def lim [OF assms(2)] space andThen.simps prod.case Let_def
      if_not_P [OF nrv] n2_def [symmetric] f .
  show "placed nap nap'"
  proof -
    have "\<exists>ds. nap' = n2\<lparr> host_log := host_log n2 @ ds \<rparr> \<and> (\<forall>c \<in> set ds. wx_ok c)"
      using run by (auto simp: host_def Let_def split: if_splits intro: exI [of _ "[]"])
        (rule exI, rule conjI, rule refl, simp)
    then obtain ds where ds: "nap' = n2\<lparr> host_log := host_log n2 @ ds \<rparr>" "\<forall>c \<in> set ds. wx_ok c" by blast
    then have "nap' = nap\<lparr> mem_start := mem, user_mem := (\<lambda>_. 0), host_log := host_log nap @ (cs @ ds) \<rparr>"
      by (simp add: n2_def n1(1))
    moreover have "\<forall>c \<in> set (cs @ ds). wx_ok c" using n1(2) ds(2) by auto
    moreover have "unat mem + 2 ^ 32 < 2 ^ 64" using mem p(3) by simp
    ultimately show ?thesis using dvd unfolding placed_def by blast
  qed
  have sz: "unat (stack_size nap) < 2 ^ 32" and le: "\<not> ?stack_start < ?hole_start"
    using run by (auto simp: word_le_nat_alt split: if_splits)
  have "unat (FOURGIG - stack_size nap) = 2 ^ 32 - unat (stack_size nap)" using sz by (simp add: unat_sub_small)
  moreover have "65536 dvd 2 ^ 32 - unat (stack_size nap)" using assms(4) by (intro dvd_diff_nat) simp_all
  ultimately have "unat ?stack_start = 2 ^ 32 - unat (stack_size nap)" unfolding trunc_alloc alloc_down_def by simp
  then have "alloc_up (data_end nap) \<le> 2 ^ 32 - unat (stack_size nap)" if "unat (data_end nap) \<le> 2 ^ 32"
    using le round_alloc [OF that] by (simp add: word_less_nat_alt not_less)
  then show "alloc_up (data_end nap) + unat (stack_size nap) \<le> 2 ^ 32" if "unat (data_end nap) \<le> 2 ^ 32"
    using sz that by fastforce
qed

subsection \<open>The dynamic text area\<close>

lemma visible_fresh: "\<not> visible (BitmapAllocate n) p"
  by (simp add: visible_def BitmapAllocate_def)

lemma bitmap_room:
  assumes "unat n \<le> 2 ^ 16"
  shows "unat n \<le> 8 * length (BitmapAllocate n)"
proof -
  have "unat (n + 8) = unat n + 8" using assms by (subst unat_add_small) simp_all
  then have "unat (n + 8 - 1) = unat n + 7" by (subst unat_sub_small) simp_all
  then show ?thesis by (simp add: BitmapAllocate_def unat_div)
qed

text \<open>A shared memory object for the dynamic text: the area runs from the end of the static text up to
  the read-only data or the data, no page is visible yet, and the object is all zeroes.\<close>

definition area_made :: "'a NaClLoadApp_scheme \<Rightarrow> 'a NaClLoadApp_scheme \<Rightarrow> bool" where
  "area_made nap nap' \<longleftrightarrow> (\<exists>s e d cs. nap' = nap\<lparr> host_log := host_log nap @ cs,
       dynamic_page_bitmap := BitmapAllocate (ucast ((e - s) div NACL_MAP_PAGESIZE)),
       dynamic_text_start := s, dynamic_text_end := e, text_shm := Some d, text_mem := (\<lambda>_. 0) \<rparr> \<and> (\<forall>c \<in> set cs. wx_ok c) \<and>
     unat s = alloc_up (static_text_end nap) \<and> unat s < unat e \<and> 65536 dvd unat e \<and>
     (rodata_start nap \<noteq> 0 \<longrightarrow> e = rodata_start nap) \<and>
     (rodata_start nap = 0 \<longrightarrow> data_start nap \<noteq> 0 \<and> unat e = alloc_down (data_start nap)))"

lemma make_dynamic:
  assumes "NaClMakeDynamicTextShared os malloc sz nap = Inr (nap', LOAD_OK)" and "header_layout nap"
    and "text_shm nap = None" and "text_shm nap' \<noteq> None"
  shows "area_made nap nap'"
proof -
  define s where "s = NaClRoundAllocPage (static_text_end nap)"
  define e0 where "e0 = (if rodata_start nap = 0 then NaClTruncAllocPage (data_start nap) else rodata_start nap)"
  define e where "e = (if e0 = 0 then s else e0)"
  have h: "unat (static_text_end nap) < 2 ^ 32"
    "rodata_start nap \<noteq> 0 \<Longrightarrow> 65536 dvd unat (rodata_start nap) \<and> alloc_up (static_text_end nap) \<le> unat (rodata_start nap)"
    "data_start nap \<noteq> 0 \<Longrightarrow> rodata_start nap = 0 \<Longrightarrow> alloc_up (static_text_end nap) \<le> alloc_down (data_start nap)"
    using assms(2) by (simp_all add: header_layout_def)
  have us: "unat s = alloc_up (static_text_end nap)" unfolding s_def using h(1) by (intro round_alloc) simp
  define n1 where "n1 = nap\<lparr> dynamic_text_start := s, dynamic_text_end := s \<rparr>"
  have "(if \<not> use_shm_for_dynamic_text nap then Inr (n1, LOAD_OK)
      else if e - s = 0 then Inr (n1, LOAD_OK)
      else if \<not> malloc sz then Inr (n1, LOAD_NO_MEMORY)
      else
        let (shm, nap) = host os n1 (HostShmCreate (e - s)) in
        if shm = 0 then Inr (nap, LOAD_NO_MEMORY_FOR_DYNAMIC_TEXT)
        else
          andThen (NaClUserToSys nap s) (\<lambda>text_sysaddr.
          let (freed, nap) = host os nap (HostPageFree text_sysaddr (e - s));
              (mmap_ret, nap) = host os nap
                (HostMapDesc (unat shm) text_sysaddr (e - s) PROT_NONE (MAP_SHARED OR MAP_FIXED) 0);
              pages = ucast ((e - s) div NACL_MAP_PAGESIZE) :: u32 in
          if freed \<noteq> 0 \<or> text_sysaddr \<noteq> mmap_ret then Inl LogFatal
          else if \<not> malloc (ucast ((pages + 8 - 1) div 8)) then Inl LogFatal
          else Inr (nap\<lparr> dynamic_page_bitmap := BitmapAllocate pages, dynamic_text_start := s, dynamic_text_end := e,
                         text_shm := Some (unat shm), text_mem := (\<lambda>_. 0) \<rparr>, LOAD_OK))) = Inr (nap', LOAD_OK)"
    using assms(1) unfolding NaClMakeDynamicTextShared_def
    by (simp add: Let_def NaClEndOfStaticText_def s_def e_def e0_def n1_def split del: if_split cong: if_cong)
  then have run: "e \<noteq> s" "\<exists>d cs. nap' = nap\<lparr> host_log := host_log nap @ cs,
       dynamic_page_bitmap := BitmapAllocate (ucast ((e - s) div NACL_MAP_PAGESIZE)),
       dynamic_text_start := s, dynamic_text_end := e, text_shm := Some d, text_mem := (\<lambda>_. 0) \<rparr> \<and> (\<forall>c \<in> set cs. wx_ok c)"
    using assms(3,4) by (auto simp: run_simps host_def n1_def Let_def split: if_splits)
      (rule exI, rule exI, rule conjI, rule refl, simp)
  have e: "e = e0" "e0 \<noteq> 0" using run(1) by (auto simp: e_def split: if_splits)
  have nz: "rodata_start nap = 0 \<Longrightarrow> data_start nap \<noteq> 0" using e(2) by (auto simp: e0_def NaClTruncAllocPage_def)
  have ue: "rodata_start nap = 0 \<Longrightarrow> unat e = alloc_down (data_start nap)" "rodata_start nap \<noteq> 0 \<Longrightarrow> e = rodata_start nap"
    by (simp_all add: e(1) e0_def trunc_alloc)
  have "unat s \<le> unat e" "65536 dvd unat e" using h(2,3) us ue nz alloc_facts(2) by (metis, metis)
  moreover have "unat s \<noteq> unat e" using run(1) word_eq_unatI [of s e] by auto
  ultimately show ?thesis using run(2) us ue nz unfolding area_made_def
    by (metis le_neq_implies_less)
qed

subsection \<open>From a fresh application to a sandbox\<close>

text \<open>An application as its constructor leaves it, with a descriptor table.\<close>

definition fresh :: "'a NaClLoadApp_scheme \<Rightarrow> bool" where
  "fresh nap \<longleftrightarrow> addr_bits nap = 32 \<and> below (mem_map nap) 0 \<and> table_ok nap \<and> \<not> pnacl_mode nap \<and> text_shm nap = None \<and>
     dynamic_regions nap = [] \<and> dynamic_mapcache_offset nap = 0 \<and> dynamic_mapcache_size nap = 0 \<and>
     dynamic_mapcache_ret nap = 0 \<and> dynamic_delete_generation nap = 0 \<and> thread_generations nap = []"

lemma fresh_ctor: "dyn_ok tbl \<Longrightarrow> fresh (NaClAppCtor dc dl tbl refs)"
  using below_ctor [of refs] by (simp add: fresh_def NaClAppCtor_def table_ok_def)

text \<open>The state of a load when the segments have been read, before the protection.\<close>

definition loaded :: "'a NaClLoadApp_scheme \<Rightarrow> bool" where
  "loaded nap \<longleftrightarrow> image_layout nap \<and> table_ok nap \<and> \<not> pnacl_mode nap \<and> text_shm nap \<noteq> None \<and> bundle_size nap = 32 \<and>
     32 dvd unat (mem_start nap) \<and> unat (static_text_end nap) = unat (dynamic_text_start nap) \<and>
     unat (dynamic_text_start nap) < unat (dynamic_text_end nap) \<and>
     65536 dvd unat (dynamic_text_start nap) \<and> 65536 dvd unat (dynamic_text_end nap) \<and>
     unat (dynamic_text_end nap) < unat (data_end nap) \<and> break_addr nap = data_end nap \<and>
     alloc_up (data_end nap) + unat (stack_size nap) \<le> 2 ^ 32 \<and>
     dynamic_page_bitmap nap = BitmapAllocate (ucast ((dynamic_text_end nap - dynamic_text_start nap) div NACL_MAP_PAGESIZE)) \<and>
     text_mem nap = (\<lambda>_. 0) \<and>
     dynamic_regions nap = [] \<and> dynamic_mapcache_offset nap = 0 \<and> dynamic_mapcache_size nap = 0 \<and>
     dynamic_mapcache_ret nap = 0 \<and> dynamic_delete_generation nap = 0 \<and> thread_generations nap = []"

lemma loaded_text_inv:
  assumes "loaded nap" and "text_pages nap < 2 ^ 15"
  shows "text_inv nap"
proof (rule text_invI)
  let ?s = "dynamic_text_start nap" and ?e = "dynamic_text_end nap"
  have l: "image_layout nap" "text_shm nap \<noteq> None" "bundle_size nap = 32" "32 dvd unat (mem_start nap)"
    "unat (static_text_end nap) = unat ?s" "unat ?s < unat ?e" "65536 dvd unat ?s" "65536 dvd unat ?e"
    "unat ?e < unat (data_end nap)" "alloc_up (data_end nap) + unat (stack_size nap) \<le> 2 ^ 32"
    and bm: "dynamic_page_bitmap nap = BitmapAllocate (ucast ((?e - ?s) div NACL_MAP_PAGESIZE))"
    and rest: "text_mem nap = (\<lambda>_. 0)" "dynamic_regions nap = []" "dynamic_mapcache_offset nap = 0"
    "dynamic_mapcache_size nap = 0" "dynamic_mapcache_ret nap = 0" "dynamic_delete_generation nap = 0" "thread_generations nap = []"
    using assms(1) unfolding loaded_def by blast+
  have lay: "space_ok nap" "addr_bits nap = 32" "0x20000 \<le> unat (static_text_end nap)"
    using l(1) by (simp_all add: image_layout_def)
  have e: "unat ?e \<le> 2 ^ 32" using l(9,10) alloc_facts(3) [of "data_end nap"] by linarith
  have "unat (?e - ?s) = unat ?e - unat ?s" using l(6) by (simp add: unat_sub_small)
  then have q: "unat ((?e - ?s) div NACL_MAP_PAGESIZE) = text_pages nap" by (simp add: unat_div text_pages_def)
  have "unat (ucast ((?e - ?s) div NACL_MAP_PAGESIZE) :: u32) = unat ((?e - ?s) div NACL_MAP_PAGESIZE)"
    using q assms(2) by (simp add: unsigned_ucast_eq take_bit_nat_eq_self)
  then have n: "unat (ucast ((?e - ?s) div NACL_MAP_PAGESIZE) :: u32) = text_pages nap" using q by simp
  have "text_pages nap \<le> 8 * length (dynamic_page_bitmap nap)"
    using bitmap_room [of "ucast ((?e - ?s) div NACL_MAP_PAGESIZE)"] assms(2) unfolding n bm by simp
  then show "layout_ok nap" using l lay e by (simp add: layout_ok_def)
  show "hidden_zero nap" using rest by (simp add: hidden_zero_def)
  show "cache_ok nap" using rest by (simp add: cache_ok_def)
  show "regions_ok (dynamic_regions nap)" using rest by (simp add: regions_ok_def)
  show "generations_ok nap" using rest by (simp add: generations_ok_def)
  show "idle_halted nap" unfolding idle_halted_def bundle_visible_def bm using visible_fresh by blast
  show "in_area nap r" if "r \<in> set (dynamic_regions nap)" for r using that rest(2) by simp
qed (rule assms(2))

lemma protected_sandbox:
  assumes "loaded nap" and "text_pages nap < 2 ^ 15" and "protected nap nap'" and "unat (stack_size nap) \<noteq> 0"
  shows "sandbox_inv nap'"
proof -
  have l: "image_layout nap" "table_ok nap" "\<not> pnacl_mode nap"
    "unat (static_text_end nap) = unat (dynamic_text_start nap)"
    "unat (dynamic_text_start nap) < unat (dynamic_text_end nap)" "65536 dvd unat (dynamic_text_end nap)"
    "unat (dynamic_text_end nap) < unat (data_end nap)" "break_addr nap = data_end nap"
    "alloc_up (data_end nap) + unat (stack_size nap) \<le> 2 ^ 32"
    using assms(1) unfolding loaded_def by blast+
  have lay: "space_ok nap" "addr_bits nap = 32" using l(1) by (simp_all add: image_layout_def)
  obtain m lg where nap': "nap' = nap\<lparr> mem_map := m, host_log := lg \<rparr>" and m: "vm_ok m" "\<And>p. prot_of m p = image_prot nap p"
    using assms(3) unfolding protected_def by blast
  have top: "unat (data_end nap) < 2 ^ 32" using alloc_facts(3) [of "data_end nap"] l(9) assms(4) by linarith
  have ti: "text_inv nap'"
  proof -
    have "text_inv nap" by (rule loaded_text_inv [OF assms(1,2)])
    then have "text_inv (nap\<lparr> mem_map := m, host_log := lg, break_addr := break_addr nap \<rparr>)" unfolding text_inv_memory .
    then show ?thesis unfolding nap' by simp
  qed
  have "page_at m 0 \<noteq> None"
  proof -
    have "image_prot nap 0 = Some PROT_NONE" by (simp add: image_prot_def)
    then show ?thesis using m(2) [of 0] by (auto simp: prot_of_def)
  qed
  moreover have "0 * 4096 < unat (dynamic_text_end nap)" using l(5) by simp
  ultimately have mem: "mem_inv nap'"
    using lay l(5-7) top m(1) unfolding mem_inv_def nap' by (auto simp: space_ok_def intro: exI [of _ "0 :: nat"])
  have "data_not_exec nap'"
    unfolding data_not_exec_def nap'
  proof (intro allI impI)
    fix p v assume pv: "unat (dynamic_text_end (nap\<lparr> mem_map := m, host_log := lg \<rparr>)) \<le> p * 4096 \<and>
      page_at (mem_map (nap\<lparr> mem_map := m, host_log := lg \<rparr>)) p = Some v"
    then have "image_prot nap p = Some (pv_prot v)" using m(2) [of p] by (simp add: prot_of_def)
    moreover have "\<not> p * 4096 < unat (static_text_end nap)" "\<not> p * 4096 < unat (dynamic_text_end nap)"
      using pv l(4,5) by simp_all
    ultimately show "pv_prot v AND PROT_EXEC = 0" unfolding image_prot_def Let_def by (auto split: if_splits)
  qed
  moreover have "break_ok nap'" using l(3,7,8) top lay by (simp add: break_ok_def nap' word_less_nat_alt)
  ultimately show ?thesis using ti mem l(2,7) top by (simp add: sandbox_inv_def table_ok_def nap')
qed

text \<open>The state from the allocation of the address space on.\<close>

definition ready :: "'a NaClLoadApp_scheme \<Rightarrow> bool" where
  "ready nap \<longleftrightarrow> header_layout nap \<and> fresh nap \<and> space_ok nap \<and> 32 dvd unat (mem_start nap) \<and>
     (rodata_start nap \<noteq> 0 \<or> data_start nap \<noteq> 0 \<longrightarrow> alloc_up (data_end nap) + unat (stack_size nap) \<le> 2 ^ 32)"

lemma ready_placed:
  assumes "fresh nap" and "load_headers malloc pread nap = Inr (n1, Inr img)" and "no_segment_at_top malloc pread"
    and "NaClAllocAddrSpaceAslr os n1 aslr_mode = Inr (n2, LOAD_OK)" and "space_found os"
  shows "ready n2"
proof -
  have "addr_bits nap = 32" using assms(1) by (simp add: fresh_def)
  note h = load_headers_layout [OF assms(2) this assms(3)]
  have f1: "fresh n1" using h(2) assms(1) by (auto simp: headers_written_def fresh_def table_ok_def)
  then have b1: "addr_bits n1 = 32" by (simp add: fresh_def)
  have "65536 dvd unat (stack_size n1)" using h(1) by (simp add: header_layout_def)
  note p = alloc_space_placed [OF assms(4) b1 assms(5) this]
  obtain ms u cs where n2: "n2 = n1\<lparr> mem_start := ms, user_mem := u, host_log := host_log n1 @ cs \<rparr>"
    and ms: "2 ^ 32 dvd unat ms" "unat ms + 2 ^ 32 < 2 ^ 64"
    using p(1) unfolding placed_def by blast
  have "(32 :: nat) dvd 2 ^ 32" by simp
  then have "32 dvd unat ms" using ms(1) by (rule dvd_trans)
  moreover have "header_layout n2 = header_layout n1" unfolding n2 header_layout_def by simp
  then have "header_layout n2" using h(1) by simp
  moreover have "fresh n2" using f1 by (simp add: n2 fresh_def table_ok_def)
  moreover have "space_ok n2" using b1 ms(2) by (simp add: space_ok_def n2)
  moreover have "alloc_up (data_end n2) + unat (stack_size n2) \<le> 2 ^ 32" if "rodata_start n2 \<noteq> 0 \<or> data_start n2 \<noteq> 0"
    using p(2) h(1) that by (simp add: n2 header_layout_def)
  ultimately show ?thesis unfolding ready_def by (simp add: n2)
qed

lemma ready_loader: "loader a b \<Longrightarrow> ready a \<Longrightarrow> ready b"
proof -
  assume "loader a b" and r: "ready a"
  note f = loader_fields [OF this(1)]
  have "ready b = ready a"
    unfolding ready_def header_layout_def fresh_def space_ok_def table_ok_def f ..
  with r show ?thesis by simp
qed

lemma loaded_loader: "loader a b \<Longrightarrow> loaded a \<Longrightarrow> loaded b"
proof -
  assume "loader a b" and r: "loaded a"
  note f = loader_fields [OF this(1)]
  have "loaded b = loaded a"
    unfolding loaded_def image_layout_def space_ok_def table_ok_def code_top_def rodata_top_def image_top_def f ..
  with r show ?thesis by simp
qed

text \<open>Laying out the dynamic area and filling up the last page of the static text.\<close>

lemma ready_area_loaded:
  assumes "ready nap" and "area_made nap n1" and "NaClFillEndOfTextRegion n1 = Inr n2"
  shows "loaded n2"
proof -
  obtain s e d cs where n1: "n1 = nap\<lparr> host_log := host_log nap @ cs,
       dynamic_page_bitmap := BitmapAllocate (ucast ((e - s) div NACL_MAP_PAGESIZE)),
       dynamic_text_start := s, dynamic_text_end := e, text_shm := Some d, text_mem := (\<lambda>_. 0) \<rparr>"
    and se: "unat s = alloc_up (static_text_end nap)" "unat s < unat e" "65536 dvd unat e"
    and ro: "rodata_start nap \<noteq> 0 \<Longrightarrow> e = rodata_start nap"
    and nro: "rodata_start nap = 0 \<Longrightarrow> data_start nap \<noteq> 0 \<and> unat e = alloc_down (data_start nap)"
    using assms(2) unfolding area_made_def by blast
  have r: "header_layout nap" "fresh nap" "space_ok nap" "32 dvd unat (mem_start nap)"
    "rodata_start nap \<noteq> 0 \<or> data_start nap \<noteq> 0 \<Longrightarrow> alloc_up (data_end nap) + unat (stack_size nap) \<le> 2 ^ 32"
    using assms(1) unfolding ready_def by blast+
  have h: "break_addr nap = data_end nap" "bundle_size nap = 32" "0x20000 \<le> unat (static_text_end nap)"
    "unat (static_text_end nap) < 2 ^ 32" "65536 dvd unat (stack_size nap)"
    and hro: "rodata_start nap \<noteq> 0 \<Longrightarrow> 65536 dvd unat (rodata_start nap) \<and>
      unat (rodata_start nap) < (if data_start nap \<noteq> 0 then alloc_down (data_start nap) else unat (data_end nap))"
    and hds: "data_start nap \<noteq> 0 \<Longrightarrow> unat (data_start nap) < unat (data_end nap)"
    using r(1) unfolding header_layout_def by blast+
  have sum: "alloc_up (data_end nap) + unat (stack_size nap) \<le> 2 ^ 32" using r(5) nro by blast
  have s: "NaClRoundAllocPage (static_text_end nap) = s"
    using se(1) round_alloc [of "static_text_end nap"] h(4) by (intro word_eq_unatI) simp
  have "\<exists>u. n2 = n1\<lparr> user_mem := u, static_text_end := s \<rparr>"
    using assms(3) unfolding NaClFillEndOfTextRegion_def Let_def by (auto simp: n1 s split: if_splits)
  then obtain u where n2: "n2 = n1\<lparr> user_mem := u, static_text_end := s \<rparr>" ..
  have ste: "0x20000 \<le> unat s" "65536 dvd unat s"
    using se(1) h(3) alloc_facts(3) [of "static_text_end nap"] alloc_facts(1) by simp_all
  have ne: "s \<noteq> e" using se(2) by auto
  have de: "unat e < unat (data_end nap)"
  proof (cases "rodata_start nap = 0")
    case True
    then show ?thesis using nro hds alloc_facts(4) [of "data_start nap"] by fastforce
  next
    case False
    then show ?thesis
      using ro hro hds alloc_facts(4) [of "data_start nap"] by (cases "data_start nap = 0") fastforce+
  qed
  have rt: "rodata_start nap \<noteq> 0 \<Longrightarrow> unat e < (if data_start nap \<noteq> 0 then alloc_down (data_start nap) else alloc_up (data_end nap))"
    using hro ro alloc_facts(3) [of "data_end nap"] by (auto split: if_splits)
  have dd: "data_start nap \<noteq> 0 \<Longrightarrow> unat e \<le> alloc_down (data_start nap)"
    using nro rt by (cases "rodata_start nap = 0") (auto split: if_splits)
  have ct: "code_top n2 = unat e" using ne by (simp add: code_top_def n2 n1)
  have it: "image_top n2 = alloc_up (data_end nap)"
    using nro h(1) by (auto simp: image_top_def n2 n1)
  have il: "image_layout n2"
    unfolding image_layout_def ct it
    using r(2,3) h(1,5) ste se ne ro rt dd hds sum by (auto simp: n2 n1 fresh_def space_ok_def rodata_top_def)
  show ?thesis
    unfolding loaded_def using il r(2,4) h(1,2) se ste de sum by (simp add: n2 n1 fresh_def table_ok_def)
qed

text \<open>The protection leaves the rest alone, whatever its result.\<close>

lemma protect_region_text_shm: "leads (\<lambda>n. text_shm n = text_shm nap) (protect_region os nap s a b pr)"
  unfolding protect_region_def Let_def host_def split_def by (intro leads_intros) (simp_all add: add_mapping_def)

lemma protect_leads:
  "leads (\<lambda>n. text_shm n = text_shm nap) (protect_text os nap)"
  "leads (\<lambda>n. text_shm n = text_shm nap) (protect_rodata os nap)"
  "leads (\<lambda>n. text_shm n = text_shm nap) (protect_data os nap)"
  "leads (\<lambda>n. text_shm n = text_shm nap) (protect_stack os nap)"
  unfolding protect_text_def protect_rodata_def protect_data_def protect_stack_def Let_def
  by (intro leads_intros protect_region_text_shm; simp)+

lemma record_dynamic_text_shm: "record_dynamic_text nap = Inr n \<Longrightarrow> text_shm n = text_shm nap"
proof -
  assume run: "record_dynamic_text nap = Inr n"
  have "leads (\<lambda>n. text_shm n = text_shm nap) (andThen (record_dynamic_text nap) (\<lambda>n. Inr (n, ())))"
    unfolding record_dynamic_text_def Let_def andThen_assoc
    by (intro leads_intros) (auto simp: add_mapping_def leads_def andThen_eq_Inr split: if_splits)
  from leadsD [OF this, of n "()"] run show ?thesis by simp
qed

lemmas protect_text_shm = leadsD [OF protect_leads(1)] leadsD [OF protect_leads(2)] leadsD [OF protect_leads(3)]
  leadsD [OF protect_leads(4)] record_dynamic_text_shm

lemma protection_text_shm: "NaClMemoryProtection os nap = Inr (nap', LOAD_OK) \<Longrightarrow> text_shm nap' = text_shm nap"
  unfolding NaClMemoryProtection_def Let_def
  by (auto simp: andLoad_ok run_simps add_mapping_def dest!: protect_text_shm)

lemma fill_end_text_shm: "NaClFillEndOfTextRegion nap = Inr n \<Longrightarrow> text_shm n = text_shm nap \<and> host_log n = host_log nap"
  by (auto simp: NaClFillEndOfTextRegion_def Let_def run_simps split: if_splits)

lemma validate_loaded_loader: "validate_loaded validator nap = Inr (n, st) \<Longrightarrow> loader nap n"
  by (auto simp: validate_loaded_def run_simps intro: loader_refl loader_updates split: if_splits)

text \<open>An error is never reported as success.\<close>

lemma read_errors:
  "read_exact pread off n = Inl e \<Longrightarrow> e \<noteq> LOAD_OK" "read_ehdr bs = Inl e \<Longrightarrow> e \<noteq> LOAD_OK"
  "read_phdrs pread bs h = Inl e \<Longrightarrow> e \<noteq> LOAD_OK"
proof -
  show ex: "e \<noteq> LOAD_OK" if "read_exact pread off n = Inl e" for pread off n e
    using that by (auto simp: read_exact_def split: option.splits if_splits)
  show "read_ehdr bs = Inl e \<Longrightarrow> e \<noteq> LOAD_OK"
    by (auto simp: read_ehdr_def convert_ehdr_def split: if_splits)
  show "read_phdrs pread bs h = Inl e \<Longrightarrow> e \<noteq> LOAD_OK"
    by (auto simp: read_phdrs_def Let_def dest: ex split: if_splits sum.splits)
qed

lemma image_new_error: "NaClElfImageNew malloc pread = Inr (Inl e) \<Longrightarrow> e \<noteq> LOAD_OK"
  by (auto simp: NaClElfImageNew_def Let_def dest: read_errors split: if_splits sum.splits)

lemma scan_error: "scan_phdrs bits n phs s = Inl e \<Longrightarrow> e \<noteq> LOAD_OK"
proof (induction bits n phs s rule: scan_phdrs.induct)
  case (2 bits n php phs s)
  have "record_segment php act info = Inl e' \<Longrightarrow> e' \<noteq> LOAD_OK" for act info e'
    by (cases act) (auto simp: record_segment_def split: if_splits)
  then have "scan_phdr bits n php s = Inl e' \<Longrightarrow> e' \<noteq> LOAD_OK" for e'
    unfolding scan_phdr_def Let_def by (auto split: option.splits if_splits sum.splits)
  with 2 show ?case by (auto split: sum.splits)
qed simp

lemma sanity_status:
  "NaClElfImageValidateProgramHeaders img bits = Inl e \<Longrightarrow> e \<noteq> LOAD_OK"
  by (auto simp: NaClElfImageValidateProgramHeaders_def Let_def dest: scan_error split: sum.splits if_splits)

definition no_false_ok :: "('s \<times> (NaClErrorCode + 'b)) run \<Rightarrow> bool" where
  "no_false_ok r \<longleftrightarrow> (\<forall>n e. r = Inr (n, Inl e) \<longrightarrow> e \<noteq> LOAD_OK)"

lemma no_false_ok_intros:
  "e \<noteq> LOAD_OK \<Longrightarrow> no_false_ok (Inr (n, Inl e))" "no_false_ok (Inr (n, Inr y))"
  "(\<And>x. r = Inr x \<Longrightarrow> no_false_ok (f x)) \<Longrightarrow> no_false_ok (andThen r f)"
  "(c \<Longrightarrow> no_false_ok s) \<Longrightarrow> (\<not> c \<Longrightarrow> no_false_ok t) \<Longrightarrow> no_false_ok (if c then s else t)"
  "(\<And>e. v = Inl e \<Longrightarrow> no_false_ok (h e)) \<Longrightarrow> (\<And>y. v = Inr y \<Longrightarrow> no_false_ok (g y)) \<Longrightarrow>
    no_false_ok (case v of Inl e \<Rightarrow> h e | Inr y \<Rightarrow> g y)"
  by (auto simp: no_false_ok_def run_simps split: sum.split)

lemma load_headers_error: "load_headers malloc pread nap = Inr (n, Inl e) \<Longrightarrow> e \<noteq> LOAD_OK"
proof -
  assume run: "load_headers malloc pread nap = Inr (n, Inl e)"
  have "no_false_ok (load_headers malloc pread nap)"
    unfolding load_headers_def Let_def split_def
    by (intro no_false_ok_intros) (auto dest: image_new_error sanity_status)
  with run show ?thesis by (simp add: no_false_ok_def)
qed

text \<open>The whole load.\<close>

lemma load_steps:
  assumes "NaClAppLoadFileAslr os ops malloc sz validator code_addr ndp nap aslr_mode = Inr (nap', LOAD_OK)"
  obtains img n1 n2 n3 n4 n5 n6 n7
  where "load_headers (malloc sizeof_image) (PRead ops ndp) nap = Inr (n1, Inr img)"
    and "NaClAllocAddrSpaceAslr os n1 aslr_mode = Inr (n2, LOAD_OK)"
    and "loader n2 n3" and "NaClMakeDynamicTextShared os malloc sz n3 = Inr (n4, LOAD_OK)"
    and "NaClFillEndOfTextRegion n4 = Inr n5" and "validate_loaded validator n5 = Inr (n6, LOAD_OK)"
    and "NaClLoadTrampoline os code_addr n6 = Inr n7" and "NaClMemoryProtection os n7 = Inr (nap', LOAD_OK)"
proof -
  obtain n1 r where h: "load_headers (malloc sizeof_image) (PRead ops ndp) nap = Inr (n1, r)"
    using assms by (auto simp: NaClAppLoadFileAslr_def run_simps)
  obtain img where r: "r = Inr img" and l: "load_image os ops malloc sz validator code_addr img ndp aslr_mode n1 = Inr (nap', LOAD_OK)"
    using assms h load_headers_error [of "malloc sizeof_image" "PRead ops ndp" nap] by (cases r) (auto simp: NaClAppLoadFileAslr_def)
  obtain n2 where n2: "NaClAllocAddrSpaceAslr os n1 aslr_mode = Inr (n2, LOAD_OK)"
    using l unfolding load_image_def andLoad_ok by blast
  let ?c = "HostMprotect (mem_start n2 + 0x10000) (NaClRoundAllocPage (data_end n2) - 0x10000) (PROT_READ OR PROT_WRITE)"
  let ?m2 = "n2\<lparr> host_log := host_log n2 @ [?c] \<rparr>"
  have rest: "andLoad (NaClElfImageLoad os ops validator img ndp ?m2) (\<lambda>nap.
      andLoad (NaClMakeDynamicTextShared os malloc sz nap) (\<lambda>nap.
      andThen (NaClFillEndOfTextRegion nap) (\<lambda>nap.
      andLoad (validate_loaded validator nap) (\<lambda>nap.
      andThen (NaClLoadTrampoline os code_addr nap) (\<lambda>nap.
      NaClMemoryProtection os nap))))) = Inr (nap', LOAD_OK)"
    using l n2 unfolding load_image_def andLoad_ok by (auto simp: host_def Let_def andLoad_ok split: if_splits)
  have m2: "loader n2 ?m2" by (rule loader_call [OF loader_refl]) simp
  from rest obtain n3 n4 n5 n6 n7 where s: "NaClElfImageLoad os ops validator img ndp ?m2 = Inr (n3, LOAD_OK)"
    "NaClMakeDynamicTextShared os malloc sz n3 = Inr (n4, LOAD_OK)" "NaClFillEndOfTextRegion n4 = Inr n5"
    "validate_loaded validator n5 = Inr (n6, LOAD_OK)" "NaClLoadTrampoline os code_addr n6 = Inr n7"
    "NaClMemoryProtection os n7 = Inr (nap', LOAD_OK)"
    unfolding andLoad_ok andThen_eq_Inr by blast
  have "loader n2 n3"
    using loader_trans [OF m2] load_segments_loader s(1) unfolding NaClElfImageLoad_def by blast
  from that [OF h [unfolded r] n2 this s(2-6)] show thesis .
qed

lemma load_sandbox:
  assumes "NaClAppLoadFileAslr os ops malloc sz validator code_addr ndp nap aslr_mode = Inr (nap', LOAD_OK)"
    and "fresh nap" and "space_found os" and "no_segment_at_top (malloc sizeof_image) (PRead ops ndp)"
    and "text_shm nap' \<noteq> None" and "text_pages nap' < 2 ^ 15"
  shows "sandbox_inv nap'" and "logs nap nap'"
    and "0x10000 \<le> p * 4096 \<Longrightarrow> p * 4096 < unat (dynamic_text_end nap') \<Longrightarrow>
      map_option pv_prot (page_at (mem_map nap') p) = Some (PROT_READ OR PROT_EXEC)"
proof -
  obtain img n1 n2 n3 n4 n5 n6 n7 where
    h: "load_headers (malloc sizeof_image) (PRead ops ndp) nap = Inr (n1, Inr img)"
    and a: "NaClAllocAddrSpaceAslr os n1 aslr_mode = Inr (n2, LOAD_OK)"
    and l: "loader n2 n3" and d: "NaClMakeDynamicTextShared os malloc sz n3 = Inr (n4, LOAD_OK)"
    and f: "NaClFillEndOfTextRegion n4 = Inr n5" and v: "validate_loaded validator n5 = Inr (n6, LOAD_OK)"
    and t: "NaClLoadTrampoline os code_addr n6 = Inr n7" and m: "NaClMemoryProtection os n7 = Inr (nap', LOAD_OK)"
    by (rule load_steps [OF assms(1)])
  have r2: "ready n2" by (rule ready_placed [OF assms(2) h assms(4) a assms(3)])
  have r3: "ready n3" by (rule ready_loader [OF l r2])
  have l57: "loader n5 n7" using loader_trans [OF validate_loaded_loader [OF v] load_trampoline_loader [OF t]] .
  have "text_shm n4 \<noteq> None"
    using assms(5) protection_text_shm [OF m] loader_fields(15) [OF l57] fill_end_text_shm [OF f] by simp
  moreover have "header_layout n3" "text_shm n3 = None" using r3 by (simp_all add: ready_def fresh_def)
  ultimately have area: "area_made n3 n4" using make_dynamic [OF d] by blast
  have n7: "loaded n7" by (rule loaded_loader [OF l57 ready_area_loaded [OF r3 area f]])
  then have il: "image_layout n7" by (simp add: loaded_def)
  note p = memory_protection [OF il m]
  obtain vm cs where nap': "nap' = n7\<lparr> mem_map := vm, host_log := host_log n7 @ cs \<rparr>" "\<forall>c \<in> set cs. wx_ok c"
    "\<And>p. prot_of vm p = image_prot n7 p"
    using p(1) unfolding protected_def by blast
  have "text_pages n7 < 2 ^ 15" using assms(6) by (simp add: nap'(1) text_pages_def)
  then show "sandbox_inv nap'" by (rule protected_sandbox [OF n7 _ p])
  have "logs nap n1"
    using load_headers_layout(2) [OF h _ assms(4)] assms(2) by (auto simp: headers_written_def fresh_def logs_def)
  moreover have "logs n1 n2"
  proof -
    have "fresh n1" using load_headers_layout(2) [OF h _ assms(4)] assms(2) by (auto simp: headers_written_def fresh_def table_ok_def)
    moreover have "65536 dvd unat (stack_size n1)"
      using load_headers_layout(1) [OF h _ assms(4)] assms(2) by (simp add: header_layout_def fresh_def)
    ultimately show ?thesis
      using alloc_space_placed(1) [OF a _ assms(3)] by (auto simp: fresh_def placed_def logs_def)
  qed
  moreover have "logs n2 n3" using l by (simp add: loader_def)
  moreover have "logs n3 n5" using area fill_end_text_shm [OF f] by (auto simp: area_made_def logs_def)
  moreover have "logs n5 n7" using l57 by (simp add: loader_def)
  moreover have "logs n7 nap'" using nap'(1,2) by (auto simp: logs_def)
  ultimately show "logs nap nap'" by (meson logs_trans)
  show "map_option pv_prot (page_at (mem_map nap') p) = Some (PROT_READ OR PROT_EXEC)"
    if "0x10000 \<le> p * 4096" "p * 4096 < unat (dynamic_text_end nap')"
  proof -
    have "unat (static_text_end n7) = unat (dynamic_text_start n7)" using n7 by (simp add: loaded_def)
    then have "image_prot n7 p = Some (PROT_READ OR PROT_EXEC)"
      using that nap'(1) unfolding image_prot_def Let_def by simp
    then show ?thesis using nap'(1,3) by (simp add: prot_of_def)
  qed
qed

subsection \<open>A concrete load\<close>

definition sample_loader :: os where
  "sample_loader lg call = (case call of HostErrno \<Rightarrow> 12 | HostMapAnon a n pr fl off \<Rightarrow> a
     | HostMapDesc d a n pr fl off \<Rightarrow> a | HostShmCreate n \<Rightarrow> 5 | HostPageAlloc n \<Rightarrow> 0x700000000000
     | HostAllocateSpace n b \<Rightarrow> if n < 0x10000000000 then 0x7e0000000000 else 0
     | HostMapTrusted d n pr fl off \<Rightarrow> if n < 0x10000000000 then 0x7fff00000000 else - 12 | _ \<Rightarrow> 0)"

definition sample_contents :: "u8 list" where
  "sample_contents = sample_elf @ replicate 0x40000 0xf4"

definition sample_load_ops :: "unit LoadOps" where
  "sample_load_ops = DescOps.extend (sample_descs\<lparr> DescIsSafeForMmap := (\<lambda>_. False) \<rparr>) \<lparr> PRead = (\<lambda>_. contents_file sample_contents) \<rparr>"

definition sample_app :: NaClLoadApp where
  "sample_app = (NaClAppCtor True True sample_array (\<lambda>_. 0))\<lparr> validator_stub_out_mode := True \<rparr>"

lemma sample_load_ops_simps [simp]:
  "PRead sample_load_ops d = contents_file sample_contents" "DescIsSafeForMmap sample_load_ops d = False"
  by (simp_all add: sample_load_ops_def DescOps.defs sample_descs_def)

lemma length_sample_elf: "length sample_elf = 232"
  using length_concat_encode(2) [of sample_phdrs] length_encode(4) [of "widen_ehdr sample_ehdr"]
  by (simp add: sample_elf_def sample_phdrs_def) (simp add: sample_ehdr_def widen_ehdr_def)

lemma holds_elf_append:
  "holds_elf True c h phs \<Longrightarrow> 64 \<le> length c \<Longrightarrow> unat (e_phoff h) + 56 * length phs \<le> length c \<Longrightarrow>
   holds_elf True (c @ r) h phs"
  by (auto simp: holds_elf_def)

lemma sample_contents_image: "NaClElfImageNew True (contents_file sample_contents) = Inr (Inr sample_image)"
proof -
  have "holds_elf True sample_contents sample_ehdr sample_phdrs"
    unfolding sample_contents_def using length_sample_elf
    by (intro holds_elf_append [OF sample_holds]) (simp_all add: sample_ehdr_def sample_phdrs_def)
  from elf_image_new [OF this sample_exec] show ?thesis by (simp add: sample_image_def)
qed

lemma sample_no_top: "no_segment_at_top True (contents_file sample_contents)"
  by (simp add: no_segment_at_top_def sample_contents_image sample_image_def sample_phdrs_def sample_phdr_def)

lemma sample_fresh: "fresh sample_app"
  using fresh_ctor [OF sample_array_ok, of True True "\<lambda>_. 0"] by (simp add: fresh_def sample_app_def table_ok_def)

lemma sample_space_found: "space_found sample_loader"
  by (simp add: space_found_def sample_loader_def word_less_nat_alt)

lemma sample_environment_loader: "environment_ok sample_loader (DescOps.truncate sample_load_ops) halt_validator"
proof -
  have t: "DescOps.truncate sample_load_ops = sample_descs\<lparr> DescIsSafeForMmap := (\<lambda>_. False) \<rparr>"
    by (simp add: sample_load_ops_def DescOps.defs sample_descs_def)
  have "linux_host sample_loader (DescOps.truncate sample_load_ops)"
    by (simp add: t linux_host_def sample_loader_def sample_descs_def)
  moreover have "maps_ok sample_loader"
  proof -
    have "NaClPtrIsNegErrno (- 12)" by (simp add: NaClPtrIsNegErrno_def)
    then show ?thesis by (auto simp: maps_ok_def sample_loader_def word_less_nat_alt)
  qed
  moreover have "images_ok (DescOps.truncate sample_load_ops)" by (simp add: t images_ok_def sample_descs_def)
  moreover have "access_modes_ok (GetFlags (DescOps.truncate sample_load_ops))" using sample_access by (simp add: t)
  ultimately show ?thesis using halt_keeps by (simp add: environment_ok_def)
qed

text \<open>The headers.\<close>

definition sample_with_headers :: NaClLoadApp where
  "sample_with_headers = sample_app\<lparr> static_text_end := 0x20040, rodata_start := 0x10020000, data_start := 0x10030000,
     break_addr := 0x10030200, data_end := 0x10030200, bundle_size := 32, initial_entry_pt := 0x20000 \<rparr>"

lemma sample_load_headers:
  "load_headers True (contents_file sample_contents) sample_app = Inr (sample_with_headers, Inr sample_loadable)"
proof -
  have app: "addr_bits sample_app = 32" "stack_size sample_app = 0x1000000" "initial_nexe_max_code_bytes sample_app = 0"
    by (simp_all add: sample_app_def NaClAppCtor_def)
  have img: "ehdr sample_loadable = sample_ehdr" by (simp add: sample_loadable_def sample_image_def)
  have ss: "sample_app\<lparr> stack_size := 0x1000000 \<rparr> = sample_app" by (simp add: sample_app_def NaClAppCtor_def)
  have entry: "NaClAddrIsValidEntryPt sample_with_headers 0x20000"
    by (simp add: NaClAddrIsValidEntryPt_def sample_with_headers_def)
  have sane: "NaClCheckAddressSpaceLayoutSanity sample_with_headers 0x10020100 0x10030200 0x10030200 = LOAD_OK"
    by (simp add: NaClCheckAddressSpaceLayoutSanity_def sample_with_headers_def NaClEndOfStaticText_def NaClRoundAllocPage_def
        NaClTruncAllocPage_def)
  show ?thesis
    unfolding load_headers_def Let_def
    using entry sane
    by (simp add: app sample_contents_image sample_valid img NaClRoundAllocPage_def ss sample_info_def sample_ehdr_def
        sample_with_headers_def)
qed

text \<open>The address space, the segments, the dynamic text, the validation and the trampolines.\<close>

lemma sample_alloc:
  "\<exists>lg. NaClAllocAddrSpaceAslr sample_loader sample_with_headers True =
     Inr (sample_with_headers\<lparr> mem_start := 0x7e0a00000000, user_mem := (\<lambda>_. 0), host_log := lg \<rparr>, LOAD_OK)"
  by (simp add: NaClAllocAddrSpaceAslr_def NaClAllocateSpaceAslr_def NaClAllocatePow2AlignedMemory_def Let_def host_def
      sample_loader_def sample_with_headers_def sample_app_def NaClAppCtor_def addr_limit_def NaClRoundAllocPage_def
      NaClTruncAllocPage_def)

lemma sample_pread:
  assumes "unat off + unat n \<le> 0x40000"
  shows "\<exists>u. pread_into sample_load_ops nap d addr n off = (nap\<lparr> user_mem := u \<rparr>, True)"
  using assms by (intro exI) (auto simp: pread_into_def contents_file_def sample_contents_def length_sample_elf)

lemma sample_load_segments:
  assumes "addr_bits nap = 32" and "mem_start nap = 0x7e0a00000000"
  shows "\<exists>u. NaClElfImageLoad sample_loader sample_load_ops validator sample_loadable 0 nap =
    Inr (nap\<lparr> user_mem := u \<rparr>, LOAD_OK)"
proof -
  have read: "\<exists>u. load_segment sample_loader sample_load_ops validator n 0 (sample_phdr off va fsz msz fl) =
      Inr (n\<lparr> user_mem := u \<rparr>, LOAD_OK)"
    if "NaClTruncAllocPage (ucast off) = ucast off" "fsz \<noteq> 0" "\<not> ucast (va + fsz) < (ucast va :: u64)"
      "\<not> ucast (va + fsz) \<ge> (2 ^ 32 :: u64)" "ucast (ucast off :: u64) = off"
      "NaClUserToSysAddr n (NaClTruncAllocPage (ucast va)) \<noteq> kNaClBadAddress"
      "unat (ucast off :: u64) + unat (ucast fsz :: u64) \<le> 0x40000" "addr_bits n = 32"
    for n :: "'a NaClLoadApp_scheme" and off va fsz msz fl
  proof -
    note c = that
    obtain u where u: "pread_into sample_load_ops n 0 (NaClUserToSysAddr n (NaClTruncAllocPage (ucast va))) (ucast fsz) (ucast off) =
        (n\<lparr> user_mem := u \<rparr>, True)"
      using sample_pread [OF c(7)] by blast
    have p: "p_offset (sample_phdr off va fsz msz fl) = off" "p_filesz (sample_phdr off va fsz msz fl) = fsz"
      "p_vaddr (sample_phdr off va fsz msz fl) = va" by (simp_all add: sample_phdr_def)
    have lim: "addr_limit n = 2 ^ 32" using that(8) by (simp add: addr_limit_def)
    have sz: "off + fsz - off = fsz" by simp
    show ?thesis
      unfolding load_segment_def Let_def p that(1,5) sz lim if_not_P [OF that(2)] if_not_P [OF that(3)] if_not_P [OF that(4)]
      using that(6) by (intro exI [of _ u]) (simp add: u)
  qed
  have seg: "\<exists>u. load_segment sample_loader sample_load_ops validator n 0 php = Inr (n\<lparr> user_mem := u \<rparr>, LOAD_OK)"
    if "php \<in> set sample_phdrs" "addr_bits n = 32" "mem_start n = 0x7e0a00000000" for n :: "'a NaClLoadApp_scheme" and php
  proof -
    note c = that
    have lim: "addr_limit n = 0x100000000" using c(2) by (simp add: addr_limit_def)
    have "php = sample_phdr 0x10000 0x20000 0x40 0x40 5 \<or> php = sample_phdr 0x20000 0x10020000 0x100 0x100 4 \<or>
      php = sample_phdr 0x30000 0x10030000 0x80 0x200 6" using c(1) by (simp add: sample_phdrs_def)
    then show ?thesis
      by (elim disjE) (auto intro!: read simp: NaClTruncAllocPage_def NaClUserToSysAddr_def lim c(2,3))
  qed
  obtain p q r where pqr: "sample_phdrs = [p, q, r]" by (simp add: sample_phdrs_def)
  have "zip (take (unat (e_phnum (ehdr sample_loadable))) (phdrs sample_loadable)) (loadable sample_loadable) =
      [(p, True), (q, True), (r, True)]"
    by (simp add: sample_loadable_def sample_image_def pqr) (simp add: sample_ehdr_def)
  note z = this
  obtain u where u: "load_segment sample_loader sample_load_ops validator nap 0 p = Inr (nap\<lparr> user_mem := u \<rparr>, LOAD_OK)"
    using seg [of p nap] assms by (auto simp: pqr)
  obtain v where v: "load_segment sample_loader sample_load_ops validator (nap\<lparr> user_mem := u \<rparr>) 0 q = Inr (nap\<lparr> user_mem := v \<rparr>, LOAD_OK)"
    using seg [of q "nap\<lparr> user_mem := u \<rparr>"] assms by (auto simp: pqr)
  obtain w where w: "load_segment sample_loader sample_load_ops validator (nap\<lparr> user_mem := v \<rparr>) 0 r = Inr (nap\<lparr> user_mem := w \<rparr>, LOAD_OK)"
    using seg [of r "nap\<lparr> user_mem := v \<rparr>"] assms by (auto simp: pqr)
  show ?thesis unfolding NaClElfImageLoad_def z by (simp add: u v w) (rule exI, rule refl)
qed

lemma halt_validates:
  assumes "validator_stub_out_mode nap" and "\<not> fixed_feature_cpu_mode nap"
    and "mem_start nap + 0x20000 \<le> mem_start nap + static_text_end nap"
  shows "\<exists>mem'. NaClValidateImage halt_validator nap mem = Inr (LOAD_OK, mem')"
  using assms by (auto simp: NaClValidateImage_def NaClValidateCode_def halt_validator_def Let_def)

lemma patch_ok: "target \<noteq> 0 \<Longrightarrow> \<exists>m. NaClPatchOneTrampolineCall c target a mem = Inr m"
  by (simp add: NaClPatchOneTrampolineCall_def NaCl_trampoline_code_def)

lemma patches_ok: "target \<noteq> 0 \<Longrightarrow> \<exists>m. patch_trampolines c target a n mem = Inr m"
proof (induction n arbitrary: a mem)
  case (Suc n)
  obtain m where "NaClPatchOneTrampolineCall c target a mem = Inr m" using patch_ok [OF Suc.prems] by blast
  with Suc show ?case by simp
qed simp

lemma sample_trampoline:
  assumes "nacl_syscall_addr nap = 0"
  shows "\<exists>lg u. NaClLoadTrampoline sample_loader c nap = Inr (nap\<lparr> host_log := lg, user_mem := u,
     nacl_syscall_addr := 0x700000000000, get_tls_fast_path1_addr := 0x700000000008, get_tls_fast_path2_addr := 0x700000000010 \<rparr>)"
proof -
  let ?s = "mem_start nap + 0x10000"
  have d: "\<exists>lg. NaClMakeDispatchAddrs sample_loader nap = Inr (nap\<lparr> host_log := lg,
     nacl_syscall_addr := 0x700000000000, get_tls_fast_path1_addr := 0x700000000008, get_tls_fast_path2_addr := 0x700000000010 \<rparr>, True)"
    using assms by (simp add: NaClMakeDispatchAddrs_def host_def sample_loader_def Let_def) (rule exI, rule refl)
  then obtain lg where lg: "NaClMakeDispatchAddrs sample_loader nap = Inr (nap\<lparr> host_log := lg,
     nacl_syscall_addr := 0x700000000000, get_tls_fast_path1_addr := 0x700000000008, get_tls_fast_path2_addr := 0x700000000010 \<rparr>, True)" ..
  have nz: "(0x700000000000 :: u64) \<noteq> 0" "(0x700000000008 :: u64) \<noteq> 0" "(0x700000000010 :: u64) \<noteq> 0" by simp_all
  obtain m1 where m1: "patch_trampolines c 0x700000000000 ?s ((0x20000 - 0x10000) div 32 - 1)
      (NaClFillMemoryRegionWithHalt ?s 0x10000 (user_mem nap)) = Inr m1"
    using patches_ok [OF nz(1)] by blast
  obtain m2 where m2: "NaClPatchOneTrampolineCall c 0x700000000008 (?s + 32 * 84) m1 = Inr m2"
    using patch_ok [OF nz(2)] by blast
  obtain m3 where m3: "NaClPatchOneTrampolineCall c 0x700000000010 (?s + 32 * 86) m2 = Inr m3"
    using patch_ok [OF nz(3)] by blast
  show ?thesis
    unfolding NaClLoadTrampoline_def lg Let_def using m1 m2 m3
    by (intro exI [of _ lg] exI [of _ m3]) simp
qed

lemma sample_dynamic:
  assumes "use_shm_for_dynamic_text nap" and "static_text_end nap = 0x20040" and "rodata_start nap = 0x10020000"
    and "addr_bits nap = 32"
  shows "\<exists>lg. NaClMakeDynamicTextShared sample_loader (\<lambda>_. True) sz nap = Inr (nap\<lparr> host_log := lg,
     dynamic_page_bitmap := BitmapAllocate 0xfff, dynamic_text_start := 0x30000, dynamic_text_end := 0x10020000,
     text_shm := Some 5, text_mem := (\<lambda>_. 0) \<rparr>, LOAD_OK)"
proof -
  have s: "NaClRoundAllocPage 0x20040 = 0x30000" by (simp add: NaClRoundAllocPage_def)
  show ?thesis
    unfolding NaClMakeDynamicTextShared_def Let_def NaClEndOfStaticText_def assms(2) s
    by (simp add: assms host_def sample_loader_def NaClUserToSys_def addr_limit_def) (rule exI, rule refl)
qed

lemma sample_protection:
  assumes "addr_bits nap = 32" and "mem_start nap = 0x7e0a00000000" and "static_text_end nap = 0x30000"
    and "dynamic_text_start nap = 0x30000" and "dynamic_text_end nap = 0x10020000" and "rodata_start nap = 0x10020000"
    and "data_start nap = 0x10030000" and "data_end nap = 0x10030200" and "stack_size nap = 0x1000000"
  shows "\<exists>m lg. NaClMemoryProtection sample_loader nap = Inr (nap\<lparr> host_log := lg, mem_map := m \<rparr>, LOAD_OK)"
proof -
  have h: "host sample_loader n (HostMprotect a k p) = (0, n\<lparr> host_log := host_log n @ [HostMprotect a k p] \<rparr>)"
    for n :: "'a NaClLoadApp_scheme" and a k p by (simp add: host_def sample_loader_def)
  show ?thesis
    using assms by (simp add: NaClMemoryProtection_def protect_text_def protect_rodata_def protect_data_def protect_stack_def
      record_dynamic_text_def protect_region_def add_mapping_def andLoad_def h Let_def NaClUserToSys_def NaClSysToUser_def
      addr_limit_def NaClTruncAllocPage_def NaClRoundAllocPage_def NaClRoundPage_def) (rule exI, rule exI, rule refl)
qed

lemma sample_load:
  "\<exists>n. NaClAppLoadFileAslr sample_loader sample_load_ops (\<lambda>_. True) sz halt_validator c 0 sample_app True = Inr (n, LOAD_OK) \<and>
     text_shm n \<noteq> None \<and> text_pages n < 2 ^ 15 \<and> 0x20000 \<le> unat (dynamic_text_end n) \<and> \<not> main_exe_prevalidated n"
proof -
  obtain lg2 where a: "NaClAllocAddrSpaceAslr sample_loader sample_with_headers True =
     Inr (sample_with_headers\<lparr> mem_start := 0x7e0a00000000, user_mem := (\<lambda>_. 0), host_log := lg2 \<rparr>, LOAD_OK)"
    using sample_alloc by blast
  let ?n2 = "sample_with_headers\<lparr> mem_start := 0x7e0a00000000, user_mem := (\<lambda>_. 0), host_log := lg2 \<rparr>"
  have w: "stack_size sample_with_headers = 0x1000000" "addr_bits sample_with_headers = 32"
    "use_shm_for_dynamic_text sample_with_headers" "static_text_end sample_with_headers = 0x20040"
    "rodata_start sample_with_headers = 0x10020000" "data_start sample_with_headers = 0x10030000"
    "data_end sample_with_headers = 0x10030200" "break_addr sample_with_headers = 0x10030200"
    "validator_stub_out_mode sample_with_headers" "\<not> fixed_feature_cpu_mode sample_with_headers"
    "nacl_syscall_addr sample_with_headers = 0" "text_shm sample_with_headers = None"
    "\<not> main_exe_prevalidated sample_with_headers"
    by (simp_all add: sample_with_headers_def sample_app_def NaClAppCtor_def)
  let ?c = "HostMprotect (mem_start ?n2 + 0x10000) (NaClRoundAllocPage (data_end ?n2) - 0x10000) (PROT_READ OR PROT_WRITE)"
  define m2 where "m2 = ?n2\<lparr> host_log := host_log ?n2 @ [?c] \<rparr>"
  have h2: "host sample_loader ?n2 ?c = (0, m2)" by (simp add: m2_def host_def sample_loader_def)
  obtain u where s: "NaClElfImageLoad sample_loader sample_load_ops halt_validator sample_loadable 0 m2 =
      Inr (m2\<lparr> user_mem := u \<rparr>, LOAD_OK)"
    using sample_load_segments [of m2 halt_validator] by (auto simp: m2_def w)
  define n3 where "n3 = m2\<lparr> user_mem := u \<rparr>"
  obtain lg4 where d: "NaClMakeDynamicTextShared sample_loader (\<lambda>_. True) sz n3 = Inr (n3\<lparr> host_log := lg4,
     dynamic_page_bitmap := BitmapAllocate 0xfff, dynamic_text_start := 0x30000, dynamic_text_end := 0x10020000,
     text_shm := Some 5, text_mem := (\<lambda>_. 0) \<rparr>, LOAD_OK)"
    using sample_dynamic [of n3 sz] by (auto simp: n3_def m2_def w)
  define n4 where "n4 = n3\<lparr> host_log := lg4,
     dynamic_page_bitmap := BitmapAllocate 0xfff, dynamic_text_start := 0x30000, dynamic_text_end := 0x10020000,
     text_shm := Some 5, text_mem := (\<lambda>_. 0) \<rparr>"
  have "\<exists>u. NaClFillEndOfTextRegion n4 = Inr (n4\<lparr> user_mem := u, static_text_end := 0x30000 \<rparr>)"
    by (simp add: NaClFillEndOfTextRegion_def n4_def n3_def m2_def w NaClTruncAllocPage_def NaClRoundAllocPage_def Let_def)
      (rule exI, rule refl)
  then obtain u5 where f: "NaClFillEndOfTextRegion n4 = Inr (n4\<lparr> user_mem := u5, static_text_end := 0x30000 \<rparr>)" ..
  define n5 where "n5 = n4\<lparr> user_mem := u5, static_text_end := 0x30000 \<rparr>"
  obtain u6 where "NaClValidateImage halt_validator n5 (user_mem n5) = Inr (LOAD_OK, u6)"
    using halt_validates [of n5 "user_mem n5"] by (auto simp: n5_def n4_def n3_def m2_def w)
  then have v: "validate_loaded halt_validator n5 = Inr (n5\<lparr> user_mem := u6 \<rparr>, LOAD_OK)"
    by (simp add: validate_loaded_def) (simp add: n5_def n4_def n3_def m2_def w)
  define n6 where "n6 = n5\<lparr> user_mem := u6 \<rparr>"
  obtain lg7 u7 where t: "NaClLoadTrampoline sample_loader c n6 = Inr (n6\<lparr> host_log := lg7, user_mem := u7,
     nacl_syscall_addr := 0x700000000000, get_tls_fast_path1_addr := 0x700000000008, get_tls_fast_path2_addr := 0x700000000010 \<rparr>)"
    using sample_trampoline [of n6 c] by (auto simp: n6_def n5_def n4_def n3_def m2_def w)
  define n7 where "n7 = n6\<lparr> host_log := lg7, user_mem := u7,
     nacl_syscall_addr := 0x700000000000, get_tls_fast_path1_addr := 0x700000000008, get_tls_fast_path2_addr := 0x700000000010 \<rparr>"
  note defs = n7_def n6_def n5_def n4_def n3_def m2_def
  obtain m lg8 where p: "NaClMemoryProtection sample_loader n7 = Inr (n7\<lparr> host_log := lg8, mem_map := m \<rparr>, LOAD_OK)"
    using sample_protection [of n7] by (auto simp: defs w)
  have "NaClAppLoadFileAslr sample_loader sample_load_ops (\<lambda>_. True) sz halt_validator c 0 sample_app True =
      Inr (n7\<lparr> host_log := lg8, mem_map := m \<rparr>, LOAD_OK)"
    unfolding NaClAppLoadFileAslr_def sample_load_ops_simps sample_load_headers andThen.simps prod.case sum.case
      load_image_def andLoad_def a Let_def h2
    using s [folded n3_def] d [folded n4_def] f [folded n5_def] v [folded n6_def] t [folded n7_def] p by simp
  moreover have "text_pages (n7\<lparr> host_log := lg8, mem_map := m \<rparr>) < 2 ^ 15"
    by (simp add: text_pages_def defs)
  moreover have "text_shm (n7\<lparr> host_log := lg8, mem_map := m \<rparr>) \<noteq> None" by (simp add: defs)
  moreover have "0x20000 \<le> unat (dynamic_text_end (n7\<lparr> host_log := lg8, mem_map := m \<rparr>))" by (simp add: defs)
  moreover have "\<not> main_exe_prevalidated (n7\<lparr> host_log := lg8, mem_map := m \<rparr>)" by (simp add: defs w)
  ultimately show ?thesis by blast
qed

end
