(* ===== verification/Spec2Isabelle.thy ===== *)
theory Spec2Isabelle
  imports Vmmap_Contract Desc_Table Sandbox Dyn_Text_Liveness Elf_Image_Proofs Load_Sandbox
begin

text \<open>
  Verification library of the Native Client service runtime (\<open>src/src/trusted\<close>), in its x86-64 Linux build.

  \<^bold>\<open>The program.\<close>  The service runtime loads an untrusted executable into a 4 GB region of its own address
  space and serves its system calls.  Its safety rests on a few data structures and on the code that
  changes them: a map of the pages of the region (\<open>sel_mem.c\<close>), a table of descriptors on a dynamic array
  (\<open>sel_ldr.c\<close>, \<open>dyn_array.c\<close>), a multiset of address ranges with pending input and output
  (\<open>interval_multiset\<close>), a table of dynamically loaded code regions and the memory object behind them
  (\<open>nacl_text.c\<close>), the policy around the instruction validator (\<open>sel_validate_image.c\<close>), and the loader
  that builds the initial state (\<open>elf_util.c\<close>, \<open>sel_ldr_standard.c\<close>, \<open>sel_addrspace.c\<close>).  The
  instruction validator is called through its interface.  Memory and code calls work on
  the same \<open>struct NaClApp\<close>; here each component adds the fields it works on to the record:
  \<open>NaClApp\<close>, \<open>NaClPolicyApp\<close>, \<open>NaClTextApp\<close>, \<open>NaClLoadApp\<close>.

  \<^bold>\<open>Theories and sources\<close> (files in \<open>service_runtime\<close> unless a directory is named).

  \<^item> \<open>Nacl_Prelude\<close>: machine integers, the outcome type \<open>run\<close>, the collections \<open>run_simps\<close> and
    \<open>nat_of_word\<close>, generic lemmas.  \<open>Nacl_Config\<close>: constants and page arithmetic
    (\<open>nacl_config.h\<close>, \<open>sel_util-inl.h\<close>).  \<open>C_Stdlib\<close>: \<open>qsort\<close> and \<open>bsearch\<close>.
  \<^item> \<open>Vmmap\<close>: all operations of \<open>sel_mem.c\<close>.  \<open>Vmmap_Proofs\<close>, \<open>Vmmap_Protect\<close>,
    \<open>Vmmap_Search\<close>: the map as a partial function from pages (\<open>page_at\<close>), its invariant \<open>vm_ok\<close>, updates,
    protection, search.  \<open>Vmmap_Contract\<close>: the locales \<open>page_map\<close> and \<open>searchable_page_map\<close>,
    interpreted on the model, and the properties of the map.
  \<^item> \<open>Interval_Multiset\<close>: the interface of \<open>nacl_interval_multiset.h\<close> as the locale
    \<open>interval_multiset\<close> and its list implementation; \<open>Range_Tree\<close> and \<open>Range_Tree_Proofs\<close>: the AVL
    tree \<open>nacl_interval_range_tree.c\<close>, which interprets the same locale and so equals the list.
  \<^item> \<open>Dyn_Array\<close>: \<open>dyn_array.c\<close> with the locale \<open>slot_table\<close>.  \<open>Nacl_App\<close>: the address space part of
    \<open>NaClApp\<close> and \<open>sel_ldr-inl.h\<close>.  \<open>Desc_Table\<close>: descriptors and pending regions of
    \<open>sel_ldr.c\<close>.  \<open>Nacl_Error_Code\<close>: \<open>nacl_error_code.c\<close>.
  \<^item> \<open>Sel_Validate\<close>: \<open>sel_validate_image.c\<close> over the record \<open>NaClValidatorInterface\<close> of
    \<open>validator/ncvalidate.h\<close>.
  \<^item> \<open>Dyn_Region\<close>, \<open>Code_Copy\<close>, \<open>Dyn_Text\<close>: \<open>nacl_text.c\<close>: the region table and the
    thread generations, the stores into running code as sequences of events, the system calls.
    \<open>Dyn_Text_Proofs\<close>, \<open>Dyn_Text_Safety\<close>, \<open>Dyn_Text_Calls\<close>: the invariant \<open>text_inv\<close> (what is visible and not
    loaded is halted) and what each call does.  \<open>Dyn_Text_Liveness\<close>: a deletion completes.
  \<^item> \<open>Sys_Memory\<close>, \<open>Sys_Mmap\<close>: \<open>sys_memory.c\<close>; \<open>Sys_Memory_Proofs\<close>,
    \<open>Sys_Mprotect_Proofs\<close>, \<open>Sys_Brk_Proofs\<close>, \<open>Sys_Mmap_Proofs\<close>: the exact effect of each call.
  \<^item> \<open>Sandbox_Steps\<close>, \<open>Sandbox\<close>: the system calls as the steps of one state machine (\<open>sys_step\<close>),
    the invariant \<open>sandbox_inv\<close>, and that every step keeps it.
  \<^item> \<open>Elf_Image\<close>, \<open>Elf_Image_Proofs\<close>: reading and checking headers (\<open>elf_util.c\<close>).
    \<open>Load_File\<close>: segments (\<open>elf_util.c\<close>), address space and protection (\<open>sel_addrspace.c\<close>,
    \<open>arch/x86_64/sel_addrspace_posix_x86_64.c\<close>), trampolines (\<open>sel_ldr.c\<close>,
    \<open>arch/x86_64/sel_ldr_x86_64.c\<close>, \<open>tramp_64.S\<close>) and \<open>NaClAppLoadFile\<close>
    (\<open>sel_ldr_standard.c\<close>).  \<open>Load_Layout\<close>: \<open>NaClMemoryProtection\<close> is exact.  \<open>Load_Sandbox\<close>: a
    successful load ends in \<open>sandbox_inv\<close>.

  \<^bold>\<open>Conventions.\<close>  Integers keep their width as words, so wrap-around is that of the code.  An operation that can abort has type
  \<open>'a run\<close>, a sum: \<open>Inl\<close> is the way the process dies (\<open>LOG_FATAL\<close>, a failed \<open>CHECK\<close>, a null dereference, or a loop
  that does not end) and \<open>Inr\<close> the result; error numbers of system calls are values.  The host kernel is a function
  \<open>os\<close> from the calls made so far and the next call to its answer; the calls are appended to
  \<open>host_log\<close>, so that a theorem can speak about what was asked of the host.  Files and other
  descriptors are the record \<open>DescOps\<close> (extended by \<open>LoadOps\<close>) of the methods that the code calls.  Where an
  allocation may fail the allocator is a parameter.  What is relied on about these parameters is named: \<open>linux_host\<close> (with
  \<open>MAP_FIXED\<close> the kernel maps where it is told to or returns an error), \<open>maps_ok\<close>
  (trusted mappings are page aligned and do not wrap), \<open>images_ok\<close>, \<open>access_modes_ok\<close>, \<open>keeps_code\<close> (the
  validator never changes the size of code, and nothing of code that is handed over as read-only), all in \<open>environment_ok\<close>; \<open>space_found\<close> (the reserved memory does
  not wrap).  Witnesses instantiate every one of them.

  \<^bold>\<open>Bounds.\<close>  No fuel is used: loops are structural recursions or have termination proofs; the one loop of the code that may not
  end (growth of the dynamic array) yields a value of its own.  \<open>max_pages\<close> (\<open>2 ^ 31\<close> pages), \<open>max_intervals\<close>
  (\<open>2 ^ 31\<close>) and \<open>max_space\<close> (\<open>2 ^ 40\<close> slots) are far above what a 4 GB
  sandbox can reach.  One bound is a real restriction: \<open>text_inv\<close>, and with it every property of dynamic code and of the
  sandbox, takes the dynamic text area to be below 2 GB (\<open>text_pages < 2 ^ 15\<close>).  The loader sets no such
  limit, and an executable whose data lies high enough goes beyond it; then \<open>CopyBundleTails\<close>, which takes its size as
  a signed 32-bit number, copies no tail of a piece of 2 GB or more (\<open>tails_truncated\<close> in \<open>Code_Copy\<close>).

  \<^bold>\<open>Properties.\<close>  The main ones compose the components: the loader establishes the invariant of the sandbox and all system calls keep
  it (C1 and C2, in this theory), so that text stays mapped readable and executable and never
  writable, nothing above it becomes executable, unloaded code is halted.  The others state the exact behaviour of the
  components they rest on, on every branch, and the errors that modelling has found.

  \<^bold>\<open>Not modelled, and why.\<close>  Locks: every system call is one step, which is what the mutexes of the code make it (only the
  fall-back of a code mapping releases one of them before the region is created); stores into running code are modelled store by
  store.  Contents of data memory: \<open>text_mem\<close> is the memory object behind the dynamic text and \<open>user_mem\<close>
  what the loader writes; code that \<open>mmap\<close> puts over the area is recorded only as a region.
  \<open>NaClSysDyncodeModify\<close> is modelled but is no step of the machine, as its safety is that of the validator's comparison.
  The steps leave out two calls that the development shows to break it (each has its own property): a zero-length \<open>mprotect\<close>, and a
  creation that ends exactly at 4 GB; the load leaves out segments that end there and dynamic text areas of 2 GB or
  more.  The instruction
  validators, mostly generated tables, are a parameter, the record of the interface that they implement.  Threads, signals, context switches, sockets, files, the debug
  stub, the browser side and the code inside the sandbox are host interaction or not trusted; the manifest lists them.
\<close>

text \<open> C1. The sandbox holds.  From a sandbox that satisfies the invariant (its dynamic text area is below 2 GB), whatever
  sequence of memory and dynamic code system calls untrusted threads make, without zero-length \<open>mprotect\<close> calls (see C35) and
  creations that end exactly at 4 GB (see C36), and whatever the host, the files and the validator answer within
  their documented behaviour: every visible bundle of the dynamic text area that no loaded
  region covers is halted; the memory map of the text is as it was; no page above the text
  has become executable in the memory map; and no call has asked the host for memory that is both writable and
  executable.\<close>

theorem sandbox_reachable_safe:
  assumes "sandbox_inv nap" and "environment_ok os ops validator" and "(sys_step os ops validator)\<^sup>*\<^sup>* nap nap'"
  shows "(\<forall>k. bundle_visible nap' k \<and> \<not> live_bundle nap' k \<longrightarrow> bundle_halted nap' k) \<and>
    (\<forall>p. p * 4096 < unat (dynamic_text_end nap) \<longrightarrow> page_at (mem_map nap') p = page_at (mem_map nap) p) \<and>
    (\<forall>p v. unat (dynamic_text_end nap) \<le> p * 4096 \<and> page_at (mem_map nap') p = Some v \<longrightarrow>
       pv_prot v AND PROT_EXEC = 0) \<and>
    (\<exists>calls. host_log nap' = host_log nap @ calls \<and> (\<forall>c \<in> set calls. wx_ok c))"
proof -
  have s: "sandbox_inv nap'" "text_kept nap nap'" using sys_reachable_inv [OF assms(3,1,2)] by blast+
  then have "idle_halted nap'" "data_not_exec nap'" using text_invD(8) by (auto simp: sandbox_inv_def)
  with s(2) show ?thesis by (auto simp: idle_halted_def data_not_exec_def text_kept_def logs_def)
qed

lemma sandbox_reachable_safe_witness:
  "\<exists>nap'. sys_step sample_kernel sample_descs halt_validator sample_mmap nap' \<and>
    page_at (mem_map nap') 0x10007 = None \<and> page_at (mem_map nap') 0 = page_at sample_vm 0 \<and>
    set (host_log nap') \<subseteq> set (host_log sample_mmap) \<union> Collect wx_ok"
proof -
  obtain nap' where n: "sys_step sample_kernel sample_descs halt_validator sample_mmap nap'"
    "page_at (mem_map nap') 0x10007 = None" using sample_unmap_step by blast
  have "(sys_step sample_kernel sample_descs halt_validator)\<^sup>*\<^sup>* sample_mmap nap'" using n(1) by blast
  from sandbox_reachable_safe [OF sample_sandbox sample_environment this] n
  show ?thesis by (auto simp: sample_mmap_fields)
qed

lemma load_and_run:
  assumes "NaClAppLoadFile os ops malloc sz validator code_addr ndp nap = Inr (loaded_nap, LOAD_OK)"
    and "fresh nap" and "space_found os" and "no_segment_at_top (malloc sizeof_image) (PRead ops ndp)"
    and "text_shm loaded_nap \<noteq> None" and "text_pages loaded_nap < 2 ^ 15"
    and "environment_ok os (DescOps.truncate ops) validator"
    and "(sys_step os (DescOps.truncate ops) validator)\<^sup>*\<^sup>* loaded_nap nap'"
  shows "sandbox_inv nap'" and "text_kept loaded_nap nap'" and "logs nap nap'"
    and "0x10000 \<le> p * 4096 \<Longrightarrow> p * 4096 < unat (dynamic_text_end loaded_nap) \<Longrightarrow>
      map_option pv_prot (page_at (mem_map nap') p) = Some (PROT_READ OR PROT_EXEC)"
proof -
  note load = load_sandbox [OF assms(1) [unfolded NaClAppLoadFile_def] assms(2-6)]
  show run: "sandbox_inv nap'" "text_kept loaded_nap nap'"
    using sys_reachable_inv [OF assms(8) load(1) assms(7)] by simp_all
  then show "logs nap nap'" using load(2) by (auto simp: text_kept_def intro: logs_trans)
  show "map_option pv_prot (page_at (mem_map nap') p) = Some (PROT_READ OR PROT_EXEC)"
    if "0x10000 \<le> p * 4096" "p * 4096 < unat (dynamic_text_end loaded_nap)"
    using load(3) [OF that] run(2) that(2) by (simp add: text_kept_def)
qed

text \<open> C2. The loader builds the sandbox, and the sandbox holds from then on.  Take a fresh application, an
  executable that \<open>NaClAppLoadFile\<close> accepts with dynamic code enabled (none of its segments
  ends exactly at 4 GB, and its dynamic text area is below 2 GB), and any sequence of memory and dynamic code system calls after the
  load, without zero-length \<open>mprotect\<close> calls and creations that end exactly at 4 GB.  Then every visible bundle of the dynamic text that no region covers is halted; all pages
  from the trampolines to the end of the dynamic text are mapped readable and executable but never
  writable; no page above them is executable; and from the start of the load on, no request to the host asked for
  memory that is both writable and executable.\<close>

theorem load_establishes_sandbox:
  assumes "NaClAppLoadFile os ops malloc sz validator code_addr ndp nap = Inr (loaded_nap, LOAD_OK)"
    and "fresh nap" and "space_found os" and "no_segment_at_top (malloc sizeof_image) (PRead ops ndp)"
    and "text_shm loaded_nap \<noteq> None" and "text_pages loaded_nap < 2 ^ 15"
    and "environment_ok os (DescOps.truncate ops) validator"
    and "(sys_step os (DescOps.truncate ops) validator)\<^sup>*\<^sup>* loaded_nap nap'"
  shows "(\<forall>k. bundle_visible nap' k \<and> \<not> live_bundle nap' k \<longrightarrow> bundle_halted nap' k) \<and>
    (\<forall>p. 0x10000 \<le> p * 4096 \<and> p * 4096 < unat (dynamic_text_end loaded_nap) \<longrightarrow>
       map_option pv_prot (page_at (mem_map nap') p) = Some (PROT_READ OR PROT_EXEC)) \<and>
    (\<forall>p v. unat (dynamic_text_end loaded_nap) \<le> p * 4096 \<and> page_at (mem_map nap') p = Some v \<longrightarrow>
       pv_prot v AND PROT_EXEC = 0) \<and>
    (\<exists>calls. host_log nap' = host_log nap @ calls \<and> (\<forall>c \<in> set calls. wx_ok c))"
proof -
  note run = load_and_run [OF assms]
  then have "idle_halted nap'" "data_not_exec nap'" using text_invD(8) by (auto simp: sandbox_inv_def)
  with run(2-4) show ?thesis by (auto simp: idle_halted_def data_not_exec_def text_kept_def logs_def)
qed

lemma load_establishes_sandbox_witness:
  "\<exists>nap'. NaClAppLoadFile sample_loader sample_load_ops (\<lambda>_. True) 64 halt_validator 0x400000 0 sample_app = Inr (nap', LOAD_OK) \<and>
     map_option pv_prot (page_at (mem_map nap') 16) = Some 5 \<and> set (host_log nap') \<subseteq> Collect wx_ok"
proof -
  obtain n where n: "NaClAppLoadFile sample_loader sample_load_ops (\<lambda>_. True) 64 halt_validator 0x400000 0 sample_app = Inr (n, LOAD_OK)"
    "text_shm n \<noteq> None" "text_pages n < 2 ^ 15" "0x20000 \<le> unat (dynamic_text_end n)"
    using sample_load unfolding NaClAppLoadFile_def by blast
  have top: "no_segment_at_top True (PRead sample_load_ops 0)" using sample_no_top by simp
  have s: "(sys_step sample_loader (DescOps.truncate sample_load_ops) halt_validator)\<^sup>*\<^sup>* n n" by blast
  note r = load_establishes_sandbox [OF n(1) sample_fresh sample_space_found top n(2,3) sample_environment_loader s]
  have "map_option pv_prot (page_at (mem_map n) 16) = Some (1 OR 4)" using r n(4) by auto
  moreover have "host_log sample_app = []" by (simp add: sample_app_def NaClAppCtor_def)
  then have "set (host_log n) \<subseteq> Collect wx_ok" using r by auto
  ultimately show ?thesis using n(1) by auto
qed

end
